(* ===== verification/Didi_Prelude.thy ===== *)
theory Didi_Prelude
  imports Main "HOL-Library.Word" "HOL-Library.List_Lexorder" "HOL-Library.Char_ord"
begin

text \<open>
  The vocabulary every component of the development shares.

  A \<open>std::string\<close> is a HOL \<open>string\<close>: a list of bytes, each read as an unsigned number by
  \<open>byte\<close>. A fallible operation returns \<open>Inl\<close> its refusal or \<open>Inr\<close> its answer. The
  helpers of the namespace \<open>didi::strings\<close> (\<open>include/didi/common/types.hpp\<close>) are defined
  here with the facts the components use about them.
\<close>

named_theorems byte_simps "facts that decide a condition on one byte"
named_theorems result_simps "facts on results of fallible operations"

section \<open>Results\<close>

type_synonym ('e, 'a) result = "'e + 'a"

fun rbind :: "('e, 'a) result \<Rightarrow> ('a \<Rightarrow> ('e, 'b) result) \<Rightarrow> ('e, 'b) result" where
  "rbind (Inl e) f = Inl e"
| "rbind (Inr a) f = f a"

fun is_ok :: "('e, 'a) result \<Rightarrow> bool" where
  "is_ok (Inl e) = False"
| "is_ok (Inr a) = True"

lemma rbind_Inr_iff [result_simps]: "rbind m f = Inr b \<longleftrightarrow> (\<exists>a. m = Inr a \<and> f a = Inr b)"
  by (cases m) auto

lemma rbind_Inl_iff [result_simps]:
  "rbind m f = Inl e \<longleftrightarrow> m = Inl e \<or> (\<exists>a. m = Inr a \<and> f a = Inl e)"
  by (cases m) auto

lemma is_ok_iff [result_simps]: "is_ok m \<longleftrightarrow> (\<exists>a. m = Inr a)"
  by (cases m) auto

section \<open>Bytes\<close>

abbreviation byte :: "char \<Rightarrow> nat" where
  "byte c \<equiv> of_char c"

lemma byte_less_256 [simp]: "byte c < 256"
  by simp

lemma char_of_byte [simp]: "char_of (byte c) = c"
  by simp

lemma byte_char_of [simp]: "n < 256 \<Longrightarrow> byte (char_of n) = n"
  by simp

definition is_digit :: "char \<Rightarrow> bool" where
  "is_digit c = (48 \<le> byte c \<and> byte c \<le> 57)"

definition is_alpha :: "char \<Rightarrow> bool" where
  "is_alpha c = ((65 \<le> byte c \<and> byte c \<le> 90) \<or> (97 \<le> byte c \<and> byte c \<le> 122))"

definition is_alnum :: "char \<Rightarrow> bool" where
  "is_alnum c = (is_alpha c \<or> is_digit c)"

definition is_space :: "char \<Rightarrow> bool" where
  "is_space c = ((9 \<le> byte c \<and> byte c \<le> 13) \<or> byte c = 32)"

definition tolower :: "char \<Rightarrow> char" where
  "tolower c = (if 65 \<le> byte c \<and> byte c \<le> 90 then char_of (byte c + 32) else c)"

section \<open>The namespace strings\<close>

text \<open>The four bytes \<open>trim\<close> strips.\<close>

definition is_trim_byte :: "char \<Rightarrow> bool" where
  "is_trim_byte c = (byte c \<in> {32, 9, 10, 13})"

definition trim :: "string \<Rightarrow> string" where
  "trim s = rev (dropWhile is_trim_byte (rev (dropWhile is_trim_byte s)))"

definition starts_with :: "string \<Rightarrow> string \<Rightarrow> bool" where
  "starts_with str pre = (length pre \<le> length str \<and> take (length pre) str = pre)"

definition ends_with :: "string \<Rightarrow> string \<Rightarrow> bool" where
  "ends_with str suf = (length suf \<le> length str \<and> drop (length str - length suf) str = suf)"

fun split_at :: "char \<Rightarrow> string \<Rightarrow> string list" where
  "split_at d [] = [[]]"
| "split_at d (c # cs) =
     (if c = d then [] # split_at d cs
      else case split_at d cs of
             [] \<Rightarrow> [[c]]
           | w # ws \<Rightarrow> (c # w) # ws)"

definition is_identifier_byte :: "char \<Rightarrow> bool" where
  "is_identifier_byte c = (128 \<le> byte c \<or> is_alnum c \<or> c = CHR ''_'')"

definition is_identifier_start_byte :: "char \<Rightarrow> bool" where
  "is_identifier_start_byte c = (128 \<le> byte c \<or> is_alpha c \<or> c = CHR ''_'')"

function replace_all :: "string \<Rightarrow> string \<Rightarrow> string \<Rightarrow> string" where
  "replace_all str old new =
     (if old = [] then str
      else case str of
             [] \<Rightarrow> []
           | c # cs \<Rightarrow>
               if starts_with str old then new @ replace_all (drop (length old) str) old new
               else c # replace_all cs old new)"
  by auto
termination
  by (relation "measure (\<lambda>(str, old, new). length str)") (auto simp: starts_with_def)

declare replace_all.simps [simp del]

text \<open>\<open>find(needle) != npos\<close>.\<close>

fun has_infix :: "string \<Rightarrow> string \<Rightarrow> bool" where
  "has_infix needle [] = (needle = [])"
| "has_infix needle (c # cs) = (starts_with (c # cs) needle \<or> has_infix needle cs)"

lemma starts_with_append: "starts_with str pre \<longleftrightarrow> (\<exists>rest. str = pre @ rest)"
proof
  assume "starts_with str pre"
  then have "str = pre @ drop (length pre) str"
    unfolding starts_with_def by (metis append_take_drop_id)
  then show "\<exists>rest. str = pre @ rest" ..
qed (auto simp: starts_with_def)

lemma ends_with_append: "ends_with str suf \<longleftrightarrow> (\<exists>front. str = front @ suf)"
proof
  assume "ends_with str suf"
  then have "str = take (length str - length suf) str @ suf"
    unfolding ends_with_def by (metis append_take_drop_id)
  then show "\<exists>front. str = front @ suf" ..
qed (auto simp: ends_with_def)

lemma has_infix_iff: "has_infix needle hay \<longleftrightarrow> (\<exists>a b. hay = a @ needle @ b)"
proof (induction hay)
  case (Cons c cs)
  have "(\<exists>a b. c # cs = a @ needle @ b) \<longleftrightarrow>
        (\<exists>b. c # cs = needle @ b) \<or> (\<exists>a b. cs = a @ needle @ b)"
    by (subst Cons_eq_append_conv) auto
  with Cons show ?case
    by (auto simp: starts_with_append)
qed auto

lemma split_at_not_Nil [simp]: "split_at d s \<noteq> []"
  by (induction s) (auto split: list.splits)

fun join_with :: "char \<Rightarrow> string list \<Rightarrow> string" where
  "join_with d [] = []"
| "join_with d [w] = w"
| "join_with d (w # v # ws) = w @ d # join_with d (v # ws)"

lemma join_with_Cons: "ws \<noteq> [] \<Longrightarrow> join_with d (w # ws) = w @ d # join_with d ws"
  by (cases ws) auto

lemma join_split_at [simp]: "join_with d (split_at d s) = s"
proof (induction s)
  case (Cons c cs)
  obtain w ws where split: "split_at d cs = w # ws"
    by (cases "split_at d cs") auto
  show ?case
    using Cons split by (cases ws) (auto simp: join_with_Cons)
qed simp

lemma split_at_no_delim: "w \<in> set (split_at d s) \<Longrightarrow> d \<notin> set w"
  by (induction s arbitrary: w) (auto split: list.splits if_splits)

lemma split_at_append: "split_at d (a @ d # b) = split_at d a @ split_at d b"
  by (induction a) (auto split: list.splits)

lemma split_at_word: "d \<notin> set w \<Longrightarrow> split_at d w = [w]"
  by (induction w) auto

lemma split_at_join:
  assumes "ws \<noteq> []" "list_all (\<lambda>w. d \<notin> set w) ws"
  shows "split_at d (join_with d ws) = ws"
  using assms by (induction d ws rule: join_with.induct) (auto simp: split_at_append split_at_word)

lemma split_at_doubled: "has_infix [d, d] (d # s) \<Longrightarrow> [] \<in> set (split_at d s)"
  unfolding has_infix_iff by (auto simp: Cons_eq_append_conv split_at_append)

lemma split_at_last: "s \<noteq> [] \<Longrightarrow> last s = d \<Longrightarrow> [] \<in> set (split_at d s)"
  by (metis append_butlast_last_id in_set_conv_decomp split_at.simps(1) split_at_append)

lemma join_with_append:
  "us \<noteq> [] \<Longrightarrow> ws \<noteq> [] \<Longrightarrow> join_with d (us @ ws) = join_with d us @ d # join_with d ws"
  by (induction d us rule: join_with.induct) (auto simp: join_with_Cons)

lemma set_split_at: "w \<in> set (split_at d s) \<Longrightarrow> set w \<subseteq> set s"
  by (induction s arbitrary: w) (fastforce split: list.splits if_splits)+

lemma trim_infix: "\<exists>a b. s = a @ trim s @ b"
proof -
  define t where "t = dropWhile is_trim_byte s"
  have s: "s = takeWhile is_trim_byte s @ t"
    by (simp add: t_def)
  have "rev t = takeWhile is_trim_byte (rev t) @ dropWhile is_trim_byte (rev t)"
    by simp
  then have "t = trim s @ rev (takeWhile is_trim_byte (rev t))"
    unfolding trim_def t_def[symmetric] by (metis rev_append rev_rev_ident)
  with s show ?thesis
    by metis
qed

section \<open>Decimal numbers\<close>

text \<open>\<open>std::to_string\<close> of an unsigned and of a signed number.\<close>

fun dec :: "nat \<Rightarrow> string" where
  "dec n = (if n < 10 then [char_of (48 + n)] else dec (n div 10) @ [char_of (48 + n mod 10)])"

declare dec.simps [simp del]

definition dec_int :: "int \<Rightarrow> string" where
  "dec_int i = (if i < 0 then CHR ''-'' # dec (nat (- i)) else dec (nat i))"

text \<open>The value of a run of decimal digits, for the round trips.\<close>

definition digits_value :: "string \<Rightarrow> nat" where
  "digits_value ds = fold (\<lambda>c n. 10 * n + (byte c - 48)) ds 0"

lemma digits_value_dec [simp]: "digits_value (dec n) = n"
proof (induction n rule: dec.induct)
  case (1 n)
  show ?case
  proof (cases "n < 10")
    case True
    then show ?thesis by (subst dec.simps) (simp add: digits_value_def)
  next
    case False
    with 1 show ?thesis
      by (subst dec.simps) (simp add: digits_value_def)
  qed
qed

lemma dec_inject [simp]: "dec m = dec n \<longleftrightarrow> m = n"
  by (metis digits_value_dec)

lemma dec_digits: "c \<in> set (dec n) \<Longrightarrow> is_digit c"
proof (induction n rule: dec.induct)
  case (1 n)
  show ?case
    using 1 by (subst (asm) (2) dec.simps) (auto simp: is_digit_def split: if_splits)
qed

section \<open>Digits of base 64\<close>

lemma digits2: "b < 64 \<Longrightarrow> (64 * a + b) div 64 = a \<and> (64 * a + b) mod 64 = (b :: nat)"
  by simp

lemma digits3:
  assumes "b < 64" "c < 64"
  shows "(4096 * a + 64 * b + c) div 4096 = (a :: nat)" "(4096 * a + 64 * b + c) div 64 mod 64 = b"
    "(4096 * a + 64 * b + c) mod 64 = c"
proof -
  have e: "4096 * a + 64 * b + c = 64 * (64 * a + b) + c" by simp
  have d: "(4096 * a + 64 * b + c) div 64 = 64 * a + b" unfolding e using assms by simp
  have "(4096 * a + 64 * b + c) div 4096 = (4096 * a + 64 * b + c) div 64 div 64"
    by (simp add: div_mult2_eq[symmetric])
  then show "(4096 * a + 64 * b + c) div 4096 = a" using d assms by simp
  show "(4096 * a + 64 * b + c) div 64 mod 64 = b" using d assms by simp
  show "(4096 * a + 64 * b + c) mod 64 = c" unfolding e using digits2[OF assms(2)] by blast
qed

lemma digits4:
  assumes "b < 64" "c < 64" "d < 64"
  shows "(262144 * a + 4096 * b + 64 * c + d) div 262144 = (a :: nat)"
    "(262144 * a + 4096 * b + 64 * c + d) div 4096 mod 64 = b"
    "(262144 * a + 4096 * b + 64 * c + d) div 64 mod 64 = c"
    "(262144 * a + 4096 * b + 64 * c + d) mod 64 = d"
proof -
  let ?n = "262144 * a + 4096 * b + 64 * c + d"
  have e: "?n = 4096 * (64 * a + b) + 64 * c + d" by simp
  have q: "?n div 4096 = 64 * a + b" unfolding e using assms by (intro digits3(1))
  have "?n div 262144 = ?n div 4096 div 64" by (simp add: div_mult2_eq[symmetric])
  then show "?n div 262144 = a" using q assms by simp
  show "?n div 4096 mod 64 = b" using q assms by simp
  show "?n div 64 mod 64 = c" unfolding e by (rule digits3(2)[OF assms(2,3)])
  show "?n mod 64 = d" unfolding e by (rule digits3(3)[OF assms(2,3)])
qed

section \<open>The 64-bit FNV-1a digest\<close>

text \<open>The mutation gate hashes a serialized call with it. Multiplication wraps at 64 bits.\<close>

definition fnv1a :: "string \<Rightarrow> 64 word" where
  "fnv1a s = fold (\<lambda>c h. (xor h (word_of_nat (byte c))) * 1099511628211) s 1469598103934665603"

definition hex_digit :: "nat \<Rightarrow> char" where
  "hex_digit n = (if n < 10 then char_of (48 + n) else char_of (87 + n))"

fun hex_fixed :: "nat \<Rightarrow> nat \<Rightarrow> string" where
  "hex_fixed 0 n = []"
| "hex_fixed (Suc w) n = hex_fixed w (n div 16) @ [hex_digit (n mod 16)]"

definition fnv1a_hex :: "string \<Rightarrow> string" where
  "fnv1a_hex s = hex_fixed 16 (unat (fnv1a s))"

lemma length_hex_fixed [simp]: "length (hex_fixed w n) = w"
  by (induction w arbitrary: n) auto

lemma fnv1a_hex_nonempty [simp]: "fnv1a_hex s \<noteq> []"
  using length_hex_fixed[of 16 "unat (fnv1a s)"] unfolding fnv1a_hex_def by (metis list.size(3) zero_neq_numeral)

section \<open>Lists used as bounded queues\<close>

text \<open>
  A \<open>std::deque\<close> that drops from the front once it is longer than its capacity, as the
  runtime log and the undo ledger keep their entries.
\<close>

definition push_bounded :: "nat \<Rightarrow> 'a list \<Rightarrow> 'a \<Rightarrow> 'a list" where
  "push_bounded cap xs x = (let ys = xs @ [x] in drop (length ys - cap) ys)"

lemma length_push_bounded: "length (push_bounded cap xs x) = min cap (length xs + 1)"
  by (auto simp: push_bounded_def Let_def)

lemma push_bounded_suffix: "\<exists>dropped. xs @ [x] = dropped @ push_bounded cap xs x"
  unfolding push_bounded_def Let_def by (metis append_take_drop_id)

lemma set_push_bounded: "set (push_bounded cap xs x) \<subseteq> insert x (set xs)"
  unfolding push_bounded_def Let_def by (auto dest: in_set_dropD)

lemma last_push_bounded: "0 < cap \<Longrightarrow> last (push_bounded cap xs x) = x \<and> push_bounded cap xs x \<noteq> []"
  by (auto simp: push_bounded_def Let_def last_drop)

lemma push_bounded_drop:
  "push_bounded cap (drop (length xs - cap) xs) x = drop (length (xs @ [x]) - cap) (xs @ [x])"
proof (cases "cap \<le> length xs")
  case True
  then show ?thesis
    by (cases cap) (simp_all add: push_bounded_def Let_def Suc_diff_le Suc_diff_Suc Suc_le_eq)
next
  case False
  then show ?thesis by (simp add: push_bounded_def Let_def)
qed

section \<open>Counters of 64 bits\<close>

lemma unat_next: "(w :: 64 word) \<noteq> - 1 \<Longrightarrow> unat (w + 1) = Suc (unat w)"
  by (metis add.commute eq_neg_iff_add_eq_0 unatSuc)

lemma unat_max: "unat (- 1 :: 64 word) = 2 ^ 64 - 1"
  by (simp add: unsigned_minus_1_eq_mask mask_eq_exp_minus_1)

lemma unat_below: "unat (w :: 64 word) < 2 ^ 64"
  using unsigned_less[of w] by simp

end
