(* ===== verification/Keyed_Store.thy ===== *)
theory Keyed_Store
  imports Didi_Prelude
begin

text \<open>
  Ordered maps. The code keeps its tables in \<open>std::map\<close> (the job store, a JSON object, whose
  iteration order is the order of the keys) and in \<open>std::unordered_map\<close> (the confirmation
  tokens, whose iteration order is unspecified). Both are represented by an association list
  with strictly increasing keys. The locale \<open>keyed_store\<close> is the contract the components
  rely on and this theory interprets it on the representation.
\<close>

section \<open>The contract\<close>

locale keyed_store =
  fixes empty :: "'m"
    and find :: "'m \<Rightarrow> 'k \<Rightarrow> 'v option"
    and put :: "'k \<Rightarrow> 'v \<Rightarrow> 'm \<Rightarrow> 'm"
    and del :: "'k \<Rightarrow> 'm \<Rightarrow> 'm"
    and count :: "'m \<Rightarrow> nat"
    and ok :: "'m \<Rightarrow> bool"
  assumes ok_empty: "ok empty"
    and ok_put: "ok m \<Longrightarrow> ok (put k v m)"
    and ok_del: "ok m \<Longrightarrow> ok (del k m)"
    and find_empty: "find empty k = None"
    and find_put: "ok m \<Longrightarrow> find (put k v m) j = (if j = k then Some v else find m j)"
    and find_del: "ok m \<Longrightarrow> find (del k m) j = (if j = k then None else find m j)"
    and count_empty: "count empty = 0"
    and count_put: "ok m \<Longrightarrow> count (put k v m) = (if find m k = None then count m + 1 else count m)"
    and count_del: "ok m \<Longrightarrow> count (del k m) = (if find m k = None then count m else count m - 1)"
    and count_pos: "ok m \<Longrightarrow> find m k = Some v \<Longrightarrow> 0 < count m"
    and extensional: "ok m \<Longrightarrow> ok n \<Longrightarrow> (\<And>k. find m k = find n k) \<Longrightarrow> m = n"
begin

lemma find_put_same [simp]: "ok m \<Longrightarrow> find (put k v m) k = Some v"
  by (simp add: find_put)

lemma find_del_same [simp]: "ok m \<Longrightarrow> find (del k m) k = None"
  by (simp add: find_del)

text \<open>What was taken out cannot be taken out again: the second removal changes nothing.\<close>

lemma del_twice: "ok m \<Longrightarrow> del k (del k m) = del k m"
  by (rule extensional) (auto simp: ok_del find_del)

lemma put_twice: "ok m \<Longrightarrow> put k w (put k v m) = put k w m"
  by (rule extensional) (auto simp: ok_put find_put)

lemma put_put_commute: "ok m \<Longrightarrow> j \<noteq> k \<Longrightarrow> put j w (put k v m) = put k v (put j w m)"
  by (rule extensional) (auto simp: ok_put find_put)

lemma del_put_same: "ok m \<Longrightarrow> find m k = None \<Longrightarrow> del k (put k v m) = m"
  by (rule extensional) (auto simp: ok_put ok_del find_put find_del)

lemma put_found_same: "ok m \<Longrightarrow> find m k = Some v \<Longrightarrow> put k v m = m"
  by (rule extensional) (auto simp: ok_put find_put)

lemma count_put_le: "ok m \<Longrightarrow> count (put k v m) \<le> count m + 1"
  by (simp add: count_put)

lemma count_del_less: "ok m \<Longrightarrow> find m k = Some v \<Longrightarrow> count (del k m) < count m"
  using count_pos by (simp add: count_del)

lemma count_del_put: "ok m \<Longrightarrow> find m k = Some v \<Longrightarrow> count (del k m) + 1 = count m"
  using count_pos [of m k v] by (simp add: count_del)

end

section \<open>The representation\<close>

type_synonym ('k, 'v) store = "('k \<times> 'v) list"

abbreviation keys :: "('k \<times> 'v) list \<Rightarrow> 'k list" where
  "keys m \<equiv> map fst m"

definition kv_ok :: "('k::linorder \<times> 'v) list \<Rightarrow> bool" where
  "kv_ok m = sorted_wrt (<) (keys m)"

definition kv_get :: "('k \<times> 'v) list \<Rightarrow> 'k \<Rightarrow> 'v option" where
  "kv_get m k = map_of m k"

fun kv_put :: "'k::linorder \<Rightarrow> 'v \<Rightarrow> ('k \<times> 'v) list \<Rightarrow> ('k \<times> 'v) list" where
  "kv_put k v [] = [(k, v)]"
| "kv_put k v ((j, w) # m) =
     (if k < j then (k, v) # (j, w) # m
      else if k = j then (k, v) # m
      else (j, w) # kv_put k v m)"

definition kv_del :: "'k \<Rightarrow> ('k \<times> 'v) list \<Rightarrow> ('k \<times> 'v) list" where
  "kv_del k m = filter (\<lambda>e. fst e \<noteq> k) m"

definition kv_has :: "('k \<times> 'v) list \<Rightarrow> 'k \<Rightarrow> bool" where
  "kv_has m k = (kv_get m k \<noteq> None)"

lemma kv_ok_Nil [simp]: "kv_ok []"
  by (simp add: kv_ok_def)

lemma kv_ok_Cons [simp]: "kv_ok ((k, v) # m) \<longleftrightarrow> (\<forall>j \<in> set (keys m). k < j) \<and> kv_ok m"
  by (auto simp: kv_ok_def)

lemma kv_get_Nil [simp]: "kv_get [] k = None"
  by (simp add: kv_get_def)

lemma kv_get_Cons [simp]: "kv_get ((j, v) # m) k = (if j = k then Some v else kv_get m k)"
  by (auto simp: kv_get_def)

lemma kv_ok_distinct: "kv_ok m \<Longrightarrow> distinct (keys m)"
  unfolding kv_ok_def by (simp add: strict_sorted_iff)

lemma kv_get_keys: "kv_get m k = None \<longleftrightarrow> k \<notin> set (keys m)"
  by (simp add: kv_get_def map_of_eq_None_iff)

lemma kv_get_in: "kv_get m k = Some v \<Longrightarrow> (k, v) \<in> set m"
  by (simp add: kv_get_def map_of_SomeD)

lemma kv_get_iff: "kv_ok m \<Longrightarrow> kv_get m k = Some v \<longleftrightarrow> (k, v) \<in> set m"
  by (simp add: kv_get_def kv_ok_distinct)

lemma keys_kv_put [simp]: "set (keys (kv_put k v m)) = insert k (set (keys m))"
  by (induction k v m rule: kv_put.induct) auto

lemma kv_ok_put [simp]: "kv_ok m \<Longrightarrow> kv_ok (kv_put k v m)"
proof (induction k v m rule: kv_put.induct)
  case (2 k v j w m)
  then show ?case
    using keys_kv_put[of k v m] by auto
qed simp

lemma kv_get_put: "kv_ok m \<Longrightarrow> kv_get (kv_put k v m) j = (if j = k then Some v else kv_get m j)"
  by (induction k v m rule: kv_put.induct) auto

lemma kv_get_put_any: "kv_get (kv_put k v m) j = (if j = k then Some v else kv_get m j)"
  by (induction k v m rule: kv_put.induct) auto

lemma kv_ok_filter [simp]: "kv_ok m \<Longrightarrow> kv_ok (filter P m)"
  unfolding kv_ok_def by (induction m) auto

lemma kv_ok_del [simp]: "kv_ok m \<Longrightarrow> kv_ok (kv_del k m)"
  by (simp add: kv_del_def)

lemma kv_get_del [simp]: "kv_get (kv_del k m) j = (if j = k then None else kv_get m j)"
  by (induction m) (auto simp: kv_del_def)

lemma kv_get_filter:
  "kv_ok m \<Longrightarrow> kv_get (filter P m) k = (case kv_get m k of Some v \<Rightarrow> if P (k, v) then Some v else None | None \<Rightarrow> None)"
proof (induction m)
  case (Cons e m)
  obtain j w where e: "e = (j, w)" by (cases e)
  have fresh: "kv_get m j = None"
    using Cons.prems e by (auto simp: kv_get_keys)
  show ?case
    using Cons fresh e by auto
qed simp

lemma length_kv_put:
  "kv_ok m \<Longrightarrow> length (kv_put k v m) = (if kv_get m k = None then length m + 1 else length m)"
proof (induction k v m rule: kv_put.induct)
  case (2 k v j w m)
  then show ?case
    by (auto simp: kv_get_keys split: if_splits)
qed simp

lemma length_kv_del:
  "kv_ok m \<Longrightarrow> length (kv_del k m) = (if kv_get m k = None then length m else length m - 1)"
proof (induction m)
  case (Cons e m)
  obtain j w where e: "e = (j, w)" by (cases e)
  have fresh: "kv_get m j = None"
    using Cons.prems e by (auto simp: kv_get_keys)
  have nonempty: "kv_get m k \<noteq> None \<Longrightarrow> 0 < length m"
    by (cases m) auto
  show ?case
    using Cons fresh e nonempty by (auto simp: kv_del_def)
qed (simp add: kv_del_def)

text \<open>What putting an entry does to the number of entries that satisfy a predicate.\<close>

lemma length_filter_kv_put:
  "kv_ok m \<Longrightarrow>
   length (filter P (kv_put k v m)) + (case kv_get m k of Some w \<Rightarrow> if P (k, w) then 1 else 0 | None \<Rightarrow> 0) =
   length (filter P m) + (if P (k, v) then 1 else 0)"
proof (induction k v m rule: kv_put.induct)
  case (2 k v j w m)
  show ?case
  proof (cases "k < j")
    case True
    with 2 have "kv_get m k = None" by (auto simp: kv_get_keys)
    with True show ?thesis by auto
  qed (use 2 in auto)
qed simp

lemma set_kv_put_iff:
  "kv_ok m \<Longrightarrow> (j, w) \<in> set (kv_put k v m) \<longleftrightarrow> (if j = k then w = v else (j, w) \<in> set m)"
  by (simp flip: kv_get_iff add: kv_get_put) auto

lemma set_kv_del_iff: "(j, w) \<in> set (kv_del k m) \<longleftrightarrow> j \<noteq> k \<and> (j, w) \<in> set m"
  by (auto simp: kv_del_def)

lemma set_kv_del: "set (kv_del k m) \<subseteq> set m"
  by (auto simp: kv_del_def)

lemma set_kv_put: "set (kv_put k v m) \<subseteq> insert (k, v) (set m)"
  by (induction k v m rule: kv_put.induct) auto

lemma kv_get_inject:
  assumes "kv_ok m" "kv_ok n" "\<And>k. kv_get m k = kv_get n k"
  shows "m = n"
proof -
  have same: "set m = set n"
    using assms by (auto simp: kv_get_iff[symmetric])
  have "inj_on fst (set m)"
    using kv_ok_distinct[OF assms(1)] by (simp add: distinct_map)
  then show ?thesis
    using map_sorted_distinct_set_unique[of fst m n] same assms(1,2)
    by (simp add: kv_ok_def strict_sorted_iff)
qed

interpretation kv: keyed_store "[]" kv_get kv_put kv_del length kv_ok
proof unfold_locales
  show "\<And>m k v. kv_ok m \<Longrightarrow> kv_get m k = Some v \<Longrightarrow> 0 < length m"
    by (auto simp: kv_get_def)
  show "\<And>m n. kv_ok m \<Longrightarrow> kv_ok n \<Longrightarrow> (\<And>k. kv_get m k = kv_get n k) \<Longrightarrow> m = n"
    by (rule kv_get_inject)
qed (auto simp: kv_get_put length_kv_put length_kv_del)

section \<open>The oldest entry\<close>

text \<open>
  Both bounded tables evict an entry with the least time stamp: the job store scans its map in
  key order and keeps the first, the confirmation table asks \<open>std::min_element\<close> over an
  unordered map, which may return any of the least ones.
\<close>

fun first_oldest :: "('v \<Rightarrow> bool) \<Rightarrow> ('v \<Rightarrow> int) \<Rightarrow> ('k \<times> 'v) option \<Rightarrow> ('k \<times> 'v) list \<Rightarrow> ('k \<times> 'v) option" where
  "first_oldest cand stamp best [] = best"
| "first_oldest cand stamp best ((k, v) # m) =
     (if \<not> cand v then first_oldest cand stamp best m
      else case best of
             None \<Rightarrow> first_oldest cand stamp (Some (k, v)) m
           | Some (j, w) \<Rightarrow>
               if stamp v < stamp w then first_oldest cand stamp (Some (k, v)) m
               else first_oldest cand stamp best m)"

definition least_stamped :: "('v \<Rightarrow> int) \<Rightarrow> ('k \<times> 'v) list \<Rightarrow> ('k \<times> 'v) list" where
  "least_stamped stamp m = filter (\<lambda>(k, v). \<forall>(j, w) \<in> set m. stamp v \<le> stamp w) m"

lemma first_oldest_None:
  "first_oldest cand stamp best m = None \<longleftrightarrow> best = None \<and> (\<forall>(k, v) \<in> set m. \<not> cand v)"
  by (induction cand stamp best m rule: first_oldest.induct) (auto split: option.splits)

lemma first_oldest_from:
  assumes "first_oldest cand stamp best m = Some (k, v)"
  shows "best = Some (k, v) \<or> ((k, v) \<in> set m \<and> cand v)"
  using assms
proof (induction m arbitrary: best)
  case (Cons e m)
  obtain j w where e: "e = (j, w)" by (cases e)
  show ?case
    using Cons.prems Cons.IH[of best] Cons.IH[of "Some (j, w)"] e
    by (auto split: if_splits option.splits)
qed simp

lemma first_oldest_least:
  assumes "first_oldest cand stamp best m = Some (k, v)"
  shows "(\<forall>(j, w) \<in> set m. cand w \<longrightarrow> stamp v \<le> stamp w) \<and>
         (\<forall>b. best = Some b \<longrightarrow> stamp v \<le> stamp (snd b))"
  using assms
proof (induction m arbitrary: best)
  case (Cons e m)
  obtain j w where e: "e = (j, w)" by (cases e)
  show ?case
    using Cons.prems Cons.IH[of best] Cons.IH[of "Some (j, w)"] e
    by (force split: if_splits option.splits)
qed auto

lemma least_stamped_subset: "set (least_stamped stamp m) \<subseteq> set m"
  by (auto simp: least_stamped_def)

lemma least_stamped_nonempty:
  assumes "m \<noteq> []"
  shows "least_stamped stamp m \<noteq> []"
proof -
  let ?S = "(\<lambda>e. stamp (snd e)) ` set m"
  have fin: "finite ?S" "?S \<noteq> {}" using assms by auto
  obtain e where "e \<in> set m" "stamp (snd e) = Min ?S"
    using Min_in[OF fin] by auto
  then have "e \<in> set (least_stamped stamp m)"
    using fin by (force simp: least_stamped_def intro!: Min_le)
  then show ?thesis by auto
qed

end
