(* ===== verification/Didi_Json.thy ===== *)
theory Didi_Json
  imports Keyed_Store Complex_Main
begin

text \<open>
  JSON values as the code handles them through \<open>nlohmann::json\<close>, and
  \<open>include/didi/common/json_bounds.hpp\<close>.

  A number is kept the way the library stores it: \<open>JInt\<close> is \<open>number_integer\<close> (a signed 64-bit
  value), \<open>JUInt\<close> is \<open>number_unsigned\<close> (an unsigned 64-bit value) and \<open>JFloat\<close> a double,
  which here only ever takes part in comparisons and is therefore an exact rational, an
  infinity or NaN. An object is a \<open>std::map\<close>: an association list with increasing keys, of
  the representation of \<open>Keyed_Store\<close>. Reading a member as the wrong type throws in the code;
  here it is the left result \<open>Type_Error\<close>.
\<close>

section \<open>Values\<close>

datatype dbl = Fin rat | PosInf | NegInf | NaN

datatype json =
    JNull
  | JBool bool
  | JInt int
  | JUInt nat
  | JFloat dbl
  | JStr string
  | JArr "json list"
  | JObj "(string \<times> json) list"

datatype json_exn = Type_Error | Out_Of_Range

fun is_object :: "json \<Rightarrow> bool" where
  "is_object (JObj m) = True"
| "is_object v = False"

fun is_array :: "json \<Rightarrow> bool" where
  "is_array (JArr xs) = True"
| "is_array v = False"

fun is_string :: "json \<Rightarrow> bool" where
  "is_string (JStr s) = True"
| "is_string v = False"

fun is_boolean :: "json \<Rightarrow> bool" where
  "is_boolean (JBool b) = True"
| "is_boolean v = False"

definition is_null :: "json \<Rightarrow> bool" where
  "is_null v = (v = JNull)"

text \<open>\<open>is_number_integer()\<close> holds of both representations of an integer.\<close>

fun is_number_integer :: "json \<Rightarrow> bool" where
  "is_number_integer (JInt i) = True"
| "is_number_integer (JUInt n) = True"
| "is_number_integer v = False"

fun is_number :: "json \<Rightarrow> bool" where
  "is_number (JFloat d) = True"
| "is_number v = is_number_integer v"

fun type_name :: "json \<Rightarrow> string" where
  "type_name JNull = ''null''"
| "type_name (JObj m) = ''object''"
| "type_name (JArr xs) = ''array''"
| "type_name (JStr s) = ''string''"
| "type_name (JBool b) = ''boolean''"
| "type_name (JInt i) = ''number''"
| "type_name (JUInt n) = ''number''"
| "type_name (JFloat d) = ''number''"

section \<open>Members\<close>

fun members :: "json \<Rightarrow> (string \<times> json) list" where
  "members (JObj m) = m"
| "members v = []"

fun elements :: "json \<Rightarrow> json list" where
  "elements (JArr xs) = xs"
| "elements v = []"

definition jget :: "json \<Rightarrow> string \<Rightarrow> json option" where
  "jget v k = kv_get (members v) k"

definition contains :: "json \<Rightarrow> string \<Rightarrow> bool" where
  "contains v k = (jget v k \<noteq> None)"

fun jput :: "string \<Rightarrow> json \<Rightarrow> json \<Rightarrow> json" where
  "jput k x (JObj m) = JObj (kv_put k x m)"
| "jput k x v = v"

fun jdel :: "string \<Rightarrow> json \<Rightarrow> json" where
  "jdel k (JObj m) = JObj (kv_del k m)"
| "jdel k v = v"

definition jobj :: "(string \<times> json) list \<Rightarrow> json" where
  "jobj es = JObj (fold (\<lambda>(k, v). kv_put k v) es [])"

text \<open>\<open>value(key, json())\<close>.\<close>

definition member_or_null :: "json \<Rightarrow> string \<Rightarrow> json" where
  "member_or_null v k = (case jget v k of None \<Rightarrow> JNull | Some x \<Rightarrow> x)"

text \<open>\<open>value(key, default)\<close>: absent gives the default, the wrong type throws.\<close>

definition value_bool :: "json \<Rightarrow> string \<Rightarrow> bool \<Rightarrow> (json_exn, bool) result" where
  "value_bool v k d =
     (if \<not> is_object v then Inl Type_Error
      else case jget v k of
             None \<Rightarrow> Inr d
           | Some (JBool b) \<Rightarrow> Inr b
           | Some x \<Rightarrow> Inl Type_Error)"

definition value_string :: "json \<Rightarrow> string \<Rightarrow> string \<Rightarrow> (json_exn, string) result" where
  "value_string v k d =
     (if \<not> is_object v then Inl Type_Error
      else case jget v k of
             None \<Rightarrow> Inr d
           | Some (JStr s) \<Rightarrow> Inr s
           | Some x \<Rightarrow> Inl Type_Error)"

text \<open>A well-formed value: numbers fit their representation, every object is a map.\<close>

fun json_ok :: "json \<Rightarrow> bool" where
  "json_ok (JInt i) = (- (2 ^ 63) \<le> i \<and> i < 2 ^ 63)"
| "json_ok (JUInt n) = (n < 2 ^ 64)"
| "json_ok (JArr xs) = (\<forall>x \<in> set xs. json_ok x)"
| "json_ok (JObj m) = (kv_ok m \<and> (\<forall>e \<in> set m. json_ok (snd e)))"
| "json_ok v = True"

text \<open>\<open>didi::Error\<close> of \<open>types.hpp\<close>: what a refused operation answers.\<close>

record refusal =
  err_code :: int
  err_message :: string
  err_data :: json

definition invalid_argument :: "string \<Rightarrow> refusal" where
  "invalid_argument msg = \<lparr>err_code = 400, err_message = msg, err_data = JNull\<rparr>"

section \<open>Comparison\<close>

text \<open>
  \<open>operator==\<close>. Two integers compare exactly, with an unsigned one read as signed first when
  the representations differ; an integer against a double is first rounded to a double. The
  rounding is round-half-even to 53 significant bits.
\<close>

definition to_int64 :: "nat \<Rightarrow> int" where
  "to_int64 n = (if n mod 2 ^ 64 < 2 ^ 63 then int (n mod 2 ^ 64) else int (n mod 2 ^ 64) - 2 ^ 64)"

fun bit_width :: "nat \<Rightarrow> nat" where
  "bit_width n = (if n = 0 then 0 else bit_width (n div 2) + 1)"

declare bit_width.simps [simp del]

definition round53 :: "nat \<Rightarrow> nat" where
  "round53 n =
     (let k = bit_width n - 53; q = n div 2 ^ k; r = n mod 2 ^ k; half = 2 ^ k div 2
      in if k = 0 then n
         else if r > half \<or> (r = half \<and> odd q) then (q + 1) * 2 ^ k
         else q * 2 ^ k)"

lemma bit_width_power: "2 ^ k \<le> n \<Longrightarrow> n < 2 ^ Suc k \<Longrightarrow> bit_width n = Suc k"
proof (induction k arbitrary: n)
  case 0
  then have n: "n = 1" by simp
  show ?case unfolding n by (subst bit_width.simps, simp add: bit_width.simps [of 0])
next
  case (Suc k)
  have "2 ^ k \<le> n div 2" "n div 2 < 2 ^ Suc k"
    using Suc.prems by auto
  then show ?case
    using Suc.IH [of "n div 2"] Suc.prems by (simp add: bit_width.simps [of n])
qed

lemma round53_0 [simp]: "round53 0 = 0"
  by (simp add: round53_def Let_def bit_width.simps [of 0])

lemma round53_power: "round53 (2 ^ n) = 2 ^ n"
proof (cases "53 < Suc n")
  case True
  define k where "k = Suc n - 53"
  have width: "bit_width (2 ^ n) = Suc n"
    by (rule bit_width_power) simp_all
  have "k \<noteq> 0"
    using True by (simp add: k_def)
  have "(2 ^ k :: nat) dvd 2 ^ n"
    unfolding k_def by (rule le_imp_power_dvd) simp
  then have exact: "(2 ^ n :: nat) mod 2 ^ k = 0" "(2 ^ n :: nat) div 2 ^ k * 2 ^ k = 2 ^ n"
    by simp_all
  have "(2 ^ k :: nat) div 2 \<noteq> 0"
    using \<open>k \<noteq> 0\<close> by (cases k) auto
  then show ?thesis
    unfolding round53_def width Let_def k_def [symmetric] exact using \<open>k \<noteq> 0\<close> by simp
next
  case False
  have "bit_width (2 ^ n) = Suc n"
    by (rule bit_width_power) simp_all
  then show ?thesis
    using False by (simp add: round53_def Let_def)
qed

definition int_to_dbl :: "int \<Rightarrow> dbl" where
  "int_to_dbl i = Fin (of_int (sgn i * int (round53 (nat \<bar>i\<bar>))))"

text \<open>\<open>get<double>\<close> of a number.\<close>

fun double_of :: "json \<Rightarrow> dbl" where
  "double_of (JInt i) = int_to_dbl i"
| "double_of (JUInt n) = int_to_dbl (int n)"
| "double_of (JFloat d) = d"
| "double_of v = NaN"

fun dbl_eq :: "dbl \<Rightarrow> dbl \<Rightarrow> bool" where
  "dbl_eq (Fin a) (Fin b) = (a = b)"
| "dbl_eq PosInf PosInf = True"
| "dbl_eq NegInf NegInf = True"
| "dbl_eq a b = False"

text \<open>\<open>operator<\<close> of doubles.\<close>

fun dbl_less :: "dbl \<Rightarrow> dbl \<Rightarrow> bool" where
  "dbl_less (Fin a) (Fin b) = (a < b)"
| "dbl_less NegInf (Fin b) = True"
| "dbl_less NegInf PosInf = True"
| "dbl_less (Fin a) PosInf = True"
| "dbl_less a b = False"

text \<open>\<open>std::isfinite\<close>, \<open>std::min\<close> and \<open>std::max\<close>.\<close>

fun is_finite :: "dbl \<Rightarrow> bool" where
  "is_finite (Fin r) = True"
| "is_finite d = False"

definition dbl_min :: "dbl \<Rightarrow> dbl \<Rightarrow> dbl" where
  "dbl_min a b = (if dbl_less b a then b else a)"

definition dbl_max :: "dbl \<Rightarrow> dbl \<Rightarrow> dbl" where
  "dbl_max a b = (if dbl_less a b then b else a)"

lemma dbl_min_Fin [simp]: "dbl_min (Fin a) (Fin b) = Fin (min a b)"
  by (simp add: dbl_min_def)

lemma dbl_max_Fin [simp]: "dbl_max (Fin a) (Fin b) = Fin (max a b)"
  by (simp add: dbl_max_def max_def)

text \<open>Two values of which at least one is neither an array nor an object.\<close>

fun scalar_eq :: "json \<Rightarrow> json \<Rightarrow> bool" where
  "scalar_eq JNull b = (b = JNull)"
| "scalar_eq (JBool x) b = (b = JBool x)"
| "scalar_eq (JStr s) b = (b = JStr s)"
| "scalar_eq (JInt i) b =
     (case b of
        JInt j \<Rightarrow> i = j
      | JUInt n \<Rightarrow> i = to_int64 n
      | JFloat d \<Rightarrow> dbl_eq (int_to_dbl i) d
      | _ \<Rightarrow> False)"
| "scalar_eq (JUInt n) b =
     (case b of
        JInt j \<Rightarrow> to_int64 n = j
      | JUInt m \<Rightarrow> n = m
      | JFloat d \<Rightarrow> dbl_eq (int_to_dbl (int n)) d
      | _ \<Rightarrow> False)"
| "scalar_eq (JFloat d) b =
     (case b of
        JInt j \<Rightarrow> dbl_eq d (int_to_dbl j)
      | JUInt m \<Rightarrow> dbl_eq d (int_to_dbl (int m))
      | JFloat e \<Rightarrow> dbl_eq d e
      | _ \<Rightarrow> False)"
| "scalar_eq a b = False"

fun json_eq :: "json \<Rightarrow> json \<Rightarrow> bool"
  and jsons_eq :: "json list \<Rightarrow> json list \<Rightarrow> bool"
  and members_eq :: "(string \<times> json) list \<Rightarrow> (string \<times> json) list \<Rightarrow> bool" where
  "json_eq (JArr xs) b = (case b of JArr ys \<Rightarrow> jsons_eq xs ys | _ \<Rightarrow> False)"
| "json_eq (JObj m) b = (case b of JObj n \<Rightarrow> members_eq m n | _ \<Rightarrow> False)"
| "json_eq a b = scalar_eq a b"
| "jsons_eq [] ys = (ys = [])"
| "jsons_eq (x # xs) ys = (case ys of [] \<Rightarrow> False | y # ys' \<Rightarrow> json_eq x y \<and> jsons_eq xs ys')"
| "members_eq [] n = (n = [])"
| "members_eq ((k, x) # m) n =
     (case n of [] \<Rightarrow> False | (j, y) # n' \<Rightarrow> k = j \<and> json_eq x y \<and> members_eq m n')"

section \<open>Canonical values\<close>

text \<open>
  What parsing a text gives, numbers with a fraction or an exponent left out: a negative
  integer is signed and any other integer unsigned. On these, comparison is identity as long as
  no unsigned integer passes the greatest signed one.
\<close>

fun canonical :: "json \<Rightarrow> bool" where
  "canonical (JInt i) = (- (2 ^ 63) \<le> i \<and> i < 0)"
| "canonical (JUInt n) = (n < 2 ^ 63)"
| "canonical (JFloat d) = False"
| "canonical (JArr xs) = (\<forall>x \<in> set xs. canonical x)"
| "canonical (JObj m) = (\<forall>e \<in> set m. canonical (snd e))"
| "canonical v = True"

lemma to_int64_small [simp]: "n < 2 ^ 63 \<Longrightarrow> to_int64 n = int n"
  by (simp add: to_int64_def)

lemma json_eq_canonical:
  "canonical a \<Longrightarrow> canonical b \<Longrightarrow> json_eq a b \<longleftrightarrow> a = b"
  "\<forall>x \<in> set xs. canonical x \<Longrightarrow> \<forall>y \<in> set ys. canonical y \<Longrightarrow> jsons_eq xs ys \<longleftrightarrow> xs = ys"
  "\<forall>e \<in> set m. canonical (snd e) \<Longrightarrow> \<forall>e \<in> set n. canonical (snd e) \<Longrightarrow> members_eq m n \<longleftrightarrow> m = n"
  by (induction a b and xs ys and m n rule: json_eq_jsons_eq_members_eq.induct)
     (auto split: json.splits list.splits)

text \<open>Past that bound it is not: the unsigned value is read as a signed one.\<close>

lemma json_eq_wraps: "json_eq (JInt (- 1)) (JUInt (2 ^ 64 - 1))"
  by (simp add: to_int64_def)

lemma jget_jput: "is_object v \<Longrightarrow> kv_ok (members v) \<Longrightarrow> jget (jput k x v) j = (if j = k then Some x else jget v j)"
  by (cases v) (auto simp: jget_def kv_get_put)

lemma jget_jput_any: "is_object v \<Longrightarrow> jget (jput k x v) j = (if j = k then Some x else jget v j)"
  by (cases v) (auto simp: jget_def kv_get_put_any)

lemma jget_jdel: "jget (jdel k v) j = (if j = k then None else jget v j)"
  by (cases v) (auto simp: jget_def)

lemma is_object_jput [simp]: "is_object (jput k x v) = is_object v"
  by (cases v) auto

lemma is_object_jdel [simp]: "is_object (jdel k v) = is_object v"
  by (cases v) auto

lemma is_object_jobj [simp]: "is_object (jobj es)"
  by (simp add: jobj_def)

lemma kv_ok_fold_put: "kv_ok m \<Longrightarrow> kv_ok (fold (\<lambda>(k, v). kv_put k v) es m)"
  by (induction es arbitrary: m) auto

lemma kv_ok_jobj [simp]: "kv_ok (members (jobj es))"
  by (simp add: jobj_def kv_ok_fold_put)

lemma kv_get_fold_put:
  "kv_ok m \<Longrightarrow> kv_get (fold (\<lambda>(k, v). kv_put k v) es m) j =
     (case kv_get (rev es) j of None \<Rightarrow> kv_get m j | Some v \<Rightarrow> Some v)"
proof (induction es arbitrary: m)
  case (Cons e es)
  obtain k v where e: "e = (k, v)" by (cases e)
  show ?case
    using Cons e by (auto simp: kv_get_put[unfolded kv_get_def] kv_get_def map_add_def split: option.splits)
qed simp

lemma jget_jobj: "jget (jobj es) k = kv_get (rev es) k"
  by (simp add: jget_def jobj_def kv_get_fold_put split: option.splits)

lemma json_ok_jput: "json_ok v \<Longrightarrow> json_ok x \<Longrightarrow> json_ok (jput k x v)"
  using set_kv_put by (cases v) fastforce+

lemma json_ok_jdel: "json_ok v \<Longrightarrow> json_ok (jdel k v)"
  using set_kv_del by (cases v) fastforce+

lemma json_ok_jget: "json_ok v \<Longrightarrow> jget v k = Some x \<Longrightarrow> json_ok x"
  by (cases v) (auto simp: jget_def dest!: kv_get_in)

section \<open>Bounded integers and elided strings\<close>

text \<open>\<open>get<int64_t>\<close> of an integer; what is not one the code does not ask.\<close>

fun int64_of :: "json \<Rightarrow> int" where
  "int64_of (JInt i) = i"
| "int64_of (JUInt n) = to_int64 n"
| "int64_of v = 0"

text \<open>\<open>jsonInt64\<close> and \<open>boundedJsonInteger\<close> of \<open>json_bounds.hpp\<close>.\<close>

fun json_int64 :: "json \<Rightarrow> int option" where
  "json_int64 (JUInt n) = (if n > 2 ^ 63 - 1 then None else Some (to_int64 n))"
| "json_int64 (JInt i) = Some i"
| "json_int64 v = None"

definition bounded_json_integer :: "json \<Rightarrow> int \<Rightarrow> int \<Rightarrow> int option" where
  "bounded_json_integer v minimum maximum =
     (case json_int64 v of
        None \<Rightarrow> None
      | Some i \<Rightarrow> if i < minimum \<or> i > maximum then None else Some i)"

definition max_tool_response_bytes :: nat where
  "max_tool_response_bytes = 8 * 1024 * 1024"

definition tool_response_envelope_reserve_bytes :: nat where
  "tool_response_envelope_reserve_bytes = 256 * 1024"

definition tool_response_body_budget :: nat where
  "tool_response_body_budget = max_tool_response_bytes - tool_response_envelope_reserve_bytes"

fun elide_large_strings :: "json \<Rightarrow> nat \<Rightarrow> json \<times> nat"
  and elide_all :: "json list \<Rightarrow> nat \<Rightarrow> json list \<times> nat"
  and elide_members :: "(string \<times> json) list \<Rightarrow> nat \<Rightarrow> (string \<times> json) list \<times> nat" where
  "elide_large_strings (JStr s) t =
     (if length s > t then (JStr (''[elided: '' @ dec (length s) @ '' bytes]''), 1) else (JStr s, 0))"
| "elide_large_strings (JArr xs) t = (let (ys, n) = elide_all xs t in (JArr ys, n))"
| "elide_large_strings (JObj m) t = (let (m', n) = elide_members m t in (JObj m', n))"
| "elide_large_strings v t = (v, 0)"
| "elide_all [] t = ([], 0)"
| "elide_all (x # xs) t =
     (let (y, n) = elide_large_strings x t; (ys, k) = elide_all xs t in (y # ys, n + k))"
| "elide_members [] t = ([], 0)"
| "elide_members ((key, x) # m) t =
     (let (y, n) = elide_large_strings x t; (m', k) = elide_members m t in ((key, y) # m', n + k))"

lemma bounded_json_integer_range:
  "bounded_json_integer v lo hi = Some i \<Longrightarrow> lo \<le> i \<and> i \<le> hi"
  by (auto simp: bounded_json_integer_def split: option.splits if_splits)

lemma json_int64_range: "json_ok v \<Longrightarrow> json_int64 v = Some i \<Longrightarrow> - (2 ^ 63) \<le> i \<and> i < 2 ^ 63"
  by (cases v) (auto split: if_splits simp: to_int64_def)

text \<open>
  Eliding is an idempotent replacement of exactly the strings over the threshold: the note that
  replaces one is itself short enough whenever the threshold is at least the length of a note.
\<close>

fun strings_within :: "nat \<Rightarrow> json \<Rightarrow> bool" where
  "strings_within t (JStr s) = (length s \<le> t)"
| "strings_within t (JArr xs) = (\<forall>x \<in> set xs. strings_within t x)"
| "strings_within t (JObj m) = (\<forall>e \<in> set m. strings_within t (snd e))"
| "strings_within t v = True"

lemma elide_within_id:
  "strings_within t v \<Longrightarrow> elide_large_strings v t = (v, 0)"
  "\<forall>x \<in> set xs. strings_within t x \<Longrightarrow> elide_all xs t = (xs, 0)"
  "\<forall>e \<in> set m. strings_within t (snd e) \<Longrightarrow> elide_members m t = (m, 0)"
  by (induction v t and xs t and m t rule: elide_large_strings_elide_all_elide_members.induct)
     auto

lemma elide_keys:
  "fst (elide_members m t) = m' \<Longrightarrow> keys m' = keys m"
  by (induction m arbitrary: m') (auto split: prod.splits)

lemma length_dec: "n < 10 ^ k \<Longrightarrow> 0 < k \<Longrightarrow> length (dec n) \<le> k"
proof (induction n arbitrary: k rule: dec.induct)
  case (1 n)
  show ?case
  proof (cases "n < 10")
    case True
    then show ?thesis using 1 by (subst dec.simps) auto
  next
    case False
    then obtain j where k: "k = Suc j" "0 < j"
      using 1(2) 1(3) by (cases k; cases "k - 1") auto
    then have "n div 10 < 10 ^ j"
      using 1(2) by (simp add: less_mult_imp_div_less)
    with 1 False k show ?thesis
      by (subst dec.simps) auto
  qed
qed

fun longest_below :: "nat \<Rightarrow> json \<Rightarrow> bool" where
  "longest_below b (JStr s) = (length s < b)"
| "longest_below b (JArr xs) = (\<forall>x \<in> set xs. longest_below b x)"
| "longest_below b (JObj m) = (\<forall>e \<in> set m. longest_below b (snd e))"
| "longest_below b v = True"

lemma elided_strings_within:
  "longest_below (2 ^ 64) v \<Longrightarrow> 37 \<le> t \<Longrightarrow> strings_within t (fst (elide_large_strings v t))"
  "\<forall>x \<in> set xs. longest_below (2 ^ 64) x \<Longrightarrow> 37 \<le> t \<Longrightarrow>
     \<forall>x \<in> set (fst (elide_all xs t)). strings_within t x"
  "\<forall>e \<in> set m. longest_below (2 ^ 64) (snd e) \<Longrightarrow> 37 \<le> t \<Longrightarrow>
     \<forall>e \<in> set (fst (elide_members m t)). strings_within t (snd e)"
proof (induction v t and xs t and m t rule: elide_large_strings_elide_all_elide_members.induct)
  case (1 s t)
  have "length s < 10 ^ 20"
    using 1 by simp
  then have "length (dec (length s)) \<le> 20"
    by (rule length_dec) simp
  with 1 show ?case by auto
qed (auto split: prod.splits)

end
