(* ===== verification/Error_Data.thy ===== *)
theory Error_Data
  imports Didi_Json
begin

text \<open>
  The floor every error envelope stands on: \<open>src/mcp/error_data.cpp\<close>, with \<open>hasRemedy\<close> of
  \<open>src/mcp/refusal_remedies.cpp\<close>. The table of remedies itself is the argument \<open>remedy\<close> of
  the floor; the lemmas hold for every table.
\<close>

section \<open>Status numbers\<close>

definition error_code_for_status :: "int \<Rightarrow> string" where
  "error_code_for_status status =
     (if status = 400 then ''invalid_arguments''
      else if status = 401 \<or> status = 403 then ''forbidden''
      else if status = 404 then ''not_found''
      else if status = 405 then ''method_not_allowed''
      else if status = 409 then ''conflict''
      else if status = 410 then ''gone''
      else if status = 413 then ''response_too_large''
      else if status = 422 then ''unprocessable''
      else if status = 428 then ''confirmation_required''
      else if status = 429 then ''rate_limited''
      else if status = 501 then ''unimplemented''
      else if status = 503 then ''not_connected''
      else if status = 504 then ''timeout''
      else if status \<ge> 500 then ''internal_error''
      else ''request_failed'')"

definition retryable_for_status :: "int \<Rightarrow> bool" where
  "retryable_for_status status = (status \<in> {428, 429, 503, 504})"

section \<open>The floor\<close>

definition remedy_keys :: "string list" where
  "remedy_keys = [''field'', ''argument'', ''parameter'', ''missing'', ''did_you_mean'',
     ''retry_with'', ''next_call'', ''restart_with'', ''retry_after_ms'', ''no_remedy'']"

definition has_remedy :: "json \<Rightarrow> bool" where
  "has_remedy data = (is_object data \<and> list_ex (contains data) remedy_keys)"

text \<open>\<open>value("code", 500)\<close> as an \<open>int\<close>: any number is cast, to 32 bits when it is an integer.\<close>

definition to_int32 :: "int \<Rightarrow> int" where
  "to_int32 i = (let r = i mod 2 ^ 32 in if r < 2 ^ 31 then r else r - 2 ^ 32)"

definition rat_trunc :: "rat \<Rightarrow> int" where
  "rat_trunc r = (if 0 \<le> r then \<lfloor>r\<rfloor> else \<lceil>r\<rceil>)"

fun get_int :: "json \<Rightarrow> (json_exn, int) result" where
  "get_int (JInt i) = Inr (to_int32 i)"
| "get_int (JUInt n) = Inr (to_int32 (int n))"
| "get_int (JFloat (Fin r)) =
     (if - (2 ^ 31) \<le> rat_trunc r \<and> rat_trunc r < 2 ^ 31 then Inr (rat_trunc r) else Inl Out_Of_Range)"
| "get_int (JFloat d) = Inl Out_Of_Range"
| "get_int (JBool b) = Inr (if b then 1 else 0)"
| "get_int v = Inl Type_Error"

definition status_of :: "json \<Rightarrow> (json_exn, int) result" where
  "status_of error = (case jget error ''code'' of None \<Rightarrow> Inr 500 | Some v \<Rightarrow> get_int v)"

definition put_missing :: "string \<Rightarrow> json \<Rightarrow> json \<Rightarrow> json" where
  "put_missing k x data = (if contains data k then data else jput k x data)"

definition string_or_empty :: "json option \<Rightarrow> string" where
  "string_or_empty v = (case v of Some (JStr s) \<Rightarrow> s | _ \<Rightarrow> [])"

definition error_data_of :: "json \<Rightarrow> json" where
  "error_data_of error =
     (case jget error ''data'' of
        None \<Rightarrow> JObj []
      | Some found \<Rightarrow>
          if is_object found then found
          else if found \<noteq> JNull then jput ''details'' found (JObj [])
          else JObj [])"

definition floor_base :: "json \<Rightarrow> int \<Rightarrow> string \<Rightarrow> string \<Rightarrow> json" where
  "floor_base error status tool canonical_tool =
     put_missing ''retryable'' (JBool (retryable_for_status status))
       (put_missing ''canonical_tool'' (JStr canonical_tool)
         (put_missing ''tool'' (JStr tool)
           (put_missing ''code'' (JStr (error_code_for_status status))
             (error_data_of error))))"

definition floor_data ::
  "(string \<Rightarrow> int \<Rightarrow> string \<Rightarrow> string \<Rightarrow> json \<Rightarrow> json) \<Rightarrow> json \<Rightarrow> int \<Rightarrow> string \<Rightarrow> string \<Rightarrow> json" where
  "floor_data remedy error status tool canonical_tool =
     (let data = floor_base error status tool canonical_tool;
          fault = (status \<ge> 500 \<and> status \<noteq> 503 \<and> status \<noteq> 504)
      in if \<not> fault \<and> \<not> has_remedy data then
           let code = string_or_empty (jget data ''code'');
               message = string_or_empty (jget error ''message'')
           in fold (\<lambda>(k, v). put_missing k v)
                (members (remedy code status message canonical_tool data)) data
         else data)"

definition apply_error_data_floor ::
  "(string \<Rightarrow> int \<Rightarrow> string \<Rightarrow> string \<Rightarrow> json \<Rightarrow> json) \<Rightarrow> json \<Rightarrow> string \<Rightarrow> string \<Rightarrow> (json_exn, json) result" where
  "apply_error_data_floor remedy error tool canonical_tool =
     (if \<not> is_object error then Inr error
      else rbind (status_of error)
             (\<lambda>status. Inr (jput ''data'' (floor_data remedy error status tool canonical_tool) error)))"

section \<open>What the floor promises\<close>

lemma is_object_put_missing [simp]: "is_object (put_missing k x d) = is_object d"
  by (simp add: put_missing_def)

lemma kv_ok_jput [simp]: "kv_ok (members d) \<Longrightarrow> kv_ok (members (jput k x d))"
  by (cases d) auto

lemma kv_ok_put_missing [simp]: "kv_ok (members d) \<Longrightarrow> kv_ok (members (put_missing k x d))"
  by (simp add: put_missing_def)

lemma jget_put_missing:
  "is_object d \<Longrightarrow> kv_ok (members d) \<Longrightarrow>
   jget (put_missing k x d) j = (case jget d j of Some v \<Rightarrow> Some v | None \<Rightarrow> if j = k then Some x else None)"
  by (auto simp: put_missing_def jget_jput contains_def split: option.splits)

lemma jget_put_missing_keep:
  "is_object d \<Longrightarrow> kv_ok (members d) \<Longrightarrow> jget d j = Some v \<Longrightarrow> jget (put_missing k x d) j = Some v"
  by (simp add: jget_put_missing)

lemma put_all_missing:
  assumes "is_object d" "kv_ok (members d)"
  shows "is_object (fold (\<lambda>(k, v). put_missing k v) es d) \<and>
         kv_ok (members (fold (\<lambda>(k, v). put_missing k v) es d)) \<and>
         (\<forall>j v. jget d j = Some v \<longrightarrow> jget (fold (\<lambda>(k, v). put_missing k v) es d) j = Some v)"
  using assms
proof (induction es arbitrary: d)
  case (Cons e es)
  obtain k x where e: "e = (k, x)" by (cases e)
  then show ?case
    using Cons.IH[of "put_missing k x d"] Cons.prems jget_put_missing_keep[of d] by simp
qed simp

lemma json_ok_kv_ok: "json_ok v \<Longrightarrow> kv_ok (members v)"
  by (cases v) auto

lemma error_data_of_object [simp]: "is_object (error_data_of error)"
  by (auto simp: error_data_of_def split: option.splits)

lemma error_data_of_kv_ok: "json_ok error \<Longrightarrow> kv_ok (members (error_data_of error))"
  by (auto simp: error_data_of_def json_ok_kv_ok json_ok_jget split: option.splits)

lemma floor_base_object [simp]: "is_object (floor_base error status tool canonical_tool)"
  by (simp add: floor_base_def)

lemma floor_base_kv_ok: "json_ok error \<Longrightarrow> kv_ok (members (floor_base error status tool canonical_tool))"
  by (simp add: floor_base_def error_data_of_kv_ok)

lemma jget_floor_base:
  "json_ok error \<Longrightarrow>
   jget (floor_base error status tool canonical_tool) j =
     (case jget (error_data_of error) j of
        Some v \<Rightarrow> Some v
      | None \<Rightarrow>
          if j = ''code'' then Some (JStr (error_code_for_status status))
          else if j = ''tool'' then Some (JStr tool)
          else if j = ''canonical_tool'' then Some (JStr canonical_tool)
          else if j = ''retryable'' then Some (JBool (retryable_for_status status))
          else None)"
  by (simp add: floor_base_def jget_put_missing error_data_of_kv_ok split: option.splits)

lemma floor_data_from_base:
  assumes "json_ok error"
  shows "is_object (floor_data remedy error status tool canonical_tool) \<and>
         kv_ok (members (floor_data remedy error status tool canonical_tool)) \<and>
         (\<forall>j v. jget (floor_base error status tool canonical_tool) j = Some v \<longrightarrow>
                jget (floor_data remedy error status tool canonical_tool) j = Some v)"
  using put_all_missing[OF floor_base_object floor_base_kv_ok[OF assms]] floor_base_kv_ok[OF assms]
  by (simp add: floor_data_def Let_def)

lemma floor_data_keeps:
  "json_ok error \<Longrightarrow> jget (error_data_of error) k = Some v \<Longrightarrow>
   jget (floor_data remedy error status tool canonical_tool) k = Some v"
  using floor_data_from_base by (simp add: jget_floor_base)

lemma floor_data_fills:
  assumes "json_ok error" and "jget (error_data_of error) k = None"
    and "(k, x) \<in> {(''code'', JStr (error_code_for_status status)), (''tool'', JStr tool),
                   (''canonical_tool'', JStr canonical_tool),
                   (''retryable'', JBool (retryable_for_status status))}"
  shows "jget (floor_data remedy error status tool canonical_tool) k = Some x"
proof -
  have "jget (floor_base error status tool canonical_tool) k = Some x"
    using assms by (auto simp: jget_floor_base)
  with floor_data_from_base[OF assms(1)] show ?thesis by blast
qed

lemma kv_ok_members: "json_ok v \<Longrightarrow> kv_ok (members v)"
  by (cases v) auto

text \<open>
  The floor fills and never overwrites: for every error object whose code is a number that
  fits, the answer's \<open>data\<close> is an object, holds the four floor fields, and every field the
  call site had set is still what the call site set it to. A \<open>data\<close> that was not an object is
  kept under \<open>details\<close>. The rest of the error is untouched.
\<close>

theorem floor_fills_and_keeps:
  assumes "json_ok error" and "is_object error" and "status_of error = Inr status"
  shows "\<exists>out data. apply_error_data_floor remedy error tool canonical_tool = Inr out \<and>
           jget out ''data'' = Some data \<and> is_object data \<and>
           (\<forall>k. k \<noteq> ''data'' \<longrightarrow> jget out k = jget error k) \<and>
           (\<forall>k v. jget (error_data_of error) k = Some v \<longrightarrow> jget data k = Some v) \<and>
           (\<forall>(k, x) \<in> {(''code'', JStr (error_code_for_status status)), (''tool'', JStr tool),
                      (''canonical_tool'', JStr canonical_tool),
                      (''retryable'', JBool (retryable_for_status status))}.
              jget (error_data_of error) k = None \<longrightarrow> jget data k = Some x)"
proof -
  let ?data = "floor_data remedy error status tool canonical_tool"
  have out: "apply_error_data_floor remedy error tool canonical_tool = Inr (jput ''data'' ?data error)"
    using assms by (simp add: apply_error_data_floor_def)
  have get: "jget (jput ''data'' ?data error) k = (if k = ''data'' then Some ?data else jget error k)" for k
    by (rule jget_jput[OF assms(2) kv_ok_members[OF assms(1)]])
  have "is_object ?data"
    using floor_data_from_base[OF assms(1)] by blast
  then show ?thesis
    using out get floor_data_keeps[OF assms(1)] floor_data_fills[OF assms(1)]
    by (intro exI[of _ "jput ''data'' ?data error"] exI[of _ ?data]) auto
qed

theorem floor_fills_and_keeps_witness:
  "let error = JObj [(''code'', JInt 404), (''data'', JObj [(''code'', JStr ''mine'')])]
   in \<exists>out data. apply_error_data_floor (\<lambda>c st m t d. JObj []) error ''t'' ''t'' = Inr out \<and>
        jget out ''data'' = Some data \<and> jget data ''code'' = Some (JStr ''mine'') \<and>
        jget data ''retryable'' = Some (JBool False)"
proof -
  let ?error = "JObj [(''code'', JInt 404), (''data'', JObj [(''code'', JStr ''mine'')])]"
  have "json_ok ?error" "is_object ?error" by simp_all
  moreover have "status_of ?error = Inr 404" by (simp add: status_of_def jget_def to_int32_def)
  moreover have "jget (error_data_of ?error) ''code'' = Some (JStr ''mine'')"
    "jget (error_data_of ?error) ''retryable'' = None" by (auto simp: error_data_of_def jget_def)
  ultimately show ?thesis
    using floor_fills_and_keeps[of ?error 404 "\<lambda>c st m t d. JObj []" "''t''" "''t''"]
    by (auto simp: Let_def retryable_for_status_def)
qed

end
