(* ===== verification/Mutation_Safety.thy ===== *)
theory Mutation_Safety
  imports Error_Data
begin

text \<open>
  The mutation gate: \<open>src/mcp/mutation_safety.cpp\<close> and \<open>include/didi/mcp/mutation_safety.hpp\<close>.

  Every tool call passes \<open>evaluate\<close>, which answers whether it may run. A mutation can be
  previewed (\<open>dry_run\<close>), and one that needs confirmation runs only against a token a preview
  minted for the same call. The state is the table of outstanding tokens. What the gate asks of
  its surroundings is the record \<open>gate_env\<close>: the serializer of JSON values, the file system's
  answer about the path an overwriting tool writes to, and the table of remedies. The clock, the
  token the generator returned and the target probe are arguments of the one call they serve.

  \<open>evaluate\<close> is one call run alone. The relation \<open>gate_step\<close> interleaves the calls of any
  number of threads at the points where the code takes and releases its lock, and the
  invariants of its reachable states say a token is spent at most as often as it was minted
  and only on the call it was minted for.  \<open>do_act\<close> is the same steps with their labels, and
  \<open>evaluate_is_steps\<close> ties the two: a call run alone is a run of its thread's own acts.
\<close>

section \<open>The tables of tools\<close>

definition k_mutations :: "string list" where
  "k_mutations =
    [''scene_instantiate_node'', ''scene_remove_node'', ''scene_reparent_node'',
     ''scene_set_property'', ''scene_duplicate_node'', ''scene_add_to_group'',
     ''scene_remove_from_group'', ''scene_create'', ''scene_open'', ''scene_close'',
     ''scene_pack_branch'', ''signal_connect'', ''signal_disconnect'', ''signal_emit'',
     ''scene_call_method'', ''script_patch_method'', ''patch_script_symbols'',
     ''script_create'', ''script_attach_to_node'', ''script_detach_from_node'',
     ''physics_simulate_step'', ''nav_bake_mesh'', ''anim_play_track'',
     ''anim_state_set'', ''tilemap_set_cells'', ''tilemap_set_region'',
     ''gridmap_set_cells'', ''resource_create'', ''instantiate_asset'',
     ''mutate_scene_tree'', ''asset_reimport'', ''project_rename_references'',
     ''project_apply_changes'', ''runtime_launch'', ''execute_test_session'',
     ''runtime_set_paused'', ''runtime_checkpoint'', ''runtime_restore_checkpoint'',
     ''runtime_recover_editor'', ''runtime_step'', ''runtime_stop'',
     ''runtime_inject_input'', ''input_map_set_action'', ''runtime_watch_invariants'',
     ''runtime_explore_scene'', ''runtime_run_scenario'', ''shader_set_uniform'',
     ''anim_add_library'', ''project_add_export_preset'', ''editor_undo'',
     ''editor_redo'', ''editor_save_scene'', ''editor_reload_project'',
     ''project_set_autoload'', ''project_remove_autoload'', ''project_set_input_action'',
     ''project_remove_input_action'', ''project_set_setting'',
     ''viewport_set_camera_transform'', ''viewport_create_test_lab'',
     ''create_visual_test_lab'', ''viewport_toggle_debug_draw'', ''project_export'',
     ''gridmap_export_mesh_library'', ''audio_configure_bus'', ''audio_add_bus'',
     ''asset_configure_import'', ''blackboard_write'', ''blackboard_patch'',
     ''blackboard_clear'', ''blackboard_task_create'', ''blackboard_task_claim'',
     ''blackboard_task_update'', ''blackboard_task_complete'']"

definition k_always_confirmed :: "string list" where
  "k_always_confirmed =
    [''runtime_restore_checkpoint'', ''editor_reload_project'', ''script_patch_method'',
     ''patch_script_symbols'', ''signal_emit'', ''scene_call_method'',
     ''project_rename_references'', ''project_apply_changes'', ''blackboard_clear'']"

definition k_runs_project_code :: "string list" where
  "k_runs_project_code =
    [''runtime_restore_checkpoint'', ''runtime_recover_editor'', ''csharp_check_build'',
     ''shader_check_compile'', ''project_export'', ''gridmap_export_mesh_library'',
     ''runtime_launch'', ''script_check_syntax'', ''runtime_run_scenario'',
     ''project_run_tests'']"

definition k_server_state_writers :: "string list" where
  "k_server_state_writers =
    [''runtime_attach_session'', ''runtime_detach_session'']"

definition k_additive_only :: "string list" where
  "k_additive_only =
    [''scene_instantiate_node'', ''scene_duplicate_node'', ''scene_add_to_group'',
     ''signal_connect'', ''blackboard_task_create'', ''runtime_checkpoint'',
     ''instantiate_asset'', ''mutate_scene_tree'', ''anim_add_library'',
     ''project_add_export_preset'', ''audio_add_bus'']"

definition k_idempotent_writers :: "string list" where
  "k_idempotent_writers =
    [''scene_set_property'', ''scene_add_to_group'', ''scene_remove_from_group'',
     ''scene_open'', ''project_set_setting'', ''project_set_input_action'',
     ''project_remove_input_action'', ''project_set_autoload'',
     ''project_remove_autoload'', ''input_map_set_action'', ''shader_set_uniform'',
     ''audio_configure_bus'', ''runtime_set_paused'', ''asset_configure_import'',
     ''blackboard_write'', ''blackboard_patch'', ''blackboard_clear'',
     ''runtime_attach_session'', ''runtime_detach_session'']"

text \<open>An overwriting tool names the argument that holds its path, or writes to a fixed path.\<close>

record overwrite_target =
  ot_argument :: string
  ot_fixed_path :: string

definition k_overwrite_confirmed :: "(string \<times> overwrite_target) list" where
  "k_overwrite_confirmed =
    [(''resource_create'', \<lparr>ot_argument = ''save_path'', ot_fixed_path = []\<rparr>),
     (''script_create'', \<lparr>ot_argument = ''script_path'', ot_fixed_path = []\<rparr>),
     (''viewport_create_test_lab'', \<lparr>ot_argument = [], ot_fixed_path = ''res://didi_test_lab.tscn''\<rparr>),
     (''create_visual_test_lab'', \<lparr>ot_argument = [], ot_fixed_path = ''res://didi_test_lab.tscn''\<rparr>),
     (''project_export'', \<lparr>ot_argument = ''output_path'', ot_fixed_path = []\<rparr>),
     (''gridmap_export_mesh_library'', \<lparr>ot_argument = ''output_path'', ot_fixed_path = []\<rparr>)]"

section \<open>State\<close>

record tool_binding =
  invoked_name :: string
  canonical_name :: string
  policy_source :: string

record mutation_context =
  project_root :: string
  execution_mode :: string
  session_id :: "string option"
  route_generation :: nat

record confirmation =
  cf_invoked_name :: string
  cf_arguments :: json
  cf_context :: mutation_context
  cf_expires_at_ms :: int
  cf_target_fingerprint :: string

type_synonym confirmations = "(string \<times> confirmation) list"

record decision =
  d_execute :: bool
  d_is_error :: bool
  d_arguments :: json
  d_payload :: json

text \<open>What the file system answers about the path an overwriting call writes to.\<close>

datatype path_answer = Unresolved | Exists_Failed | Exists bool

record gate_env =
  env_dump :: "json \<Rightarrow> string"
  env_path :: "string \<Rightarrow> path_answer"
  env_remedy :: "string \<Rightarrow> int \<Rightarrow> string \<Rightarrow> string \<Rightarrow> json \<Rightarrow> json"

type_synonym target_probe = "json \<Rightarrow> (refusal, json \<times> json) result"

definition confirmation_ttl_ms :: int where
  "confirmation_ttl_ms = 120000"

definition preview_value_elision_bytes :: nat where
  "preview_value_elision_bytes = 4096"

section \<open>What a tool is\<close>

definition is_mutation :: "tool_binding \<Rightarrow> bool" where
  "is_mutation b = (policy_source b \<in> set k_mutations)"

definition tool_runs_project_controlled_code :: "tool_binding \<Rightarrow> bool" where
  "tool_runs_project_controlled_code b = (canonical_name b \<in> set k_runs_project_code)"

definition tool_writes_server_state :: "tool_binding \<Rightarrow> bool" where
  "tool_writes_server_state b = (policy_source b \<in> set k_server_state_writers)"

definition tool_is_additive_only :: "tool_binding \<Rightarrow> bool" where
  "tool_is_additive_only b = (policy_source b \<in> set k_additive_only)"

definition tool_is_idempotent_writer :: "tool_binding \<Rightarrow> bool" where
  "tool_is_idempotent_writer b = (policy_source b \<in> set k_idempotent_writers)"

definition live_call_is_repeatable :: "tool_binding \<Rightarrow> json \<Rightarrow> (json_exn, bool) result" where
  "live_call_is_repeatable b args =
     (if is_mutation b then Inr False
      else if canonical_name b = ''editor_render_ghost_preview'' then
        (if \<not> is_object args then Inr True else value_bool args ''replace'' True)
      else Inr True)"

definition can_require_confirmation :: "tool_binding \<Rightarrow> bool" where
  "can_require_confirmation b =
     (policy_source b \<in> set k_always_confirmed \<or> kv_has k_overwrite_confirmed (policy_source b))"

definition overwrite_target_exists :: "gate_env \<Rightarrow> tool_binding \<Rightarrow> json \<Rightarrow> bool" where
  "overwrite_target_exists env b args =
     (case kv_get k_overwrite_confirmed (policy_source b) of
        None \<Rightarrow> True
      | Some entry \<Rightarrow>
          let path =
                (if ot_fixed_path entry \<noteq> [] then Some (ot_fixed_path entry)
                 else if ot_argument entry = [] \<or> \<not> is_object args then None
                 else case jget args (ot_argument entry) of
                        Some (JStr p) \<Rightarrow> Some p
                      | _ \<Rightarrow> None)
          in case path of
               None \<Rightarrow> True
             | Some p \<Rightarrow>
                 (case env_path env p of
                    Unresolved \<Rightarrow> True
                  | Exists_Failed \<Rightarrow> True
                  | Exists there \<Rightarrow> there))"

definition requires_confirmation :: "gate_env \<Rightarrow> tool_binding \<Rightarrow> json \<Rightarrow> (json_exn, bool) result" where
  "requires_confirmation env b args =
     (if policy_source b \<in> set k_always_confirmed then Inr True
      else if \<not> kv_has k_overwrite_confirmed (policy_source b) then Inr False
      else rbind (value_bool args ''overwrite'' False)
             (\<lambda>overwrite. if \<not> overwrite then Inr False else Inr (overwrite_target_exists env b args)))"

definition decorate_schema :: "tool_binding \<Rightarrow> json \<Rightarrow> json" where
  "decorate_schema b schema =
     (if \<not> is_mutation b \<or> \<not> is_object schema then schema
      else
        let props =
              (case jget schema ''properties'' of
                 Some p \<Rightarrow> if is_object p then p else JObj []
               | None \<Rightarrow> JObj []);
            props = jput ''dry_run''
              (jobj [(''type'', JStr ''boolean''), (''default'', JBool False),
                     (''description'', JStr ''Preview changes without mutation.'')]) props;
            props = (if can_require_confirmation b then
                jput ''confirmation_token''
                  (jobj [(''type'', JStr ''string''), (''minLength'', JInt 64), (''maxLength'', JInt 64),
                         (''pattern'', JStr ''^[0-9a-f]{64}$''),
                         (''description'', JStr ''Single-use token from a dry run of this exact call.'')])
                  props
              else props)
        in jput ''properties'' props schema)"

section \<open>Contexts, previews and digests\<close>

definition same_context :: "mutation_context \<Rightarrow> mutation_context \<Rightarrow> bool" where
  "same_context l r =
     (project_root l = project_root r \<and> execution_mode l = execution_mode r \<and>
      session_id l = session_id r \<and> route_generation l = route_generation r)"

definition is_secret_key :: "string \<Rightarrow> bool" where
  "is_secret_key k =
     (let key = map tolower k
      in has_infix ''token'' key \<or> has_infix ''secret'' key \<or> has_infix ''password'' key)"

definition preview_arguments :: "json \<Rightarrow> json" where
  "preview_arguments args =
     (case args of
        JObj m \<Rightarrow> JObj (map (\<lambda>(k, v). (k, if is_secret_key k then JStr ''[redacted]'' else v)) m)
      | _ \<Rightarrow> args)"

definition binding_hash :: "gate_env \<Rightarrow> tool_binding \<Rightarrow> json \<Rightarrow> mutation_context \<Rightarrow> string" where
  "binding_hash env b args ctx =
     fnv1a_hex (invoked_name b @ [CHR 0x0A] @ env_dump env args @ [CHR 0x0A] @
       project_root ctx @ [CHR 0x0A] @ execution_mode ctx @ [CHR 0x0A] @
       (case session_id ctx of None \<Rightarrow> [] | Some s \<Rightarrow> s) @ [CHR 0x0A] @
       dec (route_generation ctx))"

definition target_fingerprint :: "gate_env \<Rightarrow> json \<Rightarrow> (json_exn, string) result" where
  "target_fingerprint env before =
     (if before = JNull then Inr []
      else if is_object before then
        rbind (value_bool before ''exists'' True)
          (\<lambda>there. if \<not> there then Inr [] else Inr (fnv1a_hex (env_dump env before)))
      else Inr (fnv1a_hex (env_dump env before)))"

definition error_decision ::
  "gate_env \<Rightarrow> tool_binding \<Rightarrow> int \<Rightarrow> string \<Rightarrow> mutation_context \<Rightarrow> json \<Rightarrow> (json_exn, decision) result" where
  "error_decision env b code message ctx data =
     (let error = jobj [(''code'', JInt code), (''message'', JStr message)];
          error = (if is_object data \<and> members data \<noteq> [] then jput ''data'' data error else error)
      in rbind (apply_error_data_floor (env_remedy env) error (invoked_name b) (canonical_name b))
           (\<lambda>error. Inr \<lparr>d_execute = False, d_is_error = True, d_arguments = JObj [],
              d_payload = jobj [(''execution_mode'', JStr (execution_mode ctx)),
                                (''tool'', JStr (invoked_name b)), (''error'', error)]\<rparr>))"

definition no_data :: json where
  "no_data = JObj []"

definition allow :: "json \<Rightarrow> decision" where
  "allow args = \<lparr>d_execute = True, d_is_error = False, d_arguments = args, d_payload = JObj []\<rparr>"

section \<open>The table of tokens\<close>

text \<open>
  Pruning drops every token past its time and then, while the table is full, one that expires
  first. The table is unordered, so among several that expire first the choice is the
  argument \<open>pick\<close>.
\<close>

function evict_tokens :: "(confirmations \<Rightarrow> nat) \<Rightarrow> confirmations \<Rightarrow> confirmations" where
  "evict_tokens pick m =
     (if length m < 128 then m
      else
        let ties = least_stamped cf_expires_at_ms m
        in evict_tokens pick (kv_del (fst (ties ! (pick m mod length ties))) m))"
  by auto
termination
proof (relation "measure (\<lambda>(pick, m). length m)")
  fix pick m and ties :: confirmations
  assume big: "\<not> length m < 128" and ties: "ties = least_stamped cf_expires_at_ms m"
  then have "ties \<noteq> []"
    using least_stamped_nonempty[of m cf_expires_at_ms] by fastforce
  then have "ties ! (pick m mod length ties) \<in> set m"
    using ties least_stamped_subset[of cf_expires_at_ms m] by (meson length_greater_0_conv mod_less_divisor nth_mem subsetD)
  then show "((pick, kv_del (fst (ties ! (pick m mod length ties))) m), pick, m)
             \<in> measure (\<lambda>(pick, m). length m)"
    unfolding kv_del_def by (auto intro: length_filter_less)
qed simp

declare evict_tokens.simps [simp del]

definition prune :: "(confirmations \<Rightarrow> nat) \<Rightarrow> int \<Rightarrow> confirmations \<Rightarrow> confirmations" where
  "prune pick now m = evict_tokens pick (filter (\<lambda>(t, c). \<not> cf_expires_at_ms c < now) m)"

definition mint ::
  "(confirmations \<Rightarrow> nat) \<Rightarrow> int \<Rightarrow> string \<Rightarrow> confirmation \<Rightarrow> confirmations \<Rightarrow> confirmations" where
  "mint pick now token c m = kv_put token c (prune pick now m)"

section \<open>Previewing\<close>

definition change_of :: "json \<Rightarrow> json \<Rightarrow> (json_exn, json) result" where
  "change_of before subject =
     (let target = (if subject \<noteq> JNull then subject
            else JStr (''see mutation_preview.arguments: this tool names no subject of '' @
                       ''its own beyond the arguments it was given''))
      in if before \<noteq> JNull then
           rbind (if is_object before then value_string before ''probe_kind'' [] else Inr [])
             (\<lambda>kind. Inr (jobj [(''target'', target),
                (''kind'', JStr (if kind = ''node_resolved'' then ''resolved_target'' else ''planned_mutation'')),
                (''before'', before)]))
         else Inr (jobj [(''target'', target), (''kind'', JStr ''unverified_mutation''),
                (''before'', JStr (''not read: this tool has no preview probe, so the arguments were bound to a '' @
                                   ''token without opening the target''))]))"

definition preview_payload ::
  "gate_env \<Rightarrow> tool_binding \<Rightarrow> json \<Rightarrow> mutation_context \<Rightarrow> bool \<Rightarrow> string \<Rightarrow> json \<Rightarrow> bool \<Rightarrow> json" where
  "preview_payload env b sanitized ctx target_read fingerprint change required =
     jobj [(''tool'', JStr (invoked_name b)), (''project_root'', JStr (project_root ctx)),
           (''execution_mode'', JStr (execution_mode ctx)),
           (''session_id'', case session_id ctx of Some s \<Rightarrow> JStr s | None \<Rightarrow> JNull),
           (''route_generation'', JUInt (route_generation ctx)),
           (''arguments'', preview_arguments sanitized),
           (''binding_hash'', JStr (binding_hash env b sanitized ctx)),
           (''preview_kind'', JStr (if target_read then ''target_state'' else ''argument_binding'')),
           (''target_read'', JBool target_read),
           (''target_checked_on_confirm'', JBool (fingerprint \<noteq> [])),
           (''changes'', JArr [change]),
           (''requires_confirmation'', JBool required)]"

definition elide_targets :: "(json \<Rightarrow> json) \<Rightarrow> json \<Rightarrow> json" where
  "elide_targets f payload =
     (case jget payload ''changes'' of
        Some (JArr cs) \<Rightarrow>
          jput ''changes''
            (JArr (map (\<lambda>c. case jget c ''target'' of Some t \<Rightarrow> jput ''target'' (f t) c | None \<Rightarrow> c) cs))
            payload
      | _ \<Rightarrow> payload)"

definition fit_preview :: "gate_env \<Rightarrow> json \<Rightarrow> json" where
  "fit_preview env payload =
     (let size = (\<lambda>p. length (env_dump env p));
          shown = (\<lambda>p. case jget p ''arguments'' of Some a \<Rightarrow> a | None \<Rightarrow> JNull);
          truncated = (size payload > max_tool_response_bytes);
          p1 = (if truncated then
                  elide_targets (\<lambda>t. fst (elide_large_strings t preview_value_elision_bytes))
                    (jput ''arguments''
                      (fst (elide_large_strings (shown payload) preview_value_elision_bytes)) payload)
                else payload);
          p2 = (if truncated \<and> size p1 > max_tool_response_bytes then
                  elide_targets (\<lambda>t. JStr ''[elided: see mutation_preview.arguments]'')
                    (jput ''arguments''
                      (JStr (''[elided: the argument set serializes to '' @ dec (size (shown p1)) @
                             '' bytes, past the preview'' @ [CHR 0x27] @ ''s response budget. Dry-run with fewer or '' @
                             ''smaller arguments to read it.]'')) p1)
                else p1)
      in jput ''truncated'' (JBool truncated)
           (jput ''max_response_bytes'' (JUInt max_tool_response_bytes) p2))"

definition new_confirmation :: "tool_binding \<Rightarrow> json \<Rightarrow> mutation_context \<Rightarrow> int \<Rightarrow> string \<Rightarrow> confirmation" where
  "new_confirmation b sanitized ctx expires_at fingerprint =
     \<lparr>cf_invoked_name = invoked_name b, cf_arguments = sanitized, cf_context = ctx,
      cf_expires_at_ms = expires_at, cf_target_fingerprint = fingerprint\<rparr>"

text \<open>
  The preview of a guarded call: the probe reads the target, the answer describes the change,
  and where the call needs confirmation a token is minted for it.
\<close>

definition run_preview ::
  "gate_env \<Rightarrow> (confirmations \<Rightarrow> nat) \<Rightarrow> tool_binding \<Rightarrow> json \<Rightarrow> mutation_context \<Rightarrow> target_probe option \<Rightarrow>
   int \<Rightarrow> string \<Rightarrow> bool \<Rightarrow> confirmations \<Rightarrow> (json_exn, decision) result \<times> confirmations" where
  "run_preview env pick b sanitized ctx probe now token required m =
     (case (case probe of None \<Rightarrow> Inr (JNull, JNull) | Some p \<Rightarrow> p sanitized) of
        Inl problem \<Rightarrow>
          (error_decision env b (err_code problem) (err_message problem) ctx (err_data problem), m)
      | Inr (before, subject) \<Rightarrow>
          (case rbind (target_fingerprint env before)
                  (\<lambda>fp. rbind (change_of before subject) (\<lambda>change. Inr (fp, change))) of
             Inl ex \<Rightarrow> (Inl ex, m)
           | Inr (fingerprint, change) \<Rightarrow>
               let payload = preview_payload env b sanitized ctx (before \<noteq> JNull) fingerprint change required;
                   finish = (\<lambda>p. Inr \<lparr>d_execute = False, d_is_error = False, d_arguments = JObj [],
                              d_payload = jobj [(''dry_run'', JBool True),
                                                (''mutation_preview'', fit_preview env p)]\<rparr>)
               in if \<not> required then (finish payload, m)
                  else if length token \<noteq> 64 then
                    (error_decision env b 500 ''Unable to create a secure confirmation token'' ctx no_data, m)
                  else
                    let expires_at = now + confirmation_ttl_ms
                    in (finish (jput ''expires_at_ms'' (JInt expires_at)
                          (jput ''confirmation_token'' (JStr token) payload)),
                        mint pick now token
                          (new_confirmation b sanitized ctx expires_at fingerprint) m)))"

section \<open>Confirming\<close>

datatype token_verdict = Unknown | Expired | Mismatch | Drifted | Spendable

text \<open>The first critical section: the token is judged, and dropped when it is past its time.\<close>

definition look_up ::
  "string \<Rightarrow> tool_binding \<Rightarrow> json \<Rightarrow> mutation_context \<Rightarrow> int \<Rightarrow> confirmations \<Rightarrow>
   (token_verdict \<times> string) \<times> confirmations" where
  "look_up token b sanitized ctx now m =
     (case kv_get m token of
        None \<Rightarrow> ((Unknown, []), m)
      | Some c \<Rightarrow>
          if cf_expires_at_ms c < now then ((Expired, []), kv_del token m)
          else if cf_invoked_name c \<noteq> invoked_name b \<or> \<not> json_eq (cf_arguments c) sanitized \<or>
                  \<not> same_context (cf_context c) ctx
          then ((Mismatch, []), m)
          else ((Spendable, cf_target_fingerprint c), m))"

text \<open>Between the two critical sections: the target is read again.\<close>

definition check_drift ::
  "gate_env \<Rightarrow> tool_binding \<Rightarrow> json \<Rightarrow> mutation_context \<Rightarrow> target_probe option \<Rightarrow> token_verdict \<Rightarrow> string \<Rightarrow>
   (json_exn, (decision, token_verdict) result) result" where
  "check_drift env b sanitized ctx probe verdict previewed =
     (case probe of
        Some p \<Rightarrow>
          if verdict = Spendable \<and> previewed \<noteq> [] then
            (case p sanitized of
               Inl problem \<Rightarrow>
                 rbind (error_decision env b (err_code problem) (err_message problem) ctx no_data)
                   (\<lambda>d. Inr (Inl d))
             | Inr (before, subject) \<Rightarrow>
                 rbind (target_fingerprint env before)
                   (\<lambda>current. Inr (Inr (if current \<noteq> [] \<and> current \<noteq> previewed then Drifted else verdict))))
          else Inr (Inr verdict)
      | None \<Rightarrow> Inr (Inr verdict))"

text \<open>The second critical section: the token is taken out, if it is still there.\<close>

definition spend :: "string \<Rightarrow> token_verdict \<Rightarrow> confirmations \<Rightarrow> token_verdict \<times> confirmations" where
  "spend token verdict m =
     (if verdict = Spendable then
        (case kv_get m token of
           None \<Rightarrow> (Unknown, m)
         | Some c \<Rightarrow> (Spendable, kv_del token m))
      else (verdict, m))"

definition verdict_decision ::
  "gate_env \<Rightarrow> tool_binding \<Rightarrow> json \<Rightarrow> mutation_context \<Rightarrow> token_verdict \<Rightarrow> (json_exn, decision) result" where
  "verdict_decision env b sanitized ctx verdict =
     (case verdict of
        Unknown \<Rightarrow> error_decision env b 409 ''Confirmation token is unknown or already used'' ctx no_data
      | Expired \<Rightarrow> error_decision env b 410 ''Confirmation token has expired'' ctx no_data
      | Mismatch \<Rightarrow> error_decision env b 409
          (''Confirmation token does not match this tool, arguments, project, or session. '' @
           ''The token is still valid; retry with the arguments you previewed.'') ctx no_data
      | Drifted \<Rightarrow> error_decision env b 409
          (''The target has changed since you previewed it, so this confirmation is for a '' @
           ''state that is no longer there. Dry-run again and read the new preview before '' @
           ''confirming.'') ctx
          (jobj [(''target_changed'', JBool True), (''dry_run_argument'', JStr ''dry_run'')])
      | Spendable \<Rightarrow> Inr (allow sanitized))"

definition run_confirm ::
  "gate_env \<Rightarrow> tool_binding \<Rightarrow> json \<Rightarrow> mutation_context \<Rightarrow> target_probe option \<Rightarrow> int \<Rightarrow> string \<Rightarrow>
   confirmations \<Rightarrow> (json_exn, decision) result \<times> confirmations" where
  "run_confirm env b sanitized ctx probe now token m =
     (if token = [] then
        (error_decision env b 428
           (''This mutation requires a dry-run preview and the confirmation token '' @
            ''it returns, spent on the same arguments. The preview reads the '' @
            ''target where it can, and says so with target_read when it could not.'') ctx
           (jobj [(''dry_run_argument'', JStr ''dry_run''),
                  (''confirmation_argument'', JStr ''confirmation_token'')]), m)
      else
        let ((verdict, previewed), m1) = look_up token b sanitized ctx now m
        in case check_drift env b sanitized ctx probe verdict previewed of
             Inl ex \<Rightarrow> (Inl ex, m1)
           | Inr (Inl d) \<Rightarrow> (Inr d, m1)
           | Inr (Inr verdict) \<Rightarrow>
               let (verdict, m2) = spend token verdict m1
               in (verdict_decision env b sanitized ctx verdict, m2))"

section \<open>The gate\<close>

definition sanitize :: "json \<Rightarrow> json" where
  "sanitize args = jdel ''confirmation_token'' (jdel ''dry_run'' args)"

definition read_controls ::
  "gate_env \<Rightarrow> tool_binding \<Rightarrow> json \<Rightarrow> mutation_context \<Rightarrow>
   ((json_exn, decision) result, bool \<times> string) result" where
  "read_controls env b args ctx =
     (case (jget args ''dry_run'', jget args ''confirmation_token'') of
        (dry, conf) \<Rightarrow>
          if dry \<noteq> None \<and> \<not> is_boolean (the dry) then
            Inl (error_decision env b 400
              (''Argument '' @ [CHR 0x27] @ ''dry_run'' @ [CHR 0x27] @ '' must be a boolean, true or false, not '' @
               type_name (the dry) @ ''.'') ctx
              (jobj [(''code'', JStr ''invalid_arguments''), (''parameter'', JStr ''dry_run''),
                     (''retryable'', JBool False)]))
          else if conf \<noteq> None \<and> \<not> is_string (the conf) then
            Inl (error_decision env b 400 ''confirmation_token must be a string'' ctx
              (jobj [(''code'', JStr ''invalid_arguments''), (''parameter'', JStr ''confirmation_token''),
                     (''retryable'', JBool False)]))
          else Inr (dry = Some (JBool True), string_or_empty conf))"

definition evaluate ::
  "gate_env \<Rightarrow> (confirmations \<Rightarrow> nat) \<Rightarrow> tool_binding \<Rightarrow> json \<Rightarrow> mutation_context \<Rightarrow> target_probe option \<Rightarrow>
   int \<Rightarrow> string \<Rightarrow> confirmations \<Rightarrow> (json_exn, decision) result \<times> confirmations" where
  "evaluate env pick b args ctx probe now token m =
     (if \<not> is_object args then
        (error_decision env b 400 ''Tool arguments must be an object'' ctx no_data, m)
      else if \<not> is_mutation b then
        (if contains args ''dry_run'' \<or> contains args ''confirmation_token'' then
           (error_decision env b 400
              ''Mutation safety controls are not valid for a read-only tool'' ctx no_data, m)
         else (Inr (allow args), m))
      else case read_controls env b args ctx of
        Inl answer \<Rightarrow> (answer, m)
      | Inr (dry_run, confirmation_token) \<Rightarrow>
          let sanitized = sanitize args;
              has_confirmation = contains args ''confirmation_token''
          in case requires_confirmation env b sanitized of
               Inl ex \<Rightarrow> (Inl ex, m)
             | Inr required \<Rightarrow>
                 if dry_run then
                   (if has_confirmation then
                      (error_decision env b 400
                         ''dry_run and confirmation_token cannot be combined'' ctx no_data, m)
                    else run_preview env pick b sanitized ctx probe now token required m)
                 else if \<not> required \<and> \<not> has_confirmation then (Inr (allow sanitized), m)
                 else if \<not> required \<and> \<not> can_require_confirmation b then
                   (error_decision env b 400
                      ''This mutation does not require a confirmation token'' ctx no_data, m)
                 else run_confirm env b sanitized ctx probe now confirmation_token m)"

definition preview ::
  "gate_env \<Rightarrow> (confirmations \<Rightarrow> nat) \<Rightarrow> tool_binding \<Rightarrow> json \<Rightarrow> mutation_context \<Rightarrow>
   int \<Rightarrow> string \<Rightarrow> confirmations \<Rightarrow> (json_exn, decision) result \<times> confirmations" where
  "preview env pick b args ctx now token m =
     evaluate env pick b (jput ''dry_run'' (JBool True) args) ctx None now token m"

definition authorize ::
  "gate_env \<Rightarrow> (confirmations \<Rightarrow> nat) \<Rightarrow> tool_binding \<Rightarrow> json \<Rightarrow> mutation_context \<Rightarrow>
   int \<Rightarrow> string \<Rightarrow> confirmations \<Rightarrow> (json_exn, decision) result \<times> confirmations" where
  "authorize env pick b args ctx now token m =
     evaluate env pick b (jput ''dry_run'' (JBool False) args) ctx None now token m"

section \<open>Facts about the parts\<close>

lemma evict_tokens_ok: "kv_ok m \<Longrightarrow> kv_ok (evict_tokens pick m)"
  by (induction pick m rule: evict_tokens.induct) (subst evict_tokens.simps, simp add: Let_def)

lemma evict_tokens_length: "length (evict_tokens pick m) < 128"
  by (induction pick m rule: evict_tokens.induct) (subst evict_tokens.simps, simp add: Let_def)

lemma evict_tokens_subset: "set (evict_tokens pick m) \<subseteq> set m"
proof (induction pick m rule: evict_tokens.induct)
  case (1 pick m)
  show ?case
  proof (cases "length m < 128")
    case False
    let ?t = "fst (least_stamped cf_expires_at_ms m ! (pick m mod length (least_stamped cf_expires_at_ms m)))"
    have "evict_tokens pick m = evict_tokens pick (kv_del ?t m)"
      using False by (subst evict_tokens.simps) (simp add: Let_def)
    then show ?thesis
      using 1[OF False refl] set_kv_del[of ?t m] by auto
  qed (subst evict_tokens.simps, simp)
qed

lemma prune_ok: "kv_ok m \<Longrightarrow> kv_ok (prune pick now m)"
  by (simp add: prune_def evict_tokens_ok)

lemma prune_length: "length (prune pick now m) < 128"
  by (simp add: prune_def evict_tokens_length)

lemma prune_subset: "set (prune pick now m) \<subseteq> set m"
  using evict_tokens_subset by (force simp: prune_def)

lemma prune_live: "(t, c) \<in> set (prune pick now m) \<Longrightarrow> now \<le> cf_expires_at_ms c"
  using evict_tokens_subset by (force simp: prune_def)

lemma prune_get: "kv_ok m \<Longrightarrow> kv_get (prune pick now m) t = Some c \<Longrightarrow> kv_get m t = Some c"
  using prune_subset[of pick now m] kv_get_in[of "prune pick now m" t c] by (auto simp: kv_get_iff)

lemma mint_ok: "kv_ok m \<Longrightarrow> kv_ok (mint pick now t c m)"
  by (simp add: mint_def prune_ok)

lemma mint_get:
  "kv_ok m \<Longrightarrow> kv_get (mint pick now t c m) s = (if s = t then Some c else kv_get (prune pick now m) s)"
  by (simp add: mint_def prune_ok kv.find_put)

lemma mint_length: "kv_ok m \<Longrightarrow> length (mint pick now t c m) \<le> 128"
  using prune_length[of pick now m] kv.count_put_le[OF prune_ok[of m pick now], of t c]
  unfolding mint_def by linarith

lemma error_decision_refuses:
  "error_decision env b code message ctx data = Inr d \<Longrightarrow> \<not> d_execute d \<and> d_is_error d"
  by (auto simp: error_decision_def Let_def result_simps)

lemma error_decision_total: "\<exists>d. error_decision env b code message ctx data = Inr d"
proof -
  have code: "status_of (if P then jput ''data'' data (jobj [(''code'', JInt code), (''message'', JStr message)])
      else jobj [(''code'', JInt code), (''message'', JStr message)]) = Inr (to_int32 code)" for P
    by (simp add: status_of_def jget_jput jget_jobj)
  have "is_object (if P then jput ''data'' data (jobj [(''code'', JInt code), (''message'', JStr message)])
      else jobj [(''code'', JInt code), (''message'', JStr message)])" for P
    by simp
  then show ?thesis
    unfolding error_decision_def Let_def apply_error_data_floor_def code by simp
qed

lemma look_up_spendable:
  assumes "look_up t b args ctx now m = ((Spendable, fp), m1)"
  shows "m1 = m \<and> (\<exists>c. kv_get m t = Some c \<and> now \<le> cf_expires_at_ms c \<and>
           cf_invoked_name c = invoked_name b \<and> json_eq (cf_arguments c) args \<and>
           same_context (cf_context c) ctx \<and> cf_target_fingerprint c = fp)"
  using assms by (auto simp: look_up_def split: option.splits if_splits)

lemma look_up_store: "look_up t b args ctx now m = ((v, fp), m1) \<Longrightarrow> m1 = m \<or> m1 = kv_del t m"
  by (auto simp: look_up_def split: option.splits if_splits)

lemma check_drift_spendable:
  "check_drift env b args ctx probe v fp = Inr (Inr Spendable) \<Longrightarrow> v = Spendable"
  by (auto simp: check_drift_def result_simps split: option.splits if_splits sum.splits)

lemma check_drift_refuses:
  "check_drift env b args ctx probe v fp = Inr (Inl d) \<Longrightarrow> \<not> d_execute d"
  by (auto simp: check_drift_def result_simps split: option.splits if_splits sum.splits
           dest: error_decision_refuses)

lemma check_drift_same_target:
  assumes "check_drift env b args ctx (Some p) v fp = Inr (Inr Spendable)" "fp \<noteq> []"
  shows "\<exists>before subject current. p args = Inr (before, subject) \<and>
           target_fingerprint env before = Inr current \<and> (current = [] \<or> current = fp)"
  using assms
  by (auto simp: check_drift_def result_simps split: if_splits sum.splits)

lemma spend_spendable:
  "spend t v m = (Spendable, m1) \<longleftrightarrow> v = Spendable \<and> kv_has m t \<and> m1 = kv_del t m"
  by (auto simp: spend_def kv_has_def split: option.splits)

lemma spend_store: "spend t v m = (w, m1) \<Longrightarrow> m1 = m \<or> m1 = kv_del t m"
  by (auto simp: spend_def split: option.splits if_splits)

lemma verdict_executes:
  "verdict_decision env b args ctx v = Inr d \<Longrightarrow> d_execute d \<Longrightarrow> v = Spendable \<and> d = allow args"
  by (auto simp: verdict_decision_def split: token_verdict.splits dest: error_decision_refuses)

lemma run_preview_refuses:
  "run_preview env pick b args ctx probe now t required m = (Inr d, m1) \<Longrightarrow> \<not> d_execute d"
  unfolding run_preview_def Let_def
  by (auto split: sum.splits prod.splits if_splits dest: error_decision_refuses error_decision_refuses[OF sym])

lemma run_preview_store:
  "run_preview env pick b args ctx probe now t required m = (r, m1) \<Longrightarrow>
   m1 = m \<or> (required \<and> length t = 64 \<and>
     (\<exists>fp. m1 = mint pick now t (new_confirmation b args ctx (now + confirmation_ttl_ms) fp) m))"
  unfolding run_preview_def Let_def
  by (fastforce split: sum.splits prod.splits if_splits)

lemma run_confirm_executes:
  assumes "run_confirm env b args ctx probe now t m = (Inr d, m1)" "d_execute d"
  shows "\<exists>c. kv_get m t = Some c \<and> now \<le> cf_expires_at_ms c \<and>
           cf_invoked_name c = invoked_name b \<and> json_eq (cf_arguments c) args \<and>
           same_context (cf_context c) ctx \<and> d = allow args \<and> m1 = kv_del t m"
  using assms
  by (auto simp: run_confirm_def Let_def spend_spendable split: if_splits prod.splits sum.splits
           dest!: verdict_executes look_up_spendable check_drift_spendable
           dest: error_decision_refuses check_drift_refuses)

lemma run_confirm_store:
  "run_confirm env b args ctx probe now t m = (r, m1) \<Longrightarrow> m1 = m \<or> m1 = kv_del t m"
  by (auto simp: run_confirm_def Let_def split: if_splits prod.splits sum.splits
           dest!: look_up_store spend_store simp: kv_del_def)

section \<open>One call\<close>

lemma read_controls_dry: "read_controls env b args ctx = Inr (dry, token) \<Longrightarrow>
    dry = (jget args ''dry_run'' = Some (JBool True)) \<and> token = string_or_empty (jget args ''confirmation_token'')"
  by (auto simp: read_controls_def split: if_splits)

lemma read_controls_refuses:
  "read_controls env b args ctx = Inl (Inr d) \<Longrightarrow> \<not> d_execute d"
  by (auto simp: read_controls_def split: if_splits dest: error_decision_refuses error_decision_refuses[OF sym])

lemma evaluate_store:
  assumes "evaluate env pick b args ctx probe now t m = (r, m1)"
  shows "m1 = m \<or>
         (\<exists>token. token \<noteq> [] \<and> run_confirm env b (sanitize args) ctx probe now token m = (r, m1)) \<or>
         (length t = 64 \<and> (\<exists>fp. m1 = mint pick now t
            (new_confirmation b (sanitize args) ctx (now + confirmation_ttl_ms) fp) m))"
proof -
  have confirm: "m1 = m \<or> (\<exists>token. token \<noteq> [] \<and> run_confirm env b (sanitize args) ctx probe now token m = (r, m1))"
    if "run_confirm env b (sanitize args) ctx probe now token m = (r, m1)" for token
    using that by (cases "token = []") (auto simp: run_confirm_def)
  show ?thesis
    using assms unfolding evaluate_def Let_def
    by (auto split: if_splits sum.splits prod.splits dest: run_preview_store confirm)
qed

lemma evaluate_executes:
  assumes "evaluate env pick b args ctx probe now t m = (Inr d, m1)" "d_execute d" "is_mutation b"
  shows "jget args ''dry_run'' \<noteq> Some (JBool True) \<and> d = allow (sanitize args) \<and>
    ((requires_confirmation env b (sanitize args) = Inr False \<and> m1 = m \<and> \<not> contains args ''confirmation_token'') \<or>
     (\<exists>token. jget args ''confirmation_token'' = Some (JStr token) \<and>
        run_confirm env b (sanitize args) ctx probe now token m = (Inr d, m1)))"
proof -
  obtain dry token where rc: "read_controls env b args ctx = Inr (dry, token)"
    using assms by (cases "read_controls env b args ctx")
      (auto simp: evaluate_def Let_def split: if_splits dest: error_decision_refuses read_controls_refuses)
  note dry = read_controls_dry[OF rc]
  obtain req where req: "requires_confirmation env b (sanitize args) = Inr req"
    using assms rc by (cases "requires_confirmation env b (sanitize args)")
      (auto simp: evaluate_def Let_def split: if_splits dest: error_decision_refuses)
  have not_dry: "\<not> dry"
    using assms rc req by (auto simp: evaluate_def Let_def split: if_splits
        dest: error_decision_refuses run_preview_refuses)
  show ?thesis
  proof (cases "\<not> req \<and> \<not> contains args ''confirmation_token''")
    case True
    then show ?thesis
      using assms rc req dry not_dry
      by (auto simp: evaluate_def Let_def split: if_splits dest: error_decision_refuses)
  next
    case False
    have conf: "run_confirm env b (sanitize args) ctx probe now token m = (Inr d, m1)"
      using assms rc req not_dry False
      by (auto simp: evaluate_def Let_def split: if_splits dest: error_decision_refuses)
    then have "token \<noteq> []"
      using assms by (auto simp: run_confirm_def split: if_splits dest: error_decision_refuses)
    then have "jget args ''confirmation_token'' = Some (JStr token)"
      using dry by (auto simp: string_or_empty_def split: option.splits json.splits)
    then show ?thesis
      using conf dry not_dry run_confirm_executes[OF conf assms(2)] by auto
  qed
qed

section \<open>Interleaved calls\<close>

text \<open>
  The code holds its lock in three places: while a preview mints its token, while a confirmation
  looks its token up, and while it takes it out. Between the last two it reads the target
  without the lock. A thread is therefore idle, has looked, or has checked its target; the log
  of mints and the log of executions are ghosts.
\<close>

record gate_call =
  gc_binding :: tool_binding
  gc_arguments :: json
  gc_context :: mutation_context
  gc_token :: string

datatype thread_phase = Idle | Looked gate_call token_verdict string | Checked gate_call token_verdict

record gate_state =
  gs_store :: confirmations
  gs_threads :: "nat \<Rightarrow> thread_phase"
  gs_minted :: "(string \<times> confirmation) list"
  gs_executed :: "gate_call list"

definition gate_init :: gate_state where
  "gate_init = \<lparr>gs_store = [], gs_threads = (\<lambda>i. Idle), gs_minted = [], gs_executed = []\<rparr>"

inductive gate_step :: "gate_env \<Rightarrow> gate_state \<Rightarrow> gate_state \<Rightarrow> bool" for env where
  step_mint:
    "gs_threads s i = Idle \<Longrightarrow> length t = 64 \<Longrightarrow> c = new_confirmation b args ctx (now + confirmation_ttl_ms) fp \<Longrightarrow>
     gate_step env s (s\<lparr>gs_store := mint pick now t c (gs_store s), gs_minted := (t, c) # gs_minted s\<rparr>)"
| step_look:
    "gs_threads s i = Idle \<Longrightarrow> gc_token call \<noteq> [] \<Longrightarrow>
     look_up (gc_token call) (gc_binding call) (gc_arguments call) (gc_context call) now (gs_store s) = ((v, fp), m1) \<Longrightarrow>
     gate_step env s (s\<lparr>gs_store := m1, gs_threads := (gs_threads s)(i := Looked call v fp)\<rparr>)"
| step_check:
    "gs_threads s i = Looked call v fp \<Longrightarrow>
     check_drift env (gc_binding call) (gc_arguments call) (gc_context call) probe v fp = Inr (Inr w) \<Longrightarrow>
     gate_step env s (s\<lparr>gs_threads := (gs_threads s)(i := Checked call w)\<rparr>)"
| step_check_fails:
    "gs_threads s i = Looked call v fp \<Longrightarrow>
     check_drift env (gc_binding call) (gc_arguments call) (gc_context call) probe v fp = r \<Longrightarrow>
     (\<forall>w. r \<noteq> Inr (Inr w)) \<Longrightarrow>
     gate_step env s (s\<lparr>gs_threads := (gs_threads s)(i := Idle)\<rparr>)"
| step_spend:
    "gs_threads s i = Checked call v \<Longrightarrow> spend (gc_token call) v (gs_store s) = (w, m1) \<Longrightarrow>
     gate_step env s (s\<lparr>gs_store := m1, gs_threads := (gs_threads s)(i := Idle),
       gs_executed := (if w = Spendable then call # gs_executed s else gs_executed s)\<rparr>)"

inductive gate_reach :: "gate_env \<Rightarrow> gate_state \<Rightarrow> bool" for env where
  reach_init: "gate_reach env gate_init"
| reach_step: "gate_reach env s \<Longrightarrow> gate_step env s s' \<Longrightarrow> gate_reach env s'"

inductive_cases gate_stepE: "gate_step env s s'"

definition minted_as :: "string \<Rightarrow> (string \<times> confirmation) list \<Rightarrow> nat" where
  "minted_as t hist = length (filter (\<lambda>e. fst e = t) hist)"

definition spent_as :: "string \<Rightarrow> gate_call list \<Rightarrow> nat" where
  "spent_as t hist = length (filter (\<lambda>call. gc_token call = t) hist)"

definition matches_mint :: "gate_call \<Rightarrow> (string \<times> confirmation) list \<Rightarrow> bool" where
  "matches_mint call hist =
     (\<exists>(t, c) \<in> set hist. t = gc_token call \<and> cf_invoked_name c = invoked_name (gc_binding call) \<and>
        json_eq (cf_arguments c) (gc_arguments call) \<and> same_context (cf_context c) (gc_context call))"

definition store_ok :: "confirmations \<Rightarrow> bool" where
  "store_ok m = (kv_ok m \<and> length m \<le> 128)"

definition gate_inv :: "gate_state \<Rightarrow> bool" where
  "gate_inv s =
     (store_ok (gs_store s) \<and> set (gs_store s) \<subseteq> set (gs_minted s) \<and>
      (\<forall>t. spent_as t (gs_executed s) + (if kv_has (gs_store s) t then 1 else 0) \<le> minted_as t (gs_minted s)) \<and>
      (\<forall>i call fp. gs_threads s i = Looked call Spendable fp \<longrightarrow> matches_mint call (gs_minted s)) \<and>
      (\<forall>i call. gs_threads s i = Checked call Spendable \<longrightarrow> matches_mint call (gs_minted s)) \<and>
      (\<forall>call \<in> set (gs_executed s). matches_mint call (gs_minted s)))"

lemma store_ok_del: "store_ok m \<Longrightarrow> store_ok (kv_del t m)"
  unfolding store_ok_def using kv.count_del[of m t] by auto

lemma store_ok_mint: "store_ok m \<Longrightarrow> store_ok (mint pick now t c m)"
  by (simp add: store_ok_def mint_ok mint_length)

lemma store_ok_look: "store_ok m \<Longrightarrow> look_up t b args ctx now m = ((v, fp), m1) \<Longrightarrow> store_ok m1"
  using look_up_store store_ok_del by metis

lemma store_ok_spend: "store_ok m \<Longrightarrow> spend t v m = (w, m1) \<Longrightarrow> store_ok m1"
  using spend_store store_ok_del by metis

lemma kv_has_del: "kv_has (kv_del t m) s = (kv_has m s \<and> s \<noteq> t)"
  by (simp add: kv_has_def)

lemma kv_has_mint: "kv_ok m \<Longrightarrow> kv_has (mint pick now t c m) s \<Longrightarrow> s = t \<or> kv_has m s"
  by (auto simp: kv_has_def mint_get dest: prune_get split: if_splits)

lemma matches_mint_Cons: "matches_mint call hist \<Longrightarrow> matches_mint call (e # hist)"
  by (auto simp: matches_mint_def)

lemma look_up_matches:
  assumes "look_up (gc_token call) (gc_binding call) (gc_arguments call) (gc_context call) now m = ((Spendable, fp), m1)"
    and "set m \<subseteq> set hist"
  shows "matches_mint call hist"
  using look_up_spendable[OF assms(1)] assms(2)
  by (auto simp: matches_mint_def dest!: kv_get_in)

lemma gate_inv_init: "gate_inv gate_init"
  by (simp add: gate_inv_def gate_init_def store_ok_def spent_as_def kv_has_def)

lemma gate_inv_mint:
  assumes "gate_inv s" "length t = 64"
  shows "gate_inv (s\<lparr>gs_store := mint pick now t c (gs_store s), gs_minted := (t, c) # gs_minted s\<rparr>)"
proof -
  let ?m = "mint pick now t c (gs_store s)"
  have ok: "kv_ok (gs_store s)" "store_ok ?m"
    using assms store_ok_mint by (auto simp: gate_inv_def store_ok_def)
  have "set ?m \<subseteq> insert (t, c) (set (gs_minted s))"
    using assms set_kv_put prune_subset unfolding gate_inv_def mint_def by fastforce
  moreover have "spent_as u (gs_executed s) + (if kv_has ?m u then 1 else 0)
      \<le> minted_as u ((t, c) # gs_minted s)" for u
  proof -
    have "spent_as u (gs_executed s) + (if kv_has (gs_store s) u then 1 else 0) \<le> minted_as u (gs_minted s)"
      using assms by (simp add: gate_inv_def)
    then show ?thesis
      using kv_has_mint[OF ok(1), of pick now t c u]
      by (auto simp: minted_as_def split: if_splits)
  qed
  ultimately show ?thesis
    using assms ok by (auto simp: gate_inv_def matches_mint_Cons)
qed

lemma gate_inv_look:
  assumes "gate_inv s"
    and look: "look_up (gc_token call) (gc_binding call) (gc_arguments call) (gc_context call) now (gs_store s) = ((v, fp), m1)"
  shows "gate_inv (s\<lparr>gs_store := m1, gs_threads := (gs_threads s)(i := Looked call v fp)\<rparr>)"
proof -
  have m1: "m1 = gs_store s \<or> m1 = kv_del (gc_token call) (gs_store s)"
    using look_up_store look by metis
  have sub: "set m1 \<subseteq> set (gs_minted s)"
    using m1 assms set_kv_del[of "gc_token call" "gs_store s"] unfolding gate_inv_def by fastforce
  have counts: "spent_as u (gs_executed s) + (if kv_has m1 u then 1 else 0) \<le> minted_as u (gs_minted s)" for u
  proof -
    have "spent_as u (gs_executed s) + (if kv_has (gs_store s) u then 1 else 0) \<le> minted_as u (gs_minted s)"
      using assms by (simp add: gate_inv_def)
    then show ?thesis
      using m1 by (auto simp: kv_has_del split: if_splits)
  qed
  have "v = Spendable \<Longrightarrow> matches_mint call (gs_minted s)"
    using look_up_matches[of call now "gs_store s" fp m1] look assms by (simp add: gate_inv_def)
  then show ?thesis
    using assms sub counts store_ok_look[OF _ look] by (auto simp: gate_inv_def)
qed

lemma gate_inv_check:
  assumes "gate_inv s" "gs_threads s i = Looked call v fp"
    and "check_drift env b args ctx probe v fp = Inr (Inr w)"
  shows "gate_inv (s\<lparr>gs_threads := (gs_threads s)(i := Checked call w)\<rparr>)"
proof -
  have "w = Spendable \<Longrightarrow> matches_mint call (gs_minted s)"
    using assms check_drift_spendable unfolding gate_inv_def by metis
  then show ?thesis
    using assms(1) by (auto simp: gate_inv_def)
qed

lemma gate_inv_idle:
  "gate_inv s \<Longrightarrow> gate_inv (s\<lparr>gs_threads := (gs_threads s)(i := Idle)\<rparr>)"
  by (auto simp: gate_inv_def)

lemma gate_inv_spend:
  assumes "gate_inv s" "gs_threads s i = Checked call v" "spend (gc_token call) v (gs_store s) = (w, m1)"
  shows "gate_inv (s\<lparr>gs_store := m1, gs_threads := (gs_threads s)(i := Idle),
           gs_executed := (if w = Spendable then call # gs_executed s else gs_executed s)\<rparr>)"
proof -
  let ?e = "if w = Spendable then call # gs_executed s else gs_executed s"
  have m1: "m1 = gs_store s \<or> m1 = kv_del (gc_token call) (gs_store s)"
    using spend_store assms(3) by metis
  have sub: "set m1 \<subseteq> set (gs_minted s)"
    using m1 assms set_kv_del[of "gc_token call" "gs_store s"] unfolding gate_inv_def by fastforce
  have w: "w = Spendable \<Longrightarrow> v = Spendable \<and> kv_has (gs_store s) (gc_token call) \<and> m1 = kv_del (gc_token call) (gs_store s)"
    using assms(3) spend_spendable by metis
  have counts: "spent_as u ?e + (if kv_has m1 u then 1 else 0) \<le> minted_as u (gs_minted s)" for u
  proof -
    have before: "spent_as u (gs_executed s) + (if kv_has (gs_store s) u then 1 else 0) \<le> minted_as u (gs_minted s)"
      using assms by (simp add: gate_inv_def)
    show ?thesis
    proof (cases "w = Spendable")
      case True
      then show ?thesis
        using before w by (auto simp: spent_as_def kv_has_del split: if_splits)
    next
      case False
      then show ?thesis
        using before m1 by (auto simp: kv_has_del split: if_splits)
    qed
  qed
  have "\<forall>c \<in> set ?e. matches_mint c (gs_minted s)"
    using assms(1,2) w by (auto simp: gate_inv_def)
  then show ?thesis
    using assms(1) sub counts store_ok_spend[OF _ assms(3)] by (auto simp: gate_inv_def)
qed

lemma gate_inv_step: "gate_step env s s' \<Longrightarrow> gate_inv s \<Longrightarrow> gate_inv s'"
  by (induction rule: gate_step.induct)
     (blast intro: gate_inv_mint gate_inv_look gate_inv_check gate_inv_idle gate_inv_spend)+

lemma gate_reach_inv: "gate_reach env s \<Longrightarrow> gate_inv s"
  by (induction rule: gate_reach.induct) (auto intro: gate_inv_init gate_inv_step)

section \<open>The acts of one call\<close>

text \<open>
  The steps one thread takes, with their labels: minting for a call, looking a call's token up,
  checking its target, taking the token out. An act is deterministic and None where the thread
  is not at the point the act starts from. \<open>run_acts\<close> runs a list of them.
\<close>

datatype gate_act = Mint gate_call string | Look gate_call | Check | Spend

fun do_act ::
  "gate_env \<Rightarrow> (confirmations \<Rightarrow> nat) \<Rightarrow> target_probe option \<Rightarrow> int \<Rightarrow> string \<Rightarrow> nat \<Rightarrow> gate_act \<Rightarrow>
   gate_state \<Rightarrow> gate_state option" where
  "do_act env pick probe now t i (Mint call fp) s =
     (if gs_threads s i = Idle \<and> length t = 64 then
        let c = new_confirmation (gc_binding call) (gc_arguments call) (gc_context call)
                  (now + confirmation_ttl_ms) fp
        in Some (s\<lparr>gs_store := mint pick now t c (gs_store s), gs_minted := (t, c) # gs_minted s\<rparr>)
      else None)"
| "do_act env pick probe now t i (Look call) s =
     (if gs_threads s i = Idle \<and> gc_token call \<noteq> [] then
        let ((v, fp), m1) =
              look_up (gc_token call) (gc_binding call) (gc_arguments call) (gc_context call) now (gs_store s)
        in Some (s\<lparr>gs_store := m1, gs_threads := (gs_threads s)(i := Looked call v fp)\<rparr>)
      else None)"
| "do_act env pick probe now t i Check s =
     (case gs_threads s i of
        Looked call v fp \<Rightarrow>
          Some (s\<lparr>gs_threads := (gs_threads s)(i :=
            (case check_drift env (gc_binding call) (gc_arguments call) (gc_context call) probe v fp of
               Inr (Inr w) \<Rightarrow> Checked call w
             | r \<Rightarrow> Idle))\<rparr>)
      | ph \<Rightarrow> None)"
| "do_act env pick probe now t i Spend s =
     (case gs_threads s i of
        Checked call v \<Rightarrow>
          let (w, m1) = spend (gc_token call) v (gs_store s)
          in Some (s\<lparr>gs_store := m1, gs_threads := (gs_threads s)(i := Idle),
               gs_executed := (if w = Spendable then call # gs_executed s else gs_executed s)\<rparr>)
      | ph \<Rightarrow> None)"

fun run_acts ::
  "gate_env \<Rightarrow> (confirmations \<Rightarrow> nat) \<Rightarrow> target_probe option \<Rightarrow> int \<Rightarrow> string \<Rightarrow> nat \<Rightarrow> gate_act list \<Rightarrow>
   gate_state \<Rightarrow> gate_state option" where
  "run_acts env pick probe now t i [] s = Some s"
| "run_acts env pick probe now t i (a # as) s =
     (case do_act env pick probe now t i a s of
        None \<Rightarrow> None
      | Some s1 \<Rightarrow> run_acts env pick probe now t i as s1)"

lemma do_act_step: "do_act env pick probe now t i a s = Some s' \<Longrightarrow> gate_step env s s'"
proof (cases a)
  case (Mint call fp)
  assume act: "do_act env pick probe now t i a s = Some s'"
  then show ?thesis
    using Mint step_mint[of s i t _ "gc_binding call" "gc_arguments call" "gc_context call" now fp env pick]
    by (simp add: Let_def split: if_splits)
next
  case (Look call)
  assume "do_act env pick probe now t i a s = Some s'"
  then show ?thesis
    using Look by (auto split: if_splits prod.splits intro: step_look)
next
  case Check
  assume act: "do_act env pick probe now t i a s = Some s'"
  then obtain call v fp where th: "gs_threads s i = Looked call v fp"
    using Check by (auto split: thread_phase.splits)
  show ?thesis
  proof (cases "\<exists>w. check_drift env (gc_binding call) (gc_arguments call) (gc_context call) probe v fp = Inr (Inr w)")
    case True
    then show ?thesis using act Check th by (auto intro: step_check)
  next
    case False
    then show ?thesis
      using act Check th step_check_fails[OF th refl, of env probe] by (auto split: sum.splits)
  qed
next
  case Spend
  assume "do_act env pick probe now t i a s = Some s'"
  then show ?thesis
    using Spend step_spend by (fastforce simp: Let_def split: thread_phase.splits prod.splits)
qed

lemma run_acts_steps: "run_acts env pick probe now t i as s = Some s' \<Longrightarrow> (gate_step env)\<^sup>*\<^sup>* s s'"
proof (induction as arbitrary: s)
  case (Cons a as)
  then obtain s1 where "do_act env pick probe now t i a s = Some s1" "run_acts env pick probe now t i as s1 = Some s'"
    by (auto split: option.splits)
  then show ?case
    using Cons.IH do_act_step by (meson converse_rtranclp_into_rtranclp)
qed simp

lemma gate_reach_steps: "(gate_step env)\<^sup>*\<^sup>* s s' \<Longrightarrow> gate_reach env s \<Longrightarrow> gate_reach env s'"
  by (induction rule: rtranclp_induct) (auto intro: reach_step)

text \<open>The acts a call can amount to, and what its answer says: a token handed out, a token spent.\<close>

fun acts_of_call :: "gate_call \<Rightarrow> gate_act list \<Rightarrow> bool" where
  "acts_of_call call [] = True"
| "acts_of_call call [Mint previewed fp] = (previewed = call\<lparr>gc_token := []\<rparr>)"
| "acts_of_call call [Look looked, Check] = (looked = call)"
| "acts_of_call call [Look looked, Check, Spend] = (looked = call)"
| "acts_of_call call acts = False"

definition call_of :: "tool_binding \<Rightarrow> json \<Rightarrow> mutation_context \<Rightarrow> gate_call" where
  "call_of b args ctx = \<lparr>gc_binding = b, gc_arguments = sanitize args, gc_context = ctx,
     gc_token = string_or_empty (jget args ''confirmation_token'')\<rparr>"

definition handed_out :: "(json_exn, decision) result \<Rightarrow> string list" where
  "handed_out r =
     (case r of
        Inl ex \<Rightarrow> []
      | Inr d \<Rightarrow> (case jget (d_payload d) ''mutation_preview'' of
          None \<Rightarrow> []
        | Some p \<Rightarrow> (case jget p ''confirmation_token'' of Some (JStr t) \<Rightarrow> [t] | v \<Rightarrow> [])))"

definition spends_token :: "tool_binding \<Rightarrow> json \<Rightarrow> (json_exn, decision) result \<Rightarrow> bool" where
  "spends_token b args r =
     (is_mutation b \<and> contains args ''confirmation_token'' \<and>
      (case r of Inl ex \<Rightarrow> False | Inr d \<Rightarrow> d_execute d))"

lemma handed_out_error [simp]: "handed_out (error_decision env b code message ctx data) = []"
  using error_decision_total[of env b code message ctx data]
  by (auto simp: handed_out_def error_decision_def Let_def result_simps jget_jobj kv_get_def split: sum.splits)

lemma handed_out_allow [simp]: "handed_out (Inr (allow args)) = []"
  by (simp add: handed_out_def allow_def jget_def kv_get_def)

lemma jget_elide_targets: "is_object p \<Longrightarrow> k \<noteq> ''changes'' \<Longrightarrow> jget (elide_targets f p) k = jget p k"
  by (auto simp: elide_targets_def jget_jput_any split: option.splits json.splits)

lemma is_object_elide_targets [simp]: "is_object p \<Longrightarrow> is_object (elide_targets f p)"
  by (auto simp: elide_targets_def split: option.splits json.splits)

lemma fit_preview_token:
  "is_object p \<Longrightarrow> jget (fit_preview env p) ''confirmation_token'' = jget p ''confirmation_token''"
  by (simp add: fit_preview_def Let_def jget_jput_any jget_elide_targets)

lemma run_preview_route:
  assumes "run_preview env pick b args ctx probe now t required m = (r, m1)"
  shows "(m1 = m \<and> handed_out r = []) \<or>
         (handed_out r = [t] \<and> length t = 64 \<and>
          (\<exists>fp. m1 = mint pick now t (new_confirmation b args ctx (now + confirmation_ttl_ms) fp) m))"
proof -
  have handed: "handed_out (Inr \<lparr>d_execute = False, d_is_error = False, d_arguments = JObj [],
      d_payload = jobj [(''dry_run'', JBool True), (''mutation_preview'', fit_preview env p)]\<rparr>) =
      (case jget p ''confirmation_token'' of Some (JStr t) \<Rightarrow> [t] | v \<Rightarrow> [])" if "is_object p" for p
    using fit_preview_token[OF that] by (simp add: handed_out_def jget_jobj)
  have plain: "is_object (preview_payload env b args ctx tr fp ch rq)"
    "jget (preview_payload env b args ctx tr fp ch rq) ''confirmation_token'' = None" for tr fp ch rq
    by (simp_all add: preview_payload_def jget_jobj)
  show ?thesis
    using assms plain unfolding run_preview_def Let_def
    by (auto simp: handed jget_jput_any split: sum.splits prod.splits if_splits)
       (auto simp: handed_out_def)
qed

lemma check_drift_handed: "check_drift env b args ctx probe v fp = Inr (Inl d) \<Longrightarrow> handed_out (Inr d) = []"
proof -
  assume "check_drift env b args ctx probe v fp = Inr (Inl d)"
  then obtain code message where "error_decision env b code message ctx no_data = Inr d"
    by (auto simp: check_drift_def result_simps split: option.splits if_splits sum.splits)
  then show ?thesis
    using handed_out_error[of env b code message ctx no_data] by simp
qed

lemma verdict_route:
  "handed_out (verdict_decision env b args ctx w) = [] \<and>
   ((\<exists>d. verdict_decision env b args ctx w = Inr d \<and> d_execute d) \<longleftrightarrow> w = Spendable)"
  using verdict_executes[of env b args ctx w]
  by (auto simp: verdict_decision_def split: token_verdict.splits) (simp add: allow_def)

text \<open>A confirmation is a look and a check, and a spend unless reading the target failed.\<close>

lemma confirm_runs:
  assumes idle: "gs_threads s i = Idle" and tok: "gc_token call \<noteq> []"
    and run: "run_confirm env (gc_binding call) (gc_arguments call) (gc_context call) probe now (gc_token call)
      (gs_store s) = (r, m1)"
  shows "\<exists>acts s'. acts_of_call call acts \<and> run_acts env pick probe now t i acts s = Some s' \<and>
           gs_store s' = m1 \<and> gs_threads s' = gs_threads s \<and> gs_minted s' = gs_minted s \<and> handed_out r = [] \<and>
           gs_executed s' = (if \<exists>d. r = Inr d \<and> d_execute d then [call] else []) @ gs_executed s"
proof -
  let ?b = "gc_binding call" and ?args = "gc_arguments call" and ?ctx = "gc_context call"
  have same: "(gs_threads s)(i := Idle) = gs_threads s"
    using idle by auto
  obtain v fp ma where look: "look_up (gc_token call) ?b ?args ?ctx now (gs_store s) = ((v, fp), ma)"
    by (cases "look_up (gc_token call) ?b ?args ?ctx now (gs_store s)") auto
  let ?s1 = "s\<lparr>gs_store := ma, gs_threads := (gs_threads s)(i := Looked call v fp)\<rparr>"
  have a1: "do_act env pick probe now t i (Look call) s = Some ?s1"
    using idle tok look by simp
  show ?thesis
  proof (cases "\<exists>w. check_drift env ?b ?args ?ctx probe v fp = Inr (Inr w)")
    case True
    then obtain w where w: "check_drift env ?b ?args ?ctx probe v fp = Inr (Inr w)" by blast
    obtain w' mb where sp: "spend (gc_token call) w ma = (w', mb)" by (cases "spend (gc_token call) w ma") auto
    have res: "m1 = mb" "r = verdict_decision env ?b ?args ?ctx w'"
      using run tok look w sp by (auto simp: run_confirm_def)
    have "\<exists>s'. run_acts env pick probe now t i [Look call, Check, Spend] s = Some s' \<and> gs_store s' = m1 \<and>
        gs_threads s' = gs_threads s \<and> gs_minted s' = gs_minted s \<and>
        gs_executed s' = (if w' = Spendable then [call] else []) @ gs_executed s"
      using a1 w sp same res(1) by simp
    then obtain s' where s': "run_acts env pick probe now t i [Look call, Check, Spend] s = Some s'"
      "gs_store s' = m1" "gs_threads s' = gs_threads s" "gs_minted s' = gs_minted s"
      "gs_executed s' = (if w' = Spendable then [call] else []) @ gs_executed s" by blast
    have ex: "(\<exists>d. r = Inr d \<and> d_execute d) = (w' = Spendable)" "handed_out r = []"
      unfolding res(2) using verdict_route[of env ?b ?args ?ctx w'] by simp_all
    show ?thesis
      by (intro exI[of _ "[Look call, Check, Spend]"] exI[of _ s'])
         (use s' in \<open>simp only: acts_of_call.simps ex simp_thms\<close>)
  next
    case False
    then have res: "m1 = ma" "\<not> (\<exists>d. r = Inr d \<and> d_execute d)" "handed_out r = []"
      using run tok look check_drift_handed[of env ?b ?args ?ctx probe v fp]
      by (auto simp: run_confirm_def handed_out_def split: sum.splits dest: check_drift_refuses)
    have "\<exists>s'. run_acts env pick probe now t i [Look call, Check] s = Some s' \<and> gs_store s' = m1 \<and>
        gs_threads s' = gs_threads s \<and> gs_minted s' = gs_minted s \<and> gs_executed s' = gs_executed s"
      using a1 False same res(1) by (auto split: sum.splits)
    then obtain s' where s': "run_acts env pick probe now t i [Look call, Check] s = Some s'"
      "gs_store s' = m1" "gs_threads s' = gs_threads s" "gs_minted s' = gs_minted s"
      "gs_executed s' = gs_executed s" by blast
    have ex: "(\<exists>d. r = Inr d \<and> d_execute d) = False" "handed_out r = []"
      using res(2,3) by blast+
    show ?thesis
      by (intro exI[of _ "[Look call, Check]"] exI[of _ s'])
         (use s' in \<open>simp only: acts_of_call.simps ex simp_thms if_False append_Nil\<close>)
  qed
qed

lemma confirm_route:
  "run_confirm env b args ctx probe now [] m = (r, m1) \<Longrightarrow>
   m1 = m \<and> handed_out r = [] \<and> \<not> (\<exists>d. r = Inr d \<and> d_execute d)"
  using error_decision_refuses handed_out_error by (auto simp: run_confirm_def)

lemma evaluate_route:
  assumes "evaluate env pick b args ctx probe now t m = (r, m1)"
  shows "(m1 = m \<and> handed_out r = [] \<and> \<not> spends_token b args r) \<or>
         (is_mutation b \<and> contains args ''confirmation_token'' \<and> gc_token (call_of b args ctx) \<noteq> [] \<and>
          run_confirm env b (sanitize args) ctx probe now (gc_token (call_of b args ctx)) m = (r, m1)) \<or>
         (handed_out r = [t] \<and> length t = 64 \<and> \<not> spends_token b args r \<and>
          (\<exists>fp. m1 = mint pick now t
             (new_confirmation b (sanitize args) ctx (now + confirmation_ttl_ms) fp) m))"
proof -
  have refuses: "\<not> spends_token b args (error_decision env b code message ctx data)" for code message data
    using error_decision_refuses by (auto simp: spends_token_def split: sum.splits)
  show ?thesis
  proof (cases "is_object args \<and> is_mutation b \<and> (\<exists>c. read_controls env b args ctx = Inr c)")
    case False
    have "handed_out answer = [] \<and> \<not> spends_token b args answer"
      if "read_controls env b args ctx = Inl answer" for answer
      using that refuses by (auto simp: read_controls_def split: if_splits)
    moreover have "\<not> is_mutation b \<Longrightarrow> \<not> spends_token b args q" for q
      by (simp add: spends_token_def)
    ultimately show ?thesis
      using False assms refuses by (auto simp: evaluate_def split: if_splits sum.splits)
  next
    case True
    then obtain dry token where rc: "read_controls env b args ctx = Inr (dry, token)" by auto
    then have tok: "token = gc_token (call_of b args ctx)"
      using read_controls_dry by (simp add: call_of_def)
    have conf: ?thesis if "run_confirm env b (sanitize args) ctx probe now token m = (r, m1)"
    proof (cases "token = []")
      case True
      then show ?thesis
        using confirm_route[of env b "sanitize args" ctx probe now m r m1] that
        by (auto simp: spends_token_def split: sum.splits)
    next
      case False
      then have "contains args ''confirmation_token''"
        using tok by (auto simp: call_of_def string_or_empty_def contains_def split: option.splits)
      then show ?thesis using that tok False True by blast
    qed
    have prev: ?thesis if "run_preview env pick b (sanitize args) ctx probe now t req m = (r, m1)" for req
      using run_preview_route[OF that] run_preview_refuses[of env pick b "sanitize args" ctx probe now t req m _ m1] that
      by (auto simp: spends_token_def split: sum.splits)
    have allowed: "\<not> contains args ''confirmation_token'' \<Longrightarrow> \<not> spends_token b args q" for q
      by (simp add: spends_token_def)
    show ?thesis
    proof (cases "requires_confirmation env b (sanitize args)")
      case (Inl ex)
      then show ?thesis
        using assms True rc by (auto simp: evaluate_def handed_out_def spends_token_def)
    next
      case (Inr req)
      show ?thesis
      proof (cases dry)
        case dry: True
        have "(r, m1) = (if contains args ''confirmation_token'' then
            (error_decision env b 400 ''dry_run and confirmation_token cannot be combined'' ctx no_data, m)
          else run_preview env pick b (sanitize args) ctx probe now t req m)"
          unfolding assms[symmetric] using True rc Inr dry by (simp add: evaluate_def)
        then consider "(r, m1) = (error_decision env b 400
            ''dry_run and confirmation_token cannot be combined'' ctx no_data, m)"
          | "run_preview env pick b (sanitize args) ctx probe now t req m = (r, m1)"
          by (cases "contains args ''confirmation_token''") (simp_all only: if_True if_False)
        then show ?thesis
        proof cases
          case 1
          then show ?thesis using refuses by simp
        next
          case 2
          then show ?thesis by (rule prev)
        qed
      next
        case dry: False
        have "(r, m1) = (if \<not> req \<and> \<not> contains args ''confirmation_token'' then (Inr (allow (sanitize args)), m)
          else if \<not> req \<and> \<not> can_require_confirmation b then
            (error_decision env b 400 ''This mutation does not require a confirmation token'' ctx no_data, m)
          else run_confirm env b (sanitize args) ctx probe now token m)"
          unfolding assms[symmetric] using True rc Inr dry by (simp add: evaluate_def Let_def)
        then consider "\<not> contains args ''confirmation_token''" "(r, m1) = (Inr (allow (sanitize args)), m)"
          | message where "(r, m1) = (error_decision env b 400 message ctx no_data, m)"
          | "run_confirm env b (sanitize args) ctx probe now token m = (r, m1)"
          by metis
        then show ?thesis
        proof cases
          case 1
          then show ?thesis using allowed by simp
        next
          case 2
          then show ?thesis using refuses by simp
        next
          case 3
          then show ?thesis by (rule conf)
        qed
      qed
    qed
  qed
qed

lemma look_up_keeps:
  "look_up t b args ctx now m = ((v, fp), m1) \<Longrightarrow> kv_get m t = Some c \<Longrightarrow> now \<le> cf_expires_at_ms c \<Longrightarrow>
   m1 = m"
  by (auto simp: look_up_def split: if_splits)

lemma unminted_route_keeps:
  assumes run: "run_confirm env b args ctx probe now t m = (r, m1)" and u: "kv_get m u = Some c"
    and live: "now \<le> cf_expires_at_ms c" and not_spent: "u = t \<Longrightarrow> \<not> (\<exists>d. r = Inr d \<and> d_execute d)"
  shows "kv_get m1 u = Some c"
proof (cases "u = t")
  case False
  then show ?thesis using run_confirm_store[OF run] u by auto
next
  case True
  note refused = not_spent[OF True]
  obtain v fp ma where look: "look_up t b args ctx now m = ((v, fp), ma)"
    by (cases "look_up t b args ctx now m") auto
  then have ma: "ma = m" using look_up_keeps u live True by blast
  consider "m1 = m" | w w' where "spend t w m = (w', m1)" "r = verdict_decision env b args ctx w'"
    using run look ma by (auto simp: run_confirm_def split: if_splits sum.splits prod.splits)
  then show ?thesis
  proof cases
    case 1
    then show ?thesis using u by simp
  next
    case (2 w w')
    then have "w' \<noteq> Spendable" using refused verdict_route by blast
    then show ?thesis using 2(1) u True by (auto simp: spend_def split: if_splits)
  qed
qed

section \<open>Concrete inputs\<close>

definition demo_env :: gate_env where
  "demo_env = \<lparr>env_dump = (\<lambda>v. []), env_path = (\<lambda>p. Exists True), env_remedy = (\<lambda>c st m t d. JObj [])\<rparr>"

definition demo_binding :: tool_binding where
  "demo_binding = \<lparr>invoked_name = ''blackboard_clear'', canonical_name = ''blackboard_clear'',
     policy_source = ''blackboard_clear''\<rparr>"

definition demo_context :: mutation_context where
  "demo_context = \<lparr>project_root = ''/p'', execution_mode = ''offline'', session_id = None, route_generation = 0\<rparr>"

definition demo_token :: string where
  "demo_token = replicate 64 CHR ''a''"

definition demo_args :: json where
  "demo_args = JObj [(''key'', JStr ''tasks'')]"

definition demo_call :: gate_call where
  "demo_call = \<lparr>gc_binding = demo_binding, gc_arguments = demo_args, gc_context = demo_context, gc_token = demo_token\<rparr>"

definition demo_confirmation :: confirmation where
  "demo_confirmation = new_confirmation demo_binding demo_args demo_context 120000 []"

definition demo_spent :: gate_state where
  "demo_spent = \<lparr>gs_store = [], gs_threads = (\<lambda>i. Idle),
     gs_minted = [(demo_token, demo_confirmation)], gs_executed = [demo_call]\<rparr>"

lemmas demo_defs = demo_env_def demo_binding_def demo_context_def demo_args_def demo_call_def
  demo_confirmation_def new_confirmation_def

lemma demo_mint: "mint (\<lambda>m. 0) 0 demo_token demo_confirmation [] = [(demo_token, demo_confirmation)]"
  by (simp add: mint_def prune_def evict_tokens.simps)

definition demo_minted :: gate_state where
  "demo_minted = \<lparr>gs_store = [(demo_token, demo_confirmation)], gs_threads = (\<lambda>i. Idle),
     gs_minted = [(demo_token, demo_confirmation)], gs_executed = []\<rparr>"

lemma demo_minted_reach: "gate_reach demo_env demo_minted"
  using reach_step[OF reach_init step_mint[of gate_init 0 demo_token demo_confirmation
      demo_binding demo_args demo_context 0 "[]" demo_env "\<lambda>m. 0"]] demo_mint
  by (simp add: gate_init_def demo_confirmation_def confirmation_ttl_ms_def demo_token_def demo_minted_def)

lemma demo_reaches: "gate_reach demo_env demo_spent"
proof -
  let ?m = "[(demo_token, demo_confirmation)]"
  let ?s1 = "\<lparr>gs_store = ?m, gs_threads = (\<lambda>i. Idle), gs_minted = ?m, gs_executed = []\<rparr>"
  let ?s2 = "?s1\<lparr>gs_threads := (\<lambda>i. Idle)(0 := Looked demo_call Spendable [])\<rparr>"
  let ?s3 = "?s1\<lparr>gs_threads := (\<lambda>i. Idle)(0 := Checked demo_call Spendable)\<rparr>"
  have s1: "gate_reach demo_env ?s1"
    using demo_minted_reach by (simp add: demo_minted_def)
  have s2: "gate_reach demo_env ?s2"
    using reach_step[OF s1 step_look[of ?s1 0 demo_call 5 Spendable "[]" ?m demo_env]]
    by (simp add: look_up_def demo_defs same_context_def demo_token_def)
  have s3: "gate_reach demo_env ?s3"
    using reach_step[OF s2 step_check[of ?s2 0 demo_call Spendable "[]" demo_env None Spendable]]
    by (simp add: check_drift_def)
  have idle: "(\<lambda>i. Idle)(0 := Idle) = (\<lambda>i :: nat. Idle)"
    by auto
  show ?thesis
    using reach_step[OF s3 step_spend[of ?s3 0 demo_call Spendable Spendable "[]" demo_env]] idle
    by (simp add: spend_def demo_call_def kv_del_def demo_spent_def)
qed

section \<open>The way from a preview to its confirmation\<close>

lemma sanitize_plain:
  assumes "is_object args" "kv_ok (members args)" "jget args ''dry_run'' = None" "jget args ''confirmation_token'' = None"
  shows "sanitize (jput ''dry_run'' v args) = args" "sanitize (jput ''confirmation_token'' v args) = args"
proof -
  obtain m where m: "args = JObj m" using assms(1) by (cases args) auto
  have none: "kv_get m ''dry_run'' = None" "kv_get m ''confirmation_token'' = None" and ok: "kv_ok m"
    using assms m by (auto simp: jget_def)
  have id: "kv_del k m = m" if "kv_get m k = None" for k
    by (rule kv.extensional) (use ok that in auto)
  have swap: "kv_del ''confirmation_token'' (kv_del ''dry_run'' (kv_put ''confirmation_token'' v m)) = m"
    by (rule kv.extensional) (use ok none in \<open>auto simp: kv.find_put\<close>)
  show "sanitize (jput ''dry_run'' v args) = args" "sanitize (jput ''confirmation_token'' v args) = args"
    using m none ok id swap by (simp_all add: sanitize_def kv.del_put_same)
qed

lemma run_preview_mints:
  assumes "run_preview env pick b args ctx probe now t True m = (Inr d, m1)" "\<not> d_is_error d"
  shows "length t = 64 \<and> (\<exists>before subject fp.
     (case probe of None \<Rightarrow> Inr (JNull, JNull) | Some p \<Rightarrow> p args) = Inr (before, subject) \<and>
     target_fingerprint env before = Inr fp \<and>
     m1 = mint pick now t (new_confirmation b args ctx (now + confirmation_ttl_ms) fp) m)"
  using assms unfolding run_preview_def Let_def
  by (fastforce simp: result_simps split: sum.splits prod.splits if_splits
        dest: error_decision_refuses error_decision_refuses[OF sym])

lemma check_drift_unchanged:
  assumes "(case probe of None \<Rightarrow> Inr (JNull, JNull) | Some p \<Rightarrow> p args) = Inr (before, subject)"
    and "target_fingerprint env before = Inr fp"
  shows "check_drift env b args ctx probe Spendable fp = Inr (Inr Spendable)"
  using assms by (auto simp: check_drift_def split: option.splits)

lemma evaluate_dry_run:
  assumes "is_mutation b" "is_object args" "jget args ''dry_run'' = Some (JBool True)"
    and "jget args ''confirmation_token'' = None" "requires_confirmation env b (sanitize args) = Inr required"
  shows "evaluate env pick b args ctx probe now t m =
           run_preview env pick b (sanitize args) ctx probe now t required m"
  using assms by (simp add: evaluate_def read_controls_def string_or_empty_def contains_def)

lemma evaluate_confirm:
  assumes "is_mutation b" "is_object args" "jget args ''dry_run'' = None"
    and "jget args ''confirmation_token'' = Some (JStr token)" "requires_confirmation env b (sanitize args) = Inr True"
  shows "evaluate env pick b args ctx probe now t m = run_confirm env b (sanitize args) ctx probe now token m"
  using assms by (simp add: evaluate_def read_controls_def string_or_empty_def contains_def)

lemma demo_token_nonempty [simp]: "demo_token \<noteq> []"
  by (simp add: demo_token_def)

lemma demo_confirms:
  "run_confirm demo_env demo_binding demo_args demo_context None 5 demo_token [(demo_token, demo_confirmation)] =
     (Inr (allow demo_args), [])"
proof -
  have "json_eq demo_args demo_args" by (simp add: demo_args_def)
  then show ?thesis
    by (simp add: run_confirm_def look_up_def demo_confirmation_def new_confirmation_def same_context_def
        check_drift_def spend_def verdict_decision_def kv_del_def)
qed

lemma demo_mismatch:
  "\<exists>d. run_confirm demo_env demo_binding (JObj [(''key'', JStr ''other'')]) demo_context None 5 demo_token
         [(demo_token, demo_confirmation)] = (Inr d, [(demo_token, demo_confirmation)]) \<and> \<not> d_execute d"
proof -
  have "\<not> json_eq demo_args (JObj [(''key'', JStr ''other'')])" by (simp add: demo_args_def)
  moreover obtain d where "verdict_decision demo_env demo_binding (JObj [(''key'', JStr ''other'')]) demo_context Mismatch = Inr d"
      "\<not> d_execute d"
    using error_decision_total error_decision_refuses by (fastforce simp: verdict_decision_def)
  ultimately show ?thesis
    by (simp add: run_confirm_def look_up_def demo_confirmation_def new_confirmation_def same_context_def
        check_drift_def spend_def)
qed

definition demo_confirm_args :: json where
  "demo_confirm_args = jput ''confirmation_token'' (JStr demo_token) demo_args"

lemma demo_confirm_args_facts:
  "is_mutation demo_binding"
  "requires_confirmation demo_env demo_binding (sanitize demo_confirm_args) = Inr True"
  "sanitize demo_confirm_args = demo_args" "is_object demo_confirm_args"
  "jget demo_confirm_args ''dry_run'' = None"
  "jget demo_confirm_args ''confirmation_token'' = Some (JStr demo_token)"
proof -
  show "sanitize demo_confirm_args = demo_args"
    unfolding demo_confirm_args_def by (rule sanitize_plain(2)) (auto simp: demo_args_def jget_def)
qed (auto simp: demo_confirm_args_def demo_args_def jget_def is_mutation_def k_mutations_def demo_binding_def
      requires_confirmation_def k_always_confirmed_def)

lemma demo_evaluates:
  "evaluate demo_env (\<lambda>m. 0) demo_binding demo_confirm_args demo_context None 5 [] [(demo_token, demo_confirmation)] =
     (Inr (allow demo_args), [])"
  using evaluate_confirm[OF demo_confirm_args_facts(1,4,5,6,2)] demo_confirms demo_confirm_args_facts(3) by simp

section \<open>Properties\<close>

text \<open>
  (C4) Single use under any interleaving: in every reachable state of the gate, with any number
  of threads previewing and confirming, a token has been spent at most as often as it was
  minted, and once less while it is still outstanding.
\<close>

theorem gate_single_use:
  assumes "gate_reach env s"
  shows "spent_as t (gs_executed s) + (if kv_has (gs_store s) t then 1 else 0) \<le> minted_as t (gs_minted s)"
  using gate_reach_inv[OF assms] by (simp add: gate_inv_def)

theorem gate_single_use_witness:
  "spent_as demo_token (gs_executed demo_spent) = 1 \<and> minted_as demo_token (gs_minted demo_spent) = 1 \<and>
   \<not> kv_has (gs_store demo_spent) demo_token"
  using gate_single_use[OF demo_reaches, of demo_token]
  by (simp add: demo_spent_def spent_as_def minted_as_def kv_has_def demo_call_def)

text \<open>
  (C8) What a confirmed call runs is what was previewed: in every reachable state of the
  interleaved gate, each executed call carries a token that was minted for the same invoked
  name, for arguments that compare equal and for the same project, mode, session and route.
\<close>

theorem gate_executes_what_was_previewed:
  assumes "gate_reach env s" and "call \<in> set (gs_executed s)"
  shows "matches_mint call (gs_minted s)"
  using gate_reach_inv[OF assms(1)] assms(2) by (simp add: gate_inv_def)

theorem gate_executes_what_was_previewed_witness:
  "demo_call \<in> set (gs_executed demo_spent) \<and> matches_mint demo_call (gs_minted demo_spent)"
  using gate_executes_what_was_previewed[OF demo_reaches, of demo_call]
  by (simp add: demo_spent_def)

text \<open>
  (C11) A call of the gate run alone is a run of the interleaving's own steps. From a reachable
  state whose thread is idle, one thread's acts for this very call (none, a mint, a look and a
  check, or these and a spend) lead to a state with the table \<open>evaluate\<close> leaves and the threads
  as they were. The call is added to the executed ones exactly when the answer executes it on a
  token, a mint is logged exactly when the answer hands a token out, and a call that hands none
  out keeps every token inside its time, apart from the one it spent.
\<close>

theorem evaluate_is_steps:
  assumes "gate_reach env s" and "gs_threads s i = Idle"
    and "evaluate env pick b args ctx probe now t (gs_store s) = (r, m1)"
  shows "\<exists>acts s' fp.
    acts_of_call (call_of b args ctx) acts \<and> run_acts env pick probe now t i acts s = Some s' \<and>
    (gate_step env)\<^sup>*\<^sup>* s s' \<and> gate_reach env s' \<and>
    gs_store s' = m1 \<and> gs_threads s' = gs_threads s \<and>
    gs_executed s' = (if spends_token b args r then [call_of b args ctx] else []) @ gs_executed s \<and>
    gs_minted s' = map (\<lambda>u. (u, new_confirmation b (sanitize args) ctx (now + confirmation_ttl_ms) fp))
      (handed_out r) @ gs_minted s \<and>
    (handed_out r = [] \<longrightarrow>
      (\<forall>u c. kv_get (gs_store s) u = Some c \<and> now \<le> cf_expires_at_ms c \<and>
         \<not> (spends_token b args r \<and> u = gc_token (call_of b args ctx)) \<longrightarrow> kv_get m1 u = Some c))"
proof -
  let ?call = "call_of b args ctx"
  have linked: "(gate_step env)\<^sup>*\<^sup>* s s' \<and> gate_reach env s'" if "run_acts env pick probe now t i acts s = Some s'" for acts s'
    using run_acts_steps[OF that] gate_reach_steps assms(1) by blast
  consider (none) "m1 = gs_store s" "handed_out r = []" "\<not> spends_token b args r"
    | (confirm) "is_mutation b" "contains args ''confirmation_token''" "gc_token ?call \<noteq> []"
        "run_confirm env b (sanitize args) ctx probe now (gc_token ?call) (gs_store s) = (r, m1)"
    | (mint) fp where "handed_out r = [t]" "length t = 64" "\<not> spends_token b args r"
        "m1 = mint pick now t (new_confirmation b (sanitize args) ctx (now + confirmation_ttl_ms) fp) (gs_store s)"
    using evaluate_route[OF assms(3)] by blast
  then show ?thesis
  proof cases
    case none
    then show ?thesis
      using linked[of "[]" s] by (intro exI[of _ "[]"] exI[of _ s]) simp
  next
    case confirm
    have parts: "gc_binding ?call = b" "gc_arguments ?call = sanitize args" "gc_context ?call = ctx"
      by (simp_all add: call_of_def)
    have spends: "spends_token b args r = (\<exists>d. r = Inr d \<and> d_execute d)"
      using confirm(1,2) by (auto simp: spends_token_def split: sum.splits)
    obtain acts s' where "acts_of_call ?call acts" "run_acts env pick probe now t i acts s = Some s'"
      "gs_store s' = m1" "gs_threads s' = gs_threads s" "gs_minted s' = gs_minted s" "handed_out r = []"
      "gs_executed s' = (if spends_token b args r then [?call] else []) @ gs_executed s"
      using confirm_runs[OF assms(2) confirm(3), of env probe now r m1 pick t] confirm(4)
      unfolding parts spends by blast
    moreover have "\<forall>u c. kv_get (gs_store s) u = Some c \<and> now \<le> cf_expires_at_ms c \<and>
         \<not> (spends_token b args r \<and> u = gc_token ?call) \<longrightarrow> kv_get m1 u = Some c"
      using unminted_route_keeps[OF confirm(4)] spends by blast
    ultimately show ?thesis
      using linked by (intro exI[of _ acts] exI[of _ s']) simp
  next
    case mint
    let ?c = "new_confirmation b (sanitize args) ctx (now + confirmation_ttl_ms) fp"
    let ?s = "s\<lparr>gs_store := mint pick now t ?c (gs_store s), gs_minted := (t, ?c) # gs_minted s\<rparr>"
    have run: "run_acts env pick probe now t i [Mint (?call\<lparr>gc_token := []\<rparr>) fp] s = Some ?s"
      using assms(2) mint(2) by (simp add: call_of_def Let_def)
    show ?thesis
      by (intro exI[of _ "[Mint (?call\<lparr>gc_token := []\<rparr>) fp]"] exI[of _ ?s] exI[of _ fp])
         (use linked[OF run] run mint in \<open>simp del: run_acts.simps\<close>)
  qed
qed

theorem evaluate_is_steps_witness:
  "\<exists>acts s'. acts_of_call demo_call acts \<and>
     run_acts demo_env (\<lambda>m. 0) None 5 [] 0 acts demo_minted = Some s' \<and> (gate_step demo_env)\<^sup>*\<^sup>* demo_minted s' \<and>
     gs_store s' = [] \<and> gs_executed s' = [demo_call]"
proof -
  have run: "evaluate demo_env (\<lambda>m. 0) demo_binding demo_confirm_args demo_context None 5 [] (gs_store demo_minted) =
      (Inr (allow demo_args), [])"
    using demo_evaluates by (simp add: demo_minted_def)
  have call: "call_of demo_binding demo_confirm_args demo_context = demo_call"
    using demo_confirm_args_facts by (simp add: call_of_def demo_call_def string_or_empty_def)
  have spent: "spends_token demo_binding demo_confirm_args (Inr (allow demo_args))"
    using demo_confirm_args_facts by (simp add: spends_token_def allow_def contains_def)
  have "gs_threads demo_minted 0 = Idle" "gs_executed demo_minted = []" by (simp_all add: demo_minted_def)
  then show ?thesis
    using evaluate_is_steps[OF demo_minted_reach _ run, of 0] unfolding call using spent by auto
qed

text \<open>
  (C9) The gate never lets an unconfirmed call through: when a mutation that requires
  confirmation is executed, the call named a token that was in the table, inside its time, minted
  for the same invoked name, equal arguments and the same context, and the token is gone
  afterwards. What runs is the call without the two safety arguments.
\<close>

theorem evaluate_spends_a_matching_token:
  assumes "evaluate env pick b args ctx probe now t m = (Inr d, m1)" and "d_execute d" and "is_mutation b"
    and "requires_confirmation env b (sanitize args) = Inr True"
  shows "\<exists>token c. jget args ''confirmation_token'' = Some (JStr token) \<and> kv_get m token = Some c \<and>
           now \<le> cf_expires_at_ms c \<and> cf_invoked_name c = invoked_name b \<and>
           json_eq (cf_arguments c) (sanitize args) \<and> same_context (cf_context c) ctx \<and>
           m1 = kv_del token m \<and> d = allow (sanitize args)"
  using evaluate_executes[OF assms(1-3)] assms(4) run_confirm_executes[OF _ assms(2)] by fastforce

theorem evaluate_spends_a_matching_token_witness:
  "let m = [(demo_token, demo_confirmation)]
   in evaluate demo_env (\<lambda>m. 0) demo_binding demo_confirm_args demo_context None 5 [] m = (Inr (allow demo_args), [])
      \<and> (\<exists>c. kv_get m demo_token = Some c \<and> json_eq (cf_arguments c) (sanitize demo_confirm_args))"
  using evaluate_spends_a_matching_token[OF demo_evaluates _ demo_confirm_args_facts(1,2)]
    demo_evaluates demo_confirm_args_facts
  by (auto simp: allow_def)

text \<open>
  A dry run never executes: whatever the tool, its arguments and the state of the table, a call
  with \<open>dry_run\<close> set is answered with a preview or a refusal.
\<close>

theorem evaluate_dry_run_never_executes:
  assumes "jget args ''dry_run'' = Some (JBool True)"
    and "evaluate env pick b args ctx probe now t m = (Inr d, m1)"
  shows "\<not> d_execute d"
proof (cases "is_mutation b")
  case True
  then show ?thesis using evaluate_executes[OF assms(2)] assms(1) by auto
next
  case False
  then show ?thesis
    using assms by (auto simp: evaluate_def contains_def split: if_splits dest: error_decision_refuses)
qed

theorem evaluate_dry_run_never_executes_witness:
  "let args = JObj [(''dry_run'', JBool True)];
       b = \<lparr>invoked_name = ''editor_undo'', canonical_name = ''editor_undo'', policy_source = ''editor_undo''\<rparr>
   in \<exists>d m1. evaluate demo_env (\<lambda>m. 0) b args demo_context None 0 [] [] = (Inr d, m1) \<and> \<not> d_is_error d \<and> \<not> d_execute d"
proof -
  let ?args = "JObj [(''dry_run'', JBool True)]"
  let ?b = "\<lparr>invoked_name = ''editor_undo'', canonical_name = ''editor_undo'', policy_source = ''editor_undo''\<rparr>"
  have mut: "is_mutation ?b" by (simp add: is_mutation_def k_mutations_def)
  have req: "requires_confirmation demo_env ?b (sanitize ?args) = Inr False"
    by (simp add: requires_confirmation_def k_always_confirmed_def k_overwrite_confirmed_def kv_has_def)
  obtain d m1 where run: "evaluate demo_env (\<lambda>m. 0) ?b ?args demo_context None 0 [] [] = (Inr d, m1)" "\<not> d_is_error d"
    using evaluate_dry_run[OF mut _ _ _ req, of "\<lambda>m. 0" demo_context None 0 "[]" "[]"]
    by (simp add: jget_def run_preview_def target_fingerprint_def change_of_def)
  then show ?thesis
    using evaluate_dry_run_never_executes[OF _ run(1)] by (auto simp: jget_def)
qed

text \<open>
  (C10) A preview leads to its execution: when a dry run of a call that requires confirmation
  succeeds, the same call with the token it minted, made inside the token's time against an
  unchanged target, is executed with the previewed arguments and uses the token up.
\<close>

theorem preview_then_confirm:
  assumes "is_mutation b" and "is_object args" and "kv_ok (members args)" and "kv_ok m"
    and "jget args ''dry_run'' = None" and "jget args ''confirmation_token'' = None"
    and "json_eq args args" and "requires_confirmation env b args = Inr True"
    and "evaluate env pick b (jput ''dry_run'' (JBool True) args) ctx probe now t m = (Inr d, m1)"
    and "\<not> d_is_error d" and "later \<le> now + confirmation_ttl_ms"
  shows "evaluate env pick b (jput ''confirmation_token'' (JStr t) args) ctx probe later t' m1 =
           (Inr (allow args), kv_del t m1)"
proof -
  note plain = sanitize_plain[OF assms(2,3,5,6)]
  let ?dry = "jput ''dry_run'' (JBool True) args" and ?conf = "jput ''confirmation_token'' (JStr t) args"
  have dry: "jget ?dry ''dry_run'' = Some (JBool True)" "jget ?dry ''confirmation_token'' = None"
    and conf: "jget ?conf ''dry_run'' = None" "jget ?conf ''confirmation_token'' = Some (JStr t)"
    using assms(2,3,5,6) by (auto simp: jget_jput)
  have "run_preview env pick b args ctx probe now t True m = (Inr d, m1)"
    using evaluate_dry_run[OF assms(1) _ dry, of env True pick ctx probe now t m] assms(2,8,9) plain by simp
  then obtain before subject fp where t: "length t = 64"
    and probe: "(case probe of None \<Rightarrow> Inr (JNull, JNull) | Some p \<Rightarrow> p args) = Inr (before, subject)"
    and fp: "target_fingerprint env before = Inr fp"
    and m1: "m1 = mint pick now t (new_confirmation b args ctx (now + confirmation_ttl_ms) fp) m"
    using run_preview_mints assms(10) by blast
  have "look_up t b args ctx later m1 = ((Spendable, fp), m1)"
    using m1 assms(4,7,11) by (simp add: look_up_def mint_get new_confirmation_def same_context_def)
  moreover have "kv_has m1 t" using m1 assms(4) by (simp add: kv_has_def mint_get)
  moreover have "t \<noteq> []" using t by auto
  ultimately have "run_confirm env b args ctx probe later t m1 = (Inr (allow args), kv_del t m1)"
    using check_drift_unchanged[OF probe fp, of b ctx]
    by (auto simp: run_confirm_def spend_def verdict_decision_def kv_has_def)
  then show ?thesis
    using evaluate_confirm[OF assms(1) _ conf, of env pick ctx probe later t' m1] assms(2,8) plain by simp
qed

theorem preview_then_confirm_witness:
  "let dry = jput ''dry_run'' (JBool True) demo_args; conf = jput ''confirmation_token'' (JStr demo_token) demo_args;
       out = evaluate demo_env (\<lambda>m. 0) demo_binding dry demo_context None 0 demo_token []
   in evaluate demo_env (\<lambda>m. 0) demo_binding conf demo_context None 120000 [] (snd out) =
        (Inr (allow demo_args), kv_del demo_token (snd out))"
proof -
  let ?dry = "jput ''dry_run'' (JBool True) demo_args"
  have mut: "is_mutation demo_binding" by (simp add: is_mutation_def demo_binding_def k_mutations_def)
  have obj: "is_object demo_args" "kv_ok (members demo_args)" "jget demo_args ''dry_run'' = None"
    "jget demo_args ''confirmation_token'' = None" "json_eq demo_args demo_args"
    by (auto simp: demo_args_def jget_def)
  have req: "requires_confirmation demo_env demo_binding demo_args = Inr True"
    by (simp add: requires_confirmation_def demo_binding_def k_always_confirmed_def)
  have dry: "jget ?dry ''dry_run'' = Some (JBool True)" "jget ?dry ''confirmation_token'' = None" "is_object ?dry"
    using obj by (auto simp: jget_jput)
  have plain: "sanitize ?dry = demo_args" by (rule sanitize_plain(1)[OF obj(1-4)])
  obtain d m1 where run: "evaluate demo_env (\<lambda>m. 0) demo_binding ?dry demo_context None 0 demo_token [] = (Inr d, m1)"
    "\<not> d_is_error d"
    using evaluate_dry_run[OF mut dry(3,1,2), of demo_env True "\<lambda>m. 0" demo_context None 0 demo_token "[]"] plain req
    by (simp add: run_preview_def target_fingerprint_def change_of_def demo_token_def)
  then show ?thesis
    using preview_then_confirm[OF mut obj(1,2) _ obj(3-5) req run, of 120000 "[]"]
    by (simp add: Let_def confirmation_ttl_ms_def)
qed

text \<open>
  The table stays small and well formed: whatever a call is and however it ends, at most 128
  tokens are outstanding after it.
\<close>

theorem evaluate_bounded:
  assumes "store_ok m" and "evaluate env pick b args ctx probe now t m = (r, m1)"
  shows "store_ok m1"
  using evaluate_store[OF assms(2)] run_confirm_store assms(1) store_ok_del store_ok_mint by metis

theorem evaluate_bounded_witness:
  "store_ok [] \<and> store_ok (snd (evaluate demo_env (\<lambda>m. 0) demo_binding demo_args demo_context None 0 demo_token []))"
  using evaluate_bounded[of "[]" demo_env "\<lambda>m. 0" demo_binding demo_args demo_context None 0 demo_token]
  by (cases "evaluate demo_env (\<lambda>m. 0) demo_binding demo_args demo_context None 0 demo_token []")
     (simp add: store_ok_def)

text \<open>
  A token is spent when it is spent, not when it is offered: a confirmation that is refused
  leaves every token in the table, apart from the offered one when its time has passed.
\<close>

theorem refused_confirm_keeps_tokens:
  assumes "evaluate env pick b args ctx probe now t m = (Inr d, m1)" and "\<not> d_execute d"
    and "jget args ''dry_run'' \<noteq> Some (JBool True)" and "kv_get m token = Some c"
    and "now \<le> cf_expires_at_ms c"
  shows "kv_get m1 token = Some c"
proof -
  have confirm: "kv_get m1 token = Some c"
    if run: "run_confirm env b (sanitize args) ctx probe now offered m = (Inr d, m1)" for offered
    using run assms(2,4,5)
    by (auto simp: run_confirm_def look_up_def spend_def verdict_decision_def allow_def
        split: if_splits prod.splits sum.splits option.splits)
  show ?thesis
    using assms(1,3,4) confirm unfolding evaluate_def Let_def
    by (auto split: if_splits sum.splits prod.splits dest: read_controls_dry)
qed

theorem refused_confirm_keeps_tokens_witness:
  "let args = jput ''confirmation_token'' (JStr demo_token) (JObj [(''key'', JStr ''other'')]);
       m = [(demo_token, demo_confirmation)]
   in \<exists>d m1. evaluate demo_env (\<lambda>m. 0) demo_binding args demo_context None 5 [] m = (Inr d, m1) \<and>
        \<not> d_execute d \<and> kv_get m1 demo_token = Some demo_confirmation"
proof -
  let ?args = "jput ''confirmation_token'' (JStr demo_token) (JObj [(''key'', JStr ''other'')])"
  let ?m = "[(demo_token, demo_confirmation)]"
  have mut: "is_mutation demo_binding" by (simp add: is_mutation_def demo_binding_def k_mutations_def)
  have req: "requires_confirmation demo_env demo_binding (sanitize ?args) = Inr True"
    by (simp add: requires_confirmation_def demo_binding_def k_always_confirmed_def)
  have shape: "jget ?args ''dry_run'' = None" "jget ?args ''confirmation_token'' = Some (JStr demo_token)" "is_object ?args"
    by (auto simp: jget_def)
  have plain: "sanitize ?args = JObj [(''key'', JStr ''other'')]"
    by (rule sanitize_plain(2)) (auto simp: jget_def)
  obtain d m1 where run: "evaluate demo_env (\<lambda>m. 0) demo_binding ?args demo_context None 5 [] ?m = (Inr d, m1)" "\<not> d_execute d"
    using evaluate_confirm[OF mut shape(3,1,2) req, of "\<lambda>m. 0" demo_context None 5 "[]" ?m] demo_mismatch
    by (metis plain)
  then show ?thesis
    using refused_confirm_keeps_tokens[OF run, of demo_token demo_confirmation] shape
    by (auto simp: demo_confirmation_def new_confirmation_def)
qed

section \<open>A limit of the comparison\<close>

text \<open>
  The table compares arguments with \<open>operator==\<close> of the JSON library, which reads an unsigned
  number as a signed one when the other side is signed. A token previewed for \<open>-1\<close> is therefore
  spent by \<open>2 ^ 64 - 1\<close>, a value no preview has shown.
\<close>

theorem token_crosses_the_sign:
  assumes "kv_get m token = Some c" "now \<le> cf_expires_at_ms c" "cf_invoked_name c = invoked_name b"
    and "cf_arguments c = JObj [(''value'', JInt (- 1))]" "same_context (cf_context c) ctx"
    and "cf_target_fingerprint c = []" "token \<noteq> []"
  shows "run_confirm env b (JObj [(''value'', JUInt (2 ^ 64 - 1))]) ctx None now token m =
           (Inr (allow (JObj [(''value'', JUInt (2 ^ 64 - 1))])), kv_del token m)"
proof -
  have "look_up token b (JObj [(''value'', JUInt (2 ^ 64 - 1))]) ctx now m = ((Spendable, []), m)"
    using assms json_eq_wraps by (simp add: look_up_def)
  then show ?thesis
    using assms by (simp add: run_confirm_def check_drift_def spend_def verdict_decision_def)
qed

theorem token_crosses_the_sign_witness:
  "let m = [(demo_token, demo_confirmation\<lparr>cf_arguments := JObj [(''value'', JInt (- 1))]\<rparr>)]
   in run_confirm demo_env demo_binding (JObj [(''value'', JUInt (2 ^ 64 - 1))]) demo_context None 5 demo_token m =
        (Inr (allow (JObj [(''value'', JUInt (2 ^ 64 - 1))])), kv_del demo_token m)"
  unfolding Let_def
  by (rule token_crosses_the_sign[where c = "demo_confirmation\<lparr>cf_arguments := JObj [(''value'', JInt (- 1))]\<rparr>"])
     (simp_all add: demo_defs same_context_def demo_token_def)

end
