(* ===== verification/Job_Store.thy ===== *)
theory Job_Store
  imports Error_Data
begin

text \<open>
  The job store: \<open>src/mcp/jobs.cpp\<close> and \<open>include/didi/mcp/jobs.hpp\<close>.

  A job is a tool call that runs on a thread of its own while its caller polls. The store keeps a
  view of each job under its id, refuses a start past \<open>max_working\<close>, evicts the oldest finished
  job past \<open>max_retained\<close> and forgets a finished job after its time to live. Every operation
  holds the store's mutex for its whole effect, so an operation is one function on the state; the
  completion of a job's thread is an operation too. The relation \<open>job_step\<close> interleaves them.
  A \<open>std::thread\<close> is the id of the job it runs, and \<open>js_running\<close>, the threads that have not
  recorded their answer yet, is a ghost.
\<close>

section \<open>State\<close>

datatype job_state = Working | Completed | Cancelled | Abandoned

fun job_state_name :: "job_state \<Rightarrow> string" where
  "job_state_name Working = ''working''"
| "job_state_name Completed = ''completed''"
| "job_state_name Cancelled = ''cancelled''"
| "job_state_name Abandoned = ''abandoned''"

record job_view =
  jv_id :: string
  jv_conversation :: string
  jv_tool :: string
  jv_request_id :: string
  jv_fingerprint :: string
  jv_state :: job_state
  jv_cancel_requested :: bool
  jv_abandoned_reason :: string
  jv_created_at_ms :: int
  jv_updated_at_ms :: int
  jv_ttl_ms :: int
  jv_poll_interval_ms :: int
  jv_result :: "json option"

record job_limits =
  max_working :: nat
  max_retained :: nat
  limit_ttl_ms :: int
  limit_poll_interval_ms :: int

definition default_limits :: job_limits where
  "default_limits = \<lparr>max_working = 4, max_retained = 64, limit_ttl_ms = 60 * 60 * 1000,
     limit_poll_interval_ms = 2000\<rparr>"

record job_entry =
  je_view :: job_view
  je_cancelled :: bool
  je_joinable :: bool

record job_store =
  js_jobs :: "(string \<times> job_entry) list"
  js_orphans :: "string list"
  js_shutting_down :: bool
  js_running :: "string list"

definition empty_jobs :: job_store where
  "empty_jobs = \<lparr>js_jobs = [], js_orphans = [], js_shutting_down = False, js_running = []\<rparr>"

definition is_working :: "job_entry \<Rightarrow> bool" where
  "is_working e = (jv_state (je_view e) = Working)"

definition job_working_count :: "(string \<times> job_entry) list \<Rightarrow> nat" where
  "job_working_count m = length (filter (\<lambda>(k, e). is_working e) m)"

section \<open>Operations\<close>

definition past_ttl :: "int \<Rightarrow> job_entry \<Rightarrow> bool" where
  "past_ttl now e = (\<not> is_working e \<and> now - jv_created_at_ms (je_view e) \<ge> jv_ttl_ms (je_view e))"

definition expire_locked :: "int \<Rightarrow> job_store \<Rightarrow> job_store" where
  "expire_locked now s =
     s\<lparr>js_jobs := filter (\<lambda>(k, e). \<not> past_ttl now e) (js_jobs s),
       js_orphans := js_orphans s @
         map fst (filter (\<lambda>(k, e). past_ttl now e \<and> je_joinable e) (js_jobs s))\<rparr>"

definition oldest_finished :: "(string \<times> job_entry) list \<Rightarrow> (string \<times> job_entry) option" where
  "oldest_finished m = first_oldest (\<lambda>e. \<not> is_working e) (\<lambda>e. jv_created_at_ms (je_view e)) None m"

definition drop_job :: "string \<Rightarrow> job_entry \<Rightarrow> job_store \<Rightarrow> job_store" where
  "drop_job k e s =
     s\<lparr>js_jobs := kv_del k (js_jobs s),
       js_orphans := (if je_joinable e then js_orphans s @ [k] else js_orphans s)\<rparr>"

lemma oldest_finished_in:
  "oldest_finished m = Some (k, e) \<Longrightarrow> (k, e) \<in> set m \<and> \<not> is_working e"
  unfolding oldest_finished_def using first_oldest_from by fastforce

lemma drop_job_less: "(k, e) \<in> set (js_jobs s) \<Longrightarrow> length (js_jobs (drop_job k e s)) < length (js_jobs s)"
  unfolding drop_job_def kv_del_def by (auto intro: length_filter_less)

function evict_locked :: "nat \<Rightarrow> job_store \<Rightarrow> job_store" where
  "evict_locked retained s =
     (if length (js_jobs s) < retained then s
      else case oldest_finished (js_jobs s) of
             None \<Rightarrow> s
           | Some (k, e) \<Rightarrow> evict_locked retained (drop_job k e s))"
  by auto
termination
proof (relation "measure (\<lambda>(n, s). length (js_jobs s))")
  fix retained v k e and s :: job_store
  assume "oldest_finished (js_jobs s) = Some v" "(k, e) = v"
  then have "oldest_finished (js_jobs s) = Some (k, e)" by simp
  then show "((retained :: nat, drop_job k e s), retained, s) \<in> measure (\<lambda>(n, s). length (js_jobs s))"
    using drop_job_less oldest_finished_in by simp
qed simp

declare evict_locked.simps [simp del]

lemma evict_locked_rule [consumes 1, case_names drop]:
  assumes "P s" and "\<And>s k e. P s \<Longrightarrow> oldest_finished (js_jobs s) = Some (k, e) \<Longrightarrow> P (drop_job k e s)"
  shows "P (evict_locked n s)"
  using assms(1)
proof (induction n s rule: evict_locked.induct)
  case (1 n s)
  show ?case
  proof (cases "length (js_jobs s) < n \<or> oldest_finished (js_jobs s) = None")
    case True
    then show ?thesis using 1(2) by (subst evict_locked.simps) auto
  next
    case False
    then obtain k e where old: "oldest_finished (js_jobs s) = Some (k, e)" by auto
    then have "P (evict_locked n (drop_job k e s))"
      using 1(1)[OF _ old refl] False assms(2)[OF 1(2) old] by simp
    then show ?thesis using False old by (subst evict_locked.simps) simp
  qed
qed

text \<open>
  A start, given the id the generator returned. Joining the orphaned threads waits for them and
  happens first; then, under the lock, the refusals and the new entry. \<open>emplace\<close> leaves an
  entry that has the id already.
\<close>

definition new_job_view ::
  "job_limits \<Rightarrow> string \<Rightarrow> string \<Rightarrow> string \<Rightarrow> string \<Rightarrow> string \<Rightarrow> int \<Rightarrow> job_view" where
  "new_job_view lims jid conversation tool request_id fingerprint now =
     \<lparr>jv_id = jid, jv_conversation = conversation, jv_tool = tool, jv_request_id = request_id,
      jv_fingerprint = fingerprint, jv_state = Working, jv_cancel_requested = False,
      jv_abandoned_reason = [], jv_created_at_ms = now, jv_updated_at_ms = now,
      jv_ttl_ms = limit_ttl_ms lims, jv_poll_interval_ms = limit_poll_interval_ms lims,
      jv_result = None\<rparr>"

definition shutting_down_error :: refusal where
  "shutting_down_error = \<lparr>err_code = 503,
     err_message = ''The server is shutting down, so no new job was started.'',
     err_data = jobj [(''code'', JStr ''not_connected''), (''retryable'', JBool False)]\<rparr>"

definition too_many_jobs_error :: "job_limits \<Rightarrow> nat \<Rightarrow> refusal" where
  "too_many_jobs_error lims working = \<lparr>err_code = 429,
     err_message = dec working @ '' jobs are already running, which is as many as '' @
       ''this server runs at once. Nothing was started; wait for one to finish.'',
     err_data = jobj [(''code'', JStr ''rate_limited''), (''retryable'', JBool True),
       (''working_jobs'', JUInt working), (''max_working_jobs'', JUInt (max_working lims)),
       (''retry_after_ms'', JInt (limit_poll_interval_ms lims))]\<rparr>"

definition job_start ::
  "job_limits \<Rightarrow> (refusal, string) result \<Rightarrow> string \<Rightarrow> string \<Rightarrow> string \<Rightarrow> string \<Rightarrow> int \<Rightarrow> job_store \<Rightarrow>
   (refusal, job_view) result \<times> job_store" where
  "job_start lims jid conversation tool request_id fingerprint now s =
     (case jid of
        Inl e \<Rightarrow> (Inl e, s)
      | Inr jid \<Rightarrow>
          let s = s\<lparr>js_orphans := []\<rparr>
          in if js_shutting_down s then (Inl shutting_down_error, s)
             else
               let s = expire_locked now s;
                   working = job_working_count (js_jobs s)
               in if working \<ge> max_working lims then (Inl (too_many_jobs_error lims working), s)
                  else
                    let s = evict_locked (max_retained lims) s;
                        view = new_job_view lims jid conversation tool request_id fingerprint now;
                        entry = \<lparr>je_view = view, je_cancelled = False, je_joinable = True\<rparr>
                    in (Inr view,
                        s\<lparr>js_jobs := (if kv_has (js_jobs s) jid then js_jobs s else kv_put jid entry (js_jobs s)),
                          js_running := jid # js_running s\<rparr>))"

text \<open>How the work ended, and what the thread records then.\<close>

datatype work_outcome = Returned json | Threw string | Threw_Other

definition failure_of :: "work_outcome \<Rightarrow> string" where
  "failure_of w =
     (case w of
        Returned r \<Rightarrow> []
      | Threw what \<Rightarrow> ''the work threw: '' @ what
      | Threw_Other \<Rightarrow> ''the work threw something that is not an exception'')"

definition finished_view :: "work_outcome \<Rightarrow> bool \<Rightarrow> int \<Rightarrow> job_view \<Rightarrow> job_view" where
  "finished_view w cancelled now v =
     (let v = v\<lparr>jv_updated_at_ms := now\<rparr>
      in if failure_of w \<noteq> [] then v\<lparr>jv_state := Abandoned, jv_abandoned_reason := failure_of w\<rparr>
         else if cancelled then v\<lparr>jv_state := Cancelled\<rparr>
         else v\<lparr>jv_state := Completed, jv_result := (case w of Returned r \<Rightarrow> Some r | _ \<Rightarrow> None)\<rparr>)"

definition job_finish :: "string \<Rightarrow> work_outcome \<Rightarrow> int \<Rightarrow> job_store \<Rightarrow> job_store" where
  "job_finish jid w now s =
     s\<lparr>js_jobs :=
         (case kv_get (js_jobs s) jid of
            None \<Rightarrow> js_jobs s
          | Some e \<Rightarrow> kv_put jid (e\<lparr>je_view := finished_view w (je_cancelled e) now (je_view e)\<rparr>) (js_jobs s)),
       js_running := remove1 jid (js_running s)\<rparr>"

definition job_find :: "int \<Rightarrow> job_store \<Rightarrow> string \<Rightarrow> job_view option" where
  "job_find now s jid =
     (case kv_get (js_jobs s) jid of
        None \<Rightarrow> None
      | Some e \<Rightarrow> if past_ttl now e then None else Some (je_view e))"

fun find_by_request_in ::
  "int \<Rightarrow> string \<Rightarrow> string \<Rightarrow> string \<Rightarrow> (string \<times> job_entry) list \<Rightarrow> job_view option" where
  "find_by_request_in now conversation tool request_id [] = None"
| "find_by_request_in now conversation tool request_id ((k, e) # m) =
     (let v = je_view e
      in if jv_request_id v = [] \<or> jv_request_id v \<noteq> request_id \<or> jv_tool v \<noteq> tool \<or>
            jv_conversation v \<noteq> conversation
         then find_by_request_in now conversation tool request_id m
         else if past_ttl now e then None
         else Some v)"

definition find_by_request :: "int \<Rightarrow> job_store \<Rightarrow> string \<Rightarrow> string \<Rightarrow> string \<Rightarrow> job_view option" where
  "find_by_request now s conversation tool request_id =
     find_by_request_in now conversation tool request_id (js_jobs s)"

text \<open>
  \<open>waitFor\<close> looks at the store when it starts and at every wake-up; the list holds what it sees,
  the last one being what is there when its time has passed.
\<close>

fun wait_for :: "string \<Rightarrow> job_store list \<Rightarrow> job_view option" where
  "wait_for jid [] = None"
| "wait_for jid (s # later) =
     (case kv_get (js_jobs s) jid of
        None \<Rightarrow> None
      | Some e \<Rightarrow>
          if \<not> is_working e \<or> later = [] then Some (je_view e)
          else wait_for jid later)"

definition job_cancel :: "int \<Rightarrow> string \<Rightarrow> job_store \<Rightarrow> job_view option \<times> job_store" where
  "job_cancel now jid s =
     (case kv_get (js_jobs s) jid of
        None \<Rightarrow> (None, s)
      | Some e \<Rightarrow>
          if is_working e then
            let v = (je_view e)\<lparr>jv_cancel_requested := True, jv_updated_at_ms := now\<rparr>
            in (Some v, s\<lparr>js_jobs := kv_put jid (e\<lparr>je_view := v, je_cancelled := True\<rparr>) (js_jobs s)\<rparr>)
          else (Some (je_view e), s))"

text \<open>The part of \<open>shutdown\<close> that holds the lock; joining the threads follows it.\<close>

definition job_shutdown :: "job_store \<Rightarrow> job_store" where
  "job_shutdown s =
     s\<lparr>js_shutting_down := True,
       js_jobs := map (\<lambda>(k, e). (k, e\<lparr>je_cancelled := True, je_joinable := False\<rparr>)) (js_jobs s),
       js_orphans := []\<rparr>"

definition job_fingerprint :: "(json \<Rightarrow> string) \<Rightarrow> string \<Rightarrow> json \<Rightarrow> string" where
  "job_fingerprint dump tool args =
     (let kept = (if is_object args then args else JObj [])
      in tool @ [CHR 0x0A] @
         dump (jdel ''dry_run'' (jdel ''confirmation_token'' (jdel ''request_id'' kept))))"

section \<open>Steps\<close>

inductive job_step :: "job_limits \<Rightarrow> job_store \<Rightarrow> job_store \<Rightarrow> bool" for lims where
  step_start:
    "kv_get (js_jobs s) jid = None \<Longrightarrow> jid \<notin> set (js_running s) \<Longrightarrow>
     job_step lims s (snd (job_start lims (Inr jid) conversation tool request_id fingerprint now s))"
| step_finish: "jid \<in> set (js_running s) \<Longrightarrow> job_step lims s (job_finish jid w now s)"
| step_cancel: "job_step lims s (snd (job_cancel now jid s))"
| step_shutdown: "job_step lims s (job_shutdown s)"

inductive job_reach :: "job_limits \<Rightarrow> job_store \<Rightarrow> bool" for lims where
  job_reach_init: "job_reach lims empty_jobs"
| job_reach_step: "job_reach lims s \<Longrightarrow> job_step lims s s' \<Longrightarrow> job_reach lims s'"

section \<open>Invariant\<close>

definition entry_ok :: "string \<Rightarrow> job_entry \<Rightarrow> bool" where
  "entry_ok k e =
     (let v = je_view e
      in jv_id v = k \<and>
         (jv_result v \<noteq> None \<longleftrightarrow> jv_state v = Completed) \<and>
         (jv_abandoned_reason v \<noteq> [] \<longleftrightarrow> jv_state v = Abandoned) \<and>
         (jv_cancel_requested v \<longrightarrow> je_cancelled e \<and> jv_state v \<noteq> Completed) \<and>
         (jv_state v = Cancelled \<longrightarrow> je_cancelled e))"

definition job_inv :: "job_limits \<Rightarrow> job_store \<Rightarrow> bool" where
  "job_inv lims s =
     (kv_ok (js_jobs s) \<and> distinct (js_running s) \<and>
      job_working_count (js_jobs s) \<le> max_working lims \<and>
      length (js_jobs s) \<le> max (max_retained lims) (max_working lims) \<and>
      (\<forall>k e. kv_get (js_jobs s) k = Some e \<longrightarrow> entry_ok k e \<and> (is_working e \<longrightarrow> k \<in> set (js_running s))) \<and>
      (\<forall>k \<in> set (js_running s). \<exists>e. kv_get (js_jobs s) k = Some e \<and> is_working e))"

lemma expire_locked_simps:
  "js_running (expire_locked now s) = js_running s"
  "js_shutting_down (expire_locked now s) = js_shutting_down s"
  "kv_ok (js_jobs s) \<Longrightarrow> kv_ok (js_jobs (expire_locked now s))"
  "kv_ok (js_jobs s) \<Longrightarrow> kv_get (js_jobs (expire_locked now s)) k =
     (case kv_get (js_jobs s) k of Some e \<Rightarrow> if past_ttl now e then None else Some e | None \<Rightarrow> None)"
  by (auto simp: expire_locked_def kv_get_filter split: option.splits)

lemma past_ttl_finished: "past_ttl now e \<Longrightarrow> \<not> is_working e"
  by (simp add: past_ttl_def)

lemma expire_locked_working:
  "job_working_count (js_jobs (expire_locked now s)) = job_working_count (js_jobs s)"
proof -
  have "filter (\<lambda>x. (case x of (k, e) \<Rightarrow> \<not> past_ttl now e) \<and> (case x of (k, e) \<Rightarrow> is_working e)) m =
        filter (\<lambda>(k, e). is_working e) m" for m :: "(string \<times> job_entry) list"
    by (rule filter_cong) (auto dest: past_ttl_finished)
  then show ?thesis
    unfolding expire_locked_def job_working_count_def by simp
qed

lemma expire_locked_length: "length (js_jobs (expire_locked now s)) \<le> length (js_jobs s)"
  by (simp add: expire_locked_def)

lemma evict_locked_simps [simp]:
  "js_running (evict_locked n s) = js_running s"
  "js_shutting_down (evict_locked n s) = js_shutting_down s"
proof -
  have "js_running (evict_locked n s) = js_running s \<and> js_shutting_down (evict_locked n s) = js_shutting_down s"
    by (rule evict_locked_rule) (auto simp: drop_job_def)
  then show "js_running (evict_locked n s) = js_running s" "js_shutting_down (evict_locked n s) = js_shutting_down s"
    by auto
qed

lemma drop_job_working:
  assumes "kv_ok (js_jobs s)" "(k, e) \<in> set (js_jobs s)" "\<not> is_working e"
  shows "filter (\<lambda>(k, e). is_working e) (js_jobs (drop_job k e s)) = filter (\<lambda>(k, e). is_working e) (js_jobs s)"
proof -
  have "e' = e" if "(k, e') \<in> set (js_jobs s)" for e'
    using that assms by (simp flip: kv_get_iff)
  then show ?thesis
    using assms(3) unfolding drop_job_def kv_del_def by (auto intro!: filter_cong)
qed

lemma evict_locked_keeps:
  assumes "kv_ok (js_jobs s)"
  shows "kv_ok (js_jobs (evict_locked n s)) \<and> set (js_jobs (evict_locked n s)) \<subseteq> set (js_jobs s) \<and>
     filter (\<lambda>(k, e). is_working e) (js_jobs (evict_locked n s)) = filter (\<lambda>(k, e). is_working e) (js_jobs s)"
proof (rule evict_locked_rule, goal_cases)
  case 1
  then show ?case using assms by simp
next
  case (2 s' k e)
  then show ?case
    using drop_job_working[of s' k e] set_kv_del[of k "js_jobs s'"] oldest_finished_in[of "js_jobs s'" k e]
    by (auto simp: drop_job_def)
qed

lemma evict_locked_working:
  "kv_ok (js_jobs s) \<Longrightarrow> job_working_count (js_jobs (evict_locked n s)) = job_working_count (js_jobs s)"
  using evict_locked_keeps[of s n] by (simp add: job_working_count_def)

lemma working_filter_iff:
  "is_working e \<Longrightarrow> (k, e) \<in> set m \<longleftrightarrow> (k, e) \<in> set (filter (\<lambda>(k, e). is_working e) m)"
  by simp

lemma evict_locked_keeps_working:
  assumes "kv_ok (js_jobs s)" "is_working e"
  shows "kv_get (js_jobs (evict_locked n s)) k = Some e \<longleftrightarrow> kv_get (js_jobs s) k = Some e"
proof -
  have "(k, e) \<in> set (js_jobs (evict_locked n s)) \<longleftrightarrow> (k, e) \<in> set (js_jobs s)"
    using evict_locked_keeps[OF assms(1), of n] working_filter_iff[OF assms(2), of k] by metis
  then show ?thesis
    using assms(1) evict_locked_keeps[OF assms(1), of n] by (simp add: kv_get_iff)
qed

lemma evict_locked_get:
  "kv_ok (js_jobs s) \<Longrightarrow> kv_get (js_jobs (evict_locked n s)) k = Some e \<Longrightarrow> kv_get (js_jobs s) k = Some e"
  using evict_locked_keeps[of s n] by (auto simp: kv_get_iff)

lemma evict_locked_length:
  "length (js_jobs (evict_locked n s)) < n \<or> (\<forall>(k, e) \<in> set (js_jobs (evict_locked n s)). is_working e)"
proof (induction n s rule: evict_locked.induct)
  case (1 n s)
  show ?case
  proof (cases "length (js_jobs s) < n \<or> oldest_finished (js_jobs s) = None")
    case True
    then have "evict_locked n s = s" by (subst evict_locked.simps) auto
    with True show ?thesis by (auto simp: oldest_finished_def first_oldest_None)
  next
    case False
    then obtain k e where old: "oldest_finished (js_jobs s) = Some (k, e)" by auto
    then have "evict_locked n s = evict_locked n (drop_job k e s)"
      using False by (subst evict_locked.simps) simp
    then show ?thesis using 1[OF _ old refl] False by simp
  qed
qed

lemma all_working_count: "\<forall>(k, e) \<in> set m. is_working e \<Longrightarrow> job_working_count m = length m"
  by (induction m) (auto simp: job_working_count_def)

lemma entry_ok_finished:
  assumes "entry_ok k e" "is_working e"
  shows "entry_ok k (e\<lparr>je_view := finished_view w (je_cancelled e) now (je_view e)\<rparr>)"
  using assms unfolding entry_ok_def is_working_def finished_view_def failure_of_def Let_def
  by (cases w) auto

lemma finished_not_working: "jv_state (finished_view w c now v) \<noteq> Working"
  by (simp add: finished_view_def Let_def)

lemma entry_ok_cancel:
  assumes "entry_ok k e" "is_working e"
  shows "entry_ok k (e\<lparr>je_view := (je_view e)\<lparr>jv_cancel_requested := True, jv_updated_at_ms := now\<rparr>, je_cancelled := True\<rparr>)"
  using assms unfolding entry_ok_def is_working_def Let_def by auto

lemma entry_ok_shutdown: "entry_ok k e \<Longrightarrow> entry_ok k (e\<lparr>je_cancelled := True, je_joinable := False\<rparr>)"
  by (auto simp: entry_ok_def Let_def)

lemma kv_ok_map_values: "kv_ok m \<Longrightarrow> kv_ok (map (\<lambda>(k, e). (k, f e)) m)"
  by (simp add: kv_ok_def comp_def case_prod_beta)

lemma working_count_put:
  assumes "kv_ok m"
  shows "job_working_count (kv_put k e m) =
    job_working_count m + (if is_working e then 1 else 0) -
      (case kv_get m k of Some d \<Rightarrow> if is_working d then 1 else 0 | None \<Rightarrow> 0)"
  using length_filter_kv_put[OF assms, of "\<lambda>(k, e). is_working e" k e]
  by (auto simp: job_working_count_def split: option.splits)

lemma job_working_count_le: "job_working_count m \<le> length m"
  by (simp add: job_working_count_def)

text \<open>What a start does, when it starts something.\<close>

definition started_store :: "job_limits \<Rightarrow> string \<Rightarrow> job_view \<Rightarrow> int \<Rightarrow> job_store \<Rightarrow> job_store" where
  "started_store lims jid view now s =
     (let s' = evict_locked (max_retained lims) (expire_locked now (s\<lparr>js_orphans := []\<rparr>))
      in s'\<lparr>js_jobs := (if kv_has (js_jobs s') jid then js_jobs s'
                        else kv_put jid \<lparr>je_view = view, je_cancelled = False, je_joinable = True\<rparr> (js_jobs s')),
            js_running := jid # js_running s'\<rparr>)"

lemma job_start_cases:
  "(js_shutting_down s \<and> job_start lims (Inr jid) c t q f now s = (Inl shutting_down_error, s\<lparr>js_orphans := []\<rparr>)) \<or>
   (\<not> js_shutting_down s \<and> job_working_count (js_jobs s) \<ge> max_working lims \<and>
      job_start lims (Inr jid) c t q f now s =
        (Inl (too_many_jobs_error lims (job_working_count (js_jobs s))), expire_locked now (s\<lparr>js_orphans := []\<rparr>))) \<or>
   (\<not> js_shutting_down s \<and> job_working_count (js_jobs s) < max_working lims \<and>
      job_start lims (Inr jid) c t q f now s =
        (Inr (new_job_view lims jid c t q f now),
         started_store lims jid (new_job_view lims jid c t q f now) now s))"
  using expire_locked_working[of now "s\<lparr>js_orphans := []\<rparr>"]
  by (auto simp: job_start_def started_store_def Let_def expire_locked_simps)

lemma job_inv_orphans: "job_inv lims s \<Longrightarrow> job_inv lims (s\<lparr>js_orphans := os\<rparr>)"
  by (simp add: job_inv_def)

lemma job_inv_expire:
  assumes "job_inv lims s"
  shows "job_inv lims (expire_locked now s)"
  using assms expire_locked_length[of now s] unfolding job_inv_def
  by (auto simp: expire_locked_simps expire_locked_working split: option.splits if_splits)
     (metis past_ttl_finished option.inject)+

lemma job_inv_evict:
  assumes "job_inv lims s"
  shows "job_inv lims (evict_locked n s)"
proof -
  have ok: "kv_ok (js_jobs s)" using assms by (simp add: job_inv_def)
  note keeps = evict_locked_keeps[OF ok, of n] evict_locked_keeps_working[OF ok, of _ n]
  have "length (js_jobs (evict_locked n s)) \<le> length (js_jobs s)"
    by (rule evict_locked_rule) (use drop_job_less oldest_finished_in in fastforce)+
  then show ?thesis
    using assms keeps evict_locked_working[OF ok, of n] evict_locked_get[OF ok, of n] unfolding job_inv_def
    by auto blast+
qed

lemma job_inv_started:
  assumes inv: "job_inv lims s" and fresh: "kv_get (js_jobs s) jid = None" "jid \<notin> set (js_running s)"
    and room: "job_working_count (js_jobs s) < max_working lims"
  shows "job_inv lims (started_store lims jid (new_job_view lims jid c t q f now) now s)"
proof -
  let ?x = "expire_locked now (s\<lparr>js_orphans := []\<rparr>)"
  let ?s = "evict_locked (max_retained lims) ?x"
  let ?e = "\<lparr>je_view = new_job_view lims jid c t q f now, je_cancelled = False, je_joinable = True\<rparr>"
  have inv': "job_inv lims ?s"
    using inv by (intro job_inv_evict job_inv_expire job_inv_orphans)
  have ok: "kv_ok (js_jobs s)" "kv_ok (js_jobs ?x)" "kv_ok (js_jobs ?s)"
    using inv inv' by (auto simp: job_inv_def expire_locked_simps)
  have fresh': "kv_get (js_jobs ?s) jid = None"
  proof (cases "kv_get (js_jobs ?s) jid")
    case (Some e)
    then have "kv_get (js_jobs ?x) jid = Some e" using evict_locked_get[OF ok(2)] by simp
    then show ?thesis using fresh ok by (simp add: expire_locked_simps)
  qed
  have count: "job_working_count (js_jobs ?s) = job_working_count (js_jobs s)"
    using evict_locked_working[OF ok(2)] expire_locked_working by simp
  have size: "length (js_jobs ?s) < max (max_retained lims) (max_working lims)"
    using evict_locked_length[of "max_retained lims" ?x] all_working_count count room by fastforce
  have e: "entry_ok jid ?e" "is_working ?e"
    by (auto simp: entry_ok_def new_job_view_def is_working_def)
  show ?thesis
    using inv' fresh fresh' count size room e ok
    unfolding started_store_def job_inv_def Let_def
    by (auto simp: kv_has_def working_count_put kv.count_put kv.find_put expire_locked_simps split: if_splits)
qed

lemma job_inv_finish:
  assumes inv: "job_inv lims s" and run: "jid \<in> set (js_running s)"
  shows "job_inv lims (job_finish jid w now s)"
proof -
  obtain e where e: "kv_get (js_jobs s) jid = Some e" "is_working e"
    using inv run by (auto simp: job_inv_def)
  have ok: "kv_ok (js_jobs s)" using inv by (simp add: job_inv_def)
  let ?e = "e\<lparr>je_view := finished_view w (je_cancelled e) now (je_view e)\<rparr>"
  have fin: "\<not> is_working ?e" using finished_not_working by (simp add: is_working_def)
  have "entry_ok jid ?e" using entry_ok_finished e inv by (auto simp: job_inv_def)
  then show ?thesis
    using inv fin e ok
    unfolding job_inv_def job_finish_def
    by (auto simp: kv.find_put working_count_put kv.count_put split: if_splits)
qed

lemma job_inv_cancel:
  assumes inv: "job_inv lims s"
  shows "job_inv lims (snd (job_cancel now jid s))"
proof (cases "kv_get (js_jobs s) jid")
  case None
  then show ?thesis using inv by (simp add: job_cancel_def)
next
  case (Some e)
  have ok: "kv_ok (js_jobs s)" using inv by (simp add: job_inv_def)
  let ?e = "e\<lparr>je_view := (je_view e)\<lparr>jv_cancel_requested := True, jv_updated_at_ms := now\<rparr>, je_cancelled := True\<rparr>"
  have work: "is_working ?e = is_working e" by (simp add: is_working_def)
  show ?thesis
  proof (cases "is_working e")
    case True
    have "entry_ok jid ?e" using entry_ok_cancel True Some inv by (auto simp: job_inv_def)
    then show ?thesis
      using inv Some True ok work unfolding job_inv_def job_cancel_def Let_def
      by (auto simp: kv.find_put working_count_put kv.count_put split: if_splits)
  qed (use inv Some in \<open>simp add: job_cancel_def\<close>)
qed

lemma job_inv_shutdown:
  assumes "job_inv lims s"
  shows "job_inv lims (job_shutdown s)"
proof -
  let ?f = "\<lambda>e. e\<lparr>je_cancelled := True, je_joinable := False\<rparr>"
  have work: "is_working (?f e) = is_working e" for e by (simp add: is_working_def)
  have count: "job_working_count (map (\<lambda>(k, e). (k, ?f e)) m) = job_working_count m"
    for m :: "(string \<times> job_entry) list"
    by (induction m) (auto simp: job_working_count_def work)
  have get: "kv_get (map (\<lambda>(k, e). (k, ?f e)) m) k = map_option ?f (kv_get m k)"
    for k and m :: "(string \<times> job_entry) list"
    by (induction m) auto
  show ?thesis
    using assms count work get unfolding job_inv_def job_shutdown_def
    by (auto simp: kv_ok_map_values entry_ok_shutdown)
qed

lemma job_inv_step: "job_step lims s s' \<Longrightarrow> job_inv lims s \<Longrightarrow> job_inv lims s'"
proof (induction rule: job_step.induct)
  case (step_start s jid c t q f now)
  then show ?case
    using job_start_cases[of s lims jid c t q f now]
    by (auto simp: job_inv_orphans job_inv_expire job_inv_started)
qed (auto intro: job_inv_finish job_inv_cancel job_inv_shutdown)

lemma job_reach_inv: "job_reach lims s \<Longrightarrow> job_inv lims s"
proof (induction rule: job_reach.induct)
  case job_reach_init
  then show ?case by (simp add: job_inv_def empty_jobs_def job_working_count_def)
qed (auto intro: job_inv_step)

lemma started_store_keeps:
  assumes ok: "kv_ok (js_jobs s)" and ne: "k \<noteq> jid" and e: "kv_get (js_jobs s) k = Some e" "is_working e"
  shows "kv_get (js_jobs (started_store lims jid view now s)) k = Some e"
proof -
  let ?x = "expire_locked now (s\<lparr>js_orphans := []\<rparr>)"
  have okx: "kv_ok (js_jobs ?x)" using ok by (simp add: expire_locked_simps)
  have "kv_get (js_jobs ?x) k = Some e"
    using e ok past_ttl_finished[of now e] by (auto simp: expire_locked_simps)
  then have "kv_get (js_jobs (evict_locked (max_retained lims) ?x)) k = Some e"
    using evict_locked_keeps_working[OF okx e(2)] by simp
  then show ?thesis
    using ne evict_locked_keeps[OF okx] by (simp add: started_store_def Let_def kv.find_put)
qed

lemma started_store_get:
  assumes ok: "kv_ok (js_jobs s)" and ne: "k \<noteq> jid"
    and d: "kv_get (js_jobs (started_store lims jid view now s)) k = Some d" and e: "kv_get (js_jobs s) k = Some e"
  shows "d = e"
proof -
  let ?x = "expire_locked now (s\<lparr>js_orphans := []\<rparr>)"
  have okx: "kv_ok (js_jobs ?x)" using ok by (simp add: expire_locked_simps)
  have "kv_get (js_jobs (evict_locked (max_retained lims) ?x)) k = Some d"
    using d ne evict_locked_keeps[OF okx] by (simp add: started_store_def Let_def kv.find_put split: if_splits)
  then have "kv_get (js_jobs ?x) k = Some d" by (rule evict_locked_get[OF okx])
  then show ?thesis using e ok by (simp add: expire_locked_simps split: if_splits)
qed

lemma oldest_finished_least:
  assumes "oldest_finished m = Some (k, e)" "(j, d) \<in> set m" "\<not> is_working d"
  shows "jv_created_at_ms (je_view e) \<le> jv_created_at_ms (je_view d)"
  using first_oldest_least[OF assms(1)[unfolded oldest_finished_def]] assms(2,3) by auto

lemma evict_locked_oldest_first:
  assumes ok: "kv_ok (js_jobs s)"
  shows "\<forall>k e j d. kv_get (js_jobs s) k = Some e \<and> kv_get (js_jobs (evict_locked n s)) k = None \<and>
           kv_get (js_jobs (evict_locked n s)) j = Some d \<and> \<not> is_working d \<longrightarrow>
           jv_created_at_ms (je_view e) \<le> jv_created_at_ms (je_view d)"
    (is "?P (evict_locked n s)")
proof -
  have "kv_ok (js_jobs (evict_locked n s)) \<and> (\<forall>k e. kv_get (js_jobs (evict_locked n s)) k = Some e \<longrightarrow>
      kv_get (js_jobs s) k = Some e) \<and> ?P (evict_locked n s)"
  proof (rule evict_locked_rule, goal_cases)
    case 1
    then show ?case using ok by auto
  next
    case (2 s' k e)
    then have ok': "kv_ok (js_jobs s')"
      and sub: "\<And>k e. kv_get (js_jobs s') k = Some e \<Longrightarrow> kv_get (js_jobs s) k = Some e" and P: "?P s'" by auto
    have e: "kv_get (js_jobs s') k = Some e"
      using oldest_finished_in[OF 2(2)] ok' by (simp add: kv_get_iff)
    have least: "jv_created_at_ms (je_view e) \<le> jv_created_at_ms (je_view d)"
      if "kv_get (js_jobs s') j = Some d" "\<not> is_working d" for j d
      using oldest_finished_least[OF 2(2) kv_get_in[OF that(1)] that(2)] .
    have "?P (drop_job k e s')"
    proof (intro allI impI, elim conjE, goal_cases)
      case (1 k' e' j d)
      then have d: "kv_get (js_jobs s') j = Some d"
        by (auto simp: drop_job_def split: if_splits)
      show ?case
      proof (cases "k' = k")
        case True
        then have "e' = e" using 1 e sub by fastforce
        then show ?thesis using least[OF d] 1 by simp
      next
        case False
        then have "kv_get (js_jobs s') k' = None" using 1 by (auto simp: drop_job_def split: if_splits)
        then show ?thesis using P 1 d by blast
      qed
    qed
    then show ?case using ok' sub by (auto simp: drop_job_def)
  qed
  then show ?thesis by blast
qed

section \<open>Concrete states\<close>

definition demo_started :: job_store where
  "demo_started = snd (job_start default_limits (Inr ''a1'') ''c'' ''t'' ''r'' ''f'' 5 empty_jobs)"

definition demo_cancelled :: job_store where
  "demo_cancelled = snd (job_cancel 6 ''a1'' demo_started)"

definition demo_finished :: job_store where
  "demo_finished = job_finish ''a1'' (Returned JNull) 7 demo_cancelled"

lemmas demo_job_defs = demo_finished_def demo_cancelled_def demo_started_def job_start_def empty_jobs_def
  default_limits_def expire_locked_def evict_locked.simps oldest_finished_def job_working_count_def
  job_cancel_def job_finish_def new_job_view_def is_working_def finished_view_def failure_of_def kv_has_def

lemma demo_started_reach: "job_reach default_limits demo_started"
proof -
  have "job_step default_limits empty_jobs demo_started"
    unfolding demo_started_def by (rule step_start) (simp_all add: empty_jobs_def)
  then show ?thesis by (rule job_reach_step[OF job_reach_init])
qed

lemma demo_started_running: "js_running demo_started = [''a1'']"
  by (simp add: demo_job_defs Let_def)

lemma demo_cancelled_reach: "job_reach default_limits demo_cancelled"
  unfolding demo_cancelled_def by (rule job_reach_step[OF demo_started_reach step_cancel])

lemma demo_finish_step: "job_step default_limits demo_cancelled demo_finished"
  unfolding demo_finished_def by (rule step_finish) (simp add: demo_job_defs Let_def)

lemma demo_finished_reach: "job_reach default_limits demo_finished"
  by (rule job_reach_step[OF demo_cancelled_reach demo_finish_step])

lemma demo_finished_state:
  "\<exists>e. kv_get (js_jobs demo_finished) ''a1'' = Some e \<and> jv_state (je_view e) = Cancelled \<and>
       jv_cancel_requested (je_view e) \<and> jv_result (je_view e) = None \<and>
       jv_ttl_ms (je_view e) = 3600000 \<and> jv_created_at_ms (je_view e) = 5"
  by (simp add: demo_job_defs Let_def)

lemma demo_cancelled_state:
  "\<exists>e. kv_get (js_jobs demo_cancelled) ''a1'' = Some e \<and> is_working e"
  by (simp add: demo_job_defs Let_def)

section \<open>Properties\<close>

text \<open>
  In every reachable state at most \<open>max_working\<close> jobs run and no more jobs are kept than the
  larger of the two limits; every running job is kept, and a thread that has not answered has
  exactly one entry, which is working.
\<close>

theorem job_store_bounded:
  assumes "job_reach lims s"
  shows "job_working_count (js_jobs s) \<le> max_working lims \<and>
         length (js_jobs s) \<le> max (max_retained lims) (max_working lims) \<and>
         distinct (js_running s) \<and>
         (\<forall>jid. jid \<in> set (js_running s) \<longleftrightarrow> (\<exists>e. kv_get (js_jobs s) jid = Some e \<and> is_working e))"
  using job_reach_inv[OF assms] unfolding job_inv_def by blast

theorem job_store_bounded_witness:
  "job_reach default_limits demo_started \<and> length (js_jobs demo_started) \<le> 64 \<and>
   (\<exists>e. kv_get (js_jobs demo_started) ''a1'' = Some e \<and> is_working e)"
  using job_store_bounded[OF demo_started_reach] demo_started_reach
  by (simp add: demo_started_running) (force simp: default_limits_def)

text \<open>
  What an answer says holds together, in every reachable state and at every time: a view
  that is found carries a result exactly when the job completed, a reason exactly when it was
  abandoned, and a job that was asked to stop while it ran never answers with a result.
\<close>

theorem found_views_are_coherent:
  assumes "job_reach lims s" and "job_find now s jid = Some v"
  shows "jv_id v = jid \<and> (jv_result v \<noteq> None \<longleftrightarrow> jv_state v = Completed) \<and>
         (jv_abandoned_reason v \<noteq> [] \<longleftrightarrow> jv_state v = Abandoned) \<and>
         (jv_cancel_requested v \<longrightarrow> jv_result v = None)"
proof -
  obtain e where e: "kv_get (js_jobs s) jid = Some e" "v = je_view e"
    using assms(2) by (auto simp: job_find_def split: option.splits if_splits)
  then have "entry_ok jid e"
    using job_reach_inv[OF assms(1)] unfolding job_inv_def by blast
  then show ?thesis
    using e by (auto simp: entry_ok_def Let_def)
qed

theorem found_views_are_coherent_witness:
  "\<exists>v. job_find 8 demo_finished ''a1'' = Some v \<and> jv_cancel_requested v \<and> jv_result v = None"
proof -
  obtain v where v: "job_find 8 demo_finished ''a1'' = Some v" "jv_cancel_requested v"
    using demo_finished_state by (auto simp: job_find_def past_ttl_def)
  then show ?thesis
    using found_views_are_coherent[OF demo_finished_reach v(1)] by blast
qed

text \<open>
  (C38) No operation loses a running job or rewrites a finished one: after any step a job that was
  working is still kept, as the same request, and a job that had finished is gone or shows the
  same view as before.
\<close>

theorem jobs_are_kept:
  assumes "job_reach lims s" and "job_step lims s s'" and "kv_get (js_jobs s) jid = Some e"
  shows "(is_working e \<longrightarrow> (\<exists>e'. kv_get (js_jobs s') jid = Some e' \<and>
            jv_created_at_ms (je_view e') = jv_created_at_ms (je_view e) \<and>
            jv_fingerprint (je_view e') = jv_fingerprint (je_view e))) \<and>
         (\<not> is_working e \<longrightarrow> (\<forall>e'. kv_get (js_jobs s') jid = Some e' \<longrightarrow> je_view e' = je_view e))"
proof -
  have inv: "job_inv lims s" by (rule job_reach_inv[OF assms(1)])
  have ok: "kv_ok (js_jobs s)" using inv by (simp add: job_inv_def)
  show ?thesis
    using assms(2)
  proof (cases rule: job_step.cases)
    case (step_start i c t q f now)
    note 1 = this
    let ?x = "expire_locked now (s\<lparr>js_orphans := []\<rparr>)"
    have ne: "jid \<noteq> i" using 1 assms(3) by auto
    have getx: "kv_get (js_jobs ?x) jid = (if past_ttl now e then None else Some e)"
      using assms(3) ok by (simp add: expire_locked_simps)
    have kept: "kv_get (js_jobs s') jid = Some e" if "is_working e"
      using started_store_keeps[OF ok ne assms(3) that, of lims _ now] job_start_cases[of s lims i c t q f now]
        1(1) getx assms(3) that
      by (auto dest: past_ttl_finished)
    have same: "e' = e" if "kv_get (js_jobs s') jid = Some e'" for e'
      using started_store_get[OF ok ne _ assms(3), of lims _ now e'] job_start_cases[of s lims i c t q f now]
        1(1) getx assms(3) that
      by (auto split: if_splits)
    show ?thesis using kept same by blast
  next
    case (step_finish i w now)
    then show ?thesis
      using assms(3) inv ok
      by (auto simp: job_finish_def job_inv_def kv.find_put finished_view_def Let_def split: option.splits)
  next
    case (step_cancel now i)
    then show ?thesis
      using assms(3) ok
      by (auto simp: job_cancel_def Let_def kv.find_put split: option.splits if_splits)
  next
    case step_shutdown
    note 4 = this
    have "kv_get (map (\<lambda>(k, e). (k, e\<lparr>je_cancelled := True, je_joinable := False\<rparr>)) m) k =
        map_option (\<lambda>e. e\<lparr>je_cancelled := True, je_joinable := False\<rparr>) (kv_get m k)"
      for k and m :: "(string \<times> job_entry) list"
      by (induction m) auto
    then show ?thesis using 4 assms(3) by (auto simp: job_shutdown_def)
  qed
qed

theorem jobs_are_kept_witness:
  "\<exists>e e'. kv_get (js_jobs demo_cancelled) ''a1'' = Some e \<and> is_working e \<and>
     kv_get (js_jobs demo_finished) ''a1'' = Some e' \<and> jv_created_at_ms (je_view e') = jv_created_at_ms (je_view e)"
proof -
  obtain e where e: "kv_get (js_jobs demo_cancelled) ''a1'' = Some e" "is_working e"
    using demo_cancelled_state by blast
  then show ?thesis
    using jobs_are_kept[OF demo_cancelled_reach demo_finish_step e(1)] by blast
qed

text \<open>
  A start is granted exactly when the store is not shutting down and fewer than \<open>max_working\<close>
  jobs run. A granted start adds the new working job; what it drops to make room is finished,
  and no kept finished job is older than a job it evicted inside its time to live.
\<close>

theorem job_start_grants:
  assumes "job_reach lims s" and "kv_get (js_jobs s) jid = None"
    and "job_start lims (Inr jid) c t q f now s = (r, s')"
  shows "(is_ok r \<longleftrightarrow> \<not> js_shutting_down s \<and> job_working_count (js_jobs s) < max_working lims) \<and>
         (is_ok r \<longrightarrow> (\<exists>e. kv_get (js_jobs s') jid = Some e \<and> is_working e \<and> r = Inr (je_view e)) \<and>
            (\<forall>k e j d. kv_get (js_jobs s) k = Some e \<and> \<not> past_ttl now e \<and> kv_get (js_jobs s') k = None \<and>
               kv_get (js_jobs s') j = Some d \<and> \<not> is_working d \<longrightarrow>
               \<not> is_working e \<and> jv_created_at_ms (je_view e) \<le> jv_created_at_ms (je_view d)))"
proof -
  have ok: "kv_ok (js_jobs s)" using job_reach_inv[OF assms(1)] by (simp add: job_inv_def)
  let ?x = "expire_locked now (s\<lparr>js_orphans := []\<rparr>)"
  let ?v = "evict_locked (max_retained lims) ?x"
  let ?new = "\<lparr>je_view = new_job_view lims jid c t q f now, je_cancelled = False, je_joinable = True\<rparr>"
  have okx: "kv_ok (js_jobs ?x)" using ok by (simp add: expire_locked_simps)
  have okv: "kv_ok (js_jobs ?v)" using evict_locked_keeps[OF okx] by blast
  have new: "kv_get (js_jobs ?v) jid = None"
    using evict_locked_get[OF okx, of "max_retained lims" jid] assms(2) ok
    by (cases "kv_get (js_jobs ?v) jid") (auto simp: expire_locked_simps)
  have get': "kv_get (js_jobs (started_store lims jid (new_job_view lims jid c t q f now) now s)) k =
      (if k = jid then Some ?new else kv_get (js_jobs ?v) k)" for k
    using new okv by (simp add: started_store_def Let_def kv_has_def kv.find_put)
  have dropped: "\<not> is_working e \<and> jv_created_at_ms (je_view e) \<le> jv_created_at_ms (je_view d)"
    if h: "kv_get (js_jobs s) k = Some e" "\<not> past_ttl now e" "kv_get (js_jobs ?v) k = None"
      "kv_get (js_jobs ?v) j = Some d" "\<not> is_working d" for k e j d
  proof -
    have x: "kv_get (js_jobs ?x) k = Some e" using h ok by (simp add: expire_locked_simps)
    then have "\<not> is_working e"
      using evict_locked_keeps_working[OF okx, of e "max_retained lims" k] h by auto
    then show ?thesis using evict_locked_oldest_first[OF okx, of "max_retained lims"] x h by blast
  qed
  have work: "is_working ?new" by (simp add: is_working_def new_job_view_def)
  show ?thesis
    using job_start_cases[of s lims jid c t q f now] assms(3) get' dropped work
    by (auto split: if_splits)
qed

theorem job_start_grants_witness:
  "is_ok (fst (job_start default_limits (Inr ''b2'') ''c'' ''t'' ''r'' ''f'' 9 demo_started)) \<and>
   (\<exists>e. kv_get (js_jobs (snd (job_start default_limits (Inr ''b2'') ''c'' ''t'' ''r'' ''f'' 9 demo_started))) ''b2'' = Some e
        \<and> is_working e)"
proof -
  have fresh: "kv_get (js_jobs demo_started) ''b2'' = None"
    and room: "\<not> js_shutting_down demo_started" "job_working_count (js_jobs demo_started) < max_working default_limits"
    by (simp_all add: demo_job_defs Let_def)
  show ?thesis
    using job_start_grants[OF demo_started_reach fresh surjective_pairing, of "''c''" "''t''" "''r''" "''f''" 9] room by blast
qed

text \<open>
  A job's thread always settles it: when it records its answer the job leaves the working
  state for the one its outcome and the cancellation flag name, and its view is then found
  until its time to live is over.
\<close>

theorem job_finish_settles:
  assumes "job_reach lims s" and "jid \<in> set (js_running s)"
  shows "\<exists>e v. kv_get (js_jobs s) jid = Some e \<and>
           kv_get (js_jobs (job_finish jid w now s)) jid = Some (e\<lparr>je_view := v\<rparr>) \<and>
           jv_state v = (case w of Returned r \<Rightarrow> if je_cancelled e then Cancelled else Completed | _ \<Rightarrow> Abandoned) \<and>
           jv_result v = (case w of Returned r \<Rightarrow> if je_cancelled e then None else Some r | _ \<Rightarrow> None) \<and>
           (\<forall>later. later - jv_created_at_ms v < jv_ttl_ms v \<longrightarrow>
              job_find later (job_finish jid w now s) jid = Some v)"
proof -
  have inv: "job_inv lims s" by (rule job_reach_inv[OF assms(1)])
  then obtain e where e: "kv_get (js_jobs s) jid = Some e" "is_working e" and ok: "kv_ok (js_jobs s)"
    using assms(2) by (auto simp: job_inv_def)
  have "entry_ok jid e" using inv e unfolding job_inv_def by blast
  then have "jv_result (je_view e) = None"
    using e by (auto simp: entry_ok_def Let_def is_working_def)
  then show ?thesis
    using e ok by (intro exI[of _ e] exI[of _ "finished_view w (je_cancelled e) now (je_view e)"])
      (auto simp: job_finish_def kv.find_put finished_view_def failure_of_def Let_def job_find_def past_ttl_def
        split: work_outcome.splits)
qed

theorem job_finish_settles_witness:
  "\<exists>v. job_find 100 (job_finish ''a1'' (Returned JNull) 7 demo_started) ''a1'' = Some v \<and>
       jv_state v = Completed \<and> jv_result v = Some JNull"
proof -
  have run: "''a1'' \<in> set (js_running demo_started)" by (simp add: demo_started_running)
  have e: "\<exists>e. kv_get (js_jobs demo_started) ''a1'' = Some e \<and> \<not> je_cancelled e"
    by (simp add: demo_job_defs Let_def)
  have found: "\<exists>v. kv_get (js_jobs (job_finish ''a1'' (Returned JNull) 7 demo_started)) ''a1'' = Some v \<and>
      jv_created_at_ms (je_view v) = 5 \<and> jv_ttl_ms (je_view v) = 3600000"
    by (simp add: demo_job_defs Let_def)
  show ?thesis
    using job_finish_settles[OF demo_started_reach run, of "Returned JNull" 7] e found by force
qed

end
