(* ===== verification/Transport.thy ===== *)
theory Transport
  imports Didi_Json
begin

unbundle bit_operations_syntax

text \<open>
  What crosses a boundary as bytes: base64 (\<open>src/common/base64.cpp\<close>), the length-prefixed frames
  of the IPC channel (\<open>include/didi/common/protocol.hpp\<close>) and engine output stripped of terminal
  control sequences (\<open>include/didi/common/terminal_text.hpp\<close>). The locale \<open>codec\<close> is the contract of
  an encoding that is read back; base64 and the frame header are interpretations of it.

  The reader of a frame is given its transport as a function that delivers exactly the bytes asked
  for or fails, over a state of its own. A vector's reserve is taken to give the capacity it asks for.
\<close>

section \<open>Codecs\<close>

locale codec =
  fixes enc :: "'a \<Rightarrow> 'b" and dec :: "'b \<Rightarrow> 'a" and ok :: "'a \<Rightarrow> bool"
  assumes round_trip: "ok x \<Longrightarrow> dec (enc x) = x"
begin

lemma enc_inject: "ok x \<Longrightarrow> ok y \<Longrightarrow> enc x = enc y \<longleftrightarrow> x = y"
  using round_trip by metis

lemma enc_injective: "inj_on enc {x. ok x}"
  by (rule inj_onI) (use enc_inject in auto)

end

section \<open>Base64\<close>

definition k_encode_table :: string where
  "k_encode_table = ''ABCDEFGHIJKLMNOPQRSTUVWXYZabcdefghijklmnopqrstuvwxyz0123456789+/''"

fun base64_encode :: "string \<Rightarrow> string" where
  "base64_encode [] = []"
| "base64_encode (x # rest) =
     (let remaining = length (x # rest);
          a = byte x;
          b = (case rest of y # _ \<Rightarrow> byte y | [] \<Rightarrow> 0);
          c = (case rest of _ # z # _ \<Rightarrow> byte z | _ \<Rightarrow> 0);
          triple = push_bit 16 a OR push_bit 8 b OR c
      in [k_encode_table ! (drop_bit 18 triple AND 0x3F),
          k_encode_table ! (drop_bit 12 triple AND 0x3F),
          (if remaining > 1 then k_encode_table ! (drop_bit 6 triple AND 0x3F) else CHR ''=''),
          (if remaining > 2 then k_encode_table ! (triple AND 0x3F) else CHR ''='')]
         @ base64_encode (drop 2 rest))"

text \<open>The decode table: \<open>-1\<close> is \<open>None\<close>.\<close>

fun table_index :: "string \<Rightarrow> nat \<Rightarrow> char \<Rightarrow> nat option" where
  "table_index [] i c = None"
| "table_index (t # ts) i c = (if t = c then Some i else table_index ts (i + 1) c)"

definition decode_table :: "char \<Rightarrow> nat option" where
  "decode_table c = table_index k_encode_table 0 c"

text \<open>
  \<open>val\<close> is a 32-bit \<open>int\<close> whose shift wraps; the byte it gives is the low eight bits of an
  arithmetic shift by less than 24, which the sign never reaches.
\<close>

fun decode_loop :: "nat \<Rightarrow> int \<Rightarrow> string \<Rightarrow> string" where
  "decode_loop val valb [] = []"
| "decode_loop val valb (c # s) =
     (if c = CHR ''='' then []
      else case decode_table c of
             None \<Rightarrow> decode_loop val valb s
           | Some t \<Rightarrow>
               let val = (push_bit 6 val + t) mod 2 ^ 32; valb = valb + 6
               in if valb \<ge> 0 then
                    char_of (drop_bit (nat valb) val AND 0xFF) # decode_loop val (valb - 8) s
                  else decode_loop val valb s)"

definition base64_decode :: "string \<Rightarrow> string" where
  "base64_decode input = decode_loop 0 (- 8) input"

section \<open>Frames\<close>

definition frame_length_prefix_bytes :: nat where
  "frame_length_prefix_bytes = 4"

definition maximum_frame_bytes :: nat where
  "maximum_frame_bytes = 128 * 1024 * 1024"

definition frame_read_chunk_bytes :: nat where
  "frame_read_chunk_bytes = 64 * 1024"

definition frame_header :: "nat \<Rightarrow> string" where
  "frame_header len =
     [char_of (len AND 0xFF), char_of (drop_bit 8 len AND 0xFF),
      char_of (drop_bit 16 len AND 0xFF), char_of (drop_bit 24 len AND 0xFF)]"

definition frame_message :: "(json \<Rightarrow> string) \<Rightarrow> json \<Rightarrow> string" where
  "frame_message dump message =
     (let serialized = dump message; len = length serialized mod 2 ^ 32
      in frame_header len @ take len serialized)"

definition decode_frame_length :: "string \<Rightarrow> nat" where
  "decode_frame_length header =
     byte (header ! 0) OR push_bit 8 (byte (header ! 1)) OR
     push_bit 16 (byte (header ! 2)) OR push_bit 24 (byte (header ! 3))"

text \<open>The capacity of the buffer after \<open>growFrameBuffer\<close>.\<close>

definition grow_frame_buffer :: "nat \<Rightarrow> nat \<Rightarrow> nat \<Rightarrow> nat \<Rightarrow> nat" where
  "grow_frame_buffer capacity filled want frame_bytes =
     (let needed = filled + want
      in if capacity < needed then
           let next = (if capacity < needed div 2 then needed else capacity * 2)
           in max needed (if next > frame_bytes then frame_bytes else next)
         else capacity)"

datatype frame_read_outcome = completed | rejected | read_failed

text \<open>
  The loop. The buffer is grown, filled with zero bytes, before the transport is asked for the
  next chunk; the transport answers whether it filled it and what it wrote at its front.
\<close>

definition chunk_after_read :: "nat \<Rightarrow> string \<Rightarrow> string" where
  "chunk_after_read want written = take want (written @ replicate want (char_of (0 :: nat)))"

function read_chunks ::
  "(nat \<Rightarrow> 's \<Rightarrow> bool \<times> string \<times> 's) \<Rightarrow> nat \<Rightarrow> string \<Rightarrow> nat \<Rightarrow> 's \<Rightarrow>
   frame_read_outcome \<times> string \<times> nat \<times> 's" where
  "read_chunks read_chunk frame_bytes payload capacity s =
     (if length payload \<ge> frame_bytes then (completed, payload, capacity, s)
      else
        let filled = length payload;
            want = (if frame_bytes - filled < frame_read_chunk_bytes then frame_bytes - filled
                    else frame_read_chunk_bytes);
            capacity = grow_frame_buffer capacity filled want frame_bytes;
            (got, written, s) = read_chunk want s;
            payload = payload @ chunk_after_read want written
        in if \<not> got then (read_failed, payload, capacity, s)
           else read_chunks read_chunk frame_bytes payload capacity s)"
  by auto
termination
  by (relation "measure (\<lambda>(r, n, p, c, s). n - length p)")
     (auto simp: frame_read_chunk_bytes_def chunk_after_read_def split: if_splits)

declare read_chunks.simps [simp del]

definition read_frame_payload ::
  "(nat \<Rightarrow> 's \<Rightarrow> bool \<times> string \<times> 's) \<Rightarrow> nat \<Rightarrow> nat \<Rightarrow> 's \<Rightarrow> frame_read_outcome \<times> string \<times> nat \<times> 's" where
  "read_frame_payload read_chunk frame_bytes maximum_bytes s =
     (if frame_bytes = 0 \<or> frame_bytes > maximum_bytes then (rejected, [], 0, s)
      else read_chunks read_chunk frame_bytes [] 0 s)"

text \<open>A transport that holds the bytes it will deliver, for the round trip.\<close>

definition stream_read :: "nat \<Rightarrow> string \<Rightarrow> bool \<times> string \<times> string" where
  "stream_read want s = (length s \<ge> want, take want s, drop want s)"

section \<open>Terminal text\<close>

fun is_csi_end :: "char \<Rightarrow> bool" where
  "is_csi_end c = (byte c \<ge> 0x40 \<and> byte c \<le> 0x7E)"

function without_terminal_escapes :: "string \<Rightarrow> string" where
  "without_terminal_escapes [] = []"
| "without_terminal_escapes (c # s) =
     (if c = CHR 0x0D then without_terminal_escapes s
      else if c \<noteq> CHR 0x1B then c # without_terminal_escapes s
      else case s of
             [] \<Rightarrow> []
           | d # t \<Rightarrow>
               if d = CHR ''['' then without_terminal_escapes (drop 1 (dropWhile (\<lambda>x. \<not> is_csi_end x) t))
               else without_terminal_escapes t)"
  by pat_completeness auto
termination
proof (relation "measure length")
  fix c d :: char and s t :: string
  assume "s = d # t"
  then show "(drop 1 (dropWhile (\<lambda>x. \<not> is_csi_end x) t), c # s) \<in> measure length"
    using length_dropWhile_le[of "\<lambda>x. \<not> is_csi_end x" t] by simp
qed auto

section \<open>The bytes come back\<close>

lemma k_encode_table_length: "length k_encode_table = 64"
  by (simp add: k_encode_table_def)

lemma decode_table_all: "\<forall>n \<in> set [0..<64]. decode_table (k_encode_table ! n) = Some n \<and> k_encode_table ! n \<noteq> CHR ''=''"
  by code_simp

lemma decode_table_encode [simp]: "n < 64 \<Longrightarrow> decode_table (k_encode_table ! n) = Some n"
  "n < 64 \<Longrightarrow> k_encode_table ! n \<noteq> CHR ''=''"
  using decode_table_all by auto

lemma low6: "(n :: nat) AND 0x3F = n mod 64" "(n :: nat) AND 0xFF = n mod 256"
  using take_bit_eq_mask[of 6 n] take_bit_eq_mask[of 8 n] by (simp_all add: take_bit_eq_mod mask_eq_exp_minus_1)

lemma disjoint_or: "(b :: nat) < 2 ^ k \<Longrightarrow> push_bit k a OR b = 2 ^ k * a + b"
proof -
  assume b: "b < 2 ^ k"
  then have tb: "take_bit k b = b" by (simp add: take_bit_nat_eq_self_iff)
  have "push_bit k a AND take_bit k b = 0"
    by (rule bit_eqI) (auto simp: bit_simps)
  then have "push_bit k a AND b = 0" by (simp only: tb)
  then show ?thesis
    using disjunctive_add_eq_or[of "push_bit k a" b] by (simp add: push_bit_eq_mult mult.commute)
qed

lemma triple_sum:
  assumes "a < 256" "b < 256" "c < (256 :: nat)"
  shows "push_bit 16 a OR push_bit 8 b OR c = 65536 * a + 256 * b + c"
proof -
  have bc: "push_bit 8 b OR c = 256 * b + c"
    using disjoint_or[of c 8 b] assms(3) by simp
  have "256 * b + c < 2 ^ 16" using assms by simp
  from disjoint_or[OF this, of a] show ?thesis by (simp add: or.assoc bc)
qed

text \<open>The four sextets of a triple and the bytes they carry.\<close>

lemma sextets:
  assumes "a < 256" "b < 256" "c < (256 :: nat)"
  defines "t \<equiv> 65536 * a + 256 * b + c"
  shows "t div 262144 mod 64 = a div 4" "t div 4096 mod 64 = (a mod 4) * 16 + b div 16"
    "t div 64 mod 64 = (b mod 16) * 4 + c div 64" "t mod 64 = c mod 64"
proof -
  define a1 a0 b1 b0 c1 c0 where "a1 = a div 4" and "a0 = a mod 4" and "b1 = b div 16" and "b0 = b mod 16"
    and "c1 = c div 64" and "c0 = c mod 64"
  have eqs: "a = 4 * a1 + a0" "b = 16 * b1 + b0" "c = 64 * c1 + c0"
    by (simp_all add: a1_def a0_def b1_def b0_def c1_def c0_def)
  have small: "a0 < 4" "b0 < 16" "c0 < 64" by (simp_all add: a0_def b0_def c0_def)
  then have big: "a1 < 64" "b1 < 16" "c1 < 4" using assms(1-3) eqs by linarith+
  have t: "t = 262144 * a1 + 4096 * (16 * a0 + b1) + 64 * (4 * b0 + c1) + c0"
    unfolding t_def eqs by simp
  have digits: "16 * a0 + b1 < 64" "4 * b0 + c1 < 64" using small big by linarith+
  note d = digits4[OF digits small(3), of a1, folded t]
  show "t div 262144 mod 64 = a div 4" using d(1) big(1) by (simp add: a1_def)
  show "t div 4096 mod 64 = (a mod 4) * 16 + b div 16" using d(2) by (simp add: a0_def b1_def)
  show "t div 64 mod 64 = (b mod 16) * 4 + c div 64" using d(3) by (simp add: b0_def c1_def)
  show "t mod 64 = c mod 64" using d(4) by (simp add: c0_def)
qed

lemma sextet_bits:
  assumes "a < 256" "b < 256" "c < (256 :: nat)"
  shows "drop_bit 18 (push_bit 16 a OR push_bit 8 b OR c) AND 0x3F = a div 4"
    "drop_bit 12 (push_bit 16 a OR push_bit 8 b OR c) AND 0x3F = (a mod 4) * 16 + b div 16"
    "drop_bit 6 (push_bit 16 a OR push_bit 8 b OR c) AND 0x3F = (b mod 16) * 4 + c div 64"
    "(push_bit 16 a OR push_bit 8 b OR c) AND 0x3F = c mod 64"
proof -
  have p: "(2 :: nat) ^ 18 = 262144" "(2 :: nat) ^ 12 = 4096" "(2 :: nat) ^ 6 = 64" by simp_all
  show "drop_bit 18 (push_bit 16 a OR push_bit 8 b OR c) AND 0x3F = a div 4"
    "drop_bit 12 (push_bit 16 a OR push_bit 8 b OR c) AND 0x3F = (a mod 4) * 16 + b div 16"
    "drop_bit 6 (push_bit 16 a OR push_bit 8 b OR c) AND 0x3F = (b mod 16) * 4 + c div 64"
    "(push_bit 16 a OR push_bit 8 b OR c) AND 0x3F = c mod 64"
    unfolding triple_sum[OF assms] low6 drop_bit_eq_div p by (rule sextets[OF assms])+
qed

lemma base64_three:
  "base64_encode (x # y # z # rest) =
     k_encode_table ! (byte x div 4) # k_encode_table ! ((byte x mod 4) * 16 + byte y div 16) #
     k_encode_table ! ((byte y mod 16) * 4 + byte z div 64) # k_encode_table ! (byte z mod 64) # base64_encode rest"
  using sextet_bits[OF byte_less_256[of x] byte_less_256[of y] byte_less_256[of z]]
  by (simp only: base64_encode.simps Let_def list.case) simp

lemma base64_two:
  "base64_encode [x, y] =
     [k_encode_table ! (byte x div 4), k_encode_table ! ((byte x mod 4) * 16 + byte y div 16),
      k_encode_table ! ((byte y mod 16) * 4), CHR ''='']"
  using sextet_bits[OF byte_less_256[of x] byte_less_256[of y], of 0]
  by (simp only: base64_encode.simps Let_def list.case) simp

lemma base64_one:
  "base64_encode [x] =
     [k_encode_table ! (byte x div 4), k_encode_table ! ((byte x mod 4) * 16), CHR ''='', CHR ''='']"
  using sextet_bits[OF byte_less_256[of x], of 0 0]
  by (simp only: base64_encode.simps Let_def list.case) simp

lemma decode_step:
  "n < 64 \<Longrightarrow> decode_loop val valb (k_encode_table ! n # s) =
     (if valb + 6 \<ge> 0 then
        char_of ((64 * val + n) mod 2 ^ 32 div 2 ^ nat (valb + 6) mod 256) #
          decode_loop ((64 * val + n) mod 2 ^ 32) (valb - 2) s
      else decode_loop ((64 * val + n) mod 2 ^ 32) (valb + 6) s)"
  by (simp add: low6 drop_bit_eq_div push_bit_eq_mult Let_def mult.commute del: char_of_nat)

lemma decode_pad: "decode_loop v b (CHR ''='' # s) = []"
  by simp

declare decode_loop.simps(2) [simp del]

text \<open>The low twelve bits of the accumulator are the last two sextets, whatever came before.\<close>

lemma mod_32_div_mod: "k \<le> 4 \<Longrightarrow> (x :: nat) mod 2 ^ 32 div 2 ^ k mod 256 = x div 2 ^ k mod 256"
proof -
  assume k: "k \<le> 4"
  have "take_bit 8 (drop_bit k (take_bit 32 x)) = take_bit 8 (drop_bit k x)"
    by (rule bit_eqI) (use k in \<open>auto simp: bit_simps\<close>)
  then show ?thesis
    by (simp add: take_bit_eq_mod drop_bit_eq_div)
qed

lemma mod_inside: "(64 * (x mod m) + n) mod m = (64 * x + n) mod (m :: nat)"
  by (metis mod_add_left_eq mod_mult_right_eq)

lemma high_bits_vanish: "k \<le> 4 \<Longrightarrow> (4096 * v + w) div 2 ^ k mod 256 = w div 2 ^ k mod (256 :: nat)"
proof -
  assume k: "k \<le> 4"
  define p q where "p = (2 :: nat) ^ k" and "q = (2 :: nat) ^ (4 - k)"
  have pq: "p * q = 16" "0 < p" using k by (simp_all add: p_def q_def flip: power_add)
  have "p * (256 * (q * v)) = 256 * (p * q) * v" by (simp only: mult.commute mult.left_commute mult.assoc)
  then have e: "4096 * v = p * (256 * (q * v))" unfolding pq by simp
  have "(4096 * v + w) div p = 256 * (q * v) + w div p"
    unfolding e using pq(2) by simp
  then show ?thesis by (simp add: p_def)
qed

lemma low_twelve:
  assumes "k \<le> 4"
  shows "((64 * ((64 * v + m) mod 2 ^ 32) + n) mod 2 ^ 32) div 2 ^ k mod 256 = (64 * m + n) div 2 ^ k mod (256 :: nat)"
proof -
  have "64 * (64 * v + m) + n = 4096 * v + (64 * m + n)" by simp
  then show ?thesis
    using mod_32_div_mod[OF assms] high_bits_vanish[OF assms] by (simp only: mod_inside)
qed

text \<open>Four characters of a group give its three bytes back and leave the loop where it was.\<close>

lemma decode_group:
  assumes "s1 < 64" "s2 < 64" "s3 < 64" "s4 < 64"
  shows "\<exists>v'. decode_loop v (- 8) (k_encode_table ! s1 # k_encode_table ! s2 # k_encode_table ! s3 # k_encode_table ! s4 # s) =
     char_of ((64 * s1 + s2) div 16 mod 256) # char_of ((64 * s2 + s3) div 4 mod 256) #
     char_of ((64 * s3 + s4) mod 256) # decode_loop v' (- 8) s"
proof -
  define v1 v2 v3 v4 :: nat where "v1 = (64 * v + s1) mod 2 ^ 32" and "v2 = (64 * v1 + s2) mod 2 ^ 32"
    and "v3 = (64 * v2 + s3) mod 2 ^ 32" and "v4 = (64 * v3 + s4) mod 2 ^ 32"
  note v = v1_def v2_def v3_def v4_def
  have "decode_loop v (- 8) (k_encode_table ! s1 # k_encode_table ! s2 # k_encode_table ! s3 # k_encode_table ! s4 # s) =
     char_of (v2 div 2 ^ 4 mod 256) # char_of (v3 div 2 ^ 2 mod 256) # char_of (v4 div 2 ^ 0 mod 256) # decode_loop v4 (- 8) s"
    by (simp add: decode_step assms v1_def[symmetric] v2_def[symmetric, simplified] v3_def[symmetric, simplified]
          v4_def[symmetric, simplified] v1_def[symmetric, simplified] del: char_of_nat)
  moreover have "v2 div 2 ^ 4 mod 256 = (64 * s1 + s2) div 2 ^ 4 mod 256"
    unfolding v1_def v2_def by (rule low_twelve) simp
  moreover have "v3 div 2 ^ 2 mod 256 = (64 * s2 + s3) div 2 ^ 2 mod 256"
    unfolding v3_def v2_def by (rule low_twelve) simp
  moreover have "v4 div 2 ^ 0 mod 256 = (64 * s3 + s4) div 2 ^ 0 mod 256"
    unfolding v4_def v3_def by (rule low_twelve) simp
  ultimately show ?thesis by (intro exI[of _ v4]) simp
qed

lemma decode_group_two:
  assumes "s1 < 64" "s2 < 64"
  shows "decode_loop v (- 8) (k_encode_table ! s1 # k_encode_table ! s2 # CHR ''='' # s) =
     [char_of ((64 * s1 + s2) div 16 mod 256)]"
  using low_twelve[of 4 v s1 s2] by (simp add: decode_step decode_pad assms del: char_of_nat)

lemma decode_group_three:
  assumes "s1 < 64" "s2 < 64" "s3 < 64"
  shows "decode_loop v (- 8) (k_encode_table ! s1 # k_encode_table ! s2 # k_encode_table ! s3 # CHR ''='' # s) =
     [char_of ((64 * s1 + s2) div 16 mod 256), char_of ((64 * s2 + s3) div 4 mod 256)]"
  using low_twelve[of 4 v s1 s2] low_twelve[of 2 _ s2 s3] by (simp add: decode_step decode_pad assms del: char_of_nat)

lemma quarter: "y < 4 \<Longrightarrow> (4 * x + y) div 4 = (x :: nat)"
  by simp

lemma split_low: "c = 64 * q + r \<Longrightarrow> 64 * (m * 4 + q) + r = 256 * m + (c :: nat)"
  by simp

lemma split_middle: "b = 16 * q + r \<Longrightarrow> 64 * (m * 16 + q) + r * 4 = 4 * (256 * m + (b :: nat))"
  by simp

lemma byte_parts:
  fixes a b c :: nat
  assumes "a < 256" "b < 256" "c < 256"
  shows "(64 * (a div 4) + ((a mod 4) * 16 + b div 16)) div 16 mod 256 = a"
    "(64 * ((a mod 4) * 16 + b div 16) + ((b mod 16) * 4 + c div 64)) div 4 mod 256 = b"
    "(64 * ((b mod 16) * 4 + c div 64) + c mod 64) mod 256 = c"
    "(64 * ((a mod 4) * 16 + b div 16) + (b mod 16) * 4) div 4 mod 256 = b"
    "(64 * (a div 4) + (a mod 4) * 16) div 16 mod 256 = a"
proof -
  have a: "64 * (a div 4) + (a mod 4) * 16 = 16 * a"
    using div_mult_mod_eq[of a 4] by linarith
  then show "(64 * (a div 4) + (a mod 4) * 16) div 16 mod 256 = a" using assms by simp
  have "64 * (a div 4) + ((a mod 4) * 16 + b div 16) = 16 * a + b div 16" using a by simp
  moreover have "b div 16 < 16" using assms by simp
  ultimately show "(64 * (a div 4) + ((a mod 4) * 16 + b div 16)) div 16 mod 256 = a" using assms by simp
  have b: "64 * ((a mod 4) * 16 + b div 16) + (b mod 16) * 4 = 4 * (256 * (a mod 4) + b)"
    by (rule split_middle) simp
  then show "(64 * ((a mod 4) * 16 + b div 16) + (b mod 16) * 4) div 4 mod 256 = b" using assms by simp
  have e: "64 * ((a mod 4) * 16 + b div 16) + ((b mod 16) * 4 + c div 64) = 4 * (256 * (a mod 4) + b) + c div 64"
    using b by simp
  have "c div 64 < 4" using assms by simp
  then have "(4 * (256 * (a mod 4) + b) + c div 64) div 4 = 256 * (a mod 4) + b"
    by (rule quarter)
  then show "(64 * ((a mod 4) * 16 + b div 16) + ((b mod 16) * 4 + c div 64)) div 4 mod 256 = b"
    unfolding e using assms by simp
  have "64 * ((b mod 16) * 4 + c div 64) + c mod 64 = 256 * (b mod 16) + c"
    by (rule split_low) simp
  then show "(64 * ((b mod 16) * 4 + c div 64) + c mod 64) mod 256 = c" using assms by simp
qed

lemma sextet_less:
  fixes a b c :: nat
  assumes "a < 256" "b < 256" "c < 256"
  shows "a div 4 < 64" "(a mod 4) * 16 + b div 16 < 64" "(b mod 16) * 4 + c div 64 < 64" "c mod 64 < 64"
    "(a mod 4) * 16 < 64" "(b mod 16) * 4 < 64"
proof -
  have "a mod 4 < 4" "b mod 16 < 16" "b div 16 < 16" "c div 64 < 4" using assms by simp_all
  then show "(a mod 4) * 16 + b div 16 < 64" "(b mod 16) * 4 + c div 64 < 64" "(a mod 4) * 16 < 64" "(b mod 16) * 4 < 64"
    by linarith+
qed (use assms in simp_all)

lemma decode_encode_loop: "decode_loop v (- 8) (base64_encode s) = s"
proof (induction s arbitrary: v rule: length_induct)
  case (1 s)
  consider "s = []" | x where "s = [x]" | x y where "s = [x, y]" | x y z r where "s = x # y # z # r"
    by (cases s; cases "tl s"; cases "tl (tl s)") auto
  then show ?case
  proof cases
    case 1
    then show ?thesis by simp
  next
    case (2 x)
    note b = byte_less_256[of x] byte_less_256[of x] byte_less_256[of x]
    show ?thesis
      unfolding 2 base64_one decode_group_two[OF sextet_less(1,5)[OF b]] byte_parts(5)[OF b] by simp
  next
    case (3 x y)
    note b = byte_less_256[of x] byte_less_256[of y] byte_less_256[of x]
    show ?thesis
      unfolding 3 base64_two decode_group_three[OF sextet_less(1,2,6)[OF b]] byte_parts(1,4)[OF b] by simp
  next
    case (4 x y z r)
    note b = byte_less_256[of x] byte_less_256[of y] byte_less_256[of z]
    obtain v' where "decode_loop v (- 8) (base64_encode s) =
        char_of (byte x) # char_of (byte y) # char_of (byte z) # decode_loop v' (- 8) (base64_encode r)"
      using decode_group[OF sextet_less(1-4)[OF b], of v "base64_encode r"]
      unfolding 4 base64_three byte_parts(1-3)[OF b] by blast
    then show ?thesis using 1 4 by simp
  qed
qed

interpretation base64: codec base64_encode base64_decode "\<lambda>s. True"
  by unfold_locales (simp add: base64_decode_def decode_encode_loop)

lemma frame_header_sum:
  assumes "n < 2 ^ 32"
  shows "decode_frame_length (frame_header n) = n"
proof -
  have low8: "m AND 0xFF = take_bit 8 m" for m :: nat
    using take_bit_eq_mask[of 8 m] by (simp add: mask_eq_exp_minus_1)
  have byte8: "byte (char_of (take_bit 8 m)) = take_bit 8 m" for m :: nat
    by (simp add: take_bit_eq_mod)
  have mod8: "take_bit 8 m mod 256 = take_bit 8 m" for m :: nat
    by (simp add: take_bit_eq_mod)
  have "decode_frame_length (frame_header n) = take_bit 8 n OR push_bit 8 (take_bit 8 (drop_bit 8 n)) OR
      push_bit 16 (take_bit 8 (drop_bit 16 n)) OR push_bit 24 (take_bit 8 (drop_bit 24 n))"
    unfolding decode_frame_length_def frame_header_def low8 by (simp only: nth_Cons_0 nth_Cons_numeral byte8) (simp add: mod8 nth_Cons')
  also have "\<dots> = take_bit 32 n"
  proof (rule bit_eqI)
    fix k :: nat
    have "24 + (k - 24) = k \<or> k - 16 < 8" by linarith
    then show "bit (take_bit 8 n OR push_bit 8 (take_bit 8 (drop_bit 8 n)) OR
      push_bit 16 (take_bit 8 (drop_bit 16 n)) OR push_bit 24 (take_bit 8 (drop_bit 24 n))) k =
      bit (take_bit 32 n) k"
      by (auto simp: bit_simps)
  qed
  finally have "decode_frame_length (frame_header n) = take_bit 32 n" .
  then show ?thesis using assms by (simp add: take_bit_nat_eq_self)
qed

interpretation frame_length: codec frame_header decode_frame_length "\<lambda>n. n < 2 ^ 32"
  by unfold_locales (rule frame_header_sum)

section \<open>A frame is read as it was written\<close>

lemma stream_chunk:
  "want \<le> length s \<Longrightarrow> stream_read want s = (True, take want s, drop want s)"
  "want \<le> length s \<Longrightarrow> chunk_after_read want (take want s) = take want s"
  by (simp_all add: stream_read_def chunk_after_read_def)

lemma read_chunks_stream:
  assumes "length payload + length body = n"
  shows "\<exists>cap. read_chunks stream_read n payload capacity (body @ rest) = (completed, payload @ body, cap, rest)"
  using assms
proof (induction "length body" arbitrary: payload capacity body rule: less_induct)
  case less
  show ?case
  proof (cases "body = []")
    case True
    then show ?thesis using less.prems by (subst read_chunks.simps) simp
  next
    case False
    define want where "want = (if n - length payload < frame_read_chunk_bytes then n - length payload else frame_read_chunk_bytes)"
    have want: "0 < want" "want \<le> length body"
      using False less.prems by (auto simp: want_def frame_read_chunk_bytes_def)
    have chunk: "stream_read want (body @ rest) = (True, take want body, drop want body @ rest)"
      "chunk_after_read want (take want body) = take want body"
      using want by (simp_all add: stream_read_def chunk_after_read_def)
    have IH: "\<exists>cap. read_chunks stream_read n (payload @ take want body) capacity' (drop want body @ rest) =
        (completed, (payload @ take want body) @ drop want body, cap, rest)" for capacity'
      by (rule less.hyps) (use want less.prems in auto)
    have "length body \<noteq> 0" using False by simp
    then have "\<not> n \<le> length payload" using less.prems by linarith
    then show ?thesis
      using False less.prems IH
      by (subst read_chunks.simps) (simp add: want_def[symmetric] chunk Let_def)
  qed
qed

text \<open>
  What is committed while a frame arrives: never more than the frame, and never more than twice
  what has arrived plus two chunks.
\<close>

lemma grow_bounds:
  assumes "filled + want \<le> n" "capacity \<le> n" "capacity \<le> 2 * (filled + want)"
  shows "grow_frame_buffer capacity filled want n \<le> n \<and>
         grow_frame_buffer capacity filled want n \<le> 2 * (filled + want) \<and>
         filled + want \<le> grow_frame_buffer capacity filled want n"
  using assms by (auto simp: grow_frame_buffer_def Let_def max_def)

lemma read_chunks_capacity:
  assumes "read_chunks rc n payload capacity s = (outcome, out, cap, s')"
    and "length payload \<le> n" "capacity \<le> n" "capacity \<le> 2 * length payload"
  shows "cap \<le> n \<and> cap \<le> 2 * length out \<and> length out \<le> n \<and> (outcome = completed \<longrightarrow> length out = n) \<and> outcome \<noteq> rejected"
  using assms
proof (induction rc n payload capacity s rule: read_chunks.induct)
  case (1 rc n payload capacity s)
  show ?case
  proof (cases "length payload \<ge> n")
    case True
    then show ?thesis using 1(2-) by (subst (asm) read_chunks.simps) auto
  next
    case False
    define want where "want = (if n - length payload < frame_read_chunk_bytes then n - length payload else frame_read_chunk_bytes)"
    obtain got written t where rd: "rc want s = (got, written, t)" by (cases "rc want s") auto
    let ?p = "payload @ chunk_after_read want written" and ?c = "grow_frame_buffer capacity (length payload) want n"
    have w: "length payload + want \<le> n" "length ?p = length payload + want"
      using False by (auto simp: want_def chunk_after_read_def)
    have c: "?c \<le> n" "?c \<le> 2 * length ?p"
      using grow_bounds[OF w(1) 1(4)] 1(5) w(2) by auto
    have step: "read_chunks rc n payload capacity s =
        (if \<not> got then (read_failed, ?p, ?c, t) else read_chunks rc n ?p ?c t)"
      using False by (subst read_chunks.simps) (simp add: want_def[symmetric] rd Let_def)
    show ?thesis
    proof (cases got)
      case True
      then show ?thesis
        using 1(1)[OF False refl want_def refl rd[symmetric] refl refl] 1(2) c w unfolding step by simp
    next
      case False
      then show ?thesis using 1(2) c w unfolding step by auto
    qed
  qed
qed

text \<open>
  A reader whose transport fails is left with the whole chunk it had made room for, zero bytes
  included: the payload of a failed read is not what had arrived.
\<close>

theorem failed_read_is_padded:
  "read_chunks stream_read maximum_frame_bytes [] 0 [] =
     (read_failed, replicate frame_read_chunk_bytes (char_of (0 :: nat)), frame_read_chunk_bytes, [])"
  by (simp add: read_chunks.simps[of stream_read _ "[]"] maximum_frame_bytes_def frame_read_chunk_bytes_def
      stream_read_def chunk_after_read_def grow_frame_buffer_def Let_def)

section \<open>Properties\<close>

text \<open>
  Whatever bytes are encoded come back from their base64, although the decoder carries its
  accumulator in a 32-bit integer that overflows on every long input.
\<close>

theorem base64_round_trip:
  "base64_decode (base64_encode s) = s"
  using base64.round_trip by simp

text \<open>
  (C40) A frame is read as it was written: for a message whose text is not empty and within the
  limit, the header of its frame decodes to the length of the text, and reading that many bytes
  from a transport that holds the rest of the frame, followed by anything, completes with the
  text and leaves what followed.
\<close>

theorem frame_round_trip:
  assumes "dump message \<noteq> []" and "length (dump message) \<le> maximum_frame_bytes"
  shows "\<exists>cap. let frame = frame_message dump message; n = decode_frame_length (take 4 frame)
         in n = length (dump message) \<and>
            read_frame_payload stream_read n maximum_frame_bytes (drop 4 frame @ rest) =
              (completed, dump message, cap, rest)"
proof -
  let ?t = "dump message"
  have small: "length ?t < 2 ^ 32" using assms(2) by (simp add: maximum_frame_bytes_def)
  then have frame: "frame_message dump message = frame_header (length ?t) @ ?t"
    by (simp add: frame_message_def Let_def)
  have four: "length (frame_header (length ?t)) = 4" by (simp add: frame_header_def)
  have n: "decode_frame_length (take 4 (frame_message dump message)) = length ?t"
    using frame four frame_length.round_trip[OF small] by simp
  obtain cap where "read_chunks stream_read (length ?t) [] 0 (?t @ rest) = (completed, [] @ ?t, cap, rest)"
    using read_chunks_stream[of "[]" ?t "length ?t" 0 rest] by auto
  then show ?thesis
    using assms n frame four by (intro exI[of _ cap]) (simp add: read_frame_payload_def)
qed

theorem frame_round_trip_witness:
  "\<exists>cap. let frame = frame_message (\<lambda>v. ''{}'') JNull; n = decode_frame_length (take 4 frame)
   in n = 2 \<and> read_frame_payload stream_read n maximum_frame_bytes (drop 4 frame @ ''x'') = (completed, ''{}'', cap, ''x'')"
  using frame_round_trip[of "\<lambda>v. ''{}''" JNull "''x''"] by (simp add: maximum_frame_bytes_def numeral_2_eq_2)

text \<open>
  A claimed length costs what arrives, not what it claims: whatever the transport does, the
  reader ends with a buffer of at most the claimed length and of at most twice what it has
  room for in its payload, it rejects only a length of zero or past the maximum, and it completes
  only with exactly the claimed number of bytes.
\<close>

theorem frame_commitment_is_bounded:
  assumes "read_frame_payload read_chunk n maximum s = (outcome, payload, capacity, s')"
  shows "capacity \<le> n \<and> capacity \<le> 2 * length payload \<and>
         (outcome = rejected \<longleftrightarrow> n = 0 \<or> n > maximum) \<and> (outcome = completed \<longrightarrow> length payload = n)"
proof (cases "n = 0 \<or> n > maximum")
  case True
  then show ?thesis using assms by (auto simp: read_frame_payload_def)
next
  case False
  then show ?thesis
    using assms read_chunks_capacity[of read_chunk n "[]" 0 s] by (auto simp: read_frame_payload_def)
qed

text \<open>A claim of the largest frame followed by silence costs one chunk.\<close>

theorem frame_commitment_is_bounded_witness:
  "\<exists>payload cap. read_frame_payload stream_read maximum_frame_bytes maximum_frame_bytes [] = (read_failed, payload, cap, [])
      \<and> length payload = frame_read_chunk_bytes \<and> cap \<le> 2 * frame_read_chunk_bytes"
proof -
  obtain payload cap where r: "read_frame_payload stream_read maximum_frame_bytes maximum_frame_bytes [] = (read_failed, payload, cap, [])"
    "length payload = frame_read_chunk_bytes"
    by (simp add: read_frame_payload_def maximum_frame_bytes_def frame_read_chunk_bytes_def
        read_chunks.simps[of stream_read _ "[]"] stream_read_def chunk_after_read_def Let_def)
  then show ?thesis using frame_commitment_is_bounded[OF r(1)] by auto
qed

lemma in_csi_rest: "x \<in> set (drop 1 (dropWhile (\<lambda>x. \<not> is_csi_end x) t)) \<Longrightarrow> x \<in> set t"
  by (meson in_set_dropD set_dropWhileD)

lemma escape_set_iff: "x \<in> set (without_terminal_escapes s) \<Longrightarrow> x \<in> set s \<and> x \<noteq> CHR 0x0D \<and> x \<noteq> CHR 0x1B"
proof (induction s rule: without_terminal_escapes.induct)
  case (2 c s)
  consider "c = CHR 0x0D" | "c \<noteq> CHR 0x0D" "c \<noteq> CHR 0x1B" | "c = CHR 0x1B" "s = []"
    | d t where "c = CHR 0x1B" "s = d # t" "d = CHR ''[''" | d t where "c = CHR 0x1B" "s = d # t" "d \<noteq> CHR ''[''"
    by (cases s) auto
  then show ?case
  proof cases
    case (4 d t)
    have "x \<in> set (without_terminal_escapes (drop 1 (dropWhile (\<lambda>x. \<not> is_csi_end x) t)))"
      using 2(5) 4 by simp
    then have "x \<in> set (drop 1 (dropWhile (\<lambda>x. \<not> is_csi_end x) t)) \<and> x \<noteq> CHR 0x0D \<and> x \<noteq> CHR 0x1B"
      using 2(3)[of d t] 4 by simp
    then show ?thesis using in_csi_rest[of x t] 4 by (metis list.set_intros(2))
  next
    case 1
    then show ?thesis using 2(1,5) by simp
  next
    case plain: 2
    have "x = c \<or> x \<in> set (without_terminal_escapes s)" using 2(5) plain by simp
    then show ?thesis using 2(2)[OF plain] plain by (elim disjE) simp_all
  next
    case 3
    then show ?thesis using 2(5) by simp
  next
    case (5 d t)
    then show ?thesis using 2(4)[of d t] 2(5) by simp
  qed
qed simp

lemma escape_id: "CHR 0x0D \<notin> set s \<Longrightarrow> CHR 0x1B \<notin> set s \<Longrightarrow> without_terminal_escapes s = s"
  by (induction s) auto

text \<open>
  Text handed to a reader cannot drive a terminal: whatever the engine printed, the result holds
  no carriage return and no escape byte, nothing is added to it, and a text without either is
  left as it is.
\<close>

theorem terminal_text_is_inert:
  "CHR 0x0D \<notin> set (without_terminal_escapes s) \<and> CHR 0x1B \<notin> set (without_terminal_escapes s) \<and>
   set (without_terminal_escapes s) \<subseteq> set s \<and>
   (without_terminal_escapes s = s \<longleftrightarrow> CHR 0x0D \<notin> set s \<and> CHR 0x1B \<notin> set s)"
  using escape_set_iff[of _ s] escape_id[of s] by (metis subsetI)

end
