(* ===== verification/Utf8.thy ===== *)
theory Utf8
  imports Didi_Prelude
begin

unbundle bit_operations_syntax

text \<open>
  The UTF-8 routines. Six places of the code read UTF-8 by themselves:
  \<open>paths::isDecodableUtf8\<close> and \<open>paths::lossyUtf8\<close> (\<open>include/didi/common/project_path.hpp\<close>),
  \<open>isValidUtf8\<close> (\<open>src/runtime/expression_policy.cpp\<close>), \<open>decodeUtf8TheWayGodotDoes\<close>
  (\<open>src/common/config_file_syntax.cpp\<close>), \<open>truncateUtf8\<close> (\<open>src/gdextension/runtime_log.cpp\<close>) and
  \<open>boundUtf8\<close> (\<open>src/gdextension/runtime_bridge.cpp\<close>). Each is modelled with its own tests on its own
  bytes: what it takes for the length of the sequence at the front of a text, 0 when there is
  none, is its \<open>unit\<close>. The abstract specification is the encoding itself: \<open>encode\<close> of a Unicode
  scalar value. The locale \<open>utf8_scanner\<close> states what a unit has to satisfy, each routine's unit
  is an interpretation of it, and so the routines agree.
\<close>

section \<open>Bits of a byte\<close>

lemma and_high_bits: "(n :: nat) AND push_bit k (mask m) = 2 ^ k * (n div 2 ^ k mod 2 ^ m)"
proof -
  have "n AND push_bit k (mask m) = push_bit k (take_bit m (drop_bit k n))"
    by (rule bit_eqI) (auto simp: bit_simps)
  then show ?thesis
    by (simp add: push_bit_eq_mult drop_bit_eq_div take_bit_eq_mod mult.commute)
qed

lemma high_bits_eq:
  assumes "(n :: nat) < d * e" "0 < d"
  shows "d * (n div d mod e) = d * q \<longleftrightarrow> d * q \<le> n \<and> n < d * Suc q"
proof -
  have "n div d < e" using assms by (simp add: less_mult_imp_div_less mult.commute)
  then have "d * (n div d mod e) = d * q \<longleftrightarrow> n div d = q" using assms(2) by simp
  also have "\<dots> \<longleftrightarrow> d * q \<le> n \<and> n < d * Suc q"
    using assms(2) by (metis div_nat_eqI dividend_less_times_div times_div_less_eq_dividend mult_Suc_right add.commute)
  finally show ?thesis .
qed

lemma byte_masks [byte_simps]:
  "byte c AND 0x80 = 0 \<longleftrightarrow> byte c < 128"
  "byte c AND 0xE0 = 0xC0 \<longleftrightarrow> 192 \<le> byte c \<and> byte c < 224"
  "byte c AND 0xF0 = 0xE0 \<longleftrightarrow> 224 \<le> byte c \<and> byte c < 240"
  "byte c AND 0xF8 = 0xF0 \<longleftrightarrow> 240 \<le> byte c \<and> byte c < 248"
  "byte c AND 0xC0 = 0x80 \<longleftrightarrow> 128 \<le> byte c \<and> byte c < 192"
proof -
  have b: "byte c < 256" by simp
  have m: "mask 1 = (1 :: nat)" "mask 3 = (7 :: nat)" "mask 4 = (15 :: nat)" "mask 5 = (31 :: nat)" "mask 2 = (3 :: nat)"
    by (simp_all add: mask_eq_exp_minus_1)
  show "byte c AND 0x80 = 0 \<longleftrightarrow> byte c < 128"
    using and_high_bits[of "byte c" 7 1] high_bits_eq[of "byte c" 128 2 0] b by (simp add: m push_bit_eq_mult)
  show "byte c AND 0xE0 = 0xC0 \<longleftrightarrow> 192 \<le> byte c \<and> byte c < 224"
    using and_high_bits[of "byte c" 5 3] high_bits_eq[of "byte c" 32 8 6] b by (simp add: m push_bit_eq_mult)
  show "byte c AND 0xF0 = 0xE0 \<longleftrightarrow> 224 \<le> byte c \<and> byte c < 240"
    using and_high_bits[of "byte c" 4 4] high_bits_eq[of "byte c" 16 16 14] b by (simp add: m push_bit_eq_mult)
  show "byte c AND 0xF8 = 0xF0 \<longleftrightarrow> 240 \<le> byte c \<and> byte c < 248"
    using and_high_bits[of "byte c" 3 5] high_bits_eq[of "byte c" 8 32 30] b by (simp add: m push_bit_eq_mult)
  show "byte c AND 0xC0 = 0x80 \<longleftrightarrow> 128 \<le> byte c \<and> byte c < 192"
    using and_high_bits[of "byte c" 6 2] high_bits_eq[of "byte c" 64 4 2] b by (simp add: m push_bit_eq_mult)
qed

lemma low_bits [byte_simps]:
  "(n :: nat) AND 0x3F = n mod 64" "n AND 0x1F = n mod 32" "n AND 0x0F = n mod 16" "n AND 0x07 = n mod 8"
  using take_bit_eq_mask[of 6 n] take_bit_eq_mask[of 5 n] take_bit_eq_mask[of 4 n] take_bit_eq_mask[of 3 n]
  by (simp_all add: take_bit_eq_mod mask_eq_exp_minus_1)

lemma append_six [byte_simps]: "push_bit 6 (n :: nat) OR (k mod 64) = 64 * n + k mod 64"
proof -
  have "push_bit 6 n AND k mod 64 = 0"
    by (simp flip: take_bit_eq_mod[where n = 6, simplified]) (auto simp: bit_eq_iff bit_simps)
  then show ?thesis
    using disjunctive_add_eq_or[of "push_bit 6 n" "k mod 64"] by (simp add: push_bit_eq_mult mult.commute)
qed

section \<open>Scanning\<close>

text \<open>
  The three loops over a unit: accept a text that is nothing but units, replace what is not a
  unit byte by byte, and do so within a bound on the bytes of the result.
\<close>

function accepts :: "(string \<Rightarrow> nat) \<Rightarrow> string \<Rightarrow> bool" where
  "accepts u s =
     (if s = [] then True
      else if u s = 0 then False
      else accepts u (drop (u s) s))"
  by auto
termination by (relation "measure (\<lambda>(u, s). length s)") auto

function repair :: "(string \<Rightarrow> nat) \<Rightarrow> string \<Rightarrow> string \<Rightarrow> string" where
  "repair u rep s =
     (if s = [] then []
      else if u s = 0 then rep @ repair u rep (tl s)
      else take (u s) s @ repair u rep (drop (u s) s))"
  by auto
termination by (relation "measure (\<lambda>(u, rep, s). length s)") auto

function clip :: "(string \<Rightarrow> nat) \<Rightarrow> nat \<Rightarrow> nat \<Rightarrow> string \<Rightarrow> string" where
  "clip u bound used s =
     (if s = [] then []
      else if u s = 0 then
        (if used + 1 > bound then [] else CHR ''?'' # clip u bound (used + 1) (tl s))
      else if used + u s > bound then []
      else take (u s) s @ clip u bound (used + u s) (drop (u s) s))"
  by auto
termination by (relation "measure (\<lambda>(u, bound, used, s). length s)") auto

text \<open>Whether the bounded loop met anything it could not copy.\<close>

function clip_cut :: "(string \<Rightarrow> nat) \<Rightarrow> nat \<Rightarrow> nat \<Rightarrow> string \<Rightarrow> bool" where
  "clip_cut u bound used s =
     (if s = [] then False
      else if u s = 0 then True
      else if used + u s > bound then True
      else clip_cut u bound (used + u s) (drop (u s) s))"
  by auto
termination by (relation "measure (\<lambda>(u, bound, used, s). length s)") auto

declare accepts.simps [simp del] repair.simps [simp del] clip.simps [simp del] clip_cut.simps [simp del]

section \<open>The units of the routines\<close>

text \<open>Continuation bytes, six bits each, on top of the bits of the lead.\<close>

fun read_tail :: "nat \<Rightarrow> nat \<Rightarrow> string \<Rightarrow> nat option" where
  "read_tail code 0 s = Some code"
| "read_tail code (Suc n) [] = None"
| "read_tail code (Suc n) (c # s) =
     (if byte c AND 0xC0 \<noteq> 0x80 then None
      else read_tail (push_bit 6 code OR (byte c AND 0x3F)) n s)"

text \<open>\<open>isDecodableUtf8\<close>.\<close>

definition path_unit :: "string \<Rightarrow> nat" where
  "path_unit s =
     (case s of
        [] \<Rightarrow> 0
      | c # cs \<Rightarrow>
          let lead = byte c;
              decode = (\<lambda>len code.
                if length s < len then 0
                else case read_tail code (len - 1) cs of
                       None \<Rightarrow> 0
                     | Some cp \<Rightarrow>
                         if (len = 2 \<and> cp < 0x80) \<or> (len = 3 \<and> cp < 0x800) \<or> (len = 4 \<and> cp < 0x10000) \<or>
                            cp > 0x10FFFF \<or> (cp \<ge> 0xD800 \<and> cp \<le> 0xDFFF)
                         then 0 else len)
          in if lead < 0x80 then 1
             else if lead AND 0xE0 = 0xC0 then decode 2 (lead AND 0x1F)
             else if lead AND 0xF0 = 0xE0 then decode 3 (lead AND 0x0F)
             else if lead AND 0xF8 = 0xF0 then decode 4 (lead AND 0x07)
             else 0)"

definition is_decodable_utf8 :: "string \<Rightarrow> bool" where
  "is_decodable_utf8 s = accepts path_unit s"

text \<open>\<open>lossyUtf8\<close> asks \<open>isDecodableUtf8\<close> of the piece its lead byte announces.\<close>

definition lossy_unit :: "string \<Rightarrow> nat" where
  "lossy_unit s =
     (case s of
        [] \<Rightarrow> 0
      | c # cs \<Rightarrow>
          let lead = byte c;
              len = (if lead \<ge> 0x80 then
                       (if lead AND 0xE0 = 0xC0 then 2
                        else if lead AND 0xF0 = 0xE0 then 3
                        else if lead AND 0xF8 = 0xF0 then 4 else 0)
                     else 1)
          in if len \<noteq> 0 \<and> len \<le> length s \<and> is_decodable_utf8 (take len s) then len else 0)"

definition replacement :: string where
  "replacement = [CHR 0xEF, CHR 0xBF, CHR 0xBD]"

definition lossy_utf8 :: "string \<Rightarrow> string" where
  "lossy_utf8 s = repair lossy_unit replacement s"

definition code_point_count :: "string \<Rightarrow> nat" where
  "code_point_count s = length (filter (\<lambda>c. byte c AND 0xC0 \<noteq> 0x80) s)"

text \<open>\<open>isValidUtf8\<close> of the expression policy reads ranges of bytes, not bits.\<close>

definition is_continuation :: "nat \<Rightarrow> bool" where
  "is_continuation b = (b AND 0xC0 = 0x80)"

definition policy_unit :: "string \<Rightarrow> nat" where
  "policy_unit s =
     (case s of
        [] \<Rightarrow> 0
      | c # cs \<Rightarrow>
          let first = byte c; at = (\<lambda>i. byte (s ! i))
          in if first \<le> 0x7F then 1
             else if first \<ge> 0xC2 \<and> first \<le> 0xDF then
               (if 1 \<ge> length s \<or> \<not> is_continuation (at 1) then 0 else 2)
             else if first \<ge> 0xE0 \<and> first \<le> 0xEF then
               (if 2 \<ge> length s then 0
                else if \<not> is_continuation (at 1) \<or> \<not> is_continuation (at 2) \<or>
                        (first = 0xE0 \<and> at 1 < 0xA0) \<or> (first = 0xED \<and> at 1 \<ge> 0xA0) then 0
                else 3)
             else if first \<ge> 0xF0 \<and> first \<le> 0xF4 then
               (if 3 \<ge> length s then 0
                else if \<not> is_continuation (at 1) \<or> \<not> is_continuation (at 2) \<or> \<not> is_continuation (at 3) \<or>
                        (first = 0xF0 \<and> at 1 < 0x90) \<or> (first = 0xF4 \<and> at 1 \<ge> 0x90) then 0
                else 4)
             else 0)"

definition is_valid_utf8 :: "string \<Rightarrow> bool" where
  "is_valid_utf8 s = accepts policy_unit s"

text \<open>\<open>decodeUtf8TheWayGodotDoes\<close> keeps its smallest code points in a table.\<close>

definition config_unit :: "string \<Rightarrow> nat" where
  "config_unit s =
     (case s of
        [] \<Rightarrow> 0
      | c # cs \<Rightarrow>
          let lead = byte c;
              (len, code) =
                (if lead AND 0xE0 = 0xC0 then (2, lead AND 0x1F)
                 else if lead AND 0xF0 = 0xE0 then (3, lead AND 0x0F)
                 else if lead AND 0xF8 = 0xF0 then (4, lead AND 0x07)
                 else (0, 0))
          in if lead < 0x80 then 1
             else if len = 0 \<or> len > length s then 0
             else case read_tail code (len - 1) cs of
                    None \<Rightarrow> 0
                  | Some cp \<Rightarrow>
                      if cp \<ge> [0, 0, 0x80, 0x800, 0x10000] ! len \<and> cp \<le> 0x10FFFF \<and>
                         \<not> (cp \<ge> 0xD800 \<and> cp \<le> 0xDFFF)
                      then len else 0)"

definition decode_utf8_the_way_godot_does :: "string \<Rightarrow> string" where
  "decode_utf8_the_way_godot_does bytes =
     repair config_unit replacement
       (if starts_with bytes [CHR 0xEF, CHR 0xBB, CHR 0xBF] then drop 3 bytes else bytes)"

text \<open>\<open>truncateUtf8\<close> of the runtime log and \<open>boundUtf8\<close> of the runtime bridge, the same tests twice.\<close>

definition log_unit :: "string \<Rightarrow> nat" where
  "log_unit s =
     (case s of
        [] \<Rightarrow> 0
      | c # cs \<Rightarrow>
          let first = byte c;
              (width, valid, code) =
                (if first AND 0x80 = 0 then (1, True, first)
                 else if first AND 0xE0 = 0xC0 \<and> first \<ge> 0xC2 then (2, True, first AND 0x1F)
                 else if first AND 0xF0 = 0xE0 then (3, True, first AND 0x0F)
                 else if first AND 0xF8 = 0xF0 \<and> first \<le> 0xF4 then (4, True, first AND 0x07)
                 else (1, False, 0))
          in if \<not> valid \<or> width > length s then 0
             else case read_tail code (width - 1) cs of
                    None \<Rightarrow> 0
                  | Some cp \<Rightarrow>
                      if (width = 1 \<or> (width = 2 \<and> cp \<ge> 0x80) \<or> (width = 3 \<and> cp \<ge> 0x800) \<or>
                          (width = 4 \<and> cp \<ge> 0x10000)) \<and>
                         \<not> (cp \<ge> 0xD800 \<and> cp \<le> 0xDFFF) \<and> cp \<le> 0x10FFFF
                      then width else 0)"

definition truncate_utf8 :: "string \<Rightarrow> nat \<Rightarrow> string" where
  "truncate_utf8 s maximum_bytes = clip log_unit maximum_bytes 0 s"

record bounded_utf8 =
  bu_value :: string
  bu_truncated :: bool

definition bound_utf8 :: "string \<Rightarrow> nat \<Rightarrow> bounded_utf8" where
  "bound_utf8 input maximum_bytes =
     (let v = clip log_unit maximum_bytes 0 input
      in \<lparr>bu_value = v,
          bu_truncated = (clip_cut log_unit maximum_bytes 0 input \<or> length v < length input)\<rparr>)"

section \<open>The encoding\<close>

definition scalar :: "nat \<Rightarrow> bool" where
  "scalar cp = (cp \<le> 0x10FFFF \<and> \<not> (0xD800 \<le> cp \<and> cp \<le> 0xDFFF))"

definition encode :: "nat \<Rightarrow> string" where
  "encode cp = map char_of
     (if cp < 0x80 then [cp]
      else if cp < 0x800 then [0xC0 + cp div 64, 0x80 + cp mod 64]
      else if cp < 0x10000 then [0xE0 + cp div 4096, 0x80 + cp div 64 mod 64, 0x80 + cp mod 64]
      else [0xF0 + cp div 262144, 0x80 + cp div 4096 mod 64, 0x80 + cp div 64 mod 64, 0x80 + cp mod 64])"

definition encode_all :: "nat list \<Rightarrow> string" where
  "encode_all cps = concat (map encode cps)"

lemma encode_nonempty [simp]: "encode cp \<noteq> []"
  by (simp add: encode_def)

lemma encode_question: "encode 63 = ''?''"
proof -
  have "byte (CHR ''?'') = 63" by simp
  then have "char_of (63 :: nat) = CHR ''?''" by (metis char_of_byte)
  then show ?thesis by (simp add: encode_def)
qed

locale utf8_scanner =
  fixes unit :: "string \<Rightarrow> nat"
  assumes unit_sound: "unit s = n \<Longrightarrow> 0 < n \<Longrightarrow> \<exists>cp. scalar cp \<and> n \<le> length s \<and> take n s = encode cp"
    and unit_complete: "scalar cp \<Longrightarrow> unit (encode cp @ s) = length (encode cp)"
begin

lemma unit_iff: "0 < unit s \<longleftrightarrow> (\<exists>cp r. scalar cp \<and> s = encode cp @ r)"
  using unit_sound[of s "unit s"] unit_complete
  by (metis append_take_drop_id encode_nonempty length_greater_0_conv)

lemma unit_le: "unit s \<le> length s"
  using unit_sound[of s "unit s"] by (cases "unit s = 0") auto

lemma text_cases [case_names empty bad good]:
  obtains "s = []" | "s \<noteq> []" "unit s = 0"
  | cp r where "scalar cp" "s = encode cp @ r" "unit s = length (encode cp)"
  using unit_iff[of s] unit_complete by (cases "s = []"; cases "unit s = 0") auto

lemma accepts_empty [simp]: "accepts unit []"
  by (simp add: accepts.simps)

lemma accepts_encode [simp]: "scalar cp \<Longrightarrow> accepts unit (encode cp @ r) = accepts unit r"
  using unit_complete[of cp r] by (subst accepts.simps) simp

lemma accepts_bad: "s \<noteq> [] \<Longrightarrow> unit s = 0 \<Longrightarrow> \<not> accepts unit s"
  by (subst accepts.simps) simp

lemma accepts_encode_all: "\<forall>cp \<in> set cps. scalar cp \<Longrightarrow> accepts unit (encode_all cps @ r) = accepts unit r"
  by (induction cps) (auto simp: encode_all_def)

lemma accepts_decompose: "accepts unit s \<Longrightarrow> \<exists>cps. (\<forall>cp \<in> set cps. scalar cp) \<and> s = encode_all cps"
proof (induction s rule: length_induct)
  case (1 s)
  show ?case
  proof (cases rule: text_cases[of s])
    case empty
    then show ?thesis by (intro exI[of _ "[]"]) (simp add: encode_all_def)
  next
    case bad
    then show ?thesis using 1(2) accepts_bad by blast
  next
    case (good cp r)
    then have "accepts unit r" "length r < length s" using 1(2) by auto
    then obtain cps where "\<forall>cp \<in> set cps. scalar cp" "r = encode_all cps" using 1(1) by blast
    then show ?thesis using good by (intro exI[of _ "cp # cps"]) (simp add: encode_all_def)
  qed
qed

lemma accepts_iff: "accepts unit s \<longleftrightarrow> (\<exists>cps. (\<forall>cp \<in> set cps. scalar cp) \<and> s = encode_all cps)"
  using accepts_decompose accepts_encode_all[of _ "[]"] by auto

lemma accepts_append: "accepts unit s \<Longrightarrow> accepts unit (s @ t) = accepts unit t"
  using accepts_decompose accepts_encode_all by blast

lemma repair_simps:
  "repair unit rep [] = []"
  "scalar cp \<Longrightarrow> repair unit rep (encode cp @ r) = encode cp @ repair unit rep r"
  "s \<noteq> [] \<Longrightarrow> unit s = 0 \<Longrightarrow> repair unit rep s = rep @ repair unit rep (tl s)"
  using unit_complete[of cp r] by (auto simp: repair.simps[of unit rep])

lemma repair_accepted: "accepts unit rep \<Longrightarrow> accepts unit (repair unit rep s)"
proof (induction s rule: length_induct)
  case (1 s)
  show ?case
    by (cases rule: text_cases[of s]) (use 1 accepts_append in \<open>auto simp: repair_simps\<close>)
qed

lemma repair_id: "accepts unit s \<Longrightarrow> repair unit rep s = s"
proof (induction s rule: length_induct)
  case (1 s)
  show ?case
    by (cases rule: text_cases[of s]) (use 1 accepts_bad in \<open>auto simp: repair_simps\<close>)
qed

lemma clip_simps:
  "clip unit b n [] = []"
  "scalar cp \<Longrightarrow> clip unit b n (encode cp @ r) =
     (if n + length (encode cp) > b then [] else encode cp @ clip unit b (n + length (encode cp)) r)"
  "s \<noteq> [] \<Longrightarrow> unit s = 0 \<Longrightarrow> clip unit b n s = (if n + 1 > b then [] else CHR ''?'' # clip unit b (n + 1) (tl s))"
  using unit_complete[of cp r] by (auto simp: clip.simps[of unit b n])

lemma clip_cut_simps:
  "clip_cut unit b n [] = False"
  "scalar cp \<Longrightarrow> clip_cut unit b n (encode cp @ r) =
     (n + length (encode cp) > b \<or> clip_cut unit b (n + length (encode cp)) r)"
  "s \<noteq> [] \<Longrightarrow> unit s = 0 \<Longrightarrow> clip_cut unit b n s = True"
  using unit_complete[of cp r] by (auto simp: clip_cut.simps[of unit b n])

lemma clip_bound: "n \<le> b \<Longrightarrow> n + length (clip unit b n s) \<le> b"
proof (induction s arbitrary: n rule: length_induct)
  case (1 s)
  show ?case
  proof (cases rule: text_cases[of s])
    case bad
    then show ?thesis using 1(1)[rule_format, of "tl s" "n + 1"] 1(2) by (auto simp: clip_simps)
  next
    case (good cp r)
    then show ?thesis using 1(1)[rule_format, of r "n + length (encode cp)"] 1(2) by (auto simp: clip_simps)
  qed (use 1 in \<open>simp add: clip_simps\<close>)
qed

lemma accepts_question: "accepts unit (CHR ''?'' # t) = accepts unit t"
  using accepts_encode[of 63 t] by (simp add: scalar_def encode_question)

lemma unit_question: "unit (CHR ''?'' # t) = 1"
  using unit_complete[of 63 t] by (simp add: scalar_def encode_question)

lemma clip_cut_True: "clip_cut unit b n s \<Longrightarrow> clip unit b n s \<noteq> s"
proof (induction s arbitrary: n rule: length_induct)
  case (1 s)
  show ?case
  proof (cases rule: text_cases[of s])
    case bad
    then have "s \<noteq> CHR ''?'' # tl s" using unit_question[of "tl s"] by auto
    moreover have "clip unit b (n + 1) (tl s) = tl s \<or> clip unit b (n + 1) (tl s) \<noteq> tl s" by simp
    ultimately show ?thesis using bad by (cases s) (auto simp: clip_simps)
  next
    case (good cp r)
    then show ?thesis using 1(1)[rule_format, of r "n + length (encode cp)"] 1(2)
      by (auto simp: clip_simps clip_cut_simps)
  qed (use 1 in \<open>simp add: clip_cut_simps\<close>)
qed

lemma clip_accepted: "accepts unit (clip unit b n s)"
proof (induction s arbitrary: n rule: length_induct)
  case (1 s)
  show ?case
    by (cases rule: text_cases[of s]) (use 1 in \<open>auto simp: clip_simps accepts_question\<close>)
qed

lemma clip_id: "accepts unit s \<Longrightarrow> n + length s \<le> b \<Longrightarrow> clip unit b n s = s"
proof (induction s arbitrary: n rule: length_induct)
  case (1 s)
  show ?case
    by (cases rule: text_cases[of s]) (use 1 accepts_bad in \<open>auto simp: clip_simps\<close>)
qed

lemma clip_cut_False: "\<not> clip_cut unit b n s \<Longrightarrow> accepts unit s \<and> clip unit b n s = s"
proof (induction s arbitrary: n rule: length_induct)
  case (1 s)
  show ?case
    by (cases rule: text_cases[of s]) (use 1 in \<open>auto simp: clip_simps clip_cut_simps\<close>)
qed

lemma clip_length_le: "length (clip unit b n s) \<le> length s"
proof (induction s arbitrary: n rule: length_induct)
  case (1 s)
  show ?case
  proof (cases rule: text_cases[of s])
    case bad
    then show ?thesis using 1[rule_format, of "tl s" "n + 1"] by (cases s) (auto simp: clip_simps)
  qed (use 1 in \<open>auto simp: clip_simps\<close>)
qed

text \<open>What is kept of a text that is not one is a common prefix of it and of its repair.\<close>

lemma clip_prefix_of_repair: "\<exists>rest. repair unit ''?'' s = clip unit b n s @ rest"
proof (induction s arbitrary: n rule: length_induct)
  case (1 s)
  show ?case
  proof (cases rule: text_cases[of s])
    case bad
    then show ?thesis using 1[rule_format, of "tl s" "n + 1"] by (auto simp: clip_simps repair_simps)
  next
    case (good cp r)
    then show ?thesis using 1[rule_format, of r "n + length (encode cp)"] by (auto simp: clip_simps repair_simps)
  qed (simp add: clip_simps repair_simps)
qed

end

text \<open>The contract fixes the unit, so any two scanners of it are the same function.\<close>

lemma scanners_agree:
  assumes "utf8_scanner u" "utf8_scanner v"
  shows "u = v"
proof
  fix s
  show "u s = v s"
  proof (cases "\<exists>cp r. scalar cp \<and> s = encode cp @ r")
    case True
    then show ?thesis
      using utf8_scanner.unit_complete[OF assms(1)] utf8_scanner.unit_complete[OF assms(2)] by auto
  next
    case False
    then show ?thesis
      using utf8_scanner.unit_iff[OF assms(1), of s] utf8_scanner.unit_iff[OF assms(2), of s] by auto
  qed
qed

section \<open>Every routine's unit meets the contract\<close>

lemma is_continuation_byte [byte_simps]: "is_continuation (byte c) \<longleftrightarrow> 128 \<le> byte c \<and> byte c < 192"
  by (simp add: is_continuation_def byte_masks)

lemma is_continuation_small: "n < 256 \<Longrightarrow> is_continuation n \<longleftrightarrow> 128 \<le> n \<and> n < 192"
  using is_continuation_byte[of "char_of n"] by simp

lemma char_of_byte_shift: "k + (byte c - k) < 256 \<Longrightarrow> k \<le> byte c \<Longrightarrow> char_of (k + (byte c - k)) = c"
  by simp

lemma policy_sound:
  assumes "policy_unit s = n" "0 < n"
  shows "\<exists>cp. scalar cp \<and> n \<le> length s \<and> take n s = encode cp"
proof -
  obtain c cs where s: "s = c # cs"
    using assms by (cases s) (auto simp: policy_unit_def)
  consider (one) "byte c \<le> 127" "n = 1"
    | (two) d r where "cs = d # r" "194 \<le> byte c" "byte c \<le> 223" "128 \<le> byte d" "byte d < 192" "n = 2"
    | (three) d e r where "cs = d # e # r" "224 \<le> byte c" "byte c \<le> 239" "128 \<le> byte d" "byte d < 192"
        "128 \<le> byte e" "byte e < 192" "byte c = 224 \<longrightarrow> 160 \<le> byte d" "byte c = 237 \<longrightarrow> byte d < 160" "n = 3"
    | (four) d e f r where "cs = d # e # f # r" "240 \<le> byte c" "byte c \<le> 244" "128 \<le> byte d" "byte d < 192"
        "128 \<le> byte e" "byte e < 192" "128 \<le> byte f" "byte f < 192"
        "byte c = 240 \<longrightarrow> 144 \<le> byte d" "byte c = 244 \<longrightarrow> byte d < 144" "n = 4"
    using assms unfolding s policy_unit_def
    by (cases cs; cases "tl cs"; cases "tl (tl cs)")
       (auto simp: is_continuation_byte Let_def not_le not_less split: if_splits)
  then show ?thesis
  proof cases
    case one
    then have "scalar (byte c)" "encode (byte c) = [c]" by (auto simp: scalar_def encode_def)
    then show ?thesis using one s by (intro exI[of _ "byte c"]) simp
  next
    case two
    define a b where "a = byte c - 192" and "b = byte d - 128"
    then have ab: "b < 64" "2 \<le> a" "a < 32" "byte c = 192 + a" "byte d = 128 + b" using two by auto
    let ?cp = "64 * a + b"
    have r: "128 \<le> ?cp" "?cp < 2048" using ab by linarith+
    then have "encode ?cp = [c, d]"
      using ab digits2[of b a] by (simp add: encode_def flip: ab(4,5))
    then show ?thesis using two s r by (intro exI[of _ ?cp]) (simp add: scalar_def)
  next
    case three
    define a b x where "a = byte c - 224" and "b = byte d - 128" and "x = byte e - 128"
    then have ab: "b < 64" "x < 64" "a < 16" "byte c = 224 + a" "byte d = 128 + b" "byte e = 128 + x" using three by auto
    let ?cp = "4096 * a + 64 * b + x"
    have lo: "2048 \<le> ?cp"
    proof (cases "a = 0")
      case True then show ?thesis using three ab by simp
    qed linarith
    have hi: "?cp < 65536" using ab by linarith
    have mid: "\<not> (55296 \<le> ?cp \<and> ?cp \<le> 57343)"
    proof (cases "a = 13")
      case True then show ?thesis using three ab by auto
    next
      case False
      then consider "a \<le> 12" | "14 \<le> a" by linarith
      then show ?thesis using ab by cases linarith+
    qed
    have "encode ?cp = [c, d, e]"
      using ab lo hi digits3[of b x a] by (simp add: encode_def flip: ab(4,5,6))
    then show ?thesis using three s lo hi mid by (intro exI[of _ ?cp]) (simp add: scalar_def)
  next
    case four
    define a b x y where "a = byte c - 240" and "b = byte d - 128" and "x = byte e - 128" and "y = byte f - 128"
    then have ab: "b < 64" "x < 64" "y < 64" "a \<le> 4" "byte c = 240 + a" "byte d = 128 + b" "byte e = 128 + x"
      "byte f = 128 + y" using four by auto
    let ?cp = "262144 * a + 4096 * b + 64 * x + y"
    have lo: "65536 \<le> ?cp"
    proof (cases "a = 0")
      case True then show ?thesis using four ab by simp
    qed linarith
    have hi: "?cp \<le> 1114111"
    proof (cases "a = 4")
      case True then show ?thesis using four ab by simp
    next
      case False
      then have "a \<le> 3" using ab by linarith
      then show ?thesis using ab by linarith
    qed
    have "encode ?cp = [c, d, e, f]"
      using ab lo digits4[of b x y a] by (simp add: encode_def flip: ab(5,6,7,8))
    then show ?thesis using four s lo hi by (intro exI[of _ ?cp]) (simp add: scalar_def)
  qed
qed

lemma byte_small: "byte (char_of n) = n mod 256"
  by simp

lemma digits_of:
  "(n :: nat) = 4096 * (n div 4096) + 64 * (n div 64 mod 64) + n mod 64"
  "(n :: nat) = 262144 * (n div 262144) + 4096 * (n div 4096 mod 64) + 64 * (n div 64 mod 64) + n mod 64"
proof -
  have a: "n = 64 * (n div 64) + n mod 64" "n div 64 = 64 * (n div 64 div 64) + n div 64 mod 64"
    "n div 64 div 64 = 64 * (n div 64 div 64 div 64) + n div 64 div 64 mod 64"
    by simp_all
  have b: "n div 64 div 64 = n div 4096" "n div 4096 div 64 = n div 262144" by (simp_all flip: div_mult2_eq)
  show "n = 4096 * (n div 4096) + 64 * (n div 64 mod 64) + n mod 64"
    using a(1,2) unfolding b by linarith
  show "n = 262144 * (n div 262144) + 4096 * (n div 4096 mod 64) + 64 * (n div 64 mod 64) + n mod 64"
    using a unfolding b by linarith
qed

lemma policy_complete:
  assumes "scalar cp"
  shows "policy_unit (encode cp @ s) = length (encode cp)"
proof -
  consider "cp < 0x80" | "0x80 \<le> cp" "cp < 0x800" | "0x800 \<le> cp" "cp < 0x10000" | "0x10000 \<le> cp" "cp \<le> 0x10FFFF"
    using assms unfolding scalar_def by linarith
  then show ?thesis
  proof cases
    case 1
    then show ?thesis by (simp add: encode_def policy_unit_def)
  next
    case 2
    define a b where "a = cp div 64" and "b = cp mod 64"
    then have "cp = 64 * a + b" "b < 64" by simp_all
    then have "2 \<le> a" "a < 32" using 2 by linarith+
    then show ?thesis
      using 2 \<open>b < 64\<close> unfolding encode_def policy_unit_def a_def[symmetric] b_def[symmetric]
      by (simp add: is_continuation_small Let_def)
  next
    case 3
    define a b c where "a = cp div 4096" and "b = cp div 64 mod 64" and "c = cp mod 64"
    have cp: "cp = 4096 * a + 64 * b + c" "b < 64" "c < 64"
      using digits_of(1)[of cp] by (simp_all add: a_def b_def c_def)
    have a: "a < 16" using 3 cp by linarith
    have b: "a = 0 \<Longrightarrow> 32 \<le> b" "a = 13 \<Longrightarrow> b < 32"
      using 3 cp assms by (auto simp: scalar_def)
    show ?thesis
      using 3 cp(2,3) a b unfolding encode_def policy_unit_def a_def[symmetric] b_def[symmetric] c_def[symmetric]
      by (auto simp: is_continuation_small Let_def)
  next
    case 4
    define a b c d where "a = cp div 262144" and "b = cp div 4096 mod 64" and "c = cp div 64 mod 64" and "d = cp mod 64"
    have cp: "cp = 262144 * a + 4096 * b + 64 * c + d" "b < 64" "c < 64" "d < 64"
      using digits_of(2)[of cp] by (simp_all add: a_def b_def c_def d_def)
    have a: "a \<le> 4" using 4 cp by linarith
    have b: "a = 0 \<Longrightarrow> 16 \<le> b" "a = 4 \<Longrightarrow> b < 16"
      using 4 cp by auto
    show ?thesis
      using 4 cp(2-4) a b unfolding encode_def policy_unit_def a_def[symmetric] b_def[symmetric] c_def[symmetric] d_def[symmetric]
      by (auto simp: is_continuation_small Let_def)
  qed
qed

interpretation policy: utf8_scanner policy_unit
  by unfold_locales (auto intro: policy_sound policy_complete)

text \<open>The routines that read bits give the same unit: a case analysis on the lead byte.\<close>

lemma cont_low: "128 \<le> byte c \<Longrightarrow> byte c < 192 \<Longrightarrow> byte c mod 64 = byte c - 128"
  by (simp add: mod_if)

lemma lead_low:
  "192 \<le> n \<Longrightarrow> n < 224 \<Longrightarrow> n mod 32 = n - (192 :: nat)"
  "224 \<le> n \<Longrightarrow> n < 240 \<Longrightarrow> n mod 16 = n - (224 :: nat)"
  "240 \<le> n \<Longrightarrow> n < 248 \<Longrightarrow> n mod 8 = n - (240 :: nat)"
  by (simp_all add: mod_if)

lemma tail_byte:
  assumes "128 \<le> byte c" "byte c < 192"
  shows "push_bit 6 n OR (byte c AND 0x3F) = 64 * n + (byte c - 128)"
  using append_six[of n "byte c"] cont_low[OF assms] by (simp add: low_bits(1))

lemma read_tail_1: "read_tail code (Suc 0) s =
    (case s of [] \<Rightarrow> None | c # r \<Rightarrow>
       if 128 \<le> byte c \<and> byte c < 192 then Some (64 * code + (byte c - 128)) else None)"
  by (cases s) (auto simp: byte_masks tail_byte)

lemma read_tail_Suc: "read_tail code (Suc n) s =
    (case s of [] \<Rightarrow> None | c # r \<Rightarrow>
       if 128 \<le> byte c \<and> byte c < 192 then read_tail (64 * code + (byte c - 128)) n r else None)"
  by (cases s) (auto simp: byte_masks tail_byte)

declare read_tail.simps(2,3) [simp del]

lemma read_tail_numeral:
  "read_tail code 2 s = (case s of [] \<Rightarrow> None | c # r \<Rightarrow>
     if 128 \<le> byte c \<and> byte c < 192 then read_tail (64 * code + (byte c - 128)) (Suc 0) r else None)"
  "read_tail code 3 s = (case s of [] \<Rightarrow> None | c # r \<Rightarrow>
     if 128 \<le> byte c \<and> byte c < 192 then read_tail (64 * code + (byte c - 128)) 2 r else None)"
  using read_tail_Suc[of code "Suc 0" s] read_tail_Suc[of code 2 s] by (simp_all add: numeral_2_eq_2 numeral_3_eq_3)

lemma two_bytes:
  assumes "192 \<le> c" "c < 224" "128 \<le> d" "d < (192 :: nat)"
  shows "64 * (c - 192) + (d - 128) < 0x80 \<longleftrightarrow> c < 194" "\<not> 0x10FFFF < 64 * (c - 192) + (d - 128)"
    "\<not> 0xD800 \<le> 64 * (c - 192) + (d - 128)"
proof -
  obtain x where c: "c = 192 + x" using assms(1) le_Suc_ex by blast
  obtain y where d: "d = 128 + y" using assms(3) le_Suc_ex by blast
  have b: "x < 32" "y < 64" using assms c d by simp_all
  show "64 * (c - 192) + (d - 128) < 0x80 \<longleftrightarrow> c < 194"
    unfolding c d using b by (cases "x < 2") auto
  show "\<not> 0x10FFFF < 64 * (c - 192) + (d - 128)" "\<not> 0xD800 \<le> 64 * (c - 192) + (d - 128)"
    unfolding c d using b by simp_all
qed

lemma three_bytes:
  assumes "224 \<le> c" "c < 240" "128 \<le> d" "d < 192" "128 \<le> e" "e < (192 :: nat)"
  shows "64 * (64 * (c - 224) + (d - 128)) + (e - 128) < 0x800 \<longleftrightarrow> c = 224 \<and> d < 160"
    "64 * (64 * (c - 224) + (d - 128)) + (e - 128) \<ge> 0xD800 \<and>
     64 * (64 * (c - 224) + (d - 128)) + (e - 128) \<le> 0xDFFF \<longleftrightarrow> c = 237 \<and> 160 \<le> d"
    "\<not> 0x10FFFF < 64 * (64 * (c - 224) + (d - 128)) + (e - 128)"
proof -
  obtain x where c: "c = 224 + x" using assms(1) le_Suc_ex by blast
  obtain y where d: "d = 128 + y" using assms(3) le_Suc_ex by blast
  obtain z where e: "e = 128 + z" using assms(5) le_Suc_ex by blast
  have b: "x < 16" "y < 64" "z < 64" using assms c d e by simp_all
  show "64 * (64 * (c - 224) + (d - 128)) + (e - 128) < 0x800 \<longleftrightarrow> c = 224 \<and> d < 160"
    unfolding c d e using b by (cases "x = 0") auto
  show "\<not> 0x10FFFF < 64 * (64 * (c - 224) + (d - 128)) + (e - 128)"
    unfolding c d e using b by simp
  consider "x = 13" | "x \<le> 12" | "14 \<le> x" by linarith
  then show "64 * (64 * (c - 224) + (d - 128)) + (e - 128) \<ge> 0xD800 \<and>
     64 * (64 * (c - 224) + (d - 128)) + (e - 128) \<le> 0xDFFF \<longleftrightarrow> c = 237 \<and> 160 \<le> d"
    unfolding c d e using b by cases auto
qed

lemma four_bytes:
  assumes "240 \<le> c" "c < 248" "128 \<le> d" "d < 192" "128 \<le> e" "e < 192" "128 \<le> f" "f < (192 :: nat)"
  shows "64 * (64 * (64 * (c - 240) + (d - 128)) + (e - 128)) + (f - 128) < 0x10000 \<longleftrightarrow> c = 240 \<and> d < 144"
    "64 * (64 * (64 * (c - 240) + (d - 128)) + (e - 128)) + (f - 128) \<le> 0x10FFFF \<longleftrightarrow> c < 244 \<or> (c = 244 \<and> d < 144)"
proof -
  obtain x where c: "c = 240 + x" using assms(1) le_Suc_ex by blast
  obtain y where d: "d = 128 + y" using assms(3) le_Suc_ex by blast
  obtain z where e: "e = 128 + z" using assms(5) le_Suc_ex by blast
  obtain w where f: "f = 128 + w" using assms(7) le_Suc_ex by blast
  have b: "x < 8" "y < 64" "z < 64" "w < 64" using assms c d e f by simp_all
  show "64 * (64 * (64 * (c - 240) + (d - 128)) + (e - 128)) + (f - 128) < 0x10000 \<longleftrightarrow> c = 240 \<and> d < 144"
    unfolding c d e f using b by (cases "x = 0") auto
  consider "x = 4" | "x \<le> 3" | "5 \<le> x" by linarith
  then show "64 * (64 * (64 * (c - 240) + (d - 128)) + (e - 128)) + (f - 128) \<le> 0x10FFFF \<longleftrightarrow> c < 244 \<or> (c = 244 \<and> d < 144)"
    unfolding c d e f using b by cases auto
qed

lemma tail1_total:
  "(\<exists>d r. cs = d # r \<and> 128 \<le> byte d \<and> byte d < 192 \<and> read_tail k (Suc 0) cs = Some (64 * k + (byte d - 128))) \<or>
   (read_tail k (Suc 0) cs = None \<and> (cs = [] \<or> \<not> is_continuation (byte (cs ! 0))))"
  by (cases cs) (auto simp: read_tail_1 is_continuation_byte)

lemma tail2_total:
  "(\<exists>d e r. cs = d # e # r \<and> 128 \<le> byte d \<and> byte d < 192 \<and> 128 \<le> byte e \<and> byte e < 192 \<and>
      read_tail k 2 cs = Some (64 * (64 * k + (byte d - 128)) + (byte e - 128))) \<or>
   (read_tail k 2 cs = None \<and>
      (length cs < 2 \<or> \<not> is_continuation (byte (cs ! 0)) \<or> \<not> is_continuation (byte (cs ! 1))))"
  by (cases cs; cases "tl cs") (auto simp: is_continuation_byte read_tail_1 read_tail_numeral)

lemma tail3_total:
  "(\<exists>d e f r. cs = d # e # f # r \<and> 128 \<le> byte d \<and> byte d < 192 \<and> 128 \<le> byte e \<and> byte e < 192 \<and>
      128 \<le> byte f \<and> byte f < 192 \<and>
      read_tail k 3 cs = Some (64 * (64 * (64 * k + (byte d - 128)) + (byte e - 128)) + (byte f - 128))) \<or>
   (read_tail k 3 cs = None \<and> (length cs < 3 \<or> \<not> is_continuation (byte (cs ! 0)) \<or>
      \<not> is_continuation (byte (cs ! 1)) \<or> \<not> is_continuation (byte (cs ! 2))))"
  by (cases cs; cases "tl cs"; cases "tl (tl cs)")
     (auto simp: is_continuation_byte read_tail_1 read_tail_numeral)

lemma lead_ranges [case_names ascii cont two three four out]:
  obtains "byte c < 128" | "128 \<le> byte c" "byte c < 192" | "192 \<le> byte c" "byte c < 224"
    | "224 \<le> byte c" "byte c < 240" | "240 \<le> byte c" "byte c < 248" | "248 \<le> byte c"
  by linarith

lemma path_unit_policy: "path_unit s = policy_unit s"
proof (cases s)
  case (Cons c cs)
  show ?thesis
  proof (cases rule: lead_ranges[of c])
    case two
    then have path: "path_unit s = (if length s < 2 then 0 else
        case read_tail (byte c - 192) (Suc 0) cs of None \<Rightarrow> 0
        | Some cp \<Rightarrow> if cp < 0x80 \<or> cp > 0x10FFFF \<or> (cp \<ge> 0xD800 \<and> cp \<le> 0xDFFF) then 0 else 2)"
      unfolding Cons path_unit_def by (simp add: byte_simps lead_low split: option.splits)
    have policy: "policy_unit s = (if byte c < 194 \<or> 1 \<ge> length s \<or> \<not> is_continuation (byte (cs ! 0)) then 0 else 2)"
      using two unfolding Cons policy_unit_def by (simp add: Let_def nth_Cons')
    show ?thesis
      unfolding path policy using tail1_total[of cs "byte c - 192"] two_bytes[OF two] Cons
      by (elim disjE exE conjE) (auto simp: is_continuation_byte)
  next
    case three
    then have path: "path_unit s = (if length s < 3 then 0 else
        case read_tail (byte c - 224) 2 cs of None \<Rightarrow> 0
        | Some cp \<Rightarrow> if cp < 0x800 \<or> cp > 0x10FFFF \<or> (cp \<ge> 0xD800 \<and> cp \<le> 0xDFFF) then 0 else 3)"
      unfolding Cons path_unit_def by (simp add: byte_simps lead_low split: option.splits)
    have policy: "policy_unit s = (if 2 \<ge> length s then 0
                else if \<not> is_continuation (byte (cs ! 0)) \<or> \<not> is_continuation (byte (cs ! 1)) \<or>
                        (byte c = 0xE0 \<and> byte (cs ! 0) < 0xA0) \<or> (byte c = 0xED \<and> byte (cs ! 0) \<ge> 0xA0) then 0
                else 3)"
      using three unfolding Cons policy_unit_def by (simp add: Let_def nth_Cons')
    show ?thesis
      unfolding path policy using tail2_total[of cs "byte c - 224"] three_bytes[OF three] Cons
      by (elim disjE exE conjE) (auto simp: is_continuation_byte)
  next
    case four
    then have path: "path_unit s = (if length s < 4 then 0 else
        case read_tail (byte c - 240) 3 cs of None \<Rightarrow> 0
        | Some cp \<Rightarrow> if cp < 0x10000 \<or> \<not> cp \<le> 0x10FFFF then 0 else 4)"
      unfolding Cons path_unit_def by (simp add: byte_simps lead_low split: option.splits)
    have policy: "policy_unit s = (if 3 \<ge> length s \<or> byte c > 0xF4 then 0
                else if \<not> is_continuation (byte (cs ! 0)) \<or> \<not> is_continuation (byte (cs ! 1)) \<or>
                        \<not> is_continuation (byte (cs ! 2)) \<or>
                        (byte c = 0xF0 \<and> byte (cs ! 0) < 0x90) \<or> (byte c = 0xF4 \<and> byte (cs ! 0) \<ge> 0x90) then 0
                else 4)"
      using four unfolding Cons policy_unit_def by (simp add: Let_def nth_Cons')
    show ?thesis
      unfolding path policy using tail3_total[of cs "byte c - 240"] four_bytes[OF four] Cons
      by (elim disjE exE conjE) (auto simp: is_continuation_byte)
  qed (auto simp: Cons path_unit_def policy_unit_def byte_simps)
qed (simp add: path_unit_def policy_unit_def)

lemma config_unit_path: "config_unit s = path_unit s"
proof (cases s)
  case (Cons c cs)
  show ?thesis
    by (cases rule: lead_ranges[of c])
       (auto simp: Cons config_unit_def path_unit_def byte_simps
          split: option.splits)
qed (simp add: config_unit_def path_unit_def)

lemma log_unit_path: "log_unit s = path_unit s"
proof (cases s)
  case (Cons c cs)
  show ?thesis
  proof (cases rule: lead_ranges[of c])
    case two
    have "path_unit s = 0" if "byte c < 194"
      using two that by (simp add: path_unit_policy Cons policy_unit_def)
    then show ?thesis
      using two by (cases "byte c < 194")
        (auto simp: Cons log_unit_def path_unit_def byte_simps split: option.splits)
  next
    case four
    have "path_unit s = 0" if "byte c > 244"
      using four that by (simp add: path_unit_policy Cons policy_unit_def)
    then show ?thesis
      using four by (cases "byte c > 244")
        (auto simp: Cons log_unit_def path_unit_def byte_simps split: option.splits)
  qed (auto simp: Cons log_unit_def path_unit_def byte_simps split: option.splits)
qed (simp add: log_unit_def path_unit_def)

interpretation path: utf8_scanner path_unit
  by unfold_locales (auto simp: path_unit_policy intro: policy.unit_sound policy.unit_complete)

interpretation config: utf8_scanner config_unit
  by unfold_locales (auto simp: config_unit_path intro: path.unit_sound path.unit_complete)

interpretation log: utf8_scanner log_unit
  by unfold_locales (auto simp: log_unit_path intro: path.unit_sound path.unit_complete)

text \<open>
  \<open>lossyUtf8\<close> asks whether the announced piece decodes. It decodes exactly when it is one
  encoded character, because its length is the one its lead byte announces.
\<close>

definition announced :: "char \<Rightarrow> nat" where
  "announced c =
     (if byte c < 128 then 1 else if 192 \<le> byte c \<and> byte c < 224 then 2
      else if 224 \<le> byte c \<and> byte c < 240 then 3 else if 240 \<le> byte c \<and> byte c < 248 then 4 else 0)"

lemma policy_unit_announced: "policy_unit (c # cs) = 0 \<or> policy_unit (c # cs) = announced c"
  by (auto simp: policy_unit_def announced_def Let_def)

lemma lossy_unit_eq:
  "lossy_unit (c # cs) =
     (if announced c \<noteq> 0 \<and> announced c \<le> length (c # cs) \<and> is_decodable_utf8 (take (announced c) (c # cs))
      then announced c else 0)"
  by (auto simp: lossy_unit_def announced_def byte_masks Let_def)

lemma lossy_unit_path: "lossy_unit s = path_unit s"
proof (cases s)
  case Nil
  then show ?thesis by (simp add: lossy_unit_def path_unit_def)
next
  case (Cons c cs)
  let ?n = "announced c"
  show ?thesis
  proof (cases rule: path.text_cases[of s])
    case (good cp r)
    have "0 < length (encode cp)" by simp
    then have pos: "0 < path_unit s" using good(3) by linarith
    then have n: "path_unit s = ?n" "0 < ?n"
      using policy_unit_announced[of c cs] Cons by (auto simp: path_unit_policy)
    then have "take ?n s = encode cp" "?n \<le> length s" using good by auto
    moreover have "is_decodable_utf8 (encode cp)"
      using path.accepts_encode[OF good(1), of "[]"] by (simp add: is_decodable_utf8_def)
    ultimately show ?thesis using n Cons lossy_unit_eq[of c cs] by simp
  next
    case bad
    have "\<not> is_decodable_utf8 (take ?n s)" if "0 < ?n" "?n \<le> length s"
    proof
      assume "is_decodable_utf8 (take ?n s)"
      moreover have ne: "take ?n s \<noteq> []" using that Cons by auto
      ultimately have "path_unit (take ?n s) \<noteq> 0"
        using path.accepts_bad[OF ne] by (auto simp: is_decodable_utf8_def)
      then obtain cp t where cp: "scalar cp" "take ?n s = encode cp @ t"
        using path.unit_iff[of "take ?n s"] by auto
      then have "s = encode cp @ t @ drop ?n s" by (metis append_assoc append_take_drop_id)
      then show False using path.unit_complete[OF cp(1), of "t @ drop ?n s"] bad by simp
    qed
    then show ?thesis using bad Cons lossy_unit_eq[of c cs] by auto
  qed (use Cons in simp)
qed

interpretation lossy: utf8_scanner lossy_unit
  by unfold_locales (auto simp: lossy_unit_path intro: path.unit_sound path.unit_complete)

lemma units_agree:
  "is_valid_utf8 = is_decodable_utf8" "accepts config_unit = is_decodable_utf8"
  "accepts log_unit = is_decodable_utf8" "accepts lossy_unit = is_decodable_utf8"
proof -
  note eq = scanners_agree[OF policy.utf8_scanner_axioms path.utf8_scanner_axioms]
    scanners_agree[OF config.utf8_scanner_axioms path.utf8_scanner_axioms]
    scanners_agree[OF log.utf8_scanner_axioms path.utf8_scanner_axioms]
    scanners_agree[OF lossy.utf8_scanner_axioms path.utf8_scanner_axioms]
  show "is_valid_utf8 = is_decodable_utf8" "accepts config_unit = is_decodable_utf8"
    "accepts log_unit = is_decodable_utf8" "accepts lossy_unit = is_decodable_utf8"
    by (auto simp: fun_eq_iff is_valid_utf8_def is_decodable_utf8_def eq)
qed

lemma replacement_encodes: "replacement = encode 0xFFFD"
proof -
  have "map byte replacement = map byte (encode 0xFFFD)" by (simp add: replacement_def encode_def)
  then show ?thesis by (metis char_of_byte map_idI map_map comp_apply)
qed

lemma replacement_decodes: "is_decodable_utf8 replacement"
  using path.accepts_encode[of "0xFFFD" "[]"] by (simp add: is_decodable_utf8_def replacement_encodes scalar_def)

section \<open>Properties\<close>

text \<open>
  (C39) \<open>isDecodableUtf8\<close> is the definition of UTF-8: it accepts a byte string exactly when the
  string is the concatenation of the encodings of Unicode scalar values, so no overlong form, no
  surrogate and nothing past U+10FFFF passes, and every text does. The validator of the
  expression policy, which tests ranges of bytes where this one tests bits, accepts the same
  strings.
\<close>

theorem decodable_is_utf8:
  "(is_decodable_utf8 s \<longleftrightarrow> (\<exists>cps. list_all scalar cps \<and> s = encode_all cps)) \<and>
   is_valid_utf8 s = is_decodable_utf8 s"
  using path.accepts_iff[of s] units_agree(1) by (simp add: is_decodable_utf8_def list_all_iff)

text \<open>
  What Godot's string decode leaves of a string's bytes is what \<open>lossyUtf8\<close> leaves of them
  once a leading byte order mark is dropped: the two repairs, written twice, are one.
\<close>

theorem godot_decode_is_lossy:
  "decode_utf8_the_way_godot_does s =
     lossy_utf8 (if starts_with s [CHR 0xEF, CHR 0xBB, CHR 0xBF] then drop 3 s else s)"
  using scanners_agree[OF config.utf8_scanner_axioms lossy.utf8_scanner_axioms]
  by (simp add: decode_utf8_the_way_godot_does_def lossy_utf8_def)

text \<open>
  A lossy rendering can always be put in a response and changes nothing that could: its
  result is well-formed for every byte string, and a well-formed string is left as it is.
\<close>

theorem lossy_is_decodable:
  "is_decodable_utf8 (lossy_utf8 s) \<and> (lossy_utf8 s = s \<longleftrightarrow> is_decodable_utf8 s)"
proof -
  have "accepts lossy_unit (repair lossy_unit replacement s)"
    by (rule lossy.repair_accepted) (simp add: units_agree replacement_decodes)
  then have "is_decodable_utf8 (lossy_utf8 s)" by (simp add: units_agree lossy_utf8_def)
  moreover have "lossy_utf8 s = s" if "is_decodable_utf8 s"
    using lossy.repair_id[of s replacement] that by (simp add: units_agree lossy_utf8_def)
  ultimately show ?thesis by metis
qed

text \<open>
  A bounded rendering keeps its bound and never splits a character: \<open>truncateUtf8\<close> answers
  with at most the bytes asked for, always well-formed, and with the whole text when it was
  well-formed and fitted. \<open>boundUtf8\<close> answers the same text and says it was cut exactly when the
  answer differs from the input.
\<close>

theorem truncate_is_bounded:
  "length (truncate_utf8 s n) \<le> n \<and> is_decodable_utf8 (truncate_utf8 s n) \<and>
   (truncate_utf8 s n = s \<longleftrightarrow> is_decodable_utf8 s \<and> length s \<le> n) \<and>
   bu_value (bound_utf8 s n) = truncate_utf8 s n \<and>
   (bu_truncated (bound_utf8 s n) \<longleftrightarrow> truncate_utf8 s n \<noteq> s)"
proof -
  have bound: "length (truncate_utf8 s n) \<le> n"
    using log.clip_bound[of 0 n s] by (simp add: truncate_utf8_def)
  have dec: "is_decodable_utf8 (truncate_utf8 s n)"
    using log.clip_accepted[of n 0 s] by (simp add: units_agree truncate_utf8_def)
  have same: "truncate_utf8 s n = s" if "is_decodable_utf8 s" "length s \<le> n"
    using log.clip_id[of s 0 n] that by (simp add: units_agree truncate_utf8_def)
  have cut: "clip_cut log_unit n 0 s \<longleftrightarrow> truncate_utf8 s n \<noteq> s"
    using log.clip_cut_False[of n 0 s] log.clip_cut_True[of n 0 s] by (auto simp: truncate_utf8_def)
  have shorter: "length (truncate_utf8 s n) < length s \<Longrightarrow> truncate_utf8 s n \<noteq> s" by auto
  show ?thesis
    using bound dec same cut shorter by (auto simp: bound_utf8_def truncate_utf8_def Let_def)
qed

end
