(* ===== verification/Request_Checks.thy ===== *)
theory Request_Checks
  imports Didi_Json
begin

unbundle bit_operations_syntax

text \<open>
  Checks a request passes before anything runs: connection flags
  (\<open>include/didi/common/connection_flags.hpp\<close>), paths of scene nodes
  (\<open>include/didi/common/scene_node_path.hpp\<close>), project paths
  (\<open>include/didi/common/project_path.hpp\<close>) and engine versions
  (\<open>include/didi/common/engine_version.hpp\<close>). A file system path is the string
  \<open>normalizedProjectPath\<close> makes of it.
\<close>

section \<open>Connection flags\<close>

definition authored :: "int \<Rightarrow> int" where
  "authored flags = flags AND NOT 32"

definition is_persistent :: "int \<Rightarrow> bool" where
  "is_persistent flags = (flags AND 2 \<noteq> 0)"

definition k_connectable_mask :: int where
  "k_connectable_mask = 2 OR 1 OR 4"

definition is_connectable :: "int \<Rightarrow> bool" where
  "is_connectable flags =
     (let asked = authored flags in is_persistent asked \<and> asked AND NOT k_connectable_mask = 0)"

definition refuse_connect_flags :: "int \<Rightarrow> string option" where
  "refuse_connect_flags flags =
     (if is_connectable flags then None
      else
        let asked = authored flags;
            reason =
              (if \<not> is_persistent asked then
                 ''does not include 2, CONNECT_PERSIST. A connection without it is not stored in the '' @
                 ''scene file, so it would vanish on the next load and this tool would have reported '' @
                 ''work that did not last.''
               else if asked AND 16 \<noteq> 0 then
                 ''includes 16, CONNECT_APPEND_SOURCE_OBJECT. That appends the emitter to the '' @
                 ''arguments, so the method needs one more than the signal declares, and this tool '' @
                 ''checks the method against the signal'' @ [CHR 0x27] @ ''s own arity before it connects. Measured on '' @
                 ''4.7.2: with that flag a zero-argument signal never reaches a zero-argument method.''
               else if asked AND 8 \<noteq> 0 then
                 ''includes 8, CONNECT_REFERENCE_COUNTED. That flag only counts a callable connected '' @
                 ''more than once, and signal_connect answers 409 for a callable that is already '' @
                 ''connected, so the count can never rise above one here.''
               else ''sets a bit Godot does not define as a connection flag.'')
        in Some (''Argument '' @ [CHR 0x27] @ ''flags'' @ [CHR 0x27] @ '' is '' @ dec_int flags @ '', which '' @ reason @
             '' Accepted: 2 (CONNECT_PERSIST), 3 (with CONNECT_DEFERRED), 6 (with CONNECT_ONE_SHOT), '' @
             ''7 (with both), and each of those plus 32 (CONNECT_INHERITED) as signal_list_connections '' @
             ''reports it for a connection inside an instanced scene.''))"

section \<open>Node paths\<close>

definition refuse_parent_relative_node_path :: "string \<Rightarrow> refusal option" where
  "refuse_parent_relative_node_path path =
     (if path = [] \<or> path = ''/root'' \<or> path = ''.'' then None
      else if ''..'' \<in> set (split_at CHR ''/'' path) then
        Some \<lparr>err_code = 400,
              err_message = ''Parent-relative '' @ [CHR 0x27] @ ''..'' @ [CHR 0x27] @ '' paths are not allowed in the edited scene'',
              err_data = JNull\<rparr>
      else None)"

definition k_max_runtime_path_bytes :: nat where
  "k_max_runtime_path_bytes = 1024"

definition bad_segment :: "string \<Rightarrow> bool" where
  "bad_segment segment =
     (segment = [] \<or> segment = ''.'' \<or> segment = ''..'' \<or> hd segment = CHR ''%'')"

definition runtime_path_problem :: "string \<Rightarrow> string option" where
  "runtime_path_problem path =
     (if path = [] \<or> length path > k_max_runtime_path_bytes \<or> CHR 0x00 \<in> set path then
        Some ''root_path must be a non-empty UTF-8 path of at most 1024 bytes''
      else if path \<noteq> ''/root'' \<and> \<not> starts_with path ''/root/'' then
        Some ''root_path must be a canonical absolute path beneath /root''
      else if last path = CHR ''/'' \<or> has_infix ''//'' path \<or> CHR 0x5C \<in> set path \<or> CHR '':'' \<in> set path then
        Some ''root_path must be a canonical absolute NodePath''
      else if list_ex bad_segment (split_at CHR ''/'' (drop 1 path)) then
        Some (''root_path may not contain empty, '' @ [CHR 0x27] @ ''.'' @ [CHR 0x27] @ '', '' @ [CHR 0x27] @ ''..'' @
              [CHR 0x27] @ '', or unique-name alias segments'')
      else None)"

definition runtime_context_path_problem :: "string \<Rightarrow> string option" where
  "runtime_context_path_problem path =
     (if path = [] \<or> length path > 1024 \<or> CHR 0x00 \<in> set path then
        Some ''context_node must be a non-empty path of at most 1024 bytes''
      else if path \<noteq> ''/root'' \<and> \<not> starts_with path ''/root/'' then
        Some ''context_node must be a canonical absolute path beneath /root''
      else if last path = CHR ''/'' \<or> has_infix ''//'' path \<or> CHR 0x5C \<in> set path \<or> CHR '':'' \<in> set path then
        Some ''context_node must be a canonical absolute NodePath''
      else if list_ex bad_segment (split_at CHR ''/'' (drop 1 path)) then
        Some ''context_node may not contain aliases or relative segments''
      else None)"

section \<open>Project paths\<close>

definition is_within_project :: "string \<Rightarrow> string \<Rightarrow> bool" where
  "is_within_project root_value candidate_value =
     (candidate_value = root_value \<or>
      (length candidate_value > length root_value \<and>
       take (length root_value) candidate_value = root_value \<and>
       candidate_value ! length root_value = CHR ''/''))"

text \<open>The text before the first occurrence of \<open>"://"\<close>, when there is one.\<close>

fun before_scheme :: "string \<Rightarrow> string option" where
  "before_scheme [] = None"
| "before_scheme (c # cs) =
     (if starts_with (c # cs) ''://'' then Some []
      else map_option (Cons c) (before_scheme cs))"

definition is_scheme_byte :: "char \<Rightarrow> bool" where
  "is_scheme_byte c = (is_alnum c \<or> c = CHR ''+'' \<or> c = CHR ''-'' \<or> c = CHR ''.'')"

definition foreign_scheme_problem :: "string \<Rightarrow> string option" where
  "foreign_scheme_problem path =
     (case before_scheme path of
        None \<Rightarrow> None
      | Some scheme \<Rightarrow>
          if scheme = [] then None
          else if \<not> list_all is_scheme_byte scheme then None
          else
            let lowered = map tolower scheme
            in if lowered = ''res'' \<and> scheme \<noteq> ''res'' then
                 Some (''must spell its scheme res://, in lower case: Godot does not read '' @ scheme @
                   ''://, and the rest of the path would have been written under a directory named '' @
                   scheme @ '':'')
               else if lowered = ''res'' then None
               else if lowered = ''user'' then
                 Some (''names user://, which is the running game'' @ [CHR 0x27] @ ''s own data directory, outside the '' @
                   ''project. Name a file in the project, as res:// or relative to it'')
               else Some (''names '' @ scheme @ ''://, and a file in the project is named as res:// or relative '' @
                   ''to it''))"

section \<open>Engine versions\<close>

definition major_minor_of :: "string \<Rightarrow> string" where
  "major_minor_of version =
     (let v = dropWhile (\<lambda>c. \<not> is_digit c) version
      in if v = [] then []
         else if CHR ''.'' \<notin> set v then []
         else
           let before = takeWhile (\<lambda>c. c \<noteq> CHR ''.'') v;
               after = drop (length before + 1) v
           in before @ CHR ''.'' # takeWhile is_digit after)"

function features_version_from :: "string \<Rightarrow> string" where
  "features_version_from s =
     (let open = dropWhile (\<lambda>c. c \<noteq> CHR 0x22) s
      in if open = [] then []
         else
           let rest = tl open; entry = takeWhile (\<lambda>c. c \<noteq> CHR 0x22) rest; after = dropWhile (\<lambda>c. c \<noteq> CHR 0x22) rest
           in if after = [] then []
              else if entry \<noteq> [] \<and> is_digit (hd entry) \<and> major_minor_of entry \<noteq> [] then major_minor_of entry
              else features_version_from (tl after))"
  by auto
termination
proof (relation "measure length")
  fix s :: string and op rest entry after
  assume a: "op = dropWhile (\<lambda>c. c \<noteq> CHR 0x22) s" "op \<noteq> []" "rest = tl op"
    "after = dropWhile (\<lambda>c. c \<noteq> CHR 0x22) rest"
  have "length after \<le> length (tl op)" unfolding a(3,4) by (rule length_dropWhile_le)
  moreover have "length op \<le> length s" using a by (simp add: length_dropWhile_le)
  moreover have "0 < length op" using a(2) by blast
  ultimately have "length after - 1 < length s" unfolding length_tl by linarith
  then show "(tl after, s) \<in> measure length" by simp
qed simp

declare features_version_from.simps [simp del]

definition features_version_of :: "string \<Rightarrow> string" where
  "features_version_of features_literal = features_version_from features_literal"

definition or_null :: "string \<Rightarrow> json" where
  "or_null s = (if s = [] then JNull else JStr s)"

definition line_match :: "string \<Rightarrow> string \<Rightarrow> json" where
  "line_match a b = (if a = [] \<or> b = [] then JNull else JBool (a = b))"

definition annotate_api_version :: "json \<Rightarrow> string \<Rightarrow> string \<Rightarrow> json" where
  "annotate_api_version target api_version attached =
     jput ''api_version_matches_attached_engine''
       (line_match (major_minor_of api_version) (major_minor_of attached))
       (jput ''attached_engine_version'' (or_null attached) target)"

definition annotate_configured_engine :: "json \<Rightarrow> string \<Rightarrow> string \<Rightarrow> json" where
  "annotate_configured_engine target configured rejected_because =
     (if configured = [] \<or> rejected_because = [] then target
      else jput ''engine_executable_configured_rejected'' (JStr rejected_because)
             (jput ''engine_executable_configured'' (JStr configured) target))"

definition annotate_check_engine :: "json \<Rightarrow> string \<Rightarrow> string \<Rightarrow> string \<Rightarrow> json" where
  "annotate_check_engine target engine_version engine_executable attached =
     jput ''matches_attached_engine'' (line_match (major_minor_of engine_version) (major_minor_of attached))
       (jput ''attached_engine_version'' (or_null attached)
         (jput ''engine_executable'' (or_null engine_executable)
           (jput ''engine_version'' (or_null engine_version) target)))"

definition annotate_project_features :: "json \<Rightarrow> string \<Rightarrow> string \<Rightarrow> json" where
  "annotate_project_features target api_version features_literal =
     (let project_line = features_version_of features_literal
      in jput ''api_version_matches_project_features'' (line_match (major_minor_of api_version) project_line)
           (jput ''project_features_version'' (or_null project_line) target))"

section \<open>Facts\<close>

lemma connectable_below_64:
  assumes "is_connectable x"
  shows "0 \<le> x \<and> x < 64"
proof -
  have z: "x AND NOT 39 = 0"
    using assms by (simp add: is_connectable_def authored_def k_connectable_mask_def Let_def and.assoc)
  have f: "\<not> bit x n" if "6 \<le> n" for n
  proof -
    have "(2 :: int) ^ 6 \<le> 2 ^ n" using that by (rule power_increasing) simp
    then have "\<not> bit (39 :: int) n" by (simp add: bit_iff_odd)
    moreover have "\<not> bit (x AND NOT 39) n" unfolding z by simp
    ultimately show ?thesis by (simp only: bit_and_iff bit_not_iff possible_bit_int) simp
  qed
  have "take_bit 6 x = x"
    by (rule bit_eqI) (auto simp: bit_take_bit_iff intro: ccontr dest: f leI)
  then show ?thesis
    using take_bit_int_eq_self_iff[of 6 x] by simp
qed

text \<open>
  Exactly eight values of \<open>flags\<close> are accepted for a connection, the four that a
  scene file stores and the same four as an instanced scene reports them, and what reaches
  \<open>connect()\<close> is then one of the four stored values.
\<close>

theorem connect_flags_policy:
  "(refuse_connect_flags flags = None \<longleftrightarrow> flags \<in> {2, 3, 6, 7, 34, 35, 38, 39}) \<and>
   (is_connectable flags \<longleftrightarrow> authored flags \<in> {2, 3, 6, 7})"
proof -
  have r: "refuse_connect_flags flags = None \<longleftrightarrow> is_connectable flags"
    by (simp add: refuse_connect_flags_def Let_def)
  have c: "is_connectable x \<longleftrightarrow> x \<in> {2, 3, 6, 7, 34, 35, 38, 39}" for x
  proof
    assume conn: "is_connectable x"
    then have "x \<in> set [0..63]"
      using connectable_below_64 by fastforce
    then show "x \<in> {2, 3, 6, 7, 34, 35, 38, 39}"
      using conn by (simp add: upto.simps is_connectable_def authored_def is_persistent_def k_connectable_mask_def) auto
  qed (auto simp: is_connectable_def authored_def is_persistent_def k_connectable_mask_def)
  have a: "is_connectable flags \<longleftrightarrow> is_connectable (authored flags)"
    by (simp add: is_connectable_def authored_def Let_def and.assoc)
  have "\<not> bit (authored flags) 5"
    unfolding authored_def by (simp only: bit_and_iff bit_not_iff) (simp add: bit_iff_odd)
  then have "authored flags \<notin> {34, 35, 38, 39}"
    by (auto simp: bit_iff_odd)
  then show ?thesis
    unfolding r using a c[of flags] c[of "authored flags"] by blast
qed

section \<open>What a canonical node path is\<close>

definition node_name :: "string \<Rightarrow> bool" where
  "node_name s =
     (s \<noteq> [] \<and> s \<noteq> ''.'' \<and> s \<noteq> ''..'' \<and> hd s \<noteq> CHR ''%'' \<and>
      list_all (\<lambda>c. c \<notin> {CHR ''/'', CHR 0x5C, CHR '':'', CHR 0x00}) s)"

definition canonical_node_path :: "string \<Rightarrow> bool" where
  "canonical_node_path path =
     (length path \<le> 1024 \<and>
      (\<exists>names. list_all node_name names \<and> path = CHR ''/'' # join_with CHR ''/'' (''root'' # names)))"

lemma runtime_path_accepts:
  assumes "path \<noteq> []" "CHR 0x00 \<notin> set path" "path = ''/root'' \<or> starts_with path ''/root/''"
    "CHR 0x5C \<notin> set path" "CHR '':'' \<notin> set path" "\<not> list_ex bad_segment (split_at CHR ''/'' (drop 1 path))"
  shows "\<exists>names. list_all node_name names \<and> path = CHR ''/'' # join_with CHR ''/'' (''root'' # names)"
proof -
  obtain p where p: "path = CHR ''/'' # p" "p = ''root'' \<or> (\<exists>q. p = ''root'' @ CHR ''/'' # q)"
    using assms(3) by (auto simp: starts_with_append)
  have "\<exists>names. split_at CHR ''/'' p = ''root'' # names"
    using p(2) by (auto simp: split_at_append split_at_word)
  then obtain names where n: "split_at CHR ''/'' p = ''root'' # names" by blast
  have "node_name w" if "w \<in> set names" for w
  proof -
    have w: "w \<in> set (split_at CHR ''/'' p)" using n that by simp
    have "\<not> bad_segment w" using assms(6) w p(1) by (simp add: list_ex_iff)
    moreover have "CHR ''/'' \<notin> set w" using w by (rule split_at_no_delim)
    moreover have "set w \<subseteq> set path" using set_split_at[OF w] p(1) by auto
    ultimately show ?thesis
      using assms(2,4,5) unfolding node_name_def bad_segment_def list_all_iff by auto
  qed
  moreover have "path = CHR ''/'' # join_with CHR ''/'' (''root'' # names)"
    using join_split_at[of "CHR ''/''" p] n p(1) by simp
  ultimately show ?thesis by (auto simp: list_all_iff)
qed

lemma canonical_path_facts:
  assumes "list_all node_name names" "path = CHR ''/'' # join_with CHR ''/'' (''root'' # names)"
  shows "split_at CHR ''/'' (drop 1 path) = ''root'' # names"
    "\<not> list_ex bad_segment (split_at CHR ''/'' (drop 1 path))"
    "path = ''/root'' \<or> starts_with path ''/root/''"
    "last path \<noteq> CHR ''/''" "\<not> has_infix ''//'' path"
    "CHR 0x5C \<notin> set path" "CHR '':'' \<notin> set path" "CHR 0x00 \<notin> set path"
proof -
  have good_names: "CHR ''/'' \<notin> set w \<and> \<not> bad_segment w" if "w \<in> set (''root'' # names)" for w
  proof (cases "w = ''root''")
    case True
    then show ?thesis unfolding bad_segment_def by simp
  next
    case False
    then have "node_name w" using that assms(1) by (simp add: list_all_iff)
    then show ?thesis unfolding node_name_def bad_segment_def list_all_iff by blast
  qed
  then have "list_all (\<lambda>w. CHR ''/'' \<notin> set w) (''root'' # names)"
    unfolding list_all_iff by blast
  then show split: "split_at CHR ''/'' (drop 1 path) = ''root'' # names"
    unfolding assms(2) using split_at_join[of "''root'' # names" "CHR ''/''"] by simp
  show good: "\<not> list_ex bad_segment (split_at CHR ''/'' (drop 1 path))"
    unfolding split list_ex_iff using good_names by blast
  then have ne: "[] \<notin> set (split_at CHR ''/'' (drop 1 path))"
    by (auto simp: list_ex_iff bad_segment_def)
  show "path = ''/root'' \<or> starts_with path ''/root/''"
    unfolding assms(2) by (cases names) (auto simp: starts_with_append)
  show "last path \<noteq> CHR ''/''"
    using ne split_at_last[of "drop 1 path" "CHR ''/''"] unfolding assms(2) by (cases names) auto
  show "\<not> has_infix ''//'' path"
    using ne split_at_doubled[of "CHR ''/''" "drop 1 path"] unfolding assms(2) by auto
  have sj: "set (join_with d ws) \<subseteq> insert d (\<Union>w \<in> set ws. set w)" for d and ws :: "string list"
    by (induction d ws rule: join_with.induct) auto
  have chars: "c \<in> {CHR ''/''} \<union> set ''root'' \<union> (\<Union>w \<in> set names. set w)" if "c \<in> set path" for c
    using that sj[of "CHR ''/''" "''root'' # names"] unfolding assms(2) set_simps Union_image_insert by blast
  have names: "c \<notin> {CHR 0x5C, CHR '':'', CHR 0x00}" if "w \<in> set names" "c \<in> set w" for c w
    using assms(1) that unfolding list_all_iff node_name_def by blast
  have "c \<notin> {CHR 0x5C, CHR '':'', CHR 0x00}" if "c \<in> set path" for c
    using chars[OF that] names by auto
  then show "CHR 0x5C \<notin> set path" "CHR '':'' \<notin> set path" "CHR 0x00 \<notin> set path"
    by blast+
qed

text \<open>
  The runtime's two readers of a node path, written twice in the same file, accept the
  same paths: those of at most 1024 bytes that name nodes beneath \<open>/root\<close>, every segment a
  name and none of them empty, relative or an alias.
\<close>

theorem runtime_paths_are_canonical:
  "(runtime_path_problem path = None \<longleftrightarrow> canonical_node_path path) \<and>
   (runtime_context_path_problem path = None \<longleftrightarrow> canonical_node_path path)"
proof -
  let ?ok = "path \<noteq> [] \<and> length path \<le> 1024 \<and> CHR 0x00 \<notin> set path \<and>
     (path = ''/root'' \<or> starts_with path ''/root/'') \<and>
     last path \<noteq> CHR ''/'' \<and> \<not> has_infix ''//'' path \<and> CHR 0x5C \<notin> set path \<and> CHR '':'' \<notin> set path \<and>
     \<not> list_ex bad_segment (split_at CHR ''/'' (drop 1 path))"
  have r: "runtime_path_problem path = None \<longleftrightarrow> ?ok" "runtime_context_path_problem path = None \<longleftrightarrow> ?ok"
    unfolding runtime_path_problem_def runtime_context_path_problem_def k_max_runtime_path_bytes_def
    by (simp_all add: not_less) (blast+)?
  have c: "?ok \<longleftrightarrow> canonical_node_path path"
  proof
    assume ?ok
    then show "canonical_node_path path"
      unfolding canonical_node_path_def using runtime_path_accepts[of path] by blast
  next
    assume "canonical_node_path path"
    then obtain names where n: "length path \<le> 1024" "list_all node_name names"
        "path = CHR ''/'' # join_with CHR ''/'' (''root'' # names)"
      unfolding canonical_node_path_def by blast
    then have "path \<noteq> []" by blast
    with n(1) canonical_path_facts(2-8)[OF n(2,3)] show ?ok by blast
  qed
  show ?thesis by (rule conjI[OF trans[OF r(1) c] trans[OF r(2) c]])
qed

text \<open>
  A path is within the project exactly when the project root's segments begin its own:
  a sibling directory whose name only starts with the root's name is outside.
\<close>

theorem within_project_is_by_segment:
  "is_within_project base path \<longleftrightarrow>
     (\<exists>rest. split_at CHR ''/'' path = split_at CHR ''/'' base @ rest)"
proof
  assume "is_within_project base path"
  then have "path = base \<or> (\<exists>q. path = base @ CHR ''/'' # q)"
    unfolding is_within_project_def by (metis append_take_drop_id id_take_nth_drop)
  then show "\<exists>rest. split_at CHR ''/'' path = split_at CHR ''/'' base @ rest"
    by (auto simp: split_at_append)
next
  assume "\<exists>rest. split_at CHR ''/'' path = split_at CHR ''/'' base @ rest"
  then obtain rest where r: "split_at CHR ''/'' path = split_at CHR ''/'' base @ rest" ..
  have path: "path = join_with CHR ''/'' (split_at CHR ''/'' base @ rest)"
    unfolding r[symmetric] by simp
  show "is_within_project base path"
  proof (cases "rest = []")
    case False
    then have "path = base @ CHR ''/'' # join_with CHR ''/'' rest"
      unfolding path by (simp add: join_with_append)
    then show ?thesis by (simp add: is_within_project_def)
  qed (simp add: path is_within_project_def)
qed

end
