(* ===== verification/Sequenced_Ring.thy ===== *)
theory Sequenced_Ring
  imports Didi_Prelude
begin

text \<open>
  The contract two components keep: entries are numbered upwards as they arrive, and once a
  capacity is reached the oldest entry leaves. The runtime log and the undo ledger both
  interpret it. What a client may conclude, that the order of the numbers is the order of
  arrival and that only the oldest entries are ever missing, is proved here once.
\<close>

definition increasing :: "('e \<Rightarrow> nat) \<Rightarrow> 'e list \<Rightarrow> bool" where
  "increasing number es = sorted_wrt (\<lambda>d e. number d < number e) es"

lemma increasing_append:
  "increasing number (ds @ es) \<longleftrightarrow>
     increasing number ds \<and> increasing number es \<and> (\<forall>d \<in> set ds. \<forall>e \<in> set es. number d < number e)"
  by (auto simp: increasing_def sorted_wrt_append)

lemma increasing_filter: "increasing number es \<Longrightarrow> increasing number (filter P es)"
  by (simp add: increasing_def sorted_wrt_filter)

text \<open>Reading from a cursor on is a suffix of the entries.\<close>

lemma increasing_from:
  "increasing number es \<Longrightarrow> filter (\<lambda>e. c \<le> number e) es = dropWhile (\<lambda>e. number e < c) es"
proof (induction es)
  case (Cons e es)
  then have inc: "increasing number es" and later: "\<forall>d \<in> set es. number e < number d"
    by (auto simp: increasing_def)
  show ?case
  proof (cases "number e < c")
    case True
    then show ?thesis using Cons.IH[OF inc] by simp
  next
    case False
    then have "filter (\<lambda>e. c \<le> number e) es = es"
      using later by (force intro: filter_True)
    with False show ?thesis by simp
  qed
qed simp

lemma increasing_push:
  assumes "increasing number es" "\<forall>e \<in> set es. number e < number x"
  shows "increasing number (push_bounded cap es x)"
proof -
  have "increasing number (es @ [x])"
    using assms by (simp add: increasing_append) (simp add: increasing_def)
  then show ?thesis
    using push_bounded_suffix[of es x cap] by (metis increasing_append)
qed

locale sequenced_ring =
  fixes entries :: "'s \<Rightarrow> 'e list"
    and number :: "'e \<Rightarrow> nat"
    and following :: "'s \<Rightarrow> nat"
    and capacity :: "'s \<Rightarrow> nat"
    and arrive :: "'s \<Rightarrow> 's \<Rightarrow> bool"
  assumes arrival:
      "arrive s t \<Longrightarrow>
         (entries t = entries s \<and> following s \<le> following t) \<or>
         (\<exists>e. entries t = push_bounded (capacity s) (entries s) e \<and>
              following s \<le> number e \<and> number e < following t)"
    and capacity_fixed: "arrive s t \<Longrightarrow> capacity t = capacity s"
begin

definition ring_ok :: "'s \<Rightarrow> bool" where
  "ring_ok s =
     (increasing number (entries s) \<and> (\<forall>e \<in> set (entries s). number e < following s) \<and>
      length (entries s) \<le> capacity s)"

lemma ring_ok_arrive:
  assumes "arrive s t" "ring_ok s"
  shows "ring_ok t"
  using arrival[OF assms(1)]
proof (elim disjE exE conjE)
  fix e assume e: "entries t = push_bounded (capacity s) (entries s) e" "following s \<le> number e" "number e < following t"
  have older: "\<forall>d \<in> set (entries s). number d < number e"
    using assms(2) e(2) unfolding ring_ok_def by fastforce
  have "\<forall>d \<in> set (entries t). number d < following t"
    using set_push_bounded[of "capacity s" "entries s" e] older e by fastforce
  moreover have "increasing number (entries t)"
    unfolding e(1) using assms(2) older by (intro increasing_push) (simp_all add: ring_ok_def)
  ultimately show ?thesis
    using capacity_fixed[OF assms(1)] unfolding ring_ok_def e(1) by (simp add: length_push_bounded)
qed (use assms capacity_fixed[OF assms(1)] in \<open>force simp: ring_ok_def\<close>)

lemma ring_ok_run: "arrive\<^sup>*\<^sup>* s t \<Longrightarrow> ring_ok s \<Longrightarrow> ring_ok t"
  by (induction rule: rtranclp_induct) (auto intro: ring_ok_arrive)

text \<open>Whatever arrives later, what is left of the earlier entries is a suffix of them.\<close>

lemma arrivals:
  assumes "arrive\<^sup>*\<^sup>* s t"
  shows "\<exists>out new. entries s @ new = out @ entries t \<and> (\<forall>e \<in> set new. following s \<le> number e) \<and> following s \<le> following t"
  using assms
proof (induction rule: rtranclp_induct)
  case base
  then show ?case by (intro exI[of _ "[]"]) simp
next
  case (step t u)
  then obtain out new where IH: "entries s @ new = out @ entries t" "\<forall>e \<in> set new. following s \<le> number e"
      "following s \<le> following t" by blast
  from arrival[OF step.hyps(2)] show ?case
  proof (elim disjE exE conjE)
    fix e assume e: "entries u = push_bounded (capacity t) (entries t) e" "following t \<le> number e" "number e < following u"
    obtain gone where "entries t @ [e] = gone @ entries u"
      using push_bounded_suffix[of "entries t" e "capacity t"] unfolding e(1)[symmetric] ..
    then have "entries s @ (new @ [e]) = (out @ gone) @ entries u"
      unfolding append_assoc[symmetric] IH(1) by (simp only: append_assoc)
    moreover have "following s \<le> number e" "following s \<le> following u"
      using IH(3) e(2,3) by linarith+
    then have "\<forall>d \<in> set (new @ [e]). following s \<le> number d" "following s \<le> following u"
      using IH(2) by simp_all
    ultimately show ?thesis by (intro exI conjI)
  next
    assume "entries u = entries t" "following t \<le> following u"
    then show ?thesis using IH by (intro exI[of _ out] exI[of _ new]) auto
  qed
qed

lemma only_the_oldest_leave:
  assumes "arrive\<^sup>*\<^sup>* s t" "ring_ok s" "e \<in> set (entries s)" "e \<notin> set (entries t)" "d \<in> set (entries t)"
  shows "number e < number d"
proof -
  obtain out new where o: "entries s @ new = out @ entries t" "\<forall>e \<in> set new. following s \<le> number e"
    using arrivals[OF assms(1)] by blast
  have inc: "increasing number (entries s)" and below: "number e < following s"
    using assms(2,3) by (auto simp: ring_ok_def)
  from o(1) obtain us where "entries s = out @ us \<and> us @ new = entries t \<or> entries s @ us = out \<and> new = us @ entries t"
    unfolding append_eq_append_conv2 by blast
  then show ?thesis
  proof (elim disjE conjE)
    assume s: "entries s = out @ us" and t: "us @ new = entries t"
    have "e \<in> set out" using assms(3,4) s t[symmetric] by auto
    moreover have "d \<in> set us \<or> d \<in> set new" using assms(5) t[symmetric] by auto
    ultimately show ?thesis using inc o(2) below unfolding s increasing_append by fastforce
  next
    assume "new = us @ entries t"
    then have "following s \<le> number d" using o(2) assms(5) by simp
    with below show ?thesis by simp
  qed
qed

end

end
