(* ===== verification/Runtime_Log.thy ===== *)
theory Runtime_Log
  imports Sequenced_Ring Utf8 Transport Didi_Json
begin

text \<open>
  \<open>RuntimeLogRing\<close> of \<open>src/gdextension/runtime_log.cpp\<close>: the ring an agent pages through to
  read the editor's and the game's output. A sequence number is a 64-bit word, and the ring
  stops when it runs out. \<open>dump\<close> is the serializer of the vendored JSON library; it answers
  \<open>None\<close> where the library throws. The clock and every argument of a call are inputs.
\<close>

section \<open>State\<close>

record log_record =
  lr_sequence :: "64 word"
  lr_timestamp_ms :: int
  lr_level :: string
  lr_source :: string
  lr_message :: string
  lr_details :: json
  lr_clipped :: bool

record log_ring =
  log_capacity :: nat
  log_first :: "64 word"
  log_next :: "64 word"
  log_exhausted :: bool
  log_records :: "log_record list"

definition k_max_message_bytes :: nat where
  "k_max_message_bytes = 16 * 1024"

definition k_max_details_bytes :: nat where
  "k_max_details_bytes = 64 * 1024"

definition new_log :: "nat \<Rightarrow> 64 word \<Rightarrow> log_ring" where
  "new_log cap first =
     \<lparr>log_capacity = max 1 cap, log_first = (if first = 0 then 1 else first),
      log_next = (if first = 0 then 1 else first), log_exhausted = False, log_records = []\<rparr>"

section \<open>Levels\<close>

definition is_valid_level :: "string \<Rightarrow> bool" where
  "is_valid_level level = (level \<in> {''debug'', ''info'', ''warning'', ''error''})"

definition level_rank :: "string \<Rightarrow> int" where
  "level_rank level =
     (if level = ''debug'' then 0
      else if level = ''info'' then 1
      else if level = ''warning'' then 2
      else if level = ''error'' then 3
      else -1)"

section \<open>Recording\<close>

definition cut_details :: "string \<Rightarrow> json" where
  "cut_details preview = jobj [(''truncated'', JBool True), (''preview'', JStr preview)]"

lemma truncate_length: "length (truncate_utf8 s n) \<le> n"
  using log.clip_bound[of 0 n s] by (simp add: truncate_utf8_def)

text \<open>The loop that shortens the preview until its serialization fits.\<close>

function shrink_preview :: "(json \<Rightarrow> string option) \<Rightarrow> string \<Rightarrow> string option" where
  "shrink_preview dump preview =
     (if preview = [] then Some []
      else case dump (cut_details preview) of
             None \<Rightarrow> None
           | Some out \<Rightarrow>
               if length out > k_max_details_bytes
               then shrink_preview dump (truncate_utf8 preview (length preview - 1))
               else Some preview)"
  by auto
termination
proof (relation "measure (\<lambda>(dump, preview). length preview)")
  fix dump :: "json \<Rightarrow> string option" and preview out :: string
  assume "preview \<noteq> []"
  then show "((dump, truncate_utf8 preview (length preview - 1)), dump, preview)
      \<in> measure (\<lambda>(dump, preview). length preview)"
    using truncate_length[of preview "length preview - 1"] by (cases preview) auto
qed simp

declare shrink_preview.simps [simp del]

definition bounded_details :: "(json \<Rightarrow> string option) \<Rightarrow> json \<Rightarrow> json option" where
  "bounded_details dump details =
     (if is_null details then Some JNull
      else
        let normalized = (if is_object details then details else jobj [(''value'', details)])
        in case dump normalized of
             None \<Rightarrow> Some (cut_details ''Invalid UTF-8 details omitted.'')
           | Some serialized \<Rightarrow>
               if length serialized \<le> k_max_details_bytes then Some normalized
               else map_option cut_details
                      (shrink_preview dump (truncate_utf8 serialized k_max_details_bytes)))"

text \<open>
  A call of \<open>append\<close>: what it answers, or \<open>None\<close> when the serializer throws out of it, and the
  ring it leaves. The sequence number is taken before the details are serialized.
\<close>

definition append_log ::
  "(json \<Rightarrow> string option) \<Rightarrow> int \<Rightarrow> string \<Rightarrow> string \<Rightarrow> string \<Rightarrow> json \<Rightarrow> log_ring
     \<Rightarrow> (refusal, 64 word) result option \<times> log_ring" where
  "append_log dump now level source message details ring =
     (if \<not> is_valid_level level then
        (Some (Inl \<lparr>err_code = 400, err_message = ''Runtime log level must be debug, info, warning, or error'',
                    err_data = JNull\<rparr>), ring)
      else
        let msg_text = without_terminal_escapes message;
            bounded_message = truncate_utf8 msg_text k_max_message_bytes
        in if log_exhausted ring then
             (Some (Inl \<lparr>err_code = 507, err_message = ''Runtime log sequence is exhausted'', err_data = JNull\<rparr>), ring)
           else
             let sequence = log_next ring;
                 taken = (if sequence = - 1 then ring\<lparr>log_exhausted := True\<rparr>
                          else ring\<lparr>log_next := sequence + 1\<rparr>);
                 clipped = (length msg_text > k_max_message_bytes \<or> length source > 1024)
             in case bounded_details dump details of
                  None \<Rightarrow> (None, taken)
                | Some kept \<Rightarrow>
                    (Some (Inr sequence),
                     taken\<lparr>log_records := push_bounded (log_capacity ring) (log_records ring)
                       \<lparr>lr_sequence = sequence, lr_timestamp_ms = now, lr_level = truncate_utf8 level 16,
                        lr_source = truncate_utf8 source 1024, lr_message = bounded_message,
                        lr_details = kept, lr_clipped = clipped\<rparr>\<rparr>))"

section \<open>Reading\<close>

definition next_sequence :: "log_ring \<Rightarrow> 64 word" where
  "next_sequence ring = log_next ring"

definition count_from :: "log_ring \<Rightarrow> 64 word \<Rightarrow> string \<Rightarrow> nat" where
  "count_from ring cursor minimum_level =
     (if \<not> is_valid_level minimum_level then 0
      else length (filter (\<lambda>r. \<not> lr_sequence r < cursor \<and> \<not> level_rank (lr_level r) < level_rank minimum_level)
                    (log_records ring)))"

record log_page =
  page_records :: "json list"
  page_next :: "64 word"
  page_inspected :: bool
  page_last :: "64 word"
  page_clipped :: bool

definition record_json :: "log_record \<Rightarrow> json" where
  "record_json r =
     (let v = jobj [(''sequence'', JUInt (unat (lr_sequence r))), (''timestamp_ms'', JInt (lr_timestamp_ms r)),
                    (''level'', JStr (lr_level r)), (''source'', JStr (lr_source r)),
                    (''message'', JStr (lr_message r)), (''details'', lr_details r)]
      in if lr_clipped r then jput ''message_truncated'' (JBool True) v else v)"

definition details_cut :: "log_record \<Rightarrow> bool" where
  "details_cut r =
     (is_object (lr_details r) \<and> length (members (lr_details r)) = 2 \<and>
      contains (lr_details r) ''preview'' \<and> jget (lr_details r) ''truncated'' = Some (JBool True))"

definition inspect_record :: "log_record \<Rightarrow> log_page \<Rightarrow> log_page" where
  "inspect_record r p =
     p\<lparr>page_inspected := True, page_last := lr_sequence r,
       page_next := (if lr_sequence r = - 1 then - 1 else lr_sequence r + 1)\<rparr>"

definition take_record :: "log_record \<Rightarrow> log_page \<Rightarrow> log_page" where
  "take_record r p =
     p\<lparr>page_records := page_records p @ [record_json r],
       page_clipped := page_clipped p \<or> lr_clipped r \<or> details_cut r\<rparr>"

fun read_records :: "64 word \<Rightarrow> nat \<Rightarrow> int \<Rightarrow> log_record list \<Rightarrow> log_page \<Rightarrow> log_page" where
  "read_records start limit rank [] p = p"
| "read_records start limit rank (r # rs) p =
     (if lr_sequence r < start then read_records start limit rank rs p
      else
        let seen = inspect_record r p
        in if level_rank (lr_level r) < rank then read_records start limit rank rs seen
           else
             let took = take_record r seen
             in if limit \<le> length (page_records took) then took
                else read_records start limit rank rs took)"

definition page_json :: "log_page \<Rightarrow> 64 word \<Rightarrow> bool \<Rightarrow> bool \<Rightarrow> bool \<Rightarrow> json" where
  "page_json page oldest dropped has_more overflowed =
     jobj [(''records'', JArr (page_records page)), (''next_cursor'', JUInt (unat (page_next page))),
           (''oldest_cursor'', JUInt (unat oldest)), (''dropped_before_cursor'', JBool dropped),
           (''has_more'', JBool has_more), (''sequence_overflowed'', JBool overflowed),
           (''truncated'', JBool (has_more \<or> dropped \<or> page_clipped page))]"

definition requested_cursor :: "log_ring \<Rightarrow> 64 word \<Rightarrow> 64 word" where
  "requested_cursor ring cursor = (if cursor = 0 then log_first ring else cursor)"

definition read_log :: "log_ring \<Rightarrow> 64 word \<Rightarrow> nat \<Rightarrow> string \<Rightarrow> (refusal, json) result" where
  "read_log ring cursor limit minimum_level =
     (if limit < 1 \<or> 500 < limit then
        Inl \<lparr>err_code = 400, err_message = ''Runtime log limit must be an integer from 1 to 500'', err_data = JNull\<rparr>
      else if \<not> is_valid_level minimum_level then
        Inl \<lparr>err_code = 400,
             err_message = ''Runtime log minimum_level must be debug, info, warning, or error'', err_data = JNull\<rparr>
      else
        let records = log_records ring;
            oldest = (if records = [] then log_next ring else lr_sequence (hd records));
            requested = requested_cursor ring cursor;
            dropped = (records \<noteq> [] \<and> requested < oldest);
            start = (if requested < oldest then oldest else requested);
            page = read_records start limit (level_rank minimum_level) records
                     \<lparr>page_records = [], page_next = start, page_inspected = False, page_last = 0,
                      page_clipped = False\<rparr>;
            has_more = (records \<noteq> [] \<and>
                        (if page_inspected page then page_last page < lr_sequence (last records)
                         else start \<le> lr_sequence (last records)))
        in Inr (page_json page oldest dropped has_more (log_exhausted ring)))"

section \<open>The ring\<close>

definition log_following :: "log_ring \<Rightarrow> nat" where
  "log_following ring = (if log_exhausted ring then 2 ^ 64 else unat (log_next ring))"

definition log_arrive :: "log_ring \<Rightarrow> log_ring \<Rightarrow> bool" where
  "log_arrive s t =
     (\<exists>dump now level source message details. t = snd (append_log dump now level source message details s))"

text \<open>The four ways a call of \<open>append\<close> ends.\<close>

lemma append_log_cases [consumes 1, case_names refused threw recorded]:
  assumes "append_log dump now level source message details s = (answer, t)"
  obtains (refused) e where "answer = Some (Inl e)" "t = s"
  | (threw) "answer = None" "log_records t = log_records s" "log_capacity t = log_capacity s" "log_first t = log_first s"
      "\<not> log_exhausted s" "if log_next s = - 1 then log_exhausted t \<and> log_next t = log_next s
                                else \<not> log_exhausted t \<and> log_next t = log_next s + 1"
      "bounded_details dump details = None"
  | (recorded) r where "answer = Some (Inr (log_next s))" "lr_sequence r = log_next s" "is_valid_level level"
      "log_records t = push_bounded (log_capacity s) (log_records s) r"
      "log_capacity t = log_capacity s" "log_first t = log_first s" "\<not> log_exhausted s"
      "if log_next s = - 1 then log_exhausted t \<and> log_next t = log_next s
                                else \<not> log_exhausted t \<and> log_next t = log_next s + 1"
      "lr_level r = truncate_utf8 level 16" "lr_source r = truncate_utf8 source 1024"
      "lr_message r = truncate_utf8 (without_terminal_escapes message) k_max_message_bytes"
      "bounded_details dump details = Some (lr_details r)"
      "lr_clipped r \<longleftrightarrow> length (without_terminal_escapes message) > k_max_message_bytes \<or> length source > 1024"
proof (cases "is_valid_level level \<and> \<not> log_exhausted s")
  case False
  then obtain e where "answer = Some (Inl e)" "t = s"
    using assms by (auto simp: append_log_def Let_def split: if_splits)
  then show ?thesis by (rule refused)
next
  case True
  show ?thesis
  proof (cases "bounded_details dump details")
    case None
    then show ?thesis using assms True by (intro threw) (auto simp: append_log_def Let_def)
  next
    case (Some kept)
    let ?r = "\<lparr>lr_sequence = log_next s, lr_timestamp_ms = now, lr_level = truncate_utf8 level 16,
                lr_source = truncate_utf8 source 1024,
                lr_message = truncate_utf8 (without_terminal_escapes message) k_max_message_bytes,
                lr_details = kept,
                lr_clipped = (length (without_terminal_escapes message) > k_max_message_bytes \<or> length source > 1024)\<rparr>"
    show ?thesis
      using assms True Some by (intro recorded[of ?r]) (auto simp: append_log_def Let_def)
  qed
qed

interpretation rlog: sequenced_ring log_records "\<lambda>r. unat (lr_sequence r)" log_following log_capacity log_arrive
proof
  fix s t assume "log_arrive s t"
  then obtain dump now level source message details answer where
    a: "append_log dump now level source message details s = (answer, t)"
    unfolding log_arrive_def by (metis prod.collapse)
  have up: "log_following s = unat (log_next s)" "log_following t = Suc (unat (log_next s))"
    if "\<not> log_exhausted s" "if log_next s = - 1 then log_exhausted t \<and> log_next t = log_next s
                                else \<not> log_exhausted t \<and> log_next t = log_next s + 1"
    using that unat_next[of "log_next s"] unat_max by (auto simp: log_following_def split: if_splits)
  from a show "(log_records t = log_records s \<and> log_following s \<le> log_following t) \<or>
      (\<exists>r. log_records t = push_bounded (log_capacity s) (log_records s) r \<and>
           log_following s \<le> unat (lr_sequence r) \<and> unat (lr_sequence r) < log_following t)"
    by (cases rule: append_log_cases) (use up in auto)
  from a show "log_capacity t = log_capacity s"
    by (cases rule: append_log_cases) auto
qed

text \<open>A ring a caller can meet: made by the constructor, then only appended to.\<close>

definition log_ok :: "log_ring \<Rightarrow> bool" where
  "log_ok ring = (rlog.ring_ok ring \<and> 0 < log_capacity ring)"

lemma log_ok_new: "log_ok (new_log cap first)"
  by (simp add: log_ok_def rlog.ring_ok_def new_log_def increasing_def)

lemma log_ok_append: "log_ok s \<Longrightarrow> log_ok (snd (append_log dump now level source message details s))"
  using rlog.ring_ok_arrive[of s] rlog.capacity_fixed[of s] unfolding log_ok_def log_arrive_def by (metis (no_types))

lemma log_capacity_append:
  "log_capacity (snd (append_log dump now level source message details s)) = log_capacity s"
  using rlog.capacity_fixed[of s] unfolding log_arrive_def by blast

section \<open>One page\<close>

lemma read_records_skip:
  "read_records start limit rank rs p =
     read_records start limit rank (dropWhile (\<lambda>r. lr_sequence r < start) rs) p"
  by (induction rs) auto

definition visible :: "int \<Rightarrow> log_record \<Rightarrow> bool" where
  "visible rank r = (rank \<le> level_rank (lr_level r))"

lemma read_records_page:
  assumes "\<forall>r \<in> set rs. \<not> lr_sequence r < start" "length (page_records p) < limit"
  shows "\<exists>a b. rs = a @ b \<and> (rs \<noteq> [] \<longrightarrow> a \<noteq> []) \<and>
    (let q = read_records start limit rank rs p
     in page_records q = page_records p @ map record_json (filter (visible rank) a) \<and>
        length (page_records q) \<le> limit \<and>
        page_inspected q = (page_inspected p \<or> a \<noteq> []) \<and>
        page_last q = (if a = [] then page_last p else lr_sequence (last a)) \<and>
        page_next q = (if a = [] then page_next p
                       else if lr_sequence (last a) = - 1 then - 1 else lr_sequence (last a) + 1))"
  using assms
proof (induction rs arbitrary: p)
  case Nil
  then show ?case by simp
next
  case (Cons r rs)
  let ?s = "inspect_record r p" and ?t = "take_record r (inspect_record r p)"
  have here: "\<not> lr_sequence r < start" and rest: "\<forall>r \<in> set rs. \<not> lr_sequence r < start"
    using Cons.prems(1) by auto
  have vis: "visible rank r \<longleftrightarrow> \<not> level_rank (lr_level r) < rank"
    by (auto simp: visible_def)
  consider (hidden) "level_rank (lr_level r) < rank" | (full) "\<not> level_rank (lr_level r) < rank" "limit \<le> length (page_records ?t)"
    | (more) "\<not> level_rank (lr_level r) < rank" "\<not> limit \<le> length (page_records ?t)"
    by blast
  then show ?case
  proof cases
    case hidden
    have "length (page_records ?s) < limit" using Cons.prems(2) by (simp add: inspect_record_def)
    from Cons.IH[OF rest this] obtain a b where "rs = a @ b" and "let q = read_records start limit rank rs ?s
       in page_records q = page_records ?s @ map record_json (filter (visible rank) a) \<and>
        length (page_records q) \<le> limit \<and> page_inspected q = (page_inspected ?s \<or> a \<noteq> []) \<and>
        page_last q = (if a = [] then page_last ?s else lr_sequence (last a)) \<and>
        page_next q = (if a = [] then page_next ?s
                       else if lr_sequence (last a) = - 1 then - 1 else lr_sequence (last a) + 1)"
      by blast
    then show ?thesis
      using here hidden by - (rule exI[of _ "r # a"], rule exI[of _ b], use vis in \<open>auto simp: Let_def inspect_record_def\<close>)
  next
    case full
    then show ?thesis
      using here Cons.prems(2)
      by - (rule exI[of _ "[r]"], rule exI[of _ rs], simp add: Let_def inspect_record_def take_record_def visible_def)
  next
    case more
    then have "length (page_records ?t) < limit" by simp
    from Cons.IH[OF rest this] obtain a b where "rs = a @ b" and "let q = read_records start limit rank rs ?t
       in page_records q = page_records ?t @ map record_json (filter (visible rank) a) \<and>
        length (page_records q) \<le> limit \<and> page_inspected q = (page_inspected ?t \<or> a \<noteq> []) \<and>
        page_last q = (if a = [] then page_last ?t else lr_sequence (last a)) \<and>
        page_next q = (if a = [] then page_next ?t
                       else if lr_sequence (last a) = - 1 then - 1 else lr_sequence (last a) + 1)"
      by blast
    then show ?thesis
      using here more
      by - (rule exI[of _ "r # a"], rule exI[of _ b],
            use vis in \<open>auto simp: Let_def inspect_record_def take_record_def\<close>)
  qed
qed

lemma page_json_get:
  "jget (page_json page oldest dropped has_more overflowed) ''records'' = Some (JArr (page_records page))"
  "jget (page_json page oldest dropped has_more overflowed) ''next_cursor'' = Some (JUInt (unat (page_next page)))"
  "jget (page_json page oldest dropped has_more overflowed) ''has_more'' = Some (JBool has_more)"
  "jget (page_json page oldest dropped has_more overflowed) ''dropped_before_cursor'' = Some (JBool dropped)"
  by (simp_all add: page_json_def jget_jobj)

section \<open>A pager\<close>

text \<open>
  What a client does with the pages: it asks again at \<open>next_cursor\<close> for as long as
  \<open>has_more\<close> says so. \<open>fuel\<close> bounds the number of pages.
\<close>

definition cursor_of :: "json option \<Rightarrow> 64 word" where
  "cursor_of v = (case v of Some (JUInt n) \<Rightarrow> word_of_nat n | _ \<Rightarrow> 0)"

fun read_pages :: "nat \<Rightarrow> log_ring \<Rightarrow> 64 word \<Rightarrow> nat \<Rightarrow> string \<Rightarrow> json list list option" where
  "read_pages 0 ring cursor limit level = None"
| "read_pages (Suc fuel) ring cursor limit level =
     (case read_log ring cursor limit level of
        Inl e \<Rightarrow> None
      | Inr page \<Rightarrow>
          let now = (case jget page ''records'' of Some v \<Rightarrow> elements v | None \<Rightarrow> [])
          in if jget page ''has_more'' = Some (JBool True)
             then map_option (Cons now) (read_pages fuel ring (cursor_of (jget page ''next_cursor'')) limit level)
             else Some [now])"

lemma increasing_hd:
  "increasing number es \<Longrightarrow> e \<in> set es \<Longrightarrow> number (hd es) \<le> number e"
  by (cases es) (auto simp: increasing_def)

lemma increasing_last:
  "increasing number es \<Longrightarrow> e \<in> set es \<Longrightarrow> number e \<le> number (last es)"
  by (induction es) (auto simp: increasing_def less_imp_le)

text \<open>One call of \<open>read\<close>: it inspects a prefix of what the cursor asks for.\<close>

lemma read_log_page:
  fixes ring :: log_ring and cursor :: "64 word"
  assumes ok: "log_ok ring" and limit: "1 \<le> limit" "limit \<le> 500" and level: "is_valid_level level"
  defines "rs \<equiv> filter (\<lambda>r. \<not> lr_sequence r < requested_cursor ring cursor) (log_records ring)"
  obtains page a b where "read_log ring cursor limit level = Inr page" "rs = a @ b"
    "jget page ''records'' = Some (JArr (map record_json (filter (visible (level_rank level)) a)))"
    "length (filter (visible (level_rank level)) a) \<le> limit"
    "jget page ''has_more'' = Some (JBool (b \<noteq> []))"
    "rs \<noteq> [] \<Longrightarrow> a \<noteq> []"
    "b \<noteq> [] \<Longrightarrow> jget page ''next_cursor'' = Some (JUInt (unat (lr_sequence (last a) + 1)))"
    "jget page ''dropped_before_cursor'' =
       Some (JBool (log_records ring \<noteq> [] \<and> requested_cursor ring cursor < lr_sequence (hd (log_records ring))))"
proof -
  let ?recs = "log_records ring"
  let ?oldest = "if ?recs = [] then log_next ring else lr_sequence (hd ?recs)"
  let ?req = "requested_cursor ring cursor"
  let ?start = "if ?req < ?oldest then ?oldest else ?req"
  let ?p = "\<lparr>page_records = [], page_next = ?start, page_inspected = False, page_last = 0, page_clipped = False\<rparr>"
  have inc: "increasing (\<lambda>r. unat (lr_sequence r)) ?recs"
    using ok by (simp add: log_ok_def rlog.ring_ok_def)
  have least: "lr_sequence (hd ?recs) \<le> lr_sequence r" if "r \<in> set ?recs" for r
    using increasing_hd[OF inc that] by (simp add: word_le_nat_alt)
  have same: "\<not> lr_sequence r < ?start \<longleftrightarrow> \<not> lr_sequence r < ?req" if "r \<in> set ?recs" for r
  proof -
    have "?oldest = lr_sequence (hd ?recs)" using that by auto
    then show ?thesis using least[OF that] by (auto simp: not_less)
  qed
  have "dropWhile (\<lambda>r. lr_sequence r < ?start) ?recs = filter (\<lambda>r. \<not> lr_sequence r < ?start) ?recs"
    using increasing_from[OF inc, of "unat ?start"] by (simp add: word_less_nat_alt not_less)
  also have "\<dots> = rs"
    unfolding rs_def using same by (intro filter_cong) simp_all
  finally have skip: "read_records ?start limit (level_rank level) ?recs ?p
      = read_records ?start limit (level_rank level) rs ?p"
    by (subst read_records_skip) simp
  have all: "\<forall>r \<in> set rs. \<not> lr_sequence r < ?start"
    unfolding rs_def using same by simp
  define q where "q = read_records ?start limit (level_rank level) rs ?p"
  obtain a b where ab: "rs = a @ b" "rs \<noteq> [] \<longrightarrow> a \<noteq> []" and
      q: "page_records q = map record_json (filter (visible (level_rank level)) a)"
      "length (page_records q) \<le> limit" "page_inspected q = (a \<noteq> [])"
      "page_last q = (if a = [] then 0 else lr_sequence (last a))"
      "page_next q = (if a = [] then ?start
                      else if lr_sequence (last a) = - 1 then - 1 else lr_sequence (last a) + 1)"
    using read_records_page[OF all, of ?p limit "level_rank level"] limit(1) unfolding q_def Let_def by auto
  have incab: "increasing (\<lambda>r. unat (lr_sequence r)) (a @ b)"
    using increasing_filter[OF inc] unfolding ab(1)[symmetric] rs_def by blast
  have last_rs: "last ?recs \<in> set rs" if "\<not> lr_sequence (last ?recs) < ?req" "?recs \<noteq> []"
    using that unfolding rs_def by simp
  have last_of: "last ?recs = last rs" if "rs \<noteq> []"
  proof -
    obtain front where front: "?recs = front @ rs"
      using increasing_from[OF inc, of "unat ?req"] unfolding rs_def
      by (metis (mono_tags, lifting) filter_cong not_less takeWhile_dropWhile_id word_less_nat_alt)
    with that show ?thesis by simp
  qed
  have more: "(?recs \<noteq> [] \<and> (if page_inspected q then page_last q < lr_sequence (last ?recs)
                               else ?start \<le> lr_sequence (last ?recs))) \<longleftrightarrow> b \<noteq> []"
  proof (cases "rs = []")
    case True
    then have "\<not> (?recs \<noteq> [] \<and> ?start \<le> lr_sequence (last ?recs))"
      using last_rs same[of "last ?recs"] by (auto simp: not_less)
    then show ?thesis using True ab(1) q(3) by auto
  next
    case False
    then have a: "a \<noteq> []" and recs: "?recs \<noteq> []" using ab(2) by (auto simp: rs_def)
    have "page_last q < lr_sequence (last ?recs) \<longleftrightarrow> b \<noteq> []"
    proof (cases "b = []")
      case True
      then show ?thesis using a q(4) last_of[OF False] ab(1) by simp
    next
      case b: False
      then have "last ?recs = last b" using last_of[OF False] ab(1) by simp
      then show ?thesis
        using a b q(4) incab last_in_set[OF a] last_in_set[OF b] unfolding increasing_append
        by (simp add: word_less_nat_alt)
    qed
    then show ?thesis using a recs q(3) by simp
  qed
  have nxt: "page_next q = lr_sequence (last a) + 1" if "b \<noteq> []"
  proof -
    have a: "a \<noteq> []" using ab that by auto
    have "unat (lr_sequence (last a)) < unat (lr_sequence (last b))"
      using incab last_in_set[OF a] last_in_set[OF that] unfolding increasing_append by blast
    then have "lr_sequence (last a) \<noteq> - 1"
      using unat_below[of "lr_sequence (last b)"] by (auto simp: unat_max)
    then show ?thesis using a q(5) by simp
  qed
  have lims: "\<not> (limit < 1 \<or> 500 < limit)" using limit by simp
  let ?page = "page_json q ?oldest (?recs \<noteq> [] \<and> ?req < ?oldest) (b \<noteq> []) (log_exhausted ring)"
  have read: "read_log ring cursor limit level = Inr ?page"
    unfolding read_log_def Let_def if_not_P[OF lims] skip q_def[symmetric] more using level by simp
  have dropped: "(?recs \<noteq> [] \<and> ?req < ?oldest) = (?recs \<noteq> [] \<and> ?req < lr_sequence (hd ?recs))"
    by auto
  show ?thesis
  proof (rule that[OF read ab(1)])
    show "jget ?page ''records'' = Some (JArr (map record_json (filter (visible (level_rank level)) a)))"
      unfolding page_json_get q(1) ..
    show "length (filter (visible (level_rank level)) a) \<le> limit"
      using q(1,2) by simp
    show "jget ?page ''has_more'' = Some (JBool (b \<noteq> []))"
      by (rule page_json_get)
    show "jget ?page ''dropped_before_cursor'' = Some (JBool (?recs \<noteq> [] \<and> ?req < lr_sequence (hd ?recs)))"
      unfolding page_json_get dropped ..
    show "rs \<noteq> [] \<Longrightarrow> a \<noteq> []" using ab(2) by blast
    show "b \<noteq> [] \<Longrightarrow> jget ?page ''next_cursor'' = Some (JUInt (unat (lr_sequence (last a) + 1)))"
      unfolding page_json_get using nxt by simp
  qed
qed

lemma cursor_of_JUInt [simp]: "cursor_of (Some (JUInt (unat w))) = w"
  by (simp add: cursor_of_def)

text \<open>The records past the last one of a page are what its next cursor asks for.\<close>

lemma after_the_page:
  assumes "log_ok ring" "filter (\<lambda>r. \<not> lr_sequence r < c) (log_records ring) = a @ b" "a \<noteq> []" "b \<noteq> []"
  shows "lr_sequence (last a) + 1 \<noteq> 0"
    "filter (\<lambda>r. \<not> lr_sequence r < lr_sequence (last a) + 1) (log_records ring) = b"
proof -
  let ?recs = "log_records ring"
  have inc: "increasing (\<lambda>r. unat (lr_sequence r)) ?recs"
    using assms(1) by (simp add: log_ok_def rlog.ring_ok_def)
  have incab: "increasing (\<lambda>r. unat (lr_sequence r)) (a @ b)"
    using increasing_filter[OF inc] unfolding assms(2)[symmetric] by blast
  have "unat (lr_sequence (last a)) < unat (lr_sequence (last b))"
    using incab last_in_set[OF assms(3)] last_in_set[OF assms(4)] unfolding increasing_append by blast
  then have not_max: "lr_sequence (last a) \<noteq> - 1"
    using unat_below[of "lr_sequence (last b)"] by (auto simp: unat_max)
  then show "lr_sequence (last a) + 1 \<noteq> 0"
    by (metis add.commute eq_neg_iff_add_eq_0)
  have low: "\<not> lr_sequence r < lr_sequence (last a) + 1 \<longleftrightarrow> unat (lr_sequence (last a)) < unat (lr_sequence r)" for r
    using unat_next[OF not_max] by (auto simp: word_less_nat_alt)
  have c: "c \<le> lr_sequence (last a)"
  proof -
    have "last a \<in> set (filter (\<lambda>r. \<not> lr_sequence r < c) ?recs)"
      unfolding assms(2) using last_in_set[OF assms(3)] by simp
    then show ?thesis by (simp add: not_less)
  qed
  have "filter (\<lambda>r. \<not> lr_sequence r < lr_sequence (last a) + 1) ?recs
      = filter (\<lambda>r. unat (lr_sequence (last a)) < unat (lr_sequence r)) (filter (\<lambda>r. \<not> lr_sequence r < c) ?recs)"
    unfolding filter_filter low using c by (intro filter_cong) (auto simp: word_less_nat_alt word_le_nat_alt)
  also have "\<dots> = b"
  proof -
    have "\<forall>r \<in> set a. \<not> unat (lr_sequence (last a)) < unat (lr_sequence r)"
      using increasing_last[of "\<lambda>r. unat (lr_sequence r)" a] incab unfolding increasing_append
      by (simp add: not_less)
    moreover have "\<forall>r \<in> set b. unat (lr_sequence (last a)) < unat (lr_sequence r)"
      using incab last_in_set[OF assms(3)] unfolding increasing_append by blast
    ultimately show ?thesis unfolding assms(2) filter_append by (simp add: filter_empty_conv)
  qed
  finally show "filter (\<lambda>r. \<not> lr_sequence r < lr_sequence (last a) + 1) (log_records ring) = b" .
qed

lemma read_pages_complete:
  assumes "log_ok ring" "1 \<le> limit" "limit \<le> 500" "is_valid_level level"
    "length (filter (\<lambda>r. \<not> lr_sequence r < requested_cursor ring cursor) (log_records ring)) < fuel"
  shows "\<exists>pages. read_pages fuel ring cursor limit level = Some pages \<and>
    concat pages = map record_json (filter (visible (level_rank level))
      (filter (\<lambda>r. \<not> lr_sequence r < requested_cursor ring cursor) (log_records ring))) \<and>
    list_all (\<lambda>page. length page \<le> limit) pages"
  using assms(5)
proof (induction fuel arbitrary: cursor)
  case (Suc fuel)
  let ?rs = "filter (\<lambda>r. \<not> lr_sequence r < requested_cursor ring cursor) (log_records ring)"
  obtain page a b where page: "read_log ring cursor limit level = Inr page" and rs: "?rs = a @ b" and
      recs: "jget page ''records'' = Some (JArr (map record_json (filter (visible (level_rank level)) a)))" and
      len: "length (filter (visible (level_rank level)) a) \<le> limit" and
      more: "jget page ''has_more'' = Some (JBool (b \<noteq> []))" and
      some: "?rs \<noteq> [] \<Longrightarrow> a \<noteq> []" and
      nxt: "b \<noteq> [] \<Longrightarrow> jget page ''next_cursor'' = Some (JUInt (unat (lr_sequence (last a) + 1)))"
    using read_log_page[OF assms(1-4), of cursor] by metis
  show ?case
  proof (cases "b = []")
    case True
    then show ?thesis using page recs more len rs by simp
  next
    case False
    then have a: "a \<noteq> []" using some rs by simp
    let ?c = "lr_sequence (last a) + 1"
    have later: "requested_cursor ring ?c = ?c" "filter (\<lambda>r. \<not> lr_sequence r < ?c) (log_records ring) = b"
      using after_the_page[OF assms(1) rs a False] by (simp_all add: requested_cursor_def)
    have "length b < fuel" using Suc.prems a unfolding rs by (cases a) auto
    then obtain pages where pages: "read_pages fuel ring ?c limit level = Some pages"
        "concat pages = map record_json (filter (visible (level_rank level)) b)" "list_all (\<lambda>page. length page \<le> limit) pages"
      using Suc.IH[of ?c] unfolding later by blast
    have "read_pages (Suc fuel) ring cursor limit level = Some (map record_json (filter (visible (level_rank level)) a) # pages)"
      using page recs more False nxt pages(1) by simp
    then show ?thesis using pages(2,3) len unfolding rs by simp
  qed
qed simp

text \<open>
  (C26) A client that asks again at \<open>next_cursor\<close> while \<open>has_more\<close> holds comes to an end, and has
  then been given every retained record at or after its cursor and at or above its level, in
  order, once each, in pages no longer than its limit. One page more than there are records is
  always enough.
\<close>

theorem pages_are_complete:
  assumes "log_ok ring" "1 \<le> limit" "limit \<le> 500" "is_valid_level level"
    "length (log_records ring) < fuel"
  shows "\<exists>pages. read_pages fuel ring cursor limit level = Some pages \<and>
    concat pages = map record_json (filter (visible (level_rank level))
      (filter (\<lambda>r. \<not> lr_sequence r < requested_cursor ring cursor) (log_records ring))) \<and>
    list_all (\<lambda>page. length page \<le> limit) pages"
  using assms(5) by (intro read_pages_complete[OF assms(1-4)] le_less_trans[OF length_filter_le])

definition plain_dump :: "json \<Rightarrow> string option" where
  "plain_dump v = Some []"

definition sample_log :: log_ring where
  "sample_log =
     snd (append_log plain_dump 7 ''error'' ''b'' ''two'' JNull
       (snd (append_log plain_dump 6 ''info'' ''b'' ''one'' JNull
         (snd (append_log plain_dump 5 ''debug'' ''a'' ''none'' JNull (new_log 2 1))))))"

theorem pages_are_complete_witness:
  "\<exists>pages. read_pages 3 sample_log 0 1 ''info'' = Some pages \<and>
    concat pages = map record_json (filter (visible (level_rank ''info''))
      (filter (\<lambda>r. \<not> lr_sequence r < requested_cursor sample_log 0) (log_records sample_log))) \<and>
    list_all (\<lambda>page. length page \<le> 1) pages"
proof (rule pages_are_complete)
  show ok: "log_ok sample_log" unfolding sample_log_def by (intro log_ok_append log_ok_new)
  have "log_capacity sample_log = 2"
    unfolding sample_log_def log_capacity_append by (simp add: new_log_def)
  then show "length (log_records sample_log) < 3"
    using ok by (simp add: log_ok_def rlog.ring_ok_def)
qed (simp_all add: is_valid_level_def)

section \<open>The history\<close>

text \<open>Every record ever appended, beside the ring that is left of them.\<close>

inductive logged :: "nat \<Rightarrow> 64 word \<Rightarrow> log_record list \<Rightarrow> log_ring \<Rightarrow> bool" for cap first where
  fresh: "logged cap first [] (new_log cap first)"
| refused: "logged cap first past s \<Longrightarrow>
     append_log dump now level source message details s = (Some (Inl e), t) \<Longrightarrow> logged cap first past t"
| recorded: "logged cap first past s \<Longrightarrow>
     append_log dump now level source message details s = (Some (Inr sequence), t) \<Longrightarrow>
     logged cap first (past @ [last (log_records t)]) t"

inductive_cases logged_appendE: "logged cap first (past @ [r]) t"

lemma logged_facts:
  assumes "logged cap first past r"
  shows "log_records r = drop (length past - log_capacity r) past" "log_capacity r = max 1 cap"
    "log_first r = (if first = 0 then 1 else first)" "log_ok r"
    "\<forall>i < length past. unat (lr_sequence (past ! i)) = unat (log_first r) + i"
    "log_following r = unat (log_first r) + length past"
proof -
  have "log_records r = drop (length past - log_capacity r) past \<and> log_capacity r = max 1 cap \<and>
    log_first r = (if first = 0 then 1 else first) \<and> log_ok r \<and>
    (\<forall>i < length past. unat (lr_sequence (past ! i)) = unat (log_first r) + i) \<and>
    log_following r = unat (log_first r) + length past"
    using assms
  proof induction
    case fresh
    show ?case by (simp add: log_ok_new) (simp add: new_log_def log_following_def)
  next
    case (refused past s dump now level source message details e t)
    from refused.hyps(2) have "t = s" by (cases rule: append_log_cases) auto
    then show ?case using refused.IH by simp
  next
    case (recorded past s dump now level source message details sequence t)
    have ok: "log_ok t" using log_ok_append recorded.IH recorded.hyps(2) by (metis snd_conv)
    from recorded.hyps(2) show ?case
    proof (cases rule: append_log_cases)
      case (recorded x)
      have cap: "0 < log_capacity s" using recorded.IH by simp
      have l: "last (log_records t) = x"
        unfolding recorded(4) using last_push_bounded[OF cap, of "log_records s" x] by (rule conjunct1)
      have before: "log_records s = drop (length past - log_capacity s) past" using recorded.IH by blast
      have recs: "log_records t = drop (length (past @ [x]) - log_capacity t) (past @ [x])"
        unfolding recorded(4,5) before by (rule push_bounded_drop)
      have f: "log_following s = unat (log_next s)" using recorded(7) by (simp add: log_following_def)
      have "log_following t = Suc (unat (log_next s))"
        using recorded(8) unat_next[of "log_next s"] unat_max by (auto simp: log_following_def split: if_splits)
      then have follow: "log_following t = unat (log_first t) + length (past @ [x])"
        using f recorded.IH recorded(6) by simp
      have "\<forall>i < length (past @ [x]). unat (lr_sequence ((past @ [x]) ! i)) = unat (log_first t) + i"
        using recorded.IH recorded(2,6) f by (auto simp: nth_append less_Suc_eq)
      then show ?thesis using l recs follow ok recorded.IH recorded(5,6) by simp
    qed auto
  qed
  then show "log_records r = drop (length past - log_capacity r) past" "log_capacity r = max 1 cap"
    "log_first r = (if first = 0 then 1 else first)" "log_ok r"
    "\<forall>i < length past. unat (lr_sequence (past ! i)) = unat (log_first r) + i"
    "log_following r = unat (log_first r) + length past"
    by blast+
qed

lemma read_log_limits: "read_log ring cursor limit level = Inr page \<Longrightarrow> 1 \<le> limit \<and> limit \<le> 500 \<and> is_valid_level level"
  by (auto simp: read_log_def not_less split: if_splits)

text \<open>
  A page says that records were dropped before its cursor exactly when the ring evicted a
  record the cursor asked for. Cursor 0 asks for everything, so a first read of a ring that
  never evicted anything says no.
\<close>

theorem gap_flag_is_true:
  assumes "logged cap first past ring" "cursor = 0 \<or> log_first ring \<le> cursor"
    "read_log ring cursor limit level = Inr page"
  shows "jget page ''dropped_before_cursor'' = Some (JBool True) \<longleftrightarrow>
    (\<exists>r \<in> set past. r \<notin> set (log_records ring) \<and> requested_cursor ring cursor \<le> lr_sequence r)"
proof -
  note h = logged_facts[OF assms(1)]
  note lims = read_log_limits[OF assms(3)]
  let ?n = "length past - log_capacity ring" and ?req = "requested_cursor ring cursor"
  have number: "unat (lr_sequence (past ! i)) = unat (log_first ring) + i" if "i < length past" for i
    using h(5) that by blast
  obtain page' where "read_log ring cursor limit level = Inr page'"
      "jget page' ''dropped_before_cursor'' = Some (JBool (log_records ring \<noteq> [] \<and> ?req < lr_sequence (hd (log_records ring))))"
    by (rule read_log_page[of ring limit level cursor]) (use h(4) lims in \<open>blast+\<close>)
  with assms(3) have "jget page ''dropped_before_cursor'' = Some (JBool (log_records ring \<noteq> [] \<and> ?req < lr_sequence (hd (log_records ring))))"
    by simp
  moreover have "(log_records ring \<noteq> [] \<and> ?req < lr_sequence (hd (log_records ring))) \<longleftrightarrow>
      (\<exists>i < ?n. ?req \<le> lr_sequence (past ! i))"
  proof (cases "past = []")
    case True
    then show ?thesis using h(1) by simp
  next
    case False
    then have n: "?n < length past" using h(2) by (cases past) auto
    have first: "unat (log_first ring) \<le> unat ?req"
      using assms(2) by (auto simp: requested_cursor_def word_le_nat_alt)
    have hd: "log_records ring \<noteq> []" "hd (log_records ring) = past ! ?n"
      using n h(1) by (simp_all add: hd_drop_conv_nth)
    show ?thesis
    proof
      assume "log_records ring \<noteq> [] \<and> ?req < lr_sequence (hd (log_records ring))"
      then have "unat ?req < unat (log_first ring) + ?n"
        using number[OF n] hd(2) by (simp add: word_less_nat_alt)
      then have "?n - 1 < ?n" "unat ?req \<le> unat (lr_sequence (past ! (?n - 1)))"
        using first number[of "?n - 1"] n by auto
      then show "\<exists>i < ?n. ?req \<le> lr_sequence (past ! i)"
        unfolding word_le_nat_alt by blast
    next
      assume "\<exists>i < ?n. ?req \<le> lr_sequence (past ! i)"
      then show "log_records ring \<noteq> [] \<and> ?req < lr_sequence (hd (log_records ring))"
        using number n hd by (fastforce simp: word_less_nat_alt word_le_nat_alt)
    qed
  qed
  moreover have "(\<exists>i < ?n. ?req \<le> lr_sequence (past ! i)) \<longleftrightarrow>
      (\<exists>r \<in> set past. r \<notin> set (log_records ring) \<and> ?req \<le> lr_sequence r)"
  proof
    assume "\<exists>i < ?n. ?req \<le> lr_sequence (past ! i)"
    then obtain i where i: "i < ?n" "?req \<le> lr_sequence (past ! i)" by blast
    have "past ! i \<notin> set (log_records ring)"
    proof
      assume "past ! i \<in> set (log_records ring)"
      then obtain j where j: "j < length past - ?n" "past ! i = past ! (?n + j)"
        unfolding h(1) by (auto simp: in_set_conv_nth)
      have "unat (log_first ring) + i = unat (log_first ring) + (?n + j)"
        using number[of i] number[of "?n + j"] i(1) j by simp
      with i(1) show False by simp
    qed
    then show "\<exists>r \<in> set past. r \<notin> set (log_records ring) \<and> ?req \<le> lr_sequence r"
      using i by (intro bexI[of _ "past ! i"]) auto
  next
    assume "\<exists>r \<in> set past. r \<notin> set (log_records ring) \<and> ?req \<le> lr_sequence r"
    then obtain i where i: "i < length past" "past ! i \<notin> set (log_records ring)" "?req \<le> lr_sequence (past ! i)"
      by (auto simp: in_set_conv_nth)
    have "i < ?n"
    proof (rule ccontr)
      assume "\<not> i < ?n"
      then have "past ! i = drop ?n past ! (i - ?n)" "i - ?n < length (drop ?n past)" using i(1) by auto
      then have "past ! i \<in> set (log_records ring)" unfolding h(1) by (metis nth_mem)
      with i(2) show False by blast
    qed
    with i(3) show "\<exists>i < ?n. ?req \<le> lr_sequence (past ! i)" by blast
  qed
  ultimately show ?thesis by simp
qed

lemma sample_logged: "\<exists>past. logged 2 1 past sample_log"
proof -
  have ok: "\<exists>q. append_log plain_dump now level source message JNull s = (Some (Inr q), snd (append_log plain_dump now level source message JNull s))"
    if "is_valid_level level" "\<not> log_exhausted s" for now level source message s
    using that by (simp add: append_log_def bounded_details_def is_null_def Let_def)
  have awake: "\<not> log_exhausted (snd (append_log plain_dump now level source message JNull s))"
    if "\<not> log_exhausted s" "log_next s \<noteq> - 1" for now level source message s
    using that by (simp add: append_log_def bounded_details_def is_null_def Let_def)
  have nxt: "log_next (snd (append_log plain_dump now level source message JNull s)) \<in> {log_next s, log_next s + 1}" for now level source message s
    by (simp add: append_log_def bounded_details_def is_null_def Let_def)
  let ?a = "snd (append_log plain_dump 5 ''debug'' ''a'' ''none'' JNull (new_log 2 1))"
  let ?b = "snd (append_log plain_dump 6 ''info'' ''b'' ''one'' JNull ?a)"
  have levels: "is_valid_level ''debug''" "is_valid_level ''info''" "is_valid_level ''error''"
    by (simp_all add: is_valid_level_def)
  have new: "\<not> log_exhausted (new_log 2 1)" "log_next (new_log 2 1) = 1" by (simp_all add: new_log_def)
  have "log_next ?a \<in> {1, 2}" using nxt[of 5 "''debug''" "''a''" "''none''" "new_log 2 1"] new(2) by simp
  then have a: "log_next ?a \<noteq> - 1" by auto
  have sa: "\<not> log_exhausted ?a" using awake new by simp
  have sb: "\<not> log_exhausted ?b" using awake[OF sa a] .
  have "\<exists>past. logged 2 1 past ?a"
    using ok[OF levels(1) new(1)] logged.fresh[of 2 1] by (blast intro: logged.recorded)
  then have "\<exists>past. logged 2 1 past ?b"
    using ok[OF levels(2) sa] by (blast intro: logged.recorded)
  then show ?thesis
    using ok[OF levels(3) sb] unfolding sample_log_def by (blast intro: logged.recorded)
qed

theorem gap_flag_is_true_witness:
  "\<exists>past page. logged 2 1 past sample_log \<and> read_log sample_log 0 5 ''info'' = Inr page \<and>
     (jget page ''dropped_before_cursor'' = Some (JBool True) \<longleftrightarrow>
      (\<exists>r \<in> set past. r \<notin> set (log_records sample_log) \<and> requested_cursor sample_log 0 \<le> lr_sequence r))"
proof -
  obtain past where past: "logged 2 1 past sample_log" using sample_logged ..
  obtain page where page: "read_log sample_log 0 5 ''info'' = Inr page"
    by (simp add: read_log_def is_valid_level_def Let_def)
  show ?thesis using past page gap_flag_is_true[OF past _ page] by blast
qed

section \<open>What a record holds\<close>

lemma truncate_decodable: "is_decodable_utf8 (truncate_utf8 s n)"
  using log.clip_accepted[of n 0 s] by (simp add: units_agree truncate_utf8_def)

lemma truncate_id: "is_decodable_utf8 s \<Longrightarrow> length s \<le> n \<Longrightarrow> truncate_utf8 s n = s"
  using log.clip_id[of s 0 n] by (simp add: units_agree truncate_utf8_def)

lemma level_kept: "is_valid_level level \<Longrightarrow> truncate_utf8 level 16 = level"
  unfolding is_valid_level_def by (elim insertE emptyE; hypsubst; intro truncate_id; code_simp)

lemma shrink_preview_fits:
  assumes "\<And>preview. is_decodable_utf8 preview \<Longrightarrow> dump (cut_details preview) \<noteq> None" "is_decodable_utf8 preview"
  shows "\<exists>p out. shrink_preview dump preview = Some p \<and> is_decodable_utf8 p \<and> dump (cut_details p) = Some out \<and>
    (p = [] \<or> length out \<le> k_max_details_bytes)"
  using assms(2)
proof (induction "length preview" arbitrary: preview rule: less_induct)
  case less
  obtain out where out: "dump (cut_details preview) = Some out" using assms(1)[OF less.prems] by blast
  show ?case
  proof (cases "preview = [] \<or> length out \<le> k_max_details_bytes")
    case True
    then have "shrink_preview dump preview = Some preview"
      using out by (subst shrink_preview.simps) auto
    then show ?thesis using True out less.prems by blast
  next
    case False
    let ?shorter = "truncate_utf8 preview (length preview - 1)"
    have step: "shrink_preview dump preview = shrink_preview dump ?shorter"
      using False out by (subst shrink_preview.simps) auto
    have "length ?shorter < length preview"
      using truncate_length[of preview "length preview - 1"] False by (cases preview) auto
    then show ?thesis unfolding step by (rule less.hyps[OF _ truncate_decodable])
  qed
qed

definition details_fit :: "(json \<Rightarrow> string option) \<Rightarrow> json \<Rightarrow> bool" where
  "details_fit dump kept =
     (kept \<in> {JNull, cut_details ''Invalid UTF-8 details omitted.'', cut_details []} \<or>
      (is_object kept \<and> (\<exists>out. dump kept = Some out \<and> length out \<le> k_max_details_bytes)))"

lemma bounded_details_fit:
  assumes "\<And>preview. is_decodable_utf8 preview \<Longrightarrow> dump (cut_details preview) \<noteq> None"
  shows "\<exists>kept. bounded_details dump details = Some kept \<and> details_fit dump kept"
proof (cases "is_null details")
  case True
  then show ?thesis by (simp add: bounded_details_def details_fit_def)
next
  case False
  define v where "v = (if is_object details then details else jobj [(''value'', details)])"
  have obj: "is_object v" by (simp add: v_def)
  have eq: "bounded_details dump details =
      (case dump v of None \<Rightarrow> Some (cut_details ''Invalid UTF-8 details omitted.'')
       | Some serialized \<Rightarrow> if length serialized \<le> k_max_details_bytes then Some v
           else map_option cut_details (shrink_preview dump (truncate_utf8 serialized k_max_details_bytes)))"
    using False by (simp add: bounded_details_def Let_def v_def[symmetric])
  show ?thesis
  proof (cases "dump v")
    case None
    then show ?thesis unfolding eq by (simp add: details_fit_def)
  next
    case (Some serialized)
    show ?thesis
    proof (cases "length serialized \<le> k_max_details_bytes")
      case True
      then show ?thesis using Some obj unfolding eq details_fit_def by simp
    next
      case False
      obtain p out where p: "shrink_preview dump (truncate_utf8 serialized k_max_details_bytes) = Some p"
          "dump (cut_details p) = Some out" "p = [] \<or> length out \<le> k_max_details_bytes"
        using shrink_preview_fits[of dump, OF assms truncate_decodable] by blast
      have "is_object (cut_details p)" by (simp add: cut_details_def)
      then have "details_fit dump (cut_details p)"
        using p(2,3) unfolding details_fit_def by blast
      then show ?thesis using Some False p(1) unfolding eq by simp
    qed
  qed
qed

text \<open>
  A valid append on a log whose numbers have not run out always records: under the next
  number, at its level, with a message of at most 16 KiB and a source of at most 1 KiB that are
  well-formed UTF-8, marked as clipped exactly when either was longer than its bound, and with
  details that serialize to at most 64 KiB. The JSON library is only assumed to serialize a
  preview that is well-formed UTF-8.
\<close>

theorem append_records_within_bounds:
  assumes "\<And>preview. is_decodable_utf8 preview \<Longrightarrow> dump (cut_details preview) \<noteq> None"
    and "is_valid_level level" "\<not> log_exhausted s"
    and "append_log dump now level source message details s = (answer, t)"
  shows "\<exists>r. answer = Some (Inr (log_next s)) \<and>
    log_records t = push_bounded (log_capacity s) (log_records s) r \<and>
    lr_sequence r = log_next s \<and> lr_level r = level \<and>
    length (lr_message r) \<le> 16384 \<and> is_decodable_utf8 (lr_message r) \<and>
    length (lr_source r) \<le> 1024 \<and> is_decodable_utf8 (lr_source r) \<and>
    (lr_clipped r \<longleftrightarrow> 16384 < length (without_terminal_escapes message) \<or> 1024 < length source) \<and>
    details_fit dump (lr_details r)"
proof -
  obtain kept where kept: "bounded_details dump details = Some kept" "details_fit dump kept"
    using bounded_details_fit[of dump, OF assms(1)] by blast
  from assms(4) show ?thesis
  proof (cases rule: append_log_cases)
    case (refused e)
    then show ?thesis
      using assms(2,3,4) kept(1) by (simp add: append_log_def Let_def)
  next
    case threw
    then show ?thesis using kept(1) by simp
  next
    case (recorded r)
    have k: "k_max_message_bytes = 16384" by (simp add: k_max_message_bytes_def)
    have "length (lr_message r) \<le> 16384" "is_decodable_utf8 (lr_message r)"
      unfolding recorded(11) k by (rule truncate_length, rule truncate_decodable)
    moreover have "length (lr_source r) \<le> 1024" "is_decodable_utf8 (lr_source r)"
      unfolding recorded(10) by (rule truncate_length, rule truncate_decodable)
    moreover have "lr_level r = level" unfolding recorded(9) by (rule level_kept[OF assms(2)])
    moreover have "details_fit dump (lr_details r)" using kept recorded(12) by simp
    ultimately show ?thesis using recorded(1,2,4,13) unfolding k by blast
  qed
qed

theorem append_records_within_bounds_witness:
  "\<exists>r :: log_record. fst (append_log plain_dump 5 ''info'' ''game'' ''hello'' JNull (new_log 2 1)) = Some (Inr (log_next (new_log 2 1))) \<and>
    lr_level r = ''info'' \<and> details_fit plain_dump (lr_details r)"
  using append_records_within_bounds[of plain_dump "''info''" "new_log 2 1" 5 "''game''" "''hello''" JNull
      "fst (append_log plain_dump 5 ''info'' ''game'' ''hello'' JNull (new_log 2 1))"
      "snd (append_log plain_dump 5 ''info'' ''game'' ''hello'' JNull (new_log 2 1))"]
  by (simp add: plain_dump_def is_valid_level_def new_log_def) blast

end
