(* ===== verification/Undo_Ledger.thy ===== *)
theory Undo_Ledger
  imports Sequenced_Ring Didi_Json
begin

text \<open>
  \<open>UndoLedger\<close> of \<open>src/gdextension/undo_ledger.cpp\<close>: which actions a command committed to one of
  the editor's undo histories, and whether one of those commits can still be undone on its
  own. The 64-bit integers the editor reports are plain integers here, as nothing in this file
  multiplies them; the serial the ledger hands out is a 64-bit word.
\<close>

section \<open>State\<close>

definition k_global_undo_history :: int where
  "k_global_undo_history = 0"

definition k_undo_ledger_capacity :: nat where
  "k_undo_ledger_capacity = 4096"

record undo_history_state =
  uh_id :: int
  uh_version :: int
  uh_current :: int
  uh_count :: int
  uh_action :: string
  uh_scene_path :: string

record undo_commit =
  uc_run :: string
  uc_serial :: "64 word"
  uc_history_id :: int
  uc_scene_path :: string
  uc_index :: int
  uc_version :: int
  uc_action :: string

datatype undo_state = Available | Blocked | Later_History | Undone | Gone

record undo_verdict =
  uv_state :: undo_state
  uv_reason :: string
  uv_later_actions :: int
  uv_newer_action :: string
  uv_newer_history :: string
  uv_needs_scene_tab :: bool

record undo_ledger =
  ul_run :: string
  ul_capacity :: nat
  ul_next_serial :: "64 word"
  ul_commits :: "undo_commit list"

definition new_ledger :: "string \<Rightarrow> nat \<Rightarrow> undo_ledger" where
  "new_ledger run cap =
     \<lparr>ul_run = run, ul_capacity = (if cap = 0 then 1 else cap), ul_next_serial = 1, ul_commits = []\<rparr>"

section \<open>References\<close>

definition commit_to_json :: "undo_commit \<Rightarrow> json" where
  "commit_to_json c =
     (let out = jobj [(''run'', JStr (uc_run c)), (''serial'', JUInt (unat (uc_serial c))),
                      (''history_id'', JInt (uc_history_id c)), (''index'', JInt (uc_index c)),
                      (''version'', JInt (uc_version c)), (''action'', JStr (uc_action c))]
      in if uc_scene_path c \<noteq> [] then jput ''scene_path'' (JStr (uc_scene_path c)) out else out)"

text \<open>A member read as one type; the refusal is the name of the field.\<close>

definition string_field :: "json \<Rightarrow> string \<Rightarrow> (string, string) result" where
  "string_field v key = (case jget v key of Some (JStr s) \<Rightarrow> Inr s | _ \<Rightarrow> Inl key)"

definition unsigned_field :: "json \<Rightarrow> string \<Rightarrow> (string, 64 word) result" where
  "unsigned_field v key = (case jget v key of Some (JUInt n) \<Rightarrow> Inr (word_of_nat n) | _ \<Rightarrow> Inl key)"

definition integer_field :: "json \<Rightarrow> string \<Rightarrow> (string, int) result" where
  "integer_field v key =
     (case jget v key of
        Some (JInt i) \<Rightarrow> Inr i
      | Some (JUInt n) \<Rightarrow> Inr (to_int64 n)
      | _ \<Rightarrow> Inl key)"

definition scene_field :: "json \<Rightarrow> (string, string) result" where
  "scene_field v =
     (case jget v ''scene_path'' of
        None \<Rightarrow> Inr []
      | Some (JStr s) \<Rightarrow> Inr s
      | _ \<Rightarrow> Inl ''scene_path'')"

definition commit_from_json :: "json \<Rightarrow> (string, undo_commit) result" where
  "commit_from_json v =
     (if \<not> is_object v then Inl ''reference''
      else rbind (string_field v ''run'') (\<lambda>run.
           rbind (unsigned_field v ''serial'') (\<lambda>serial.
           rbind (integer_field v ''history_id'') (\<lambda>history_id.
           rbind (integer_field v ''index'') (\<lambda>index.
           rbind (integer_field v ''version'') (\<lambda>version.
           rbind (string_field v ''action'') (\<lambda>action.
           rbind (scene_field v) (\<lambda>scene_path.
             Inr \<lparr>uc_run = run, uc_serial = serial, uc_history_id = history_id, uc_scene_path = scene_path,
                  uc_index = index, uc_version = version, uc_action = action\<rparr>))))))))"

section \<open>Verdicts\<close>

fun undo_state_name :: "undo_state \<Rightarrow> string" where
  "undo_state_name Available = ''available''"
| "undo_state_name Blocked = ''blocked''"
| "undo_state_name Later_History = ''later_history''"
| "undo_state_name Undone = ''undone''"
| "undo_state_name Gone = ''gone''"

definition verdict_to_json :: "undo_verdict \<Rightarrow> json" where
  "verdict_to_json v =
     (let out = jobj [(''state'', JStr (undo_state_name (uv_state v))), (''reason'', JStr (uv_reason v))];
          later = (if uv_state v = Later_History then jput ''later_actions'' (JInt (uv_later_actions v)) out else out);
          newer = (if uv_newer_action v \<noteq> [] \<or> uv_newer_history v \<noteq> []
                   then jput ''newer_history'' (JStr (uv_newer_history v))
                          (jput ''newer_action'' (JStr (uv_newer_action v)) later)
                   else later)
      in if uv_needs_scene_tab v then jput ''needs_scene_tab'' (JBool True) newer else newer)"

definition new_verdict :: undo_verdict where
  "new_verdict =
     \<lparr>uv_state = Gone, uv_reason = [], uv_later_actions = 0, uv_newer_action = [], uv_newer_history = [],
      uv_needs_scene_tab = False\<rparr>"

section \<open>Observing a command\<close>

text \<open>One pass of the loop of \<open>observe\<close> that does record: the commit joins the ring.\<close>

definition record_commit :: "undo_commit \<Rightarrow> undo_ledger \<Rightarrow> undo_ledger" where
  "record_commit c ledger =
     ledger\<lparr>ul_next_serial := ul_next_serial ledger + 1,
            ul_commits := push_bounded (ul_capacity ledger) (ul_commits ledger) c\<rparr>"

definition named_at :: "(int \<Rightarrow> string) option \<Rightarrow> int \<Rightarrow> string" where
  "named_at names_at index = (case names_at of Some f \<Rightarrow> f index | None \<Rightarrow> [])"

definition observe_step ::
  "undo_history_state \<Rightarrow> undo_history_state \<Rightarrow> (int \<Rightarrow> string) option \<Rightarrow> int \<Rightarrow> int
     \<Rightarrow> undo_commit list \<times> undo_ledger \<Rightarrow> undo_commit list \<times> undo_ledger" where
  "observe_step before after names_at steps k acc =
     (let (made, ledger) = acc; index = uh_current after - (steps - 1 - k)
      in if index < 0 then acc
         else
           let commit = \<lparr>uc_run = ul_run ledger, uc_serial = ul_next_serial ledger, uc_history_id = uh_id after,
                         uc_scene_path = uh_scene_path after, uc_index = index,
                         uc_version = uh_version before + 1 + k,
                         uc_action = (if k = steps - 1 then uh_action after else named_at names_at index)\<rparr>
           in (made @ [commit], record_commit commit ledger))"

definition observe ::
  "undo_history_state \<Rightarrow> undo_history_state \<Rightarrow> (int \<Rightarrow> string) option \<Rightarrow> undo_ledger
     \<Rightarrow> undo_commit list \<times> undo_ledger" where
  "observe before after names_at ledger =
     (if uh_id before \<noteq> uh_id after \<or> uh_version after \<le> uh_version before then ([], ledger)
      else if uh_current after < 0 \<or> uh_count after = 0 then ([], ledger)
      else
        let steps = uh_version after - uh_version before
        in fold (observe_step before after names_at steps) [0..steps - 1] ([], ledger))"

section \<open>Judging a reference\<close>

definition is_top :: "undo_history_state \<Rightarrow> undo_commit \<Rightarrow> bool" where
  "is_top history c =
     (uc_history_id c = uh_id history \<and> uc_index c = uh_current history \<and>
      uc_version c = uh_version history \<and> uc_action c = uh_action history)"

definition top_of :: "undo_ledger \<Rightarrow> undo_history_state \<Rightarrow> undo_commit option" where
  "top_of ledger history =
     (if uh_current history < 0 then None else find (is_top history) (rev (ul_commits ledger)))"

fun replaced_in :: "undo_commit \<Rightarrow> undo_commit list \<Rightarrow> bool" where
  "replaced_in c [] = False"
| "replaced_in c (d # ds) =
     (if uc_serial d \<le> uc_serial c then False
      else if uc_run d = uc_run c \<and> uc_history_id d = uc_history_id c \<and> uc_version d \<le> uc_version c then True
      else replaced_in c ds)"

definition replaced_later :: "undo_ledger \<Rightarrow> undo_commit \<Rightarrow> bool" where
  "replaced_later ledger c = replaced_in c (rev (ul_commits ledger))"

definition evaluate_undo ::
  "undo_ledger \<Rightarrow> undo_commit \<Rightarrow> undo_history_state \<Rightarrow> bool \<Rightarrow> undo_history_state option
     \<Rightarrow> (int \<Rightarrow> string) option \<Rightarrow> undo_verdict" where
  "evaluate_undo ledger ref own own_is_candidate other name_at =
     (if uc_run ref \<noteq> ul_run ledger then
        new_verdict\<lparr>uv_reason := ''Recorded by an earlier editor run. The editor'' @ [CHR 0x27] @ ''s undo history ends '' @
          ''with the editor, so there is nothing left to undo it with.''\<rparr>
      else if uc_index ref < 0 \<or> uh_count own \<le> uc_index ref \<or>
              uh_version own - uh_current own \<noteq> uc_version ref - uc_index ref then
        new_verdict\<lparr>uv_reason := ''No longer in its history. Closing or reloading its scene clears the '' @
          ''history, and a change made after undoing it replaces it.''\<rparr>
      else if named_at name_at (uc_index ref) \<noteq> uc_action ref \<or> replaced_later ledger ref then
        new_verdict\<lparr>uv_reason := ''Replaced. It was undone and a later change took its place in the history.''\<rparr>
      else if uh_current own < uc_index ref then
        new_verdict\<lparr>uv_state := Undone,
          uv_reason := ''Already undone. It is still in the history'' @ [CHR 0x27] @ ''s redo entries until '' @
            ''something new is committed there.''\<rparr>
      else if uc_index ref < uh_current own then
        (let later = uh_current own - uc_index ref
         in new_verdict\<lparr>uv_state := Later_History, uv_later_actions := later,
              uv_reason := ''Still applied, under '' @ dec_int later @
                (if later = 1 then '' later action'' else '' later actions'') @
                '' in the same history, which depend on it. The editor undoes only '' @
                ''the newest action of a history.''\<rparr>)
      else if \<not> own_is_candidate then
        new_verdict\<lparr>uv_state := Blocked, uv_needs_scene_tab := True,
          uv_reason := ''On top of its scene'' @ [CHR 0x27] @ ''s history, but that scene is not the current tab. '' @
            ''The editor'' @ [CHR 0x27] @ ''s Undo reaches only the current scene'' @ [CHR 0x27] @ ''s history and the '' @
            ''global one.''\<rparr>
      else
        let available = new_verdict\<lparr>uv_state := Available,
              uv_reason := ''On top of its history; the editor'' @ [CHR 0x27] @ ''s Undo takes it next.''\<rparr>;
            blocked = (\<lambda>history reason. new_verdict\<lparr>uv_state := Blocked, uv_newer_action := uh_action history,
              uv_newer_history := (if uh_id history = k_global_undo_history then ''global'' else ''scene''),
              uv_reason := reason (if uh_id history = k_global_undo_history then ''global'' else ''scene'')\<rparr>)
        in case other of
             None \<Rightarrow> available
           | Some history \<Rightarrow>
               if uh_current history < 0 then available
               else
                 (case top_of ledger history of
                    None \<Rightarrow> blocked history (\<lambda>name. ''The '' @ name @ '' history'' @ [CHR 0x27] @ ''s last action ('' @ [CHR 0x22] @
                      uh_action history @ [CHR 0x22] @ '') was not made by Didi in this editor run, so which of the two is '' @
                      ''newer cannot be told, and the editor'' @ [CHR 0x27] @ ''s Undo might take it instead.'')
                  | Some newest \<Rightarrow>
                      if uc_serial ref < uc_serial newest
                      then blocked history (\<lambda>name. ''The editor'' @ [CHR 0x27] @ ''s Undo would take a newer change in the '' @
                        name @ '' history first ('' @ [CHR 0x22] @ uh_action history @ [CHR 0x22] @ '').'')
                      else available))"

section \<open>References survive the journal\<close>

text \<open>
  What the JSON library's parser gives back for a value it wrote: an integer that is not
  negative comes back as an unsigned number.
\<close>

fun reparsed :: "json \<Rightarrow> json" where
  "reparsed (JInt i) = (if 0 \<le> i then JUInt (nat i) else JInt i)"
| "reparsed (JArr xs) = JArr (map reparsed xs)"
| "reparsed (JObj m) = JObj (map (\<lambda>e. (fst e, reparsed (snd e))) m)"
| "reparsed v = v"

lemma kv_get_map: "kv_get (map (\<lambda>e. (fst e, f (snd e))) m) k = map_option f (kv_get m k)"
  by (induction m) (auto simp: kv_get_def split: option.splits)

lemma jget_reparsed: "is_object v \<Longrightarrow> jget (reparsed v) k = map_option reparsed (jget v k)"
  by (cases v) (simp_all add: jget_def kv_get_map)

lemma is_object_reparsed [simp]: "is_object (reparsed v) = is_object v"
  by (cases v) auto

lemma integer_field_reparsed:
  assumes "is_object v" "jget v key = Some (JInt i)" "- (2 ^ 63) \<le> i" "i < 2 ^ 63"
  shows "integer_field (reparsed v) key = Inr i"
proof (cases "0 \<le> i")
  case True
  then have "nat i < 2 ^ 63" using assms(4) by (simp add: nat_less_iff)
  then show ?thesis using True assms(1,2) by (simp add: integer_field_def jget_reparsed)
qed (use assms in \<open>simp add: integer_field_def jget_reparsed\<close>)

definition int64 :: "int \<Rightarrow> bool" where
  "int64 i = (- (2 ^ 63) \<le> i \<and> i < 2 ^ 63)"

text \<open>
  A reference written to the journal is read back unchanged, whether it is handed over as a
  value or went through a file as text.
\<close>

theorem reference_round_trip:
  assumes "int64 (uc_history_id c)" "int64 (uc_index c)" "int64 (uc_version c)"
  shows "commit_from_json (commit_to_json c) = Inr c \<and> commit_from_json (reparsed (commit_to_json c)) = Inr c"
proof -
  let ?v = "commit_to_json c"
  have obj: "is_object ?v" by (simp add: commit_to_json_def Let_def)
  have get: "jget ?v ''run'' = Some (JStr (uc_run c))" "jget ?v ''serial'' = Some (JUInt (unat (uc_serial c)))"
    "jget ?v ''history_id'' = Some (JInt (uc_history_id c))" "jget ?v ''index'' = Some (JInt (uc_index c))"
    "jget ?v ''version'' = Some (JInt (uc_version c))" "jget ?v ''action'' = Some (JStr (uc_action c))"
    "jget ?v ''scene_path'' = (if uc_scene_path c = [] then None else Some (JStr (uc_scene_path c)))"
    by (simp_all add: commit_to_json_def Let_def jget_jput jget_jobj)
  have "commit_from_json ?v = Inr c"
    using obj get by (simp add: commit_from_json_def string_field_def unsigned_field_def integer_field_def scene_field_def)
  moreover have "commit_from_json (reparsed ?v) = Inr c"
    using obj get integer_field_reparsed[OF obj] assms
    by (simp add: commit_from_json_def string_field_def unsigned_field_def scene_field_def jget_reparsed int64_def)
  ultimately show ?thesis ..
qed

definition sample_commit :: undo_commit where
  "sample_commit =
     \<lparr>uc_run = ''r'', uc_serial = 7, uc_history_id = -5, uc_scene_path = ''res://a.tscn'', uc_index = 2,
      uc_version = 3, uc_action = ''Didi: set name''\<rparr>"

theorem reference_round_trip_witness:
  "commit_from_json (commit_to_json sample_commit) = Inr sample_commit \<and>
   commit_from_json (reparsed (commit_to_json sample_commit)) = Inr sample_commit"
  by (rule reference_round_trip) (simp_all add: sample_commit_def int64_def)

section \<open>The ring\<close>

definition commit_arrive :: "undo_ledger \<Rightarrow> undo_ledger \<Rightarrow> bool" where
  "commit_arrive s t =
     (\<exists>c. uc_serial c = ul_next_serial s \<and> ul_next_serial s \<noteq> - 1 \<and> t = record_commit c s)"

interpretation ulr: sequenced_ring ul_commits "\<lambda>c. unat (uc_serial c)" "\<lambda>l. unat (ul_next_serial l)" ul_capacity commit_arrive
proof
  fix s t assume "commit_arrive s t"
  then obtain c where c: "uc_serial c = ul_next_serial s" "ul_next_serial s \<noteq> - 1" "t = record_commit c s"
    unfolding commit_arrive_def by blast
  then show "(ul_commits t = ul_commits s \<and> unat (ul_next_serial s) \<le> unat (ul_next_serial t)) \<or>
      (\<exists>e. ul_commits t = push_bounded (ul_capacity s) (ul_commits s) e \<and>
           unat (ul_next_serial s) \<le> unat (uc_serial e) \<and> unat (uc_serial e) < unat (ul_next_serial t))"
    using unat_next[OF c(2)] by (auto simp: record_commit_def)
  show "ul_capacity t = ul_capacity s" using c by (simp add: record_commit_def)
qed

end
