(* ===== verification/Editor_History.thy ===== *)
theory Editor_History
  imports Undo_Ledger
begin

text \<open>
  What the undo ledger's verdicts mean. The editor's histories are kept here as
  \<open>undo_ledger.hpp\<close> documents Godot's \<open>UndoRedo\<close>: a commit and a redo raise the version, an
  undo lowers it, a commit after an undo replaces what could have been redone, and clearing a
  history raises its version and empties it. Each action carries the time it was committed,
  which the ledger never sees. The theorem of this file is that the ledger, which decides from
  numbers and names, says what is true of the actions themselves.

  An action of somebody else could share its name, index and version with one of Didi's; no
  ledger of names could then tell them apart. So names are of two kinds: those Didi gives its
  actions (\<open>ours\<close>) and the others.
\<close>

section \<open>Histories\<close>

record hist =
  h_acts :: "(nat \<times> string) list"
  h_applied :: nat
  h_version :: int

definition commit_act :: "nat \<Rightarrow> string \<Rightarrow> hist \<Rightarrow> hist" where
  "commit_act stamp name h =
     \<lparr>h_acts = take (h_applied h) (h_acts h) @ [(stamp, name)], h_applied = h_applied h + 1,
      h_version = h_version h + 1\<rparr>"

definition undo_act :: "hist \<Rightarrow> hist" where
  "undo_act h = (if h_applied h = 0 then h
                 else h\<lparr>h_applied := h_applied h - 1, h_version := h_version h - 1\<rparr>)"

definition redo_act :: "hist \<Rightarrow> hist" where
  "redo_act h = (if h_applied h < length (h_acts h)
                 then h\<lparr>h_applied := h_applied h + 1, h_version := h_version h + 1\<rparr> else h)"

definition clear_acts :: "hist \<Rightarrow> hist" where
  "clear_acts h = \<lparr>h_acts = [], h_applied = 0, h_version = h_version h + 1\<rparr>"

definition name_in :: "hist \<Rightarrow> int \<Rightarrow> string" where
  "name_in h i = (if 0 \<le> i \<and> nat i < length (h_acts h) then snd (h_acts h ! nat i) else [])"

text \<open>What the bridge reads of a history.\<close>

definition view :: "int \<Rightarrow> hist \<Rightarrow> undo_history_state" where
  "view k h =
     \<lparr>uh_id = k, uh_version = h_version h, uh_current = int (h_applied h) - 1,
      uh_count = int (length (h_acts h)), uh_action = name_in h (int (h_applied h) - 1), uh_scene_path = []\<rparr>"

definition stamps :: "hist \<Rightarrow> nat set" where
  "stamps h = fst ` set (h_acts h)"

section \<open>The editor\<close>

record editor =
  ed_clock :: nat
  ed_hists :: "int \<Rightarrow> hist"
  ed_ledger :: undo_ledger
  ed_made :: "(undo_commit \<times> nat) list"

fun commit_acts :: "nat \<Rightarrow> string list \<Rightarrow> hist \<Rightarrow> hist" where
  "commit_acts stamp [] h = h"
| "commit_acts stamp (name # names) h = commit_acts (stamp + 1) names (commit_act stamp name h)"

text \<open>A command of Didi's commits its actions and has the ledger observe the history.\<close>

definition didi_command :: "int \<Rightarrow> string list \<Rightarrow> editor \<Rightarrow> editor" where
  "didi_command k names e =
     (let h = ed_hists e k; h' = commit_acts (ed_clock e) names h;
          (made, ledger) = observe (view k h) (view k h') (Some (name_in h')) (ed_ledger e)
      in e\<lparr>ed_clock := ed_clock e + length names, ed_hists := (ed_hists e)(k := h'), ed_ledger := ledger,
           ed_made := ed_made e @ zip made [ed_clock e..<ed_clock e + length names]\<rparr>)"

definition on_hist :: "int \<Rightarrow> (hist \<Rightarrow> hist) \<Rightarrow> editor \<Rightarrow> editor" where
  "on_hist k f e = e\<lparr>ed_hists := (ed_hists e)(k := f (ed_hists e k))\<rparr>"

definition user_commit :: "int \<Rightarrow> string \<Rightarrow> editor \<Rightarrow> editor" where
  "user_commit k name e = (on_hist k (commit_act (ed_clock e) name) e)\<lparr>ed_clock := ed_clock e + 1\<rparr>"

inductive editor_step :: "(string \<Rightarrow> bool) \<Rightarrow> editor \<Rightarrow> editor \<Rightarrow> bool" for ours where
  didi: "list_all ours names \<Longrightarrow> editor_step ours e (didi_command k names e)"
| user: "\<not> ours name \<Longrightarrow> editor_step ours e (user_commit k name e)"
| undo: "editor_step ours e (on_hist k undo_act e)"
| redo: "editor_step ours e (on_hist k redo_act e)"
| clear: "editor_step ours e (on_hist k clear_acts e)"

definition new_editor :: "string \<Rightarrow> nat \<Rightarrow> (int \<Rightarrow> int) \<Rightarrow> editor" where
  "new_editor run cap versions =
     \<lparr>ed_clock = 0, ed_hists = (\<lambda>k. \<lparr>h_acts = [], h_applied = 0, h_version = versions k\<rparr>),
      ed_ledger = new_ledger run cap, ed_made = []\<rparr>"

definition editor_reach :: "(string \<Rightarrow> bool) \<Rightarrow> string \<Rightarrow> nat \<Rightarrow> editor \<Rightarrow> bool" where
  "editor_reach ours run cap e = (\<exists>versions. (editor_step ours)\<^sup>*\<^sup>* (new_editor run cap versions) e)"

section \<open>Where a commit stands\<close>

definition hist_ok :: "nat \<Rightarrow> hist \<Rightarrow> bool" where
  "hist_ok clock h =
     (increasing fst (h_acts h) \<and> (\<forall>g \<in> stamps h. g < clock) \<and> h_applied h \<le> length (h_acts h))"

text \<open>The difference of version and index never falls, and rises when the history is cleared.\<close>

definition hist_epoch :: "hist \<Rightarrow> int" where
  "hist_epoch h = h_version h - int (h_applied h) + 1"

definition commit_epoch :: "undo_commit \<Rightarrow> int" where
  "commit_epoch c = uc_version c - uc_index c"

definition placed :: "hist \<Rightarrow> undo_commit \<times> nat \<Rightarrow> bool" where
  "placed h cg =
     (case cg of (c, g) \<Rightarrow>
        0 \<le> uc_index c \<and> commit_epoch c \<le> hist_epoch h \<and>
        (g \<in> stamps h \<longrightarrow> commit_epoch c = hist_epoch h \<and> nat (uc_index c) < length (h_acts h) \<and>
            h_acts h ! nat (uc_index c) = (g, uc_action c)) \<and>
        (commit_epoch c = hist_epoch h \<and> nat (uc_index c) < length (h_acts h) \<longrightarrow>
            g \<le> fst (h_acts h ! nat (uc_index c))))"

lemma increasing_nth_unique:
  assumes "increasing fst acts" "i < length acts" "j < length acts" "fst (acts ! i) = fst (acts ! j)"
  shows "i = j"
proof (rule ccontr)
  assume "i \<noteq> j"
  then consider "i < j" | "j < i" by linarith
  then show False
    using assms unfolding increasing_def sorted_wrt_iff_nth_less by cases (metis less_irrefl)+
qed

lemma acts_moves [simp]:
  "h_acts (undo_act h) = h_acts h" "h_acts (redo_act h) = h_acts h" "h_acts (clear_acts h) = []"
  "h_acts (commit_act g name h) = take (h_applied h) (h_acts h) @ [(g, name)]"
  by (auto simp: undo_act_def redo_act_def clear_acts_def commit_act_def)

lemma stamps_commit: "stamps (commit_act g name h) \<subseteq> insert g (stamps h)"
  by (auto simp: stamps_def dest: in_set_takeD)

lemma hist_ok_commit:
  assumes "hist_ok clock h"
  shows "hist_ok (clock + 1) (commit_act clock name h)"
proof -
  have "increasing fst (take (h_applied h) (h_acts h))"
    using assms unfolding hist_ok_def by (metis append_take_drop_id increasing_append)
  moreover have "\<forall>d \<in> set (take (h_applied h) (h_acts h)). fst d < clock"
    using assms by (auto simp: hist_ok_def stamps_def dest: in_set_takeD)
  ultimately have "increasing fst (h_acts (commit_act clock name h))"
    unfolding acts_moves increasing_append by (simp add: increasing_def)
  moreover have "\<forall>g \<in> stamps (commit_act clock name h). g < clock + 1"
    using assms stamps_commit[of clock name h] by (fastforce simp: hist_ok_def)
  ultimately show ?thesis
    using assms by (simp add: hist_ok_def commit_act_def)
qed

lemma hist_ok_moves:
  "hist_ok clock h \<Longrightarrow> hist_ok clock (undo_act h)"
  "hist_ok clock h \<Longrightarrow> hist_ok clock (redo_act h)"
  "hist_ok clock h \<Longrightarrow> hist_ok clock (clear_acts h)"
  by (auto simp: hist_ok_def undo_act_def redo_act_def clear_acts_def stamps_def increasing_def)

lemma hist_ok_later: "hist_ok clock h \<Longrightarrow> clock \<le> later \<Longrightarrow> hist_ok later h"
  by (auto simp: hist_ok_def)

lemma epoch_moves:
  "hist_epoch (undo_act h) = hist_epoch h" "hist_epoch (redo_act h) = hist_epoch h"
  "hist_epoch (commit_act g name h) = hist_epoch h" "hist_epoch h < hist_epoch (clear_acts h)"
  by (auto simp: hist_epoch_def undo_act_def redo_act_def commit_act_def clear_acts_def)

lemma placed_moves:
  "placed h cg \<Longrightarrow> placed (undo_act h) cg" "placed h cg \<Longrightarrow> placed (redo_act h) cg"
  "placed h cg \<Longrightarrow> placed (clear_acts h) cg"
  unfolding placed_def stamps_def epoch_moves acts_moves using epoch_moves(4)[of h] by force+

lemma placed_commit:
  assumes "placed h (c, g)" "hist_ok clock h" "g < clock"
  shows "placed (commit_act clock name h) (c, g)"
proof -
  let ?i = "nat (uc_index c)" and ?h = "commit_act clock name h"
  have n: "h_applied h \<le> length (h_acts h)" and inc: "increasing fst (h_acts h)" using assms(2) by (auto simp: hist_ok_def)
  have at: "h_acts ?h ! j = h_acts h ! j" if "j < h_applied h" for j
    using that n by (simp add: nth_append)
  have "?i < h_applied h \<and> h_acts h ! ?i = (g, uc_action c) \<and> commit_epoch c = hist_epoch h" if "g \<in> stamps ?h"
  proof -
    have "g \<in> fst ` set (take (h_applied h) (h_acts h))"
      using that assms(3) by (auto simp: stamps_def)
    then obtain j where j: "j < h_applied h" "fst (h_acts h ! j) = g"
      using n by (auto simp: in_set_conv_nth)
    then have "g \<in> stamps h" using n by (auto simp: stamps_def)
    then have c: "commit_epoch c = hist_epoch h" "?i < length (h_acts h)" "h_acts h ! ?i = (g, uc_action c)"
      using assms(1) by (auto simp: placed_def)
    then have "?i = j" using increasing_nth_unique[OF inc c(2), of j] j n by simp
    with j c show ?thesis by simp
  qed
  moreover have "g \<le> fst (h_acts ?h ! ?i)" if "commit_epoch c = hist_epoch h" "?i < length (h_acts ?h)"
  proof (cases "?i < h_applied h")
    case True
    then show ?thesis using assms(1) that(1) n at by (auto simp: placed_def)
  next
    case False
    then have "?i = h_applied h" using that(2) n by simp
    then show ?thesis using assms(3) n by (simp add: nth_append)
  qed
  ultimately show ?thesis
    using assms(1) n at by (auto simp: placed_def epoch_moves)
qed

lemma placed_new:
  assumes "hist_ok clock h" "uc_index c = int (h_applied h)" "uc_version c = h_version h + 1" "uc_action c = name"
  shows "placed (commit_act clock name h) (c, clock)"
  using assms unfolding placed_def epoch_moves acts_moves hist_ok_def commit_epoch_def hist_epoch_def
  by (simp add: nth_append commit_act_def)

section \<open>The invariant\<close>

text \<open>Two commits to one history: while the earlier one stands, the later has a higher version.\<close>

definition in_order :: "editor \<Rightarrow> undo_commit \<times> nat \<Rightarrow> undo_commit \<times> nat \<Rightarrow> bool" where
  "in_order e a b =
     (snd a < snd b \<and>
      (uc_history_id (fst a) = uc_history_id (fst b) \<and> snd a \<in> stamps (ed_hists e (uc_history_id (fst a)))
         \<longrightarrow> uc_version (fst a) < uc_version (fst b)))"

definition known :: "(string \<Rightarrow> bool) \<Rightarrow> editor \<Rightarrow> undo_commit \<times> nat \<Rightarrow> bool" where
  "known ours e cg =
     (uc_run (fst cg) = ul_run (ed_ledger e) \<and> snd cg < ed_clock e \<and> ours (uc_action (fst cg)) \<and>
      placed (ed_hists e (uc_history_id (fst cg))) cg)"

definition attributed :: "(string \<Rightarrow> bool) \<Rightarrow> editor \<Rightarrow> bool" where
  "attributed ours e =
     (\<forall>k. \<forall>a \<in> set (h_acts (ed_hists e k)). ours (snd a) \<longrightarrow>
        (\<exists>c. (c, fst a) \<in> set (ed_made e) \<and> uc_history_id c = k))"

definition ledger_holds :: "editor \<Rightarrow> bool" where
  "ledger_holds e =
     (ul_commits (ed_ledger e) =
        drop (length (ed_made e) - ul_capacity (ed_ledger e)) (map fst (ed_made e)) \<and>
      (length (ed_made e) < 2 ^ 64 - 1 \<longrightarrow>
         unat (ul_next_serial (ed_ledger e)) = length (ed_made e) + 1 \<and>
         (\<forall>i < length (ed_made e). unat (uc_serial (fst (ed_made e ! i))) = i + 1)))"

definition editor_ok :: "(string \<Rightarrow> bool) \<Rightarrow> editor \<Rightarrow> bool" where
  "editor_ok ours e =
     ((\<forall>k. hist_ok (ed_clock e) (ed_hists e k)) \<and> (\<forall>cg \<in> set (ed_made e). known ours e cg) \<and>
      sorted_wrt (in_order e) (ed_made e) \<and> attributed ours e \<and> ledger_holds e)"

lemma editor_ok_new: "editor_ok ours (new_editor run cap versions)"
  by (simp add: editor_ok_def new_editor_def hist_ok_def stamps_def increasing_def attributed_def ledger_holds_def
      new_ledger_def)

text \<open>A move on one history that commits nothing of Didi's.\<close>

lemma editor_ok_move:
  assumes ok: "editor_ok ours e" and later: "ed_clock e \<le> clock"
    and hist: "hist_ok clock (f (ed_hists e k))"
    and placed: "\<And>c g. placed (ed_hists e k) (c, g) \<Longrightarrow> g < ed_clock e \<Longrightarrow> placed (f (ed_hists e k)) (c, g)"
    and subset: "\<And>a. a \<in> set (h_acts (f (ed_hists e k))) \<Longrightarrow>
        a \<in> set (h_acts (ed_hists e k)) \<or> (\<not> ours (snd a) \<and> ed_clock e \<le> fst a)"
  shows "editor_ok ours ((on_hist k f e)\<lparr>ed_clock := clock\<rparr>)"
proof -
  let ?e = "(on_hist k f e)\<lparr>ed_clock := clock\<rparr>"
  have same: "ed_ledger ?e = ed_ledger e" "ed_made ?e = ed_made e" "ed_clock ?e = clock"
    "ed_hists ?e = (ed_hists e)(k := f (ed_hists e k))"
    by (simp_all add: on_hist_def)
  have kept: "known ours e cg" "snd cg < ed_clock e" if "cg \<in> set (ed_made e)" for cg
    using ok that by (auto simp: editor_ok_def known_def)
  have old: "g \<in> stamps (f (ed_hists e k)) \<Longrightarrow> g < ed_clock e \<Longrightarrow> g \<in> stamps (ed_hists e k)" for g
    using subset by (force simp: stamps_def)
  have "\<forall>k'. hist_ok clock (ed_hists ?e k')"
    using ok hist later hist_ok_later unfolding same by (auto simp: editor_ok_def)
  moreover have "\<forall>cg \<in> set (ed_made e). known ours ?e cg"
    using kept later placed unfolding same known_def by (fastforce simp: same)
  moreover have "sorted_wrt (in_order ?e) (ed_made e)"
  proof (rule sorted_wrt_mono_rel[of _ "in_order e"])
    fix a b assume "a \<in> set (ed_made e)" "b \<in> set (ed_made e)" "in_order e a b"
    then show "in_order ?e a b"
      using kept(2)[of a] old unfolding in_order_def same by (auto split: if_splits)
  qed (use ok in \<open>simp add: editor_ok_def\<close>)
  moreover have "attributed ours ?e"
    using ok subset unfolding attributed_def same editor_ok_def by (metis fun_upd_apply)
  moreover have "ledger_holds ?e"
    using ok unfolding ledger_holds_def same editor_ok_def by blast
  ultimately show ?thesis
    unfolding editor_ok_def same by blast
qed

lemma editor_ok_user:
  assumes "editor_ok ours e" "\<not> ours name"
  shows "editor_ok ours (user_commit k name e)"
proof -
  have h: "hist_ok (ed_clock e) (ed_hists e k)" using assms(1) by (simp add: editor_ok_def)
  have "editor_ok ours ((on_hist k (commit_act (ed_clock e) name) e)\<lparr>ed_clock := ed_clock e + 1\<rparr>)"
    using assms(2) hist_ok_commit[OF h] placed_commit[OF _ h]
    by (intro editor_ok_move[OF assms(1)]) (auto dest: in_set_takeD)
  then show ?thesis by (simp add: user_commit_def on_hist_def)
qed

lemma editor_ok_moves:
  assumes "editor_ok ours e" "f \<in> {undo_act, redo_act, clear_acts}"
  shows "editor_ok ours (on_hist k f e)"
proof -
  have h: "hist_ok (ed_clock e) (ed_hists e k)" using assms(1) by (simp add: editor_ok_def)
  have "editor_ok ours ((on_hist k f e)\<lparr>ed_clock := ed_clock e\<rparr>)"
    using assms(2) hist_ok_moves[OF h] placed_moves
    by (intro editor_ok_move[OF assms(1)]) auto
  moreover have "(on_hist k f e)\<lparr>ed_clock := ed_clock e\<rparr> = on_hist k f e" by (simp add: on_hist_def)
  ultimately show ?thesis by simp
qed

text \<open>One action of one of Didi's commands.\<close>

definition didi_one :: "int \<Rightarrow> string \<Rightarrow> editor \<Rightarrow> editor" where
  "didi_one k name e =
     (let h = ed_hists e k;
          c = \<lparr>uc_run = ul_run (ed_ledger e), uc_serial = ul_next_serial (ed_ledger e), uc_history_id = k,
               uc_scene_path = [], uc_index = int (h_applied h), uc_version = h_version h + 1, uc_action = name\<rparr>
      in e\<lparr>ed_clock := ed_clock e + 1, ed_hists := (ed_hists e)(k := commit_act (ed_clock e) name h),
           ed_ledger := record_commit c (ed_ledger e), ed_made := ed_made e @ [(c, ed_clock e)]\<rparr>)"

lemma ledger_holds_one:
  assumes "ledger_holds e"
  shows "ledger_holds (didi_one k name e)"
proof -
  let ?l = "ed_ledger e" and ?n = "length (ed_made e)" and ?e = "didi_one k name e"
  define c where "c = \<lparr>uc_run = ul_run ?l, uc_serial = ul_next_serial ?l, uc_history_id = k, uc_scene_path = [],
      uc_index = int (h_applied (ed_hists e k)), uc_version = h_version (ed_hists e k) + 1, uc_action = name\<rparr>"
  have made: "ed_made ?e = ed_made e @ [(c, ed_clock e)]" and ledger: "ed_ledger ?e = record_commit c ?l"
    by (simp_all add: didi_one_def Let_def c_def)
  have "ul_commits (ed_ledger ?e) = drop (length (ed_made ?e) - ul_capacity (ed_ledger ?e)) (map fst (ed_made ?e))"
    using assms push_bounded_drop[of "ul_capacity ?l" "map fst (ed_made e)" c]
    by (simp add: ledger made record_commit_def ledger_holds_def)
  moreover have "unat (ul_next_serial (ed_ledger ?e)) = length (ed_made ?e) + 1 \<and>
      (\<forall>i < length (ed_made ?e). unat (uc_serial (fst (ed_made ?e ! i))) = i + 1)"
    if "length (ed_made ?e) < 2 ^ 64 - 1"
  proof -
    have short: "?n < 2 ^ 64 - 1" and n: "?n + 1 < 2 ^ 64 - 1" using that by (simp_all add: made)
    have s: "unat (ul_next_serial ?l) = ?n + 1" and old: "\<forall>i < ?n. unat (uc_serial (fst (ed_made e ! i))) = i + 1"
      using assms short unfolding ledger_holds_def by blast+
    have "ul_next_serial ?l \<noteq> - 1"
    proof
      assume "ul_next_serial ?l = - 1"
      then have "unat (ul_next_serial ?l) = 2 ^ 64 - 1" by (simp add: unat_max)
      with s n show False by simp
    qed
    then have "unat (ul_next_serial (ed_ledger ?e)) = ?n + 2"
      using unat_next s by (simp add: ledger record_commit_def)
    moreover have "uc_serial c = ul_next_serial ?l" by (simp add: c_def)
    ultimately show ?thesis
      using old s unfolding made by (auto simp: nth_append less_Suc_eq)
  qed
  ultimately show ?thesis unfolding ledger_holds_def by blast
qed

lemma editor_ok_one:
  assumes ok: "editor_ok ours e" and name: "ours name"
  shows "editor_ok ours (didi_one k name e)"
proof -
  let ?h = "ed_hists e k" and ?e = "didi_one k name e" and ?g = "ed_clock e"
  define c where "c = \<lparr>uc_run = ul_run (ed_ledger e), uc_serial = ul_next_serial (ed_ledger e), uc_history_id = k,
      uc_scene_path = [], uc_index = int (h_applied ?h), uc_version = h_version ?h + 1, uc_action = name\<rparr>"
  have same: "ed_made ?e = ed_made e @ [(c, ?g)]" "ed_clock ?e = ?g + 1" "ul_run (ed_ledger ?e) = ul_run (ed_ledger e)"
    "ed_hists ?e = (ed_hists e)(k := commit_act ?g name ?h)"
    by (simp_all add: didi_one_def Let_def c_def record_commit_def)
  have h: "hist_ok ?g ?h" using ok by (simp add: editor_ok_def)
  have kept: "known ours e cg" "snd cg < ?g" if "cg \<in> set (ed_made e)" for cg
    using ok that by (auto simp: editor_ok_def known_def)
  have "\<forall>k'. hist_ok (?g + 1) (ed_hists ?e k')"
  proof
    fix k' have "hist_ok ?g (ed_hists e k')" using ok by (simp add: editor_ok_def)
    then show "hist_ok (?g + 1) (ed_hists ?e k')"
      using hist_ok_commit[OF h] hist_ok_later[of ?g "ed_hists e k'" "?g + 1"] unfolding same by auto
  qed
  moreover have "\<forall>cg \<in> set (ed_made ?e). known ours ?e cg"
  proof
    fix cg assume "cg \<in> set (ed_made ?e)"
    then consider (old) "cg \<in> set (ed_made e)" | (new) "cg = (c, ?g)" by (auto simp: same)
    then show "known ours ?e cg"
    proof cases
      case old
      obtain d g where cg: "cg = (d, g)" by (cases cg)
      have "placed (ed_hists ?e (uc_history_id d)) (d, g)"
        using kept[OF old] placed_commit[OF _ h, of d g name] unfolding same cg known_def by auto
      then show ?thesis using kept[OF old] unfolding known_def same cg by simp
    next
      case new
      have "placed (commit_act ?g name ?h) (c, ?g)" by (rule placed_new[OF h]) (simp_all add: c_def)
      then show ?thesis unfolding new known_def same using name by (simp add: c_def)
    qed
  qed
  moreover have "sorted_wrt (in_order ?e) (ed_made ?e)"
  proof -
    have "sorted_wrt (in_order ?e) (ed_made e)"
    proof (rule sorted_wrt_mono_rel[of _ "in_order e"])
      fix a b assume ab: "a \<in> set (ed_made e)" "b \<in> set (ed_made e)" "in_order e a b"
      have "snd a \<in> stamps (commit_act ?g name ?h) \<Longrightarrow> snd a \<in> stamps ?h"
        using stamps_commit[of ?g name ?h] kept(2)[OF ab(1)] by auto
      then show "in_order ?e a b"
        using ab(3) unfolding in_order_def same by (auto split: if_splits)
    qed (use ok in \<open>simp add: editor_ok_def\<close>)
    moreover have "in_order ?e a (c, ?g)" if a: "a \<in> set (ed_made e)" for a
    proof -
      obtain d g where d: "a = (d, g)" by (cases a)
      have "uc_version d < uc_version c"
        if k: "uc_history_id d = k" and g: "g \<in> stamps (commit_act ?g name ?h)"
      proof -
        have pl: "placed ?h (d, g)" and less: "g < ?g" using kept[OF a] k by (auto simp: known_def d)
        have "placed (commit_act ?g name ?h) (d, g)" by (rule placed_commit[OF pl h less])
        then have c1: "commit_epoch d = hist_epoch ?h"
            "nat (uc_index d) < length (h_acts (commit_act ?g name ?h))"
            "h_acts (commit_act ?g name ?h) ! nat (uc_index d) = (g, uc_action d)" "0 \<le> uc_index d"
          using g by (auto simp: placed_def epoch_moves)
        have "nat (uc_index d) < h_applied ?h"
        proof (rule ccontr)
          assume "\<not> nat (uc_index d) < h_applied ?h"
          moreover have "h_applied ?h \<le> length (h_acts ?h)" using h by (simp add: hist_ok_def)
          ultimately have "h_acts (commit_act ?g name ?h) ! nat (uc_index d) = (?g, name)"
            using c1(2) by (simp add: nth_append)
          then show False using c1(3) less by simp
        qed
        then show ?thesis using c1(1,4) by (simp add: commit_epoch_def hist_epoch_def c_def)
      qed
      then show ?thesis using kept(2)[OF a] unfolding in_order_def d same by (auto simp: c_def)
    qed
    ultimately show ?thesis unfolding same by (simp add: sorted_wrt_append)
  qed
  moreover have "attributed ours ?e"
    unfolding attributed_def
  proof (intro allI ballI impI)
    fix k' a assume a: "a \<in> set (h_acts (ed_hists ?e k'))" "ours (snd a)"
    show "\<exists>d. (d, fst a) \<in> set (ed_made ?e) \<and> uc_history_id d = k'"
    proof (cases "k' = k \<and> a = (?g, name)")
      case True
      then show ?thesis unfolding same by (intro exI[of _ c]) (simp add: c_def)
    next
      case False
      then have "a \<in> set (h_acts (ed_hists e k'))"
        using a(1) unfolding same by (auto split: if_splits dest: in_set_takeD)
      then obtain d where "(d, fst a) \<in> set (ed_made e)" "uc_history_id d = k'"
        using ok a(2) unfolding editor_ok_def attributed_def by blast
      then show ?thesis unfolding same by auto
    qed
  qed
  moreover have "ledger_holds ?e"
    using ok by (intro ledger_holds_one) (simp add: editor_ok_def)
  ultimately show ?thesis
    unfolding editor_ok_def same(2) by blast
qed

section \<open>Observing a whole command\<close>

lemma commit_acts_snoc: "commit_acts g (names @ [n]) h = commit_act (g + length names) n (commit_acts g names h)"
  by (induction names arbitrary: g h) auto

lemma commit_acts_facts:
  "h_applied (commit_acts g names h) = h_applied h + length names"
  "h_version (commit_acts g names h) = h_version h + int (length names)"
  by (induction names arbitrary: g h) (auto simp: commit_act_def)

lemma commit_acts_acts:
  "h_applied h \<le> length (h_acts h) \<Longrightarrow> names \<noteq> [] \<Longrightarrow>
   h_acts (commit_acts g names h) = take (h_applied h) (h_acts h) @ zip [g..<g + length names] names"
proof (induction names rule: rev_induct)
  case (snoc n names)
  show ?case
  proof (cases "names = []")
    case False
    have l: "length (h_acts (commit_acts g names h)) = h_applied h + length names"
      using snoc.IH[OF snoc.prems(1) False] snoc.prems(1) by simp
    show ?thesis
      using snoc.IH[OF snoc.prems(1) False] l
      by (simp add: commit_acts_snoc commit_acts_facts)
  qed simp
qed simp

lemma didi_one_facts:
  "ed_clock (didi_one k name e) = ed_clock e + 1"
  "ed_hists (didi_one k name e) = (ed_hists e)(k := commit_act (ed_clock e) name (ed_hists e k))"
  "ul_run (ed_ledger (didi_one k name e)) = ul_run (ed_ledger e)"
  by (simp_all add: didi_one_def Let_def record_commit_def)

lemma fold_one_facts:
  "ed_clock (fold (didi_one k) ps e) = ed_clock e + length ps \<and>
   ed_hists (fold (didi_one k) ps e) = (ed_hists e)(k := commit_acts (ed_clock e) ps (ed_hists e k)) \<and>
   ul_run (ed_ledger (fold (didi_one k) ps e)) = ul_run (ed_ledger e)"
proof (induction ps rule: rev_induct)
  case (snoc p ps)
  then show ?case
    by (auto simp: didi_one_facts commit_acts_snoc)
qed simp

lemma name_in_committed:
  assumes "h_applied h \<le> length (h_acts h)" "j < length names"
  shows "name_in (commit_acts g names h) (int (h_applied h + j)) = names ! j"
proof -
  have "names \<noteq> []" using assms(2) by auto
  note acts = commit_acts_acts[OF assms(1) this, of g]
  have "h_acts (commit_acts g names h) ! (h_applied h + j) = (g + j, names ! j)"
    unfolding acts using assms by (simp add: nth_append)
  moreover have "h_applied h + j < length (h_acts (commit_acts g names h))"
    unfolding acts using assms by simp
  ultimately show ?thesis unfolding name_in_def nat_int by simp
qed

lemma observe_prefix:
  fixes e k names
  defines "h \<equiv> ed_hists e k"
  defines "h' \<equiv> commit_acts (ed_clock e) names h"
  assumes fit: "h_applied h \<le> length (h_acts h)" and j: "j \<le> length names"
  shows "\<exists>cs. fold (observe_step (view k h) (view k h') (Some (name_in h')) (int (length names))) [0..int j - 1]
        ([], ed_ledger e) = (cs, ed_ledger (fold (didi_one k) (take j names) e)) \<and> length cs = j \<and>
      ed_made (fold (didi_one k) (take j names) e) = ed_made e @ zip cs [ed_clock e..<ed_clock e + j]"
  using j
proof (induction j)
  case 0
  then show ?case by simp
next
  case (Suc j)
  let ?F = "fold (didi_one k) (take j names) e" and ?n = "int (length names)"
  obtain cs where IH: "fold (observe_step (view k h) (view k h') (Some (name_in h')) ?n) [0..int j - 1]
        ([], ed_ledger e) = (cs, ed_ledger ?F)" "length cs = j"
      "ed_made ?F = ed_made e @ zip cs [ed_clock e..<ed_clock e + j]"
    using Suc by auto
  have j: "j < length names" using Suc.prems by simp
  have upto: "[0..int (Suc j) - 1] = [0..int j - 1] @ [int j]"
    using upto_rec2[of 0 "int j"] by simp
  have step: "fold (didi_one k) (take (Suc j) names) e = didi_one k (names ! j) ?F"
    by (simp add: take_Suc_conv_app_nth[OF j])
  let ?c = "\<lparr>uc_run = ul_run (ed_ledger ?F), uc_serial = ul_next_serial (ed_ledger ?F), uc_history_id = k,
      uc_scene_path = [], uc_index = int (h_applied h + j), uc_version = h_version h + 1 + int j, uc_action = names ! j\<rparr>"
  have len: "length (take j names) = j" using j by simp
  have one: "didi_one k (names ! j) ?F = ?F\<lparr>ed_clock := ed_clock e + j + 1,
      ed_hists := (ed_hists ?F)(k := commit_act (ed_clock e + j) (names ! j) (ed_hists ?F k)),
      ed_ledger := record_commit ?c (ed_ledger ?F), ed_made := ed_made ?F @ [(?c, ed_clock e + j)]\<rparr>"
    using fold_one_facts[of k "take j names" e] len
    by (simp add: didi_one_def Let_def commit_acts_facts h_def algebra_simps)
  have action: "(if int j = ?n - 1 then name_in h' (int (h_applied h') - 1) else name_in h' (int (h_applied h + j))) = names ! j"
  proof (cases "int j = ?n - 1")
    case True
    then have "int (h_applied h') - 1 = int (h_applied h + j)" by (simp add: h'_def commit_acts_facts)
    then show ?thesis using True name_in_committed[OF fit j] by (simp only: refl if_True h'_def)
  next
    case False
    then show ?thesis using name_in_committed[OF fit j] by (simp add: h'_def)
  qed
  have index: "uh_current (view k h') - (?n - 1 - int j) = int (h_applied h + j)"
    by (simp add: view_def h'_def commit_acts_facts)
  have "observe_step (view k h) (view k h') (Some (name_in h')) ?n (int j) (cs, ed_ledger ?F)
      = (cs @ [?c], record_commit ?c (ed_ledger ?F))"
  proof -
    have "(if int j = ?n - 1 then uh_action (view k h') else named_at (Some (name_in h')) (int (h_applied h + j)))
        = names ! j"
      using action by (simp only: view_def named_at_def undo_history_state.simps option.case)
    then show ?thesis unfolding observe_step_def Let_def prod.case index by (simp add: view_def)
  qed
  then have "fold (observe_step (view k h) (view k h') (Some (name_in h')) ?n) [0..int (Suc j) - 1] ([], ed_ledger e)
      = (cs @ [?c], ed_ledger (fold (didi_one k) (take (Suc j) names) e))"
    unfolding upto step one using IH(1) by simp
  moreover have "ed_made (fold (didi_one k) (take (Suc j) names) e)
      = ed_made e @ zip (cs @ [?c]) [ed_clock e..<ed_clock e + Suc j]"
    unfolding step one using IH(2,3) by simp
  ultimately show ?case using IH(2) by (intro exI[of _ "cs @ [?c]"]) simp
qed

lemma didi_command_fold:
  assumes "h_applied (ed_hists e k) \<le> length (h_acts (ed_hists e k))"
  shows "didi_command k names e = fold (didi_one k) names e"
proof (cases "names = []")
  case True
  then show ?thesis by (simp add: didi_command_def Let_def observe_def view_def)
next
  case False
  let ?h = "ed_hists e k" and ?h' = "commit_acts (ed_clock e) names (ed_hists e k)"
  obtain cs where cs: "fold (observe_step (view k ?h) (view k ?h') (Some (name_in ?h')) (int (length names)))
        [0..int (length names) - 1] ([], ed_ledger e) = (cs, ed_ledger (fold (didi_one k) names e))"
      "length cs = length names"
      "ed_made (fold (didi_one k) names e) = ed_made e @ zip cs [ed_clock e..<ed_clock e + length names]"
    using observe_prefix[OF assms order_refl] by auto
  have "h_acts ?h' \<noteq> []" unfolding commit_acts_acts[OF assms False] using False by (cases names) auto
  moreover have "0 < length names" using False by simp
  then have "1 \<le> int (h_applied ?h) + int (length names)" by linarith
  ultimately have "observe (view k ?h) (view k ?h') (Some (name_in ?h')) (ed_ledger e) = (cs, ed_ledger (fold (didi_one k) names e))"
    using cs(1) False by (simp add: observe_def view_def commit_acts_facts)
  then have "didi_command k names e = e\<lparr>ed_clock := ed_clock e + length names, ed_hists := (ed_hists e)(k := ?h'),
      ed_ledger := ed_ledger (fold (didi_one k) names e), ed_made := ed_made (fold (didi_one k) names e)\<rparr>"
    using cs(3) by (simp add: didi_command_def Let_def)
  also have "\<dots> = fold (didi_one k) names e"
    using fold_one_facts[of k names e] by (intro editor.equality) simp_all
  finally show ?thesis .
qed

lemma editor_ok_fold: "editor_ok ours e \<Longrightarrow> list_all ours names \<Longrightarrow> editor_ok ours (fold (didi_one k) names e)"
  by (induction names arbitrary: e) (auto intro: editor_ok_one)

lemma editor_ok_step: "editor_step ours e e' \<Longrightarrow> editor_ok ours e \<Longrightarrow> editor_ok ours e'"
proof (induction rule: editor_step.induct)
  case (didi names e k)
  have "h_applied (ed_hists e k) \<le> length (h_acts (ed_hists e k))"
    using didi.prems by (simp add: editor_ok_def hist_ok_def)
  then show ?case using didi editor_ok_fold by (simp add: didi_command_fold)
qed (auto intro: editor_ok_user editor_ok_moves)

lemma editor_ok_steps: "(editor_step ours)\<^sup>*\<^sup>* e e' \<Longrightarrow> editor_ok ours e \<Longrightarrow> editor_ok ours e'"
  by (induction rule: rtranclp_induct) (auto intro: editor_ok_step)

lemma editor_ok_reach: "editor_reach ours run cap e \<Longrightarrow> editor_ok ours e"
  unfolding editor_reach_def using editor_ok_steps editor_ok_new by blast

section \<open>The verdicts are true\<close>

text \<open>An action is above another in a history when it was committed to it later.\<close>

definition top_stamp :: "hist \<Rightarrow> nat option" where
  "top_stamp h = (if h_applied h = 0 then None else Some (fst (h_acts h ! (h_applied h - 1))))"

definition applied_above :: "hist \<Rightarrow> nat \<Rightarrow> nat" where
  "applied_above h g = length (filter (\<lambda>a. g < fst a) (take (h_applied h) (h_acts h)))"

text \<open>Facts of a reachable editor about one of Didi's commits.\<close>

lemma made_facts:
  assumes "editor_ok ours e" "(c, g) \<in> set (ed_made e)"
  shows "placed (ed_hists e (uc_history_id c)) (c, g)" "uc_run c = ul_run (ed_ledger e)" "ours (uc_action c)"
    "hist_ok (ed_clock e) (ed_hists e k)"
  using assms by (auto simp: editor_ok_def known_def)

lemma made_order:
  assumes "editor_ok ours e" "(c, g) \<in> set (ed_made e)" "(d, f) \<in> set (ed_made e)" "length (ed_made e) < 2 ^ 64 - 1"
  shows "uc_serial c < uc_serial d \<longleftrightarrow> g < f" "uc_serial c = uc_serial d \<longleftrightarrow> (c, g) = (d, f)" "g = f \<longleftrightarrow> (c, g) = (d, f)"
    "g < f \<Longrightarrow> uc_history_id c = uc_history_id d \<Longrightarrow> g \<in> stamps (ed_hists e (uc_history_id c)) \<Longrightarrow> uc_version c < uc_version d"
proof -
  obtain i j where i: "i < length (ed_made e)" "ed_made e ! i = (c, g)" and j: "j < length (ed_made e)" "ed_made e ! j = (d, f)"
    using assms(2,3) by (auto simp: in_set_conv_nth)
  have serial: "unat (uc_serial c) = i + 1" "unat (uc_serial d) = j + 1"
    using assms(1,4) i j unfolding editor_ok_def ledger_holds_def by force+
  have order: "in_order e (ed_made e ! a) (ed_made e ! b)" if "a < b" "b < length (ed_made e)" for a b
    using assms(1) that by (auto simp: editor_ok_def sorted_wrt_iff_nth_less)
  have stamp: "g < f \<longleftrightarrow> i < j"
    using order[of i j] order[of j i] i j by (cases i j rule: linorder_cases) (auto simp: in_order_def)
  show "uc_serial c < uc_serial d \<longleftrightarrow> g < f"
    unfolding stamp by (simp add: word_less_nat_alt serial)
  show "uc_serial c = uc_serial d \<longleftrightarrow> (c, g) = (d, f)"
    using serial i j by (metis add_right_cancel unsigned_word_eqI fst_conv)
  show "g = f \<longleftrightarrow> (c, g) = (d, f)"
    using order[of i j] order[of j i] i j by (cases i j rule: linorder_cases) (auto simp: in_order_def)
  assume "g < f" "uc_history_id c = uc_history_id d" "g \<in> stamps (ed_hists e (uc_history_id c))"
  then show "uc_version c < uc_version d"
    using order[of i j] i j stamp by (auto simp: in_order_def)
qed

lemma ledger_complete:
  assumes "editor_ok ours e" "length (ed_made e) \<le> ul_capacity (ed_ledger e)"
  shows "ul_commits (ed_ledger e) = map fst (ed_made e)"
  using assms by (simp add: editor_ok_def ledger_holds_def)

lemma replaced_in_rev:
  assumes "sorted_wrt (\<lambda>c d. uc_serial d \<le> uc_serial c) ds"
  shows "replaced_in c ds \<longleftrightarrow>
    (\<exists>d \<in> set ds. uc_serial c < uc_serial d \<and> uc_run d = uc_run c \<and> uc_history_id d = uc_history_id c \<and>
       uc_version d \<le> uc_version c)"
  using assms by (induction ds) (auto simp: not_less not_le)

lemma ledger_sorted:
  assumes "editor_ok ours e" "length (ed_made e) < 2 ^ 64 - 1"
  shows "sorted_wrt (\<lambda>c d. uc_serial c < uc_serial d) (map fst (ed_made e))"
proof -
  have "unat (uc_serial (fst (ed_made e ! i))) = i + 1" if "i < length (ed_made e)" for i
    using assms that by (auto simp: editor_ok_def ledger_holds_def)
  then show ?thesis by (auto simp: sorted_wrt_iff_nth_less word_less_nat_alt)
qed

text \<open>Which of the two ways a reference can be missing the first two tests find.\<close>

lemma replaced_later_iff:
  assumes ok: "editor_ok ours e" and fits: "length (ed_made e) \<le> ul_capacity (ed_ledger e)" "length (ed_made e) < 2 ^ 64 - 1"
    and c: "(c, g) \<in> set (ed_made e)"
  shows "replaced_later (ed_ledger e) c \<longleftrightarrow>
    (\<exists>d f. (d, f) \<in> set (ed_made e) \<and> g < f \<and> uc_history_id d = uc_history_id c \<and> uc_version d \<le> uc_version c)"
proof -
  have "sorted_wrt (\<lambda>c d. uc_serial d \<le> uc_serial c) (rev (map fst (ed_made e)))"
    using ledger_sorted[OF ok fits(2)] unfolding sorted_wrt_rev
    by (rule sorted_wrt_mono_rel[rotated]) (simp add: less_imp_le)
  then have "replaced_later (ed_ledger e) c \<longleftrightarrow>
      (\<exists>d \<in> set (map fst (ed_made e)). uc_serial c < uc_serial d \<and> uc_run d = uc_run c \<and>
         uc_history_id d = uc_history_id c \<and> uc_version d \<le> uc_version c)"
    unfolding replaced_later_def ledger_complete[OF ok fits(1)] by (simp only: replaced_in_rev set_rev)
  also have "\<dots> \<longleftrightarrow> (\<exists>d f. (d, f) \<in> set (ed_made e) \<and> g < f \<and> uc_history_id d = uc_history_id c \<and> uc_version d \<le> uc_version c)"
  proof
    assume "\<exists>d \<in> set (map fst (ed_made e)). uc_serial c < uc_serial d \<and> uc_run d = uc_run c \<and>
         uc_history_id d = uc_history_id c \<and> uc_version d \<le> uc_version c"
    then obtain d f where d: "(d, f) \<in> set (ed_made e)" "uc_serial c < uc_serial d" "uc_history_id d = uc_history_id c"
        "uc_version d \<le> uc_version c"
      by auto
    then show "\<exists>d f. (d, f) \<in> set (ed_made e) \<and> g < f \<and> uc_history_id d = uc_history_id c \<and> uc_version d \<le> uc_version c"
      using made_order(1)[OF ok c d(1) fits(2)] by blast
  next
    assume "\<exists>d f. (d, f) \<in> set (ed_made e) \<and> g < f \<and> uc_history_id d = uc_history_id c \<and> uc_version d \<le> uc_version c"
    then obtain d f where d: "(d, f) \<in> set (ed_made e)" "g < f" "uc_history_id d = uc_history_id c"
        "uc_version d \<le> uc_version c"
      by auto
    have "d \<in> set (map fst (ed_made e))" using d(1) by force
    moreover have "uc_serial c < uc_serial d" using made_order(1)[OF ok c d(1) fits(2)] d(2) by blast
    moreover have "uc_run d = uc_run c" using made_facts(2)[OF ok d(1)] made_facts(2)[OF ok c] by simp
    ultimately show "\<exists>d \<in> set (map fst (ed_made e)). uc_serial c < uc_serial d \<and> uc_run d = uc_run c \<and>
         uc_history_id d = uc_history_id c \<and> uc_version d \<le> uc_version c"
      using d(3,4) by blast
  qed
  finally show ?thesis .
qed

definition missing_index :: "undo_commit \<Rightarrow> undo_history_state \<Rightarrow> bool" where
  "missing_index c own =
     (uc_index c < 0 \<or> uh_count own \<le> uc_index c \<or> uh_version own - uh_current own \<noteq> uc_version c - uc_index c)"

lemma stands_iff:
  assumes ok: "editor_ok ours e" and fits: "length (ed_made e) \<le> ul_capacity (ed_ledger e)" "length (ed_made e) < 2 ^ 64 - 1"
    and c: "(c, g) \<in> set (ed_made e)"
  defines "h \<equiv> ed_hists e (uc_history_id c)"
  shows "\<not> missing_index c (view (uc_history_id c) h) \<and> name_in h (uc_index c) = uc_action c \<and>
      \<not> replaced_later (ed_ledger e) c \<longleftrightarrow> g \<in> stamps h"
proof -
  let ?i = "nat (uc_index c)"
  have pl: "placed h (c, g)" using made_facts(1)[OF ok c] by (simp add: h_def)
  have hist: "hist_ok (ed_clock e) h" using made_facts(4)[OF ok c] by (simp add: h_def)
  have index: "\<not> missing_index c (view (uc_history_id c) h) \<longleftrightarrow>
      ?i < length (h_acts h) \<and> commit_epoch c = hist_epoch h"
    using pl by (auto simp: missing_index_def view_def placed_def commit_epoch_def hist_epoch_def)
  show ?thesis
  proof
    assume a: "\<not> missing_index c (view (uc_history_id c) h) \<and> name_in h (uc_index c) = uc_action c \<and>
      \<not> replaced_later (ed_ledger e) c"
    then have i: "?i < length (h_acts h)" and epoch: "commit_epoch c = hist_epoch h" using index by blast+
    define f where "f = fst (h_acts h ! ?i)"
    have at: "h_acts h ! ?i = (f, uc_action c)"
      using a i pl by (auto simp: name_in_def f_def placed_def prod_eq_iff)
    have "(f, uc_action c) \<in> set (h_acts h)" using at i by (metis nth_mem)
    then obtain d where d: "(d, f) \<in> set (ed_made e)" "uc_history_id d = uc_history_id c"
      using ok made_facts(3)[OF ok c] unfolding editor_ok_def attributed_def h_def by fastforce
    have "placed h (d, f)" using made_facts(1)[OF ok d(1)] d(2) by (simp add: h_def)
    moreover have "f \<in> stamps h" using at i unfolding stamps_def by (metis f_def image_eqI nth_mem)
    ultimately have pd: "commit_epoch d = hist_epoch h" "nat (uc_index d) < length (h_acts h)"
        "h_acts h ! nat (uc_index d) = (f, uc_action d)" "0 \<le> uc_index d"
      by (auto simp: placed_def)
    have "nat (uc_index d) = ?i"
      using increasing_nth_unique[OF _ pd(2) i] hist at pd(3) by (simp add: hist_ok_def)
    moreover have "0 \<le> uc_index c" using pl by (simp add: placed_def)
    ultimately have "uc_index d = uc_index c" using pd(4) by linarith
    then have "uc_version d = uc_version c" using pd(1) epoch by (simp add: commit_epoch_def)
    moreover have "g \<le> f" using pl epoch i by (simp add: placed_def f_def)
    ultimately have "g = f"
      using a d unfolding replaced_later_iff[OF ok fits c] by (metis le_neq_implies_less order_refl)
    then show "g \<in> stamps h" using \<open>f \<in> stamps h\<close> by simp
  next
    assume g: "g \<in> stamps h"
    then have at: "commit_epoch c = hist_epoch h" "?i < length (h_acts h)" "h_acts h ! ?i = (g, uc_action c)" "0 \<le> uc_index c"
      using pl by (auto simp: placed_def)
    have "\<not> replaced_later (ed_ledger e) c"
    proof
      assume "replaced_later (ed_ledger e) c"
      then obtain d f where d: "(d, f) \<in> set (ed_made e)" "g < f" "uc_history_id d = uc_history_id c"
          "uc_version d \<le> uc_version c"
        unfolding replaced_later_iff[OF ok fits c] by blast
      then show False using made_order(4)[OF ok c d(1) fits(2) d(2)] g unfolding h_def by simp
    qed
    then show "\<not> missing_index c (view (uc_history_id c) h) \<and> name_in h (uc_index c) = uc_action c \<and>
      \<not> replaced_later (ed_ledger e) c"
      using at index by (simp add: name_in_def)
  qed
qed

text \<open>The verdict as the three questions it is decided by.\<close>

lemma verdict_state:
  assumes "uc_run c = ul_run ledger"
  shows "uv_state (evaluate_undo ledger c own candidate other names) =
    (if missing_index c own \<or> named_at names (uc_index c) \<noteq> uc_action c \<or> replaced_later ledger c then Gone
     else if uh_current own < uc_index c then Undone
     else if uc_index c < uh_current own then Later_History
     else if \<not> candidate then Blocked
     else case other of
            None \<Rightarrow> Available
          | Some k \<Rightarrow> if uh_current k < 0 then Available
                      else case top_of ledger k of
                             None \<Rightarrow> Blocked
                           | Some t \<Rightarrow> if uc_serial c < uc_serial t then Blocked else Available)"
  using assms by (simp add: evaluate_undo_def new_verdict_def missing_index_def Let_def split: option.split)

lemma verdict_later:
  "uv_state (evaluate_undo ledger c own candidate other names) = Later_History \<Longrightarrow>
   uv_later_actions (evaluate_undo ledger c own candidate other names) = uh_current own - uc_index c"
  by (simp add: evaluate_undo_def new_verdict_def Let_def split: option.splits if_splits)

lemma standing_place:
  assumes "placed h (c, g)" "g \<in> stamps h" "hist_ok clock h"
  shows "g \<in> fst ` set (drop (h_applied h) (h_acts h)) \<longleftrightarrow> int (h_applied h) - 1 < uc_index c"
    "top_stamp h = Some g \<longleftrightarrow> uc_index c = int (h_applied h) - 1"
    "uc_index c < int (h_applied h) - 1 \<Longrightarrow> int (applied_above h g) = int (h_applied h) - 1 - uc_index c"
proof -
  let ?i = "nat (uc_index c)"
  have i: "?i < length (h_acts h)" "h_acts h ! ?i = (g, uc_action c)" "0 \<le> uc_index c"
    and inc: "increasing fst (h_acts h)" and n: "h_applied h \<le> length (h_acts h)"
    using assms by (auto simp: placed_def hist_ok_def)
  have at: "j = ?i" if "j < length (h_acts h)" "fst (h_acts h ! j) = g" for j
    using increasing_nth_unique[OF inc that(1) i(1)] that(2) i(2) by simp
  show "g \<in> fst ` set (drop (h_applied h) (h_acts h)) \<longleftrightarrow> int (h_applied h) - 1 < uc_index c"
  proof
    assume "g \<in> fst ` set (drop (h_applied h) (h_acts h))"
    then obtain x where x: "x \<in> set (drop (h_applied h) (h_acts h))" "fst x = g" by auto
    then obtain j where "j < length (h_acts h) - h_applied h" "x = h_acts h ! (h_applied h + j)"
      using n by (auto simp: in_set_conv_nth)
    then have j: "h_applied h + j < length (h_acts h)" "fst (h_acts h ! (h_applied h + j)) = g"
      using x(2) by simp_all
    then have "h_applied h + j = ?i" by (rule at)
    then show "int (h_applied h) - 1 < uc_index c" using i(3) by linarith
  next
    assume "int (h_applied h) - 1 < uc_index c"
    then have "h_applied h \<le> ?i" by linarith
    then have "drop (h_applied h) (h_acts h) ! (?i - h_applied h) = (g, uc_action c)"
        "?i - h_applied h < length (drop (h_applied h) (h_acts h))"
      using i n by auto
    then show "g \<in> fst ` set (drop (h_applied h) (h_acts h))" by (metis fst_conv image_eqI nth_mem)
  qed
  show "top_stamp h = Some g \<longleftrightarrow> uc_index c = int (h_applied h) - 1"
  proof (cases "h_applied h")
    case 0
    then show ?thesis using i(3) by (simp add: top_stamp_def)
  next
    case (Suc m)
    then have "m < length (h_acts h)" using n by simp
    then have "fst (h_acts h ! m) = g \<longleftrightarrow> m = ?i" using at[of m] i(2) by (metis fst_conv)
    moreover have "m = ?i \<longleftrightarrow> uc_index c = int (h_applied h) - 1" using Suc i(3) by linarith
    ultimately show ?thesis using Suc by (simp add: top_stamp_def)
  qed
  assume less: "uc_index c < int (h_applied h) - 1"
  have split: "take (h_applied h) (h_acts h) = take (?i + 1) (h_acts h) @ drop (?i + 1) (take (h_applied h) (h_acts h))"
  proof -
    have "min (?i + 1) (h_applied h) = ?i + 1" using less i(3) by linarith
    then have "take (?i + 1) (take (h_applied h) (h_acts h)) = take (?i + 1) (h_acts h)" by (simp only: take_take)
    then show ?thesis using append_take_drop_id[of "?i + 1" "take (h_applied h) (h_acts h)"] by simp
  qed
  have order: "fst (h_acts h ! a) < fst (h_acts h ! b)" if "a < b" "b < length (h_acts h)" for a b
    using inc that by (simp add: increasing_def sorted_wrt_iff_nth_less)
  have low: "\<not> g < fst x" if x: "x \<in> set (take (?i + 1) (h_acts h))" for x
  proof -
    obtain a where a: "a \<le> ?i" "x = h_acts h ! a" using x i(1) by (auto simp: in_set_conv_nth less_Suc_eq_le)
    then show ?thesis using order[of a ?i] i by (cases "a = ?i") auto
  qed
  have high: "g < fst x" if x: "x \<in> set (drop (?i + 1) (take (h_applied h) (h_acts h)))" for x
  proof -
    obtain b where "b < h_applied h - (?i + 1)" "x = h_acts h ! (?i + 1 + b)"
      using x n by (auto simp: in_set_conv_nth)
    then have b: "?i + 1 + b < h_applied h" "x = h_acts h ! (?i + 1 + b)" by auto
    then show ?thesis using order[of ?i "?i + 1 + b"] i n by simp
  qed
  have "applied_above h g = length (drop (?i + 1) (take (h_applied h) (h_acts h)))"
    unfolding applied_above_def by (subst split) (simp add: filter_empty_conv low high)
  then show "int (applied_above h g) = int (h_applied h) - 1 - uc_index c"
    using less i(3) n by simp
qed

text \<open>
  (C12) What the ledger says of a commit of this run is true of the action itself, in every
  editor reachable by Didi's commands, by actions of others, and by undoing, redoing and
  clearing, as long as the commits made fit the ledger (4096 in the code, and fewer than the
  serials): \<open>gone\<close> exactly when the action is no longer in its history, \<open>undone\<close> exactly when it
  is among those a redo would bring back, \<open>later_history\<close> exactly when it is applied under
  others, with the number of those, and one of the other two exactly when it is on top.
\<close>

theorem verdicts_are_true:
  assumes "editor_reach ours run cap e" "(c, g) \<in> set (ed_made e)"
    "length (ed_made e) \<le> ul_capacity (ed_ledger e)" "length (ed_made e) < 2 ^ 64 - 1"
  shows "let h = ed_hists e (uc_history_id c);
             v = evaluate_undo (ed_ledger e) c (view (uc_history_id c) h) candidate other (Some (name_in h))
         in (uv_state v = Gone \<longleftrightarrow> g \<notin> stamps h) \<and>
            (uv_state v = Undone \<longleftrightarrow> g \<in> fst ` set (drop (h_applied h) (h_acts h))) \<and>
            (uv_state v = Later_History \<longleftrightarrow> g \<in> fst ` set (take (h_applied h - 1) (h_acts h))) \<and>
            (uv_state v = Later_History \<longrightarrow> uv_later_actions v = int (applied_above h g)) \<and>
            (uv_state v \<in> {Available, Blocked} \<longleftrightarrow> top_stamp h = Some g)"
proof -
  note ok = editor_ok_reach[OF assms(1)]
  let ?h = "ed_hists e (uc_history_id c)"
  let ?own = "view (uc_history_id c) ?h"
  let ?v = "evaluate_undo (ed_ledger e) c ?own candidate other (Some (name_in ?h))"
  have pl: "placed ?h (c, g)" and hist: "hist_ok (ed_clock e) ?h" using made_facts[OF ok assms(2)] by blast+
  have n: "h_applied ?h \<le> length (h_acts ?h)" using hist by (simp add: hist_ok_def)
  have here: "missing_index c ?own \<or> named_at (Some (name_in ?h)) (uc_index c) \<noteq> uc_action c \<or> replaced_later (ed_ledger e) c
      \<longleftrightarrow> g \<notin> stamps ?h"
    using stands_iff[OF ok assms(3,4,2)] by (auto simp: named_at_def)
  have current: "uh_current ?own = int (h_applied ?h) - 1" by (simp add: view_def)
  note state = verdict_state[OF made_facts(2)[OF ok assms(2)], of ?own candidate other "Some (name_in ?h)",
      unfolded here current]
  have all: "stamps ?h = fst ` set (take (h_applied ?h) (h_acts ?h)) \<union> fst ` set (drop (h_applied ?h) (h_acts ?h))"
    unfolding stamps_def image_Un[symmetric] set_append[symmetric] append_take_drop_id ..
  show ?thesis
  proof (cases "g \<in> stamps ?h")
    case False
    have "g \<notin> fst ` set (drop (h_applied ?h) (h_acts ?h))" using False all by simp
    moreover have "g \<notin> fst ` set (take (h_applied ?h - 1) (h_acts ?h))"
      using False by (auto simp: stamps_def dest: in_set_takeD)
    moreover have "top_stamp ?h \<noteq> Some g"
    proof
      assume "top_stamp ?h = Some g"
      then have "g = fst (h_acts ?h ! (h_applied ?h - 1))" "0 < h_applied ?h" by (auto simp: top_stamp_def split: if_splits)
      moreover from this(2) have "h_acts ?h ! (h_applied ?h - 1) \<in> set (h_acts ?h)" using n by (intro nth_mem) simp
      ultimately show False using False by (simp add: stamps_def)
    qed
    moreover have "uv_state ?v = Gone" using state False by simp
    ultimately show ?thesis using False by (simp add: Let_def)
  next
    case True
    note place = standing_place[OF pl True hist]
    have undone: "uv_state ?v = Undone" if "int (h_applied ?h) - 1 < uc_index c"
      using state True that by simp
    have above: "uv_state ?v = Later_History" if "uc_index c < int (h_applied ?h) - 1"
      using state True that by simp
    have top: "uv_state ?v \<in> {Available, Blocked}" if "uc_index c = int (h_applied ?h) - 1"
      using state True that by (auto split: option.split)
    have later: "g \<in> fst ` set (take (h_applied ?h - 1) (h_acts ?h)) \<longleftrightarrow> uc_index c < int (h_applied ?h) - 1"
    proof -
      have i: "nat (uc_index c) < length (h_acts ?h)" "h_acts ?h ! nat (uc_index c) = (g, uc_action c)" "0 \<le> uc_index c"
        using pl True by (auto simp: placed_def)
      have inc: "increasing fst (h_acts ?h)" using hist by (simp add: hist_ok_def)
      have "nat (uc_index c) < h_applied ?h - 1 \<longleftrightarrow> g \<in> fst ` set (take (h_applied ?h - 1) (h_acts ?h))"
      proof
        assume "nat (uc_index c) < h_applied ?h - 1"
        then have "(g, uc_action c) \<in> set (take (h_applied ?h - 1) (h_acts ?h))"
          using i n by (auto simp: in_set_conv_nth intro!: exI[of _ "nat (uc_index c)"])
        then show "g \<in> fst ` set (take (h_applied ?h - 1) (h_acts ?h))" by force
      next
        assume "g \<in> fst ` set (take (h_applied ?h - 1) (h_acts ?h))"
        then obtain x where x: "x \<in> set (take (h_applied ?h - 1) (h_acts ?h))" "fst x = g" by auto
        then obtain j where "j < length (take (h_applied ?h - 1) (h_acts ?h))" "take (h_applied ?h - 1) (h_acts ?h) ! j = x"
          unfolding in_set_conv_nth by blast
        then have j: "j < h_applied ?h - 1" "j < length (h_acts ?h)" "fst (h_acts ?h ! j) = g"
          using x(2) by auto
        have "j = nat (uc_index c)"
          using increasing_nth_unique[OF inc j(2) i(1)] j(3) i(2) by (metis fst_conv)
        with j(1) show "nat (uc_index c) < h_applied ?h - 1" by simp
      qed
      then show ?thesis using i(3) by linarith
    qed
    show ?thesis
    proof (cases "uc_index c" "int (h_applied ?h) - 1" rule: linorder_cases)
      case less
      note state = above[OF less]
      have count: "uv_later_actions ?v = int (applied_above ?h g)"
        unfolding verdict_later[OF state] current place(3)[OF less] ..
      have "\<not> int (h_applied ?h) - 1 < uc_index c" "uc_index c \<noteq> int (h_applied ?h) - 1" using less by linarith+
      then show ?thesis unfolding Let_def place(1,2) later state count using less True by blast
    next
      case equal
      have "\<not> int (h_applied ?h) - 1 < uc_index c" "\<not> uc_index c < int (h_applied ?h) - 1" using equal by linarith+
      moreover have "uv_state ?v \<noteq> Gone" "uv_state ?v \<noteq> Undone" "uv_state ?v \<noteq> Later_History"
        using top[OF equal] by (metis emptyE insertE undo_state.distinct)+
      ultimately show ?thesis unfolding Let_def place(1,2) later using top[OF equal] equal True by blast
    next
      case greater
      note state = undone[OF greater]
      have "\<not> uc_index c < int (h_applied ?h) - 1" "uc_index c \<noteq> int (h_applied ?h) - 1" using greater by linarith+
      then show ?thesis unfolding Let_def place(1,2) later state using greater True by blast
    qed
  qed
qed

text \<open>A reachable editor: a command of Didi's, then somebody else's action on top of it.\<close>

definition sample_editor :: editor where
  "sample_editor = user_commit 1 ''Move'' (didi_command 1 [''Didi: a'', ''Didi: b''] (new_editor ''r'' 8 (\<lambda>k. 1)))"

definition sample_ours :: "string \<Rightarrow> bool" where
  "sample_ours name = starts_with name ''Didi''"

lemma sample_reach: "editor_reach sample_ours ''r'' 8 sample_editor"
proof -
  have "editor_step sample_ours (new_editor ''r'' 8 (\<lambda>k. 1)) (didi_command 1 [''Didi: a'', ''Didi: b''] (new_editor ''r'' 8 (\<lambda>k. 1)))"
    by (rule editor_step.didi) (simp add: sample_ours_def starts_with_def)
  moreover have "editor_step sample_ours (didi_command 1 [''Didi: a'', ''Didi: b''] (new_editor ''r'' 8 (\<lambda>k. 1))) sample_editor"
    unfolding sample_editor_def by (rule editor_step.user) (simp add: sample_ours_def starts_with_def)
  ultimately show ?thesis unfolding editor_reach_def by (meson rtranclp.rtrancl_into_rtrancl rtranclp.rtrancl_refl)
qed

definition sample_made :: undo_commit where
  "sample_made = \<lparr>uc_run = ''r'', uc_serial = 1, uc_history_id = 1, uc_scene_path = [], uc_index = 0, uc_version = 2,
     uc_action = ''Didi: a''\<rparr>"

lemma sample_facts:
  "map snd (ed_made sample_editor) = [0, 1]" "(sample_made, 0) \<in> set (ed_made sample_editor)"
  "ul_capacity (ed_ledger sample_editor) = 8"
proof -
  have "didi_command 1 [''Didi: a'', ''Didi: b''] (new_editor ''r'' 8 (\<lambda>k. 1))
      = didi_one 1 ''Didi: b'' (didi_one 1 ''Didi: a'' (new_editor ''r'' 8 (\<lambda>k. 1)))"
    by (subst didi_command_fold) (simp_all add: new_editor_def)
  then have "ed_made sample_editor = ed_made (didi_one 1 ''Didi: b'' (didi_one 1 ''Didi: a'' (new_editor ''r'' 8 (\<lambda>k. 1))))"
    "ed_ledger sample_editor = ed_ledger (didi_one 1 ''Didi: b'' (didi_one 1 ''Didi: a'' (new_editor ''r'' 8 (\<lambda>k. 1))))"
    by (simp_all add: sample_editor_def user_commit_def on_hist_def)
  then show "map snd (ed_made sample_editor) = [0, 1]" "(sample_made, 0) \<in> set (ed_made sample_editor)"
    "ul_capacity (ed_ledger sample_editor) = 8"
    by (simp_all add: didi_one_def Let_def new_editor_def new_ledger_def record_commit_def sample_made_def)
qed

theorem verdicts_are_true_witness:
  "let h = ed_hists sample_editor (uc_history_id sample_made);
       v = evaluate_undo (ed_ledger sample_editor) sample_made (view (uc_history_id sample_made) h) True None (Some (name_in h))
   in uv_state v = Gone \<longleftrightarrow> 0 \<notin> stamps h"
proof -
  have "length (ed_made sample_editor) = 2"
    using sample_facts(1) by (metis length_map length_Cons list.size(3) numeral_2_eq_2)
  then show ?thesis
    using verdicts_are_true[OF sample_reach sample_facts(2), of True None] sample_facts(3) unfolding Let_def by simp
qed

text \<open>
  The bound on the commits made is needed. Past the capacity the ledger has dropped the commit
  that replaced another one of the same name, and the replaced commit is then called applied under
  later actions. The comment on the capacity promises that only the comparison with the other
  history loses its evidence.
\<close>

lemma fold_one_made:
  "\<exists>new. ed_made (fold (didi_one k) names e) = ed_made e @ new \<and> length new = length names \<and>
     (\<forall>cg \<in> set new. h_version (ed_hists e k) < uc_version (fst cg))"
proof (induction names arbitrary: e)
  case (Cons name names)
  let ?e = "didi_one k name e"
  obtain new where new: "ed_made (fold (didi_one k) names ?e) = ed_made ?e @ new" "length new = length names"
    "\<forall>cg \<in> set new. h_version (ed_hists ?e k) < uc_version (fst cg)"
    using Cons.IH by blast
  obtain c where c: "ed_made ?e = ed_made e @ [(c, ed_clock e)]" "uc_version c = h_version (ed_hists e k) + 1"
    by (simp add: didi_one_def Let_def)
  have "h_version (ed_hists ?e k) = h_version (ed_hists e k) + 1"
    by (simp add: didi_one_facts commit_act_def)
  then show ?case
    using new c by (intro exI[of _ "(c, ed_clock e) # new"]) force
qed simp

lemma not_replaced_in: "\<forall>d \<in> set ds. uc_version c < uc_version d \<Longrightarrow> \<not> replaced_in c ds"
  by (induction ds) auto

definition twice_made :: "nat \<Rightarrow> editor" where
  "twice_made cap = didi_one 1 ''Didi: a'' (on_hist 1 undo_act (didi_one 1 ''Didi: a'' (new_editor ''r'' cap (\<lambda>k. 1))))"

definition overfull_editor :: "nat \<Rightarrow> editor" where
  "overfull_editor cap = fold (didi_one 1) (replicate cap ''Didi: b'') (twice_made cap)"

lemma twice_made_facts:
  "map snd (ed_made (twice_made cap)) = [0, 1]" "(sample_made, 0) \<in> set (ed_made (twice_made cap))"
  "ed_hists (twice_made cap) 1 = \<lparr>h_acts = [(1, ''Didi: a'')], h_applied = 1, h_version = 2\<rparr>"
  "ed_clock (twice_made cap) = 2"
  by (simp_all add: twice_made_def didi_one_def on_hist_def undo_act_def commit_act_def Let_def new_editor_def
      new_ledger_def record_commit_def sample_made_def)

lemma overfull_reach: "editor_reach sample_ours ''r'' cap (overfull_editor cap)"
proof -
  let ?e0 = "new_editor ''r'' cap (\<lambda>k. 1)"
  let ?e2 = "on_hist 1 undo_act (didi_one 1 ''Didi: a'' ?e0)"
  have ours: "list_all sample_ours [''Didi: a'']" "list_all sample_ours (replicate cap ''Didi: b'')"
    by (simp_all add: sample_ours_def starts_with_def list_all_iff)
  have one: "editor_step sample_ours e (fold (didi_one 1) names e)"
    if "list_all sample_ours names" "h_applied (ed_hists e 1) \<le> length (h_acts (ed_hists e 1))" for names e
    using editor_step.didi[OF that(1), of e 1] didi_command_fold[OF that(2)] by simp
  have "editor_step sample_ours ?e0 (didi_one 1 ''Didi: a'' ?e0)"
    using one[OF ours(1), of ?e0] by (simp add: new_editor_def)
  moreover have "editor_step sample_ours (didi_one 1 ''Didi: a'' ?e0) ?e2"
    by (rule editor_step.undo)
  moreover have "editor_step sample_ours ?e2 (twice_made cap)"
    using one[OF ours(1), of ?e2]
    by (simp add: twice_made_def didi_one_facts on_hist_def undo_act_def commit_act_def new_editor_def)
  moreover have "editor_step sample_ours (twice_made cap) (overfull_editor cap)"
    unfolding overfull_editor_def by (rule one[OF ours(2)]) (simp add: twice_made_facts)
  ultimately show ?thesis
    unfolding editor_reach_def by (meson rtranclp.rtrancl_into_rtrancl rtranclp.rtrancl_refl)
qed

theorem evicted_replacement_is_missed:
  assumes "0 < cap"
  shows "let e = overfull_editor cap; h = ed_hists e 1
     in editor_reach sample_ours ''r'' cap e \<and> length (ed_made e) = cap + 2 \<and> (sample_made, 0) \<in> set (ed_made e) \<and>
        0 \<notin> stamps h \<and>
        uv_state (evaluate_undo (ed_ledger e) sample_made (view 1 h) True None (Some (name_in h))) = Later_History"
proof -
  let ?e = "overfull_editor cap" and ?names = "replicate cap ''Didi: b''"
  let ?h = "ed_hists ?e 1"
  obtain new where new: "ed_made ?e = ed_made (twice_made cap) @ new" "length new = cap"
    "\<forall>cg \<in> set new. 2 < uc_version (fst cg)"
    using fold_one_made[of 1 ?names "twice_made cap"] by (auto simp: overfull_editor_def twice_made_facts)
  have two: "length (ed_made (twice_made cap)) = 2"
    using twice_made_facts(1)[of cap] by (metis length_map length_Cons list.size(3) numeral_2_eq_2)
  have run: "ul_run (ed_ledger ?e) = ''r''"
    using fold_one_facts[of 1 ?names "twice_made cap"]
    by (simp add: overfull_editor_def twice_made_def didi_one_facts on_hist_def new_editor_def new_ledger_def)
  have cap: "ul_capacity (ed_ledger ?e) = cap"
  proof -
    have fold: "ul_capacity (ed_ledger (fold (didi_one 1) names e)) = ul_capacity (ed_ledger e)" for names e
      by (induction names arbitrary: e) (auto simp: didi_one_def Let_def record_commit_def)
    show ?thesis
      unfolding overfull_editor_def fold
      using assms by (simp add: twice_made_def didi_one_def Let_def record_commit_def on_hist_def new_editor_def new_ledger_def)
  qed
  have "ul_commits (ed_ledger ?e) = map fst new"
    using editor_ok_reach[OF overfull_reach, of cap] cap new(1,2) two by (simp add: editor_ok_def ledger_holds_def)
  then have "\<not> replaced_later (ed_ledger ?e) sample_made"
    unfolding replaced_later_def using new(3) by (intro not_replaced_in) (auto simp: sample_made_def)
  moreover have h: "h_acts ?h = (1, ''Didi: a'') # zip [2..<2 + cap] ?names" "h_applied ?h = 1 + cap" "h_version ?h = 2 + int cap"
    using fold_one_facts[of 1 ?names "twice_made cap"] assms commit_acts_facts[of 2 ?names "ed_hists (twice_made cap) 1"]
      commit_acts_acts[of "ed_hists (twice_made cap) 1" ?names 2]
    by (simp_all add: overfull_editor_def twice_made_facts)
  ultimately have "uv_state (evaluate_undo (ed_ledger ?e) sample_made (view 1 ?h) True None (Some (name_in ?h))) = Later_History"
    using run assms by (simp add: evaluate_undo_def sample_made_def view_def named_at_def name_in_def new_verdict_def Let_def)
  moreover have "0 \<notin> stamps ?h"
    using h(1) by (auto simp: stamps_def dest: set_zip_leftD)
  ultimately show ?thesis
    using overfull_reach new two twice_made_facts(2) by (simp add: Let_def)
qed

section \<open>The editor's Undo takes what is called available\<close>

text \<open>One of Didi's actions on top of a history is what \<open>topOf\<close> looks for.\<close>

lemma top_commit:
  assumes ok: "editor_ok ours e" and d: "(d, f) \<in> set (ed_made e)" and top: "top_stamp (ed_hists e (uc_history_id d)) = Some f"
  shows "is_top (view (uc_history_id d) (ed_hists e (uc_history_id d))) d"
proof -
  let ?h = "ed_hists e (uc_history_id d)"
  have pl: "placed ?h (d, f)" and hist: "hist_ok (ed_clock e) ?h" using made_facts[OF ok d] by blast+
  have n: "h_applied ?h \<le> length (h_acts ?h)" using hist by (simp add: hist_ok_def)
  have a: "0 < h_applied ?h" "fst (h_acts ?h ! (h_applied ?h - 1)) = f" using top by (auto simp: top_stamp_def split: if_splits)
  have "h_acts ?h ! (h_applied ?h - 1) \<in> set (h_acts ?h)" using n a(1) by (intro nth_mem) simp
  then have "f \<in> stamps ?h" using a(2) unfolding stamps_def by blast
  note place = standing_place(2)[OF pl this hist]
  have i: "uc_index d = int (h_applied ?h) - 1" using top place by blast
  have "commit_epoch d = hist_epoch ?h" "h_acts ?h ! nat (uc_index d) = (f, uc_action d)" "nat (uc_index d) < length (h_acts ?h)" "0 \<le> uc_index d"
    using pl \<open>f \<in> stamps ?h\<close> by (auto simp: placed_def)
  then show ?thesis
    using i by (simp add: is_top_def view_def name_in_def commit_epoch_def hist_epoch_def)
qed

lemma top_of_Some:
  assumes ok: "editor_ok ours e" and fits: "length (ed_made e) \<le> ul_capacity (ed_ledger e)" "length (ed_made e) < 2 ^ 64 - 1"
    and t: "top_of (ed_ledger e) (view k (ed_hists e k)) = Some t"
  shows "\<exists>f. (t, f) \<in> set (ed_made e) \<and> uc_history_id t = k \<and> top_stamp (ed_hists e k) = Some f"
proof -
  let ?h = "ed_hists e k" and ?xs = "rev (map fst (ed_made e))"
  have found: "find (is_top (view k ?h)) ?xs = Some t" and applied: "0 < h_applied ?h"
    using t unfolding top_of_def ledger_complete[OF ok fits(1)] by (auto simp: view_def split: if_splits)
  from found obtain i where i: "i < length ?xs" "is_top (view k ?h) (?xs ! i)" "t = ?xs ! i" "\<forall>j < i. \<not> is_top (view k ?h) (?xs ! j)"
    unfolding find_Some_iff by blast
  then have "t \<in> set ?xs" by (metis nth_mem)
  then obtain ft where ft: "(t, ft) \<in> set (ed_made e)" by auto
  have top: "uc_history_id t = k" "uc_index t = int (h_applied ?h) - 1" "uc_version t = h_version ?h"
      "uc_action t = name_in ?h (int (h_applied ?h) - 1)"
    using i(2,3) by (simp_all add: is_top_def view_def)
  have pl: "placed ?h (t, ft)" and hist: "hist_ok (ed_clock e) ?h" using made_facts[OF ok ft] top(1) by blast+
  have n: "h_applied ?h \<le> length (h_acts ?h)" using hist by (simp add: hist_ok_def)
  define f where "f = fst (h_acts ?h ! (h_applied ?h - 1))"
  have at: "h_acts ?h ! (h_applied ?h - 1) = (f, uc_action t)" and m: "h_applied ?h - 1 < length (h_acts ?h)"
    using top(4) applied n by (auto simp: f_def name_in_def nat_diff_distrib prod_eq_iff)
  have stamp: "top_stamp ?h = Some f" using applied by (simp add: top_stamp_def f_def)
  have "(f, uc_action t) \<in> set (h_acts ?h)" using at m by (metis nth_mem)
  then obtain d where d: "(d, f) \<in> set (ed_made e)" "uc_history_id d = k"
    using ok made_facts(3)[OF ok ft] unfolding editor_ok_def attributed_def by fastforce
  have d_top: "is_top (view k ?h) d" using top_commit[OF ok d(1)] d(2) stamp by simp
  have "nat (uc_index t) = h_applied ?h - 1" using top(2) applied by (simp add: nat_diff_distrib)
  then have "ft \<le> f" using pl m top(2,3) unfolding placed_def f_def commit_epoch_def hist_epoch_def by simp
  moreover have "\<not> ft < f"
  proof
    assume "ft < f"
    then have newer: "uc_serial t < uc_serial d" using made_order(1)[OF ok ft d(1) fits(2)] by blast
    have "d \<in> set ?xs" using d(1) by force
    then obtain j where j: "j < length ?xs" "?xs ! j = d" by (meson in_set_conv_nth)
    have dec: "sorted_wrt (\<lambda>c d. uc_serial d < uc_serial c) ?xs"
      using ledger_sorted[OF ok fits(2)] by (simp add: sorted_wrt_rev)
    have "j < i"
    proof (rule ccontr)
      assume "\<not> j < i"
      then have "j = i \<or> i < j" by linarith
      then have "uc_serial d \<le> uc_serial t"
        using dec i(1,3) j unfolding sorted_wrt_iff_nth_less by (metis less_imp_le order_refl)
      with newer show False by simp
    qed
    then show False using i(4) j d_top by blast
  qed
  ultimately have "ft = f" by simp
  then show ?thesis using ft top(1) stamp by blast
qed

lemma top_of_None:
  assumes ok: "editor_ok ours e" and fits: "length (ed_made e) \<le> ul_capacity (ed_ledger e)"
    and t: "top_of (ed_ledger e) (view k (ed_hists e k)) = None" and top: "top_stamp (ed_hists e k) = Some f"
  shows "\<not> (\<exists>d. (d, f) \<in> set (ed_made e) \<and> uc_history_id d = k)"
proof
  assume "\<exists>d. (d, f) \<in> set (ed_made e) \<and> uc_history_id d = k"
  then obtain d where d: "(d, f) \<in> set (ed_made e)" "uc_history_id d = k" by blast
  have "0 < h_applied (ed_hists e k)" using top by (auto simp: top_stamp_def split: if_splits)
  then have "find (is_top (view k (ed_hists e k))) (rev (map fst (ed_made e))) = None"
    using t unfolding top_of_def ledger_complete[OF ok fits] by (auto simp: view_def split: if_splits)
  moreover have "d \<in> set (rev (map fst (ed_made e)))" using d(1) by force
  ultimately show False using top_commit[OF ok d(1)] d(2) top unfolding find_None_iff by blast
qed

text \<open>
  A commit is called available exactly when its history is one the editor's Undo weighs, it
  is on top of it, and the other history weighed against it is empty or has on top an older
  action, which is one of Didi's. The editor's Undo, which takes the newer of the two, then takes
  this one and nothing else.
\<close>

theorem available_is_next:
  assumes "editor_reach ours run cap e" "(c, g) \<in> set (ed_made e)"
    "length (ed_made e) \<le> ul_capacity (ed_ledger e)" "length (ed_made e) < 2 ^ 64 - 1"
  shows "let h = ed_hists e (uc_history_id c)
         in uv_state (evaluate_undo (ed_ledger e) c (view (uc_history_id c) h) candidate
              (Some (view k (ed_hists e k))) (Some (name_in h))) = Available \<longleftrightarrow>
            candidate \<and> top_stamp h = Some g \<and>
            (top_stamp (ed_hists e k) = None \<or>
             (\<exists>d f. top_stamp (ed_hists e k) = Some f \<and> (d, f) \<in> set (ed_made e) \<and> uc_history_id d = k \<and> f \<le> g))"
proof -
  note ok = editor_ok_reach[OF assms(1)]
  let ?h = "ed_hists e (uc_history_id c)" and ?other = "view k (ed_hists e k)"
  let ?own = "view (uc_history_id c) ?h"
  let ?v = "evaluate_undo (ed_ledger e) c ?own candidate (Some ?other) (Some (name_in ?h))"
  have pl: "placed ?h (c, g)" and hist: "hist_ok (ed_clock e) ?h" using made_facts[OF ok assms(2)] by blast+
  have n: "h_applied ?h \<le> length (h_acts ?h)" using hist by (simp add: hist_ok_def)
  have here: "missing_index c ?own \<or> named_at (Some (name_in ?h)) (uc_index c) \<noteq> uc_action c \<or> replaced_later (ed_ledger e) c
      \<longleftrightarrow> g \<notin> stamps ?h"
    using stands_iff[OF ok assms(3,4,2)] by (auto simp: named_at_def)
  have current: "uh_current ?own = int (h_applied ?h) - 1" by (simp add: view_def)
  note state = verdict_state[OF made_facts(2)[OF ok assms(2)], of ?own candidate "Some ?other" "Some (name_in ?h)",
      unfolded here current option.case]
  have other: "uh_current ?other < 0 \<longleftrightarrow> top_stamp (ed_hists e k) = None"
    by (simp add: view_def top_stamp_def)
  have topmost: "g \<in> stamps ?h" if t: "top_stamp ?h = Some g"
  proof -
    have "g = fst (h_acts ?h ! (h_applied ?h - 1))" "0 < h_applied ?h" using t by (auto simp: top_stamp_def split: if_splits)
    moreover from this(2) have "h_acts ?h ! (h_applied ?h - 1) \<in> set (h_acts ?h)" using n by (intro nth_mem) simp
    ultimately show ?thesis by (simp add: stamps_def)
  qed
  let ?rest = "top_stamp (ed_hists e k) = None \<or>
      (\<exists>d f. top_stamp (ed_hists e k) = Some f \<and> (d, f) \<in> set (ed_made e) \<and> uc_history_id d = k \<and> f \<le> g)"
  have rest: "(if uh_current ?other < 0 then Available
       else case top_of (ed_ledger e) ?other of None \<Rightarrow> Blocked
            | Some t \<Rightarrow> if uc_serial c < uc_serial t then Blocked else Available) = Available \<longleftrightarrow> ?rest"
  proof (cases "top_stamp (ed_hists e k)")
    case None
    then show ?thesis using other by simp
  next
    case (Some f)
    then have cur: "\<not> uh_current ?other < 0" using other by simp
    show ?thesis
    proof (cases "top_of (ed_ledger e) ?other")
      case None
      have "\<not> ?rest" using top_of_None[OF ok assms(3) None Some] Some by auto
      then show ?thesis using None cur by simp
    next
      case t: (Some t)
      then have made: "(t, f) \<in> set (ed_made e)" "uc_history_id t = k"
        using top_of_Some[OF ok assms(3,4) t] Some by auto
      have "uc_serial c < uc_serial t \<longleftrightarrow> g < f" by (rule made_order(1)[OF ok assms(2) made(1) assms(4)])
      moreover have "?rest \<longleftrightarrow> f \<le> g" using Some made by auto
      ultimately show ?thesis using t cur by auto
    qed
  qed
  show ?thesis
  proof (cases "g \<in> stamps ?h")
    case False
    then have "uv_state ?v = Gone" "top_stamp ?h \<noteq> Some g" using state topmost by auto
    then show ?thesis unfolding Let_def by simp
  next
    case True
    note place = standing_place(2)[OF pl True hist]
    show ?thesis
    proof (cases "uc_index c = int (h_applied ?h) - 1")
      case False
      then have "uv_state ?v \<noteq> Available" using state True by auto
      then show ?thesis unfolding Let_def using False place by blast
    next
      case top: True
      then have "uv_state ?v = (if \<not> candidate then Blocked
         else if uh_current ?other < 0 then Available
         else case top_of (ed_ledger e) ?other of None \<Rightarrow> Blocked
            | Some t \<Rightarrow> if uc_serial c < uc_serial t then Blocked else Available)"
        using state True by simp
      then show ?thesis unfolding Let_def using rest top place by auto
    qed
  qed
qed

theorem available_is_next_witness:
  "let h = ed_hists sample_editor (uc_history_id sample_made)
   in uv_state (evaluate_undo (ed_ledger sample_editor) sample_made (view (uc_history_id sample_made) h) True
        (Some (view 0 (ed_hists sample_editor 0))) (Some (name_in h))) = Available \<longleftrightarrow>
      top_stamp h = Some 0 \<and>
      (top_stamp (ed_hists sample_editor 0) = None \<or>
       (\<exists>d f. top_stamp (ed_hists sample_editor 0) = Some f \<and> (d, f) \<in> set (ed_made sample_editor) \<and>
          uc_history_id d = 0 \<and> f \<le> 0))"
proof -
  have "length (ed_made sample_editor) = 2"
    using sample_facts(1) by (metis length_map length_Cons list.size(3) numeral_2_eq_2)
  then show ?thesis
    using available_is_next[OF sample_reach sample_facts(2), of True 0] sample_facts(3) unfolding Let_def by simp
qed

end
