(* ===== verification/Expression_Policy.thy ===== *)
theory Expression_Policy
  imports Utf8 Didi_Json
begin

text \<open>
  The read-only expression sandbox's rules for the text of an expression,
  \<open>src/runtime/expression_policy.cpp\<close>: the scanner, the rules over its tokens, the property
  reads the bridge performs itself, and the reading of a script variable's declaration.

  Every access of a token is checked: the rules, the calls they make and the pass for the property
  reads are None where the code would index outside the tokens, which C++ leaves undefined.
\<close>

section \<open>Tokens\<close>

definition k_max_source_bytes :: nat where
  "k_max_source_bytes = 2048"

definition is_hex_digit :: "char \<Rightarrow> bool" where
  "is_hex_digit c =
     (is_digit c \<or> (97 \<le> byte c \<and> byte c \<le> 102) \<or> (65 \<le> byte c \<and> byte c \<le> 70))"

definition is_identifier_start :: "char \<Rightarrow> bool" where
  "is_identifier_start c = (is_alpha c \<or> c = CHR ''_'')"

definition is_identifier_continue :: "char \<Rightarrow> bool" where
  "is_identifier_continue c = (is_identifier_start c \<or> is_digit c)"

datatype token_kind = Identifier | Number | String_Literal | Punctuation | Operator

record token =
  tk_kind :: token_kind
  tk_text :: string
  tk_start :: nat
  tk_end :: nat

section \<open>The scanner\<close>

text \<open>What is left after the number that begins the text.\<close>

fun number_rest :: "string \<Rightarrow> string" where
  "number_rest [] = []"
| "number_rest (c # cs) =
     (if is_digit c \<or> c = CHR ''_'' \<or> c = CHR ''.'' then number_rest cs
      else if (c = CHR ''e'' \<or> c = CHR ''E'') \<and> cs \<noteq> [] then
        (case cs of
           [] \<Rightarrow> []
         | d # ds \<Rightarrow> if d = CHR ''+'' \<or> d = CHR ''-'' then number_rest ds else number_rest cs)
      else c # cs)"

definition allowed_escapes :: string where
  "allowed_escapes = ''abefnrtv0'' @ [CHR 0x5C, CHR 0x27, CHR 0x22]"

definition escape_digits :: "char \<Rightarrow> nat" where
  "escape_digits e = (if e = CHR ''x'' then 2 else if e = CHR ''u'' then 4 else 8)"

text \<open>What is left after the closing quote of the string that was begun.\<close>

function string_rest :: "char \<Rightarrow> string \<Rightarrow> (refusal, string) result" where
  "string_rest quote [] = Inl (invalid_argument ''Expression contains an unterminated string'')"
| "string_rest quote (c # cs) =
     (if c = quote then Inr cs
      else if c = CHR 0x0A \<or> c = CHR 0x0D \<or> c = CHR 0x00 then
        Inl (invalid_argument ''Expression string contains a forbidden control character'')
      else if c \<noteq> CHR 0x5C then string_rest quote cs
      else case cs of
             [] \<Rightarrow> Inl (invalid_argument ''Expression string ends with an incomplete escape'')
           | e # es \<Rightarrow>
               if e = CHR ''x'' \<or> e = CHR ''u'' \<or> e = CHR ''U'' then
                 (if length es < escape_digits e then
                    Inl (invalid_argument ''Expression string contains an incomplete hexadecimal escape'')
                  else if \<not> list_all is_hex_digit (take (escape_digits e) es) then
                    Inl (invalid_argument ''Expression string contains an invalid hexadecimal escape'')
                  else string_rest quote (drop (escape_digits e) es))
               else if e \<notin> set allowed_escapes then
                 Inl (invalid_argument ''Expression string contains an unsupported escape'')
               else string_rest quote es)"
  by pat_completeness auto
termination
  by (relation "measure (\<lambda>(quote, cs). length cs)") auto

text \<open>The operators of one and of two bytes, in the order the scanner tries them.\<close>

definition operator_length :: "char \<Rightarrow> string \<Rightarrow> nat" where
  "operator_length c cs =
     (if (c = CHR ''!'' \<or> c = CHR ''<'' \<or> c = CHR ''>'') \<and> cs \<noteq> [] \<and> hd cs = CHR ''='' then 2
      else if (c = CHR ''&'' \<or> c = CHR ''|'' \<or> c = CHR ''<'' \<or> c = CHR ''>'' \<or> c = CHR ''*'') \<and>
              cs \<noteq> [] \<and> hd cs = c then 2
      else if c \<in> set ''+-*/!<>&|^~'' then 1
      else 0)"

definition make_token :: "token_kind \<Rightarrow> string \<Rightarrow> nat \<Rightarrow> token" where
  "make_token kind s pos = \<lparr>tk_kind = kind, tk_text = s, tk_start = pos, tk_end = pos + length s\<rparr>"

text \<open>
  One token, or one blank (no token), of a text that is not empty: the answer, the brace depth
  and what is left.
\<close>

definition scan_one :: "nat \<Rightarrow> int \<Rightarrow> char \<Rightarrow> string \<Rightarrow> (refusal, token option \<times> int \<times> string) result" where
  "scan_one pos depth c cs =
     (if c = CHR '' '' \<or> c = CHR 0x09 then Inr (None, depth, cs)
      else if byte c < 32 \<or> 128 \<le> byte c then
        Inl (invalid_argument ''Expression contains a forbidden control or non-ASCII token outside a string'')
      else if is_identifier_start c then
        (let rest = dropWhile is_identifier_continue cs
         in Inr (Some (make_token Identifier (c # takeWhile is_identifier_continue cs) pos), depth, rest))
      else if is_digit c then
        (let rest = number_rest cs
         in Inr (Some (make_token Number (take (length (c # cs) - length rest) (c # cs)) pos), depth, rest))
      else if c = CHR 0x27 \<or> c = CHR 0x22 then
        rbind (string_rest c cs) (\<lambda>rest.
          Inr (Some (make_token String_Literal (take (length (c # cs) - length rest) (c # cs)) pos), depth, rest))
      else if c = CHR ''{'' then Inr (Some (make_token Punctuation ''{'' pos), depth + 1, cs)
      else if c = CHR ''}'' then
        (if depth \<le> 0 then Inl (invalid_argument ''Expression contains an unmatched closing brace'')
         else Inr (Some (make_token Punctuation ''}'' pos), depth - 1, cs))
      else if c = CHR '':'' then
        (if depth \<le> 0 then Inl (invalid_argument ''Statement separators and type annotations are forbidden'')
         else Inr (Some (make_token Punctuation '':'' pos), depth, cs))
      else if c \<in> set ''()[],.'' then Inr (Some (make_token Punctuation [c] pos), depth, cs)
      else if c = CHR ''='' then
        (if cs = [] \<or> hd cs \<noteq> CHR ''='' then
           Inl (invalid_argument ''Assignments are forbidden in read-only expressions'')
         else Inr (Some (make_token Operator ''=='' pos), depth, tl cs))
      else if operator_length c cs = 0 then
        Inl (invalid_argument ''Expression contains forbidden statement or dispatch punctuation'')
      else Inr (Some (make_token Operator (take (operator_length c cs) (c # cs)) pos), depth,
                drop (operator_length c cs) (c # cs)))"

lemma number_rest_suffix: "\<exists>pre. cs = pre @ number_rest cs"
proof (induction cs rule: number_rest.induct)
  case (2 c cs)
  show ?case
  proof (cases "is_digit c \<or> c = CHR ''_'' \<or> c = CHR ''.''")
    case True
    then show ?thesis using "2.IH"(1) by (auto intro: exI[of _ "c # _"])
  next
    case False
    show ?thesis
    proof (cases "(c = CHR ''e'' \<or> c = CHR ''E'') \<and> cs \<noteq> []")
      case e: True
      then obtain d ds where cs: "cs = d # ds" by (cases cs) auto
      show ?thesis
      proof (cases "d = CHR ''+'' \<or> d = CHR ''-''")
        case True
        then obtain pre where "ds = pre @ number_rest ds" using "2.IH"(2)[OF False e cs] by blast
        then have "c # cs = (c # d # pre) @ number_rest (c # cs)" using False e cs True by auto
        then show ?thesis by blast
      next
        case sign: False
        then obtain pre where "cs = pre @ number_rest cs" using "2.IH"(3)[OF False e cs] by blast
        then have "c # cs = (c # pre) @ number_rest (c # cs)" using False e cs sign by auto
        then show ?thesis by blast
      qed
    qed (use False in \<open>auto intro: exI[of _ "[]"]\<close>)
  qed
qed simp

lemma string_rest_suffix: "string_rest quote cs = Inr rest \<Longrightarrow> \<exists>pre. cs = pre @ rest"
proof (induction quote cs arbitrary: rest rule: string_rest.induct)
  case (2 quote c cs)
  consider (close) "c = quote" | (plain) "c \<noteq> quote" "c \<noteq> CHR 0x5C" | (escape) "c \<noteq> quote" "c = CHR 0x5C" by blast
  then show ?case
  proof cases
    case close
    then show ?thesis using "2.prems" by (intro exI[of _ "[c]"]) auto
  next
    case plain
    then have "string_rest quote cs = Inr rest" using "2.prems" by (auto split: if_splits)
    moreover have "\<not> (c = CHR 0x0A \<or> c = CHR 0x0D \<or> c = CHR 0x00)" using "2.prems" plain by (auto split: if_splits)
    ultimately obtain pre where "cs = pre @ rest" using "2.IH"(1)[OF plain(1) _ plain(2)] by blast
    then show ?thesis by (intro exI[of _ "c # pre"]) simp
  next
    case escape
    then obtain e es where cs: "cs = e # es" using "2.prems" by (cases cs) auto
    have nc: "\<not> (c = CHR 0x0A \<or> c = CHR 0x0D \<or> c = CHR 0x00)" using escape by simp
    show ?thesis
    proof (cases "e = CHR ''x'' \<or> e = CHR ''u'' \<or> e = CHR ''U''")
      case True
      then have r: "\<not> length es < escape_digits e" "list_all is_hex_digit (take (escape_digits e) es)"
          "string_rest quote (drop (escape_digits e) es) = Inr rest"
        using "2.prems" escape cs by (auto split: if_splits)
      then obtain pre where "drop (escape_digits e) es = pre @ rest"
        using "2.IH"(2)[OF escape(1) nc _ cs True] escape(2) by blast
      then have "c # cs = (c # e # take (escape_digits e) es @ pre) @ rest"
        unfolding cs by (metis append.assoc append_Cons append_take_drop_id)
      then show ?thesis by blast
    next
      case False
      then have "e \<in> set allowed_escapes" "string_rest quote es = Inr rest"
        using "2.prems" escape cs by (auto split: if_splits)
      then obtain pre where "es = pre @ rest" using "2.IH"(3)[OF escape(1) nc _ cs False] escape(2) by blast
      then show ?thesis unfolding cs by (intro exI[of _ "c # e # pre"]) simp
    qed
  qed
qed simp

definition is_blank :: "char \<Rightarrow> bool" where
  "is_blank c = (c = CHR '' '' \<or> c = CHR 0x09)"

text \<open>A step consumes something, and its token is exactly what it consumed.\<close>

lemma scan_one_consumes:
  assumes "scan_one pos depth c cs = Inr (t, d, rest)"
  shows "\<exists>pre. c # cs = pre @ rest \<and> pre \<noteq> [] \<and>
    (case t of None \<Rightarrow> pre = [c] \<and> is_blank c
     | Some u \<Rightarrow> tk_text u = pre \<and> tk_start u = pos \<and> tk_end u = pos + length pre \<and>
         (tk_kind u = Identifier \<longrightarrow> is_identifier_start c))"
proof -
  have take_pre: "take (length (pre @ rest) - length rest) (pre @ rest) = pre" for pre
    by simp
  have token: "\<exists>pre. c # cs = pre @ rest \<and> pre \<noteq> [] \<and>
      (case Some (make_token k (take (length (c # cs) - length rest) (c # cs)) pos) of None \<Rightarrow> pre = [c] \<and> is_blank c
       | Some u \<Rightarrow> tk_text u = pre \<and> tk_start u = pos \<and> tk_end u = pos + length pre \<and>
         (tk_kind u = Identifier \<longrightarrow> is_identifier_start c))"
    if "cs = pre @ rest" "k \<noteq> Identifier" for k pre
    using take_pre[of "c # pre"] that by (intro exI[of _ "c # pre"]) (simp add: make_token_def)
  have one: "\<exists>pre. c # cs = pre @ cs \<and> pre \<noteq> [] \<and>
      (case Some (make_token k [c] pos) of None \<Rightarrow> pre = [c] \<and> is_blank c
       | Some u \<Rightarrow> tk_text u = pre \<and> tk_start u = pos \<and> tk_end u = pos + length pre \<and>
         (tk_kind u = Identifier \<longrightarrow> is_identifier_start c))" if "k \<noteq> Identifier" for k
    using that by (intro exI[of _ "[c]"]) (simp add: make_token_def)
  consider (blank) "is_blank c" | (bad) "\<not> is_blank c" "byte c < 32 \<or> 128 \<le> byte c"
    | (word) "\<not> is_blank c" "\<not> (byte c < 32 \<or> 128 \<le> byte c)" "is_identifier_start c"
    | (digit) "\<not> is_blank c" "\<not> (byte c < 32 \<or> 128 \<le> byte c)" "\<not> is_identifier_start c" "is_digit c"
    | (quote) "\<not> is_blank c" "\<not> (byte c < 32 \<or> 128 \<le> byte c)" "\<not> is_identifier_start c" "\<not> is_digit c"
        "c = CHR 0x27 \<or> c = CHR 0x22"
    | (symbol) "\<not> is_blank c" "\<not> (byte c < 32 \<or> 128 \<le> byte c)" "\<not> is_identifier_start c" "\<not> is_digit c"
        "\<not> (c = CHR 0x27 \<or> c = CHR 0x22)"
    by blast
  then show ?thesis
  proof cases
    case blank
    then show ?thesis using assms by (auto simp: scan_one_def is_blank_def intro!: exI[of _ "[c]"])
  next
    case bad
    then show ?thesis using assms by (auto simp: scan_one_def is_blank_def)
  next
    case word
    then have r: "rest = dropWhile is_identifier_continue cs"
        "t = Some (make_token Identifier (c # takeWhile is_identifier_continue cs) pos)"
      using assms by (auto simp: scan_one_def is_blank_def Let_def)
    then show ?thesis
      using word(3) by (intro exI[of _ "c # takeWhile is_identifier_continue cs"]) (simp add: make_token_def)
  next
    case digit
    then have r: "rest = number_rest cs"
        "t = Some (make_token Number (take (length (c # cs) - length rest) (c # cs)) pos)"
      using assms by (auto simp: scan_one_def is_blank_def Let_def)
    obtain pre where "cs = pre @ rest" using number_rest_suffix[of cs] r(1) by auto
    from token[OF this, of Number] show ?thesis unfolding r(2) by simp
  next
    case quote
    then have r: "string_rest c cs = Inr rest"
        "t = Some (make_token String_Literal (take (length (c # cs) - length rest) (c # cs)) pos)"
      using assms by (auto simp: scan_one_def is_blank_def rbind_Inr_iff simp del: string_rest.simps)
    obtain pre where "cs = pre @ rest" using string_rest_suffix[OF r(1)] by auto
    from token[OF this, of String_Literal] show ?thesis unfolding r(2) by simp
  next
    case symbol
    note step = assms[unfolded scan_one_def, folded is_blank_def, unfolded if_not_P[OF symbol(1)] if_not_P[OF symbol(2)]
        if_not_P[OF symbol(3)] if_not_P[OF symbol(4)] if_not_P[OF symbol(5)]]
    show ?thesis
    proof (cases "c = CHR ''{'' \<or> c = CHR ''}'' \<or> c = CHR '':'' \<or> c \<in> set ''()[],.''")
      case True
      then have "(t = Some (make_token Punctuation [c] pos) \<and> rest = cs)"
        using step by (auto split: if_splits)
      then show ?thesis using one[of Punctuation] by simp
    next
      case False
      show ?thesis
      proof (cases "c = CHR ''=''")
        case True
        then have "cs \<noteq> []" "hd cs = CHR ''=''" "t = Some (make_token Operator ''=='' pos)" "rest = tl cs"
          using step by (auto split: if_splits)
        then show ?thesis using True by (cases cs) (auto simp: make_token_def intro!: exI[of _ "''==''"])
      next
        case not_eq: False
        let ?n = "operator_length c cs"
        have r: "?n \<noteq> 0" "t = Some (make_token Operator (take ?n (c # cs)) pos)" "rest = drop ?n (c # cs)"
          using step False not_eq by (auto split: if_splits)
        have "?n \<le> length (c # cs)" by (cases cs) (auto simp: operator_length_def)
        then show ?thesis
          using r by (intro exI[of _ "take ?n (c # cs)"]) (simp add: make_token_def)
      qed
    qed
  qed
qed

function scan_tokens :: "nat \<Rightarrow> int \<Rightarrow> string \<Rightarrow> (refusal, token list \<times> int) result" where
  "scan_tokens pos depth [] = Inr ([], depth)"
| "scan_tokens pos depth (c # cs) =
     (case scan_one pos depth c cs of
        Inl e \<Rightarrow> Inl e
      | Inr (t, d, rest) \<Rightarrow>
          (case scan_tokens (pos + (length (c # cs) - length rest)) d rest of
             Inl e \<Rightarrow> Inl e
           | Inr (ts, final) \<Rightarrow> Inr (case t of None \<Rightarrow> ts | Some u \<Rightarrow> u # ts, final)))"
  by pat_completeness auto
termination
proof (relation "measure (\<lambda>(pos, depth, s). length s)")
  fix pos depth c and cs rest :: string and a t b d
  assume "scan_one pos depth c cs = Inr a" "(t, b) = a" "(d, rest) = b"
  then have "scan_one pos depth c cs = Inr (t, d, rest)" by simp
  then obtain pre where p: "c # cs = pre @ rest" "pre \<noteq> []" using scan_one_consumes by blast
  have "length (c # cs) = length pre + length rest" unfolding p(1) by (rule length_append)
  moreover have "0 < length pre" using p(2) by simp
  ultimately have "length rest < length (c # cs)" by linarith
  then show "((pos + (length (c # cs) - length rest), d, rest), pos, depth, c # cs)
      \<in> measure (\<lambda>(pos, depth, s). length s)" by simp
qed simp

definition scan_expression :: "string \<Rightarrow> (refusal, token list) result" where
  "scan_expression source =
     rbind (scan_tokens 0 0 source) (\<lambda>(tokens, depth).
       if depth \<noteq> 0 then Inl (invalid_argument ''Expression contains an unmatched opening brace'')
       else if tokens = [] then Inl (invalid_argument ''Expression must contain a value'')
       else Inr tokens)"

section \<open>The tables\<close>

definition allowed_global_callables :: "string list" where
  "allowed_global_callables = [''min'', ''max'', ''abs'', ''clamp'', ''snapped'', ''Vector2'', ''Vector3'', ''Color'']"

definition forbidden_identifiers :: "string list" where
  "forbidden_identifiers =
    [''OS'', ''FileAccess'', ''DirAccess'', ''ResourceLoader'', ''ResourceSaver'', ''ProjectSettings'',
     ''Engine'', ''ClassDB'', ''JavaScriptBridge'', ''IP'', ''HTTPClient'', ''HTTPRequest'', ''TCPServer'',
     ''StreamPeerTCP'', ''PacketPeerUDP'', ''TLSOptions'', ''ZIPReader'', ''ZIPPacker'', ''WorkerThreadPool'',
     ''load'', ''preload'', ''execute'', ''open'', ''remove'', ''rename'', ''store'', ''str'',
     ''get_property_list'', ''set'', ''set_deferred'',
     ''set_indexed'', ''set_meta'', ''remove_meta'', ''call'', ''callv'', ''call_deferred'', ''rpc'', ''rpc_id'',
     ''emit_signal'', ''queue_free'', ''free'', ''quit'', ''change_scene'', ''change_scene_to_file'',
     ''change_scene_to_packed'', ''reload_current_scene'', ''add_child'', ''remove_child'', ''reparent'',
     ''set_owner'', ''set_script'', ''get_script'', ''get_source_code'', ''connect'', ''disconnect'',
     ''while'', ''for'', ''in'', ''match'', ''func'', ''class'', ''class_name'', ''extends'', ''signal'', ''var'', ''const'',
     ''enum'', ''return'', ''break'', ''continue'', ''pass'', ''await'', ''yield'', ''assert'', ''static'', ''lambda'']"

definition math_constructors :: "string list" where
  "math_constructors = [''Vector2'', ''Vector3'', ''Color'']"

definition bound_bare_identifiers :: "string list" where
  "bound_bare_identifiers =
    [''node'', ''tree'', ''true'', ''false'', ''null'', ''and'', ''or'', ''not'', ''in'', ''if'', ''else'',
     ''INF'', ''NAN'', ''PI'', ''TAU'']"

definition node_zero_argument_methods :: "string list" where
  "node_zero_argument_methods = [''get_child_count'', ''get_path'', ''get_class'']"

definition node_string_argument_methods :: "string list" where
  "node_string_argument_methods = [''is_class'', ''is_in_group'', ''has_method'', ''has_meta'']"

definition math_zero_argument_methods :: "string list" where
  "math_zero_argument_methods =
    [''length'', ''length_squared'', ''normalized'', ''abs'', ''sign'', ''floor'', ''ceil'', ''round'', ''angle'',
     ''aspect'', ''is_normalized'', ''is_finite'', ''min_axis_index'', ''max_axis_index'']"

definition math_vector_argument_methods :: "string list" where
  "math_vector_argument_methods =
    [''dot'', ''cross'', ''distance_to'', ''distance_squared_to'', ''angle_to'', ''angle_to_point'']"

section \<open>Receivers and arguments\<close>

datatype receiver_kind =
  No_Receiver | Node_Receiver | String_Receiver | Array_Receiver | Dictionary_Receiver | Math_Receiver

text \<open>
  A token is read by its index. An index past the end, or a subtraction that would go below zero,
  is None: C++ leaves the access undefined. The rules below pass it on, in the order in which the
  code evaluates its conditions, so a rule is None exactly where the code would read outside the
  tokens.
\<close>

definition token_at :: "token list \<Rightarrow> nat \<Rightarrow> token option" where
  "token_at toks i = (if i < length toks then Some (toks ! i) else None)"

definition index_before :: "nat \<Rightarrow> nat \<Rightarrow> nat option" where
  "index_before i k = (if k \<le> i then Some (i - k) else None)"

definition token_before :: "token list \<Rightarrow> nat \<Rightarrow> nat \<Rightarrow> token option" where
  "token_before toks i k = Option.bind (index_before i k) (token_at toks)"

definition text_is :: "token option \<Rightarrow> string \<Rightarrow> bool option" where
  "text_is t x = map_option (\<lambda>t. tk_text t = x) t"

definition kind_is :: "token option \<Rightarrow> token_kind \<Rightarrow> bool option" where
  "kind_is t k = map_option (\<lambda>t. tk_kind t = k) t"

text \<open>\<open>&&\<close> and \<open>||\<close>: the right side counts only where it is evaluated.\<close>

fun and_then :: "bool option \<Rightarrow> bool option \<Rightarrow> bool option" where
  "and_then (Some True) b = b"
| "and_then (Some False) b = Some False"
| "and_then None b = None"

fun or_then :: "bool option \<Rightarrow> bool option \<Rightarrow> bool option" where
  "or_then (Some True) b = Some True"
| "or_then (Some False) b = b"
| "or_then None b = None"

definition is_literal_identifier :: "token \<Rightarrow> bool" where
  "is_literal_identifier t = (tk_kind t = Identifier \<and> tk_text t \<in> {''true'', ''false'', ''null''})"

text \<open>The scan backwards for the bracket that opens what closes at the index before the count.\<close>

fun find_opening :: "token list \<Rightarrow> string \<Rightarrow> string \<Rightarrow> nat \<Rightarrow> int \<Rightarrow> nat option option" where
  "find_opening toks opening closing 0 depth = Some None"
| "find_opening toks opening closing (Suc i) depth =
     Option.bind (token_at toks i) (\<lambda>t.
       if tk_text t = closing then find_opening toks opening closing i (depth + 1)
       else if tk_text t = opening then
         (if depth - 1 = 0 then Some (Some i) else find_opening toks opening closing i (depth - 1))
       else find_opening toks opening closing i depth)"

definition source_local_token :: "token \<Rightarrow> bool" where
  "source_local_token t =
     (tk_kind t = String_Literal \<or> tk_kind t = Number \<or> is_literal_identifier t \<or>
      tk_text t \<in> {'','', '':'', ''['', '']'', ''{'', ''}'', ''+'', ''-''})"

fun all_source_local :: "token list \<Rightarrow> nat list \<Rightarrow> bool option" where
  "all_source_local toks [] = Some True"
| "all_source_local toks (i # is) =
     Option.bind (token_at toks i) (\<lambda>t. if source_local_token t then all_source_local toks is else Some False)"

definition is_source_local_container :: "token list \<Rightarrow> nat \<Rightarrow> string \<Rightarrow> string \<Rightarrow> bool option" where
  "is_source_local_container toks receiver_end opening closing =
     Option.bind (find_opening toks opening closing (Suc receiver_end) 0) (\<lambda>found.
       case found of
         None \<Rightarrow> Some False
       | Some i \<Rightarrow>
           and_then (text_is (token_at toks i) opening) (all_source_local toks [i + 1..<receiver_end]))"

definition math_constructor_at :: "token list \<Rightarrow> nat \<Rightarrow> string option" where
  "math_constructor_at toks receiver_end =
     (if length toks \<le> receiver_end then Some []
      else Option.bind (token_at toks receiver_end) (\<lambda>t.
        if tk_text t \<noteq> '')'' then Some []
        else Option.bind (find_opening toks ''('' '')'' (Suc receiver_end) 0) (\<lambda>found.
          case found of
            None \<Rightarrow> Some []
          | Some i \<Rightarrow>
              if i = 0 then Some []
              else Option.bind (token_before toks i 1) (\<lambda>name.
                Some (if tk_kind name = Identifier \<and> tk_text name \<in> set math_constructors then tk_text name else [])))))"

definition is_prebound_property_read :: "token list \<Rightarrow> nat \<Rightarrow> bool option" where
  "is_prebound_property_read toks receiver_end =
     and_then (Some (\<not> receiver_end < 5)) (and_then (text_is (token_at toks receiver_end) '')'')
       (and_then (kind_is (token_before toks receiver_end 1) String_Literal)
         (and_then (text_is (token_before toks receiver_end 2) ''('')
           (and_then (kind_is (token_before toks receiver_end 3) Identifier)
             (and_then (text_is (token_before toks receiver_end 3) ''get'')
               (and_then (text_is (token_before toks receiver_end 4) ''.'')
                 (and_then (kind_is (token_before toks receiver_end 5) Identifier)
                   (text_is (token_before toks receiver_end 5) ''node''))))))))"

definition is_prebound_component :: "string \<Rightarrow> bool" where
  "is_prebound_component component = (component \<in> {''x'', ''y'', ''z'', ''r'', ''g'', ''b'', ''a''})"

definition is_math_component :: "string \<Rightarrow> string \<Rightarrow> bool" where
  "is_math_component constructor component =
     (if constructor = ''Vector2'' then component \<in> {''x'', ''y''}
      else if constructor = ''Vector3'' then component \<in> {''x'', ''y'', ''z''}
      else if constructor = ''Color'' then component \<in> {''r'', ''g'', ''b'', ''a''}
      else False)"

definition receiver_kind_at :: "token list \<Rightarrow> nat \<Rightarrow> receiver_kind option" where
  "receiver_kind_at toks call_index =
     Option.bind (and_then (Some (\<not> call_index < 2)) (text_is (token_before toks call_index 1) ''.'')) (\<lambda>member.
       if \<not> member then Some No_Receiver
       else Option.bind (index_before call_index 2) (\<lambda>receiver_end.
         Option.bind (token_at toks receiver_end) (\<lambda>receiver.
           if tk_kind receiver = Identifier \<and> tk_text receiver = ''node'' then Some Node_Receiver
           else if tk_kind receiver = String_Literal then Some String_Receiver
           else Option.bind (and_then (Some (tk_text receiver = '']''))
             (is_source_local_container toks receiver_end ''['' '']'')) (\<lambda>array.
               if array then Some Array_Receiver
               else Option.bind (and_then (Some (tk_text receiver = ''}''))
                 (is_source_local_container toks receiver_end ''{'' ''}'')) (\<lambda>dictionary.
                   if dictionary then Some Dictionary_Receiver
                   else Option.bind (math_constructor_at toks receiver_end) (\<lambda>constructor.
                     Some (if constructor \<noteq> [] then Math_Receiver else No_Receiver)))))))"

definition has_no_arguments :: "token list \<Rightarrow> nat \<Rightarrow> bool option" where
  "has_no_arguments toks call_index =
     and_then (Some (call_index + 2 < length toks)) (text_is (token_at toks (call_index + 2)) '')'')"

definition has_one_string_literal_argument :: "token list \<Rightarrow> nat \<Rightarrow> bool option" where
  "has_one_string_literal_argument toks call_index =
     and_then (Some (call_index + 3 < length toks))
       (and_then (kind_is (token_at toks (call_index + 2)) String_Literal)
         (text_is (token_at toks (call_index + 3)) '')''))"

definition has_one_scalar_literal_argument :: "token list \<Rightarrow> nat \<Rightarrow> bool option" where
  "has_one_scalar_literal_argument toks call_index =
     and_then (Some (call_index + 3 < length toks))
       (and_then (or_then (kind_is (token_at toks (call_index + 2)) String_Literal)
           (or_then (kind_is (token_at toks (call_index + 2)) Number)
             (map_option is_literal_identifier (token_at toks (call_index + 2)))))
         (text_is (token_at toks (call_index + 3)) '')''))"

text \<open>The index of the parenthesis that closes the one the scan starts at.\<close>

function find_closing :: "token list \<Rightarrow> nat \<Rightarrow> int \<Rightarrow> nat option option" where
  "find_closing toks i depth =
     (if length toks \<le> i then Some None
      else Option.bind (token_at toks i) (\<lambda>t.
        if tk_text t = ''('' then find_closing toks (i + 1) (depth + 1)
        else if tk_text t = '')'' then
          (if depth - 1 = 0 then Some (Some i) else find_closing toks (i + 1) (depth - 1))
        else find_closing toks (i + 1) depth))"
  by auto
termination
  by (relation "measure (\<lambda>(toks, i, depth). length toks - i)") auto

declare find_closing.simps [simp del]

definition has_one_math_constructor_argument :: "token list \<Rightarrow> nat \<Rightarrow> bool option" where
  "has_one_math_constructor_argument toks call_index =
     (let argument_start = call_index + 2
      in and_then (Some (\<not> length toks \<le> argument_start + 1))
           (and_then (kind_is (token_at toks argument_start) Identifier)
             (and_then (text_is (token_at toks (argument_start + 1)) ''('')
               (Option.bind (find_closing toks (argument_start + 1) 0) (\<lambda>closed.
                 case closed of
                   None \<Rightarrow> Some False
                 | Some i \<Rightarrow>
                     and_then (map_option (\<lambda>constructor. constructor \<noteq> []) (math_constructor_at toks i))
                       (and_then (Some (i + 1 < length toks)) (text_is (token_at toks (i + 1)) '')'')))))))"

function has_only_source_local_numbers_from :: "token list \<Rightarrow> nat \<Rightarrow> bool option" where
  "has_only_source_local_numbers_from toks i =
     (if length toks \<le> i then Some False
      else Option.bind (token_at toks i) (\<lambda>t.
        if tk_text t = '')'' then Some True
        else if tk_kind t = Number \<or> tk_text t \<in> {'','', ''+'', ''-''} \<or>
                (tk_kind t = Identifier \<and> tk_text t \<in> {''INF'', ''NAN'', ''PI'', ''TAU''})
        then has_only_source_local_numbers_from toks (i + 1)
        else Some False))"
  by auto
termination
  by (relation "measure (\<lambda>(toks, i). length toks - i)") auto

declare has_only_source_local_numbers_from.simps [simp del]

definition has_only_source_local_numeric_arguments :: "token list \<Rightarrow> nat \<Rightarrow> bool option" where
  "has_only_source_local_numeric_arguments toks call_index = has_only_source_local_numbers_from toks (call_index + 2)"

section \<open>The rules\<close>

text \<open>
  A rule over the token at an index: None for an access outside the tokens, else the refusal, if
  there is one.
\<close>

definition dot_rule :: "token list \<Rightarrow> nat \<Rightarrow> refusal option option" where
  "dot_rule toks i =
     Option.bind (text_is (token_at toks i) ''.'') (\<lambda>dot.
       if \<not> dot then Some None
       else
         Option.bind (and_then (Some (i + 2 < length toks))
             (and_then (kind_is (token_at toks (i + 1)) Identifier) (text_is (token_at toks (i + 2)) ''(''))) (\<lambda>method_call.
         Option.bind (and_then (Some (\<not> method_call \<and> 0 < i \<and> i + 1 < length toks))
             (and_then (kind_is (token_at toks (i + 1)) Identifier)
               (Option.bind (Option.bind (index_before i 1) (math_constructor_at toks)) (\<lambda>constructor.
                  map_option (\<lambda>t. is_math_component constructor (tk_text t)) (token_at toks (i + 1)))))) (\<lambda>component_read.
         Option.bind (and_then (Some (\<not> method_call \<and> 0 < i \<and> i + 1 < length toks))
             (and_then (kind_is (token_at toks (i + 1)) Identifier)
               (and_then (map_option (\<lambda>t. is_prebound_component (tk_text t)) (token_at toks (i + 1)))
                 (Option.bind (index_before i 1) (is_prebound_property_read toks))))) (\<lambda>prebound_component_read.
           Some (if \<not> method_call \<and> \<not> component_read \<and> \<not> prebound_component_read then
             Some (invalid_argument (''Object member/property reads are forbidden in read-only expressions, '' @
               ''because reading through an object can run a script getter. Read a '' @
               ''native property of the context node with node.get('' @ [CHR 0x22] @ ''position'' @ [CHR 0x22] @ ''), or '' @
               ''use scene_get_property.''))
           else None)))))"

definition index_rule :: "token list \<Rightarrow> nat \<Rightarrow> refusal option option" where
  "index_rule toks i =
     Option.bind (and_then (text_is (token_at toks i) ''['') (Some (0 < i))) (\<lambda>opens.
       if \<not> opens then Some None
       else Option.bind (token_before toks i 1) (\<lambda>previous.
         Some (if tk_kind previous = Operator \<or>
                  tk_text previous \<in> {''('', ''['', ''{'', '','', '':'', ''and'', ''or'', ''not'', ''in'', ''if'', ''else''}
               then None
               else Some (invalid_argument ''Dynamic indexed reads are forbidden in read-only expressions''))))"

definition word_rule :: "token list \<Rightarrow> nat \<Rightarrow> refusal option option" where
  "word_rule toks i =
     Option.bind (token_at toks i) (\<lambda>t.
       if tk_kind t \<noteq> Identifier then Some None
       else if tk_text t = ''self'' then
         Some (Some (invalid_argument (''self is not bound in a read-only expression: there is no script instance '' @
           ''for it to be. The context node is bound as node, so read a native property '' @
           ''with node.get('' @ [CHR 0x22] @ ''position'' @ [CHR 0x22] @ '') or call one of the allowed node methods.'')))
       else if tk_text t \<in> set forbidden_identifiers then
         Some (Some (invalid_argument ''Expression contains a forbidden identifier''))
       else if starts_with (tk_text t) ''__didi_'' then
         Some (Some (invalid_argument ''Expression contains a reserved sandbox identifier''))
       else
         Option.bind (and_then (map_option Not (and_then (Some (0 < i)) (text_is (token_before toks i 1) ''.'')))
             (map_option Not (and_then (Some (i + 1 < length toks))
               (or_then (text_is (token_at toks (i + 1)) ''.'') (text_is (token_at toks (i + 1)) ''(''))))) (\<lambda>bare.
           Some (if bare \<and> tk_text t \<notin> set bound_bare_identifiers then
             Some (invalid_argument ([CHR 0x27] @ tk_text t @ [CHR 0x27] @ '' is not bound in a read-only expression. The context '' @
               ''node is bound as node, and that is the only name: read a native property '' @
               ''with node.get('' @ [CHR 0x22] @ ''position'' @ [CHR 0x22] @ ''), call one of the allowed node methods, or use '' @
               ''scene_get_property. Engine singletons and project globals are not reachable here.''))
           else None)))"

text \<open>The count of a \<open>repeat\<close>, kept below 64 bits by the test before each digit.\<close>

fun repeat_count :: "nat \<Rightarrow> string \<Rightarrow> nat option" where
  "repeat_count n [] = Some n"
| "repeat_count n (c # cs) =
     (if \<not> is_digit c \<or> n > (2 ^ 64 - 1 - 9) div 10 then None
      else repeat_count (n * 10 + (byte c - 48)) cs)"

definition repeat_rule :: "token list \<Rightarrow> nat \<Rightarrow> refusal option option" where
  "repeat_rule toks i =
     Option.bind (and_then (Some (i + 3 < length toks)) (and_then (kind_is (token_at toks (i + 2)) Number)
         (text_is (token_at toks (i + 3)) '')''))) (\<lambda>single_number_argument.
       if \<not> single_number_argument then
         Some (Some (invalid_argument ''repeat is restricted to a bounded string literal and integer literal''))
       else Option.bind (token_at toks (i + 2)) (\<lambda>count.
         case repeat_count 0 (tk_text count) of
           None \<Rightarrow> Some (Some (invalid_argument ''repeat count must be a bounded integer literal''))
         | Some n \<Rightarrow>
             Option.bind (token_before toks i 2) (\<lambda>literal.
               let literal_bytes = length (tk_text literal) - 2
               in Some (if n > 512 * 1024 \<or> (literal_bytes \<noteq> 0 \<and> n > (512 * 1024) div literal_bytes)
                        then Some (invalid_argument ''repeat output is limited to 512 KiB'')
                        else None))))"

text \<open>A call whose conditions hold is accepted, any other is refused.\<close>

definition refuse_unless :: "bool option \<Rightarrow> string \<Rightarrow> refusal option option" where
  "refuse_unless condition message =
     map_option (\<lambda>holds. if holds then None else Some (invalid_argument message)) condition"

definition call_rule :: "token list \<Rightarrow> nat \<Rightarrow> refusal option option" where
  "call_rule toks i =
     Option.bind (map_option tk_text (token_at toks i)) (\<lambda>name.
     Option.bind (receiver_kind_at toks i) (\<lambda>receiver.
       let no_arguments = and_then (Some (name \<in> {''size'', ''is_empty''})) (has_no_arguments toks i);
           forbidden = ''Method calls require an exact direct Node receiver or a source-local literal receiver''
       in case receiver of
            No_Receiver \<Rightarrow>
              Option.bind (and_then (Some (0 < i)) (text_is (token_before toks i 1) ''.'')) (\<lambda>has_method_receiver.
                refuse_unless
                  (and_then (Some (\<not> has_method_receiver \<and> name \<in> set allowed_global_callables))
                    (has_only_source_local_numeric_arguments toks i))
                  ''Global calls require source-local numeric arguments and no receiver'')
          | Node_Receiver \<Rightarrow>
              if name = ''get'' then
                refuse_unless (has_one_string_literal_argument toks i)
                  ''get is restricted to direct node.get(<string literal>) property reads''
              else
                refuse_unless
                  (or_then (and_then (Some (name \<in> set node_zero_argument_methods)) (has_no_arguments toks i))
                    (and_then (Some (name \<in> set node_string_argument_methods)) (has_one_string_literal_argument toks i)))
                  ''Only exact direct constant-space native scalar Node calls are permitted''
          | String_Receiver \<Rightarrow>
              if name = ''repeat'' then repeat_rule toks i
              else
                refuse_unless
                  (or_then no_arguments
                    (and_then (Some (name \<in> {''find'', ''count''})) (has_one_string_literal_argument toks i))) forbidden
          | Array_Receiver \<Rightarrow>
              refuse_unless
                (or_then no_arguments
                  (and_then (Some (name \<in> {''find'', ''count'', ''has''})) (has_one_scalar_literal_argument toks i))) forbidden
          | Dictionary_Receiver \<Rightarrow>
              refuse_unless
                (or_then no_arguments
                  (and_then (Some (name = ''has'')) (has_one_string_literal_argument toks i))) forbidden
          | Math_Receiver \<Rightarrow>
              refuse_unless
                (or_then (and_then (Some (name \<in> set math_zero_argument_methods)) (has_no_arguments toks i))
                  (and_then (Some (name \<in> set math_vector_argument_methods)) (has_one_math_constructor_argument toks i)))
                ''Only pure geometry calls on source-local Vector or Color literals are permitted''))"

definition dispatch_rule :: "token list \<Rightarrow> nat \<Rightarrow> refusal option option" where
  "dispatch_rule toks i =
     Option.bind (and_then (text_is (token_at toks i) ''('') (Some (0 < i))) (\<lambda>opens.
       if \<not> opens then Some None
       else Option.bind (token_before toks i 1) (\<lambda>previous.
         Some (if tk_kind previous \<noteq> Identifier \<and>
                  (tk_text previous \<in> {'']'', '')''} \<or> tk_kind previous = String_Literal \<or> tk_kind previous = Number)
               then Some (invalid_argument ''Dynamic callable dispatch is forbidden'')
               else None)))"

definition is_call_name :: "token list \<Rightarrow> nat \<Rightarrow> bool option" where
  "is_call_name toks i =
     and_then (kind_is (token_at toks i) Identifier)
       (and_then (Some (i + 1 < length toks)) (text_is (token_at toks (i + 1)) ''(''))"

text \<open>One rule after the other, until one refuses.\<close>

fun or_else :: "'a option option \<Rightarrow> 'a option option \<Rightarrow> 'a option option" where
  "or_else None b = None"
| "or_else (Some (Some a)) b = Some (Some a)"
| "or_else (Some None) b = b"

definition check_token :: "token list \<Rightarrow> nat \<Rightarrow> refusal option option" where
  "check_token toks i =
     or_else (dot_rule toks i) (or_else (index_rule toks i) (or_else (word_rule toks i)
       (Option.bind (is_call_name toks i) (\<lambda>call. if call then call_rule toks i else dispatch_rule toks i))))"

fun first_problem :: "('a \<Rightarrow> 'b option option) \<Rightarrow> 'a list \<Rightarrow> 'b option option" where
  "first_problem f [] = Some None"
| "first_problem f (x # xs) = or_else (f x) (first_problem f xs)"

definition validate_tokens :: "token list \<Rightarrow> refusal option option" where
  "validate_tokens toks = first_problem (check_token toks) [0..<length toks]"

section \<open>Property reads\<close>

record direct_read =
  dr_start :: nat
  dr_end :: nat
  dr_property :: string

text \<open>
  The loop of \<open>readsInTokens\<close> indexes around a \<open>get(\<close> without testing the bounds: \<open>None\<close> is
  an access outside the tokens, which C++ leaves undefined.
\<close>

definition read_property :: "token list \<Rightarrow> nat \<Rightarrow> (refusal, direct_read) result option" where
  "read_property toks i =
     (if \<not> i + 2 < length toks then None
      else
        let literal = tk_text (toks ! (i + 2))
        in if length literal < 2 \<or> hd literal \<noteq> last literal then
             Some (Inl (invalid_argument ''node.get property name must be a quoted string literal''))
           else
             let property = take (length literal - 2) (drop 1 literal)
             in if property = [] then Some (Inl (invalid_argument ''node.get property name may not be empty''))
                else if \<not> list_all is_identifier_continue property then
                  Some (Inl (invalid_argument ''node.get property name must be an unescaped ASCII property identifier''))
                else if i < 2 \<or> \<not> i + 3 < length toks then None
                else Some (Inr \<lparr>dr_start = tk_start (toks ! (i - 2)), dr_end = tk_end (toks ! (i + 3)),
                                dr_property = property\<rparr>))"

definition is_get_call :: "token list \<Rightarrow> nat \<Rightarrow> bool option" where
  "is_get_call toks i =
     and_then (kind_is (token_at toks i) Identifier)
       (and_then (text_is (token_at toks i) ''get'')
         (and_then (Some (i + 1 < length toks)) (text_is (token_at toks (i + 1)) ''('')))"

fun reads_from :: "token list \<Rightarrow> nat list \<Rightarrow> (refusal, direct_read list) result option" where
  "reads_from toks [] = Some (Inr [])"
| "reads_from toks (i # is) =
     Option.bind (is_get_call toks i) (\<lambda>get.
       if \<not> get then reads_from toks is
       else case read_property toks i of
              None \<Rightarrow> None
            | Some (Inl e) \<Rightarrow> Some (Inl e)
            | Some (Inr r) \<Rightarrow> map_option (\<lambda>m. rbind m (\<lambda>rs. Inr (r # rs))) (reads_from toks is))"

definition reads_in_tokens :: "token list \<Rightarrow> (refusal, direct_read list) result option" where
  "reads_in_tokens toks = reads_from toks [0..<length toks]"

definition direct_property_reads :: "string \<Rightarrow> (refusal, direct_read list) result option" where
  "direct_property_reads source =
     (case scan_expression source of Inl e \<Rightarrow> Some (Inl e) | Inr toks \<Rightarrow> reads_in_tokens toks)"

text \<open>\<open>ExpressionPolicy::validate\<close>: the refusal, if there is one.\<close>

definition validate_expression :: "string \<Rightarrow> refusal option option" where
  "validate_expression source =
     (if source = [] \<or> length source > k_max_source_bytes \<or> CHR 0x00 \<in> set source \<or> \<not> is_valid_utf8 source then
        Some (Some (invalid_argument ''expression must be 1..2048 bytes of valid UTF-8 without NUL''))
      else case scan_expression source of
             Inl e \<Rightarrow> Some (Some e)
           | Inr toks \<Rightarrow>
               (case validate_tokens toks of
                  None \<Rightarrow> None
                | Some (Some e) \<Rightarrow> Some (Some e)
                | Some None \<Rightarrow>
                    (case reads_in_tokens toks of
                       None \<Rightarrow> None
                     | Some (Inl e) \<Rightarrow> Some (Some e)
                     | Some (Inr reads) \<Rightarrow> Some None)))"

section \<open>Script variables\<close>

definition is_word_character :: "char \<Rightarrow> bool" where
  "is_word_character c = (is_alnum c \<or> c = CHR ''_'')"

text \<open>What is left of a line from the quote that closes the string, or nothing.\<close>

fun string_body :: "char \<Rightarrow> string \<Rightarrow> string" where
  "string_body quote [] = []"
| "string_body quote (c # cs) =
     (if c = quote then c # cs
      else case cs of
             [] \<Rightarrow> []
           | d # ds \<Rightarrow> if c = CHR 0x5C then string_body quote ds else string_body quote cs)"

lemma length_string_body: "length (string_body quote s) \<le> length s"
proof (induction "length s" arbitrary: s rule: less_induct)
  case less
  consider "s = []" | c where "s = [c]" | c d ds where "s = c # d # ds" by (metis neq_Nil_conv)
  then show ?case
  proof cases
    case 3
    have "length (string_body quote ds) \<le> length ds" "length (string_body quote (d # ds)) \<le> length (d # ds)"
      by (rule less; simp add: 3)+
    then show ?thesis unfolding 3 by (simp del: string_body.simps add: string_body.simps(2)[of quote c "d # ds"])
  qed simp_all
qed

text \<open>One line with its strings blanked and its comment cut, and the long string it leaves open.\<close>

function code_of_line :: "char option \<Rightarrow> string \<Rightarrow> string \<times> char option" where
  "code_of_line in_long [] = ([], in_long)"
| "code_of_line (Some q) (c # cs) =
     (if starts_with (c # cs) [q, q, q] then
        (case code_of_line None (drop 3 (c # cs)) of (code, end) \<Rightarrow> (''   '' @ code, end))
      else (case code_of_line (Some q) cs of (code, end) \<Rightarrow> (CHR '' '' # code, end)))"
| "code_of_line None (c # cs) =
     (if c = CHR ''#'' then ([], None)
      else if c = CHR 0x22 \<or> c = CHR 0x27 then
        (if starts_with (c # cs) [c, c, c] then
           (case code_of_line (Some c) (drop 3 (c # cs)) of (code, end) \<Rightarrow> (''   '' @ code, end))
         else
           let rest = string_body c cs; blanks = replicate (length (c # cs) - length rest) CHR '' ''
           in case code_of_line None (drop 1 rest) of
                (code, end) \<Rightarrow> (blanks @ (if rest = [] then [] else '' '') @ code, end))
      else (case code_of_line None cs of (code, end) \<Rightarrow> (c # code, end)))"
  by pat_completeness auto
termination
proof (relation "measure (\<lambda>(in_long, s). length s)")
  fix c and cs x xa :: string
  assume "x = string_body c cs"
  then have "length x \<le> length cs" using length_string_body by simp
  then show "((None, drop 1 x), None, c # cs) \<in> measure (\<lambda>(in_long, s). length s)" by simp
qed (auto simp: starts_with_def)

definition is_space_or_tab :: "char \<Rightarrow> bool" where
  "is_space_or_tab c = (c = CHR '' '' \<or> c = CHR 0x09)"

definition trimmed_view :: "string \<Rightarrow> string" where
  "trimmed_view s = rev (dropWhile is_space_or_tab (rev (dropWhile is_space_or_tab s)))"

fun names_a_getter_from :: "char option \<Rightarrow> string \<Rightarrow> bool" where
  "names_a_getter_from prev [] = False"
| "names_a_getter_from prev (c # cs) =
     ((starts_with (c # cs) ''get'' \<and>
       \<not> (case prev of None \<Rightarrow> False | Some p \<Rightarrow> is_word_character p \<or> p = CHR ''.'') \<and>
       (let after = drop 3 (c # cs); past = dropWhile is_space_or_tab after
        in \<not> (after \<noteq> [] \<and> is_word_character (hd after)) \<and>
           past \<noteq> [] \<and> (hd past = CHR ''='' \<or> hd past = CHR '':''))) \<or>
      names_a_getter_from (Some c) cs)"

definition names_a_getter :: "string \<Rightarrow> bool" where
  "names_a_getter code = names_a_getter_from None code"

text \<open>The arguments of an annotation: what is left, and the depth where it ended.\<close>

fun skip_parens :: "int \<Rightarrow> string \<Rightarrow> string \<times> int" where
  "skip_parens depth [] = ([], depth)"
| "skip_parens depth (c # cs) =
     (let opened = (if c = CHR ''('' then depth + 1 else depth)
      in if c = CHR '')'' then (if opened - 1 = 0 then (cs, 0) else skip_parens (opened - 1) cs)
         else skip_parens opened cs)"

lemma length_skip_parens: "length (fst (skip_parens depth s)) \<le> length s"
  by (induction depth s rule: skip_parens.induct) (auto simp: Let_def le_SucI)

function skip_annotations :: "bool \<Rightarrow> string \<Rightarrow> bool \<times> string" where
  "skip_annotations readable s =
     (if s = [] \<or> hd s \<noteq> CHR ''@'' then (readable, s)
      else
        let word = dropWhile is_word_character (tl s);
            (past, depth) = (if word \<noteq> [] \<and> hd word = CHR ''('' then skip_parens 0 word else (word, 0))
        in skip_annotations (readable \<and> depth = 0) (dropWhile is_space_or_tab past))"
  by auto
termination
proof (relation "measure (\<lambda>(readable, s). length s)")
  fix s word past :: string and pair depth
  assume a: "\<not> (s = [] \<or> hd s \<noteq> CHR ''@'')" "word = dropWhile is_word_character (tl s)"
    "pair = (if word \<noteq> [] \<and> hd word = CHR ''('' then skip_parens 0 word else (word, 0))" "(past, depth) = pair"
  have "length past \<le> length word"
    using a(3,4) length_skip_parens[of 0 word] by (auto split: if_splits dest: arg_cong[of _ _ fst])
  moreover have "length word \<le> length (tl s)" unfolding a(2) by (rule length_dropWhile_le)
  moreover have "length (dropWhile is_space_or_tab past) \<le> length past" by (rule length_dropWhile_le)
  moreover have "0 < length s" using a(1) by blast
  ultimately have "length (dropWhile is_space_or_tab past) < length s" unfolding length_tl by linarith
  then show "((readable \<and> depth = 0, dropWhile is_space_or_tab past), readable, s) \<in> measure (\<lambda>(readable, s). length s)"
    for readable by simp
qed simp

declare skip_annotations.simps [simp del]

definition take_word :: "string \<Rightarrow> string \<times> string" where
  "take_word s = (takeWhile is_word_character s, dropWhile is_word_character s)"

text \<open>What follows the name, when the line declares it at class level.\<close>

definition declaration_rest :: "string \<Rightarrow> string \<Rightarrow> string option" where
  "declaration_rest name s =
     (if s = [] \<or> is_space_or_tab (hd s) then None
      else
        let (readable, plain) = skip_annotations True s; (word, rest) = take_word plain;
            (keyword, after) = (if word = ''static'' then take_word (dropWhile is_space_or_tab rest) else (word, rest));
            (declared, tail) = take_word (dropWhile is_space_or_tab after)
        in if \<not> readable then None
           else if keyword \<noteq> ''var'' then None
           else if declared \<noteq> name then None
           else Some tail)"

fun bracket_balance :: "string \<Rightarrow> int" where
  "bracket_balance [] = 0"
| "bracket_balance (c # cs) =
     (if c \<in> {CHR ''('', CHR ''['', CHR ''{''} then 1
      else if c \<in> {CHR '')'', CHR '']'', CHR ''}''} then -1 else 0) + bracket_balance cs"

fun getter_below :: "string list \<Rightarrow> bool" where
  "getter_below [] = False"
| "getter_below (below # others) =
     (let body = trimmed_view below
      in if body = [] then getter_below others
         else if \<not> is_space_or_tab (hd below) then False
         else if starts_with body ''get'' \<and> (length body = 3 \<or> \<not> is_word_character (body ! 3)) then True
         else getter_below others)"

datatype script_variable_read = Not_Declared | Plain | Has_Getter | Unclear

record script_verdict =
  sv_read :: script_variable_read
  sv_line :: nat

definition judge_declaration :: "string \<Rightarrow> string list \<Rightarrow> script_variable_read" where
  "judge_declaration tail below =
     (let rest = trimmed_view tail
      in if (rest \<noteq> [] \<and> last rest = CHR 0x5C) \<or> bracket_balance rest \<noteq> 0 then Unclear
         else if names_a_getter rest \<or> (rest \<noteq> [] \<and> last rest = CHR '':'' \<and> getter_below below) then Has_Getter
         else Plain)"

fun judge_lines :: "string \<Rightarrow> nat \<Rightarrow> string list \<Rightarrow> nat \<times> script_verdict \<Rightarrow> nat \<times> script_verdict" where
  "judge_lines name number [] acc = acc"
| "judge_lines name number (s # others) acc =
     judge_lines name (number + 1) others
       (case declaration_rest name s of
          None \<Rightarrow> acc
        | Some tail \<Rightarrow> (fst acc + 1, \<lparr>sv_read = judge_declaration tail others, sv_line = number\<rparr>))"

fun code_lines :: "char option \<Rightarrow> string list \<Rightarrow> string list" where
  "code_lines in_long [] = []"
| "code_lines in_long (l # ls) =
     (let s = (if l \<noteq> [] \<and> last l = CHR 0x0D then butlast l else l);
          (code, later) = code_of_line in_long s
      in code # code_lines later ls)"

definition script_variable_read_of :: "string \<Rightarrow> string \<Rightarrow> script_verdict" where
  "script_variable_read_of source name =
     (let (declarations, verdict) =
            judge_lines name 1 (code_lines None (split_at CHR 0x0A source))
              (0, \<lparr>sv_read = Not_Declared, sv_line = 0\<rparr>)
      in if declarations > 1 then verdict\<lparr>sv_read := Unclear\<rparr> else verdict)"

section \<open>What the scanner gives\<close>

text \<open>A text taken apart into blanks and tokens, from a position on.\<close>

inductive covers :: "nat \<Rightarrow> string \<Rightarrow> token list \<Rightarrow> bool" where
  nothing: "covers pos [] []"
| blank: "is_blank c \<Longrightarrow> covers (pos + 1) s ts \<Longrightarrow> covers pos (c # s) ts"
| token: "pre \<noteq> [] \<Longrightarrow> tk_text t = pre \<Longrightarrow> tk_start t = pos \<Longrightarrow> tk_end t = pos + length pre \<Longrightarrow>
     (tk_kind t = Identifier \<longrightarrow> is_identifier_start (hd pre)) \<Longrightarrow>
     covers (pos + length pre) s ts \<Longrightarrow> covers pos (pre @ s) (t # ts)"

lemma scan_tokens_covers: "scan_tokens pos depth s = Inr (ts, d) \<Longrightarrow> covers pos s ts"
proof (induction pos depth s arbitrary: ts d rule: scan_tokens.induct)
  case (1 pos depth)
  then show ?case by (simp add: covers.nothing)
next
  case (2 pos depth c cs)
  obtain t e rest where one: "scan_one pos depth c cs = Inr (t, e, rest)"
    using "2.prems" by (auto split: sum.splits)
  obtain us where us: "scan_tokens (pos + (length (c # cs) - length rest)) e rest = Inr (us, d)"
      "ts = (case t of None \<Rightarrow> us | Some u \<Rightarrow> u # us)"
    using "2.prems" one by (auto split: sum.splits)
  obtain pre where pre: "c # cs = pre @ rest" "pre \<noteq> []"
      "case t of None \<Rightarrow> pre = [c] \<and> is_blank c
       | Some u \<Rightarrow> tk_text u = pre \<and> tk_start u = pos \<and> tk_end u = pos + length pre \<and>
           (tk_kind u = Identifier \<longrightarrow> is_identifier_start c)"
    using scan_one_consumes[OF one] by blast
  have "length (c # cs) - length rest = length pre" unfolding pre(1) by simp
  then have later: "covers (pos + length pre) rest us"
    using "2.IH"[OF one refl refl us(1)] by simp
  show ?case
  proof (cases t)
    case None
    then have "pre = [c]" "is_blank c" "ts = us" using pre(3) us(2) by auto
    then show ?thesis using later unfolding pre(1) by (simp add: covers.blank)
  next
    case (Some u)
    have "hd pre = c" using pre(1,2) by (cases pre) auto
    then have "tk_kind u = Identifier \<longrightarrow> is_identifier_start (hd pre)"
      using pre(3) Some by simp
    then show ?thesis using pre(2,3) later Some us(2) unfolding pre(1) by (auto intro: covers.token)
  qed
qed

lemma covers_facts:
  assumes "covers pos s ts" "pos \<le> length source" "drop pos source = s"
  shows "(\<forall>t \<in> set ts. pos \<le> tk_start t \<and> tk_start t < tk_end t \<and> tk_end t \<le> length source \<and>
            tk_text t = take (tk_end t - tk_start t) (drop (tk_start t) source)) \<and>
         sorted_wrt (\<lambda>a b. tk_end a \<le> tk_start b) ts \<and>
         (\<forall>i. pos \<le> i \<longrightarrow> i < length source \<longrightarrow> is_blank (source ! i) \<or> (\<exists>t \<in> set ts. tk_start t \<le> i \<and> i < tk_end t))"
  using assms
proof (induction rule: covers.induct)
  case (nothing pos)
  then show ?case by simp
next
  case (blank c pos s ts)
  have less: "pos < length source" using blank.prems by (metis drop_all linorder_not_less list.discI)
  have c: "source ! pos = c" "drop (pos + 1) source = s"
    using blank.prems(2) less by (simp_all flip: Cons_nth_drop_Suc)
  have IH: "(\<forall>t \<in> set ts. pos + 1 \<le> tk_start t \<and> tk_start t < tk_end t \<and> tk_end t \<le> length source \<and>
            tk_text t = take (tk_end t - tk_start t) (drop (tk_start t) source)) \<and>
         sorted_wrt (\<lambda>a b. tk_end a \<le> tk_start b) ts \<and>
         (\<forall>i. pos + 1 \<le> i \<longrightarrow> i < length source \<longrightarrow> is_blank (source ! i) \<or> (\<exists>t \<in> set ts. tk_start t \<le> i \<and> i < tk_end t))"
    using blank.IH c(2) less by simp
  then show ?case using blank.hyps(1) c(1) by (metis Suc_eq_plus1 Suc_leD le_antisym not_less_eq_eq)
next
  case (token pre t pos s ts)
  have len: "pos + length pre \<le> length source"
    using token.prems by (metis add_leD1 diff_diff_left length_append length_drop le_diff_conv2 le_add1 add.commute)
  have rest: "drop (pos + length pre) source = s"
    using token.prems by (metis add.commute append_eq_conv_conj drop_drop)
  have slice: "take (length pre) (drop pos source) = pre" using token.prems by simp
  have IH: "(\<forall>t \<in> set ts. pos + length pre \<le> tk_start t \<and> tk_start t < tk_end t \<and> tk_end t \<le> length source \<and>
            tk_text t = take (tk_end t - tk_start t) (drop (tk_start t) source)) \<and>
         sorted_wrt (\<lambda>a b. tk_end a \<le> tk_start b) ts \<and>
         (\<forall>i. pos + length pre \<le> i \<longrightarrow> i < length source \<longrightarrow> is_blank (source ! i) \<or> (\<exists>t \<in> set ts. tk_start t \<le> i \<and> i < tk_end t))"
    using token.IH[OF len rest] .
  have "0 < length pre" using token.hyps(1) by simp
  then have t: "tk_start t < tk_end t" "tk_end t \<le> length source" "tk_text t = take (tk_end t - tk_start t) (drop (tk_start t) source)"
    using token.hyps len slice by simp_all
  have "is_blank (source ! i) \<or> (\<exists>u \<in> set (t # ts). tk_start u \<le> i \<and> i < tk_end u)" if "pos \<le> i" "i < length source" for i
  proof (cases "i < pos + length pre")
    case True
    then show ?thesis using that token.hyps(3,4) by simp
  next
    case False
    then have "pos + length pre \<le> i" by simp
    then show ?thesis using IH that(2) by (meson list.set_intros(2))
  qed
  moreover have "\<forall>u \<in> set ts. tk_end t \<le> tk_start u" using IH token.hyps(4) by simp
  moreover have "\<forall>u \<in> set ts. pos \<le> tk_start u" using IH by fastforce
  ultimately show ?case using IH t token.hyps(3) by (auto simp del: token.simps)
qed

lemma covers_identifiers: "covers pos s ts \<Longrightarrow> t \<in> set ts \<Longrightarrow> tk_kind t = Identifier \<Longrightarrow>
    tk_text t \<noteq> [] \<and> is_identifier_start (hd (tk_text t))"
  by (induction rule: covers.induct) auto

lemma scan_expression_covers: "scan_expression source = Inr toks \<Longrightarrow> covers 0 source toks"
  using scan_tokens_covers by (auto simp: scan_expression_def rbind_Inr_iff split: prod.splits if_splits)

text \<open>
  The scanner loses nothing: each token is the piece of the source between its two offsets,
  the tokens follow one another without overlap, and every byte outside them is a space or a tab.
\<close>

theorem scan_is_lossless:
  assumes "scan_expression source = Inr toks"
  shows "(\<forall>t \<in> set toks. tk_start t < tk_end t \<and> tk_end t \<le> length source \<and>
            tk_text t = take (tk_end t - tk_start t) (drop (tk_start t) source)) \<and>
         sorted_wrt (\<lambda>a b. tk_end a \<le> tk_start b) toks \<and>
         (\<forall>i < length source. is_blank (source ! i) \<or> (\<exists>t \<in> set toks. tk_start t \<le> i \<and> i < tk_end t))"
  using covers_facts[OF scan_expression_covers[OF assms], of source] by simp

lemma scan_is_lossless_witness:
  "scan_expression ''PI + 2'' = Inr [make_token Identifier ''PI'' 0, make_token Operator ''+'' 3, make_token Number ''2'' 5] \<and>
   (\<exists>toks. scan_expression ''PI + 2'' = Inr toks \<and> sorted_wrt (\<lambda>a b. tk_end a \<le> tk_start b) toks)"
proof -
  have s: "scan_expression ''PI + 2'' =
      Inr [make_token Identifier ''PI'' 0, make_token Operator ''+'' 3, make_token Number ''2'' 5]"
    by code_simp
  show ?thesis using scan_is_lossless[OF s] s by blast
qed

section \<open>The rules with total readings\<close>

text \<open>
  For the proofs the rules are read totally, a token outside the list having no kind and no text.
  The lemmas below show that on every token of a list each checked rule is defined, so no access of
  it leaves the list, and that its answer is the one given here.
\<close>

definition text_at :: "token list \<Rightarrow> nat \<Rightarrow> string" where
  "text_at toks i = (if i < length toks then tk_text (toks ! i) else [])"

definition kind_at :: "token list \<Rightarrow> nat \<Rightarrow> token_kind option" where
  "kind_at toks i = (if i < length toks then Some (tk_kind (toks ! i)) else None)"

definition is_literal_identifier_value :: "token list \<Rightarrow> nat \<Rightarrow> bool" where
  "is_literal_identifier_value toks i =
     (kind_at toks i = Some Identifier \<and> text_at toks i \<in> {''true'', ''false'', ''null''})"

text \<open>The scan backwards for the bracket that opens what closes at the index before the count.\<close>

fun find_opening_value :: "token list \<Rightarrow> string \<Rightarrow> string \<Rightarrow> nat \<Rightarrow> int \<Rightarrow> nat option" where
  "find_opening_value toks opening closing 0 depth = None"
| "find_opening_value toks opening closing (Suc i) depth =
     (if text_at toks i = closing then find_opening_value toks opening closing i (depth + 1)
      else if text_at toks i = opening then
        (if depth - 1 = 0 then Some i else find_opening_value toks opening closing i (depth - 1))
      else find_opening_value toks opening closing i depth)"

definition source_local_token_value :: "token list \<Rightarrow> nat \<Rightarrow> bool" where
  "source_local_token_value toks i =
     (kind_at toks i = Some String_Literal \<or> kind_at toks i = Some Number \<or> is_literal_identifier_value toks i \<or>
      text_at toks i \<in> {'','', '':'', ''['', '']'', ''{'', ''}'', ''+'', ''-''})"

definition is_source_local_container_value :: "token list \<Rightarrow> nat \<Rightarrow> string \<Rightarrow> string \<Rightarrow> bool" where
  "is_source_local_container_value toks receiver_end opening closing =
     (case find_opening_value toks opening closing (Suc receiver_end) 0 of
        None \<Rightarrow> False
      | Some i \<Rightarrow> list_all (source_local_token_value toks) [i + 1..<receiver_end])"

definition math_constructor_at_value :: "token list \<Rightarrow> nat \<Rightarrow> string" where
  "math_constructor_at_value toks receiver_end =
     (if length toks \<le> receiver_end \<or> text_at toks receiver_end \<noteq> '')'' then []
      else case find_opening_value toks ''('' '')'' (Suc receiver_end) 0 of
             None \<Rightarrow> []
           | Some i \<Rightarrow>
               if i = 0 then []
               else if kind_at toks (i - 1) = Some Identifier \<and> text_at toks (i - 1) \<in> set math_constructors
               then text_at toks (i - 1)
               else [])"

definition is_prebound_property_read_value :: "token list \<Rightarrow> nat \<Rightarrow> bool" where
  "is_prebound_property_read_value toks receiver_end =
     (if receiver_end < 5 \<or> text_at toks receiver_end \<noteq> '')'' then False
      else kind_at toks (receiver_end - 1) = Some String_Literal \<and>
           text_at toks (receiver_end - 2) = ''('' \<and>
           kind_at toks (receiver_end - 3) = Some Identifier \<and>
           text_at toks (receiver_end - 3) = ''get'' \<and> text_at toks (receiver_end - 4) = ''.'' \<and>
           kind_at toks (receiver_end - 5) = Some Identifier \<and>
           text_at toks (receiver_end - 5) = ''node'')"

definition receiver_kind_at_value :: "token list \<Rightarrow> nat \<Rightarrow> receiver_kind" where
  "receiver_kind_at_value toks call_index =
     (if call_index < 2 \<or> text_at toks (call_index - 1) \<noteq> ''.'' then No_Receiver
      else
        let receiver_end = call_index - 2
        in if kind_at toks receiver_end = Some Identifier \<and> text_at toks receiver_end = ''node'' then Node_Receiver
           else if kind_at toks receiver_end = Some String_Literal then String_Receiver
           else if text_at toks receiver_end = '']'' \<and> is_source_local_container_value toks receiver_end ''['' '']''
           then Array_Receiver
           else if text_at toks receiver_end = ''}'' \<and> is_source_local_container_value toks receiver_end ''{'' ''}''
           then Dictionary_Receiver
           else if math_constructor_at_value toks receiver_end \<noteq> [] then Math_Receiver
           else No_Receiver)"

definition has_no_arguments_value :: "token list \<Rightarrow> nat \<Rightarrow> bool" where
  "has_no_arguments_value toks call_index = (call_index + 2 < length toks \<and> text_at toks (call_index + 2) = '')'')"

definition has_one_string_literal_argument_value :: "token list \<Rightarrow> nat \<Rightarrow> bool" where
  "has_one_string_literal_argument_value toks call_index =
     (call_index + 3 < length toks \<and> kind_at toks (call_index + 2) = Some String_Literal \<and>
      text_at toks (call_index + 3) = '')'')"

definition has_one_scalar_literal_argument_value :: "token list \<Rightarrow> nat \<Rightarrow> bool" where
  "has_one_scalar_literal_argument_value toks call_index =
     (call_index + 3 < length toks \<and>
      (kind_at toks (call_index + 2) = Some String_Literal \<or> kind_at toks (call_index + 2) = Some Number \<or>
       is_literal_identifier_value toks (call_index + 2)) \<and>
      text_at toks (call_index + 3) = '')'')"

text \<open>The index of the parenthesis that closes the one the scan starts at.\<close>

function find_closing_value :: "token list \<Rightarrow> nat \<Rightarrow> int \<Rightarrow> nat option" where
  "find_closing_value toks i depth =
     (if length toks \<le> i then None
      else if text_at toks i = ''('' then find_closing_value toks (i + 1) (depth + 1)
      else if text_at toks i = '')'' then
        (if depth - 1 = 0 then Some i else find_closing_value toks (i + 1) (depth - 1))
      else find_closing_value toks (i + 1) depth)"
  by auto
termination
  by (relation "measure (\<lambda>(toks, i, depth). length toks - i)") auto

declare find_closing_value.simps [simp del]

definition has_one_math_constructor_argument_value :: "token list \<Rightarrow> nat \<Rightarrow> bool" where
  "has_one_math_constructor_argument_value toks call_index =
     (let argument_start = call_index + 2
      in if length toks \<le> argument_start + 1 then False
         else if kind_at toks argument_start \<noteq> Some Identifier then False
         else if text_at toks (argument_start + 1) \<noteq> ''('' then False
         else case find_closing_value toks (argument_start + 1) 0 of
                None \<Rightarrow> False
              | Some i \<Rightarrow> math_constructor_at_value toks i \<noteq> [] \<and> i + 1 < length toks \<and> text_at toks (i + 1) = '')'')"

function has_only_source_local_numbers_from_value :: "token list \<Rightarrow> nat \<Rightarrow> bool" where
  "has_only_source_local_numbers_from_value toks i =
     (if length toks \<le> i then False
      else if text_at toks i = '')'' then True
      else if kind_at toks i = Some Number \<or> text_at toks i \<in> {'','', ''+'', ''-''} \<or>
              (kind_at toks i = Some Identifier \<and> text_at toks i \<in> {''INF'', ''NAN'', ''PI'', ''TAU''})
      then has_only_source_local_numbers_from_value toks (i + 1)
      else False)"
  by auto
termination
  by (relation "measure (\<lambda>(toks, i). length toks - i)") auto

declare has_only_source_local_numbers_from_value.simps [simp del]

definition has_only_source_local_numeric_arguments_value :: "token list \<Rightarrow> nat \<Rightarrow> bool" where
  "has_only_source_local_numeric_arguments_value toks call_index = has_only_source_local_numbers_from_value toks (call_index + 2)"

definition dot_rule_value :: "token list \<Rightarrow> nat \<Rightarrow> refusal option" where
  "dot_rule_value toks i =
     (if text_at toks i \<noteq> ''.'' then None
      else
        let method_call = (i + 2 < length toks \<and> kind_at toks (i + 1) = Some Identifier \<and> text_at toks (i + 2) = ''('');
            component_read = (\<not> method_call \<and> 0 < i \<and> i + 1 < length toks \<and> kind_at toks (i + 1) = Some Identifier \<and>
              is_math_component (math_constructor_at_value toks (i - 1)) (text_at toks (i + 1)));
            prebound_component_read = (\<not> method_call \<and> 0 < i \<and> i + 1 < length toks \<and>
              kind_at toks (i + 1) = Some Identifier \<and> is_prebound_component (text_at toks (i + 1)) \<and>
              is_prebound_property_read_value toks (i - 1))
        in if \<not> method_call \<and> \<not> component_read \<and> \<not> prebound_component_read then
             Some (invalid_argument (''Object member/property reads are forbidden in read-only expressions, '' @
               ''because reading through an object can run a script getter. Read a '' @
               ''native property of the context node with node.get('' @ [CHR 0x22] @ ''position'' @ [CHR 0x22] @ ''), or '' @
               ''use scene_get_property.''))
           else None)"

definition index_rule_value :: "token list \<Rightarrow> nat \<Rightarrow> refusal option" where
  "index_rule_value toks i =
     (if text_at toks i = ''['' \<and> 0 < i \<and>
         \<not> (kind_at toks (i - 1) = Some Operator \<or>
            text_at toks (i - 1) \<in> {''('', ''['', ''{'', '','', '':'', ''and'', ''or'', ''not'', ''in'', ''if'', ''else''})
      then Some (invalid_argument ''Dynamic indexed reads are forbidden in read-only expressions'')
      else None)"

definition word_rule_value :: "token list \<Rightarrow> nat \<Rightarrow> refusal option" where
  "word_rule_value toks i =
     (if kind_at toks i \<noteq> Some Identifier then None
      else if text_at toks i = ''self'' then
        Some (invalid_argument (''self is not bound in a read-only expression: there is no script instance '' @
          ''for it to be. The context node is bound as node, so read a native property '' @
          ''with node.get('' @ [CHR 0x22] @ ''position'' @ [CHR 0x22] @ '') or call one of the allowed node methods.''))
      else if text_at toks i \<in> set forbidden_identifiers then
        Some (invalid_argument ''Expression contains a forbidden identifier'')
      else if starts_with (text_at toks i) ''__didi_'' then
        Some (invalid_argument ''Expression contains a reserved sandbox identifier'')
      else if \<not> (0 < i \<and> text_at toks (i - 1) = ''.'') \<and>
              \<not> (i + 1 < length toks \<and> text_at toks (i + 1) \<in> {''.'', ''(''}) \<and>
              text_at toks i \<notin> set bound_bare_identifiers then
        Some (invalid_argument ([CHR 0x27] @ text_at toks i @ [CHR 0x27] @ '' is not bound in a read-only expression. The context '' @
          ''node is bound as node, and that is the only name: read a native property '' @
          ''with node.get('' @ [CHR 0x22] @ ''position'' @ [CHR 0x22] @ ''), call one of the allowed node methods, or use '' @
          ''scene_get_property. Engine singletons and project globals are not reachable here.''))
      else None)"

definition repeat_rule_value :: "token list \<Rightarrow> nat \<Rightarrow> refusal option" where
  "repeat_rule_value toks i =
     (if \<not> (i + 3 < length toks \<and> kind_at toks (i + 2) = Some Number \<and> text_at toks (i + 3) = '')'') then
        Some (invalid_argument ''repeat is restricted to a bounded string literal and integer literal'')
      else case repeat_count 0 (text_at toks (i + 2)) of
             None \<Rightarrow> Some (invalid_argument ''repeat count must be a bounded integer literal'')
           | Some n \<Rightarrow>
               let literal_bytes = length (text_at toks (i - 2)) - 2
               in if n > 512 * 1024 \<or> (literal_bytes \<noteq> 0 \<and> n > (512 * 1024) div literal_bytes)
                  then Some (invalid_argument ''repeat output is limited to 512 KiB'')
                  else None)"

definition call_rule_value :: "token list \<Rightarrow> nat \<Rightarrow> refusal option" where
  "call_rule_value toks i =
     (let name = text_at toks i
      in case receiver_kind_at_value toks i of
           No_Receiver \<Rightarrow>
             if (0 < i \<and> text_at toks (i - 1) = ''.'') \<or> name \<notin> set allowed_global_callables \<or>
                \<not> has_only_source_local_numeric_arguments_value toks i
             then Some (invalid_argument ''Global calls require source-local numeric arguments and no receiver'')
             else None
         | Node_Receiver \<Rightarrow>
             if name = ''get'' then
               (if \<not> has_one_string_literal_argument_value toks i
                then Some (invalid_argument ''get is restricted to direct node.get(<string literal>) property reads'')
                else None)
             else if (name \<in> set node_zero_argument_methods \<and> has_no_arguments_value toks i) \<or>
                     (name \<in> set node_string_argument_methods \<and> has_one_string_literal_argument_value toks i) then None
             else Some (invalid_argument ''Only exact direct constant-space native scalar Node calls are permitted'')
         | String_Receiver \<Rightarrow>
             if name = ''repeat'' then repeat_rule_value toks i
             else if name \<in> {''size'', ''is_empty''} \<and> has_no_arguments_value toks i then None
             else if name \<in> {''find'', ''count''} \<and> has_one_string_literal_argument_value toks i then None
             else Some (invalid_argument ''Method calls require an exact direct Node receiver or a source-local literal receiver'')
         | Array_Receiver \<Rightarrow>
             if name \<in> {''size'', ''is_empty''} \<and> has_no_arguments_value toks i then None
             else if name \<in> {''find'', ''count'', ''has''} \<and> has_one_scalar_literal_argument_value toks i then None
             else Some (invalid_argument ''Method calls require an exact direct Node receiver or a source-local literal receiver'')
         | Dictionary_Receiver \<Rightarrow>
             if name \<in> {''size'', ''is_empty''} \<and> has_no_arguments_value toks i then None
             else if name = ''has'' \<and> has_one_string_literal_argument_value toks i then None
             else Some (invalid_argument ''Method calls require an exact direct Node receiver or a source-local literal receiver'')
         | Math_Receiver \<Rightarrow>
             if name \<in> set math_zero_argument_methods \<and> has_no_arguments_value toks i then None
             else if name \<in> set math_vector_argument_methods \<and> has_one_math_constructor_argument_value toks i then None
             else Some (invalid_argument ''Only pure geometry calls on source-local Vector or Color literals are permitted''))"

definition dispatch_rule_value :: "token list \<Rightarrow> nat \<Rightarrow> refusal option" where
  "dispatch_rule_value toks i =
     (if text_at toks i = ''('' \<and> 0 < i \<and> kind_at toks (i - 1) \<noteq> Some Identifier \<and>
         (text_at toks (i - 1) \<in> {'']'', '')''} \<or> kind_at toks (i - 1) = Some String_Literal \<or>
          kind_at toks (i - 1) = Some Number)
      then Some (invalid_argument ''Dynamic callable dispatch is forbidden'')
      else None)"

definition is_call_name_value :: "token list \<Rightarrow> nat \<Rightarrow> bool" where
  "is_call_name_value toks i = (kind_at toks i = Some Identifier \<and> i + 1 < length toks \<and> text_at toks (i + 1) = ''('')"

fun or_else_value :: "'a option \<Rightarrow> 'a option \<Rightarrow> 'a option" where
  "or_else_value None b = b"
| "or_else_value (Some a) b = Some a"

definition check_token_value :: "token list \<Rightarrow> nat \<Rightarrow> refusal option" where
  "check_token_value toks i =
     or_else_value (dot_rule_value toks i) (or_else_value (index_rule_value toks i) (or_else_value (word_rule_value toks i)
       (if is_call_name_value toks i then call_rule_value toks i else dispatch_rule_value toks i)))"

definition is_get_call_value :: "token list \<Rightarrow> nat \<Rightarrow> bool" where
  "is_get_call_value toks i = (is_call_name_value toks i \<and> text_at toks i = ''get'')"

lemma token_at_in: "i < length toks \<Longrightarrow> token_at toks i = Some (toks ! i)"
  by (simp add: token_at_def)

lemma token_before_in: "k \<le> i \<Longrightarrow> i - k < length toks \<Longrightarrow> token_before toks i k = Some (toks ! (i - k))"
  by (simp add: token_before_def index_before_def token_at_in)

lemma and_then_Some: "and_then (Some a) b = (if a then b else Some False)"
  by (cases a) simp_all

lemma or_then_Some: "or_then (Some a) b = (if a then Some True else b)"
  by (cases a) simp_all

lemmas checked = token_at_in token_before_in and_then_Some or_then_Some text_is_def kind_is_def text_at_def kind_at_def
  index_before_def

lemma literal_identifier_total: "i < length toks \<Longrightarrow> is_literal_identifier (toks ! i) = is_literal_identifier_value toks i"
  by (simp add: is_literal_identifier_def is_literal_identifier_value_def checked)

lemma source_local_total: "i < length toks \<Longrightarrow> source_local_token (toks ! i) = source_local_token_value toks i"
  by (simp add: source_local_token_def source_local_token_value_def literal_identifier_total checked)

lemma all_source_local_total:
  "\<forall>i \<in> set is. i < length toks \<Longrightarrow> all_source_local toks is = Some (list_all (source_local_token_value toks) is)"
  by (induction "is") (simp_all add: token_at_in source_local_total)

lemma find_opening_total:
  "n \<le> length toks \<Longrightarrow> find_opening toks opening closing n depth = Some (find_opening_value toks opening closing n depth)"
  by (induction n arbitrary: depth) (simp_all add: checked)

lemma find_opening_found:
  "find_opening_value toks opening closing n depth = Some i \<Longrightarrow> i < n \<and> text_at toks i = opening"
  by (induction n arbitrary: depth) (auto split: if_splits intro: less_SucI)

declare find_opening.simps(2) [simp del] find_opening_value.simps(2) [simp del]

lemma container_total:
  assumes "e < length toks"
  shows "is_source_local_container toks e opening closing = Some (is_source_local_container_value toks e opening closing)"
proof (cases "find_opening_value toks opening closing (Suc e) 0")
  case None
  then show ?thesis
    using assms by (simp add: is_source_local_container_def is_source_local_container_value_def find_opening_total)
next
  case (Some i)
  then have i: "i < length toks" "tk_text (toks ! i) = opening"
    using find_opening_found[OF Some] assms by (auto simp: text_at_def split: if_splits)
  have "all_source_local toks [i + 1..<e] = Some (list_all (source_local_token_value toks) [i + 1..<e])"
    using assms by (intro all_source_local_total) auto
  then show ?thesis
    using Some i assms
    by (simp add: is_source_local_container_def is_source_local_container_value_def find_opening_total checked)
qed

lemma math_constructor_total: "math_constructor_at toks e = Some (math_constructor_at_value toks e)"
proof (cases "e < length toks \<and> tk_text (toks ! e) = '')''")
  case True
  show ?thesis
  proof (cases "find_opening_value toks ''('' '')'' (Suc e) 0")
    case None
    then show ?thesis
      using True by (simp add: math_constructor_at_def math_constructor_at_value_def find_opening_total checked)
  next
    case (Some i)
    then have "i - 1 < length toks"
      using find_opening_found[OF Some] True by linarith
    then show ?thesis
      using Some True by (auto simp: math_constructor_at_def math_constructor_at_value_def find_opening_total checked)
  qed
qed (auto simp: math_constructor_at_def math_constructor_at_value_def checked)

lemma prebound_read_total:
  assumes "e < length toks"
  shows "is_prebound_property_read toks e = Some (is_prebound_property_read_value toks e)"
proof (cases "e < 5")
  case False
  have "e - 1 < length toks" "e - 2 < length toks" "e - 3 < length toks" "e - 4 < length toks" "e - 5 < length toks"
    using assms by linarith+
  then show ?thesis
    using assms False by (auto simp: is_prebound_property_read_def is_prebound_property_read_value_def checked)
qed (simp add: is_prebound_property_read_def is_prebound_property_read_value_def and_then_Some)

lemma receiver_kind_total:
  assumes "i < length toks"
  shows "receiver_kind_at toks i = Some (receiver_kind_at_value toks i)"
proof (cases "i < 2")
  case False
  then have "i - 1 < length toks" "i - 2 < length toks" "1 \<le> i" "2 \<le> i"
    using assms by linarith+
  then show ?thesis
    by (auto simp: receiver_kind_at_def receiver_kind_at_value_def Let_def container_total math_constructor_total checked)
qed (simp add: receiver_kind_at_def receiver_kind_at_value_def and_then_Some)

lemma no_arguments_total: "has_no_arguments toks i = Some (has_no_arguments_value toks i)"
  by (auto simp: has_no_arguments_def has_no_arguments_value_def checked)

lemma one_string_total: "has_one_string_literal_argument toks i = Some (has_one_string_literal_argument_value toks i)"
  by (auto simp: has_one_string_literal_argument_def has_one_string_literal_argument_value_def checked)

lemma one_scalar_total: "has_one_scalar_literal_argument toks i = Some (has_one_scalar_literal_argument_value toks i)"
  by (auto simp: has_one_scalar_literal_argument_def has_one_scalar_literal_argument_value_def
      literal_identifier_total checked)

lemma find_closing_total: "find_closing toks i depth = Some (find_closing_value toks i depth)"
proof (induction toks i depth rule: find_closing.induct)
  case (1 toks i depth)
  show ?case
  proof (cases "length toks \<le> i")
    case False
    then show ?thesis
      using 1 by (subst find_closing.simps, subst find_closing_value.simps) (simp add: checked)
  qed (simp add: find_closing.simps find_closing_value.simps)
qed

lemma one_math_total: "has_one_math_constructor_argument toks i = Some (has_one_math_constructor_argument_value toks i)"
  by (auto simp: has_one_math_constructor_argument_def has_one_math_constructor_argument_value_def Let_def
      find_closing_total math_constructor_total checked split: option.splits)

lemma numbers_from_total: "has_only_source_local_numbers_from toks i = Some (has_only_source_local_numbers_from_value toks i)"
proof (induction toks i rule: has_only_source_local_numbers_from.induct)
  case (1 toks i)
  show ?case
  proof (cases "length toks \<le> i")
    case False
    then show ?thesis
      using 1 by (subst has_only_source_local_numbers_from.simps, subst has_only_source_local_numbers_from_value.simps)
        (auto simp: checked)
  qed (simp add: has_only_source_local_numbers_from.simps has_only_source_local_numbers_from_value.simps)
qed

lemmas arguments_total = no_arguments_total one_string_total one_scalar_total one_math_total numbers_from_total

lemma dot_rule_total:
  assumes "i < length toks"
  shows "dot_rule toks i = Some (dot_rule_value toks i)"
proof (cases "text_at toks i = ''.''")
  case True
  have "0 < i \<Longrightarrow> i - 1 < length toks"
    using assms by linarith
  then show ?thesis
    using assms True
    by (simp add: dot_rule_def dot_rule_value_def Let_def math_constructor_total prebound_read_total checked)
next
  case False
  then show ?thesis
    using assms by (simp add: dot_rule_def dot_rule_value_def checked)
qed

lemma index_rule_total: "i < length toks \<Longrightarrow> index_rule toks i = Some (index_rule_value toks i)"
  by (auto simp: index_rule_def index_rule_value_def checked)

lemma word_rule_total:
  assumes "i < length toks"
  shows "word_rule toks i = Some (word_rule_value toks i)"
  using assms by (auto simp: word_rule_def word_rule_value_def checked)

lemma repeat_rule_total: "2 \<le> i \<Longrightarrow> i < length toks \<Longrightarrow> repeat_rule toks i = Some (repeat_rule_value toks i)"
  by (auto simp: repeat_rule_def repeat_rule_value_def Let_def checked split: option.splits)

lemma string_receiver_index: "receiver_kind_at_value toks i = String_Receiver \<Longrightarrow> 2 \<le> i"
  by (auto simp: receiver_kind_at_value_def split: if_splits)

lemma call_rule_total:
  assumes "i < length toks"
  shows "call_rule toks i = Some (call_rule_value toks i)"
proof -
  have before: "0 < i \<Longrightarrow> token_before toks i 1 = Some (toks ! (i - 1))"
    using assms by (intro token_before_in) linarith+
  show ?thesis
    using assms before repeat_rule_total[of i toks] string_receiver_index[of toks i]
    by (cases "receiver_kind_at_value toks i")
       (auto simp: call_rule_def call_rule_value_def Let_def receiver_kind_total refuse_unless_def arguments_total
         has_only_source_local_numeric_arguments_def has_only_source_local_numeric_arguments_value_def checked)
qed

lemma dispatch_rule_total: "i < length toks \<Longrightarrow> dispatch_rule toks i = Some (dispatch_rule_value toks i)"
  by (auto simp: dispatch_rule_def dispatch_rule_value_def checked)

lemma call_name_total: "i < length toks \<Longrightarrow> is_call_name toks i = Some (is_call_name_value toks i)"
  by (auto simp: is_call_name_def is_call_name_value_def checked)

lemma get_call_total: "i < length toks \<Longrightarrow> is_get_call toks i = Some (is_get_call_value toks i)"
  by (auto simp: is_get_call_def is_get_call_value_def is_call_name_value_def checked)

lemma or_else_Some: "or_else (Some a) (Some b) = Some (or_else_value a b)"
  by (cases a) simp_all

theorem check_token_total: "i < length toks \<Longrightarrow> check_token toks i = Some (check_token_value toks i)"
  by (simp add: check_token_def check_token_value_def dot_rule_total index_rule_total word_rule_total call_rule_total
      dispatch_rule_total call_name_total or_else_Some)

lemma first_problem_defined:
  "\<forall>x \<in> set xs. \<exists>p. f x = Some p \<Longrightarrow> \<exists>p. first_problem f xs = Some p \<and> (p = None \<longleftrightarrow> (\<forall>x \<in> set xs. f x = Some None))"
proof (induction xs)
  case (Cons x xs)
  then obtain q where q: "first_problem f xs = Some q" "q = None \<longleftrightarrow> (\<forall>x \<in> set xs. f x = Some None)" by auto
  obtain p where "f x = Some p" using Cons.prems by auto
  then show ?case using q by (cases p) auto
qed simp

lemma validate_tokens_total:
  "\<exists>p. validate_tokens toks = Some p \<and> (p = None \<longleftrightarrow> (\<forall>i < length toks. check_token_value toks i = None))"
  using first_problem_defined[of "[0..<length toks]" "check_token toks"] check_token_total
  by (auto simp: validate_tokens_def)

section \<open>The vocabulary of an accepted expression\<close>

lemma or_else_None [simp]: "or_else_value a b = None \<longleftrightarrow> a = None \<and> b = None"
  by (cases a) auto

lemma validate_expression_accepts:
  assumes "validate_expression source = Some None"
  obtains toks reads where "scan_expression source = Inr toks"
    "\<And>i. i < length toks \<Longrightarrow> check_token_value toks i = None" "reads_in_tokens toks = Some (Inr reads)"
proof -
  obtain toks reads where t: "scan_expression source = Inr toks" "validate_tokens toks = Some None"
    "reads_in_tokens toks = Some (Inr reads)"
    using assms by (auto simp: validate_expression_def split: if_splits sum.splits option.splits)
  have "check_token_value toks i = None" if "i < length toks" for i
    using validate_tokens_total[of toks] t(2) that by simp
  then show ?thesis using that t by blast
qed

lemma check_token_parts:
  assumes "check_token_value toks i = None"
  shows "dot_rule_value toks i = None" "index_rule_value toks i = None" "word_rule_value toks i = None"
    "is_call_name_value toks i \<Longrightarrow> call_rule_value toks i = None"
  using assms by (auto simp: check_token_value_def)

text \<open>The names that may be called, and the components that may be read.\<close>

definition callable_words :: "string list" where
  "callable_words = allowed_global_callables @ [''get''] @ node_zero_argument_methods @ node_string_argument_methods @
     [''repeat'', ''size'', ''is_empty'', ''find'', ''count'', ''has''] @
     math_zero_argument_methods @ math_vector_argument_methods"

definition component_words :: "string list" where
  "component_words = [''x'', ''y'', ''z'', ''r'', ''g'', ''b'', ''a'']"

lemma call_rule_words: "call_rule_value toks i = None \<Longrightarrow> text_at toks i \<in> set callable_words"
  unfolding callable_words_def call_rule_value_def Let_def
  by (cases "receiver_kind_at_value toks i") (auto split: if_splits)

lemma math_constructor_at_closes: "math_constructor_at_value toks i \<noteq> [] \<Longrightarrow> text_at toks i = '')''"
  by (auto simp: math_constructor_at_value_def split: if_splits)

lemma dot_rule_cases:
  assumes "dot_rule_value toks i = None" "text_at toks i = ''.''"
  obtains (call) "i + 2 < length toks" "kind_at toks (i + 1) = Some Identifier" "text_at toks (i + 2) = ''(''"
  | (component) "0 < i" "text_at toks (i - 1) = '')''" "text_at toks (i + 1) \<in> set component_words"
proof -
  have component: "0 < i \<and> text_at toks (i - 1) = '')'' \<and> text_at toks (i + 1) \<in> set component_words"
    if "0 < i" "is_math_component (math_constructor_at_value toks (i - 1)) (text_at toks (i + 1)) \<or>
      (is_prebound_component (text_at toks (i + 1)) \<and> is_prebound_property_read_value toks (i - 1))"
    using that math_constructor_at_closes[of toks "i - 1"]
    by (auto simp: is_math_component_def is_prebound_component_def is_prebound_property_read_value_def component_words_def
        split: if_splits)
  show ?thesis
    using assms component call component unfolding dot_rule_value_def Let_def by (auto split: if_splits simp: that)
qed

lemma identifier_is_no_bracket:
  assumes "scan_expression source = Inr toks" "i < length toks" "kind_at toks i = Some Identifier"
  shows "text_at toks i \<noteq> '']''" "text_at toks i \<noteq> ''}''" "text_at toks i \<noteq> '')''"
proof -
  have "tk_kind (toks ! i) = Identifier" using assms(2,3) by (simp add: kind_at_def)
  then have start: "is_identifier_start (hd (text_at toks i))"
    using covers_identifiers[OF scan_expression_covers[OF assms(1)], of "toks ! i"] assms(2) by (simp add: text_at_def)
  have closing: "\<not> is_identifier_start (CHR '']'')" "\<not> is_identifier_start (CHR ''}'')" "\<not> is_identifier_start (CHR '')'')"
    by code_simp+
  show "text_at toks i \<noteq> '']''" using start closing(1) by auto
  show "text_at toks i \<noteq> ''}''" using start closing(2) by auto
  show "text_at toks i \<noteq> '')''" using start closing(3) by auto
qed

text \<open>A name with a point behind it can only be the context node.\<close>

lemma name_before_a_point:
  assumes scan: "scan_expression source = Inr toks"
    and ok: "\<And>j. j < length toks \<Longrightarrow> check_token_value toks j = None"
    and i: "i + 1 < length toks" "kind_at toks i = Some Identifier" "text_at toks (i + 1) = ''.''"
  shows "text_at toks i = ''node''"
proof -
  have len: "i < length toks" using i(1) by simp
  note plain = identifier_is_no_bracket[OF scan len i(2)]
  have dot: "dot_rule_value toks (i + 1) = None" using ok[OF i(1)] by (rule check_token_parts(1))
  have not_component: "text_at toks (i + 1 - 1) \<noteq> '')''" using plain(3) by simp
  have c: "i + 1 + 2 < length toks" "kind_at toks (i + 1 + 1) = Some Identifier" "text_at toks (i + 1 + 2) = ''(''"
    using dot_rule_cases[OF dot i(3)] not_component by metis+
  then have call: "is_call_name_value toks (i + 2)" by (simp add: is_call_name_value_def)
  have "call_rule_value toks (i + 2) = None"
    using ok[of "i + 2"] c(1) call by (auto intro: check_token_parts(4))
  moreover have "receiver_kind_at_value toks (i + 2) = (if text_at toks i = ''node'' then Node_Receiver else No_Receiver)"
    using plain i math_constructor_at_closes[of toks i] by (auto simp: receiver_kind_at_value_def Let_def)
  ultimately show ?thesis using i(3) by (auto simp: call_rule_value_def split: if_splits)
qed

text \<open>
  (C13) The sandbox's vocabulary is closed: every name in an accepted expression is one of the
  bare names and literals, a callable of the tables, or a component, and none is a forbidden
  name, \<open>self\<close> or a reserved sandbox name.
\<close>

theorem accepted_vocabulary_is_closed:
  assumes "validate_expression source = Some None" "scan_expression source = Inr toks"
    "t \<in> set toks" "tk_kind t = Identifier"
  shows "tk_text t \<in> set bound_bare_identifiers \<union> set callable_words \<union> set component_words \<and>
         tk_text t \<notin> set forbidden_identifiers \<and> tk_text t \<noteq> ''self'' \<and> \<not> starts_with (tk_text t) ''__didi_''"
proof -
  obtain i where i: "i < length toks" "toks ! i = t" using assms(3) by (auto simp: in_set_conv_nth)
  have ok: "\<And>j. j < length toks \<Longrightarrow> check_token_value toks j = None"
    by (rule validate_expression_accepts[OF assms(1)]) (use assms(2) in auto)
  have at: "text_at toks i = tk_text t" "kind_at toks i = Some Identifier"
    using i assms(4) by (simp_all add: text_at_def kind_at_def)
  have word: "word_rule_value toks i = None" using ok[OF i(1)] by (rule check_token_parts(3))
  have kept: "tk_text t \<notin> set forbidden_identifiers" "tk_text t \<noteq> ''self''" "\<not> starts_with (tk_text t) ''__didi_''"
    using word unfolding word_rule_value_def at by (auto split: if_splits)
  consider (call) "is_call_name_value toks i" | (after_point) "\<not> is_call_name_value toks i" "0 < i" "text_at toks (i - 1) = ''.''"
    | (before_point) "i + 1 < length toks" "text_at toks (i + 1) = ''.''"
    | (bare) "\<not> (0 < i \<and> text_at toks (i - 1) = ''.'')"
        "\<not> (i + 1 < length toks \<and> text_at toks (i + 1) \<in> {''.'', ''(''})"
    using at(2) by (auto simp: is_call_name_value_def)
  then have "tk_text t \<in> set bound_bare_identifiers \<union> set callable_words \<union> set component_words"
  proof cases
    case call
    then show ?thesis using call_rule_words[OF check_token_parts(4)[OF ok[OF i(1)] call]] at by simp
  next
    case after_point
    then have dot: "dot_rule_value toks (i - 1) = None" using ok i(1) by (auto intro: check_token_parts(1))
    have "\<not> (i - 1 + 2 < length toks \<and> text_at toks (i - 1 + 2) = ''('')"
      using after_point(1,2) at(2) by (auto simp: is_call_name_value_def)
    then have "text_at toks (i - 1 + 1) \<in> set component_words"
      using dot_rule_cases[OF dot after_point(3)] by metis
    then show ?thesis using after_point(2) at by simp
  next
    case before_point
    then show ?thesis using name_before_a_point[OF assms(2) ok before_point(1) at(2)] at
      by (simp add: bound_bare_identifiers_def)
  next
    case bare
    then show ?thesis using word at unfolding word_rule_value_def by (auto split: if_splits)
  qed
  then show ?thesis using kept by blast
qed

lemma accepted_vocabulary_is_closed_witness:
  "validate_expression ''node.get_child_count() + 1'' = Some None \<and>
   tk_text (make_token Identifier ''node'' 0) \<notin> set forbidden_identifiers"
proof -
  have v: "validate_expression ''node.get_child_count() + 1'' = Some None" by code_simp
  have s: "scan_expression ''node.get_child_count() + 1'' =
      Inr [make_token Identifier ''node'' 0, make_token Punctuation ''.'' 4, make_token Identifier ''get_child_count'' 5,
           make_token Punctuation ''('' 20, make_token Punctuation '')'' 21, make_token Operator ''+'' 23,
           make_token Number ''1'' 25]"
    by code_simp
  show ?thesis using accepted_vocabulary_is_closed[OF v s, of "make_token Identifier ''node'' 0"] v
    by (simp add: make_token_def)
qed

section \<open>The property reads of an accepted expression\<close>

text \<open>The tokens around the name of an accepted \<open>get\<close> are those of \<open>node.get(literal)\<close>.\<close>

lemma accepted_get_shape:
  assumes ok: "check_token_value toks i = None" and get: "is_get_call_value toks i"
  shows "2 \<le> i" "i + 3 < length toks" "kind_at toks (i - 2) = Some Identifier" "text_at toks (i - 2) = ''node''"
    "kind_at toks (i + 2) = Some String_Literal" "text_at toks (i + 3) = '')''"
proof -
  have name: "text_at toks i = ''get''" and call: "is_call_name_value toks i" using get by (simp_all add: is_get_call_value_def)
  have rule: "call_rule_value toks i = None" using check_token_parts(4)[OF ok call] .
  have receiver: "receiver_kind_at_value toks i = Node_Receiver"
    using rule name by (cases "receiver_kind_at_value toks i")
      (auto simp: call_rule_value_def allowed_global_callables_def math_zero_argument_methods_def
        math_vector_argument_methods_def split: if_splits)
  then have "has_one_string_literal_argument_value toks i" using rule name by (auto simp: call_rule_value_def split: if_splits)
  then show "i + 3 < length toks" "kind_at toks (i + 2) = Some String_Literal" "text_at toks (i + 3) = '')''"
    by (simp_all add: has_one_string_literal_argument_value_def)
  show "2 \<le> i" "kind_at toks (i - 2) = Some Identifier" "text_at toks (i - 2) = ''node''"
    using receiver by (auto simp: receiver_kind_at_value_def Let_def split: if_splits)
qed

definition read_of :: "token list \<Rightarrow> nat \<Rightarrow> direct_read" where
  "read_of toks i = \<lparr>dr_start = tk_start (toks ! (i - 2)), dr_end = tk_end (toks ! (i + 3)),
     dr_property = take (length (tk_text (toks ! (i + 2))) - 2) (drop 1 (tk_text (toks ! (i + 2))))\<rparr>"

lemma read_property_cases:
  assumes "2 \<le> i" "i + 3 < length toks"
  shows "(\<exists>e. read_property toks i = Some (Inl e)) \<or>
    (read_property toks i = Some (Inr (read_of toks i)) \<and> dr_property (read_of toks i) \<noteq> [] \<and>
     list_all is_identifier_continue (dr_property (read_of toks i)))"
  using assms by (auto simp: read_property_def read_of_def Let_def)

lemma reads_from_defined:
  assumes "\<And>i. i \<in> set is \<Longrightarrow> i < length toks"
    and "\<And>i. i \<in> set is \<Longrightarrow> is_get_call_value toks i \<Longrightarrow> 2 \<le> i \<and> i + 3 < length toks"
  shows "(\<exists>e. reads_from toks is = Some (Inl e)) \<or>
    (reads_from toks is = Some (Inr (map (read_of toks) (filter (is_get_call_value toks) is))) \<and>
     (\<forall>i \<in> set is. is_get_call_value toks i \<longrightarrow> dr_property (read_of toks i) \<noteq> [] \<and>
        list_all is_identifier_continue (dr_property (read_of toks i))))"
  using assms
proof (induction "is")
  case (Cons i "is")
  have later: "(\<exists>e. reads_from toks is = Some (Inl e)) \<or>
    (reads_from toks is = Some (Inr (map (read_of toks) (filter (is_get_call_value toks) is))) \<and>
     (\<forall>i \<in> set is. is_get_call_value toks i \<longrightarrow> dr_property (read_of toks i) \<noteq> [] \<and>
        list_all is_identifier_continue (dr_property (read_of toks i))))"
    using Cons.prems by (intro Cons.IH) auto
  have get: "is_get_call toks i = Some (is_get_call_value toks i)"
    using Cons.prems(1)[of i] by (simp add: get_call_total)
  show ?case
  proof (cases "is_get_call_value toks i")
    case False
    then show ?thesis using later get by simp
  next
    case True
    then have "2 \<le> i" "i + 3 < length toks" using Cons.prems(2)[of i] by auto
    from read_property_cases[OF this] show ?thesis using True later get by (elim disjE exE) auto
  qed
qed simp

lemma accepted_tokens_read_in_bounds:
  assumes "\<And>i. i < length toks \<Longrightarrow> check_token_value toks i = None"
  shows "(\<exists>e. reads_in_tokens toks = Some (Inl e)) \<or>
    (reads_in_tokens toks = Some (Inr (map (read_of toks) (filter (is_get_call_value toks) [0..<length toks]))) \<and>
     (\<forall>i < length toks. is_get_call_value toks i \<longrightarrow> dr_property (read_of toks i) \<noteq> [] \<and>
        list_all is_identifier_continue (dr_property (read_of toks i))))"
proof -
  have "2 \<le> i \<and> i + 3 < length toks" if "i \<in> set [0..<length toks]" "is_get_call_value toks i" for i
    using accepted_get_shape(1,2)[OF assms that(2)] that(1) by simp
  from reads_from_defined[of "[0..<length toks]" toks, OF _ this] show ?thesis
    unfolding reads_in_tokens_def set_upt by (metis atLeastLessThan_iff zero_le)
qed

text \<open>The two ends of a span of tokens, read back in the source.\<close>

lemma exact_span:
  assumes "tk_start a < tk_end a \<and> tk_end a \<le> length source \<and> x = take (tk_end a - tk_start a) (drop (tk_start a) source)"
    and "tk_start b < tk_end b \<and> tk_end b \<le> length source \<and> y = take (tk_end b - tk_start b) (drop (tk_start b) source)"
    and "tk_end a \<le> tk_start b" "x = ''node''" "y = '')''"
  shows "tk_start a + 4 < tk_end b \<and> tk_end b \<le> length source \<and>
    take 4 (drop (tk_start a) source) = ''node'' \<and> source ! (tk_end b - 1) = CHR '')''"
proof -
  have "length x = tk_end a - tk_start a" "length y = tk_end b - tk_start b" using assms(1,2) by auto
  moreover have "length x = 4" "length y = 1" unfolding assms(4,5) by simp_all
  ultimately have len: "tk_end a = tk_start a + 4" "tk_end b = tk_start b + 1" using assms(1,2) by linarith+
  have "take 1 (drop (tk_start b) source) = '')''" "tk_start b < length source" using assms(2,5) len(2) by simp_all
  then have "source ! tk_start b = CHR '')''" by (metis list.inject nth_Cons_0 take0 take_Suc_conv_app_nth append_Nil One_nat_def drop0 hd_drop_conv_nth list.sel(1) hd_take zero_less_one)
  then show ?thesis using assms len by simp
qed

text \<open>
  (C16) Validation never reads outside its tokens. Every access of a token, in each rule as in the
  pass for the property reads, is checked in the model and ends the whole validation with None when
  its index is not one of the list; on every source the validation ends with an acceptance or a
  refusal. On an accepted source the separate pass for the property reads is defined and succeeds.
\<close>

theorem validation_stays_in_bounds:
  "case validate_expression source of
     None \<Rightarrow> False
   | Some None \<Rightarrow> (case direct_property_reads source of Some (Inr reads) \<Rightarrow> True | _ \<Rightarrow> False)
   | Some (Some e) \<Rightarrow> True"
proof (cases "validate_expression source")
  case None
  then obtain toks where t: "validate_tokens toks = None \<or> (validate_tokens toks = Some None \<and> reads_in_tokens toks = None)"
    by (auto simp: validate_expression_def split: if_splits sum.splits option.splits)
  then have "check_token_value toks i = None" if "i < length toks" for i
    using that validate_tokens_total[of toks] by auto
  then show ?thesis
    using accepted_tokens_read_in_bounds[of toks] validate_tokens_total[of toks] t by auto
next
  case (Some answer)
  show ?thesis
  proof (cases answer)
    case None
    with Some obtain toks reads where "scan_expression source = Inr toks" "reads_in_tokens toks = Some (Inr reads)"
      using validate_expression_accepts by blast
    then show ?thesis using Some None by (simp add: direct_property_reads_def)
  qed (use Some in simp)
qed

text \<open>
  What the bridge reads itself is what the expression says: each read of an accepted
  expression spans a piece of the source that begins with \<open>node\<close> and ends with the closing
  parenthesis, names a property by identifier bytes only, and the reads do not overlap, so
  replacing them one by one is well defined.
\<close>

theorem accepted_reads_are_exact:
  assumes "validate_expression source = Some None" "direct_property_reads source = Some (Inr reads)"
  shows "sorted_wrt (\<lambda>a b. dr_end a \<le> dr_start b) reads \<and>
    (\<forall>r \<in> set reads. dr_start r + 4 < dr_end r \<and> dr_end r \<le> length source \<and>
       take 4 (drop (dr_start r) source) = ''node'' \<and> source ! (dr_end r - 1) = CHR '')'' \<and>
       dr_property r \<noteq> [] \<and> list_all is_identifier_continue (dr_property r))"
proof -
  obtain toks where scan: "scan_expression source = Inr toks"
    and ok: "\<And>i. i < length toks \<Longrightarrow> check_token_value toks i = None"
    using validate_expression_accepts[OF assms(1)] by metis
  let ?gets = "filter (is_get_call_value toks) [0..<length toks]"
  have "reads_in_tokens toks = Some (Inr reads)" using assms(2) scan by (simp add: direct_property_reads_def)
  with accepted_tokens_read_in_bounds[OF ok]
  have reads: "reads = map (read_of toks) ?gets"
    and names: "\<And>i. i < length toks \<Longrightarrow> is_get_call_value toks i \<Longrightarrow>
      dr_property (read_of toks i) \<noteq> [] \<and> list_all is_identifier_continue (dr_property (read_of toks i))"
    by auto
  note facts = covers_facts[OF scan_expression_covers[OF scan], of source, simplified]
  have order: "tk_end (toks ! a) \<le> tk_start (toks ! b)" if "a < b" "b < length toks" for a b
    using facts that sorted_wrt_nth_less by blast
  have piece: "tk_start (toks ! a) < tk_end (toks ! a) \<and> tk_end (toks ! a) \<le> length source \<and>
      text_at toks a = take (tk_end (toks ! a) - tk_start (toks ! a)) (drop (tk_start (toks ! a)) source)"
    if "a < length toks" for a
    using facts that by (simp add: text_at_def)
  have shape: "2 \<le> i" "i + 3 < length toks" "text_at toks (i - 2) = ''node''" "text_at toks (i + 3) = '')''"
      "kind_at toks (i + 2) = Some String_Literal"
    if "i < length toks" "is_get_call_value toks i" for i
    using accepted_get_shape[OF ok[OF that(1)] that(2)] by simp_all
  have apart: "dr_end (read_of toks i) \<le> dr_start (read_of toks j)"
    if "i < j" "j < length toks" "is_get_call_value toks i" "is_get_call_value toks j" for i j
  proof -
    note si = shape[OF order.strict_trans[OF that(1,2)] that(3)] and sj = shape[OF that(2,4)]
    have kinds: "kind_at toks j = Some Identifier" "text_at toks j = ''get''" "text_at toks (i + 1) = ''(''"
        "kind_at toks (j - 2) = Some Identifier" "text_at toks i = ''get''"
      using that accepted_get_shape(3)[OF ok[OF that(2)] that(4)] by (simp_all add: is_get_call_value_def is_call_name_value_def)
    have "j \<noteq> i + 1" "j \<noteq> i + 2" "j \<noteq> i + 3" using kinds si by auto
    then have "i + 4 \<le> j" using that(1) by simp
    moreover have "j - 2 \<noteq> i + 2" using kinds(4) si(5) by auto
    moreover have "j - 2 \<noteq> i + 3" using sj(3) si(4) by auto
    ultimately have "i + 3 < j - 2" by simp
    then show ?thesis using order[of "i + 3" "j - 2"] that(2) by (simp add: read_of_def)
  qed
  have "sorted_wrt (\<lambda>i j. i < j \<and> j < length toks \<and> is_get_call_value toks i \<and> is_get_call_value toks j) ?gets"
    by (rule sorted_wrt_mono_rel[of _ "(<)"]) (auto intro: sorted_wrt_filter)
  then have "sorted_wrt (\<lambda>a b. dr_end a \<le> dr_start b) reads"
    unfolding reads sorted_wrt_map by (rule sorted_wrt_mono_rel[rotated]) (use apart in blast)
  moreover have "dr_start r + 4 < dr_end r \<and> dr_end r \<le> length source \<and>
       take 4 (drop (dr_start r) source) = ''node'' \<and> source ! (dr_end r - 1) = CHR '')'' \<and>
       dr_property r \<noteq> [] \<and> list_all is_identifier_continue (dr_property r)" if "r \<in> set reads" for r
  proof -
    obtain i where i: "i < length toks" "is_get_call_value toks i" "r = read_of toks i"
      using \<open>r \<in> set reads\<close> unfolding reads by auto
    note s = shape[OF i(1,2)]
    show ?thesis using exact_span[OF piece[of "i - 2"] piece[of "i + 3"] order[of "i - 2" "i + 3"] s(3,4)]
        s(1,2) names[OF i(1,2)] i(3) by (simp add: read_of_def)
  qed
  ultimately show ?thesis by blast
qed

lemma accepted_reads_are_exact_witness:
  "\<exists>reads. validate_expression ''node.get('x') + 1'' = Some None \<and>
     direct_property_reads ''node.get('x') + 1'' = Some (Inr reads) \<and> reads \<noteq> [] \<and>
     sorted_wrt (\<lambda>a b. dr_end a \<le> dr_start b) reads"
proof -
  have v: "validate_expression ''node.get('x') + 1'' = Some None" by code_simp
  have r: "direct_property_reads ''node.get('x') + 1'' = Some (Inr [\<lparr>dr_start = 0, dr_end = 13, dr_property = ''x''\<rparr>])"
    by code_simp
  show ?thesis using accepted_reads_are_exact[OF v r] v r by blast
qed

section \<open>Blanked lines\<close>

lemma string_body_suffix: "\<exists>pre. s = pre @ string_body quote s"
proof (induction "length s" arbitrary: s rule: less_induct)
  case less
  consider "s = []" | c where "s = [c]" | c d ds where "s = c # d # ds" by (metis neq_Nil_conv)
  then show ?case
  proof cases
    case 3
    obtain p q where "ds = p @ string_body quote ds" "d # ds = q @ string_body quote (d # ds)"
      using less[of ds] less[of "d # ds"] 3 by auto
    then have "c # d # ds = (c # d # p) @ string_body quote ds" "c # d # ds = (c # q) @ string_body quote (d # ds)"
      by simp_all
    moreover have "string_body quote s \<in> {s, string_body quote ds, string_body quote (d # ds)}"
      unfolding 3 string_body.simps(2)[of quote c "d # ds"] by simp
    ultimately show ?thesis unfolding 3 by (metis append_Nil insertE singletonD)
  qed (auto intro: exI[of _ "[]"])
qed

definition blanked :: "string \<Rightarrow> string \<Rightarrow> bool" where
  "blanked code l = (length code \<le> length l \<and> (\<forall>i < length code. code ! i = l ! i \<or> code ! i = CHR '' '') \<and>
     (\<forall>c \<in> {CHR ''#'', CHR 0x22, CHR 0x27}. c \<notin> set code))"

lemma blanked_spaces:
  assumes "blanked code (drop n l)" "n \<le> length l"
  shows "blanked (replicate n CHR '' '' @ code) l"
proof -
  have "(replicate n CHR '' '' @ code) ! i = l ! i \<or> (replicate n CHR '' '' @ code) ! i = CHR '' ''"
    if "i < n + length code" for i
  proof (cases "i < n")
    case False
    then have "code ! (i - n) = drop n l ! (i - n) \<or> code ! (i - n) = CHR '' ''"
      using assms(1) that by (auto simp: blanked_def)
    then show ?thesis using False assms(2) by (simp add: nth_append)
  qed (simp add: nth_append)
  then show ?thesis using assms by (auto simp: blanked_def)
qed

lemma blanked_keep: "c \<notin> {CHR ''#'', CHR 0x22, CHR 0x27} \<Longrightarrow> blanked code cs \<Longrightarrow> blanked (c # code) (c # cs)"
  by (auto simp: blanked_def nth_Cons split: nat.splits)

lemma blanked_three: "blanked code (drop 3 l) \<Longrightarrow> 3 \<le> length l \<Longrightarrow> blanked (''   '' @ code) l"
  using blanked_spaces[of code 3 l] by (simp add: numeral_3_eq_3)

lemma drop_to_suffix: "s = pre @ r \<Longrightarrow> drop (length s - length r) s = r"
  by simp

lemma code_of_line_blanked: "blanked (fst (code_of_line in_long l)) l"
proof (induction in_long l rule: code_of_line.induct)
  case (1 in_long)
  then show ?case by (simp add: blanked_def)
next
  case (2 q c cs)
  show ?case
  proof (cases "starts_with (c # cs) [q, q, q]")
    case True
    then have "3 \<le> length (c # cs)" by (auto simp: starts_with_def)
    then show ?thesis using True blanked_three[OF "2.IH"(1)[OF True]] by (auto split: prod.splits simp del: drop.simps)
  next
    case False
    have "blanked (replicate 1 CHR '' '' @ fst (code_of_line (Some q) cs)) (c # cs)"
      by (rule blanked_spaces) (use "2.IH"(2)[OF False] in simp_all)
    then show ?thesis using False by (auto split: prod.splits)
  qed
next
  case (3 c cs)
  consider (comment) "c = CHR ''#''" | (long) "c \<noteq> CHR ''#''" "c = CHR 0x22 \<or> c = CHR 0x27" "starts_with (c # cs) [c, c, c]"
    | (short) "c \<noteq> CHR ''#''" "c = CHR 0x22 \<or> c = CHR 0x27" "\<not> starts_with (c # cs) [c, c, c]"
    | (plain) "c \<noteq> CHR ''#''" "\<not> (c = CHR 0x22 \<or> c = CHR 0x27)"
    by blast
  then show ?case
  proof cases
    case comment
    then show ?thesis by (simp add: blanked_def)
  next
    case long
    then have "3 \<le> length (c # cs)" by (auto simp: starts_with_def)
    then show ?thesis using long blanked_three[OF "3.IH"(1)[OF long]] by (auto split: prod.splits simp del: drop.simps)
  next
    case short
    let ?rest = "string_body c cs"
    let ?n = "length (c # cs) - length ?rest"
    obtain pre where pre: "cs = pre @ ?rest" using string_body_suffix[of cs c] by blast
    then have rest: "drop ?n (c # cs) = ?rest" using drop_to_suffix[of "c # cs" "c # pre" ?rest] by simp
    note IH = "3.IH"(2)[OF short refl refl]
    show ?thesis
    proof (cases "?rest = []")
      case True
      have "blanked (replicate ?n CHR '' '' @ []) (c # cs)" by (rule blanked_spaces) (simp_all add: blanked_def)
      then show ?thesis using short True by (auto split: prod.splits)
    next
      case False
      have "length ?rest \<le> length cs" by (rule length_string_body)
      moreover have "0 < length ?rest" using False by simp
      ultimately have n: "?n + 1 \<le> length (c # cs)" by (simp only: list.size)
      have "drop (?n + 1) (c # cs) = drop 1 (drop ?n (c # cs))" by (simp only: drop_drop add.commute)
      also have "\<dots> = drop 1 ?rest" by (simp only: rest)
      finally have "blanked (replicate (?n + 1) CHR '' '' @ fst (code_of_line None (drop 1 ?rest))) (c # cs)"
        using blanked_spaces[OF _ n] IH by metis
      moreover have "fst (code_of_line None (c # cs)) =
          replicate (?n + 1) CHR '' '' @ fst (code_of_line None (drop 1 ?rest))"
        using short False by (auto simp: Let_def replicate_append_same split: prod.splits)
      ultimately show ?thesis by (simp only:)
    qed
  next
    case plain
    have "c \<notin> {CHR ''#'', CHR 0x22, CHR 0x27}" using plain by blast
    then have "blanked (c # fst (code_of_line None cs)) (c # cs)" using "3.IH"(3)[OF plain] by (rule blanked_keep)
    moreover have "fst (code_of_line None (c # cs)) = c # fst (code_of_line None cs)"
      using plain by (simp split: prod.splits)
    ultimately show ?thesis by (simp only:)
  qed
qed

text \<open>
  What the reading of declarations sees of a source: every blanked line is no longer than
  its line and holds, at each place, the line's byte or a space; it never holds a comment sign,
  and no quote survives.
\<close>

theorem blanked_lines_hide_strings:
  "length (fst (code_of_line in_long l)) \<le> length l \<and>
   (\<forall>i < length (fst (code_of_line in_long l)).
      fst (code_of_line in_long l) ! i = l ! i \<or> fst (code_of_line in_long l) ! i = CHR '' '') \<and>
   (\<forall>c \<in> {CHR ''#'', CHR 0x22, CHR 0x27}. c \<notin> set (fst (code_of_line in_long l)))"
  by (rule blanked_def[THEN iffD1, OF code_of_line_blanked])

lemma blanked_lines_hide_strings_witness:
  "fst (code_of_line None ''x=#'') = ''x='' \<and> (\<forall>c \<in> {CHR ''#'', CHR 0x22, CHR 0x27}. c \<notin> set (fst (code_of_line None ''x=#'')))"
proof
  show "fst (code_of_line None ''x=#'') = ''x=''" by code_simp
  show "\<forall>c \<in> {CHR ''#'', CHR 0x22, CHR 0x27}. c \<notin> set (fst (code_of_line None ''x=#''))"
    using blanked_lines_hide_strings[of None "''x=#''"] by blast
qed

end
