(* ===== verification/Session_Descriptor.thy ===== *)
theory Session_Descriptor
  imports Error_Data
begin

text \<open>
  The descriptor a Godot session publishes for servers to find it by:
  \<open>SessionDescriptor\<close> of \<open>include/didi/runtime/session_client.hpp\<close>, its JSON form and the
  checks of \<open>src/runtime/session_client.cpp\<close>. Whether an endpoint belongs to a session consults
  the file system outside Windows; there it is the argument \<open>valid_endpoint\<close>, with the Windows
  rule written out.
\<close>

section \<open>The descriptor\<close>

record session_descriptor =
  sd_schema_version :: int
  sd_session_id :: string
  sd_token :: string
  sd_pid :: nat
  sd_kind :: string
  sd_project_path :: string
  sd_endpoint :: string
  sd_started_at_ms :: int
  sd_protocol_version :: string
  sd_build_id :: string
  sd_engine_version :: string

definition descriptor_entries :: "session_descriptor \<Rightarrow> bool \<Rightarrow> (string \<times> json) list" where
  "descriptor_entries d include_token =
     [(''schema_version'', JInt (sd_schema_version d)), (''session_id'', JStr (sd_session_id d)),
      (''pid'', JUInt (sd_pid d)), (''kind'', JStr (sd_kind d)),
      (''project_path'', JStr (sd_project_path d)), (''endpoint'', JStr (sd_endpoint d)),
      (''started_at_ms'', JInt (sd_started_at_ms d)),
      (''protocol_version'', JStr (sd_protocol_version d))] @
     (if sd_build_id d \<noteq> [] then [(''build_id'', JStr (sd_build_id d))] else []) @
     (if sd_engine_version d \<noteq> [] then [(''engine_version'', JStr (sd_engine_version d))] else []) @
     (if include_token then [(''token'', JStr (sd_token d))] else [])"

definition descriptor_to_json :: "session_descriptor \<Rightarrow> bool \<Rightarrow> json" where
  "descriptor_to_json d include_token = jobj (descriptor_entries d include_token)"

definition to_provenance_json :: "session_descriptor \<Rightarrow> json" where
  "to_provenance_json d = jdel ''endpoint'' (descriptor_to_json d False)"

section \<open>The checks\<close>

definition is_lower_hex_byte :: "char \<Rightarrow> bool" where
  "is_lower_hex_byte c = (is_digit c \<or> (97 \<le> byte c \<and> byte c \<le> 102))"

definition is_lower_hex :: "string \<Rightarrow> nat \<Rightarrow> bool" where
  "is_lower_hex s n = (length s = n \<and> list_all is_lower_hex_byte s)"

definition required_fields :: "string list" where
  "required_fields = [''schema_version'', ''session_id'', ''token'', ''pid'', ''kind'', ''project_path'',
     ''endpoint'', ''started_at_ms'', ''protocol_version'']"

definition optional_fields :: "string list" where
  "optional_fields = [''build_id'', ''engine_version'']"

definition has_only_descriptor_fields :: "json \<Rightarrow> bool" where
  "has_only_descriptor_fields v =
     (list_all (\<lambda>k. k \<in> set required_fields \<or> k \<in> set optional_fields) (keys (members v)) \<and>
      list_all (contains v) required_fields)"

definition valid_build_id :: "string \<Rightarrow> bool" where
  "valid_build_id s =
     (s \<noteq> [] \<and> length s \<le> 128 \<and> list_all (\<lambda>c. is_alnum c \<or> c \<in> set ''.+-_'') s)"

definition valid_engine_version :: "string \<Rightarrow> bool" where
  "valid_engine_version s =
     (s \<noteq> [] \<and> length s \<le> 128 \<and> list_all (\<lambda>c. is_alnum c \<or> c \<in> set ''.+-_ '') s)"

text \<open>The endpoint rule on Windows, for the key the project path hashes to.\<close>

definition pipe_prefix :: string where
  "pipe_prefix = [CHR 0x5C, CHR 0x5C, CHR ''.'', CHR 0x5C] @ ''pipe'' @ [CHR 0x5C]"

definition valid_pipe :: "(string \<Rightarrow> string) \<Rightarrow> string \<Rightarrow> nat \<Rightarrow> string \<Rightarrow> string \<Rightarrow> bool" where
  "valid_pipe endpoint_key endpoint pid session_id project_path =
     (if endpoint = [] \<or> (\<exists>c \<in> set endpoint. c = CHR 0x0D \<or> c = CHR 0x0A) then False
      else endpoint = pipe_prefix @ ''godot_didi_'' @ dec pid @ ''_'' @ session_id \<or>
           endpoint = pipe_prefix @ ''godot_didi_'' @ endpoint_key project_path @ ''_'' @ dec pid @ ''_'' @ session_id)"

text \<open>Reading members that are known to be there: \<open>at(key)\<close> followed by a type test or a get.\<close>

definition string_at :: "json \<Rightarrow> string \<Rightarrow> string option" where
  "string_at v k = (case jget v k of Some (JStr s) \<Rightarrow> Some s | _ \<Rightarrow> None)"

fun integer_value :: "json \<Rightarrow> int option" where
  "integer_value (JInt i) = Some i"
| "integer_value (JUInt n) = Some (to_int64 n)"
| "integer_value v = None"

definition integer_at :: "json \<Rightarrow> string \<Rightarrow> int option" where
  "integer_at v k = Option.bind (jget v k) integer_value"

fun unsigned_value :: "json \<Rightarrow> nat option" where
  "unsigned_value (JUInt n) = Some n"
| "unsigned_value v = None"

definition unsigned_at :: "json \<Rightarrow> string \<Rightarrow> nat option" where
  "unsigned_at v k = Option.bind (jget v k) unsigned_value"

definition optional_ok :: "json \<Rightarrow> string \<Rightarrow> (string \<Rightarrow> bool) \<Rightarrow> bool" where
  "optional_ok v k valid =
     (case jget v k of None \<Rightarrow> True | Some x \<Rightarrow> (case string_at v k of None \<Rightarrow> False | Some s \<Rightarrow> valid s))"

definition descriptor_from_json ::
  "(string \<Rightarrow> nat \<Rightarrow> string \<Rightarrow> string \<Rightarrow> bool) \<Rightarrow> json \<Rightarrow> (refusal, session_descriptor) result" where
  "descriptor_from_json valid_endpoint v =
     (if \<not> is_object v \<or> \<not> has_only_descriptor_fields v then
        Inl (invalid_argument ''Invalid session descriptor fields'')
      else case (integer_at v ''schema_version'', string_at v ''session_id'', string_at v ''token'',
                 unsigned_at v ''pid'', string_at v ''kind'') of
        (Some schema, Some session_id, Some token, Some pid, Some kind) \<Rightarrow>
          (case (string_at v ''project_path'', string_at v ''endpoint'', integer_at v ''started_at_ms'',
                 string_at v ''protocol_version'') of
             (Some project_path, Some endpoint, Some started, Some protocol) \<Rightarrow>
               if to_int32 schema \<noteq> 1 \<or> \<not> is_lower_hex session_id 32 \<or> \<not> is_lower_hex token 64 \<or>
                  pid = 0 \<or> (kind \<noteq> ''editor'' \<and> kind \<noteq> ''game'') \<or> project_path = [] \<or>
                  \<not> valid_endpoint endpoint pid session_id project_path \<or> started \<le> 0 \<or>
                  protocol \<noteq> ''1.3'' \<or>
                  \<not> optional_ok v ''build_id'' valid_build_id \<or>
                  \<not> optional_ok v ''engine_version'' valid_engine_version
               then Inl (invalid_argument ''Invalid session descriptor values'')
               else Inr \<lparr>sd_schema_version = to_int32 schema, sd_session_id = session_id, sd_token = token,
                      sd_pid = pid, sd_kind = kind, sd_project_path = project_path, sd_endpoint = endpoint,
                      sd_started_at_ms = started, sd_protocol_version = protocol,
                      sd_build_id = string_or_empty (jget v ''build_id''),
                      sd_engine_version = string_or_empty (jget v ''engine_version'')\<rparr>
           | _ \<Rightarrow> Inl (invalid_argument ''Invalid session descriptor values''))
      | _ \<Rightarrow> Inl (invalid_argument ''Invalid session descriptor values''))"

section \<open>Tombstones\<close>

definition tombstone_marker :: string where
  "tombstone_marker = ''.json.didi-retired-''"

text \<open>
  The session a retired descriptor's name claims. The search for the marker finds it at 32
  exactly when it stands there and nowhere before.
\<close>

fun find_at :: "string \<Rightarrow> string \<Rightarrow> nat option" where
  "find_at needle [] = (if needle = [] then Some 0 else None)"
| "find_at needle (c # cs) =
     (if starts_with (c # cs) needle then Some 0 else map_option Suc (find_at needle cs))"

definition tombstone_session_id :: "string \<Rightarrow> string option" where
  "tombstone_session_id name =
     (if find_at tombstone_marker name \<noteq> Some 32 then None
      else
        let named_id = take 32 name; suffix = drop (32 + length tombstone_marker) name
        in if \<not> is_lower_hex named_id 32 then None
           else if length suffix \<noteq> 32 + 1 + 32 then None
           else if take 32 suffix \<noteq> named_id \<or> suffix ! 32 \<noteq> CHR ''-'' then None
           else if \<not> is_lower_hex (drop 33 suffix) 32 then None
           else Some named_id)"

definition tombstone_name :: "string \<Rightarrow> string \<Rightarrow> string" where
  "tombstone_name session_id nonce = session_id @ tombstone_marker @ session_id @ ''-'' @ nonce"

section \<open>What the JSON form keeps\<close>

text \<open>A descriptor whose fields pass the checks of \<open>fromJson\<close>.\<close>

definition descriptor_ok ::
  "(string \<Rightarrow> nat \<Rightarrow> string \<Rightarrow> string \<Rightarrow> bool) \<Rightarrow> session_descriptor \<Rightarrow> bool" where
  "descriptor_ok valid_endpoint d =
     (sd_schema_version d = 1 \<and> is_lower_hex (sd_session_id d) 32 \<and> is_lower_hex (sd_token d) 64 \<and>
      sd_pid d \<noteq> 0 \<and> sd_kind d \<in> {''editor'', ''game''} \<and> sd_project_path d \<noteq> [] \<and>
      valid_endpoint (sd_endpoint d) (sd_pid d) (sd_session_id d) (sd_project_path d) \<and>
      0 < sd_started_at_ms d \<and> sd_protocol_version d = ''1.3'' \<and>
      (sd_build_id d = [] \<or> valid_build_id (sd_build_id d)) \<and>
      (sd_engine_version d = [] \<or> valid_engine_version (sd_engine_version d)))"

lemma keys_fold_put:
  "fst ` set (fold (\<lambda>(k, v). kv_put k v) es m) = fst ` set es \<union> fst ` set (m :: (string \<times> json) list)"
proof (induction es arbitrary: m)
  case (Cons e es)
  have "fst ` set (kv_put (fst e) (snd e) m) = insert (fst e) (fst ` set m)"
    using keys_kv_put[of "fst e" "snd e" m] by simp
  then show ?case using Cons by (cases e) simp
qed simp

lemma keys_jobj: "set (keys (members (jobj es))) = fst ` set es"
  by (simp add: jobj_def keys_fold_put)

lemma jget_descriptor:
  "jget (descriptor_to_json d include_token) k =
     (if k = ''schema_version'' then Some (JInt (sd_schema_version d))
      else if k = ''session_id'' then Some (JStr (sd_session_id d))
      else if k = ''pid'' then Some (JUInt (sd_pid d))
      else if k = ''kind'' then Some (JStr (sd_kind d))
      else if k = ''project_path'' then Some (JStr (sd_project_path d))
      else if k = ''endpoint'' then Some (JStr (sd_endpoint d))
      else if k = ''started_at_ms'' then Some (JInt (sd_started_at_ms d))
      else if k = ''protocol_version'' then Some (JStr (sd_protocol_version d))
      else if k = ''build_id'' \<and> sd_build_id d \<noteq> [] then Some (JStr (sd_build_id d))
      else if k = ''engine_version'' \<and> sd_engine_version d \<noteq> [] then Some (JStr (sd_engine_version d))
      else if k = ''token'' \<and> include_token then Some (JStr (sd_token d))
      else None)"
  by (simp add: descriptor_to_json_def jget_jobj descriptor_entries_def)

lemma is_object_descriptor [simp]: "is_object (descriptor_to_json d t)"
  by (simp add: descriptor_to_json_def)

lemma descriptor_fields: "has_only_descriptor_fields (descriptor_to_json d True)"
proof -
  have "list_all (contains (descriptor_to_json d True)) required_fields"
    by (simp add: contains_def required_fields_def jget_descriptor)
  moreover have "fst ` set (descriptor_entries d True) \<subseteq> set required_fields \<union> set optional_fields"
    by (auto simp: descriptor_entries_def required_fields_def optional_fields_def)
  ultimately show ?thesis
    unfolding has_only_descriptor_fields_def list_all_iff descriptor_to_json_def keys_jobj by blast
qed

text \<open>
  (C27) A published descriptor is read back whole: the JSON form with its token is accepted by
  every server exactly when its fields pass the checks, and then gives the descriptor itself.
\<close>

theorem descriptor_round_trip:
  "descriptor_from_json valid_endpoint (descriptor_to_json d True) =
     (if descriptor_ok valid_endpoint (d\<lparr>sd_schema_version := to_int32 (sd_schema_version d)\<rparr>)
      then Inr (d\<lparr>sd_schema_version := to_int32 (sd_schema_version d)\<rparr>)
      else Inl (invalid_argument ''Invalid session descriptor values''))"
proof -
  have parts: "integer_at (descriptor_to_json d True) ''schema_version'' = Some (sd_schema_version d)"
    "string_at (descriptor_to_json d True) ''session_id'' = Some (sd_session_id d)"
    "string_at (descriptor_to_json d True) ''token'' = Some (sd_token d)"
    "unsigned_at (descriptor_to_json d True) ''pid'' = Some (sd_pid d)"
    "string_at (descriptor_to_json d True) ''kind'' = Some (sd_kind d)"
    "string_at (descriptor_to_json d True) ''project_path'' = Some (sd_project_path d)"
    "string_at (descriptor_to_json d True) ''endpoint'' = Some (sd_endpoint d)"
    "integer_at (descriptor_to_json d True) ''started_at_ms'' = Some (sd_started_at_ms d)"
    "string_at (descriptor_to_json d True) ''protocol_version'' = Some (sd_protocol_version d)"
    by (simp_all add: integer_at_def string_at_def unsigned_at_def jget_descriptor)
  have builds: "optional_ok (descriptor_to_json d True) ''build_id'' P \<longleftrightarrow> sd_build_id d = [] \<or> P (sd_build_id d)"
      "optional_ok (descriptor_to_json d True) ''engine_version'' P \<longleftrightarrow> sd_engine_version d = [] \<or> P (sd_engine_version d)" for P
    by (simp_all add: optional_ok_def string_at_def jget_descriptor)
  have texts: "string_or_empty (jget (descriptor_to_json d True) ''build_id'') = sd_build_id d"
      "string_or_empty (jget (descriptor_to_json d True) ''engine_version'') = sd_engine_version d"
    by (simp_all add: jget_descriptor string_or_empty_def)
  have same: "\<lparr>sd_schema_version = to_int32 (sd_schema_version d), sd_session_id = sd_session_id d,
      sd_token = sd_token d, sd_pid = sd_pid d, sd_kind = sd_kind d, sd_project_path = sd_project_path d,
      sd_endpoint = sd_endpoint d, sd_started_at_ms = sd_started_at_ms d,
      sd_protocol_version = sd_protocol_version d, sd_build_id = sd_build_id d,
      sd_engine_version = sd_engine_version d\<rparr> = d\<lparr>sd_schema_version := to_int32 (sd_schema_version d)\<rparr>"
    by (cases d) simp
  show ?thesis
    unfolding descriptor_from_json_def using descriptor_fields[of d]
    by (auto simp: parts builds texts same descriptor_ok_def)
qed

text \<open>
  The version of the schema is read as a 32-bit integer, so a version that is 1 only in its low
  half is taken for 1.
\<close>

lemma schema_version_is_cut: "to_int32 (2 ^ 32 + 1) = 1"
  by (simp add: to_int32_def)

lemma jget_provenance: "jget (to_provenance_json d) k = (if k = ''endpoint'' then None else jget (descriptor_to_json d False) k)"
  by (simp add: to_provenance_json_def jget_jdel)

text \<open>
  What an error says of a session never says how to reach it: the provenance form has
  neither the endpoint nor the token, and otherwise every field of the public form.
\<close>

theorem provenance_withholds_the_route:
  "jget (to_provenance_json d) ''endpoint'' = None \<and> jget (to_provenance_json d) ''token'' = None \<and>
   (\<forall>k. k \<noteq> ''endpoint'' \<longrightarrow> jget (to_provenance_json d) k = jget (descriptor_to_json d False) k) \<and>
   jget (descriptor_to_json d False) ''session_id'' = Some (JStr (sd_session_id d))"
  by (simp add: jget_provenance jget_descriptor)

lemma provenance_withholds_the_route_witness:
  "\<exists>d k. k \<noteq> ''endpoint'' \<and> jget (to_provenance_json d) k = Some (JStr ''game'')"
proof -
  let ?d = "\<lparr>sd_schema_version = 1, sd_session_id = ''a'', sd_token = ''b'', sd_pid = 7, sd_kind = ''game'',
     sd_project_path = ''p'', sd_endpoint = ''e'', sd_started_at_ms = 1, sd_protocol_version = ''1.3'',
     sd_build_id = [], sd_engine_version = []\<rparr>"
  have "jget (to_provenance_json ?d) ''kind'' = jget (descriptor_to_json ?d False) ''kind''"
    using provenance_withholds_the_route[of ?d] by simp
  then have "jget (to_provenance_json ?d) ''kind'' = Some (JStr ''game'')" by (simp add: jget_descriptor)
  then show ?thesis by (intro exI[of _ ?d] exI[of _ "''kind''"]) simp
qed

text \<open>A name that was made for a tombstone is read back, and nothing else passes for one.\<close>

lemma find_at_append:
  "find_at needle (pre @ needle @ rest) = Some (length pre)"
  if "\<And>i. i < length pre \<Longrightarrow> \<not> starts_with (drop i (pre @ needle @ rest)) needle"
  using that
proof (induction pre)
  case Nil
  have "starts_with (needle @ rest) needle" by (auto simp: starts_with_append)
  then show ?case by (cases "needle @ rest") auto
next
  case (Cons c pre)
  have "\<not> starts_with (c # pre @ needle @ rest) needle" using Cons.prems[of 0] by simp
  moreover have "\<not> starts_with (drop i (pre @ needle @ rest)) needle" if "i < length pre" for i
    using Cons.prems[of "Suc i"] that by simp
  ultimately show ?case using Cons.IH by simp
qed

lemma lower_hex_is_no_point: "is_lower_hex_byte c \<Longrightarrow> c \<noteq> CHR ''.''"
  by (auto simp: is_lower_hex_byte_def is_digit_def)

lemma tombstone_round_trip:
  assumes id: "is_lower_hex sid 32" and nonce: "is_lower_hex nonce 32"
  shows "tombstone_session_id (tombstone_name sid nonce) = Some sid"
proof -
  let ?rest = "sid @ ''-'' @ nonce"
  have len: "length sid = 32" "length nonce = 32" "list_all is_lower_hex_byte sid"
    using id nonce by (simp_all add: is_lower_hex_def)
  have "\<not> starts_with (drop i (sid @ tombstone_marker @ ?rest)) tombstone_marker" if "i < length sid" for i
  proof
    assume "starts_with (drop i (sid @ tombstone_marker @ ?rest)) tombstone_marker"
    then have "hd (drop i (sid @ tombstone_marker @ ?rest)) = CHR ''.''"
      by (auto simp: starts_with_append tombstone_marker_def)
    then have "sid ! i = CHR ''.''" using that by (simp add: hd_drop_conv_nth nth_append)
    then show False using lower_hex_is_no_point len(3) that by (auto simp: list_all_length)
  qed
  then have "find_at tombstone_marker (tombstone_name sid nonce) = Some 32"
    using find_at_append[of sid tombstone_marker ?rest] len by (simp add: tombstone_name_def)
  then show ?thesis
    using len id nonce by (simp add: tombstone_session_id_def tombstone_name_def tombstone_marker_def nth_append)
qed

end
