(* ===== verification/Route_Failures.thy ===== *)
theory Route_Failures
  imports Session_Descriptor
begin

text \<open>
  What a lost route says. The transport states of \<open>include/didi/common/ipc_channel.hpp\<close> and,
  from \<open>src/runtime/session_client.cpp\<close>, the reading of a crash report, the classification of
  an incident, the memory of requested stops and of the last obstruction, and the one function
  every live route passes a failure through. What the operating system answers about a process,
  the crash files and the clock are the fields of \<open>world\<close>.
\<close>

section \<open>Transport failures\<close>

record transport_state =
  ts_request_started :: bool
  ts_outcome_unknown :: bool
  ts_timed_out :: bool
  ts_reason :: string
  ts_waited_ms :: int

definition transport_members :: "transport_state \<Rightarrow> json" where
  "transport_members s =
     jobj ([(''request_started'', JBool (ts_request_started s)),
            (''outcome_unknown'', JBool (ts_outcome_unknown s)), (''timed_out'', JBool (ts_timed_out s))] @
           (if ts_reason s \<noteq> [] then [(''reason'', JStr (ts_reason s))] else []) @
           (if 0 \<le> ts_waited_ms s then [(''waited_ms'', JInt (ts_waited_ms s))] else []))"

definition settled_outcome :: "transport_state \<Rightarrow> transport_state" where
  "settled_outcome s = (if \<not> ts_request_started s then s\<lparr>ts_outcome_unknown := False\<rparr> else s)"

definition transport_failure :: "string \<Rightarrow> transport_state \<Rightarrow> refusal" where
  "transport_failure message s =
     \<lparr>err_code = (if ts_timed_out s then 504 else 502), err_message = message,
      err_data = jobj [(''transport'', transport_members (settled_outcome s))]\<rparr>"

definition mark_transport_repeated :: "refusal \<Rightarrow> bool \<Rightarrow> refusal" where
  "mark_transport_repeated e repeated =
     (if \<not> repeated \<or> \<not> is_object (err_data e) then e
      else case jget (err_data e) ''transport'' of
             None \<Rightarrow> e
           | Some t \<Rightarrow>
               if \<not> is_object t then e
               else e\<lparr>err_data := jput ''transport'' (jput ''repeated'' (JBool True) t) (err_data e)\<rparr>)"

fun boolean_value :: "json \<Rightarrow> bool option" where
  "boolean_value (JBool b) = Some b"
| "boolean_value v = None"

definition boolean_at :: "json \<Rightarrow> string \<Rightarrow> bool option" where
  "boolean_at v k = Option.bind (jget v k) boolean_value"

definition transport_failure_state :: "refusal \<Rightarrow> transport_state option" where
  "transport_failure_state e =
     (case jget (err_data e) ''transport'' of
        None \<Rightarrow> None
      | Some t \<Rightarrow>
          if \<not> is_object t then None
          else case (boolean_at t ''request_started'', boolean_at t ''outcome_unknown'', boolean_at t ''timed_out'') of
                 (Some started, Some unknown, Some timed_out) \<Rightarrow>
                   Some \<lparr>ts_request_started = started, ts_outcome_unknown = unknown, ts_timed_out = timed_out,
                         ts_reason = string_or_empty (jget t ''reason''),
                         ts_waited_ms = (case integer_at t ''waited_ms'' of None \<Rightarrow> -1 | Some i \<Rightarrow> to_int32 i)\<rparr>
               | _ \<Rightarrow> None)"

section \<open>The process and its crash report\<close>

datatype process_instance_state = Alive | Proven_Stale | Unverifiable

definition process_instance_state_name :: "process_instance_state \<Rightarrow> string" where
  "process_instance_state_name s =
     (case s of Alive \<Rightarrow> ''alive'' | Proven_Stale \<Rightarrow> ''gone'' | Unverifiable \<Rightarrow> ''unknown'')"

record process_report =
  pr_state :: process_instance_state
  pr_reason :: string
  pr_os_error :: nat

record crash_report =
  cr_found :: bool
  cr_in_extension :: bool
  cr_on_main_thread :: bool
  cr_exception :: string
  cr_path :: string

definition no_crash :: crash_report where
  "no_crash = \<lparr>cr_found = False, cr_in_extension = False, cr_on_main_thread = False,
     cr_exception = [], cr_path = []\<rparr>"

definition value_after :: "string \<Rightarrow> string \<Rightarrow> string" where
  "value_after s key =
     (case find_at key s of
        None \<Rightarrow> []
      | Some i \<Rightarrow>
          rev (dropWhile (\<lambda>c. c = CHR '' '' \<or> c = CHR 0x09)
            (rev (takeWhile (\<lambda>c. c \<noteq> CHR 0x0D \<and> c \<noteq> CHR 0x0A) (drop (i + length key) s)))))"

definition names_extension :: "string \<Rightarrow> bool" where
  "names_extension s =
     (case (find_at (CHR 0x0A # ''stack:'') s, find_at (CHR 0x0A # ''loaded modules:'') s) of
        (Some stack, Some modules) \<Rightarrow>
          stack < modules \<and> has_infix ''didi_extension'' (take (modules - stack) (drop stack s))
      | _ \<Rightarrow> False)"

text \<open>The candidates in order, with what the file holds when it is a readable regular file.\<close>

fun first_crash_report :: "(string \<times> string option) list \<Rightarrow> crash_report" where
  "first_crash_report [] = no_crash"
| "first_crash_report ((path, content) # others) =
     (case content of
        None \<Rightarrow> first_crash_report others
      | Some s \<Rightarrow>
          if \<not> has_infix ''DIDI CRASH CAPTURE'' s then first_crash_report others
          else \<lparr>cr_found = True, cr_in_extension = names_extension s,
                cr_on_main_thread = (value_after s ''on main thread: '' = ''yes''),
                cr_exception = value_after s ''exception: '', cr_path = path\<rparr>)"

definition find_engine_crash_report :: "(string \<Rightarrow> nat \<Rightarrow> (string \<times> string option) list) \<Rightarrow> string \<Rightarrow> nat \<Rightarrow> crash_report" where
  "find_engine_crash_report candidates project_path pid =
     (if pid = 0 then no_crash else first_crash_report (candidates project_path pid))"

section \<open>Incidents\<close>

datatype incident_kind = No_Incident | Crashed | Unreachable | Hung | Session_Lost | Stopped

definition engine_incident_kind_name :: "incident_kind \<Rightarrow> string" where
  "engine_incident_kind_name k =
     (case k of
        Crashed \<Rightarrow> ''engine_crashed''
      | Unreachable \<Rightarrow> ''engine_unreachable''
      | Hung \<Rightarrow> ''engine_hung''
      | Session_Lost \<Rightarrow> ''session_lost''
      | Stopped \<Rightarrow> ''game_stopped''
      | No_Incident \<Rightarrow> ''none'')"

definition k_what_still_works :: string where
  "k_what_still_works = '' Call runtime_get_session for the tools that still work without an engine.''"

record incident =
  in_kind :: incident_kind
  in_cause :: string
  in_recovery :: string

definition classify_engine_incident :: "process_instance_state \<Rightarrow> crash_report \<Rightarrow> bool \<Rightarrow> incident" where
  "classify_engine_incident state crash transport_failed =
     (case state of
        Proven_Stale \<Rightarrow>
          if cr_found crash \<and> cr_in_extension crash then
            \<lparr>in_kind = Crashed,
             in_cause = ''The engine died with a Didi frame on the faulting stack: '' @ cr_exception crash,
             in_recovery = ''This is a fault in the extension, not the engine. Keep '' @ cr_path crash @
               '' and report it.'' @ k_what_still_works\<rparr>
          else if cr_found crash then
            \<lparr>in_kind = Crashed, in_cause = ''The engine died in its own code: '' @ cr_exception crash,
             in_recovery = ''Ask the user to restart the Godot editor, then call '' @
               ''runtime_attach_session. The report is at '' @ cr_path crash @ ''.'' @ k_what_still_works\<rparr>
          else
            \<lparr>in_kind = Crashed, in_cause = ''The engine process is gone and left no crash report.'',
             in_recovery = ''Ask the user to restart the Godot editor, then call runtime_attach_session.'' @
               k_what_still_works\<rparr>
      | Unverifiable \<Rightarrow>
          \<lparr>in_kind = Unreachable, in_cause = ''The engine process cannot be verified.'',
           in_recovery = ''Call runtime_list_sessions to see what is live. If nothing is, '' @
             ''ask the user to restart the Godot editor.'' @ k_what_still_works\<rparr>
      | Alive \<Rightarrow>
          if \<not> transport_failed then \<lparr>in_kind = No_Incident, in_cause = [], in_recovery = []\<rparr>
          else
            \<lparr>in_kind = Hung, in_cause = ''The engine is running but did not answer within the deadline.'',
             in_recovery = ''Do not repeat a mutation whose outcome is unknown. Call '' @
               ''runtime_get_session to check the engine, and retry reads only.'' @ k_what_still_works\<rparr>)"

section \<open>What the server remembers\<close>

record obstruction =
  ob_kind :: string
  ob_cause :: string
  ob_recovery :: string
  ob_pid :: nat
  ob_session_id :: string
  ob_at_ms :: int

record requested_stop =
  rq_pid :: nat
  rq_session_id :: string
  rq_exit_code :: int
  rq_at_ms :: int

record route_memory =
  rm_obstruction :: "obstruction option"
  rm_stops :: "requested_stop list"
  rm_reported_pids :: "nat list"

record world =
  w_process :: "nat \<Rightarrow> int \<Rightarrow> process_report"
  w_candidates :: "string \<Rightarrow> nat \<Rightarrow> (string \<times> string option) list"
  w_now :: int

definition obstruction_to_json :: "obstruction \<Rightarrow> json" where
  "obstruction_to_json b =
     jobj ([(''kind'', JStr (ob_kind b)), (''at_ms'', JInt (ob_at_ms b))] @
           (if ob_cause b \<noteq> [] then [(''cause'', JStr (ob_cause b))] else []) @
           (if ob_recovery b \<noteq> [] then [(''recovery'', JStr (ob_recovery b))] else []) @
           (if ob_pid b \<noteq> 0 then [(''pid'', JUInt (ob_pid b))] else []) @
           (if ob_session_id b \<noteq> [] then [(''session_id'', JStr (ob_session_id b))] else []))"

definition record_route_obstruction :: "world \<Rightarrow> obstruction \<Rightarrow> route_memory \<Rightarrow> route_memory" where
  "record_route_obstruction w b m =
     m\<lparr>rm_obstruction := Some (if ob_at_ms b = 0 then b\<lparr>ob_at_ms := w_now w\<rparr> else b)\<rparr>"

definition clear_route_obstruction :: "route_memory \<Rightarrow> route_memory" where
  "clear_route_obstruction m = m\<lparr>rm_obstruction := None\<rparr>"

definition record_requested_stop :: "world \<Rightarrow> requested_stop \<Rightarrow> route_memory \<Rightarrow> route_memory" where
  "record_requested_stop w s m =
     (let stamped = (if rq_at_ms s = 0 then s\<lparr>rq_at_ms := w_now w\<rparr> else s);
          others = filter (\<lambda>known. rq_session_id known \<noteq> rq_session_id s) (rm_stops m)
      in m\<lparr>rm_stops := (if length others \<ge> 16 then tl others else others) @ [stamped]\<rparr>)"

definition requested_stop_for :: "route_memory \<Rightarrow> nat \<Rightarrow> string \<Rightarrow> requested_stop option" where
  "requested_stop_for m pid session_id =
     find (\<lambda>s. rq_session_id s = session_id \<and> rq_pid s = pid) (rm_stops m)"

text \<open>The set of crashes already logged: whether this one is written to the log.\<close>

definition report_crash_once :: "nat \<Rightarrow> incident \<Rightarrow> route_memory \<Rightarrow> bool \<times> route_memory" where
  "report_crash_once pid i m =
     (if in_kind i \<noteq> Crashed then (False, m)
      else if pid \<in> set (rm_reported_pids m) then (False, m)
      else (True, m\<lparr>rm_reported_pids := pid # rm_reported_pids m\<rparr>))"

section \<open>Annotations\<close>

definition as_object :: "json \<Rightarrow> json" where
  "as_object v = (if is_object v then v else JObj [])"

definition put_data :: "string \<Rightarrow> json \<Rightarrow> refusal \<Rightarrow> refusal" where
  "put_data k v e = e\<lparr>err_data := jput k v (err_data e)\<rparr>"

definition with_object_data :: "refusal \<Rightarrow> refusal" where
  "with_object_data e = e\<lparr>err_data := as_object (err_data e)\<rparr>"

definition annotate_route_obstruction :: "route_memory \<Rightarrow> refusal \<Rightarrow> refusal" where
  "annotate_route_obstruction m e =
     (case rm_obstruction m of
        None \<Rightarrow> e
      | Some b \<Rightarrow>
          let e1 = with_object_data e
          in if contains (err_data e1) ''incident'' then e1
             else
               let e2 = put_data ''route_obstruction'' (obstruction_to_json b) e1;
                   e3 = (if ob_kind b = ''bridge_held''
                         then put_data ''bridge_held_by_another_client'' (JBool True) e2 else e2)
               in if ob_kind b = ''game_stopped'' then put_data ''retryable'' (JBool False) e3 else e3)"

definition stop_cause :: "bool \<Rightarrow> int \<Rightarrow> string" where
  "stop_cause gone exit_code =
     ''runtime_stop asked the game to exit with code '' @ dec_int exit_code @
     (if gone then '', and it did.'' else ''; the process is still shutting down.'')"

definition stop_recovery :: string where
  "stop_recovery =
     ''The game is gone because this caller asked. Launch it again, or call '' @
     ''runtime_list_sessions and attach the editor with runtime_attach_session.'' @ k_what_still_works"

definition stop_entries :: "bool \<Rightarrow> int \<Rightarrow> (string \<times> json) list" where
  "stop_entries gone exit_code =
     [(''incident'', JStr (engine_incident_kind_name Stopped)), (''cause'', JStr (stop_cause gone exit_code)),
      (''recovery'', JStr stop_recovery), (''exit_code'', JInt exit_code),
      (''requested_by'', JStr ''runtime_stop''), (''retryable'', JBool False)]"

definition put_all :: "(string \<times> json) list \<Rightarrow> refusal \<Rightarrow> refusal" where
  "put_all es e = e\<lparr>err_data := fold (\<lambda>(k, v). jput k v) es (err_data e)\<rparr>"

definition annotate_requested_stop ::
  "world \<Rightarrow> session_descriptor option \<Rightarrow> route_memory \<Rightarrow> refusal \<Rightarrow> bool \<times> route_memory \<times> refusal" where
  "annotate_requested_stop w session m e =
     (case session of
        None \<Rightarrow> (False, m, e)
      | Some d \<Rightarrow>
          case requested_stop_for m (sd_pid d) (sd_session_id d) of
            None \<Rightarrow> (False, m, e)
          | Some stop \<Rightarrow>
              let gone = (pr_state (w_process w (sd_pid d) (sd_started_at_ms d)) \<noteq> Alive)
              in (True,
                  record_route_obstruction w
                    \<lparr>ob_kind = engine_incident_kind_name Stopped, ob_cause = stop_cause gone (rq_exit_code stop),
                     ob_recovery = stop_recovery, ob_pid = sd_pid d, ob_session_id = sd_session_id d, ob_at_ms = 0\<rparr> m,
                  put_all (stop_entries gone (rq_exit_code stop)) (with_object_data e)))"

definition report_entries :: "process_report \<Rightarrow> (string \<times> json) list" where
  "report_entries r =
     (''engine'', JStr (process_instance_state_name (pr_state r))) #
     (if pr_reason r \<noteq> [] then
        (''engine_reason'', JStr (pr_reason r)) #
        (if pr_os_error r \<noteq> 0 then [(''engine_os_error'', JUInt (pr_os_error r))] else [])
      else [])"

definition crash_entries :: "crash_report \<Rightarrow> (string \<times> json) list" where
  "crash_entries c =
     (if cr_found c then
        [(''engine_crash'',
          jobj [(''report'', JStr (cr_path c)), (''exception'', JStr (cr_exception c)),
                (''on_main_thread'', JBool (cr_on_main_thread c)), (''in_extension'', JBool (cr_in_extension c))])]
      else [])"

definition annotate_engine_state ::
  "world \<Rightarrow> session_descriptor option \<Rightarrow> route_memory \<Rightarrow> refusal \<Rightarrow> route_memory \<times> refusal" where
  "annotate_engine_state w session m e =
     (case session of
        None \<Rightarrow> (m, e)
      | Some d \<Rightarrow>
          if sd_pid d = 0 then (m, e)
          else
            let report = w_process w (sd_pid d) (sd_started_at_ms d);
                e1 = put_all (report_entries report) (with_object_data e);
                transport_failed = contains (err_data e1) ''outcome'';
                crash = (if pr_state report = Alive then no_crash else find_engine_crash_report (w_candidates w) (sd_project_path d) (sd_pid d));
                e2 = put_all (crash_entries crash) e1;
                (stopped, m3, e3) = annotate_requested_stop w session m e2;
                found = classify_engine_incident (pr_state report) crash transport_failed
            in if stopped then (m3, e3)
               else if in_kind found = No_Incident then (m3, e3)
               else
                 (snd (report_crash_once (sd_pid d) found
                    (record_route_obstruction w
                      \<lparr>ob_kind = engine_incident_kind_name (in_kind found), ob_cause = in_cause found,
                       ob_recovery = in_recovery found, ob_pid = sd_pid d, ob_session_id = sd_session_id d,
                       ob_at_ms = 0\<rparr> m3)),
                  put_all [(''incident'', JStr (engine_incident_kind_name (in_kind found))),
                           (''cause'', JStr (in_cause found)), (''recovery'', JStr (in_recovery found))] e3))"

definition mark_unstated_deadline :: "refusal \<Rightarrow> refusal" where
  "mark_unstated_deadline e =
     (if err_code e \<noteq> 504 \<or> transport_failure_state e \<noteq> None then e
      else if contains (err_data e) ''outcome'' then e
      else put_data ''route_quarantine'' (JBool True) (with_object_data e))"

text \<open>\<open>value("route_quarantine", false)\<close> throws when the member is not a boolean.\<close>

definition annotate_live_route_failure ::
  "world \<Rightarrow> session_descriptor option \<Rightarrow> bool \<Rightarrow> route_memory \<Rightarrow> refusal \<Rightarrow>
   (json_exn, bool \<times> route_memory \<times> refusal) result" where
  "annotate_live_route_failure w session quarantined m e =
     (let transport = transport_failure_state e
      in rbind (if is_object (err_data e) then value_bool (err_data e) ''route_quarantine'' False else Inr False)
           (\<lambda>explicit_quarantine.
             if transport = None \<and> \<not> explicit_quarantine then
               (if err_code e = 503 \<or> err_code e = 504 then
                  (case annotate_requested_stop w session m e of (stopped, m1, e1) \<Rightarrow> Inr (False, m1, e1))
                else Inr (False, m, e))
             else
               let e1 = with_object_data e;
                   e2 = (case transport of
                           Some t \<Rightarrow> put_data ''outcome'' (JStr (if ts_outcome_unknown t then ''unknown_outcome'' else ''not_started'')) e1
                         | None \<Rightarrow> if contains (err_data e1) ''outcome'' then e1
                                   else put_data ''outcome'' (JStr ''unknown_outcome'') e1);
                   (m1, e3) = annotate_engine_state w session m e2
               in Inr (True, m1, put_data ''route_quarantine'' (JBool quarantined) e3)))"

section \<open>Members after an annotation\<close>

definition data_ok :: "refusal \<Rightarrow> bool" where
  "data_ok e = (is_object (err_data e) \<and> kv_ok (members (err_data e)))"

definition datum :: "refusal \<Rightarrow> string \<Rightarrow> json option" where
  "datum e k = jget (err_data e) k"

lemma data_ok_with_object [simp]: "json_ok (err_data e) \<Longrightarrow> data_ok (with_object_data e)"
  by (auto simp: data_ok_def with_object_data_def as_object_def json_ok_kv_ok)

lemma with_object_same [simp]: "data_ok e \<Longrightarrow> with_object_data e = e"
  by (simp add: data_ok_def with_object_data_def as_object_def)

lemma datum_with_object [simp]: "datum (with_object_data e) k = datum e k"
  by (cases "err_data e") (auto simp: datum_def with_object_data_def as_object_def jget_def)

lemma data_ok_put [simp]: "data_ok e \<Longrightarrow> data_ok (put_data k v e)"
  by (simp add: data_ok_def put_data_def)

lemma datum_put [simp]: "data_ok e \<Longrightarrow> datum (put_data k v e) j = (if j = k then Some v else datum e j)"
  by (simp add: data_ok_def put_data_def datum_def jget_jput)

lemma put_all_Nil [simp]: "put_all [] e = e"
  by (simp add: put_all_def)

lemma put_all_Cons [simp]: "put_all ((k, v) # es) e = put_all es (put_data k v e)"
  by (simp add: put_all_def put_data_def)

lemma data_ok_put_all [simp]: "data_ok e \<Longrightarrow> data_ok (put_all es e)"
  by (induction es arbitrary: e) auto

lemma datum_put_all:
  "data_ok e \<Longrightarrow> datum (put_all es e) j = (case kv_get (rev es) j of Some v \<Rightarrow> Some v | None \<Rightarrow> datum e j)"
proof (induction es arbitrary: e)
  case (Cons a es)
  then show ?case
    by (cases a) (auto simp: kv_get_def map_add_def split: option.splits)
qed simp

lemma datum_put_all_other: "data_ok e \<Longrightarrow> j \<notin> fst ` set es \<Longrightarrow> datum (put_all es e) j = datum e j"
  using kv_get_keys[of "rev es" j] by (simp add: datum_put_all)

lemma code_with_object [simp]: "err_code (with_object_data e) = err_code e" "err_message (with_object_data e) = err_message e"
  by (simp_all add: with_object_data_def)

lemma code_put [simp]: "err_code (put_data k v e) = err_code e" "err_message (put_data k v e) = err_message e"
  by (simp_all add: put_data_def)

lemma code_put_all [simp]: "err_code (put_all es e) = err_code e" "err_message (put_all es e) = err_message e"
  by (simp_all add: put_all_def)

text \<open>The entries of the three steps leave the outcome alone.\<close>

lemma entries_spare_the_outcome:
  "''outcome'' \<notin> fst ` set (report_entries r)" "''outcome'' \<notin> fst ` set (crash_entries c)"
  "''outcome'' \<notin> fst ` set (stop_entries gone code)"
  by (auto simp: report_entries_def crash_entries_def stop_entries_def)

lemma annotate_requested_stop_spares:
  assumes "annotate_requested_stop w session m e = (stopped, m', e')" "json_ok (err_data e) \<or> data_ok e"
  shows "datum e' ''outcome'' = datum e ''outcome'' \<and> err_code e' = err_code e \<and> err_message e' = err_message e \<and>
    (data_ok e \<longrightarrow> data_ok e')"
proof -
  have "data_ok (with_object_data e)" using assms(2) by auto
  then show ?thesis
    using assms(1) entries_spare_the_outcome(3)
    by (auto simp: annotate_requested_stop_def datum_put_all_other Let_def split: option.splits)
qed

text \<open>What is remembered of a stop once an error has named it.\<close>

definition stopped_memory :: "world \<Rightarrow> session_descriptor \<Rightarrow> bool \<Rightarrow> requested_stop \<Rightarrow> route_memory \<Rightarrow> route_memory" where
  "stopped_memory w d gone stop m = record_route_obstruction w
     \<lparr>ob_kind = ''game_stopped'', ob_cause = stop_cause gone (rq_exit_code stop),
      ob_recovery = stop_recovery, ob_pid = sd_pid d, ob_session_id = sd_session_id d, ob_at_ms = 0\<rparr> m"

lemma stopped_memory_kind: "\<exists>b. rm_obstruction (stopped_memory w d gone stop m) = Some b \<and> ob_kind b = ''game_stopped''"
  by (simp add: stopped_memory_def record_route_obstruction_def)

lemma annotate_requested_stop_known:
  assumes "requested_stop_for m (sd_pid d) (sd_session_id d) = Some stop"
  shows "\<exists>gone. annotate_requested_stop w (Some d) m e =
    (True, stopped_memory w d gone stop m,
     put_all (stop_entries gone (rq_exit_code stop)) (with_object_data e))"
  using assms by (intro exI[of _ "pr_state (w_process w (sd_pid d) (sd_started_at_ms d)) \<noteq> Alive"])
    (simp add: annotate_requested_stop_def engine_incident_kind_name_def stopped_memory_def Let_def)

lemma annotate_engine_state_spares:
  assumes "annotate_engine_state w session m e = (m', e')" "data_ok e"
  shows "datum e' ''outcome'' = datum e ''outcome'' \<and> err_code e' = err_code e \<and> err_message e' = err_message e \<and> data_ok e'"
proof (cases "session = None \<or> sd_pid (the session) = 0")
  case True
  then show ?thesis using assms by (auto simp: annotate_engine_state_def split: option.splits)
next
  case False
  then obtain d where d: "session = Some d" "sd_pid d \<noteq> 0" by auto
  let ?r = "w_process w (sd_pid d) (sd_started_at_ms d)"
  let ?c = "if pr_state ?r = Alive then no_crash else find_engine_crash_report (w_candidates w) (sd_project_path d) (sd_pid d)"
  let ?e2 = "put_all (crash_entries ?c) (put_all (report_entries ?r) (with_object_data e))"
  have e2: "data_ok ?e2" "datum ?e2 ''outcome'' = datum e ''outcome''" "err_code ?e2 = err_code e" "err_message ?e2 = err_message e"
    using assms(2) entries_spare_the_outcome by (simp_all add: datum_put_all_other)
  obtain stopped m3 e3 where s: "annotate_requested_stop w session m ?e2 = (stopped, m3, e3)" by (metis prod_cases3)
  note e3 = annotate_requested_stop_spares[OF s disjI2[OF e2(1)]]
  have other: "''outcome'' \<notin> fst ` set [(''incident'', a), (''cause'', b), (''recovery'', c :: json)]" for a b c by simp
  from e3 e2 have e3': "data_ok e3" "datum e3 ''outcome'' = datum e ''outcome''" "err_code e3 = err_code e" "err_message e3 = err_message e"
    by simp_all
  then have later: "datum (put_all [(''incident'', a), (''cause'', b), (''recovery'', c)] e3) ''outcome'' = datum e ''outcome''" for a b c
    using datum_put_all_other[OF e3'(1) other] by simp
  have "e' = e3 \<or> (\<exists>a b c. e' = put_all [(''incident'', a), (''cause'', b), (''recovery'', c)] e3)"
    using assms(1) d s by (auto simp: annotate_engine_state_def Let_def split: if_splits prod.splits)
  then show ?thesis using e3' later by (elim disjE exE) simp_all
qed

lemma annotate_engine_state_stopped:
  assumes "requested_stop_for m (sd_pid d) (sd_session_id d) = Some stop" "sd_pid d \<noteq> 0"
  shows "\<exists>gone e2. annotate_engine_state w (Some d) m e =
    (stopped_memory w d gone stop m,
     put_all (stop_entries gone (rq_exit_code stop)) (with_object_data e2)) \<and> (json_ok (err_data e) \<or> data_ok e \<longrightarrow> data_ok e2)"
proof -
  let ?r = "w_process w (sd_pid d) (sd_started_at_ms d)"
  let ?c = "if pr_state ?r = Alive then no_crash else find_engine_crash_report (w_candidates w) (sd_project_path d) (sd_pid d)"
  let ?e2 = "put_all (crash_entries ?c) (put_all (report_entries ?r) (with_object_data e))"
  obtain gone where g: "annotate_requested_stop w (Some d) m ?e2 =
    (True, stopped_memory w d gone stop m,
     put_all (stop_entries gone (rq_exit_code stop)) (with_object_data ?e2))"
    using annotate_requested_stop_known[OF assms(1)] by metis
  have "data_ok (with_object_data e)" if "json_ok (err_data e) \<or> data_ok e" using that by auto
  then have "json_ok (err_data e) \<or> data_ok e \<longrightarrow> data_ok ?e2" by simp
  then show ?thesis using assms(2) g by (intro exI[of _ gone] exI[of _ ?e2]) (simp add: annotate_engine_state_def Let_def)
qed

section \<open>The transport state\<close>

lemma jget_transport_members:
  "jget (transport_members s) k =
     (if k = ''request_started'' then Some (JBool (ts_request_started s))
      else if k = ''outcome_unknown'' then Some (JBool (ts_outcome_unknown s))
      else if k = ''timed_out'' then Some (JBool (ts_timed_out s))
      else if k = ''reason'' \<and> ts_reason s \<noteq> [] then Some (JStr (ts_reason s))
      else if k = ''waited_ms'' \<and> 0 \<le> ts_waited_ms s then Some (JInt (ts_waited_ms s))
      else None)"
  by (simp add: transport_members_def jget_jobj)

lemma transport_members_read:
  "is_object (transport_members s)"
  "boolean_at (transport_members s) ''request_started'' = Some (ts_request_started s)"
  "boolean_at (transport_members s) ''outcome_unknown'' = Some (ts_outcome_unknown s)"
  "boolean_at (transport_members s) ''timed_out'' = Some (ts_timed_out s)"
  "string_or_empty (jget (transport_members s) ''reason'') = ts_reason s"
  "integer_at (transport_members s) ''waited_ms'' = (if 0 \<le> ts_waited_ms s then Some (ts_waited_ms s) else None)"
  by (simp_all add: boolean_at_def integer_at_def string_or_empty_def jget_transport_members)
     (simp add: transport_members_def)

text \<open>
  What the transport says of a failure is what every reader of the error gets back: the
  three flags, the reason and the time waited, with the outcome of a request that never left
  settled as known.
\<close>

theorem transport_failure_round_trip:
  "transport_failure_state (transport_failure message s) =
     Some ((settled_outcome s)\<lparr>ts_waited_ms := (if 0 \<le> ts_waited_ms s then to_int32 (ts_waited_ms s) else -1)\<rparr>)"
proof -
  have "jget (err_data (transport_failure message s)) ''transport'' = Some (transport_members (settled_outcome s))"
    by (simp add: transport_failure_def jget_jobj)
  moreover have "ts_waited_ms (settled_outcome s) = ts_waited_ms s" by (simp add: settled_outcome_def)
  ultimately show ?thesis
    by (cases "settled_outcome s") (simp add: transport_failure_state_def transport_members_read)
qed

section \<open>What a failed route answers\<close>

text \<open>The outcome a failed route states before the engine is looked at.\<close>

definition stated_outcome :: "refusal \<Rightarrow> json option" where
  "stated_outcome e =
     (case transport_failure_state e of
        Some t \<Rightarrow> Some (JStr (if ts_outcome_unknown t then ''unknown_outcome'' else ''not_started''))
      | None \<Rightarrow> if datum e ''outcome'' = None then Some (JStr ''unknown_outcome'') else datum e ''outcome'')"

lemma annotate_live_route_failure_cases:
  assumes "json_ok (err_data e)" "annotate_live_route_failure w session quarantined m e = Inr (failed, m', e')"
  obtains (answered) "transport_failure_state e = None" "datum e ''route_quarantine'' \<noteq> Some (JBool True)" "\<not> failed"
      "(\<exists>stopped. annotate_requested_stop w session m e = (stopped, m', e')) \<or>
       m' = m \<and> e' = e \<and> \<not> (err_code e = 503 \<or> err_code e = 504)"
  | (transport) e2 e3 where
      "transport_failure_state e \<noteq> None \<or> datum e ''route_quarantine'' = Some (JBool True)" "failed"
      "data_ok e2" "annotate_engine_state w session m e2 = (m', e3)"
      "e' = put_data ''route_quarantine'' (JBool quarantined) e3"
      "err_code e2 = err_code e" "err_message e2 = err_message e" "datum e2 ''outcome'' = stated_outcome e"
proof -
  obtain explicit where explicit: "(if is_object (err_data e) then value_bool (err_data e) ''route_quarantine'' False else Inr False) = Inr explicit"
    using assms(2) by (auto simp: annotate_live_route_failure_def Let_def rbind_Inr_iff)
  have asked: "explicit \<longleftrightarrow> datum e ''route_quarantine'' = Some (JBool True)"
    using explicit by (cases "err_data e") (auto simp: value_bool_def datum_def jget_def split: option.splits json.splits if_splits)
  note run = assms(2)[unfolded annotate_live_route_failure_def Let_def explicit rbind.simps]
  show ?thesis
  proof (cases "transport_failure_state e = None \<and> \<not> explicit")
    case True
    show ?thesis by (rule answered) (use True run asked in \<open>auto split: prod.splits if_splits\<close>)
  next
    case False
    let ?e1 = "with_object_data e"
    let ?e2 = "case transport_failure_state e of
                 Some t \<Rightarrow> put_data ''outcome'' (JStr (if ts_outcome_unknown t then ''unknown_outcome'' else ''not_started'')) ?e1
               | None \<Rightarrow> if contains (err_data ?e1) ''outcome'' then ?e1 else put_data ''outcome'' (JStr ''unknown_outcome'') ?e1"
    obtain m1 e3 where s: "annotate_engine_state w session m ?e2 = (m1, e3)" by (metis surj_pair)
    have ok1: "data_ok ?e1" using assms(1) by simp
    then have ok2: "data_ok ?e2" by (simp split: option.split)
    have has: "contains (err_data ?e1) ''outcome'' \<longleftrightarrow> datum e ''outcome'' \<noteq> None"
      by (metis contains_def datum_def datum_with_object)
    have out: "datum ?e2 ''outcome'' = stated_outcome e"
      using ok1 unfolding has by (simp add: stated_outcome_def split: option.split)
    have codes: "err_code ?e2 = err_code e" "err_message ?e2 = err_message e" by (simp_all split: option.split)
    have r: "failed" "m' = m1" "e' = put_data ''route_quarantine'' (JBool quarantined) e3" using run False s by auto
    show ?thesis by (rule transport[OF _ r(1) ok2 _ r(3) codes out]) (use False asked s r(2) in auto)
  qed
qed

text \<open>
  The one outcome of a failed route: the failure is the transport's exactly when the error
  carries a transport state or asks for quarantine; then the answer says \<open>not_started\<close> or
  \<open>unknown_outcome\<close> as the transport does, keeps an outcome already stated when the transport
  says nothing, and reports the caller's own quarantine. An answer of the engine keeps its
  outcome. The status and the message are never changed.
\<close>

theorem live_failure_states_the_outcome:
  assumes "json_ok (err_data e)" "annotate_live_route_failure w session quarantined m e = Inr (failed, m', e')"
  shows "(failed \<longleftrightarrow> transport_failure_state e \<noteq> None \<or> datum e ''route_quarantine'' = Some (JBool True)) \<and>
    err_code e' = err_code e \<and> err_message e' = err_message e \<and>
    datum e' ''outcome'' =
      (case transport_failure_state e of
         Some t \<Rightarrow> Some (JStr (if ts_outcome_unknown t then ''unknown_outcome'' else ''not_started''))
       | None \<Rightarrow> if failed \<and> datum e ''outcome'' = None then Some (JStr ''unknown_outcome'') else datum e ''outcome'') \<and>
    (failed \<longrightarrow> datum e' ''route_quarantine'' = Some (JBool quarantined))"
proof (rule annotate_live_route_failure_cases[OF assms])
  assume a: "transport_failure_state e = None" "datum e ''route_quarantine'' \<noteq> Some (JBool True)" "\<not> failed"
    "(\<exists>stopped. annotate_requested_stop w session m e = (stopped, m', e')) \<or>
     m' = m \<and> e' = e \<and> \<not> (err_code e = 503 \<or> err_code e = 504)"
  then have "datum e' ''outcome'' = datum e ''outcome'' \<and> err_code e' = err_code e \<and> err_message e' = err_message e"
    using annotate_requested_stop_spares assms(1) by blast
  then show ?thesis using a(1-3) by simp
next
  fix e2 e3
  assume a: "transport_failure_state e \<noteq> None \<or> datum e ''route_quarantine'' = Some (JBool True)" "failed"
    "data_ok e2" "annotate_engine_state w session m e2 = (m', e3)" "e' = put_data ''route_quarantine'' (JBool quarantined) e3"
    "err_code e2 = err_code e" "err_message e2 = err_message e" "datum e2 ''outcome'' = stated_outcome e"
  note spared = annotate_engine_state_spares[OF a(4,3)]
  show ?thesis using a spared by (auto simp: stated_outcome_def split: option.splits)
qed

lemma live_failure_states_the_outcome_witness:
  "\<exists>m' e'. annotate_live_route_failure \<lparr>w_process = (\<lambda>p s. \<lparr>pr_state = Alive, pr_reason = [], pr_os_error = 0\<rparr>),
       w_candidates = (\<lambda>p q. []), w_now = 5\<rparr> None True \<lparr>rm_obstruction = None, rm_stops = [], rm_reported_pids = []\<rparr>
     (transport_failure ''x'' \<lparr>ts_request_started = False, ts_outcome_unknown = True, ts_timed_out = True, ts_reason = [], ts_waited_ms = 3\<rparr>) =
     Inr (True, m', e') \<and> datum e' ''outcome'' = Some (JStr ''not_started'')"
proof -
  let ?w = "\<lparr>w_process = (\<lambda>p s. \<lparr>pr_state = Alive, pr_reason = [], pr_os_error = 0\<rparr>), w_candidates = (\<lambda>p q. []), w_now = 5\<rparr>"
  let ?s = "\<lparr>ts_request_started = False, ts_outcome_unknown = True, ts_timed_out = True, ts_reason = [], ts_waited_ms = 3\<rparr>"
  let ?e = "transport_failure ''x'' ?s"
  let ?m = "\<lparr>rm_obstruction = None, rm_stops = [], rm_reported_pids = []\<rparr>"
  have ok: "json_ok (err_data ?e)" by code_simp
  have t: "transport_failure_state ?e = Some (?s\<lparr>ts_outcome_unknown := False\<rparr>)" by code_simp
  have "is_ok (annotate_live_route_failure ?w None True ?m ?e)" by code_simp
  then obtain failed m' e' where r: "annotate_live_route_failure ?w None True ?m ?e = Inr (failed, m', e')"
    unfolding is_ok_iff by (metis prod_cases3)
  note p = live_failure_states_the_outcome[OF ok r]
  have "failed" "datum e' ''outcome'' = Some (JStr ''not_started'')" using p t by simp_all
  with r show ?thesis by (intro exI[of _ m'] exI[of _ e']) simp
qed

section \<open>Requested stops\<close>

definition stops_ok :: "route_memory \<Rightarrow> bool" where
  "stops_ok m = (length (rm_stops m) \<le> 16 \<and> distinct (map rq_session_id (rm_stops m)))"

lemma find_append: "find P (xs @ ys) = (case find P xs of None \<Rightarrow> find P ys | Some x \<Rightarrow> Some x)"
  by (induction xs) auto

lemma set_tl_subset: "set (tl xs) \<subseteq> set xs"
  by (cases xs) auto

lemma record_requested_stop_ok:
  assumes "stops_ok m"
  shows "stops_ok (record_requested_stop w s m) \<and>
    requested_stop_for (record_requested_stop w s m) (rq_pid s) (rq_session_id s) =
      Some (if rq_at_ms s = 0 then s\<lparr>rq_at_ms := w_now w\<rparr> else s)"
proof -
  define others where "others = filter (\<lambda>known. rq_session_id known \<noteq> rq_session_id s) (rm_stops m)"
  define kept where "kept = (if length others \<ge> 16 then tl others else others)"
  define x where "x = (if rq_at_ms s = 0 then s\<lparr>rq_at_ms := w_now w\<rparr> else s)"
  have "length (rm_stops m) \<le> 16" "distinct (map rq_session_id (rm_stops m))"
    using assms by (simp_all add: stops_ok_def)
  moreover have "length others \<le> length (rm_stops m)" unfolding others_def by (rule length_filter_le)
  ultimately have "length others \<le> 16" "distinct (map rq_session_id others)"
    by (linarith, simp add: others_def distinct_map_filter)
  then have k: "length kept \<le> 15" "distinct (map rq_session_id kept)" "set kept \<subseteq> set others"
    using set_tl_subset[of others] by (auto simp: kept_def map_tl distinct_tl)
  have x: "rq_session_id x = rq_session_id s" "rq_pid x = rq_pid s" by (simp_all add: x_def)
  have sub: "\<forall>j \<in> set kept. rq_session_id j \<noteq> rq_session_id s" using k(3) by (auto simp: others_def)
  then have none: "find (\<lambda>j. rq_session_id j = rq_session_id s \<and> rq_pid j = rq_pid s) kept = None"
    unfolding find_None_iff by blast
  have stops: "rm_stops (record_requested_stop w s m) = kept @ [x]"
    by (simp add: record_requested_stop_def Let_def kept_def others_def x_def)
  have "distinct (map rq_session_id (kept @ [x]))" using k(2) sub x(1) by (auto simp: image_iff)
  then show ?thesis
    using k(1) x none by (simp add: stops_ok_def requested_stop_for_def stops find_append flip: x_def)
qed

lemma stop_entries_data:
  assumes "data_ok e"
  shows "datum (put_all (stop_entries gone code) e) ''retryable'' = Some (JBool False)"
    "datum (put_all (stop_entries gone code) e) ''incident'' = Some (JStr ''game_stopped'')"
    "datum (put_all (stop_entries gone code) e) ''exit_code'' = Some (JInt code)"
  using assms by (simp_all add: stop_entries_def engine_incident_kind_name_def)

lemma annotate_obstruction_stopped:
  assumes "rm_obstruction m = Some b" "ob_kind b = ''game_stopped''" "json_ok (err_data e)" "\<not> contains (err_data e) ''incident''"
  shows "datum (annotate_route_obstruction m e) ''retryable'' = Some (JBool False)"
proof -
  have "\<not> contains (err_data (with_object_data e)) ''incident''"
    using assms(4) by (metis contains_def datum_def datum_with_object)
  then show ?thesis using assms by (simp add: annotate_route_obstruction_def Let_def)
qed



end
