(* ===== verification/Session_Kinds.thy ===== *)
theory Session_Kinds
  imports Session_Descriptor
begin

text \<open>
  Which kind of session a tool or a method may address
  (\<open>include/didi/runtime/session_kind_policy.hpp\<close>), the refusals built from it in
  \<open>src/gdextension/editor_hook.cpp\<close> and \<open>src/gdextension/runtime_request_router.cpp\<close>, and the
  envelope every live response carries.
\<close>

section \<open>The policy\<close>

datatype session_kind_policy = Editor_Only | Game_Only | Editor_Or_Game

datatype session_kind = Editor_Session | Game_Session

definition game_only_tools :: "string list" where
  "game_only_tools = [''runtime_set_paused'', ''runtime_step'', ''runtime_stop'', ''physics_simulate_step'',
     ''anim_play_track'', ''runtime_inject_input'', ''inject_input_event'', ''runtime_watch_invariants'',
     ''runtime_explore_scene'']"

definition either_tools :: "string list" where
  "either_tools = [''runtime_read_logs'', ''runtime_read_output'', ''runtime_get_tree'', ''eval_gdscript'',
     ''physics_raycast_query'', ''nav_query_path'', ''spatial_query_raycast_batch'', ''spatial_query_clearance'',
     ''spatial_query_frustum'', ''anim_list_tracks'', ''runtime_read_profiler'', ''ui_list_controls'', ''ui_hit_test'',
     ''viewport_capture_frame'', ''capture_viewport'', ''viewport_capture_passes'', ''viewport_diff_capture'',
     ''audio_list_buses'', ''audio_configure_bus'']"

definition live_policy_for_tool :: "string \<Rightarrow> session_kind_policy" where
  "live_policy_for_tool name =
     (if name \<in> set game_only_tools then Game_Only
      else if name \<in> set either_tools then Editor_Or_Game
      else Editor_Only)"

definition game_only_methods :: "string list" where
  "game_only_methods = [''runtime.setPaused'', ''runtime.step'', ''runtime.stop'', ''physics.simulateStep'',
     ''anim.playTrack'', ''runtime.injectInput'', ''runtime.watchInvariants'', ''runtime.exploreScene'']"

definition either_methods :: "string list" where
  "either_methods = [''runtime.getLogs'', ''runtime.getOutput'', ''runtime.getTree'', ''runtime.evalGdscript'',
     ''session.handshake'', ''physics.raycast'', ''physics.raycastBatch'', ''physics.clearance'', ''vision.frustumQuery'',
     ''nav.queryPath'', ''anim.listTracks'', ''runtime.readProfiler'', ''ui.listControls'', ''ui.hitTest'',
     ''profiler.sample'', ''engine.classExists'', ''vision.captureViewport'', ''vision.capturePasses'',
     ''vision.diffViewport'', ''audio.listBuses'', ''audio.configureBus'']"

definition live_policy_for_method :: "string \<Rightarrow> session_kind_policy" where
  "live_policy_for_method method =
     (if method \<in> set game_only_methods then Game_Only
      else if method \<in> set either_methods then Editor_Or_Game
      else Editor_Only)"

fun allows_session_kind :: "session_kind_policy \<Rightarrow> string \<Rightarrow> bool" where
  "allows_session_kind Editor_Only kind = (kind = ''editor'')"
| "allows_session_kind Game_Only kind = (kind = ''game'')"
| "allows_session_kind Editor_Or_Game kind = (kind = ''editor'' \<or> kind = ''game'')"

definition allowed_kinds :: "session_kind_policy \<Rightarrow> string list" where
  "allowed_kinds policy =
     (case policy of
        Editor_Only \<Rightarrow> [''editor'']
      | Game_Only \<Rightarrow> [''game'']
      | Editor_Or_Game \<Rightarrow> [''editor'', ''game''])"

fun joined_by_or :: "string list \<Rightarrow> string" where
  "joined_by_or [] = []"
| "joined_by_or [w] = w"
| "joined_by_or (w # ws) = w @ '' or '' @ joined_by_or ws"

section \<open>Envelopes\<close>

definition public_session_envelope :: "session_descriptor \<Rightarrow> json" where
  "public_session_envelope d = jobj [(''execution_mode'', JStr ''live''), (''session'', descriptor_to_json d False)]"

definition failure_session_envelope :: "session_descriptor \<Rightarrow> json" where
  "failure_session_envelope d = jobj [(''execution_mode'', JStr ''live''), (''session'', to_provenance_json d)]"

definition decorated_error :: "json \<Rightarrow> session_descriptor \<Rightarrow> json" where
  "decorated_error found d =
     (let error = (if is_object found then found
                   else jobj [(''code'', JInt 500), (''message'', JStr ''Malformed live engine error'')]);
          data = (case jget error ''data'' of None \<Rightarrow> JObj [] | Some x \<Rightarrow> x);
          data = (if is_object data then data else jobj [(''details'', data)])
      in jput ''data''
           (jput ''session'' (to_provenance_json d) (jput ''execution_mode'' (JStr ''live'') data)) error)"

definition decorate_runtime_response :: "json \<Rightarrow> session_descriptor \<Rightarrow> json" where
  "decorate_runtime_response response d =
     (let r = (if is_object response then response else jobj [(''result'', response)])
      in case jget r ''error'' of
           Some found \<Rightarrow> jput ''error'' (decorated_error found d) r
         | None \<Rightarrow> jput ''session'' (descriptor_to_json d False) (jput ''execution_mode'' (JStr ''live'') r))"

definition timeout_response :: "string \<Rightarrow> session_descriptor \<Rightarrow> string \<Rightarrow> bool \<Rightarrow> string \<Rightarrow> json" where
  "timeout_response method d outcome quarantine message =
     decorate_runtime_response
       (jobj [(''error'',
          jobj [(''code'', JInt 504), (''message'', JStr message),
                (''data'', jobj [(''code'', JStr ''route_deadline_exceeded''), (''outcome'', JStr outcome),
                                 (''route_quarantine'', JBool quarantine), (''method'', JStr method)])])]) d"

definition handle_session_handshake :: "json \<Rightarrow> session_descriptor \<Rightarrow> json" where
  "handle_session_handshake params d =
     (if jget params ''protocol_version'' \<noteq> Some (JStr ''1.3'') then
        jobj [(''error'', jobj [(''code'', JInt 409), (''message'', JStr ''Runtime session protocol 1.3 is required''),
          (''data'', jobj [(''code'', JStr ''protocol_version_rejected''), (''required_protocol_version'', JStr ''1.3'')])])]
      else jput ''status'' (JStr ''ok'') (descriptor_to_json d False))"

section \<open>Refusals by kind\<close>

definition kind_rejection :: "string \<Rightarrow> string \<Rightarrow> json \<Rightarrow> string list \<Rightarrow> json" where
  "kind_rejection method sentence selected allowed =
     jobj [(''error'', jobj [(''code'', JInt 409), (''message'', JStr sentence),
       (''data'', jobj [(''code'', JStr ''session_kind_rejected''), (''method'', JStr method),
          (''selected_session_kind'', selected), (''allowed_session_kinds'', JArr (map JStr allowed)),
          (''retryable'', JBool False)])])]"

definition article :: "string \<Rightarrow> string" where
  "article word = (if word \<noteq> [] \<and> hd word \<in> set ''aeiou'' then ''an '' else ''a '')"

definition reject_disallowed_session_method :: "string \<Rightarrow> session_descriptor \<Rightarrow> json option" where
  "reject_disallowed_session_method method d =
     (let policy = live_policy_for_method method; allowed = allowed_kinds policy; words = joined_by_or allowed
      in if allows_session_kind policy (sd_kind d) then None
         else Some (decorate_runtime_response
           (kind_rejection method
              (method @ '' needs '' @ article words @ words @ '' session, and '' @ article (sd_kind d) @ sd_kind d @
               '' session is selected.'')
              (JStr (sd_kind d)) allowed) d))"

definition kind_word :: "session_kind \<Rightarrow> string" where
  "kind_word k = (case k of Editor_Session \<Rightarrow> ''editor'' | Game_Session \<Rightarrow> ''game'')"

definition validate_session_kind_for_method :: "string \<Rightarrow> session_kind option \<Rightarrow> json option" where
  "validate_session_kind_for_method method kind =
     (let policy = live_policy_for_method method; selected = map_option kind_word kind;
          allowed = allowed_kinds policy; words = joined_by_or allowed;
          selected_text = (case selected of None \<Rightarrow> ''no session'' | Some w \<Rightarrow> ''a '' @ w @ '' session'')
      in if (case selected of None \<Rightarrow> False | Some w \<Rightarrow> allows_session_kind policy w) then None
         else Some (kind_rejection method
           (method @ '' needs '' @ (if length allowed = 1 then ''an '' else ''a '') @ words @
            '' session, and '' @ selected_text @ '' is selected.'')
           (case selected of None \<Rightarrow> JNull | Some w \<Rightarrow> JStr w) allowed))"

section \<open>What the gates and the envelope promise\<close>

text \<open>
  The two gates in front of the main thread are one: the router, which reads the kind from
  the descriptor's text, and the command queue, which keeps the kind as a value, refuse exactly
  the same methods; and a session whose kind is unknown is refused every method.
\<close>

theorem session_gates_agree:
  "(sd_kind d = kind_word k \<longrightarrow>
      (reject_disallowed_session_method method d = None \<longleftrightarrow> validate_session_kind_for_method method (Some k) = None)) \<and>
   (reject_disallowed_session_method method d = None \<longleftrightarrow> sd_kind d \<in> set (allowed_kinds (live_policy_for_method method))) \<and>
   validate_session_kind_for_method method None \<noteq> None"
proof -
  have "allows_session_kind policy w \<longleftrightarrow> w \<in> set (allowed_kinds policy)" for policy w
    by (cases policy) (auto simp: allowed_kinds_def)
  then show ?thesis
    by (auto simp: reject_disallowed_session_method_def validate_session_kind_for_method_def Let_def)
qed

lemma session_gates_agree_witness:
  "\<exists>d :: session_descriptor. sd_kind d = kind_word Game_Session \<and> validate_session_kind_for_method ''runtime.step'' (Some Game_Session) = None"
proof -
  let ?d = "\<lparr>sd_schema_version = 1, sd_session_id = ''a'', sd_token = ''b'', sd_pid = 7, sd_kind = ''game'',
     sd_project_path = ''p'', sd_endpoint = ''e'', sd_started_at_ms = 1, sd_protocol_version = ''1.3'',
     sd_build_id = [], sd_engine_version = []\<rparr>"
  have k: "sd_kind ?d = kind_word Game_Session" by (simp add: kind_word_def)
  have allowed: "sd_kind ?d \<in> set (allowed_kinds (live_policy_for_method ''runtime.step''))" by code_simp
  note gates = session_gates_agree[of ?d Game_Session "''runtime.step''"]
  have "reject_disallowed_session_method ''runtime.step'' ?d = None"
    by (rule iffD2[OF conjunct1[OF conjunct2[OF gates]] allowed])
  with mp[OF conjunct1[OF gates] k]
  have "validate_session_kind_for_method ''runtime.step'' (Some Game_Session) = None" by (rule iffD1)
  then show ?thesis using k by blast
qed

definition is_decorated :: "session_descriptor \<Rightarrow> json \<Rightarrow> bool" where
  "is_decorated d j =
     (case jget j ''error'' of
        None \<Rightarrow> jget j ''execution_mode'' = Some (JStr ''live'') \<and> jget j ''session'' = Some (descriptor_to_json d False)
      | Some e \<Rightarrow>
          (case jget e ''data'' of
             None \<Rightarrow> False
           | Some data \<Rightarrow> jget data ''execution_mode'' = Some (JStr ''live'') \<and>
               jget data ''session'' = Some (to_provenance_json d)))"

lemma jobj_ok: "is_object (jobj es) \<and> kv_ok (members (jobj es))"
  by simp

lemma decorated_error_data:
  assumes "json_ok found"
  shows "\<exists>data. jget (decorated_error found d) ''data'' = Some data \<and>
    jget data ''execution_mode'' = Some (JStr ''live'') \<and> jget data ''session'' = Some (to_provenance_json d)"
proof -
  define error where "error = (if is_object found then found
                   else jobj [(''code'', JInt 500), (''message'', JStr ''Malformed live engine error'')])"
  define data0 where "data0 = (case jget error ''data'' of None \<Rightarrow> JObj [] | Some x \<Rightarrow> x)"
  define data where "data = (if is_object data0 then data0 else jobj [(''details'', data0)])"
  have e: "is_object error" "kv_ok (members error)" using assms by (simp_all add: error_def json_ok_kv_ok)
  have "is_object data0 \<longrightarrow> kv_ok (members data0)"
  proof (cases "is_object found")
    case True
    then show ?thesis using assms by (auto simp: data0_def error_def json_ok_kv_ok json_ok_jget split: option.split)
  next
    case False
    then show ?thesis by (simp add: data0_def error_def jget_jobj)
  qed
  then have o: "is_object data" "kv_ok (members data)" by (simp_all add: data_def)
  let ?d1 = "jput ''execution_mode'' (JStr ''live'') data"
  have d1: "is_object ?d1" "kv_ok (members ?d1)" using o by simp_all
  have "decorated_error found d = jput ''data'' (jput ''session'' (to_provenance_json d) ?d1) error"
    unfolding decorated_error_def Let_def error_def data0_def data_def by simp
  then show ?thesis using e o d1 by (simp add: jget_jput)
qed

lemma decorate_is_decorated:
  assumes "json_ok response"
  shows "is_decorated d (decorate_runtime_response response d)"
proof -
  define r where "r = (if is_object response then response else jobj [(''result'', response)])"
  have r: "is_object r" "kv_ok (members r)" using assms by (simp_all add: r_def json_ok_kv_ok)
  have ok: "json_ok found" if "jget r ''error'' = Some found" for found
    using that assms by (auto simp: r_def json_ok_jget jget_jobj split: if_splits)
  have run: "decorate_runtime_response response d =
     (case jget r ''error'' of
           Some found \<Rightarrow> jput ''error'' (decorated_error found d) r
         | None \<Rightarrow> jput ''session'' (descriptor_to_json d False) (jput ''execution_mode'' (JStr ''live'') r))"
    unfolding decorate_runtime_response_def r_def Let_def ..
  show ?thesis
  proof (cases "jget r ''error''")
    case None
    let ?r1 = "jput ''execution_mode'' (JStr ''live'') r"
    have "is_object ?r1" "kv_ok (members ?r1)" using r by simp_all
    then show ?thesis using None r by (simp add: run is_decorated_def jget_jput)
  next
    case (Some found)
    then show ?thesis using decorated_error_data[OF ok[OF Some], of d] r
      by (auto simp: run is_decorated_def jget_jput)
  qed
qed

lemma json_ok_fold_put:
  "\<forall>e \<in> set es. json_ok (snd e) \<Longrightarrow> json_ok (JObj m) \<Longrightarrow> json_ok (JObj (fold (\<lambda>(k, v). kv_put k v) es m))"
proof (induction es arbitrary: m)
  case (Cons e es)
  obtain k v where e: "e = (k, v)" by (cases e)
  have "json_ok (JObj (kv_put k v m))"
    using json_ok_jput[OF Cons.prems(2), of v k] Cons.prems(1) e by simp
  from Cons.IH[OF _ this] show ?case using Cons.prems(1) e by simp
qed simp

lemma json_ok_jobj: "\<forall>e \<in> set es. json_ok (snd e) \<Longrightarrow> json_ok (jobj es)"
  unfolding jobj_def by (rule json_ok_fold_put) simp_all

lemma timeout_is_decorated: "is_decorated d (timeout_response method d outcome quarantine message)"
  unfolding timeout_response_def by (intro decorate_is_decorated) (auto intro!: json_ok_jobj)

end
