(* ===== verification/Command_Control.thy ===== *)
theory Command_Control
  imports Session_Kinds
begin

text \<open>
  One command on its way through the Godot main thread: \<open>CommandControl\<close>, the command queue,
  the progress of a reimport and the store of detached reimports of
  \<open>include/didi/gdextension/editor_hook.hpp\<close> and \<open>src/gdextension/editor_hook.cpp\<close>, and the
  thread that waits for the answer, \<open>awaitRuntimeCommand\<close> of
  \<open>src/gdextension/runtime_request_router.cpp\<close>. The three parties that touch a command, the
  waiting thread, the main thread and the shutdown, take one atomic step at a time.
\<close>

section \<open>The control block\<close>

datatype command_state = Pending | Running | Cancelled | Completed

text \<open>The order in which a command passes through its states.\<close>

fun state_rank :: "command_state \<Rightarrow> nat" where
  "state_rank Pending = 0"
| "state_rank Running = 1"
| "state_rank Cancelled = 2"
| "state_rank Completed = 3"

instantiation command_state :: linorder
begin

definition less_eq_command_state :: "command_state \<Rightarrow> command_state \<Rightarrow> bool" where
  "less_eq_command_state a b = (state_rank a \<le> state_rank b)"

definition less_command_state :: "command_state \<Rightarrow> command_state \<Rightarrow> bool" where
  "less_command_state a b = (state_rank a < state_rank b)"

instance
proof
  fix a b :: command_state
  show "a \<le> b \<Longrightarrow> b \<le> a \<Longrightarrow> a = b" by (cases a; cases b) (auto simp: less_eq_command_state_def)
qed (auto simp: less_eq_command_state_def less_command_state_def)

end

record command_control =
  cc_state :: command_state
  cc_ever_started :: bool
  cc_response_claimed :: bool
  cc_method :: string
  cc_engine_cursor :: nat

definition new_control :: command_control where
  "new_control = \<lparr>cc_state = Pending, cc_ever_started = False, cc_response_claimed = False,
     cc_method = [], cc_engine_cursor = 0\<rparr>"

definition try_start :: "command_control \<Rightarrow> bool \<times> command_control" where
  "try_start c = (if cc_state c = Pending then (True, c\<lparr>cc_state := Running, cc_ever_started := True\<rparr>) else (False, c))"

definition try_cancel_pending :: "command_control \<Rightarrow> bool \<times> command_control" where
  "try_cancel_pending c = (if cc_state c = Pending then (True, c\<lparr>cc_state := Cancelled\<rparr>) else (False, c))"

definition try_cancel_running :: "command_control \<Rightarrow> bool \<times> command_control" where
  "try_cancel_running c = (if cc_state c = Running then (True, c\<lparr>cc_state := Cancelled\<rparr>) else (False, c))"

definition mark_completed :: "command_control \<Rightarrow> command_control" where
  "mark_completed c = c\<lparr>cc_state := Completed\<rparr>"

definition try_claim_response :: "command_control \<Rightarrow> bool \<times> command_control" where
  "try_claim_response c =
     (if \<not> cc_response_claimed c then (True, c\<lparr>cc_response_claimed := True\<rparr>) else (False, c))"

definition note_start :: "string \<Rightarrow> nat \<Rightarrow> command_control \<Rightarrow> command_control" where
  "note_start mname cursor c = c\<lparr>cc_method := mname, cc_engine_cursor := cursor\<rparr>"

definition started :: "command_control \<Rightarrow> string \<times> nat" where
  "started c = (cc_method c, cc_engine_cursor c)"

text \<open>The gate that lets one runtime step run at a time.\<close>

definition try_acquire_step :: "bool \<Rightarrow> bool \<times> bool" where
  "try_acquire_step active = (\<not> active, True)"

definition release_step :: "bool \<Rightarrow> bool" where
  "release_step active = False"

section \<open>The parties\<close>

text \<open>What is published as the response: the waiter's two timeouts, or a party's answer.\<close>

datatype response = Not_Started | Unknown_Outcome | Answer json

datatype waiter =
    Waiting
  | Cancelling_Pending
  | Claiming_Timeout
  | Publishing response
  | Getting
  | Cancelling_Running
  | Claiming_Unknown
  | Last_Wait
  | Answered response json
  | Waiter_Threw

text \<open>
  The command's owner: the queue, then the main thread, or the shutdown once it has taken the
  command over. A command that waits for later frames stays \<open>Executing\<close>.
\<close>

datatype owner =
    Queued
  | Executing
  | Finishing json
  | Claiming json
  | Fulfilling json
  | Gone
  | Owner_Threw

record config =
  cf_control :: command_control
  cf_promise :: "response option"
  cf_waiter :: waiter
  cf_owner :: owner

definition render :: "string \<Rightarrow> session_descriptor \<Rightarrow> response \<Rightarrow> json" where
  "render mname d r =
     (case r of
        Not_Started \<Rightarrow>
          timeout_response mname d ''not_started'' False ''Main-thread command timed out before execution''
      | Unknown_Outcome \<Rightarrow>
          timeout_response mname d ''unknown_outcome'' True
            ''Main-thread command exceeded its deadline after execution started; outcome is unknown''
      | Answer j \<Rightarrow> j)"

definition cancelled_before_execution :: json where
  "cancelled_before_execution =
     jobj [(''error'', jobj [(''code'', JInt 504), (''message'', JStr ''Command cancelled before execution''),
       (''data'', jobj [(''code'', JStr ''command_cancelled''), (''retryable'', JBool True)])])]"

definition live_session_ended :: "string \<Rightarrow> json" where
  "live_session_ended reason =
     jobj [(''error'', jobj [(''code'', JInt 503), (''message'', JStr reason),
       (''data'', jobj [(''code'', JStr ''live_session_ended''), (''retryable'', JBool False)])])]"

section \<open>Steps\<close>

text \<open>
  \<open>awaitRuntimeCommand\<close>: the wait that is ready, the deadline, the cancellation, the claim and
  the publication. \<open>set_value\<close> on a promise that already has one throws.
\<close>

inductive waiter_step :: "string \<Rightarrow> session_descriptor \<Rightarrow> config \<Rightarrow> config \<Rightarrow> bool" for mname d where
  ready: "cf_waiter s = Waiting \<Longrightarrow> cf_promise s = Some r \<Longrightarrow>
     waiter_step mname d s (s\<lparr>cf_waiter := Answered r (decorate_runtime_response (render mname d r) d)\<rparr>)"
| deadline: "cf_waiter s = Waiting \<Longrightarrow> cf_promise s = None \<Longrightarrow>
     waiter_step mname d s (s\<lparr>cf_waiter := Cancelling_Pending\<rparr>)"
| cancel_pending: "cf_waiter s = Cancelling_Pending \<Longrightarrow> try_cancel_pending (cf_control s) = (ok, c) \<Longrightarrow>
     waiter_step mname d s (s\<lparr>cf_control := c, cf_waiter := (if ok then Claiming_Timeout else Cancelling_Running)\<rparr>)"
| claim_timeout: "cf_waiter s = Claiming_Timeout \<Longrightarrow> try_claim_response (cf_control s) = (ok, c) \<Longrightarrow>
     waiter_step mname d s (s\<lparr>cf_control := c, cf_waiter := (if ok then Publishing Not_Started else Getting)\<rparr>)"
| publish: "cf_waiter s = Publishing r \<Longrightarrow>
     waiter_step mname d s
       (if cf_promise s = None then s\<lparr>cf_promise := Some r, cf_waiter := Getting\<rparr> else s\<lparr>cf_waiter := Waiter_Threw\<rparr>)"
| get: "cf_waiter s = Getting \<Longrightarrow> cf_promise s = Some r \<Longrightarrow>
     waiter_step mname d s (s\<lparr>cf_waiter := Answered r (render mname d r)\<rparr>)"
| cancel_running: "cf_waiter s = Cancelling_Running \<Longrightarrow> try_cancel_running (cf_control s) = (ok, c) \<Longrightarrow>
     waiter_step mname d s (s\<lparr>cf_control := c, cf_waiter := Claiming_Unknown\<rparr>)"
| claim_unknown: "cf_waiter s = Claiming_Unknown \<Longrightarrow> try_claim_response (cf_control s) = (ok, c) \<Longrightarrow>
     waiter_step mname d s (s\<lparr>cf_control := c, cf_waiter := (if ok then Publishing Unknown_Outcome else Last_Wait)\<rparr>)"
| last_ready: "cf_waiter s = Last_Wait \<Longrightarrow> cf_promise s = Some r \<Longrightarrow>
     waiter_step mname d s (s\<lparr>cf_waiter := Answered r (decorate_runtime_response (render mname d r) d)\<rparr>)"
| last_unknown: "cf_waiter s = Last_Wait \<Longrightarrow> cf_promise s = None \<Longrightarrow>
     waiter_step mname d s (s\<lparr>cf_waiter := Answered Unknown_Outcome (render mname d Unknown_Outcome)\<rparr>)"

text \<open>
  The queue and the main thread: a command refused for its session's kind, a command started or
  found cancelled, its result, the fulfilment; and the shutdown, which takes a queued or a
  running command and answers it if it can cancel it.
\<close>

inductive owner_step :: "config \<Rightarrow> config \<Rightarrow> bool" where
  reject: "cf_owner s = Queued \<Longrightarrow> owner_step s (s\<lparr>cf_owner := Claiming rejection\<rparr>)"
| start: "cf_owner s = Queued \<Longrightarrow> try_start (cf_control s) = (ok, c) \<Longrightarrow>
     owner_step s (s\<lparr>cf_control := c, cf_owner := (if ok then Executing else Claiming cancelled_before_execution)\<rparr>)"
| finish: "cf_owner s = Executing \<Longrightarrow> owner_step s (s\<lparr>cf_owner := Finishing result\<rparr>)"
| complete: "cf_owner s = Finishing result \<Longrightarrow>
     owner_step s (s\<lparr>cf_control := mark_completed (cf_control s), cf_owner := Claiming result\<rparr>)"
| claim: "cf_owner s = Claiming result \<Longrightarrow> try_claim_response (cf_control s) = (ok, c) \<Longrightarrow>
     owner_step s (s\<lparr>cf_control := c, cf_owner := (if ok then Fulfilling result else Gone)\<rparr>)"
| fulfil: "cf_owner s = Fulfilling result \<Longrightarrow>
     owner_step s
       (if cf_promise s = None then s\<lparr>cf_promise := Some (Answer result), cf_owner := Gone\<rparr> else s\<lparr>cf_owner := Owner_Threw\<rparr>)"
| end_pending: "cf_owner s = Queued \<Longrightarrow> try_cancel_pending (cf_control s) = (ok, c) \<Longrightarrow>
     owner_step s (s\<lparr>cf_control := c, cf_owner := (if ok then Claiming (live_session_ended reason) else Gone)\<rparr>)"
| end_running: "cf_owner s = Executing \<Longrightarrow> try_cancel_running (cf_control s) = (ok, c) \<Longrightarrow>
     owner_step s (s\<lparr>cf_control := c, cf_owner := (if ok then Claiming (live_session_ended reason) else Gone)\<rparr>)"

definition command_step :: "string \<Rightarrow> session_descriptor \<Rightarrow> config \<Rightarrow> config \<Rightarrow> bool" where
  "command_step mname d s t = (waiter_step mname d s t \<or> owner_step s t)"

text \<open>
  \<open>postCommand\<close>: queued, or answered at once because the main loop is not ready.
\<close>

definition posted :: config where
  "posted = \<lparr>cf_control = new_control, cf_promise = None, cf_waiter = Waiting, cf_owner = Queued\<rparr>"

definition bridge_not_ready :: json where
  "bridge_not_ready =
     jobj [(''error'', jobj [(''code'', JInt 503), (''message'', JStr ''Godot main-loop bridge is not ready''),
       (''data'', jobj [(''code'', JStr ''bridge_not_ready''), (''retryable'', JBool True)])])]"

definition posted_unready :: config where
  "posted_unready =
     \<lparr>cf_control = snd (try_claim_response (mark_completed new_control)), cf_promise = Some (Answer bridge_not_ready),
      cf_waiter = Waiting, cf_owner = Gone\<rparr>"

inductive reachable :: "string \<Rightarrow> session_descriptor \<Rightarrow> config \<Rightarrow> bool" for mname d where
  queued: "reachable mname d posted"
| unready: "reachable mname d posted_unready"
| step: "reachable mname d s \<Longrightarrow> command_step mname d s t \<Longrightarrow> reachable mname d t"

lemmas control_defs = try_start_def try_cancel_pending_def try_cancel_running_def mark_completed_def try_claim_response_def

section \<open>The invariant\<close>

fun is_publishing :: "waiter \<Rightarrow> bool" where
  "is_publishing (Publishing r) = True"
| "is_publishing w = False"

fun is_fulfilling :: "owner \<Rightarrow> bool" where
  "is_fulfilling (Fulfilling j) = True"
| "is_fulfilling x = False"

fun is_working :: "owner \<Rightarrow> bool" where
  "is_working Executing = True"
| "is_working (Finishing j) = True"
| "is_working x = False"

text \<open>The claim is held by exactly one: the published promise or the one party about to publish.\<close>

definition claim_ok :: "config \<Rightarrow> bool" where
  "claim_ok s =
     ((cc_response_claimed (cf_control s) \<longleftrightarrow>
         cf_promise s \<noteq> None \<or> is_publishing (cf_waiter s) \<or> is_fulfilling (cf_owner s)) \<and>
      (is_publishing (cf_waiter s) \<longrightarrow> cf_promise s = None \<and> \<not> is_fulfilling (cf_owner s)) \<and>
      (is_fulfilling (cf_owner s) \<longrightarrow> cf_promise s = None) \<and>
      (cf_waiter s \<in> {Getting, Last_Wait} \<longrightarrow> cc_response_claimed (cf_control s)) \<and>
      cf_waiter s \<noteq> Waiter_Threw \<and> cf_owner s \<noteq> Owner_Threw)"

fun says_not_started :: "waiter \<Rightarrow> bool" where
  "says_not_started Claiming_Timeout = True"
| "says_not_started (Publishing r) = (r = Not_Started)"
| "says_not_started (Answered r j) = (r = Not_Started)"
| "says_not_started w = False"

definition start_ok :: "config \<Rightarrow> bool" where
  "start_ok s =
     ((is_working (cf_owner s) \<longrightarrow> cc_ever_started (cf_control s)) \<and>
      (cc_state (cf_control s) = Pending \<longrightarrow> \<not> cc_ever_started (cf_control s)) \<and>
      (says_not_started (cf_waiter s) \<or> cf_promise s = Some Not_Started \<longrightarrow>
         cc_state (cf_control s) = Cancelled \<and> \<not> cc_ever_started (cf_control s)))"

lemma claim_ok_waiter: "waiter_step mname d s t \<Longrightarrow> claim_ok s \<Longrightarrow> claim_ok t"
  by (induction rule: waiter_step.induct) (auto simp: claim_ok_def control_defs split: if_splits)

lemma claim_ok_owner: "owner_step s t \<Longrightarrow> claim_ok s \<Longrightarrow> claim_ok t"
  by (induction rule: owner_step.induct) (auto simp: claim_ok_def control_defs split: if_splits)

lemma start_ok_waiter: "waiter_step mname d s t \<Longrightarrow> start_ok s \<Longrightarrow> start_ok t"
  by (induction rule: waiter_step.induct) (auto simp: start_ok_def control_defs split: if_splits)

lemma start_ok_owner: "owner_step s t \<Longrightarrow> start_ok s \<Longrightarrow> start_ok t"
  by (induction rule: owner_step.induct) (auto simp: start_ok_def control_defs split: if_splits)

lemma reachable_ok: "reachable mname d s \<Longrightarrow> claim_ok s \<and> start_ok s"
proof (induction rule: reachable.induct)
  case queued
  then show ?case by (simp add: posted_def new_control_def claim_ok_def start_ok_def)
next
  case unready
  then show ?case by (simp add: posted_unready_def new_control_def claim_ok_def start_ok_def control_defs)
next
  case (step s t)
  then show ?case
    using claim_ok_waiter claim_ok_owner start_ok_waiter start_ok_owner by (auto simp: command_step_def)
qed

inductive_cases waiter_stepE: "waiter_step mname d s t"
inductive_cases owner_stepE: "owner_step s t"

lemma waiter_step_promise: "waiter_step mname d s t \<Longrightarrow> cf_promise s = Some r \<Longrightarrow> cf_promise t = Some r"
  by (induction rule: waiter_step.induct) auto

lemma owner_step_promise: "owner_step s t \<Longrightarrow> cf_promise s = Some r \<Longrightarrow> cf_promise t = Some r"
  by (induction rule: owner_step.induct) auto

text \<open>
  (C3) One response, however the deadline, the main thread and the shutdown interleave: no party
  ever sets the promise a second time (which would throw), and what was published stays.
\<close>

theorem response_is_published_once:
  assumes "reachable mname d s" "command_step mname d s t"
  shows "cf_waiter t \<noteq> Waiter_Threw \<and> cf_owner t \<noteq> Owner_Threw \<and>
    (\<forall>r. cf_promise s = Some r \<longrightarrow> cf_promise t = Some r)"
proof -
  have "claim_ok t" using reachable_ok[OF reachable.step[OF assms]] by blast
  then show ?thesis
    using assms(2) waiter_step_promise owner_step_promise by (auto simp: claim_ok_def command_step_def)
qed

lemma reachable_run: "(command_step mname d)\<^sup>*\<^sup>* s t \<Longrightarrow> reachable mname d s \<Longrightarrow> reachable mname d t"
  by (induction rule: rtranclp_induct) (auto intro: reachable.step)

lemma answered_stays: "command_step mname d s t \<Longrightarrow> cf_waiter s = Answered r j \<Longrightarrow> cf_waiter t = Answered r j"
  unfolding command_step_def by (elim disjE waiter_stepE owner_stepE) (auto split: if_splits)

lemma answered_stays_run:
  "(command_step mname d)\<^sup>*\<^sup>* s t \<Longrightarrow> cf_waiter s = Answered r j \<Longrightarrow> cf_waiter t = Answered r j"
  by (induction rule: rtranclp_induct) (auto dest: answered_stays)

text \<open>
  (C1) \<open>not_started\<close> is true for good: once the waiting thread has answered that a command timed
  out before execution, the command has not been started and no later step of any party ever
  starts it, so repeating the request cannot run it twice.
\<close>

theorem not_started_is_true:
  assumes "reachable mname d s" "cf_waiter s = Answered Not_Started j" "(command_step mname d)\<^sup>*\<^sup>* s t"
  shows "\<not> cc_ever_started (cf_control t) \<and> \<not> is_working (cf_owner t) \<and> cc_state (cf_control t) = Cancelled"
proof -
  have "start_ok t" using reachable_ok[OF reachable_run[OF assms(3,1)]] by blast
  then show ?thesis using answered_stays_run[OF assms(3,2)] by (auto simp: start_ok_def)
qed

section \<open>Every wait ends\<close>

fun waiter_left :: "waiter \<Rightarrow> nat" where
  "waiter_left Waiting = 7"
| "waiter_left Cancelling_Pending = 6"
| "waiter_left Cancelling_Running = 5"
| "waiter_left Claiming_Timeout = 4"
| "waiter_left Claiming_Unknown = 4"
| "waiter_left (Publishing r) = 3"
| "waiter_left Getting = 2"
| "waiter_left Last_Wait = 2"
| "waiter_left (Answered r j) = 0"
| "waiter_left Waiter_Threw = 0"

fun owner_left :: "owner \<Rightarrow> nat" where
  "owner_left Queued = 6"
| "owner_left Executing = 5"
| "owner_left (Finishing j) = 4"
| "owner_left (Claiming j) = 3"
| "owner_left (Fulfilling j) = 2"
| "owner_left Gone = 0"
| "owner_left Owner_Threw = 0"

definition steps_left :: "config \<Rightarrow> nat" where
  "steps_left s = waiter_left (cf_waiter s) + owner_left (cf_owner s)"

lemma waiter_step_left: "waiter_step mname d s t \<Longrightarrow> steps_left t < steps_left s"
  by (induction rule: waiter_step.induct) (auto simp: steps_left_def)

lemma owner_step_left: "owner_step s t \<Longrightarrow> steps_left t < steps_left s"
  by (induction rule: owner_step.induct) (auto simp: steps_left_def)

lemma steps_left_run: "(command_step mname d ^^ n) s t \<Longrightarrow> n + steps_left t \<le> steps_left s"
proof (induction n arbitrary: t)
  case (Suc n)
  then obtain u where u: "(command_step mname d ^^ n) s u" "command_step mname d u t" by auto
  have "steps_left t < steps_left u" using u(2) waiter_step_left owner_step_left by (auto simp: command_step_def)
  then show ?case using Suc.IH[OF u(1)] by simp
qed simp

lemma steps_left_bound: "steps_left s \<le> 13"
proof -
  have "waiter_left (cf_waiter s) \<le> 7" by (cases "cf_waiter s") simp_all
  moreover have "owner_left (cf_owner s) \<le> 6" by (cases "cf_owner s") simp_all
  ultimately show ?thesis unfolding steps_left_def by linarith
qed

lemma waiter_can_step:
  assumes "claim_ok s" "\<not> (\<exists>r j. cf_waiter s = Answered r j)"
  shows "\<exists>t. command_step mname d s t"
proof (cases "\<exists>t. waiter_step mname d s t")
  case True
  then show ?thesis by (auto simp: command_step_def)
next
  case False
  have "cf_waiter s = Getting \<and> cf_promise s = None"
  proof (cases "cf_waiter s")
    case Waiting
    then show ?thesis using False by (metis option.exhaust waiter_step.ready waiter_step.deadline)
  next
    case Cancelling_Pending
    then show ?thesis using False by (metis surj_pair waiter_step.cancel_pending)
  next
    case Claiming_Timeout
    then show ?thesis using False by (metis surj_pair waiter_step.claim_timeout)
  next
    case (Publishing r)
    then show ?thesis using False waiter_step.publish by blast
  next
    case Getting
    then show ?thesis using False by (metis option.exhaust waiter_step.get)
  next
    case Cancelling_Running
    then show ?thesis using False by (metis surj_pair waiter_step.cancel_running)
  next
    case Claiming_Unknown
    then show ?thesis using False by (metis surj_pair waiter_step.claim_unknown)
  next
    case Last_Wait
    then show ?thesis using False by (metis option.exhaust waiter_step.last_ready waiter_step.last_unknown)
  next
    case (Answered r j)
    then show ?thesis using assms(2) by blast
  next
    case Waiter_Threw
    then show ?thesis using assms(1) by (simp add: claim_ok_def)
  qed
  then have "is_fulfilling (cf_owner s)" using assms(1) by (auto simp: claim_ok_def)
  then obtain j where "cf_owner s = Fulfilling j" by (cases "cf_owner s") auto
  then show ?thesis using owner_step.fulfil unfolding command_step_def by blast
qed

text \<open>
  (C2) Every wait is answered: from any reachable point no run takes more than 13 further steps,
  and a run that cannot be continued has given the waiting thread its answer, so the unbounded
  wait for a response someone else has claimed never blocks for ever.
\<close>

theorem every_wait_is_answered:
  assumes "reachable mname d s"
  shows "(\<forall>n t. (command_step mname d ^^ n) s t \<longrightarrow> n \<le> 13) \<and>
    (\<forall>t. (command_step mname d)\<^sup>*\<^sup>* s t \<longrightarrow> (\<nexists>u. command_step mname d t u) \<longrightarrow> (\<exists>r j. cf_waiter t = Answered r j))"
proof (intro conjI allI impI)
  fix n t
  assume "(command_step mname d ^^ n) s t"
  then show "n \<le> 13" using steps_left_run[of n mname d s t] steps_left_bound[of s] by linarith
next
  fix t
  assume "(command_step mname d)\<^sup>*\<^sup>* s t" "\<nexists>u. command_step mname d t u"
  then show "\<exists>r j. cf_waiter t = Answered r j"
    using waiter_can_step reachable_ok[OF reachable_run[OF _ assms]] by blast
qed

text \<open>
  A command's state only moves forward, in the order pending, running, cancelled, completed,
  under every step of every party.
\<close>

theorem states_move_forward:
  assumes "command_step mname d s t"
  shows "cc_state (cf_control s) \<le> cc_state (cf_control t) \<and>
    (cc_ever_started (cf_control s) \<longrightarrow> cc_ever_started (cf_control t))"
proof -
  have top: "x \<le> Completed" for x by (cases x) (simp_all add: less_eq_command_state_def)
  have up: "Pending \<le> Running" "Pending \<le> Cancelled" "Running \<le> Cancelled"
    by (simp_all add: less_eq_command_state_def)
  show ?thesis
    using assms unfolding command_step_def
    by (elim disjE waiter_stepE owner_stepE) (auto simp: control_defs top up split: if_splits)
qed

section \<open>Two runs\<close>

definition timed_out :: config where
  "timed_out = posted\<lparr>cf_control := new_control\<lparr>cc_state := Cancelled\<rparr>, cf_waiter := Claiming_Timeout\<rparr>"

lemma timed_out_reachable: "reachable mname d timed_out"
proof -
  have "command_step mname d posted (posted\<lparr>cf_waiter := Cancelling_Pending\<rparr>)"
    unfolding command_step_def by (intro disjI1 waiter_step.deadline) (simp_all add: posted_def)
  then have r: "reachable mname d (posted\<lparr>cf_waiter := Cancelling_Pending\<rparr>)"
    by (rule reachable.step[OF reachable.queued])
  have "try_cancel_pending (cf_control (posted\<lparr>cf_waiter := Cancelling_Pending\<rparr>)) = (True, new_control\<lparr>cc_state := Cancelled\<rparr>)"
    by (simp add: posted_def new_control_def try_cancel_pending_def)
  then have "command_step mname d (posted\<lparr>cf_waiter := Cancelling_Pending\<rparr>) timed_out"
    using waiter_step.cancel_pending[of "posted\<lparr>cf_waiter := Cancelling_Pending\<rparr>" True "new_control\<lparr>cc_state := Cancelled\<rparr>" mname d]
    unfolding command_step_def by (simp add: posted_def timed_out_def)
  then show ?thesis by (rule reachable.step[OF r])
qed

text \<open>The plain timeout: the waiting thread claims, publishes and answers that nothing started.\<close>

definition answered_not_started :: "string \<Rightarrow> session_descriptor \<Rightarrow> config" where
  "answered_not_started mname d =
     timed_out\<lparr>cf_control := new_control\<lparr>cc_state := Cancelled, cc_response_claimed := True\<rparr>,
       cf_promise := Some Not_Started, cf_waiter := Answered Not_Started (render mname d Not_Started)\<rparr>"

lemma answered_not_started_reachable: "reachable mname d (answered_not_started mname d)"
proof -
  let ?c = "new_control\<lparr>cc_state := Cancelled, cc_response_claimed := True\<rparr>"
  let ?s1 = "timed_out\<lparr>cf_control := ?c, cf_waiter := Publishing Not_Started\<rparr>"
  let ?s2 = "?s1\<lparr>cf_promise := Some Not_Started, cf_waiter := Getting\<rparr>"
  have "command_step mname d timed_out ?s1"
    using waiter_step.claim_timeout[of timed_out True ?c mname d]
    unfolding command_step_def by (simp add: timed_out_def posted_def new_control_def try_claim_response_def)
  from reachable.step[OF timed_out_reachable this] have r1: "reachable mname d ?s1" .
  have "command_step mname d ?s1 ?s2"
    using waiter_step.publish[of ?s1 Not_Started mname d]
    unfolding command_step_def by (simp add: timed_out_def posted_def)
  from reachable.step[OF r1 this] have r2: "reachable mname d ?s2" .
  have "command_step mname d ?s2 (answered_not_started mname d)"
    using waiter_step.get[of ?s2 Not_Started mname d]
    unfolding command_step_def by (simp add: timed_out_def posted_def answered_not_started_def)
  from reachable.step[OF r2 this] show ?thesis .
qed

text \<open>
  The race: the main thread finds the command cancelled and claims the response first, so the
  waiting thread passes on what the main thread published, without the session envelope.
\<close>

definition raced :: config where
  "raced = timed_out\<lparr>cf_control := new_control\<lparr>cc_state := Cancelled, cc_response_claimed := True\<rparr>,
     cf_promise := Some (Answer cancelled_before_execution), cf_owner := Gone,
     cf_waiter := Answered (Answer cancelled_before_execution) cancelled_before_execution\<rparr>"

lemma raced_reachable: "reachable mname d raced"
proof -
  let ?c = "new_control\<lparr>cc_state := Cancelled, cc_response_claimed := True\<rparr>"
  let ?s1 = "timed_out\<lparr>cf_owner := Claiming cancelled_before_execution\<rparr>"
  let ?s2 = "timed_out\<lparr>cf_control := ?c, cf_owner := Fulfilling cancelled_before_execution\<rparr>"
  let ?s3 = "?s2\<lparr>cf_waiter := Getting\<rparr>"
  let ?s4 = "?s3\<lparr>cf_promise := Some (Answer cancelled_before_execution), cf_owner := Gone\<rparr>"
  have "command_step mname d timed_out ?s1"
    using owner_step.start[of timed_out False "new_control\<lparr>cc_state := Cancelled\<rparr>"]
    unfolding command_step_def by (simp add: timed_out_def posted_def new_control_def try_start_def)
  from reachable.step[OF timed_out_reachable this] have r1: "reachable mname d ?s1" .
  have "command_step mname d ?s1 ?s2"
    using owner_step.claim[of ?s1 cancelled_before_execution True ?c]
    unfolding command_step_def by (simp add: timed_out_def posted_def new_control_def try_claim_response_def)
  from reachable.step[OF r1 this] have r2: "reachable mname d ?s2" .
  have "command_step mname d ?s2 ?s3"
    using waiter_step.claim_timeout[of ?s2 False ?c mname d]
    unfolding command_step_def by (simp add: timed_out_def posted_def new_control_def try_claim_response_def)
  from reachable.step[OF r2 this] have r3: "reachable mname d ?s3" .
  have "command_step mname d ?s3 ?s4"
    using owner_step.fulfil[of ?s3 cancelled_before_execution]
    unfolding command_step_def by (simp add: timed_out_def posted_def)
  from reachable.step[OF r3 this] have r4: "reachable mname d ?s4" .
  have "command_step mname d ?s4 raced"
    using waiter_step.get[of ?s4 "Answer cancelled_before_execution" mname d]
    unfolding command_step_def by (simp add: timed_out_def posted_def raced_def render_def)
  from reachable.step[OF r4 this] show ?thesis .
qed

text \<open>
  An answer can lose its envelope: when the main thread dequeues a command the waiting
  thread has just cancelled and claims the response first, the waiting thread returns that
  answer as it was published, without the session it happened on, while the same answer read
  inside the deadline is decorated.
\<close>

theorem cancelled_answer_loses_its_envelope:
  "\<exists>s j. reachable mname d s \<and> cf_waiter s = Answered (Answer j) j \<and> \<not> is_decorated d j \<and>
     is_decorated d (decorate_runtime_response j d)"
proof (intro exI conjI)
  show "reachable mname d raced" by (rule raced_reachable)
  show "cf_waiter raced = Answered (Answer cancelled_before_execution) cancelled_before_execution"
    by (simp add: raced_def)
  show "\<not> is_decorated d cancelled_before_execution"
    by (simp add: is_decorated_def cancelled_before_execution_def jget_jobj)
  show "is_decorated d (decorate_runtime_response cancelled_before_execution d)"
    unfolding cancelled_before_execution_def by (intro decorate_is_decorated) (auto intro!: json_ok_jobj)
qed

lemma not_started_is_true_witness:
  "\<exists>d. cf_waiter (answered_not_started ''m'' d) = Answered Not_Started (render ''m'' d Not_Started) \<and>
     \<not> cc_ever_started (cf_control (answered_not_started ''m'' d))"
  using not_started_is_true[OF answered_not_started_reachable _ rtranclp.rtrancl_refl, of "''m''"]
  by (simp add: answered_not_started_def)

lemma posted_waits: "command_step mname d posted (posted\<lparr>cf_waiter := Cancelling_Pending\<rparr>)"
  unfolding command_step_def by (intro disjI1 waiter_step.deadline) (simp_all add: posted_def)

lemma response_is_published_once_witness:
  "\<exists>d t. command_step ''m'' d posted t \<and> cf_waiter t \<noteq> Waiter_Threw"
  using response_is_published_once[OF reachable.queued posted_waits] posted_waits by blast

lemma every_wait_is_answered_witness: "\<exists>d. \<forall>n t. (command_step ''m'' d ^^ n) posted t \<longrightarrow> n \<le> 13"
  using every_wait_is_answered[OF reachable.queued] by blast

lemma states_move_forward_witness:
  "\<exists>d t. command_step ''m'' d posted t \<and> Pending \<le> cc_state (cf_control t)"
proof -
  have "cc_state (cf_control posted) = Pending" by (simp add: posted_def new_control_def)
  then show ?thesis using states_move_forward[OF posted_waits] posted_waits by metis
qed

section \<open>Detached reimports and their progress\<close>

datatype reimport_progress_state = Reimport_Pending | Reimport_Idle | Reimport_Timed_Out

record reimport_progress =
  rp_started_at :: int
  rp_deadline :: int
  rp_consecutive_idle :: nat

definition reimport_progress_start :: "int \<Rightarrow> int \<Rightarrow> reimport_progress" where
  "reimport_progress_start started_at timeout =
     \<lparr>rp_started_at = started_at, rp_deadline = started_at + timeout, rp_consecutive_idle = 0\<rparr>"

definition observe_reimport :: "bool \<Rightarrow> int \<Rightarrow> reimport_progress \<Rightarrow> reimport_progress_state \<times> reimport_progress" where
  "observe_reimport scanning now p =
     (if now \<ge> rp_deadline p then (Reimport_Timed_Out, p)
      else if scanning then (Reimport_Pending, p\<lparr>rp_consecutive_idle := 0\<rparr>)
      else
        let q = p\<lparr>rp_consecutive_idle := rp_consecutive_idle p + 1\<rparr>
        in (if rp_consecutive_idle q \<ge> 2 then Reimport_Idle else Reimport_Pending, q))"

definition reimport_expired :: "int \<Rightarrow> reimport_progress \<Rightarrow> bool" where
  "reimport_expired now p = (now \<ge> rp_deadline p)"

text \<open>Times are nanoseconds; \<open>duration_cast\<close> to milliseconds truncates towards zero.\<close>

definition whole_ms :: "int \<Rightarrow> int" where
  "whole_ms t = (if 0 \<le> t then t div 1000000 else - ((- t) div 1000000))"

definition reimport_elapsed_ms :: "int \<Rightarrow> reimport_progress \<Rightarrow> int" where
  "reimport_elapsed_ms now p = whole_ms (now - rp_started_at p)"

record detached_entry =
  de_id :: string
  de_started :: int
  de_last_read :: int
  de_answer :: "json option"

definition k_reader_lease :: int where
  "k_reader_lease = 60 * 1000000000"

definition k_kept :: nat where
  "k_kept = 8"

fun drop_first_finished :: "detached_entry list \<Rightarrow> detached_entry list option" where
  "drop_first_finished [] = None"
| "drop_first_finished (e # es) =
     (if de_answer e \<noteq> None then Some es else map_option ((#) e) (drop_first_finished es))"

lemma drop_first_finished_length: "drop_first_finished es = Some fs \<Longrightarrow> length es = Suc (length fs)"
  by (induction es arbitrary: fs) (auto split: if_splits)

function make_room :: "detached_entry list \<Rightarrow> detached_entry list" where
  "make_room es =
     (if length es < k_kept then es
      else case drop_first_finished es of None \<Rightarrow> es | Some fs \<Rightarrow> make_room fs)"
  by auto
termination
  by (relation "measure length") (auto dest: drop_first_finished_length)

declare make_room.simps [simp del]

definition begin_detached :: "string \<Rightarrow> int \<Rightarrow> detached_entry list \<Rightarrow> detached_entry list" where
  "begin_detached i now es = make_room es @ [\<lparr>de_id = i, de_started = now, de_last_read = now, de_answer = None\<rparr>]"

definition finish_detached :: "string \<Rightarrow> json \<Rightarrow> detached_entry list \<Rightarrow> detached_entry list" where
  "finish_detached i answer es =
     map (\<lambda>e. if de_id e = i \<and> de_answer e = None then e\<lparr>de_answer := Some answer\<rparr> else e) es"

definition detached_status :: "string \<Rightarrow> int \<Rightarrow> detached_entry \<Rightarrow> json" where
  "detached_status id_key now e =
     jobj ([(id_key, JStr (de_id e)),
            (''state'', JStr (if de_answer e \<noteq> None then ''finished'' else ''working'')),
            (''elapsed_ms'', JInt (whole_ms (now - de_started e)))] @
           (case de_answer e of None \<Rightarrow> [] | Some a \<Rightarrow> [(''answer'', a)]))"

fun read_detached :: "string \<Rightarrow> string \<Rightarrow> int \<Rightarrow> detached_entry list \<Rightarrow> json option \<times> detached_entry list" where
  "read_detached id_key i now [] = (None, [])"
| "read_detached id_key i now (e # es) =
     (if de_id e \<noteq> i then (case read_detached id_key i now es of (r, fs) \<Rightarrow> (r, e # fs))
      else (Some (detached_status id_key now e), e\<lparr>de_last_read := now\<rparr> # es))"

definition unread_detached :: "string \<Rightarrow> int \<Rightarrow> detached_entry list \<Rightarrow> bool" where
  "unread_detached i now es =
     (case find (\<lambda>e. de_id e = i) es of
        None \<Rightarrow> False
      | Some e \<Rightarrow> de_answer e = None \<and> now - de_last_read e \<ge> k_reader_lease)"

text \<open>Only finished answers make room, and the store is bounded while one reimport works at a time.\<close>

definition working :: "detached_entry list \<Rightarrow> detached_entry list" where
  "working es = filter (\<lambda>e. de_answer e = None) es"

lemma drop_first_finished_working: "drop_first_finished es = Some fs \<Longrightarrow> working fs = working es"
  by (induction es arbitrary: fs) (auto simp: working_def split: if_splits)

lemma drop_first_finished_None: "drop_first_finished es = None \<longleftrightarrow> working es = es"
  by (induction es) (auto simp: working_def dest: filter_eq_ConsD)

lemma make_room_working: "working (make_room es) = working es"
  by (induction es rule: make_room.induct)
     (subst make_room.simps, auto split: option.splits simp: drop_first_finished_working)

lemma make_room_bound: "length (make_room es) \<le> max (k_kept - 1) (length (working es))"
proof (induction es rule: make_room.induct)
  case (1 es)
  show ?case
  proof (cases "length es < k_kept")
    case False
    then show ?thesis
    proof (cases "drop_first_finished es")
      case None
      then have "working es = es" by (simp add: drop_first_finished_None)
      then show ?thesis using None False by (subst make_room.simps) simp
    next
      case (Some fs)
      then show ?thesis using False 1[OF False Some] drop_first_finished_working[OF Some]
        by (subst make_room.simps) simp
    qed
  qed (simp add: make_room.simps)
qed

lemma begin_detached_bound: "length (working es) < k_kept \<Longrightarrow> length (begin_detached i now es) \<le> k_kept"
  using make_room_bound[of es] by (simp add: begin_detached_def k_kept_def)

lemma finished_answer_is_read:
  assumes "find (\<lambda>e. de_id e = i) es = Some e" "de_answer e = None" "id_key \<notin> {''state'', ''elapsed_ms'', ''answer''}"
  shows "\<exists>status. fst (read_detached id_key i now (finish_detached i answer es)) = Some status \<and>
     jget status ''answer'' = Some answer \<and> jget status ''state'' = Some (JStr ''finished'')"
  using assms
proof (induction es)
  case (Cons f es)
  then show ?case
    by (cases "de_id f = i") (auto simp: finish_detached_def detached_status_def jget_jobj split: prod.splits)
qed simp

section \<open>The queue\<close>

definition k_max_commands_per_frame :: nat where
  "k_max_commands_per_frame = 64"

definition held_back :: "bool \<Rightarrow> bool \<Rightarrow> string \<Rightarrow> bool" where
  "held_back starting settling mname =
     ((starting \<and> (mname = ''scene.open'' \<or> mname = ''scene.create'')) \<or>
      (settling \<and> (mname = ''scene.create'' \<or> mname = ''scene.packBranch'')))"

fun take_commands :: "bool \<Rightarrow> bool \<Rightarrow> nat \<Rightarrow> ('c \<Rightarrow> string) \<Rightarrow> 'c list \<Rightarrow> 'c list \<times> 'c list" where
  "take_commands starting settling 0 method_of q = ([], q)"
| "take_commands starting settling (Suc n) method_of [] = ([], [])"
| "take_commands starting settling (Suc n) method_of (c # q) =
     (if held_back starting settling (method_of c) then ([], c # q)
      else case take_commands starting settling n method_of q of (taken, rest) \<Rightarrow> (c # taken, rest))"

definition take_frame :: "bool \<Rightarrow> bool \<Rightarrow> ('c \<Rightarrow> string) \<Rightarrow> 'c list \<Rightarrow> 'c list \<times> 'c list" where
  "take_frame starting settling method_of q = take_commands starting settling k_max_commands_per_frame method_of q"

lemma take_commands_prefix:
  assumes "take_commands starting settling n method_of q = (taken, rest)"
  shows "q = taken @ rest \<and> length taken \<le> n \<and> (\<forall>c \<in> set taken. \<not> held_back starting settling (method_of c)) \<and>
    (rest \<noteq> [] \<longrightarrow> length taken = n \<or> held_back starting settling (method_of (hd rest)))"
  using assms
  by (induction starting settling n method_of q arbitrary: taken rest rule: take_commands.induct)
     (fastforce split: if_splits prod.splits)+

text \<open>
  Nothing overtakes a held command: a frame takes a prefix of the queue, at most 64 commands
  and none that has to wait for the editor, and stops only at the limit, at the end of the queue
  or in front of a command that is held.
\<close>

theorem frames_keep_the_order:
  "case take_frame starting settling method_of q of
     (taken, rest) \<Rightarrow> q = taken @ rest \<and> length taken \<le> 64 \<and>
       (\<forall>c \<in> set taken. \<not> held_back starting settling (method_of c)) \<and>
       (rest = [] \<or> length taken = 64 \<or> held_back starting settling (method_of (hd rest)))"
  using take_commands_prefix[of starting settling k_max_commands_per_frame method_of q]
  by (auto simp: take_frame_def k_max_commands_per_frame_def split: prod.splits)

lemma frames_keep_the_order_witness:
  "\<exists>taken rest. take_frame False True id [''scene.open'', ''scene.create'', ''scene.open''] = (taken, rest) \<and>
     taken = [''scene.open''] \<and> (\<forall>c \<in> set taken. \<not> held_back False True c)"
proof -
  have "take_frame False True id [''scene.open'', ''scene.create'', ''scene.open''] =
      ([''scene.open''], [''scene.create'', ''scene.open''])" by code_simp
  then show ?thesis
    using frames_keep_the_order[where starting = False and settling = True and method_of = id
        and q = "[''scene.open'', ''scene.create'', ''scene.open'']"] by simp
qed

end
