(* ===== verification/Config_File.thy ===== *)
theory Config_File
  imports Utf8
begin

text \<open>
  The line rules of Godot's ConfigFile, \<open>src/common/config_file_syntax.cpp\<close>: the quoted
  strings, the walk over a value that may span lines, the key tokens, the scan of a whole file
  and the shapes of a value the engine provably refuses. Positions in a text are counted from
  what is left of it, so every walk is a recursion on the text.
\<close>

section \<open>Quoted strings\<close>

definition hex_value :: "char \<Rightarrow> nat option" where
  "hex_value c =
     (if is_digit c then Some (byte c - 48)
      else if 97 \<le> byte c \<and> byte c \<le> 102 then Some (byte c - 97 + 10)
      else if 65 \<le> byte c \<and> byte c \<le> 70 then Some (byte c - 65 + 10)
      else None)"

text \<open>The unit read, whether a digit was not hex, and what is left.\<close>

fun take_hex :: "nat \<Rightarrow> nat \<Rightarrow> string \<Rightarrow> nat \<times> bool \<times> string" where
  "take_hex 0 u cs = (u, False, cs)"
| "take_hex (Suc n) u [] = (u, False, [])"
| "take_hex (Suc n) u (c # cs) =
     (case hex_value c of None \<Rightarrow> (u, True, c # cs) | Some v \<Rightarrow> take_hex n (u * 16 + v) cs)"

lemma length_take_hex: "take_hex n u cs = (v, bad, rest) \<Longrightarrow> length rest \<le> length cs"
  by (induction n u cs rule: take_hex.induct) (auto split: option.splits)

fun refuse_with :: "string option \<Rightarrow> string \<Rightarrow> string option" where
  "refuse_with None reason = Some reason"
| "refuse_with (Some p) reason = Some p"

definition k_unpaired_lead :: string where
  "k_unpaired_lead = ''the string has a UTF-16 lead surrogate escape with no trail surrogate escape after it''"

text \<open>The escape that follows a backslash: the unit, the refusal and what is left.\<close>

definition escape_unit :: "char \<Rightarrow> string \<Rightarrow> nat \<times> string option \<times> string" where
  "escape_unit e es =
     (if e = CHR ''b'' then (8, None, es)
      else if e = CHR ''t'' then (9, None, es)
      else if e = CHR ''n'' then (10, None, es)
      else if e = CHR ''f'' then (12, None, es)
      else if e = CHR ''r'' then (13, None, es)
      else if e = CHR ''u'' \<or> e = CHR ''U'' then
        (case take_hex (if e = CHR ''U'' then 6 else 4) 0 es of
           (u, bad, rest) \<Rightarrow>
             (u, if bad then Some (if e = CHR ''U''
                   then ''the string has a '' @ [CHR 0x5C] @ ''U escape without six hex digits after it''
                   else ''the string has a '' @ [CHR 0x5C] @ ''u escape without four hex digits after it'')
                 else None, rest))
      else (byte e, None, es))"

lemma length_escape_unit: "escape_unit e es = (u, p, rest) \<Longrightarrow> length rest \<le> length es"
  by (auto simp: escape_unit_def split: if_splits prod.splits dest: length_take_hex)

record decoded_string =
  ds_bytes :: string
  ds_problem :: "string option"
  ds_rest :: string
  ds_closed :: bool
  ds_lead :: nat

definition keep_unit :: "nat \<Rightarrow> string" where
  "keep_unit u = [if u = 0 \<or> 255 < u then CHR '' '' else char_of u]"

definition refuse_lead :: "nat \<Rightarrow> string option \<Rightarrow> string option" where
  "refuse_lead lead p = (if lead \<noteq> 0 then refuse_with p k_unpaired_lead else p)"

text \<open>One escape: the pending lead surrogate, the bytes, the first refusal and what is left.\<close>

definition decode_escape ::
  "nat \<Rightarrow> string \<Rightarrow> string option \<Rightarrow> char \<Rightarrow> string \<Rightarrow> nat \<times> string \<times> string option \<times> string" where
  "decode_escape lead bytes p e es =
     (case escape_unit e es of
        (u, bad, rest) \<Rightarrow>
          let p = (case bad of None \<Rightarrow> p | Some reason \<Rightarrow> refuse_with p reason)
          in if u div 1024 = 54 then (u, bytes, refuse_lead lead p, rest)
             else if u div 1024 = 55 then
               (if lead = 0 then
                  (0, bytes, refuse_with p (''the string has a UTF-16 trail surrogate escape with no lead surrogate '' @
                     ''escape before it''), rest)
                else (0, bytes @ keep_unit (lead * 1024 + u - (0xD800 * 1024 + 0xDC00 - 0x10000)), p, rest))
             else (lead, bytes @ keep_unit u, refuse_lead lead p, rest))"

lemma length_decode_escape: "decode_escape lead bytes p e es = (l, b, q, rest) \<Longrightarrow> length rest \<le> length es"
  by (auto simp: decode_escape_def Let_def split: prod.splits if_splits dest: length_escape_unit)

lemma decode_escape_measure:
  "(case decode_escape lead bytes p e es of (l, b, q, rest) \<Rightarrow> length rest) < Suc (Suc (length es))"
  using length_decode_escape by (fastforce split: prod.split)

function decode_string_loop :: "nat \<Rightarrow> string \<Rightarrow> string option \<Rightarrow> string \<Rightarrow> decoded_string" where
  "decode_string_loop lead bytes p [] =
     \<lparr>ds_bytes = bytes, ds_problem = p, ds_rest = [], ds_closed = False, ds_lead = lead\<rparr>"
| "decode_string_loop lead bytes p (c # cs) =
     (if c = CHR 0x22 then
        \<lparr>ds_bytes = bytes, ds_problem = p, ds_rest = cs, ds_closed = True, ds_lead = lead\<rparr>
      else if c \<noteq> CHR 0x5C then decode_string_loop lead (bytes @ [c]) (refuse_lead lead p) cs
      else case cs of
        [] \<Rightarrow> \<lparr>ds_bytes = bytes, ds_problem = p, ds_rest = [], ds_closed = False, ds_lead = lead\<rparr>
      | e # es \<Rightarrow>
          (case decode_escape lead bytes p e es of (l, b, q, rest) \<Rightarrow> decode_string_loop l b q rest))"
  by pat_completeness auto
termination
  by (relation "measure (\<lambda>(lead, bytes, p, cs). length cs)") (auto simp: decode_escape_measure)

definition decode_string :: "string \<Rightarrow> decoded_string" where
  "decode_string cs =
     (let d = decode_string_loop 0 [] None cs
      in if ds_closed d \<and> ds_lead d \<noteq> 0 then d\<lparr>ds_problem := refuse_with (ds_problem d) k_unpaired_lead\<rparr> else d)"

definition decoded_text :: "decoded_string \<Rightarrow> string" where
  "decoded_text d = (if ds_problem d = None then decode_utf8_the_way_godot_does (ds_bytes d) else [])"

section \<open>Identifiers and blanks\<close>

definition is_name_start :: "char \<Rightarrow> bool" where
  "is_name_start c = (is_alpha c \<or> c = CHR ''_'')"

definition is_name_char :: "char \<Rightarrow> bool" where
  "is_name_char c = (is_alnum c \<or> c = CHR ''_'')"

definition is_value_keyword :: "string \<Rightarrow> bool" where
  "is_value_keyword w = (w \<in> {''true'', ''false'', ''null'', ''nil'', ''nan'', ''inf'', ''inf_neg''})"

definition skip_space :: "string \<Rightarrow> string" where
  "skip_space s = dropWhile is_space s"

lemma length_skip_space: "length (skip_space s) \<le> length s"
  by (simp add: skip_space_def length_dropWhile_le)

definition trimmed :: "string \<Rightarrow> string" where
  "trimmed s = rev (dropWhile is_space (rev (dropWhile is_space s)))"

definition is_comment :: "string \<Rightarrow> bool" where
  "is_comment line = (trim line \<noteq> [] \<and> hd (trim line) = CHR '';'')"

section \<open>The walk over a value\<close>

record value_state =
  vs_depth :: nat
  vs_in_string :: bool
  vs_seen :: bool
  vs_identifier :: bool
  vs_awaiting_call :: bool
  vs_annotation :: bool

definition fresh_value :: value_state where
  "fresh_value = \<lparr>vs_depth = 0, vs_in_string = False, vs_seen = False, vs_identifier = False,
     vs_awaiting_call = False, vs_annotation = False\<rparr>"

definition reading_keyword :: "string option \<Rightarrow> bool" where
  "reading_keyword word = (case word of None \<Rightarrow> False | Some w \<Rightarrow> is_value_keyword w)"

definition opens :: "char \<Rightarrow> value_state \<Rightarrow> value_state" where
  "opens c st =
     (let st = (if vs_depth st = 0
                then st\<lparr>vs_annotation := (c = CHR ''['' \<and> (vs_identifier st \<or> vs_awaiting_call st)), vs_awaiting_call := False\<rparr>
                else st)
      in st\<lparr>vs_depth := vs_depth st + 1, vs_seen := True, vs_identifier := False\<rparr>)"

definition closes :: "value_state \<Rightarrow> value_state" where
  "closes st = st\<lparr>vs_depth := vs_depth st - 1, vs_seen := True, vs_identifier := False\<rparr>"

definition plain_char :: "char \<Rightarrow> string option \<Rightarrow> value_state \<Rightarrow> string option \<times> value_state" where
  "plain_char c word st =
     (if vs_depth st \<noteq> 0 then (word, st\<lparr>vs_seen := True\<rparr>)
      else if vs_seen st then (map_option (\<lambda>w. w @ [c]) word, st\<lparr>vs_identifier := (vs_identifier st \<and> is_name_char c), vs_seen := True\<rparr>)
      else (if is_name_start c then Some [c] else word, st\<lparr>vs_identifier := is_name_start c, vs_seen := True\<rparr>))"

text \<open>
  One byte of a value: carry on past it and some more bytes, stop with the place counted from
  here, or wait for the next line when the line ends after an identifier that may be called. A
  backslash that ends the line inside a string leaves the index one past the line.
\<close>

datatype value_outcome =
    Go "string option" value_state nat
  | Stop "string option" value_state nat
  | Wait value_state

definition string_char :: "string option \<Rightarrow> value_state \<Rightarrow> char \<Rightarrow> string \<Rightarrow> value_outcome" where
  "string_char word st c cs =
     (if c = CHR 0x5C then (if cs = [] then Stop word st 2 else Go word st 1)
      else if c = CHR 0x22 then
        (if vs_depth st = 0 then Stop word (st\<lparr>vs_in_string := False\<rparr>) 1
         else Go word (st\<lparr>vs_in_string := False\<rparr>) 0)
      else Go word st 0)"

definition space_char :: "string option \<Rightarrow> value_state \<Rightarrow> string \<Rightarrow> value_outcome" where
  "space_char word st cs =
     (if vs_depth st = 0 \<and> vs_seen st then
        (if (vs_identifier st \<and> \<not> reading_keyword word) \<or> vs_awaiting_call st then
           (let look = skip_space cs
            in if look = [] then Wait (st\<lparr>vs_identifier := False, vs_awaiting_call := True\<rparr>)
               else if hd look \<in> {CHR ''('', CHR ''[''} then
                 Go word (st\<lparr>vs_identifier := False, vs_awaiting_call := True\<rparr>) (length cs - length look)
               else Stop word st 0)
         else Stop word st 0)
      else Go word st 0)"

definition value_char :: "string option \<Rightarrow> value_state \<Rightarrow> char \<Rightarrow> string \<Rightarrow> value_outcome" where
  "value_char word st c cs =
     (if vs_in_string st then string_char word st c cs
      else if c = CHR '';'' then Stop word st 0
      else if c = CHR 0x22 then Go word (st\<lparr>vs_in_string := True, vs_seen := True, vs_identifier := False\<rparr>) 0
      else if c \<in> set ''[{('' then Go word (opens c st) 0
      else if c \<in> set '']})'' then
        (if vs_depth (closes st) \<noteq> 0 then Go word (closes st) 0
         else if vs_annotation (closes st) then Go word ((closes st)\<lparr>vs_annotation := False, vs_awaiting_call := True\<rparr>) 0
         else Stop word (closes st) 1)
      else if is_space c then space_char word st cs
      else (case plain_char c word st of (word', st') \<Rightarrow> Go word' st' 0))"

function value_loop ::
  "string option \<Rightarrow> value_state \<Rightarrow> nat \<Rightarrow> string \<Rightarrow> (value_state, string option \<times> value_state \<times> nat) result" where
  "value_loop word st i [] = Inr (word, st, i)"
| "value_loop word st i (c # cs) =
     (case value_char word st c cs of
        Go word st n \<Rightarrow> value_loop word st (i + 1 + n) (drop n cs)
      | Stop word st n \<Rightarrow> Inr (word, st, i + n)
      | Wait st \<Rightarrow> Inl st)"
  by pat_completeness auto
termination
  by (relation "measure (\<lambda>(word, st, i, cs). length cs)") simp_all

definition after_loop :: "string \<Rightarrow> string option \<times> value_state \<times> nat \<Rightarrow> bool \<times> value_state \<times> nat" where
  "after_loop line r =
     (case r of (word, st, i) \<Rightarrow>
        let st = (if length line \<le> i \<and> vs_depth st = 0 \<and> \<not> vs_in_string st \<and> vs_identifier st \<and> \<not> reading_keyword word
                  then st\<lparr>vs_identifier := False, vs_awaiting_call := True\<rparr> else st)
        in (\<not> vs_in_string st \<and> vs_depth st = 0 \<and> vs_seen st \<and> \<not> vs_awaiting_call st, st, i))"

definition walk_line :: "string \<Rightarrow> value_state \<Rightarrow> nat \<Rightarrow> string \<Rightarrow> bool \<times> value_state \<times> nat" where
  "walk_line line st i rest =
     (case value_loop None st i rest of
        Inl st \<Rightarrow> (False, st, length line)
      | Inr r \<Rightarrow> after_loop line r)"

definition advance_value :: "string \<Rightarrow> value_state \<Rightarrow> bool \<times> value_state \<times> nat" where
  "advance_value line st =
     (if vs_awaiting_call st then
        (let rest = skip_space line
         in if rest = [] then (False, st, length line)
            else if hd rest \<notin> {CHR ''('', CHR ''[''} then (True, st, 0)
            else walk_line line (st\<lparr>vs_awaiting_call := False\<rparr>) (length line - length rest) rest)
      else walk_line line st 0 line)"

section \<open>Key tokens\<close>

text \<open>A quoted token: its content, whether it closed, and what is left.\<close>

fun quoted_token :: "string \<Rightarrow> string \<times> bool \<times> string" where
  "quoted_token [] = ([], False, [])"
| "quoted_token (c # cs) =
     (if c = CHR 0x5C \<and> cs \<noteq> [] then
        (case cs of [] \<Rightarrow> ([], False, []) | e # es \<Rightarrow> (case quoted_token es of (t, ok, rest) \<Rightarrow> (e # t, ok, rest)))
      else if c = CHR 0x22 then ([], True, cs)
      else (case quoted_token cs of (t, ok, rest) \<Rightarrow> (c # t, ok, rest)))"

lemma length_quoted_token: "length (snd (snd (quoted_token s))) \<le> length s"
proof (induction s rule: quoted_token.induct)
  case (2 c cs)
  consider (escape) e es where "c = CHR 0x5C" "cs = e # es" | (quote) "\<not> (c = CHR 0x5C \<and> cs \<noteq> [])" "c = CHR 0x22"
    | (plain) "\<not> (c = CHR 0x5C \<and> cs \<noteq> [])" "c \<noteq> CHR 0x22"
    by (metis neq_Nil_conv)
  then show ?case
  proof cases
    case escape
    then show ?thesis using "2.IH"(1)[of e es] by (auto split: prod.split)
  next
    case quote
    then show ?thesis by simp
  next
    case plain
    then show ?thesis using "2.IH"(2)[OF plain] by (auto split: prod.split)
  qed
qed simp

text \<open>The key so far, and what follows the equals sign that closes it.\<close>

function append_key_tokens :: "string \<Rightarrow> string \<Rightarrow> string \<times> string option" where
  "append_key_tokens pending [] = (pending, None)"
| "append_key_tokens pending (c # cs) =
     (if c = CHR ''='' then (pending, Some cs)
      else if c = CHR 0x22 then
        (let (content, closed, rest) = quoted_token cs
         in if closed then append_key_tokens content rest else (content, None))
      else append_key_tokens (if is_space c then pending else pending @ [c]) cs)"
  by pat_completeness auto
termination
proof (relation "measure (\<lambda>(pending, s). length s)")
  fix cs :: string and x content y closed rest
  assume "x = quoted_token cs" "(content, y) = x" "(closed, rest) = y"
  then have "rest = snd (snd (quoted_token cs))" by (metis snd_conv)
  then have "length rest \<le> length cs" using length_quoted_token by simp
  then show "((content, rest), pending, c # cs) \<in> measure (\<lambda>(pending, s). length s)" for pending c by simp
qed simp_all

section \<open>The scan of a file\<close>

record config_entry =
  en_section :: string
  en_key :: string
  en_value_text :: string
  en_key_on_line :: string
  en_key_line :: nat
  en_line :: nat
  en_value_end_line :: nat
  en_joined :: bool

record config_header =
  hd_name :: string
  hd_line :: nat

record config_scan =
  sc_entries :: "config_entry list"
  sc_headers :: "config_header list"
  sc_complete :: bool
  sc_trailing_key :: bool

definition append_value_text :: "string \<Rightarrow> string \<Rightarrow> string" where
  "append_value_text value_text piece =
     (let t = trimmed piece
      in if t = [] then value_text
         else if value_text = [] then t
         else value_text @ [CHR 0x0A] @ t)"

record scan_state =
  ss_pending :: string
  ss_pending_line :: nat
  ss_section :: string
  ss_value :: value_state
  ss_in_value :: bool
  ss_entries :: "config_entry list"
  ss_headers :: "config_header list"

definition scan_start :: scan_state where
  "scan_start = \<lparr>ss_pending = [], ss_pending_line = 0, ss_section = [], ss_value = fresh_value,
     ss_in_value = False, ss_entries = [], ss_headers = []\<rparr>"

definition on_last_entry :: "(config_entry \<Rightarrow> config_entry) \<Rightarrow> config_entry list \<Rightarrow> config_entry list" where
  "on_last_entry f es = (if es = [] then [] else butlast es @ [f (last es)])"

text \<open>
  A key has its equals sign: the entry, and the walk over the part of its value on this line.
  The answer is the state and, when the value ends here, what is left of the line.
\<close>

definition begin_entry :: "nat \<Rightarrow> string \<Rightarrow> string \<Rightarrow> string \<Rightarrow> scan_state \<Rightarrow> scan_state \<times> string option" where
  "begin_entry number on_this_line pending value_part s =
     (case advance_value value_part fresh_value of
        (finished, st, end) \<Rightarrow>
          let entry = \<lparr>en_section = ss_section s, en_key = pending,
                       en_value_text = append_value_text [] (take end value_part),
                       en_key_on_line = on_this_line, en_key_line = ss_pending_line s, en_line = number,
                       en_value_end_line = number, en_joined = (ss_pending_line s \<noteq> number)\<rparr>;
              t = s\<lparr>ss_entries := ss_entries s @ [entry], ss_pending := [], ss_value := st,
                    ss_in_value := \<not> finished\<rparr>
          in (t, if finished then Some (drop end value_part) else None))"

definition is_header :: "string \<Rightarrow> string \<Rightarrow> bool" where
  "is_header pending line =
     (pending = [] \<and> length line \<ge> 2 \<and> hd line = CHR ''['' \<and> last line = CHR '']'')"

text \<open>
  One reading of what is left of a line. The text behind the equals sign is found in the
  untrimmed rest, past the blanks it begins with.
\<close>

definition scan_piece :: "nat \<Rightarrow> string \<Rightarrow> scan_state \<Rightarrow> scan_state \<times> string option" where
  "scan_piece number rest s =
     (let line = trimmed rest
      in if line = [] \<or> hd line = CHR '';'' then (s, None)
         else if is_header (ss_pending s) line then
           let name = trimmed (take (length line - 2) (drop 1 line))
           in (s\<lparr>ss_section := name, ss_headers := ss_headers s @ [\<lparr>hd_name = name, hd_line = number\<rparr>]\<rparr>, None)
         else
           let s = (if ss_pending s = [] then s\<lparr>ss_pending_line := number\<rparr> else s)
           in case append_key_tokens (ss_pending s) line of
                (pending, None) \<Rightarrow> (s\<lparr>ss_pending := pending\<rparr>, None)
              | (pending, Some after) \<Rightarrow>
                  begin_entry number (fst (append_key_tokens [] line)) pending
                    (drop (length line - length after) (skip_space rest)) s)"

function scan_rest :: "nat \<Rightarrow> string \<Rightarrow> scan_state \<Rightarrow> scan_state" where
  "scan_rest number rest s =
     (case scan_piece number rest s of
        (s, None) \<Rightarrow> s
      | (s, Some later) \<Rightarrow> if length later < length rest then scan_rest number later s else s)"
  by auto
termination
  by (relation "measure (\<lambda>(number, rest, s). length rest)") auto

declare scan_rest.simps [simp del]

definition scan_line :: "nat \<Rightarrow> string \<Rightarrow> scan_state \<Rightarrow> scan_state" where
  "scan_line number raw s =
     (if \<not> ss_in_value s then scan_rest number raw s
      else case advance_value raw (ss_value s) of
        (finished, st, end) \<Rightarrow>
          let s = s\<lparr>ss_value := st, ss_in_value := \<not> finished,
                    ss_entries := (if end > 0
                      then on_last_entry (\<lambda>e. e\<lparr>en_value_end_line := number,
                             en_value_text := append_value_text (en_value_text e) (take end raw)\<rparr>) (ss_entries s)
                      else ss_entries s)\<rparr>
          in if finished then scan_rest number (drop end raw) s else s)"

definition without_cr :: "string \<Rightarrow> string" where
  "without_cr raw = (if raw \<noteq> [] \<and> last raw = CHR 0x0D then butlast raw else raw)"

fun scan_lines :: "nat \<Rightarrow> string list \<Rightarrow> scan_state \<Rightarrow> scan_state" where
  "scan_lines number [] s = s"
| "scan_lines number (raw # raws) s = scan_lines (number + 1) raws (scan_line number (without_cr raw) s)"

definition finish_scan :: "scan_state \<Rightarrow> config_scan" where
  "finish_scan s =
     \<lparr>sc_entries = ss_entries s, sc_headers = ss_headers s,
      sc_complete = (\<not> ss_in_value s \<or> vs_awaiting_call (ss_value s)),
      sc_trailing_key = (ss_pending s \<noteq> [])\<rparr>"

definition scan_config :: "string \<Rightarrow> config_scan" where
  "scan_config s = finish_scan (scan_lines 1 (split_at CHR 0x0A s) scan_start)"

section \<open>The shapes of a value\<close>

text \<open>
  \<open>ValueWalk\<close>: every walk gives the first refusal, if there is one, and what is left of the
  text. The mutual recursion is bounded by a fuel, counted in calls; \<open>None\<close> is running out.
\<close>

definition skip_string :: "string \<Rightarrow> string option \<times> string" where
  "skip_string after_quote = (let d = decode_string after_quote in (ds_problem d, ds_rest d))"

lemma decode_loop_rest: "length (ds_rest (decode_string_loop lead bytes p cs)) \<le> length cs"
proof (induction lead bytes p cs rule: decode_string_loop.induct)
  case (2 lead bytes p c cs)
  consider "c = CHR 0x22" | "c \<noteq> CHR 0x22" "c \<noteq> CHR 0x5C" | "c = CHR 0x5C" by blast
  then show ?case
  proof cases
    case 2
    then show ?thesis using "2.IH"(1)[OF 2] by simp
  next
    case 3
    show ?thesis
    proof (cases cs)
      case (Cons e es)
      obtain l b q rest where step: "decode_escape lead bytes p e es = (l, b, q, rest)" by (metis prod_cases4)
      have "length (ds_rest (decode_string_loop l b q rest)) \<le> length rest"
        using "2.IH"(2)[OF _ _ Cons step[symmetric] refl refl] 3 by simp
      then show ?thesis using 3 Cons step length_decode_escape[OF step] by simp
    qed (use 3 in simp)
  qed simp
qed simp

fun first_of :: "string option \<Rightarrow> string option \<Rightarrow> string option" where
  "first_of None q = q"
| "first_of (Some p) q = Some p"

lemma length_skip_string: "length (snd (skip_string s)) \<le> length s"
  using decode_loop_rest[of 0 "[]" None s] by (simp add: skip_string_def decode_string_def Let_def)

function skip_balanced :: "nat \<Rightarrow> string option \<Rightarrow> string \<Rightarrow> string option \<times> string" where
  "skip_balanced depth p [] = (p, [])"
| "skip_balanced depth p (c # cs) =
     (if c = CHR 0x22 then skip_balanced depth (first_of p (fst (skip_string cs))) (snd (skip_string cs))
      else if c \<in> set ''[{('' then skip_balanced (depth + 1) p cs
      else if c \<in> set '']})'' then (if depth \<le> 1 then (p, cs) else skip_balanced (depth - 1) p cs)
      else skip_balanced depth p cs)"
  by pat_completeness auto
termination
  by (relation "measure (\<lambda>(depth, p, s). length s)") (simp_all add: length_skip_string le_imp_less_Suc)

lemma length_skip_balanced: "length (snd (skip_balanced depth p s)) \<le> length s"
proof (induction depth p s rule: skip_balanced.induct)
  case (2 depth p c cs)
  have sub: "length (snd (skip_string cs)) \<le> length cs" by (rule length_skip_string)
  consider "c = CHR 0x22" | "c \<noteq> CHR 0x22" "c \<in> set ''[{(''" | "c \<noteq> CHR 0x22" "c \<notin> set ''[{(''" "c \<in> set '']})''"
    | "c \<noteq> CHR 0x22" "c \<notin> set ''[{(''" "c \<notin> set '']})''" by blast
  then show ?case
  proof cases
    case 1
    then show ?thesis using "2.IH"(1)[OF 1] sub by simp
  next
    case 2
    then show ?thesis using "2.IH"(2)[OF 2] by (simp only: skip_balanced.simps if_False if_True list.size)
  next
    case 3
    then show ?thesis using "2.IH"(3)[OF 3] le_SucI
      by (cases "depth \<le> 1") (auto simp only: skip_balanced.simps if_False if_True list.size snd_conv add_0_right add_Suc_right)
  next
    case 4
    then show ?thesis using "2.IH"(4)[OF 4] by (simp only: skip_balanced.simps if_False if_True list.size)
  qed
qed simp

definition starts_char :: "string \<Rightarrow> char \<Rightarrow> bool" where
  "starts_char s c = (s \<noteq> [] \<and> hd s = c)"

definition quoted_char :: "char \<Rightarrow> string" where
  "quoted_char c = [CHR 0x27, c, CHR 0x27]"

text \<open>An identifier: a call, a typed container, one of the words that are values, or a refusal.\<close>

definition read_word :: "string \<Rightarrow> string option \<times> string" where
  "read_word s =
     (let word = takeWhile is_name_char s; after = dropWhile is_name_char s; look = skip_space after
      in if starts_char look CHR ''['' then
           (let (p, rest) = skip_balanced 0 None look; later = skip_space rest
            in if starts_char later CHR ''('' then skip_balanced 0 p later else (p, later))
         else if starts_char look CHR ''('' then skip_balanced 0 None look
         else if is_value_keyword word then (None, after)
         else (Some (''Godot has no value named '' @ [CHR 0x27] @ word @ [CHR 0x27]), after))"

definition read_number :: "string \<Rightarrow> string" where
  "read_number s = dropWhile (\<lambda>c. \<not> is_space c \<and> c \<notin> set '',:)]}'') s"

fun read_value :: "nat \<Rightarrow> nat \<Rightarrow> string \<Rightarrow> (string option \<times> string) option"
  and read_array :: "nat \<Rightarrow> nat \<Rightarrow> string \<Rightarrow> (string option \<times> string) option"
  and read_dictionary :: "nat \<Rightarrow> nat \<Rightarrow> string \<Rightarrow> (string option \<times> string) option" where
  "read_value 0 depth s = None"
| "read_value (Suc n) depth s =
     (if depth > 32 then Some (None, [])
      else (case skip_space s of
        [] \<Rightarrow> Some (Some ''the value is empty'', [])
      | c # cs \<Rightarrow>
          if c \<in> set '')]},:('' then Some (Some (''a value cannot begin with '' @ quoted_char c), c # cs)
          else if c = CHR 0x22 then Some (skip_string cs)
          else if c = CHR ''&'' \<or> c = CHR ''@'' then
            (if \<not> starts_char cs CHR 0x22 then
               Some (Some (quoted_char c @ '' begins a StringName and has to be followed straight away by a quoted string''), cs)
             else Some (skip_string (tl cs)))
          else if is_name_start c then Some (read_word (c # cs))
          else if c = CHR ''['' then read_array n depth cs
          else if c = CHR ''{'' then read_dictionary n depth cs
          else Some (None, read_number (c # cs))))"
| "read_array 0 depth s = None"
| "read_array (Suc n) depth s =
     (case skip_space s of
        [] \<Rightarrow> Some (None, [])
      | c # cs \<Rightarrow>
          if c = CHR '']'' then Some (None, cs)
          else (case read_value n (depth + 1) (c # cs) of
            None \<Rightarrow> None
          | Some (p, rest) \<Rightarrow>
              if p \<noteq> None then Some (p, rest)
              else (case skip_space rest of
                 [] \<Rightarrow> Some (None, [])
               | x # xs \<Rightarrow>
                   if x = CHR '','' then read_array n depth xs
                   else if x = CHR '']'' then Some (None, xs)
                   else Some (Some (''a '' @ quoted_char CHR '','' @ '' or a '' @ quoted_char CHR '']'' @
                     '' has to follow an array element, not '' @ quoted_char x), x # xs))))"
| "read_dictionary 0 depth s = None"
| "read_dictionary (Suc n) depth s =
     (case skip_space s of
        [] \<Rightarrow> Some (None, [])
      | c # cs \<Rightarrow>
          if c = CHR ''}'' then Some (None, cs)
          else (case read_value n (depth + 1) (c # cs) of
            None \<Rightarrow> None
          | Some (p, rest) \<Rightarrow>
              if p \<noteq> None then Some (p, rest)
              else (case skip_space rest of
                 [] \<Rightarrow> Some (None, [])
               | x # xs \<Rightarrow>
                   if x \<noteq> CHR '':'' then
                     Some (Some (''a '' @ quoted_char CHR '':'' @ '' has to follow a dictionary key, not '' @ quoted_char x), x # xs)
                   else (case read_value n (depth + 1) xs of
                     None \<Rightarrow> None
                   | Some (q, later) \<Rightarrow>
                       if q \<noteq> None then Some (q, later)
                       else (case skip_space later of
                          [] \<Rightarrow> Some (None, [])
                        | y # ys \<Rightarrow>
                            if y = CHR '','' then read_dictionary n depth ys
                            else if y = CHR ''}'' then Some (None, ys)
                            else Some (Some (''a '' @ quoted_char CHR '','' @ '' or a '' @ quoted_char CHR ''}'' @
                              '' has to follow a dictionary value, not '' @ quoted_char y), y # ys))))))"

text \<open>\<open>valueProblem\<close>: two calls for every byte and two more are enough.\<close>

definition value_problem :: "string \<Rightarrow> string option option" where
  "value_problem s = map_option fst (read_value (2 * length s + 2) 0 s)"

record load_failure =
  lf_unterminated :: bool
  lf_section :: string
  lf_key :: string
  lf_line :: nat
  lf_value_reason :: string

definition unterminated_failure :: "config_entry list \<Rightarrow> load_failure" where
  "unterminated_failure es =
     (if es = [] then \<lparr>lf_unterminated = True, lf_section = [], lf_key = [], lf_line = 0, lf_value_reason = []\<rparr>
      else \<lparr>lf_unterminated = True, lf_section = en_section (last es), lf_key = en_key (last es),
            lf_line = en_line (last es), lf_value_reason = []\<rparr>)"

fun first_value_failure :: "config_entry list \<Rightarrow> load_failure option" where
  "first_value_failure [] = None"
| "first_value_failure (e # es) =
     (case value_problem (en_value_text e) of
        Some (Some reason) \<Rightarrow>
          Some \<lparr>lf_unterminated = False, lf_section = en_section e, lf_key = en_key e, lf_line = en_line e,
                lf_value_reason = reason\<rparr>
      | _ \<Rightarrow> first_value_failure es)"

definition load_failure_of :: "config_scan \<Rightarrow> load_failure option" where
  "load_failure_of sc =
     (if \<not> sc_complete sc then Some (unterminated_failure (sc_entries sc))
      else first_value_failure (sc_entries sc))"

text \<open>\<open>stringValue\<close>: the text and the problem of a value that is one string.\<close>

definition string_value :: "string \<Rightarrow> (string \<times> string option) option" where
  "string_value value_text =
     (let s = trimmed value_text;
          body = (if s \<noteq> [] \<and> (hd s = CHR ''&'' \<or> hd s = CHR ''@'') then tl s else s)
      in if body = [] \<or> hd body \<noteq> CHR 0x22 then None
         else
           let d = decode_string (tl body)
           in if \<not> ds_closed d \<or> ds_rest d \<noteq> [] then None else Some (decoded_text d, ds_problem d))"

section \<open>The walk always ends\<close>

lemma length_read_word: "length (snd (read_word s)) \<le> length s"
proof -
  define look where "look = skip_space (dropWhile is_name_char s)"
  have after: "length (dropWhile is_name_char s) \<le> length s" by (rule length_dropWhile_le)
  have look: "length look \<le> length s" unfolding look_def using length_skip_space after le_trans by blast
  have one: "length (snd (skip_balanced 0 None look)) \<le> length s" using length_skip_balanced look le_trans by blast
  have later: "length (skip_space (snd (skip_balanced 0 None look))) \<le> length s"
    using length_skip_space one le_trans by blast
  have two: "length (snd (skip_balanced 0 p (skip_space (snd (skip_balanced 0 None look))))) \<le> length s" for p
    using length_skip_balanced later le_trans by blast
  show ?thesis
    unfolding read_word_def Let_def look_def[symmetric] using after one later two
    by (auto split: prod.split if_split simp: case_prod_beta)
qed

lemma skip_space_Cons: "skip_space s = c # cs \<Longrightarrow> length cs < length s"
  using length_skip_space[of s] by simp

text \<open>With two calls for every byte the walk gives an answer, and what is left is no longer.\<close>

text \<open>An answer that leaves no more than it was given.\<close>

definition answers :: "string \<Rightarrow> (string option \<times> string) option \<Rightarrow> bool" where
  "answers s r = (case r of None \<Rightarrow> False | Some (p, rest) \<Rightarrow> length rest \<le> length s)"

lemma answers_Some [simp]: "answers s (Some (p, rest)) = (length rest \<le> length s)"
  by (simp add: answers_def)

lemma answers_pair: "length (snd r) \<le> length s \<Longrightarrow> answers s (Some r)"
  by (simp add: answers_def case_prod_beta)

lemma answers_le: "answers t r \<Longrightarrow> length t \<le> length s \<Longrightarrow> answers s r"
  by (auto simp: answers_def split: option.splits)

lemma answersE:
  assumes "answers s r"
  obtains p rest where "r = Some (p, rest)" "length rest \<le> length s"
  using assms by (auto simp: answers_def split: option.splits)

lemma read_value_step:
  assumes "\<And>cs. length cs < length s \<Longrightarrow> answers cs (read_array n depth cs)"
    and "\<And>cs. length cs < length s \<Longrightarrow> answers cs (read_dictionary n depth cs)"
  shows "answers s (read_value (Suc n) depth s)"
proof (cases "skip_space s")
  case Nil
  then show ?thesis by simp
next
  case (Cons c cs)
  have len: "length cs < length s" by (rule skip_space_Cons[OF Cons])
  have "answers s (Some (skip_string cs))" "answers s (Some (skip_string (tl cs)))"
    "answers s (Some (read_word (c # cs)))" "answers s (Some (None, read_number (c # cs)))"
    using length_skip_string[of cs] length_skip_string[of "tl cs"] length_read_word[of "c # cs"] len
      length_dropWhile_le[of "\<lambda>c. \<not> is_space c \<and> c \<notin> set '',:)]}''" "c # cs"]
    by (auto simp: read_number_def intro!: answers_pair)
  moreover have "answers s (read_array n depth cs)" "answers s (read_dictionary n depth cs)"
    using assms[OF len] len by (auto intro: answers_le)
  ultimately show ?thesis using Cons len by simp
qed

lemma read_array_step:
  assumes element: "\<And>t. length t \<le> length s \<Longrightarrow> answers t (read_value n (depth + 1) t)"
    and rest: "\<And>t. length t < length s \<Longrightarrow> answers t (read_array n depth t)"
  shows "answers s (read_array (Suc n) depth s)"
proof (cases "skip_space s")
  case Nil
  then show ?thesis by simp
next
  case (Cons c cs)
  have len: "length cs < length s" by (rule skip_space_Cons[OF Cons])
  obtain p r where read: "read_value n (depth + 1) (c # cs) = Some (p, r)" "length r \<le> length (c # cs)"
    using element[of "c # cs"] len by (auto elim: answersE)
  show ?thesis
  proof (cases "skip_space r")
    case Nil
    then show ?thesis using Cons read len by simp
  next
    case inner: (Cons x xs)
    have "length xs < length s" using skip_space_Cons[OF inner] read len by simp
    then show ?thesis using Cons read len inner answers_le[OF rest[of xs], of s] by simp
  qed
qed

lemma read_dictionary_step:
  assumes element: "\<And>t. length t \<le> length s \<Longrightarrow> answers t (read_value n (depth + 1) t)"
    and rest: "\<And>t. length t < length s \<Longrightarrow> answers t (read_dictionary n depth t)"
  shows "answers s (read_dictionary (Suc n) depth s)"
proof (cases "skip_space s")
  case Nil
  then show ?thesis by simp
next
  case (Cons c cs)
  have len: "length cs < length s" by (rule skip_space_Cons[OF Cons])
  obtain p r where read: "read_value n (depth + 1) (c # cs) = Some (p, r)" "length r \<le> length (c # cs)"
    using element[of "c # cs"] len by (auto elim: answersE)
  show ?thesis
  proof (cases "skip_space r")
    case Nil
    then show ?thesis using Cons read len by simp
  next
    case inner: (Cons x xs)
    have xs: "length xs < length s" using skip_space_Cons[OF inner] read len by simp
    obtain q t where second: "read_value n (depth + 1) xs = Some (q, t)" "length t \<le> length xs"
      using element[of xs] xs by (auto elim: answersE)
    show ?thesis
    proof (cases "skip_space t")
      case Nil
      then show ?thesis using Cons read len inner second xs by simp
    next
      case last: (Cons y ys)
      have "length ys < length s" using skip_space_Cons[OF last] second xs by simp
      then show ?thesis
        using Cons read len inner second xs last answers_le[OF rest[of ys], of s] by simp
    qed
  qed
qed

text \<open>With two calls for every byte the walk gives an answer, and what is left is no longer.\<close>

lemma read_total:
  "(2 * length s + 2 \<le> n \<longrightarrow> answers s (read_value n depth s)) \<and>
   (2 * length s + 3 \<le> n \<longrightarrow> answers s (read_array n depth s) \<and> answers s (read_dictionary n depth s))"
proof (induction n arbitrary: depth s)
  case (Suc n)
  have element: "answers t (read_value n d t)" if "2 * length t + 2 \<le> n" for t d using Suc that by blast
  have rest: "answers t (read_array n d t)" "answers t (read_dictionary n d t)" if "2 * length t + 3 \<le> n" for t d
    using Suc that by blast+
  have "answers s (read_value (Suc n) depth s)" if "2 * length s + 2 \<le> Suc n"
    by (rule read_value_step; rule rest; use that in linarith)
  moreover have "answers s (read_array (Suc n) depth s)" if "2 * length s + 3 \<le> Suc n"
    by (rule read_array_step; (rule element | rule rest); use that in linarith)
  moreover have "answers s (read_dictionary (Suc n) depth s)" if "2 * length s + 3 \<le> Suc n"
    by (rule read_dictionary_step; (rule element | rule rest); use that in linarith)
  ultimately show ?case by blast
qed simp


lemma value_problem_total: "value_problem s \<noteq> None"
proof -
  have "answers s (read_value (2 * length s + 2) 0 s)" using read_total by blast
  then show ?thesis unfolding value_problem_def by (auto elim: answersE)
qed

text \<open>The walk that judges a value always gives an answer: no value text makes it run on.\<close>

theorem value_problem_answers: "value_problem s \<noteq> None"
  by (rule value_problem_total)

section \<open>The scan of a line always ends\<close>

lemma length_append_key_tokens: "append_key_tokens pending s = (key, Some after) \<Longrightarrow> length after < length s"
proof (induction pending s rule: append_key_tokens.induct)
  case (2 pending c cs)
  obtain content closed rest where token: "quoted_token cs = (content, closed, rest)" by (metis prod_cases3)
  have rest: "length rest \<le> length cs" using length_quoted_token[of cs] token by simp
  show ?case
  proof (cases "c = CHR 0x22")
    case True
    then have "append_key_tokens content rest = (key, Some after)"
      using "2.prems" token by (auto split: if_splits)
    moreover have "closed" using True "2.prems" token by (auto split: if_splits)
    ultimately show ?thesis
      using "2.IH"(1)[of "(content, closed, rest)" content "(closed, rest)" closed rest] True token rest by fastforce
  next
    case False
    then show ?thesis using "2.prems" "2.IH"(2) by (cases "c = CHR ''=''") auto
  qed
qed simp

lemma length_trimmed: "length (trimmed s) \<le> length (skip_space s)"
  using length_dropWhile_le[of is_space "rev (dropWhile is_space s)"] by (simp add: trimmed_def skip_space_def)

lemma begin_entry_rest:
  "begin_entry number line key part s = (t, Some later) \<Longrightarrow> length later \<le> length part"
  by (auto simp: begin_entry_def Let_def split: prod.splits if_splits)

lemma scan_piece_shorter:
  assumes "scan_piece number rest s = (t, Some later)"
  shows "length later < length rest"
proof -
  define line where "line = trimmed rest"
  have "\<exists>pending key after t'. append_key_tokens pending line = (key, Some after) \<and>
      begin_entry number (fst (append_key_tokens [] line)) key (drop (length line - length after) (skip_space rest)) t' =
        (t, Some later)"
    using assms unfolding scan_piece_def Let_def line_def[symmetric]
    by (auto split: if_splits prod.splits option.splits)
  then obtain pending key after t' where tokens: "append_key_tokens pending line = (key, Some after)"
    and entry: "begin_entry number (fst (append_key_tokens [] line)) key
      (drop (length line - length after) (skip_space rest)) t' = (t, Some later)" by blast
  have "length later \<le> length (skip_space rest) - (length line - length after)"
    using begin_entry_rest[OF entry] by simp
  then show ?thesis
    using length_append_key_tokens[OF tokens] length_trimmed[of rest] length_skip_space[of rest]
    unfolding line_def by linarith
qed

text \<open>
  Every reading of a line that goes on leaves less of the line, so the bound in the recursion
  never decides anything and the loop is the one the scan has.
\<close>

lemma scan_rest_loop:
  "scan_rest number rest s =
     (case scan_piece number rest s of
        (t, None) \<Rightarrow> t
      | (t, Some later) \<Rightarrow> scan_rest number later t)"
  by (subst scan_rest.simps) (auto split: prod.split option.split dest: scan_piece_shorter)

lemma scan_rest_induct:
  assumes step: "\<And>rest s. (\<And>t later. scan_piece number rest s = (t, Some later) \<Longrightarrow> P later t) \<Longrightarrow> P rest s"
  shows "P rest s"
proof (induction "length rest" arbitrary: rest s rule: less_induct)
  case less
  show ?case by (rule step) (rule less, rule scan_piece_shorter)
qed


section \<open>Where the entries are\<close>

definition span_ok :: "nat \<Rightarrow> config_entry \<Rightarrow> bool" where
  "span_ok n e =
     (1 \<le> en_key_line e \<and> en_key_line e \<le> en_line e \<and> en_line e \<le> en_value_end_line e \<and>
      en_value_end_line e \<le> n \<and> en_joined e = (en_key_line e \<noteq> en_line e))"

definition before :: "config_entry \<Rightarrow> config_entry \<Rightarrow> bool" where
  "before a b = (en_value_end_line a \<le> en_key_line b)"

definition spans_ok :: "nat \<Rightarrow> config_entry list \<Rightarrow> bool" where
  "spans_ok n es = (sorted_wrt before es \<and> list_all (span_ok n) es)"

definition key_place_ok :: "nat \<Rightarrow> scan_state \<Rightarrow> bool" where
  "key_place_ok n s =
     (ss_pending s \<noteq> [] \<longrightarrow>
        1 \<le> ss_pending_line s \<and> ss_pending_line s \<le> n \<and>
        list_all (\<lambda>e. en_value_end_line e \<le> ss_pending_line s) (ss_entries s))"

definition places_ok :: "nat \<Rightarrow> scan_state \<Rightarrow> bool" where
  "places_ok n s =
     (spans_ok n (ss_entries s) \<and> key_place_ok n s \<and> (ss_in_value s \<longrightarrow> ss_pending s = []))"

lemma spans_ok_snoc:
  "spans_ok n es \<Longrightarrow> list_all (\<lambda>a. before a e) es \<Longrightarrow> span_ok n e \<Longrightarrow> spans_ok n (es @ [e])"
  by (simp add: spans_ok_def sorted_wrt_append list_all_iff)

lemma spans_ok_ends: "spans_ok n es \<Longrightarrow> list_all (\<lambda>e. en_value_end_line e \<le> n) es"
  by (auto simp: spans_ok_def span_ok_def list_all_iff)

lemma spans_ok_mono: "spans_ok n es \<Longrightarrow> n \<le> m \<Longrightarrow> spans_ok m es"
  by (auto simp: spans_ok_def span_ok_def list_all_iff)

lemma places_ok_mono: "places_ok n s \<Longrightarrow> n \<le> m \<Longrightarrow> places_ok m s"
  by (auto simp: places_ok_def key_place_ok_def intro: spans_ok_mono)

lemma begin_entry_places:
  assumes "spans_ok n (ss_entries s)" "1 \<le> ss_pending_line s" "ss_pending_line s \<le> n"
    and "list_all (\<lambda>e. en_value_end_line e \<le> ss_pending_line s) (ss_entries s)"
    and "begin_entry n line key part s = (t, later)"
  shows "places_ok n t \<and> (later \<noteq> None \<longrightarrow> \<not> ss_in_value t)"
  using assms
  by (auto simp: begin_entry_def Let_def places_ok_def key_place_ok_def before_def span_ok_def
      split: prod.splits if_splits intro!: spans_ok_snoc elim: list.pred_mono_strong)

lemma scan_piece_places:
  assumes ok: "places_ok n s" "\<not> ss_in_value s" "1 \<le> n" and step: "scan_piece n rest s = (t, later)"
  shows "places_ok n t \<and> (later \<noteq> None \<longrightarrow> \<not> ss_in_value t)"
proof -
  define line where "line = trimmed rest"
  define s' where "s' = (if ss_pending s = [] then s\<lparr>ss_pending_line := n\<rparr> else s)"
  have same: "ss_entries s' = ss_entries s" "ss_in_value s' = ss_in_value s" by (simp_all add: s'_def)
  have place: "1 \<le> ss_pending_line s'" "ss_pending_line s' \<le> n"
    "list_all (\<lambda>e. en_value_end_line e \<le> ss_pending_line s') (ss_entries s)" "spans_ok n (ss_entries s)"
    using ok spans_ok_ends[of n "ss_entries s"] by (auto simp: s'_def places_ok_def key_place_ok_def)
  consider "line = [] \<or> hd line = CHR '';''"
    | "\<not> (line = [] \<or> hd line = CHR '';'')" "is_header (ss_pending s) line"
    | "\<not> (line = [] \<or> hd line = CHR '';'')" "\<not> is_header (ss_pending s) line" by blast
  then show ?thesis
  proof cases
    case 1
    then show ?thesis using ok step by (simp add: scan_piece_def line_def[symmetric])
  next
    case 2
    then show ?thesis using ok step
      by (auto simp: scan_piece_def Let_def line_def[symmetric] places_ok_def key_place_ok_def is_header_def)
  next
    case 3
    obtain key after where tokens: "append_key_tokens (ss_pending s') line = (key, after)" by (metis prod.exhaust)
    have piece: "scan_piece n rest s = (case after of None \<Rightarrow> (s'\<lparr>ss_pending := key\<rparr>, None)
        | Some after \<Rightarrow> begin_entry n (fst (append_key_tokens [] line)) key
            (drop (length line - length after) (skip_space rest)) s')"
      using 3 tokens by (simp only: scan_piece_def Let_def line_def[symmetric] s'_def[symmetric]) simp
    show ?thesis
    proof (cases after)
      case None
      then show ?thesis using piece step place ok same by (auto simp: places_ok_def key_place_ok_def)
    next
      case (Some a)
      then have entry: "begin_entry n (fst (append_key_tokens [] line)) key
          (drop (length line - length a) (skip_space rest)) s' = (t, later)"
        using piece step by simp
      show ?thesis by (rule begin_entry_places[OF _ _ _ _ entry]) (use place same in simp_all)
    qed
  qed
qed

lemma scan_rest_places: "places_ok n s \<Longrightarrow> \<not> ss_in_value s \<Longrightarrow> 1 \<le> n \<Longrightarrow> places_ok n (scan_rest n rest s)"
proof (induction rest s rule: scan_rest_induct[where number = n])
  case (1 rest s)
  obtain t later where step: "scan_piece n rest s = (t, later)" by (metis prod.exhaust)
  have t: "places_ok n t \<and> (later \<noteq> None \<longrightarrow> \<not> ss_in_value t)" using scan_piece_places 1(2-4) step by blast
  show ?case
  proof (cases later)
    case None
    then show ?thesis using t step scan_rest_loop[of n rest s] by simp
  next
    case (Some l)
    then have "places_ok n (scan_rest n l t)" using 1(1)[of t l] t step 1(4) by simp
    then show ?thesis using Some step scan_rest_loop[of n rest s] by simp
  qed
qed

lemma on_last_entry_spans:
  assumes ok: "spans_ok n es" "n \<le> m"
  shows "spans_ok m (on_last_entry (\<lambda>e. e\<lparr>en_value_end_line := m, en_value_text := g e\<rparr>) es)"
proof (cases es rule: rev_cases)
  case (snoc front e)
  then show ?thesis using ok
    by (auto simp: on_last_entry_def spans_ok_def sorted_wrt_append list_all_iff before_def span_ok_def)
qed (simp add: on_last_entry_def spans_ok_def)

lemma scan_line_places:
  assumes ok: "places_ok n s"
  shows "places_ok (n + 1) (scan_line (n + 1) raw s)"
proof (cases "ss_in_value s")
  case False
  have "places_ok (n + 1) s" using ok places_ok_mono le_add1 by blast
  then show ?thesis using False scan_rest_places[of "n + 1"] by (simp add: scan_line_def)
next
  case True
  obtain finished st stop where walk: "advance_value raw (ss_value s) = (finished, st, stop)" by (metis prod_cases3)
  define t where "t = s\<lparr>ss_value := st, ss_in_value := \<not> finished, ss_entries := (if stop > 0
      then on_last_entry (\<lambda>e. e\<lparr>en_value_end_line := n + 1,
             en_value_text := append_value_text (en_value_text e) (take stop raw)\<rparr>) (ss_entries s)
      else ss_entries s)\<rparr>"
  have line: "scan_line (n + 1) raw s = (if finished then scan_rest (n + 1) (drop stop raw) t else t)"
    using True walk by (simp add: scan_line_def t_def Let_def)
  have "spans_ok (n + 1) (ss_entries t)"
    using ok by (auto simp: t_def places_ok_def intro: on_last_entry_spans spans_ok_mono)
  then have t: "places_ok (n + 1) t" using ok True by (auto simp: t_def places_ok_def key_place_ok_def)
  have "\<not> ss_in_value t" if "finished" using that by (simp add: t_def)
  then show ?thesis using line t scan_rest_places[of "n + 1" t] by (cases finished) simp_all
qed

lemma scan_lines_places: "places_ok n s \<Longrightarrow> places_ok (n + length raws) (scan_lines (n + 1) raws s)"
proof (induction raws arbitrary: n s)
  case (Cons raw raws)
  have "places_ok (n + 1) (scan_line (n + 1) (without_cr raw) s)" by (rule scan_line_places[OF Cons.prems])
  from Cons.IH[OF this] show ?case by (simp add: add.assoc)
qed simp

text \<open>
  In any file the lines of an entry are in order and inside the file, an entry is marked
  joined exactly when its key began on an earlier line than its equals sign, and one entry's
  value ends no later than the line the next entry's key begins on, so the span a rewrite of
  one setting replaces never reaches past the key of the next.
\<close>

theorem entry_spans_are_ordered:
  "spans_ok (length (split_at CHR 0x0A s)) (sc_entries (scan_config s))"
proof -
  have start: "places_ok 0 scan_start" by (simp add: places_ok_def spans_ok_def key_place_ok_def scan_start_def)
  show ?thesis
    using scan_lines_places[OF start, of "split_at CHR 0x0A s"]
    by (simp add: scan_config_def finish_scan_def places_ok_def)
qed


section \<open>A typed container over two lines\<close>

text \<open>
  The brackets of a typed container are the type only on the line of its name. With the
  name at the end of a line, the walk forgets that it waits for a call before it reads the next
  line's bracket, takes \<open>[int]\<close> for an array, ends the value there and makes a key
  of the call behind it.
\<close>

theorem typed_container_over_two_lines:
  "map (\<lambda>e. (en_key e, en_value_text e)) (sc_entries (scan_config (''a=Array[int]([1])'' @ [CHR 0x0A] @ ''b=2''))) =
     [(''a'', ''Array[int]([1])''), (''b'', ''2'')] \<and>
   map (\<lambda>e. (en_key e, en_value_text e)) (sc_entries (scan_config (''a=Array'' @ [CHR 0x0A] @ ''[int]([1])'' @ [CHR 0x0A] @ ''b=2''))) =
     [(''a'', ''Array'' @ [CHR 0x0A] @ ''[int]''), (''([1])b'', ''2'')]"
  by code_simp

end
