(* ===== verification/Config_Document.thy ===== *)
theory Config_Document
  imports Config_File
begin

text \<open>
  Plain ConfigFile documents: one header, setting, comment or blank to a line, with either line
  ending. The theory relates the scan of such a text, \<open>src/common/config_file_syntax.cpp\<close>, to
  the list of its lines, which is what the writer of \<open>Project_Settings\<close> is measured against.
\<close>

section \<open>Plain lines\<close>

datatype doc_line =
    Blank string
  | Comment string
  | Header string
  | Setting string string

fun render_line :: "doc_line \<Rightarrow> string" where
  "render_line (Blank ws) = ws"
| "render_line (Comment c) = c"
| "render_line (Header name) = ''['' @ name @ '']''"
| "render_line (Setting k v) = k @ ''='' @ v"

text \<open>A value that ends where its line ends.\<close>

definition value_closes :: "string \<Rightarrow> bool" where
  "value_closes v = (case advance_value v fresh_value of (finished, st, stop) \<Rightarrow> finished \<and> stop = length v)"

definition plain_value :: "string \<Rightarrow> bool" where
  "plain_value v = (v \<noteq> [] \<and> \<not> is_space (hd v) \<and> \<not> is_space (last v) \<and> CHR 0x0A \<notin> set v \<and> value_closes v)"

definition plain_key :: "string \<Rightarrow> bool" where
  "plain_key k = (k \<noteq> [] \<and> hd k \<notin> {CHR '';'', CHR ''[''} \<and> list_all (\<lambda>c. \<not> is_space c \<and> c \<notin> {CHR ''='', CHR 0x22}) k)"

fun plain_line :: "doc_line \<Rightarrow> bool" where
  "plain_line (Blank ws) = (list_all is_space ws \<and> CHR 0x0A \<notin> set ws \<and> without_cr ws = ws)"
| "plain_line (Comment c) = (starts_char (skip_space c) (CHR '';'') \<and> CHR 0x0A \<notin> set c \<and> without_cr c = c)"
| "plain_line (Header name) = (CHR 0x0A \<notin> set name \<and> trimmed name = name)"
| "plain_line (Setting k v) = (plain_key k \<and> plain_value v)"

definition line_end :: "bool \<Rightarrow> string" where
  "line_end crlf = (if crlf then [CHR 0x0D, CHR 0x0A] else [CHR 0x0A])"

definition config_text :: "bool \<Rightarrow> doc_line list \<Rightarrow> string" where
  "config_text crlf doc = concat (map (\<lambda>l. render_line l @ line_end crlf) doc)"

section \<open>What a document holds\<close>

definition setting_entry :: "nat \<Rightarrow> string \<Rightarrow> string \<Rightarrow> string \<Rightarrow> config_entry" where
  "setting_entry n sec k v =
     \<lparr>en_section = sec, en_key = k, en_value_text = v, en_key_on_line = k, en_key_line = n, en_line = n,
      en_value_end_line = n, en_joined = False\<rparr>"

fun doc_entries :: "nat \<Rightarrow> string \<Rightarrow> doc_line list \<Rightarrow> config_entry list" where
  "doc_entries n sec [] = []"
| "doc_entries n sec (Setting k v # doc) = setting_entry n sec k v # doc_entries (n + 1) sec doc"
| "doc_entries n sec (Header name # doc) = doc_entries (n + 1) name doc"
| "doc_entries n sec (Blank ws # doc) = doc_entries (n + 1) sec doc"
| "doc_entries n sec (Comment c # doc) = doc_entries (n + 1) sec doc"

fun doc_headers :: "nat \<Rightarrow> doc_line list \<Rightarrow> config_header list" where
  "doc_headers n [] = []"
| "doc_headers n (Header name # doc) = \<lparr>hd_name = name, hd_line = n\<rparr> # doc_headers (n + 1) doc"
| "doc_headers n (l # doc) = doc_headers (n + 1) doc"

section \<open>One line\<close>

lemma skip_space_id: "s = [] \<or> \<not> is_space (hd s) \<Longrightarrow> skip_space s = s"
  by (cases s) (auto simp: skip_space_def)

lemma trimmed_id: "s \<noteq> [] \<Longrightarrow> \<not> is_space (hd s) \<Longrightarrow> \<not> is_space (last s) \<Longrightarrow> trimmed s = s"
  using skip_space_id[of s] skip_space_id[of "rev s"] by (simp add: trimmed_def skip_space_def hd_rev)

lemma key_tokens_plain:
  "list_all (\<lambda>c. \<not> is_space c \<and> c \<notin> {CHR ''='', CHR 0x22}) k \<Longrightarrow>
   append_key_tokens pending (k @ CHR ''='' # v) = (pending @ k, Some v)"
  by (induction k arbitrary: pending) auto

lemma without_cr_plain: "s \<noteq> [] \<Longrightarrow> \<not> is_space (last s) \<Longrightarrow> without_cr s = s"
  by (auto simp: without_cr_def is_space_def)

lemma without_cr_add: "without_cr (s @ [CHR 0x0D]) = s"
  by (simp add: without_cr_def)

lemma comment_first:
  assumes "skip_space line = CHR '';'' # t"
  shows "trimmed line \<noteq> [] \<and> hd (trimmed line) = CHR '';''"
proof -
  have "trimmed line = rev (dropWhile is_space (rev t @ [CHR '';'']))"
    using assms by (simp add: trimmed_def skip_space_def)
  also have "\<dots> = CHR '';'' # rev (dropWhile is_space (rev t))"
    by (subst dropWhile_append3) (simp_all add: is_space_def)
  finally show ?thesis by simp
qed

lemma trimmed_blank: "list_all is_space ws \<Longrightarrow> trimmed ws = []"
  by (auto simp: trimmed_def list_all_iff dest: set_dropWhileD)

text \<open>The scan between two settings.\<close>

definition at_key :: "scan_state \<Rightarrow> bool" where
  "at_key s = (\<not> ss_in_value s \<and> ss_pending s = [])"

definition same_place :: "scan_state \<Rightarrow> string \<Rightarrow> config_entry list \<Rightarrow> config_header list \<Rightarrow> bool" where
  "same_place s sec es hs = (at_key s \<and> ss_section s = sec \<and> ss_entries s = es \<and> ss_headers s = hs)"

lemma scan_rest_Nil [simp]: "scan_rest n [] s = s"
  by (subst scan_rest_loop) (simp add: scan_piece_def trimmed_def)

lemma scan_line_ignored:
  assumes "at_key s" "trimmed line = [] \<or> hd (trimmed line) = CHR '';''"
  shows "scan_line n line s = s"
  using assms by (simp add: scan_line_def at_key_def scan_rest_loop[of n line] scan_piece_def Let_def)

lemma scan_line_header:
  assumes "at_key s" "trimmed name = name"
  shows "same_place (scan_line n (''['' @ name @ '']'') s) name (ss_entries s)
           (ss_headers s @ [\<lparr>hd_name = name, hd_line = n\<rparr>])"
proof -
  have line: "trimmed (''['' @ name @ '']'') = ''['' @ name @ '']''" by (rule trimmed_id) (simp_all add: is_space_def)
  have head: "is_header (ss_pending s) (''['' @ name @ '']'')" using assms by (simp add: is_header_def at_key_def)
  have "scan_piece n (''['' @ name @ '']'') s =
      (s\<lparr>ss_section := name, ss_headers := ss_headers s @ [\<lparr>hd_name = name, hd_line = n\<rparr>]\<rparr>, None)"
    using head assms(2) unfolding scan_piece_def line Let_def by simp
  then show ?thesis using assms(1) by (simp add: scan_line_def at_key_def same_place_def scan_rest_loop[of n "_ # _"])
qed

lemma scan_line_setting:
  assumes s: "at_key s" and k: "plain_key k" and v: "plain_value v"
  shows "same_place (scan_line n (k @ ''='' @ v) s) (ss_section s)
           (ss_entries s @ [setting_entry n (ss_section s) k v]) (ss_headers s)"
proof -
  define line where "line = k @ ''='' @ v"
  obtain st where walk: "advance_value v fresh_value = (True, st, length v)"
    using v by (auto simp: plain_value_def value_closes_def split: prod.splits)
  have hd: "hd line = hd k" "last line = last v" "line \<noteq> []"
    using k v by (simp_all add: line_def plain_key_def plain_value_def)
  have nospace: "\<not> is_space (hd k)" using k by (cases k) (auto simp: plain_key_def)
  have line: "trimmed line = line" "skip_space line = line"
    using hd nospace v by (auto simp: plain_value_def intro: trimmed_id skip_space_id)
  have head: "\<not> is_header (ss_pending s) line" "hd line \<noteq> CHR '';''"
    using k hd by (simp_all add: is_header_def plain_key_def)
  have tokens: "append_key_tokens [] line = (k, Some v)"
    using k key_tokens_plain[of k "[]" v] by (simp add: line_def plain_key_def)
  have rest: "drop (length line - length v) line = v" by (simp add: line_def)
  have value_text: "append_value_text [] (take (length v) v) = v"
    using v trimmed_id[of v] by (simp add: append_value_text_def plain_value_def Let_def)
  have piece: "scan_piece n line s =
      (s\<lparr>ss_pending_line := n, ss_entries := ss_entries s @ [setting_entry n (ss_section s) k v], ss_pending := [],
         ss_value := st, ss_in_value := False\<rparr>, Some [])"
    using s head hd(3) tokens rest value_text walk
    by (simp add: scan_piece_def Let_def line begin_entry_def at_key_def setting_entry_def)
  show ?thesis
    using s piece unfolding line_def[symmetric]
    by (simp add: scan_line_def at_key_def same_place_def scan_rest_loop[of n line])
qed

lemma without_cr_render: "plain_line l \<Longrightarrow> without_cr (render_line l) = render_line l"
  by (cases l) (auto simp: plain_value_def is_space_def intro: without_cr_plain)

lemma plain_key_no_break: "plain_key k \<Longrightarrow> CHR 0x0A \<notin> set k"
proof
  assume "plain_key k" "CHR 0x0A \<in> set k"
  then have "\<not> is_space CHR 0x0A" unfolding plain_key_def list_all_iff by blast
  then show False by (simp add: is_space_def)
qed

lemma render_no_break: "plain_line l \<Longrightarrow> CHR 0x0A \<notin> set (render_line l)"
  by (cases l) (auto simp: plain_value_def dest: plain_key_no_break)

section \<open>The whole text\<close>

definition raw_line :: "bool \<Rightarrow> doc_line \<Rightarrow> string" where
  "raw_line crlf l = render_line l @ (if crlf then [CHR 0x0D] else [])"

lemma without_cr_raw: "plain_line l \<Longrightarrow> without_cr (raw_line crlf l) = render_line l"
  by (simp add: raw_line_def without_cr_add without_cr_render)

lemma config_text_lines:
  "list_all plain_line doc \<Longrightarrow> split_at CHR 0x0A (config_text crlf doc) = map (raw_line crlf) doc @ [[]]"
proof (induction doc)
  case (Cons l doc)
  have line: "CHR 0x0A \<notin> set (raw_line crlf l)" using Cons.prems render_no_break by (simp add: raw_line_def)
  have "config_text crlf (l # doc) = raw_line crlf l @ CHR 0x0A # config_text crlf doc"
    by (simp add: config_text_def raw_line_def line_end_def)
  then show ?case using Cons split_at_word[OF line] by (simp add: split_at_append)
qed (simp add: config_text_def)

lemma scan_plain_line:
  assumes s: "same_place s sec es hs" and l: "plain_line l"
  shows "same_place (scan_line n (render_line l) s) (case l of Header name \<Rightarrow> name | _ \<Rightarrow> sec)
           (es @ doc_entries n sec [l]) (hs @ doc_headers n [l])"
proof (cases l)
  case (Blank ws)
  then show ?thesis using s l scan_line_ignored[of s ws n] by (simp add: trimmed_blank same_place_def)
next
  case (Comment c)
  then show ?thesis using s l scan_line_ignored[of s c n] comment_first[of c] by (auto simp: same_place_def starts_char_def neq_Nil_conv)
next
  case (Header name)
  then show ?thesis using s l scan_line_header[of s name n] by (simp add: same_place_def)
next
  case (Setting k v)
  then show ?thesis using s l scan_line_setting[of s k v n] by (simp add: same_place_def)
qed

lemma doc_entries_Cons:
  "doc_entries n sec (l # doc) = doc_entries n sec [l] @ doc_entries (n + 1) (case l of Header name \<Rightarrow> name | _ \<Rightarrow> sec) doc"
  by (cases l) simp_all

lemma doc_headers_Cons: "doc_headers n (l # doc) = doc_headers n [l] @ doc_headers (n + 1) doc"
  by (cases l) simp_all

lemma scan_document:
  assumes "same_place s sec es hs" "list_all plain_line doc"
  shows "\<exists>sec'. same_place (scan_lines n (map (raw_line crlf) doc @ [[]]) s) sec' (es @ doc_entries n sec doc)
           (hs @ doc_headers n doc)"
  using assms
proof (induction doc arbitrary: n s sec es hs)
  case Nil
  then show ?case by (auto simp: without_cr_def scan_line_def same_place_def at_key_def)
next
  case (Cons l doc)
  have l: "plain_line l" using Cons.prems(2) by simp
  from Cons.IH[OF scan_plain_line[OF Cons.prems(1) l, of n], of "n + 1"] Cons.prems(2)
  show ?case using without_cr_raw[OF l, of crlf] doc_entries_Cons[of n sec l doc] doc_headers_Cons[of n l doc] by simp
qed

lemma scan_config_text:
  assumes "list_all plain_line doc"
  shows "scan_config (config_text crlf doc) =
    \<lparr>sc_entries = doc_entries 1 [] doc, sc_headers = doc_headers 1 doc, sc_complete = True, sc_trailing_key = False\<rparr>"
proof -
  have "same_place scan_start [] [] []" by (simp add: same_place_def at_key_def scan_start_def)
  from scan_document[OF this assms, of 1 crlf]
  show ?thesis using config_text_lines[OF assms, of crlf]
    by (auto simp: scan_config_def finish_scan_def same_place_def at_key_def)
qed

text \<open>
  (C34) A file of plain lines, with either line ending, is read back as it was written: the entries
  with their sections, keys, value texts and lines, the headers, a complete file and no key left
  over.
\<close>

theorem config_file_round_trip:
  assumes "list_all plain_line doc"
  shows "scan_config (config_text crlf doc) =
    \<lparr>sc_entries = doc_entries 1 [] doc, sc_headers = doc_headers 1 doc, sc_complete = True, sc_trailing_key = False\<rparr>"
  by (rule scan_config_text[OF assms])

lemma config_file_round_trip_witness:
  "let doc = [Comment ''; Engine'', Header ''application'', Setting ''config/name'' ([CHR 0x22] @ ''Game; = [x]'' @ [CHR 0x22]),
              Setting ''run/n'' ''[1, 2]'', Blank [], Header ''input'']
   in list_all plain_line doc \<and>
      scan_config (config_text True doc) =
        \<lparr>sc_entries = doc_entries 1 [] doc, sc_headers = doc_headers 1 doc, sc_complete = True, sc_trailing_key = False\<rparr>"
proof -
  have ok: "list_all plain_line
     [Comment ''; Engine'', Header ''application'', Setting ''config/name'' ([CHR 0x22] @ ''Game; = [x]'' @ [CHR 0x22]),
      Setting ''run/n'' ''[1, 2]'', Blank [], Header ''input'']"
    by code_simp
  show ?thesis unfolding Let_def by (rule conjI[OF ok config_file_round_trip[OF ok]])
qed

end
