(* ===== verification/Project_Settings.thy ===== *)
theory Project_Settings
  imports Config_Document Didi_Json
begin

text \<open>
  The offline reader and writer of \<open>project.godot\<close>, \<open>src/offline/project_settings_file.cpp\<close>:
  values as Godot literals, the settings and autoloads of a file, and the whole-line rewrite of
  one setting. The file's text is an argument and the rewritten text part of the answer; the lock
  and the atomic write around them are left out.
\<close>

section \<open>Reading and refusing a file\<close>

definition not_found :: "string \<Rightarrow> refusal" where
  "not_found msg = \<lparr>err_code = 404, err_message = msg, err_data = JNull\<rparr>"

definition conflict_refusal :: "string \<Rightarrow> refusal" where
  "conflict_refusal msg = \<lparr>err_code = 409, err_message = msg, err_data = JNull\<rparr>"

fun escape_setting_char :: "char \<Rightarrow> string" where
  "escape_setting_char c =
     (if c = CHR 0x5C then [CHR 0x5C, CHR 0x5C]
      else if c = CHR 0x22 then [CHR 0x5C, CHR 0x22]
      else if c = CHR 0x0A then [CHR 0x5C, CHR ''n'']
      else if c = CHR 0x0D then [CHR 0x5C, CHR ''r'']
      else if c = CHR 0x09 then [CHR 0x5C, CHR ''t'']
      else [c])"

definition escape_setting_string :: "string \<Rightarrow> string" where
  "escape_setting_string s = concat (map escape_setting_char s)"

definition is_blank_byte :: "char \<Rightarrow> bool" where
  "is_blank_byte c = (c \<in> {CHR '' '', CHR 0x09})"

definition without_blanks :: "string \<Rightarrow> string" where
  "without_blanks s = rev (dropWhile is_blank_byte (rev (dropWhile is_blank_byte s)))"

definition setting_name :: "string \<Rightarrow> string \<Rightarrow> string" where
  "setting_name sec key = (if sec = [] then key else sec @ ''/'' @ key)"

definition unloadable_unterminated :: "string \<Rightarrow> string" where
  "unloadable_unterminated verb =
     ''project.godot ends part-way through a value, which Godot answers with ERR_PARSE_ERROR: the project does not open '' @
     ''and none of the settings in the file are what it runs on. Repair the unterminated value before '' @ verb @ ''.''"

definition unloadable_value :: "load_failure \<Rightarrow> string \<Rightarrow> string" where
  "unloadable_value f verb =
     ''project.godot line '' @ dec (lf_line f) @ '' sets '' @ setting_name (lf_section f) (lf_key f) @
     '' to a value Godot'' @ [CHR 0x27] @ ''s parser refuses, because '' @ lf_value_reason f @
     ''. The engine answers ERR_PARSE_ERROR for the whole file, so the project does not open and none of the settings '' @
     ''in it are what it runs on. Repair the value before '' @ verb @ ''.''"

definition refuse_unloadable :: "config_scan \<Rightarrow> string \<Rightarrow> refusal option" where
  "refuse_unloadable sc verb =
     map_option (\<lambda>f. conflict_refusal (if lf_unterminated f then unloadable_unterminated verb else unloadable_value f verb))
       (load_failure_of sc)"

record setting_read =
  sr_setting :: string
  sr_literal :: string
  sr_existed :: bool

definition read_entry :: "string \<Rightarrow> string \<Rightarrow> config_entry \<Rightarrow> setting_read \<Rightarrow> setting_read" where
  "read_entry sec key e r =
     (if en_section e \<noteq> sec \<or> en_key e \<noteq> key then r else r\<lparr>sr_existed := True, sr_literal := en_value_text e\<rparr>)"

definition read_project_setting :: "string \<Rightarrow> string \<Rightarrow> (refusal, setting_read) result" where
  "read_project_setting contents setting =
     (if setting = [] \<or> CHR ''/'' \<notin> set setting then
        Inl (invalid_argument ''setting must be a slash-delimited ProjectSettings name'')
      else
        let sec = takeWhile (\<lambda>c. c \<noteq> CHR ''/'') setting;
            key = tl (dropWhile (\<lambda>c. c \<noteq> CHR ''/'') setting);
            sc = scan_config contents
        in case refuse_unloadable sc ''reading a setting out of it'' of
             Some e \<Rightarrow> Inl e
           | None \<Rightarrow> Inr (fold (read_entry sec key) (sc_entries sc)
                \<lparr>sr_setting = setting, sr_literal = [], sr_existed = False\<rparr>))"

text \<open>\<open>std::stoi\<close>: blanks, a sign and digits; what follows is not looked at.\<close>

definition stoi :: "string \<Rightarrow> int option" where
  "stoi s =
     (let t = dropWhile is_space s;
          negative = (t \<noteq> [] \<and> hd t = CHR ''-'');
          u = (if t \<noteq> [] \<and> (hd t = CHR ''-'' \<or> hd t = CHR ''+'') then tl t else t);
          ds = takeWhile is_digit u;
          n = (if negative then - int (digits_value ds) else int (digits_value ds))
      in if ds = [] \<or> n < - (2 ^ 31) \<or> 2 ^ 31 \<le> n then None else Some n)"

definition project_physics_ticks_per_second :: "string \<Rightarrow> int" where
  "project_physics_ticks_per_second contents =
     (case read_project_setting contents ''physics/common/physics_ticks_per_second'' of
        Inl e \<Rightarrow> 60
      | Inr r \<Rightarrow>
          if \<not> sr_existed r then 60
          else (case stoi (sr_literal r) of None \<Rightarrow> 60 | Some t \<Rightarrow> if 1 \<le> t \<and> t \<le> 1000 then t else 60))"

record project_autoload =
  al_name :: string
  al_path :: string
  al_singleton :: bool

definition autoload_of :: "config_entry \<Rightarrow> project_autoload" where
  "autoload_of e =
     (let t = trim (en_value_text e);
          v = (case string_value t of Some (s, None) \<Rightarrow> s | _ \<Rightarrow> t);
          singleton = (v \<noteq> [] \<and> hd v = CHR ''*'')
      in \<lparr>al_name = en_key e, al_path = (if singleton then tl v else v), al_singleton = singleton\<rparr>)"

definition collect_autoload :: "config_entry \<Rightarrow> (string \<times> project_autoload) list \<Rightarrow> (string \<times> project_autoload) list" where
  "collect_autoload e found =
     (if en_section e \<noteq> ''autoload'' \<or> en_key e = [] then found else kv_put (en_key e) (autoload_of e) found)"

definition read_project_autoloads :: "string \<Rightarrow> (refusal, project_autoload list) result" where
  "read_project_autoloads contents =
     (let sc = scan_config contents
      in case refuse_unloadable sc ''listing the autoloads in it'' of
           Some e \<Rightarrow> Inl e
         | None \<Rightarrow> Inr (map snd (fold collect_autoload (sc_entries sc) [])))"

section \<open>Literals\<close>

text \<open>
  The library's shortest text of a real is the argument \<open>dump\<close>; a conversion of a real outside
  the range of the integer, which the language leaves open, is the argument \<open>open_cast\<close>.
\<close>

definition real_text :: "(dbl \<Rightarrow> string) \<Rightarrow> dbl \<Rightarrow> string" where
  "real_text dump d =
     (if list_ex (\<lambda>c. c \<in> {CHR ''.'', CHR ''e'', CHR ''E''}) (dump d) then dump d else dump d @ ''.0'')"

definition quoted_setting :: "string \<Rightarrow> string" where
  "quoted_setting s = [CHR 0x22] @ escape_setting_string s @ [CHR 0x22]"

fun comma_joined :: "string list \<Rightarrow> string" where
  "comma_joined [] = []"
| "comma_joined [w] = w"
| "comma_joined (w # ws) = w @ '', '' @ comma_joined ws"

fun setting_literal :: "(dbl \<Rightarrow> string) \<Rightarrow> nat \<Rightarrow> json \<Rightarrow> (refusal, string) result"
  and element_literals :: "(dbl \<Rightarrow> string) \<Rightarrow> nat \<Rightarrow> json list \<Rightarrow> (refusal, string list) result"
  and member_literals :: "(dbl \<Rightarrow> string) \<Rightarrow> nat \<Rightarrow> (string \<times> json) list \<Rightarrow> (refusal, string list) result" where
  "setting_literal dump depth v =
     (if depth > 16 then Inl (invalid_argument ''JSON value is nested more than 16 levels deep'')
      else (case v of
          JNull \<Rightarrow> Inr ''null''
        | JBool b \<Rightarrow> Inr (if b then ''true'' else ''false'')
        | JUInt n \<Rightarrow>
            if n > 2 ^ 63 - 1 then Inl (invalid_argument ''Unsigned integer is outside Godot Variant int range'')
            else Inr (dec n)
        | JInt i \<Rightarrow> Inr (dec_int i)
        | JFloat d \<Rightarrow>
            if \<not> is_finite d then Inl (invalid_argument ''JSON real must be finite'') else Inr (real_text dump d)
        | JStr s \<Rightarrow> Inr (quoted_setting s)
        | JArr xs \<Rightarrow>
            (case element_literals dump (depth + 1) xs of
               Inl e \<Rightarrow> Inl e | Inr ws \<Rightarrow> Inr (''['' @ comma_joined ws @ '']''))
        | JObj m \<Rightarrow>
            (case member_literals dump (depth + 1) m of
               Inl e \<Rightarrow> Inl e | Inr ws \<Rightarrow> Inr (''{'' @ comma_joined ws @ ''}''))))"
| "element_literals dump depth [] = Inr []"
| "element_literals dump depth (x # xs) =
     (case setting_literal dump depth x of
        Inl e \<Rightarrow> Inl e
      | Inr w \<Rightarrow> (case element_literals dump depth xs of Inl e \<Rightarrow> Inl e | Inr ws \<Rightarrow> Inr (w # ws)))"
| "member_literals dump depth [] = Inr []"
| "member_literals dump depth ((k, x) # m) =
     (case setting_literal dump depth x of
        Inl e \<Rightarrow> Inl e
      | Inr w \<Rightarrow> (case member_literals dump depth m of
                  Inl e \<Rightarrow> Inl e | Inr ws \<Rightarrow> Inr ((quoted_setting k @ '': '' @ w) # ws)))"

declare setting_literal.simps [simp del]

definition check_single_line_literal :: "string \<Rightarrow> refusal option" where
  "check_single_line_literal literal =
     (if literal = [] \<or> CHR 0x0D \<in> set literal \<or> CHR 0x0A \<in> set literal then
        Some (invalid_argument (''Not a single-line Godot value literal: '' @ literal))
      else
        let probe = scan_config (''[probe]'' @ [CHR 0x0A] @ ''key='' @ literal @ [CHR 0x0A])
        in if load_failure_of probe \<noteq> None \<or> sc_trailing_key probe \<or> length (sc_entries probe) \<noteq> 1 \<or>
              en_key (hd (sc_entries probe)) \<noteq> ''key'' \<or> trim (en_value_text (hd (sc_entries probe))) \<noteq> literal
           then Some (invalid_argument (''Not a Godot value literal Godot would load: '' @ literal))
           else None)"

section \<open>Literals of the type a setting holds\<close>

definition literal_constructor :: "string \<Rightarrow> string" where
  "literal_constructor literal =
     (let t = trim literal; name = takeWhile (\<lambda>c. c \<noteq> CHR ''('') t
      in if CHR ''('' \<notin> set t \<or> name = [] then []
         else if list_all is_alnum name then name else [])"

fun keys_are_numbers :: "json \<Rightarrow> bool \<Rightarrow> string list \<Rightarrow> bool" where
  "keys_are_numbers v alpha_optional [] = True"
| "keys_are_numbers v alpha_optional (k # ks) =
     (case jget v k of
        None \<Rightarrow> alpha_optional \<and> ks = []
      | Some x \<Rightarrow> is_number x \<and> keys_are_numbers v alpha_optional ks)"

definition number_members :: "json \<Rightarrow> string list \<Rightarrow> bool \<Rightarrow> bool" where
  "number_members v ks alpha_optional =
     (let required = length ks - (if alpha_optional then 1 else 0)
      in is_object v \<and>
         (length (members v) = length ks \<or> (alpha_optional \<and> length (members v) = required)) \<and>
         keys_are_numbers v alpha_optional ks)"

fun get_double :: "json \<Rightarrow> dbl" where
  "get_double (JInt i) = int_to_dbl i"
| "get_double (JUInt n) = int_to_dbl (int n)"
| "get_double (JFloat d) = d"
| "get_double v = NaN"

text \<open>
  A byte over 255 as the division of doubles gives it: no quotient lies half way between two
  doubles, so it is the nearest one with 53 bits.
\<close>

definition byte_fraction :: "nat \<Rightarrow> dbl" where
  "byte_fraction n =
     (if n = 0 then Fin 0
      else let e = hd (filter (\<lambda>e. 2 ^ 52 \<le> n * 2 ^ e div 255) [52..<61])
           in Fin (of_nat ((2 * n * 2 ^ e + 255) div 510) / 2 ^ e))"

fun hex_pairs :: "string \<Rightarrow> nat list option" where
  "hex_pairs [] = Some []"
| "hex_pairs [c] = None"
| "hex_pairs (c # d # cs) =
     (case (hex_value c, hex_value d, hex_pairs cs) of
        (Some a, Some b, Some ns) \<Rightarrow> Some ((16 * a + b) # ns)
      | _ \<Rightarrow> None)"

definition color_text :: "(dbl \<Rightarrow> string) \<Rightarrow> dbl \<Rightarrow> dbl \<Rightarrow> dbl \<Rightarrow> dbl \<Rightarrow> string" where
  "color_text dump r g b a =
     ''Color('' @ real_text dump r @ '', '' @ real_text dump g @ '', '' @ real_text dump b @ '', '' @ real_text dump a @ '')''"

definition color_from_hex :: "(dbl \<Rightarrow> string) \<Rightarrow> string \<Rightarrow> string option" where
  "color_from_hex dump s =
     (if (length s \<noteq> 7 \<and> length s \<noteq> 9) \<or> hd s \<noteq> CHR ''#'' then None
      else case hex_pairs (tl s) of
             Some [r, g, b] \<Rightarrow> Some (color_text dump (byte_fraction r) (byte_fraction g) (byte_fraction b) (Fin 1))
           | Some [r, g, b, a] \<Rightarrow>
               Some (color_text dump (byte_fraction r) (byte_fraction g) (byte_fraction b) (byte_fraction a))
           | _ \<Rightarrow> None)"

definition type_mismatch :: "string \<Rightarrow> string \<Rightarrow> refusal" where
  "type_mismatch constructor shape =
     \<lparr>err_code = 409, err_message = ''The setting holds a '' @ constructor @ '', and the value given is not '' @ shape @ ''.'',
      err_data = jobj [(''code'', JStr ''setting_type_mismatch''), (''expected_type'', JStr constructor),
                       (''retryable'', JBool False)]\<rparr>"

definition member_double :: "json \<Rightarrow> string \<Rightarrow> dbl" where
  "member_double v k = (case jget v k of Some x \<Rightarrow> get_double x | None \<Rightarrow> NaN)"

definition alpha_double :: "json \<Rightarrow> dbl" where
  "alpha_double v = (case jget v ''a'' of Some x \<Rightarrow> get_double x | None \<Rightarrow> Fin 1)"

definition color_shape :: string where
  "color_shape = ''{r, g, b, a} or '' @ [CHR 0x22] @ ''#rrggbb'' @ [CHR 0x22]"

definition color_literal :: "(dbl \<Rightarrow> string) \<Rightarrow> json \<Rightarrow> (refusal, string) result" where
  "color_literal dump v =
     (case v of
        JStr s \<Rightarrow> (case color_from_hex dump s of
                     Some t \<Rightarrow> Inr t | None \<Rightarrow> Inl (type_mismatch ''Color'' color_shape))
      | _ \<Rightarrow>
          if \<not> number_members v [''r'', ''g'', ''b'', ''a''] True then Inl (type_mismatch ''Color'' color_shape)
          else Inr (color_text dump (member_double v ''r'') (member_double v ''g'') (member_double v ''b'') (alpha_double v)))"

text \<open>\<open>number != std::floor(number)\<close> and the conversion to a 64-bit integer.\<close>

fun is_fractional :: "dbl \<Rightarrow> bool" where
  "is_fractional (Fin r) = (r \<noteq> of_int \<lfloor>r\<rfloor>)"
| "is_fractional NaN = True"
| "is_fractional d = False"

definition cast_int64 :: "(dbl \<Rightarrow> int) \<Rightarrow> dbl \<Rightarrow> int" where
  "cast_int64 open_cast d =
     (case d of
        Fin r \<Rightarrow> if - (2 ^ 63) \<le> \<lfloor>r\<rfloor> \<and> \<lfloor>r\<rfloor> < 2 ^ 63 then \<lfloor>r\<rfloor> else open_cast d
      | _ \<Rightarrow> open_cast d)"

fun vector_parts ::
  "(dbl \<Rightarrow> string) \<Rightarrow> (dbl \<Rightarrow> int) \<Rightarrow> bool \<Rightarrow> json \<Rightarrow> string list \<Rightarrow> string list option" where
  "vector_parts dump open_cast whole v [] = Some []"
| "vector_parts dump open_cast whole v (k # ks) =
     (let d = member_double v k
      in if whole \<and> is_fractional d then None
         else map_option ((#) (if whole then dec_int (cast_int64 open_cast d) else real_text dump d))
                (vector_parts dump open_cast whole v ks))"

definition vector_literal ::
  "(dbl \<Rightarrow> string) \<Rightarrow> (dbl \<Rightarrow> int) \<Rightarrow> string \<Rightarrow> json \<Rightarrow> (refusal, string) result" where
  "vector_literal dump open_cast constructor v =
     (let whole = (constructor = ''Vector2i'' \<or> constructor = ''Vector3i'');
          ks = (if constructor ! 6 = CHR ''3'' then [''x'', ''y'', ''z''] else [''x'', ''y''])
      in if \<not> number_members v ks False then
           Inl (type_mismatch constructor (if constructor ! 6 = CHR ''3'' then ''{x, y, z}'' else ''{x, y}''))
         else case vector_parts dump open_cast whole v ks of
                None \<Rightarrow> Inl (type_mismatch constructor ''whole numbers'')
              | Some ws \<Rightarrow> Inr (constructor @ ''('' @ comma_joined ws @ '')''))"

definition packed_item :: "(dbl \<Rightarrow> string) \<Rightarrow> string \<Rightarrow> json \<Rightarrow> string option" where
  "packed_item dump constructor x =
     (if constructor = ''PackedStringArray'' then (case x of JStr s \<Rightarrow> Some (quoted_setting s) | _ \<Rightarrow> None)
      else if constructor = ''PackedInt32Array'' \<or> constructor = ''PackedInt64Array'' then
        (case x of JInt i \<Rightarrow> Some (dec_int i) | JUInt n \<Rightarrow> Some (dec_int (to_int64 n)) | _ \<Rightarrow> None)
      else if is_number x then Some (real_text dump (get_double x)) else None)"

fun packed_items :: "(dbl \<Rightarrow> string) \<Rightarrow> string \<Rightarrow> json list \<Rightarrow> string list option" where
  "packed_items dump constructor [] = Some []"
| "packed_items dump constructor (x # xs) =
     (case packed_item dump constructor x of
        None \<Rightarrow> None
      | Some w \<Rightarrow> map_option ((#) w) (packed_items dump constructor xs))"

definition packed_literal :: "(dbl \<Rightarrow> string) \<Rightarrow> string \<Rightarrow> json \<Rightarrow> (refusal, string) result" where
  "packed_literal dump constructor v =
     (case v of
        JArr xs \<Rightarrow>
          (case packed_items dump constructor xs of
             Some ws \<Rightarrow> Inr (constructor @ ''('' @ comma_joined ws @ '')'')
           | None \<Rightarrow> Inl (type_mismatch constructor
               (if constructor = ''PackedStringArray'' then ''an array of strings'' else ''an array of numbers'')))
      | _ \<Rightarrow> Inl (type_mismatch constructor ''an array''))"

definition typed_setting_literal ::
  "(dbl \<Rightarrow> string) \<Rightarrow> (dbl \<Rightarrow> int) \<Rightarrow> json \<Rightarrow> string \<Rightarrow> (refusal, string) result option" where
  "typed_setting_literal dump open_cast v constructor =
     (if constructor = ''Color'' then Some (color_literal dump v)
      else if constructor \<in> {''Vector2'', ''Vector2i'', ''Vector3'', ''Vector3i''} then
        Some (vector_literal dump open_cast constructor v)
      else if constructor \<in> {''PackedStringArray'', ''PackedInt32Array'', ''PackedInt64Array'', ''PackedFloat32Array'',
                              ''PackedFloat64Array''} then Some (packed_literal dump constructor v)
      else None)"

definition inferred_constructor :: "json \<Rightarrow> string" where
  "inferred_constructor v =
     (if number_members v [''r'', ''g'', ''b'', ''a''] True then ''Color''
      else if number_members v [''x'', ''y'', ''z''] False then ''Vector3''
      else if number_members v [''x'', ''y''] False then ''Vector2''
      else [])"

section \<open>Writing one setting\<close>

record setting_write =
  sw_setting :: string
  sw_section :: string
  sw_key :: string
  sw_literal :: string
  sw_previous_literal :: string
  sw_existed :: bool
  sw_removed :: bool
  sw_section_created :: bool

definition setting_name_ok :: "string \<Rightarrow> bool" where
  "setting_name_ok s =
     (s \<noteq> [] \<and> hd s \<noteq> CHR ''/'' \<and> last s \<noteq> CHR ''/'' \<and> CHR ''/'' \<in> set s \<and> \<not> has_infix ''//'' s \<and> CHR 0x5C \<notin> set s)"

definition typed_namespace_setting :: "string \<Rightarrow> bool \<Rightarrow> bool" where
  "typed_namespace_setting s typed_namespace =
     (starts_with s ''autoload/'' \<or> (starts_with s ''input/'' \<and> \<not> typed_namespace))"

text \<open>\<open>std::getline\<close> over the text, with the carriage returns removed.\<close>

definition file_lines :: "string \<Rightarrow> string list" where
  "file_lines contents =
     (let ls = split_at CHR 0x0A contents
      in map without_cr (if last ls = [] then butlast ls else ls))"

text \<open>Whether the section has a header, and the line of the first header behind it.\<close>

fun section_place :: "string \<Rightarrow> nat \<Rightarrow> bool \<Rightarrow> nat \<Rightarrow> config_header list \<Rightarrow> bool \<times> nat" where
  "section_place sec count seen stop [] = (seen, stop)"
| "section_place sec count seen stop (h # hs) =
     section_place sec count (seen \<or> hd_name h = sec) (if seen \<and> stop = count then hd_line h - 1 else stop) hs"

text \<open>The last entry of the setting, with its place in the list.\<close>

fun last_entry :: "string \<Rightarrow> string \<Rightarrow> nat \<Rightarrow> (nat \<times> config_entry) option \<Rightarrow> config_entry list \<Rightarrow> (nat \<times> config_entry) option" where
  "last_entry sec key i found [] = found"
| "last_entry sec key i found (e # es) =
     last_entry sec key (i + 1) (if en_section e \<noteq> sec \<or> en_key e \<noteq> key then found else Some (i, e)) es"

fun sharing_entry :: "nat \<Rightarrow> config_entry \<Rightarrow> nat \<Rightarrow> config_entry list \<Rightarrow> config_entry option" where
  "sharing_entry place target i [] = None"
| "sharing_entry place target i (e # es) =
     (if i = place \<or> en_key_line e > en_value_end_line target \<or> en_value_end_line e < en_key_line target
      then sharing_entry place target (i + 1) es else Some e)"

definition shared_line_refusal :: "string \<Rightarrow> config_entry \<Rightarrow> refusal" where
  "shared_line_refusal setting e =
     conflict_refusal (''project.godot line '' @ dec (en_line e) @ '' holds '' @ setting_name (en_section e) (en_key e) @
       '' as well as '' @ setting @ '', and this writes whole lines, so changing one would delete the other. '' @
       ''A value ending does not end the line for Godot: it carries on reading, and both keys are settings the '' @
       ''project runs on. Put them on separate lines and write again.'')"

definition joined_refusal :: "string \<Rightarrow> config_entry \<Rightarrow> refusal" where
  "joined_refusal setting e =
     conflict_refusal (''Godot registers this setting by joining line '' @ dec (en_key_line e) @ '' into line '' @
       dec (en_line e) @ '', so its name is spread over more lines than a rewrite of the assignment replaces and '' @
       ''the text above would join forward into whatever is written here. Move or delete line '' @
       dec (en_key_line e) @ '' before writing to '' @ setting @ ''.'')"

definition target_refusal :: "string \<Rightarrow> config_entry list \<Rightarrow> nat \<times> config_entry \<Rightarrow> refusal option" where
  "target_refusal setting es t =
     (case sharing_entry (fst t) (snd t) 0 es of
        Some e \<Rightarrow> Some (shared_line_refusal setting e)
      | None \<Rightarrow> if en_joined (snd t) then Some (joined_refusal setting (snd t)) else None)"

text \<open>The place a new key is inserted: behind the last line of its section that is not blank.\<close>

fun insert_place :: "string list \<Rightarrow> nat \<Rightarrow> nat" where
  "insert_place ls 0 = 0"
| "insert_place ls (Suc n) = (if without_blanks (ls ! n) = [] then insert_place ls n else Suc n)"

definition insert_line :: "nat \<Rightarrow> string \<Rightarrow> string list \<Rightarrow> string list" where
  "insert_line n line ls = take n ls @ line # drop n ls"

definition without_blank_tail :: "string list \<Rightarrow> string list" where
  "without_blank_tail ls = rev (dropWhile (\<lambda>l. without_blanks l = []) (rev ls))"

definition edited_lines ::
  "string \<Rightarrow> string \<Rightarrow> string option \<Rightarrow> config_scan \<Rightarrow> config_entry option \<Rightarrow> string list \<Rightarrow> string list \<times> bool" where
  "edited_lines sec key literal sc target ls =
     (let (section_seen, section_end) = section_place sec (length ls) False (length ls) (sc_headers sc);
          line = key @ ''='' @ (case literal of None \<Rightarrow> [] | Some l \<Rightarrow> l)
      in case target of
           Some t \<Rightarrow>
             (let place = en_line t - 1; stop = min (en_value_end_line t) (length ls)
              in (take place ls @ (if literal = None then [] else [line]) @ drop stop ls, False))
         | None \<Rightarrow>
             if section_seen then (insert_line (insert_place ls section_end) line ls, False)
             else (without_blank_tail ls @ [[], ''['' @ sec @ '']'', [], line], True))"

definition joined_lines :: "bool \<Rightarrow> string list \<Rightarrow> string" where
  "joined_lines crlf ls = concat (map (\<lambda>l. l @ line_end crlf) ls)"

text \<open>\<open>writeSettingLine\<close>: the report and the text the file is replaced with.\<close>

definition write_setting_line ::
  "string \<Rightarrow> string \<Rightarrow> string option \<Rightarrow> bool \<Rightarrow> (refusal, setting_write \<times> string) result" where
  "write_setting_line contents setting literal typed_namespace =
     (if \<not> setting_name_ok setting then
        Inl (invalid_argument ''setting must be a non-empty slash-delimited ProjectSettings name'')
      else if typed_namespace_setting setting typed_namespace then
        Inl (invalid_argument ''Use the typed autoload or InputMap tools for this setting namespace'')
      else
        let sec = takeWhile (\<lambda>c. c \<noteq> CHR ''/'') setting;
            key = tl (dropWhile (\<lambda>c. c \<noteq> CHR ''/'') setting);
            sc = scan_config contents;
            ls = file_lines contents;
            target = last_entry sec key 0 None (sc_entries sc)
        in case refuse_unloadable sc ''writing to it'' of
             Some e \<Rightarrow> Inl e
           | None \<Rightarrow>
               (case Option.bind target (target_refusal setting (sc_entries sc)) of
                  Some e \<Rightarrow> Inl e
                | None \<Rightarrow>
                    if literal = None \<and> target = None then Inl (not_found (''Project setting not found: '' @ setting))
                    else
                      let edit = edited_lines sec key literal sc (map_option snd target) ls
                      in Inr (\<lparr>sw_setting = setting, sw_section = sec, sw_key = key,
                               sw_literal = (case literal of None \<Rightarrow> [] | Some l \<Rightarrow> l),
                               sw_previous_literal = (case target of None \<Rightarrow> [] | Some t \<Rightarrow> en_value_text (snd t)),
                               sw_existed = (target \<noteq> None), sw_removed = (literal = None),
                               sw_section_created = snd edit\<rparr>,
                              joined_lines (has_infix [CHR 0x0D, CHR 0x0A] contents) (fst edit))))"

definition with_setting :: "string \<Rightarrow> refusal \<Rightarrow> refusal" where
  "with_setting setting e = e\<lparr>err_data := jput ''setting'' (JStr setting) (err_data e)\<rparr>"

definition held_constructor :: "string \<Rightarrow> string \<Rightarrow> json \<Rightarrow> string" where
  "held_constructor contents setting v =
     (case read_project_setting contents setting of
        Inr r \<Rightarrow> if sr_existed r then literal_constructor (sr_literal r) else inferred_constructor v
      | Inl e \<Rightarrow> inferred_constructor v)"

definition write_project_setting ::
  "(dbl \<Rightarrow> string) \<Rightarrow> (dbl \<Rightarrow> int) \<Rightarrow> string \<Rightarrow> string \<Rightarrow> json \<Rightarrow> bool \<Rightarrow> (refusal, setting_write \<times> string) result" where
  "write_project_setting dump open_cast contents setting v remove =
     (if remove then write_setting_line contents setting None False
      else
        let constructor = held_constructor contents setting v;
            typed = (if constructor = [] then None else typed_setting_literal dump open_cast v constructor)
        in case typed of
             Some (Inl e) \<Rightarrow> Inl (with_setting setting e)
           | Some (Inr literal) \<Rightarrow> write_setting_line contents setting (Some literal) False
           | None \<Rightarrow> rbind (setting_literal dump 0 v) (\<lambda>literal. write_setting_line contents setting (Some literal) False))"

definition write_project_setting_literal :: "string \<Rightarrow> string \<Rightarrow> string \<Rightarrow> (refusal, setting_write \<times> string) result" where
  "write_project_setting_literal contents setting literal =
     (case check_single_line_literal literal of
        Some e \<Rightarrow> Inl e | None \<Rightarrow> write_setting_line contents setting (Some literal) False)"

definition write_input_action_literal :: "string \<Rightarrow> string \<Rightarrow> string \<Rightarrow> (refusal, setting_write \<times> string) result" where
  "write_input_action_literal contents action literal =
     (case check_single_line_literal literal of
        Some e \<Rightarrow> Inl e | None \<Rightarrow> write_setting_line contents (''input/'' @ action) (Some literal) True)"

end
