(* ===== verification/Setting_Writes.thy ===== *)
theory Setting_Writes
  imports Project_Settings
begin

text \<open>
  What the writer of \<open>src/offline/project_settings_file.cpp\<close> does to the settings a file
  registers. The abstract state is the map from section and key to value text; on a plain
  document the whole-line rewrite is the update of that map, and the concrete files at the end
  are the ones where it is not.
\<close>

section \<open>The settings of a scan\<close>

definition entry_binding :: "config_entry \<Rightarrow> (string \<times> string) \<times> string" where
  "entry_binding e = ((en_section e, en_key e), en_value_text e)"

definition registered :: "config_scan \<Rightarrow> (string \<times> string) \<rightharpoonup> string" where
  "registered sc = map_of (rev (map entry_binding (sc_entries sc)))"

definition bindings :: "config_entry list \<Rightarrow> (string \<times> string) \<rightharpoonup> string" where
  "bindings es = map_of (rev (map entry_binding es))"

lemma registered_bindings: "registered sc = bindings (sc_entries sc)"
  by (simp add: registered_def bindings_def)

lemma bindings_Nil [simp]: "bindings [] = Map.empty"
  by (simp add: bindings_def)

lemma bindings_append [simp]: "bindings (as @ bs) = bindings as ++ bindings bs"
  by (simp add: bindings_def)

lemma bindings_Cons: "bindings (e # es) = bindings [e] ++ bindings es"
  using bindings_append[of "[e]" es] by simp

lemma bindings_single [simp]: "bindings [e] = [(en_section e, en_key e) \<mapsto> en_value_text e]"
  by (simp add: bindings_def entry_binding_def)

lemma bindings_None: "bindings es (sec, key) = None \<longleftrightarrow> (\<forall>e \<in> set es. en_section e \<noteq> sec \<or> en_key e \<noteq> key)"
  by (auto simp: bindings_def map_of_eq_None_iff entry_binding_def image_iff)

lemma fold_read_entry:
  "fold (read_entry sec key) es r =
     (case bindings es (sec, key) of
        None \<Rightarrow> r
      | Some v \<Rightarrow> r\<lparr>sr_existed := True, sr_literal := v\<rparr>)"
proof (induction es arbitrary: r)
  case (Cons e es)
  show ?case
    by (subst bindings_Cons) (auto simp: Cons read_entry_def map_add_def split: option.split)
qed simp

text \<open>The reader answers what the file registers, or why the engine does not load it.\<close>

lemma read_setting_registered:
  assumes "CHR ''/'' \<notin> set sec"
  shows "read_project_setting text (sec @ ''/'' @ key) =
    (case refuse_unloadable (scan_config text) ''reading a setting out of it'' of
       Some e \<Rightarrow> Inl e
     | None \<Rightarrow> Inr (case registered (scan_config text) (sec, key) of
         None \<Rightarrow> \<lparr>sr_setting = sec @ ''/'' @ key, sr_literal = [], sr_existed = False\<rparr>
       | Some v \<Rightarrow> \<lparr>sr_setting = sec @ ''/'' @ key, sr_literal = v, sr_existed = True\<rparr>))"
proof -
  have "takeWhile (\<lambda>c. c \<noteq> CHR ''/'') (sec @ ''/'' @ key) = sec"
    "tl (dropWhile (\<lambda>c. c \<noteq> CHR ''/'') (sec @ ''/'' @ key)) = key"
    using assms by (auto simp: takeWhile_append dropWhile_append)
  then show ?thesis
    by (simp add: read_project_setting_def Let_def fold_read_entry registered_bindings split: option.split)
qed

section \<open>Documents\<close>

fun section_after :: "string \<Rightarrow> doc_line list \<Rightarrow> string" where
  "section_after sec [] = sec"
| "section_after sec (Header name # doc) = section_after name doc"
| "section_after sec (l # doc) = section_after sec doc"

lemma section_after_append: "section_after sec (xs @ ys) = section_after (section_after sec xs) ys"
  by (induction sec xs rule: section_after.induct) simp_all

lemma doc_entries_append:
  "doc_entries n sec (xs @ ys) = doc_entries n sec xs @ doc_entries (n + length xs) (section_after sec xs) ys"
  by (induction n sec xs rule: doc_entries.induct) simp_all

lemma doc_entries_place:
  "e \<in> set (doc_entries n sec doc) \<Longrightarrow>
   n \<le> en_line e \<and> en_line e < n + length doc \<and> en_key_line e = en_line e \<and> en_value_end_line e = en_line e \<and> \<not> en_joined e"
proof (induction n sec doc rule: doc_entries.induct)
  case (2 n sec k v doc)
  then show ?case by (auto simp: setting_entry_def)
qed auto

text \<open>What a file registers does not depend on the numbers of its lines.\<close>

lemma bindings_shift: "bindings (doc_entries n sec doc) = bindings (doc_entries m sec doc)"
proof (induction n sec doc arbitrary: m rule: doc_entries.induct)
  case (2 n sec k v doc)
  have "bindings [setting_entry n sec k v] = bindings [setting_entry m sec k v]" by (simp add: setting_entry_def)
  then show ?case using 2[of "m + 1"] by (metis bindings_Cons doc_entries.simps(2))
qed auto

lemma doc_entries_split:
  assumes "doc_entries n sec doc = as @ e # bs"
  shows "\<exists>da k v db. doc = da @ Setting k v # db \<and> as = doc_entries n sec da \<and>
    e = setting_entry (n + length da) (section_after sec da) k v \<and>
    bs = doc_entries (n + length da + 1) (section_after sec da) db"
  using assms
proof (induction n sec doc arbitrary: as rule: doc_entries.induct)
  case (2 n sec k v doc)
  show ?case
  proof (cases as)
    case Nil
    show ?thesis
      by (rule exI[of _ "[]"], rule exI[of _ k], rule exI[of _ v], rule exI[of _ doc]) (use 2 Nil in auto)
  next
    case (Cons a as')
    then have "doc_entries (n + 1) sec doc = as' @ e # bs" using 2 by simp
    from 2(1)[OF this] obtain da k' v' db where "doc = da @ Setting k' v' # db" "as' = doc_entries (n + 1) sec da"
      "e = setting_entry (n + 1 + length da) (section_after sec da) k' v'"
      "bs = doc_entries (n + 1 + length da + 1) (section_after sec da) db" by blast
    then show ?thesis using 2(2) Cons
      by (intro exI[of _ "Setting k v # da"] exI[of _ k'] exI[of _ v'] exI[of _ db]) simp
  qed
next
  case (3 n sec name doc)
  then obtain da k v db where "doc = da @ Setting k v # db" "as = doc_entries (n + 1) name da"
    "e = setting_entry (n + 1 + length da) (section_after name da) k v"
    "bs = doc_entries (n + 1 + length da + 1) (section_after name da) db" by auto
  then show ?case by (intro exI[of _ "Header name # da"] exI[of _ k] exI[of _ v] exI[of _ db]) simp
next
  case (4 n sec ws doc)
  then obtain da k v db where "doc = da @ Setting k v # db" "as = doc_entries (n + 1) sec da"
    "e = setting_entry (n + 1 + length da) (section_after sec da) k v"
    "bs = doc_entries (n + 1 + length da + 1) (section_after sec da) db" by auto
  then show ?case by (intro exI[of _ "Blank ws # da"] exI[of _ k] exI[of _ v] exI[of _ db]) simp
next
  case (5 n sec c doc)
  then obtain da k v db where "doc = da @ Setting k v # db" "as = doc_entries (n + 1) sec da"
    "e = setting_entry (n + 1 + length da) (section_after sec da) k v"
    "bs = doc_entries (n + 1 + length da + 1) (section_after sec da) db" by auto
  then show ?case by (intro exI[of _ "Comment c # da"] exI[of _ k] exI[of _ v] exI[of _ db]) simp
qed simp

section \<open>The target\<close>

lemma last_entry_found:
  "last_entry sec key i found es = (case last_entry sec key i None es of None \<Rightarrow> found | Some t \<Rightarrow> Some t)"
proof (induction es arbitrary: i found)
  case (Cons e es)
  show ?case
    using Cons[of "i + 1" found] Cons[of "i + 1" "Some (i, e)"]
    by (auto split: option.split)
qed simp

lemma last_entry_None: "last_entry sec key i None es = None \<longleftrightarrow> bindings es (sec, key) = None"
proof (induction es arbitrary: i)
  case (Cons e es)
  show ?case
    using Cons[of "i + 1"] last_entry_found[of sec key "i + 1" "Some (i, e)" es]
    by (auto simp: bindings_None split: option.splits)
qed simp

lemma last_entry_Some:
  "last_entry sec key i None es = Some (j, e) \<Longrightarrow>
   \<exists>as bs. es = as @ e # bs \<and> j = i + length as \<and> en_section e = sec \<and> en_key e = key \<and> bindings bs (sec, key) = None"
proof (induction es arbitrary: i)
  case (Cons x es)
  show ?case
  proof (cases "last_entry sec key (i + 1) None es")
    case None
    then have "x = e \<and> j = i \<and> en_section x = sec \<and> en_key x = key"
      using Cons.prems last_entry_found[of sec key "i + 1" "Some (i, x)" es] by (auto split: if_splits)
    then show ?thesis using None last_entry_None by (intro exI[of _ "[]"] exI[of _ es]) auto
  next
    case (Some t)
    then have "last_entry sec key (i + 1) None es = Some (j, e)"
      using Cons.prems last_entry_found[of sec key "i + 1" "Some (i, x)" es] by (auto split: if_splits)
    from Cons.IH[OF this] obtain as bs where "es = as @ e # bs \<and> j = i + 1 + length as \<and> en_section e = sec \<and>
      en_key e = key \<and> bindings bs (sec, key) = None" by blast
    then show ?thesis by (intro exI[of _ "x # as"] exI[of _ bs]) simp
  qed
qed simp

lemma sharing_entry_None:
  assumes "\<And>k. k < length es \<Longrightarrow> i + k \<noteq> place \<Longrightarrow>
    en_key_line (es ! k) > en_value_end_line t \<or> en_value_end_line (es ! k) < en_key_line t"
  shows "sharing_entry place t i es = None"
  using assms
proof (induction es arbitrary: i)
  case (Cons e es)
  have "i = place \<or> en_key_line e > en_value_end_line t \<or> en_value_end_line e < en_key_line t"
    using Cons.prems[of 0] by auto
  moreover have "sharing_entry place t (i + 1) es = None"
    by (rule Cons.IH) (use Cons.prems[of "Suc _"] in auto)
  ultimately show ?case by simp
qed simp


section \<open>The lines of a plain text\<close>

lemma file_lines_config: "list_all plain_line doc \<Longrightarrow> file_lines (config_text crlf doc) = map render_line doc"
  by (auto simp: file_lines_def Let_def config_text_lines list_all_iff without_cr_raw)

lemma joined_lines_config: "joined_lines crlf (map render_line doc) = config_text crlf doc"
  by (simp add: joined_lines_def config_text_def comp_def)

lemma has_crlf_split:
  "has_infix [CHR 0x0D, CHR 0x0A] s \<Longrightarrow> \<exists>l \<in> set (butlast (split_at CHR 0x0A s)). l \<noteq> [] \<and> last l = CHR 0x0D"
proof -
  assume "has_infix [CHR 0x0D, CHR 0x0A] s"
  then obtain a b where s: "s = a @ [CHR 0x0D, CHR 0x0A] @ b" by (auto simp: has_infix_iff)
  have "s = (a @ [CHR 0x0D]) @ CHR 0x0A # b" using s by simp
  then have split: "split_at CHR 0x0A s = split_at CHR 0x0A (a @ [CHR 0x0D]) @ split_at CHR 0x0A b"
    by (simp only: split_at_append)
  have "split_at CHR 0x0A (a @ [CHR 0x0D]) = butlast (split_at CHR 0x0A a) @ [last (split_at CHR 0x0A a) @ [CHR 0x0D]]"
    by (induction a) (auto split: list.splits if_splits)
  then show ?thesis using split by (simp add: butlast_append)
qed

lemma config_text_crlf:
  assumes "list_all plain_line doc"
  shows "has_infix [CHR 0x0D, CHR 0x0A] (config_text crlf doc) = (crlf \<and> doc \<noteq> [])"
proof (cases crlf)
  case True
  show ?thesis
  proof (cases doc)
    case (Cons l rest)
    then have "config_text crlf doc = render_line l @ [CHR 0x0D, CHR 0x0A] @ config_text crlf rest"
      using True by (simp add: config_text_def line_end_def)
    then show ?thesis using True Cons by (metis has_infix_iff list.discI)
  qed (use True in \<open>simp add: config_text_def\<close>)
next
  case False
  have "\<not> has_infix [CHR 0x0D, CHR 0x0A] (config_text False doc)"
  proof
    assume "has_infix [CHR 0x0D, CHR 0x0A] (config_text False doc)"
    from has_crlf_split[OF this] obtain l where "l \<in> set doc" "render_line l \<noteq> []" "last (render_line l) = CHR 0x0D"
      using config_text_lines[OF assms, of False] by (auto simp: raw_line_def)
    moreover have "without_cr (render_line l) = render_line l"
      using \<open>l \<in> set doc\<close> assms without_cr_render by (auto simp: list_all_iff)
    ultimately show False by (metis without_cr_def butlast.simps(1) length_butlast diff_less length_greater_0_conv less_irrefl zero_less_one)
  qed
  then show ?thesis using False by simp
qed

lemma empty_text: "config_text crlf [] = []"
  by (simp add: config_text_def)

section \<open>Where a new setting goes\<close>

definition is_header_line :: "doc_line \<Rightarrow> bool" where
  "is_header_line l = (case l of Header name \<Rightarrow> True | _ \<Rightarrow> False)"

lemma section_place_stopped: "stop \<noteq> count \<Longrightarrow> section_place sec count True stop hs = (True, stop)"
  by (induction hs) simp_all

lemma doc_headers_first:
  "\<exists>body rest. doc = body @ rest \<and> list_all (\<lambda>l. \<not> is_header_line l) body \<and>
     (case doc_headers n doc of
        [] \<Rightarrow> rest = []
      | h # hs \<Rightarrow> hd_line h = n + length body \<and> rest \<noteq> [])"
proof (induction doc arbitrary: n)
  case (Cons l doc)
  from Cons[of "n + 1"] obtain body rest where split: "doc = body @ rest" "list_all (\<lambda>l. \<not> is_header_line l) body"
    "case doc_headers (n + 1) doc of [] \<Rightarrow> rest = [] | h # hs \<Rightarrow> hd_line h = n + 1 + length body \<and> rest \<noteq> []" by blast
  show ?case
  proof (cases "is_header_line l")
    case True
    then show ?thesis by (intro exI[of _ "[]"] exI[of _ "l # doc"]) (auto simp: is_header_line_def split: doc_line.splits)
  next
    case False
    then show ?thesis using split
      by (intro exI[of _ "l # body"] exI[of _ rest])
         (cases l; cases "doc_headers (n + 1) doc"; simp add: is_header_line_def)
  qed
qed simp

lemma section_place_doc:
  assumes "n + length doc = count + 1" "0 < n"
  shows "section_place sec count False count (doc_headers n doc) = (False, count) \<and> Header sec \<notin> set doc \<or>
    (\<exists>pre body rest. doc = pre @ Header sec # body @ rest \<and> list_all (\<lambda>l. \<not> is_header_line l) body \<and>
       section_place sec count False count (doc_headers n doc) = (True, n + length pre + length body))"
  using assms
proof (induction doc arbitrary: n)
  case (Cons l doc)
  show ?case
  proof (cases "l = Header sec")
    case True
    obtain body rest where split: "doc = body @ rest" "list_all (\<lambda>l. \<not> is_header_line l) body"
      "case doc_headers (n + 1) doc of [] \<Rightarrow> rest = [] | h # hs \<Rightarrow> hd_line h = n + 1 + length body \<and> rest \<noteq> []"
      using doc_headers_first by blast
    have "section_place sec count False count (doc_headers n (l # doc)) = (True, n + length body)"
    proof (cases "doc_headers (n + 1) doc")
      case Nil
      then show ?thesis using True split Cons.prems by simp
    next
      case (Cons h hs)
      then have "hd_line h - 1 = n + length body" "rest \<noteq> []" using split(3) by simp_all
      moreover have "n + length body \<noteq> count" using \<open>rest \<noteq> []\<close> split(1) Cons.prems(1) by (cases rest) auto
      ultimately show ?thesis using True Cons by (simp add: section_place_stopped)
    qed
    then show ?thesis using True split by (intro disjI2 exI[of _ "[]"] exI[of _ body] exI[of _ rest]) simp
  next
    case False
    have step: "section_place sec count False count (doc_headers n (l # doc)) =
        section_place sec count False count (doc_headers (n + 1) doc)"
      using False by (cases l) simp_all
    have "n + 1 + length doc = count + 1" "0 < n + 1" using Cons.prems by simp_all
    from Cons.IH[OF this] show ?thesis
    proof
      assume "section_place sec count False count (doc_headers (n + 1) doc) = (False, count) \<and> Header sec \<notin> set doc"
      then show ?thesis using step False by simp
    next
      assume "\<exists>pre body rest. doc = pre @ Header sec # body @ rest \<and> list_all (\<lambda>l. \<not> is_header_line l) body \<and>
        section_place sec count False count (doc_headers (n + 1) doc) = (True, n + 1 + length pre + length body)"
      then obtain pre body rest where "doc = pre @ Header sec # body @ rest" "list_all (\<lambda>l. \<not> is_header_line l) body"
        "section_place sec count False count (doc_headers (n + 1) doc) = (True, n + 1 + length pre + length body)" by blast
      then show ?thesis using step
        by (intro disjI2 exI[of _ "l # pre"] exI[of _ body] exI[of _ rest]) simp
    qed
  qed
qed simp

lemma insert_place_bounds:
  assumes "without_blanks (ls ! k) \<noteq> []" "k < n"
  shows "k < insert_place ls n \<and> insert_place ls n \<le> n"
  using assms by (induction n) (auto simp: less_Suc_eq)


lemma without_blanks_Nil: "without_blanks s = [] \<longleftrightarrow> list_all is_blank_byte s"
proof
  assume "without_blanks s = []"
  then have blank: "\<forall>c \<in> set (dropWhile is_blank_byte s). is_blank_byte c" by (simp add: without_blanks_def)
  have "dropWhile is_blank_byte s = []"
    using blank hd_dropWhile[of is_blank_byte s] hd_in_set[of "dropWhile is_blank_byte s"] by blast
  then show "list_all is_blank_byte s" by (auto simp: dropWhile_eq_Nil_conv list_all_iff)
next
  assume "list_all is_blank_byte s"
  then show "without_blanks s = []" by (auto simp: without_blanks_def list_all_iff dest: set_dropWhileD)
qed

lemma blank_render:
  assumes "plain_line l" "without_blanks (render_line l) = []"
  shows "\<exists>ws. l = Blank ws"
proof (cases l)
  case (Comment c)
  then have "skip_space c \<noteq> []" "hd (skip_space c) = CHR '';''" using assms(1) by (simp_all add: starts_char_def)
  then have "CHR '';'' \<in> set (dropWhile is_space c)" unfolding skip_space_def by (metis hd_in_set)
  then have "CHR '';'' \<in> set c" by (rule set_dropWhileD)
  then show ?thesis using assms(2) Comment by (auto simp: without_blanks_Nil list_all_iff is_blank_byte_def)
qed (use assms(2) in \<open>auto simp: without_blanks_Nil is_blank_byte_def\<close>)

lemma section_after_body: "list_all (\<lambda>l. \<not> is_header_line l) body \<Longrightarrow> section_after sec body = sec"
  by (induction sec body rule: section_after.induct) (auto simp: is_header_line_def)

lemma blank_lines_register_nothing: "list_all (\<lambda>l. \<exists>ws. l = Blank ws) doc \<Longrightarrow> doc_entries n sec doc = [] \<and> section_after sec doc = sec"
  by (induction doc arbitrary: n) auto

lemma without_blank_tail_doc:
  assumes "list_all plain_line doc"
  shows "\<exists>front blanks. doc = front @ blanks \<and> list_all (\<lambda>l. \<exists>ws. l = Blank ws) blanks \<and>
    without_blank_tail (map render_line doc) = map render_line front"
  using assms
proof (induction doc rule: rev_induct)
  case (snoc l doc)
  show ?case
  proof (cases "without_blanks (render_line l) = []")
    case True
    obtain front blanks where "doc = front @ blanks" "list_all (\<lambda>l. \<exists>ws. l = Blank ws) blanks"
      "without_blank_tail (map render_line doc) = map render_line front" using snoc by auto
    moreover have "\<exists>ws. l = Blank ws" using blank_render True snoc.prems by auto
    ultimately show ?thesis using True
      by (intro exI[of _ front] exI[of _ "blanks @ [l]"]) (simp add: without_blank_tail_def)
  next
    case False
    then show ?thesis by (intro exI[of _ "doc @ [l]"] exI[of _ "[]"]) (simp add: without_blank_tail_def)
  qed
qed (simp add: without_blank_tail_def)

section \<open>The rewrite on a plain document\<close>

text \<open>What one setting's rewrite makes of the lines of a document, and of what they register.\<close>

definition rewritten :: "string \<Rightarrow> string \<Rightarrow> string \<Rightarrow> doc_line list \<Rightarrow> doc_line list \<Rightarrow> bool" where
  "rewritten sec key literal doc doc' =
     (list_all plain_line doc' \<and>
      (\<forall>k v. Setting k v \<in> set doc' \<longrightarrow> v = literal \<or> Setting k v \<in> set doc) \<and>
      bindings (doc_entries 1 [] doc') = (bindings (doc_entries 1 [] doc))((sec, key) \<mapsto> literal))"

lemma register_between:
  assumes "section_after [] xs = sec" "bindings (doc_entries n sec ys) (sec, key) = None"
  shows "bindings (doc_entries m [] (xs @ Setting key literal # ys)) =
    (bindings (doc_entries 1 [] (xs @ ys)))((sec, key) \<mapsto> literal)"
proof -
  have ys: "bindings (doc_entries k sec ys) = bindings (doc_entries 1 sec ys)" for k by (rule bindings_shift)
  have xs: "bindings (doc_entries m [] xs) = bindings (doc_entries 1 [] xs)" by (rule bindings_shift)
  have none: "bindings (doc_entries 1 sec ys) (sec, key) = None" using assms(2) ys[of n] by simp
  have "bindings (doc_entries m [] (xs @ Setting key literal # ys)) =
      bindings (doc_entries 1 [] xs) ++ ([(sec, key) \<mapsto> literal] ++ bindings (doc_entries 1 sec ys))"
    using assms(1) ys[of "m + length xs + 1"] xs bindings_Cons[of "setting_entry (m + length xs) sec key literal"]
    by (simp add: doc_entries_append setting_entry_def)
  moreover have "bindings (doc_entries 1 [] (xs @ ys)) = bindings (doc_entries 1 [] xs) ++ bindings (doc_entries 1 sec ys)"
    using assms(1) ys[of "1 + length xs"] by (simp add: doc_entries_append)
  moreover have "(sec, key) \<notin> dom (bindings (doc_entries 1 sec ys))" using none by auto
  ultimately show ?thesis by (simp add: map_add_upd_left)
qed

lemma edit_existing:
  assumes plain: "list_all plain_line doc" "plain_line (Setting key literal)"
    and target: "last_entry sec key 0 None (doc_entries 1 [] doc) = Some (i, t)"
  shows "\<exists>doc'. edited_lines sec key (Some literal) sc (Some t) (map render_line doc) = (map render_line doc', False) \<and>
    rewritten sec key literal doc doc'"
proof -
  obtain as bs where "doc_entries 1 [] doc = as @ t # bs" "en_section t = sec" "en_key t = key"
    "bindings bs (sec, key) = None" using last_entry_Some[OF target] by blast
  then obtain da v db where doc: "doc = da @ Setting key v # db" "section_after [] da = sec" "en_line t = 1 + length da"
    "en_value_end_line t = 1 + length da" "bindings (doc_entries (1 + length da + 1) sec db) (sec, key) = None"
    using doc_entries_split[of 1 "[]" doc as t bs] by (fastforce simp: setting_entry_def)
  define doc' where "doc' = da @ Setting key literal # db"
  have "edited_lines sec key (Some literal) sc (Some t) (map render_line doc) = (map render_line doc', False)"
    using doc by (simp add: edited_lines_def Let_def doc'_def case_prod_beta)
  moreover have "bindings (doc_entries 1 [] doc') = (bindings (doc_entries 1 [] (da @ db)))((sec, key) \<mapsto> literal)"
    unfolding doc'_def by (rule register_between[OF doc(2,5)])
  moreover have "bindings (doc_entries 1 [] doc) = (bindings (doc_entries 1 [] (da @ db)))((sec, key) \<mapsto> v)"
    unfolding doc(1) by (rule register_between[OF doc(2,5)])
  ultimately show ?thesis using plain doc(1) by (intro exI[of _ doc']) (auto simp: rewritten_def doc'_def)
qed

lemma edit_new_in_section:
  assumes plain: "list_all plain_line doc" "plain_line (Setting key literal)"
    and new: "bindings (doc_entries 1 [] doc) (sec, key) = None"
    and place: "section_place sec (length doc) False (length doc) (sc_headers sc) = (True, stop)"
    and split: "doc = pre @ Header sec # body @ rest" "list_all (\<lambda>l. \<not> is_header_line l) body"
      "stop = 1 + length pre + length body"
  shows "\<exists>doc'. edited_lines sec key (Some literal) sc None (map render_line doc) = (map render_line doc', False) \<and>
    rewritten sec key literal doc doc'"
proof -
  define m where "m = insert_place (map render_line doc) stop"
  have "without_blanks (map render_line doc ! length pre) \<noteq> []"
    using split(1) by (simp add: nth_append without_blanks_Nil is_blank_byte_def)
  from insert_place_bounds[OF this, of stop] have m: "length pre < m" "m \<le> stop"
    using split(3) by (simp_all add: m_def)
  define body1 where "body1 = take (m - (1 + length pre)) body"
  define body2 where "body2 = drop (m - (1 + length pre)) body"
  have body: "body = body1 @ body2" "length body1 = m - (1 + length pre)"
    using m split(3) by (simp_all add: body1_def body2_def)
  define xs where "xs = pre @ Header sec # body1"
  define ys where "ys = body2 @ rest"
  have doc: "doc = xs @ ys" "length xs = m" using split(1) body m by (simp_all add: xs_def ys_def)
  have after: "section_after [] xs = sec"
    using split(2) body(1) by (simp add: xs_def section_after_append section_after_body)
  have "bindings (doc_entries (1 + length xs) sec ys) (sec, key) = None"
    using new after unfolding doc(1) doc_entries_append by (simp add: map_add_None)
  from register_between[OF after this]
  have "bindings (doc_entries 1 [] (xs @ Setting key literal # ys)) = (bindings (doc_entries 1 [] doc))((sec, key) \<mapsto> literal)"
    using doc(1) by simp
  moreover have "edited_lines sec key (Some literal) sc None (map render_line doc) =
      (map render_line (xs @ Setting key literal # ys), False)"
    using place doc m_def[symmetric] by (simp add: edited_lines_def Let_def insert_line_def)
  ultimately show ?thesis using plain doc(1)
    by (intro exI[of _ "xs @ Setting key literal # ys"]) (auto simp: rewritten_def)
qed

lemma edit_new_section:
  assumes plain: "list_all plain_line doc" "plain_line (Setting key literal)" "plain_line (Header sec)"
    and place: "section_place sec (length doc) False (length doc) (sc_headers sc) = (False, stop)"
  shows "\<exists>doc'. edited_lines sec key (Some literal) sc None (map render_line doc) = (map render_line doc', True) \<and>
    rewritten sec key literal doc doc'"
proof -
  obtain front blanks where doc: "doc = front @ blanks" "list_all (\<lambda>l. \<exists>ws. l = Blank ws) blanks"
    "without_blank_tail (map render_line doc) = map render_line front"
    using without_blank_tail_doc[OF plain(1)] by blast
  define doc' where "doc' = front @ [Blank [], Header sec, Blank [], Setting key literal]"
  have "edited_lines sec key (Some literal) sc None (map render_line doc) = (map render_line doc', True)"
    using place doc(3) by (simp add: edited_lines_def doc'_def)
  moreover have "bindings (doc_entries 1 [] doc') = (bindings (doc_entries 1 [] doc))((sec, key) \<mapsto> literal)"
    using blank_lines_register_nothing[OF doc(2)]
    by (simp add: doc'_def doc(1) doc_entries_append setting_entry_def)
  moreover have "list_all plain_line doc'" using plain doc(1) by (simp add: doc'_def without_cr_def)
  moreover have "\<forall>k v. Setting k v \<in> set doc' \<longrightarrow> v = literal \<or> Setting k v \<in> set doc" by (auto simp: doc'_def doc(1))
  ultimately show ?thesis by (intro exI[of _ doc']) (simp add: rewritten_def)
qed

text \<open>A complete file loads exactly when none of its values is refused.\<close>

lemma doc_entries_values: "en_value_text ` set (doc_entries n sec doc) = {v. \<exists>k. Setting k v \<in> set doc}"
  by (induction n sec doc rule: doc_entries.induct) (auto simp: setting_entry_def)

lemma first_value_failure_None: "first_value_failure es = None \<longleftrightarrow> (\<forall>v \<in> en_value_text ` set es. value_problem v = Some None)"
proof (induction es)
  case (Cons e es)
  obtain p where "value_problem (en_value_text e) = Some p" using value_problem_total by fastforce
  then show ?case using Cons by (cases p) auto
qed simp

lemma plain_loads:
  assumes "list_all plain_line doc"
  shows "load_failure_of (scan_config (config_text crlf doc)) = None \<longleftrightarrow>
    (\<forall>k v. Setting k v \<in> set doc \<longrightarrow> value_problem v = Some None)"
  by (auto simp: scan_config_text[OF assms] load_failure_of_def first_value_failure_None doc_entries_values)

lemma rewritten_loads:
  assumes "list_all plain_line doc" "load_failure_of (scan_config (config_text crlf doc)) = None"
    and "rewritten sec key literal doc doc'" "value_problem literal = Some None"
  shows "load_failure_of (scan_config (config_text crlf' doc')) = None"
proof -
  have "value_problem v = Some None" if "Setting k v \<in> set doc'" for k v
    using that assms plain_loads[OF assms(1), of crlf] unfolding rewritten_def by blast
  then show ?thesis using assms(3) by (simp add: plain_loads rewritten_def)
qed

lemma plain_target_refusal:
  assumes "last_entry sec key 0 None (doc_entries 1 [] doc) = Some (i, t)"
  shows "target_refusal setting (doc_entries 1 [] doc) (i, t) = None"
proof -
  obtain as bs where es: "doc_entries 1 [] doc = as @ t # bs" "i = length as"
    using last_entry_Some[OF assms] by auto
  then obtain da k v db where doc: "as = doc_entries 1 [] da" "t = setting_entry (1 + length da) (section_after [] da) k v"
    "bs = doc_entries (1 + length da + 1) (section_after [] da) db"
    using doc_entries_split[of 1 "[]" doc as t bs] by blast
  have "sharing_entry i t 0 (doc_entries 1 [] doc) = None"
  proof (rule sharing_entry_None)
    fix j assume j: "j < length (doc_entries 1 [] doc)" "0 + j \<noteq> i"
    have "doc_entries 1 [] doc ! j \<in> set as \<or> doc_entries 1 [] doc ! j \<in> set bs"
    proof (cases "j < i")
      case False
      then have "doc_entries 1 [] doc ! j = bs ! (j - Suc i)" "j - Suc i < length bs"
        using j es by (simp_all add: nth_append nth_Cons')
      then show ?thesis by simp
    qed (use es in \<open>simp add: nth_append\<close>)
    then show "en_key_line (doc_entries 1 [] doc ! j) > en_value_end_line t \<or>
        en_value_end_line (doc_entries 1 [] doc ! j) < en_key_line t"
      using doc doc_entries_place[of "doc_entries 1 [] doc ! j" 1 "[]" da]
        doc_entries_place[of "doc_entries 1 [] doc ! j" "1 + length da + 1" "section_after [] da" db]
      by (fastforce simp: setting_entry_def)
  qed
  then show ?thesis using doc(2) by (simp add: target_refusal_def setting_entry_def)
qed


section \<open>The write\<close>

lemma setting_parts:
  assumes "CHR ''/'' \<notin> set sec"
  shows "takeWhile (\<lambda>c. c \<noteq> CHR ''/'') (sec @ ''/'' @ key) = sec"
    "tl (dropWhile (\<lambda>c. c \<noteq> CHR ''/'') (sec @ ''/'' @ key)) = key"
  using assms by (auto simp: takeWhile_append dropWhile_append)

lemma write_plain:
  assumes doc: "list_all plain_line doc" and loads: "load_failure_of (scan_config (config_text crlf doc)) = None"
    and name: "setting_name_ok (sec @ ''/'' @ key)" "\<not> typed_namespace_setting (sec @ ''/'' @ key) typed" "CHR ''/'' \<notin> set sec"
    and line: "plain_line (Header sec)" "plain_line (Setting key literal)"
  shows "\<exists>w doc'. write_setting_line (config_text crlf doc) (sec @ ''/'' @ key) (Some literal) typed =
      Inr (w, config_text (crlf \<and> doc \<noteq> []) doc') \<and> rewritten sec key literal doc doc' \<and>
    sw_existed w = (bindings (doc_entries 1 [] doc) (sec, key) \<noteq> None)"
proof -
  define es where "es = doc_entries 1 [] doc"
  define target where "target = last_entry sec key 0 None es"
  have scan: "scan_config (config_text crlf doc) =
      \<lparr>sc_entries = es, sc_headers = doc_headers 1 doc, sc_complete = True, sc_trailing_key = False\<rparr>"
    by (simp add: scan_config_text[OF doc] es_def)
  have no_refusal: "Option.bind target (target_refusal (sec @ ''/'' @ key) es) = None"
    using plain_target_refusal[of sec key doc] by (cases target) (auto simp: target_def es_def)
  have "\<exists>doc' created. edited_lines sec key (Some literal) (scan_config (config_text crlf doc)) (map_option snd target)
      (map render_line doc) = (map render_line doc', created) \<and> rewritten sec key literal doc doc'"
  proof (cases target)
    case None
    then have new: "bindings (doc_entries 1 [] doc) (sec, key) = None"
      using last_entry_None[of sec key 0 es] by (simp add: target_def es_def)
    consider (unseen) stop where "section_place sec (length doc) False (length doc) (doc_headers 1 doc) = (False, stop)"
      | (seen) pre body rest where "doc = pre @ Header sec # body @ rest" "list_all (\<lambda>l. \<not> is_header_line l) body"
        "section_place sec (length doc) False (length doc) (doc_headers 1 doc) = (True, 1 + length pre + length body)"
      using section_place_doc[of 1 doc "length doc" sec] by auto
    then show ?thesis
    proof cases
      case unseen
      with edit_new_section[OF doc line(2) line(1), of "scan_config (config_text crlf doc)" stop] None
      show ?thesis by (auto simp: scan)
    next
      case seen
      have "section_place sec (length doc) False (length doc) (sc_headers (scan_config (config_text crlf doc))) =
          (True, 1 + length pre + length body)"
        using seen(3) scan by simp
      from edit_new_in_section[OF doc line(2) new this seen(1,2) refl] None show ?thesis by auto
    qed
  next
    case (Some t)
    then have "last_entry sec key 0 None (doc_entries 1 [] doc) = Some (fst t, snd t)" by (simp add: target_def es_def)
    from edit_existing[OF doc line(2) this, of "scan_config (config_text crlf doc)"] Some show ?thesis by auto
  qed
  then obtain doc' created where edit: "edited_lines sec key (Some literal) (scan_config (config_text crlf doc))
      (map_option snd target) (map render_line doc) = (map render_line doc', created)" "rewritten sec key literal doc doc'"
    by blast
  have "(target \<noteq> None) = (bindings (doc_entries 1 [] doc) (sec, key) \<noteq> None)"
    using last_entry_None[of sec key 0 es] by (simp add: target_def es_def)
  moreover have "refuse_unloadable (scan_config (config_text crlf doc)) ''writing to it'' = None"
    using loads by (simp add: refuse_unloadable_def)
  ultimately show ?thesis
    using edit no_refusal name setting_parts[OF name(3), of key]
    by (intro exI[of _ "\<lparr>sw_setting = sec @ ''/'' @ key, sw_section = sec, sw_key = key, sw_literal = literal,
          sw_previous_literal = (case target of None \<Rightarrow> [] | Some t \<Rightarrow> en_value_text (snd t)),
          sw_existed = (target \<noteq> None), sw_removed = False, sw_section_created = created\<rparr>"] exI[of _ doc'])
       (simp add: write_setting_line_def Let_def file_lines_config[OF doc] config_text_crlf[OF doc]
          joined_lines_config scan target_def[symmetric])
qed

lemma write_plain_registers:
  assumes "list_all plain_line doc" "load_failure_of (scan_config (config_text crlf doc)) = None"
    and "setting_name_ok (sec @ ''/'' @ key)" "\<not> typed_namespace_setting (sec @ ''/'' @ key) typed" "CHR ''/'' \<notin> set sec"
    and "plain_line (Header sec)" "plain_line (Setting key literal)" "value_problem literal = Some None"
  shows "\<exists>w text. write_setting_line (config_text crlf doc) (sec @ ''/'' @ key) (Some literal) typed = Inr (w, text) \<and>
    load_failure_of (scan_config text) = None \<and>
    registered (scan_config text) = (registered (scan_config (config_text crlf doc)))((sec, key) \<mapsto> literal) \<and>
    sw_existed w = (registered (scan_config (config_text crlf doc)) (sec, key) \<noteq> None)"
proof -
  obtain w doc' where w: "write_setting_line (config_text crlf doc) (sec @ ''/'' @ key) (Some literal) typed =
      Inr (w, config_text (crlf \<and> doc \<noteq> []) doc')" "rewritten sec key literal doc doc'"
    "sw_existed w = (bindings (doc_entries 1 [] doc) (sec, key) \<noteq> None)"
    using write_plain[OF assms(1-7)] by blast
  then show ?thesis
    using rewritten_loads[OF assms(1,2) _ assms(8), of sec key doc' "crlf \<and> doc \<noteq> []"]
      scan_config_text[OF assms(1), of crlf] scan_config_text[of doc' "crlf \<and> doc \<noteq> []"]
    by (simp add: registered_bindings rewritten_def)
qed




section \<open>Files where the write is not the update\<close>

text \<open>What a written file registers, and whether the engine loads it.\<close>

definition after_write :: "(refusal, setting_write \<times> string) result \<Rightarrow> (bool \<times> ((string \<times> string) \<times> string) list) option" where
  "after_write r =
     (case r of
        Inl e \<Rightarrow> None
      | Inr (w, text) \<Rightarrow>
          Some (load_failure_of (scan_config text) = None, map entry_binding (sc_entries (scan_config text))))"

definition text_of_lines :: "string list \<Rightarrow> string" where
  "text_of_lines ls = concat (map (\<lambda>l. l @ [CHR 0x0A]) ls)"

text \<open>
  A section is found by its headers and a header may share a line with the end of a value. A
  new setting of the section before it is inserted above that line, which is inside the value when
  the value spans lines: the write is accepted and the engine no longer loads the file.
\<close>

theorem insertion_can_break_a_value:
  "after_write (write_project_setting_literal (text_of_lines [''[s]'', ''a=[{'', ''}] [t]'', ''b=2'']) ''s/c'' ''5'') =
     Some (False, [((''s'', ''a''), ''[{'' @ [CHR 0x0A] @ ''c=5'' @ [CHR 0x0A] @ ''}]''), ((''t'', ''b''), ''2'')])"
  by code_simp

text \<open>
  Only other entries are looked for on the lines that are replaced. A header behind the value
  is deleted with its line, and the settings under it are registered in the section before.
\<close>

theorem rewrite_can_lose_a_header:
  "after_write (write_project_setting_literal (text_of_lines [''[s]'', ''a=1 [t]'', ''b=2'']) ''s/a'' ''5'') =
     Some (True, [((''s'', ''a''), ''5''), ((''s'', ''b''), ''2'')])"
  by code_simp

text \<open>
  A key left open at the end of the file is not looked at. A note on the last line joins forward
  into the setting written below it, which is then registered under another name.
\<close>

theorem trailing_note_takes_the_setting:
  "after_write (write_project_setting_literal (text_of_lines [''[a]'', ''x=1'', ''# note'']) ''a/y'' ''2'') =
     Some (True, [((''a'', ''x''), ''1''), ((''a'', ''#notey''), ''2'')])"
  by code_simp

text \<open>
  A name is written without the quotes the engine puts around one. An action whose name holds an
  equals sign replaces the action named by the part before it, one whose name begins with a
  semicolon is a comment, and blanks in the name of a setting are dropped.
\<close>

theorem names_are_written_unquoted:
  "after_write (write_input_action_literal (text_of_lines [''[input]'', ''jump={}'']) ''jump=1;'' ''{}'') =
     Some (True, [((''input'', ''jump''), ''{}''), ((''input'', ''jump''), ''1'')]) \<and>
   after_write (write_input_action_literal (text_of_lines [''[input]'', ''jump={}'']) '';jump'' ''{}'') =
     Some (True, [((''input'', ''jump''), ''{}'')]) \<and>
   after_write (write_project_setting_literal (text_of_lines [''[a]'']) ''a/b c'' ''2'') = Some (True, [((''a'', ''bc''), ''2'')])"
  by code_simp

text \<open>
  A removal deletes the last spelling of a setting. When an earlier one is in the file the
  setting is still registered, with the earlier value.
\<close>

theorem removal_can_leave_the_setting:
  "after_write (write_setting_line (text_of_lines [''[a]'', ''x=1'', ''x=2'']) ''a/x'' None False) =
     Some (True, [((''a'', ''x''), ''1'')])"
  by code_simp

end
