(* ===== verification/Setting_Literals.thy ===== *)
theory Setting_Literals
  imports Setting_Writes
begin

text \<open>
  The literals \<open>settingLiteral\<close> of \<open>src/offline/project_settings_file.cpp\<close> writes are values the
  scan of \<open>config_file_syntax.cpp\<close> reads whole and its value walk accepts, and a string comes back
  as the engine decodes it.
\<close>

section \<open>Escaped strings\<close>

lemma escape_Cons: "escape_setting_string (c # s) = escape_setting_char c @ escape_setting_string s"
  by (simp add: escape_setting_string_def)

lemma escape_Nil: "escape_setting_string [] = []"
  by (simp add: escape_setting_string_def)

lemma escape_char_cases:
  obtains (plain) "escape_setting_char c = [c]" "c \<notin> {CHR 0x5C, CHR 0x22, CHR 0x0A}"
  | (escape) e where "escape_setting_char c = [CHR 0x5C, e]" "e \<notin> {CHR ''u'', CHR ''U'', CHR 0x0A}"
      "\<And>es. escape_unit e es = (byte c, None, es)" "0 < byte c" "byte c < 128"
  by (cases "c \<in> {CHR 0x5C, CHR 0x22, CHR 0x0A, CHR 0x0D, CHR 0x09}") (auto simp: escape_unit_def)

lemma decode_escape_plain:
  assumes "escape_unit e es = (byte c, None, es)" "0 < byte c" "byte c < 128"
  shows "decode_escape 0 bytes p e es = (0, bytes @ [c], p, es)"
  using assms by (simp add: decode_escape_def Let_def keep_unit_def refuse_lead_def)

lemma decode_escaped:
  "decode_string_loop 0 bytes None (escape_setting_string s @ CHR 0x22 # rest) =
   \<lparr>ds_bytes = bytes @ s, ds_problem = None, ds_rest = rest, ds_closed = True, ds_lead = 0\<rparr>"
proof (induction s arbitrary: bytes)
  case (Cons c s)
  show ?case
  proof (cases c rule: escape_char_cases)
    case plain
    then show ?thesis using Cons by (simp add: escape_Cons refuse_lead_def)
  next
    case (escape e)
    then show ?thesis using Cons decode_escape_plain[OF escape(3,4,5)] by (simp add: escape_Cons)
  qed
qed (simp add: escape_Nil)

lemma decode_quoted:
  "decode_string (escape_setting_string s @ CHR 0x22 # rest) =
   \<lparr>ds_bytes = s, ds_problem = None, ds_rest = rest, ds_closed = True, ds_lead = 0\<rparr>"
  by (simp add: decode_string_def decode_escaped)

text \<open>
  A string written as a setting is one string to every reader of the file, which gets the
  bytes as the engine decodes them, with nothing to refuse.
\<close>

theorem setting_string_round_trip:
  "string_value (quoted_setting s) = Some (decode_utf8_the_way_godot_does s, None)"
proof -
  have "trimmed (quoted_setting s) = quoted_setting s"
    by (rule trimmed_id) (simp_all add: quoted_setting_def is_space_def)
  then show ?thesis
    by (simp add: string_value_def Let_def decoded_text_def decode_quoted quoted_setting_def)
qed

section \<open>The walk over a value, inside brackets\<close>

definition inside :: "value_state \<Rightarrow> value_state \<Rightarrow> bool" where
  "inside st st' =
     (vs_depth st' = vs_depth st \<and> vs_in_string st' = vs_in_string st \<and> vs_annotation st' = vs_annotation st \<and>
      vs_awaiting_call st' = vs_awaiting_call st)"

lemma inside_trans: "inside a b \<Longrightarrow> inside b c \<Longrightarrow> inside a c"
  by (simp add: inside_def)

definition walked :: "string \<Rightarrow> bool" where
  "walked t =
     (\<forall>word st i rest. 0 < vs_depth st \<and> \<not> vs_in_string st \<longrightarrow>
        (\<exists>st'. value_loop word st i (t @ rest) = value_loop word st' (i + length t) rest \<and> inside st st'))"

lemma walkedE:
  assumes "walked t" "0 < vs_depth st" "\<not> vs_in_string st"
  obtains st' where "value_loop word st i (t @ rest) = value_loop word st' (i + length t) rest" "inside st st'"
  using assms unfolding walked_def by metis

lemma walked_Nil: "walked []"
  by (auto simp: walked_def inside_def)

lemma walked_append:
  assumes "walked a" "walked b"
  shows "walked (a @ b)"
  unfolding walked_def
proof (intro allI impI)
  fix word :: "string option" and st :: value_state and i and rest
  assume st: "0 < vs_depth st \<and> \<not> vs_in_string st"
  obtain st1 where one: "value_loop word st i (a @ b @ rest) = value_loop word st1 (i + length a) (b @ rest)" "inside st st1"
    using walkedE[OF assms(1)] st by blast
  obtain st2 where two: "value_loop word st1 (i + length a) (b @ rest) = value_loop word st2 (i + length a + length b) rest"
    "inside st1 st2"
    by (rule walkedE[OF assms(2), of st1 word "i + length a" rest]) (use st one(2) in \<open>simp_all add: inside_def\<close>)
  show "\<exists>st'. value_loop word st i ((a @ b) @ rest) = value_loop word st' (i + length (a @ b)) rest \<and> inside st st'"
    using one two inside_trans[OF one(2) two(2)] by (intro exI[of _ st2]) (simp add: add.assoc)
qed

text \<open>A byte that is no bracket, quote or comment is passed over.\<close>

definition passing :: "char \<Rightarrow> bool" where
  "passing c = (c \<noteq> CHR '';'' \<and> c \<noteq> CHR 0x22 \<and> c \<notin> set ''[{(]})'')"

lemma walked_char: "passing c \<Longrightarrow> walked [c]"
  unfolding walked_def
proof (intro allI impI)
  fix word :: "string option" and st :: value_state and i and rest
  assume "passing c" and st: "0 < vs_depth st \<and> \<not> vs_in_string st"
  then have "value_char word st c rest = Go word st 0 \<or> value_char word st c rest = Go word (st\<lparr>vs_seen := True\<rparr>) 0"
    by (auto simp: value_char_def passing_def space_char_def plain_char_def)
  then show "\<exists>st'. value_loop word st i ([c] @ rest) = value_loop word st' (i + length [c]) rest \<and> inside st st'"
    by (auto simp: inside_def)
qed

lemma walked_chars: "list_all passing t \<Longrightarrow> walked t"
proof (induction t)
  case (Cons c t)
  then show ?case using walked_append[OF walked_char, of c t] by simp
qed (rule walked_Nil)

text \<open>The text of a string, to its closing quote.\<close>

lemma loop_escaped:
  assumes "vs_in_string st"
  shows "value_loop word st i (escape_setting_string s @ rest) = value_loop word st (i + length (escape_setting_string s)) rest"
proof (induction s arbitrary: i)
  case (Cons c s)
  show ?case
  proof (cases c rule: escape_char_cases)
    case plain
    then show ?thesis using Cons[of "Suc i"] assms by (simp add: escape_Cons value_char_def string_char_def)
  next
    case (escape e)
    then show ?thesis using Cons[of "Suc (Suc i)"] assms by (simp add: escape_Cons value_char_def string_char_def)
  qed
qed (simp add: escape_Nil)

lemma walked_quoted: "walked (quoted_setting s)"
  unfolding walked_def
proof (intro allI impI)
  fix word :: "string option" and st :: value_state and i and rest
  assume st: "0 < vs_depth st \<and> \<not> vs_in_string st"
  define st1 where "st1 = st\<lparr>vs_in_string := True, vs_seen := True, vs_identifier := False\<rparr>"
  have "value_loop word st i (quoted_setting s @ rest) =
      value_loop word st1 (i + 1) (escape_setting_string s @ CHR 0x22 # rest)"
    using st by (simp add: quoted_setting_def value_char_def st1_def)
  also have "\<dots> = value_loop word st1 (i + 1 + length (escape_setting_string s)) (CHR 0x22 # rest)"
    by (rule loop_escaped) (simp add: st1_def)
  also have "\<dots> = value_loop word (st1\<lparr>vs_in_string := False\<rparr>) (i + length (quoted_setting s)) rest"
    using st by (simp add: value_char_def string_char_def st1_def quoted_setting_def)
  finally show "\<exists>st'. value_loop word st i (quoted_setting s @ rest) = value_loop word st' (i + length (quoted_setting s)) rest \<and>
      inside st st'"
    using st by (intro exI[of _ "st1\<lparr>vs_in_string := False\<rparr>"]) (simp add: inside_def st1_def)
qed

lemma walked_brackets:
  assumes "walked t" "c \<in> set ''[{(''" "d \<in> set '']})''"
  shows "walked (c # t @ [d])"
  unfolding walked_def
proof (intro allI impI)
  fix word :: "string option" and st :: value_state and i and rest
  assume st: "0 < vs_depth st \<and> \<not> vs_in_string st"
  have first: "value_char word st c (t @ d # rest) = Go word (opens c st) 0"
    using st assms(2) by (auto simp: value_char_def)
  obtain st1 where one: "value_loop word (opens c st) (i + 1) (t @ d # rest) = value_loop word st1 (i + 1 + length t) (d # rest)"
    "inside (opens c st) st1"
    using walkedE[OF assms(1), of "opens c st" word "i + 1" "d # rest"] st by (auto simp: opens_def Let_def)
  have "vs_depth st1 = vs_depth st + 1" "\<not> vs_in_string st1" using one(2) st by (simp_all add: inside_def opens_def Let_def)
  then have close: "value_char word st1 d rest = Go word (closes st1) 0"
    using st assms(3) by (auto simp: value_char_def closes_def)
  show "\<exists>st'. value_loop word st i ((c # t @ [d]) @ rest) = value_loop word st' (i + length (c # t @ [d])) rest \<and> inside st st'"
    using first one close st
    by (intro exI[of _ "closes st1"]) (auto simp: inside_def opens_def closes_def Let_def)
qed

lemma walked_joined: "list_all walked ws \<Longrightarrow> walked (comma_joined ws)"
proof (induction ws rule: comma_joined.induct)
  case (3 w x ws)
  have "walked '', ''" by (rule walked_chars) (simp add: passing_def)
  then have "walked (w @ '', '' @ comma_joined (x # ws))" using 3 by (intro walked_append) simp_all
  then show ?case by simp
qed (auto intro: walked_Nil)


section \<open>The judgement of a value\<close>

definition stops :: "string \<Rightarrow> bool" where
  "stops rest = (rest = [] \<or> hd rest \<in> set '',:]}'')"

text \<open>A value at its place in a text: read whole with two calls for every byte.\<close>

definition reads :: "nat \<Rightarrow> string \<Rightarrow> bool" where
  "reads depth t =
     (\<forall>n rest. 2 * length t + 2 \<le> n \<and> stops rest \<longrightarrow> read_value n depth (t @ rest) = Some (None, rest))"

text \<open>What a value begins with.\<close>

definition begins :: "string \<Rightarrow> bool" where
  "begins t = (t \<noteq> [] \<and> \<not> is_space (hd t) \<and> hd t \<notin> set '')]},:('')"

lemma begins_skip: "begins t \<Longrightarrow> skip_space (t @ rest) = t @ rest"
  by (cases t) (auto simp: begins_def skip_space_def)

lemma readsD: "reads depth t \<Longrightarrow> 2 * length t + 2 \<le> n \<Longrightarrow> stops rest \<Longrightarrow> read_value n depth (t @ rest) = Some (None, rest)"
  by (simp add: reads_def)

lemma skip_space_blank: "skip_space (CHR '' '' # s) = skip_space s"
  by (simp add: skip_space_def is_space_def)

lemma read_value_blank: "read_value n depth (CHR '' '' # s) = read_value n depth s"
  by (cases n) (simp_all add: skip_space_blank)

lemma stops_space: "stops rest \<Longrightarrow> skip_space rest = rest"
  by (cases rest) (auto simp: stops_def skip_space_def is_space_def)

lemma reads_quoted: "depth \<le> 32 \<Longrightarrow> reads depth (quoted_setting s)"
  unfolding reads_def
proof (intro allI impI)
  fix n rest
  assume "depth \<le> 32" and n: "2 * length (quoted_setting s) + 2 \<le> n \<and> stops rest"
  then obtain m where "n = Suc m" by (cases n) auto
  then show "read_value n depth (quoted_setting s @ rest) = Some (None, rest)"
    using \<open>depth \<le> 32\<close> by (simp add: quoted_setting_def skip_space_def is_space_def skip_string_def decode_quoted)
qed

text \<open>The words that are values, and the numbers.\<close>

definition word_value :: "string \<Rightarrow> bool" where
  "word_value t = (is_value_keyword t \<and> t \<noteq> [] \<and> is_name_start (hd t) \<and> list_all is_name_char t)"

definition number_char :: "char \<Rightarrow> bool" where
  "number_char c = (is_digit c \<or> c \<in> set ''.eE+-'')"

definition number_text :: "string \<Rightarrow> bool" where
  "number_text t = (t \<noteq> [] \<and> (is_digit (hd t) \<or> hd t = CHR ''-'') \<and> list_all number_char t)"

lemma number_char_no_end: "number_char c \<Longrightarrow> \<not> is_space c \<and> c \<notin> set '',:)]}'' \<and> passing c \<and> c \<noteq> CHR 0x0A"
  by (auto simp: number_char_def is_digit_def is_space_def passing_def)

lemma stops_char: "stops (c # rest) \<Longrightarrow> \<not> is_name_char c"
  by (auto simp: stops_def is_name_char_def is_alnum_def is_alpha_def is_digit_def)

lemma dropWhile_stop: "list_all P t \<Longrightarrow> rest = [] \<or> \<not> P (hd rest) \<Longrightarrow> dropWhile P (t @ rest) = rest \<and> takeWhile P (t @ rest) = t"
  by (cases rest) (auto simp: list_all_iff dropWhile_append takeWhile_append)

lemma reads_word:
  assumes "word_value t" "depth \<le> 32"
  shows "reads depth t"
  unfolding reads_def
proof (intro allI impI)
  fix n rest
  assume n: "2 * length t + 2 \<le> n \<and> stops rest"
  then obtain m where m: "n = Suc m" by (cases n) auto
  obtain c cs where t: "t = c # cs" using assms(1) by (cases t) (auto simp: word_value_def)
  have c: "is_name_start c" "\<not> is_space c" "c \<notin> set '')]},:('' \<and> c \<noteq> CHR 0x22 \<and> c \<noteq> CHR ''&'' \<and> c \<noteq> CHR ''@''"
    using assms(1) t by (auto simp: word_value_def is_name_start_def is_alpha_def is_space_def)
  have split: "dropWhile is_name_char (t @ rest) = rest" "takeWhile is_name_char (t @ rest) = t"
    using dropWhile_stop[of is_name_char t rest] assms(1) n stops_char by (cases rest; auto simp: word_value_def)+
  have no_call: "\<not> starts_char rest CHR ''['' \<and> \<not> starts_char rest CHR ''(''"
    using n by (cases rest) (auto simp: starts_char_def stops_def)
  have "read_word (t @ rest) = (None, rest)"
    using split no_call assms(1) n by (simp add: read_word_def Let_def stops_space word_value_def)
  then show "read_value n depth (t @ rest) = Some (None, rest)"
    using m t c assms(2) by (simp add: skip_space_def)
qed

lemma reads_number:
  assumes "number_text t" "depth \<le> 32"
  shows "reads depth t"
  unfolding reads_def
proof (intro allI impI)
  fix n rest
  assume n: "2 * length t + 2 \<le> n \<and> stops rest"
  then obtain m where m: "n = Suc m" by (cases n) auto
  obtain c cs where t: "t = c # cs" using assms(1) by (cases t) (auto simp: number_text_def)
  have c: "\<not> is_name_start c" "\<not> is_space c" "c \<notin> set '')]},:(''" "c \<noteq> CHR 0x22" "c \<noteq> CHR ''&''" "c \<noteq> CHR ''@''"
    "c \<noteq> CHR ''[''" "c \<noteq> CHR ''{''"
    using assms(1) t by (auto simp: number_text_def is_name_start_def is_digit_def is_alpha_def is_space_def)
  have "read_number (t @ rest) = rest"
    unfolding read_number_def
    using dropWhile_stop[of "\<lambda>c. \<not> is_space c \<and> c \<notin> set '',:)]}''" t rest] assms(1) n number_char_no_end
    by (auto simp: number_text_def list_all_iff stops_def)
  then show "read_value n depth (t @ rest) = Some (None, rest)"
    using m t c assms(2) by (simp add: skip_space_def)
qed

lemma separators_no_space:
  "\<not> is_space CHR '']''" "\<not> is_space CHR ''}''" "\<not> is_space CHR '',''" "\<not> is_space CHR '':''" "is_space CHR '' ''"
  "\<not> is_space CHR 0x22" "\<not> is_space CHR ''[''" "\<not> is_space CHR ''{''"
  by (simp_all add: is_space_def)

lemma length_joined: "length (comma_joined (w # x # ws)) = length w + 2 + length (comma_joined (x # ws))"
  by simp

lemma read_array_joined:
  assumes "list_all (\<lambda>w. reads (depth + 1) w \<and> begins w) ws" "2 * length (comma_joined ws) + 3 \<le> n"
  shows "read_array n depth (comma_joined ws @ CHR '']'' # rest) = Some (None, rest) \<and>
    read_array n depth (CHR '' '' # comma_joined ws @ CHR '']'' # rest) = Some (None, rest)"
  using assms
proof (induction ws arbitrary: n rule: comma_joined.induct)
  case 1
  then obtain m where "n = Suc m" by (cases n) auto
  then show ?case by (simp add: skip_space_def separators_no_space)
next
  case (2 w)
  then obtain m where m: "n = Suc m" "2 * length w + 2 \<le> m" by (cases n) auto
  have "read_value m (depth + 1) (w @ CHR '']'' # rest) = Some (None, CHR '']'' # rest)"
    using 2 m by (intro readsD) (simp_all add: stops_def)
  moreover obtain c cs where "w = c # cs" "c \<noteq> CHR '']''" "\<not> is_space c" using 2 by (cases w) (auto simp: begins_def)
  ultimately show ?case using m by (simp add: skip_space_def separators_no_space)
next
  case (3 w x ws)
  then obtain m where m: "n = Suc m" "2 * length w + 2 \<le> m" "2 * length (comma_joined (x # ws)) + 3 \<le> m"
    by (cases n) (auto simp: length_joined)
  have one: "read_value m (depth + 1) (w @ CHR '','' # CHR '' '' # comma_joined (x # ws) @ CHR '']'' # rest) =
      Some (None, CHR '','' # CHR '' '' # comma_joined (x # ws) @ CHR '']'' # rest)"
    using 3 m by (intro readsD) (simp_all add: stops_def)
  have two: "read_array m depth (CHR '' '' # comma_joined (x # ws) @ CHR '']'' # rest) = Some (None, rest)"
    using 3 m by simp
  obtain c cs where w: "w = c # cs" "c \<noteq> CHR '']''" "\<not> is_space c" using 3 by (cases w) (auto simp: begins_def)
  show ?case using m(1) one two w by (simp add: skip_space_def separators_no_space)
qed


definition member_text :: "string \<times> string \<Rightarrow> string" where
  "member_text kw = quoted_setting (fst kw) @ '': '' @ snd kw"

lemma read_member:
  assumes "reads (depth + 1) w" "depth < 32" "2 * length (member_text (k, w)) + 2 \<le> n" "stops rest"
  shows "read_value n (depth + 1) (quoted_setting k @ CHR '':'' # CHR '' '' # w @ rest) = Some (None, CHR '':'' # CHR '' '' # w @ rest)"
    "read_value n (depth + 1) (CHR '' '' # w @ rest) = Some (None, rest)"
proof -
  have len: "2 * length (quoted_setting k) + 2 \<le> n" "2 * length w + 2 \<le> n" using assms(3) by (simp_all add: member_text_def)
  show "read_value n (depth + 1) (quoted_setting k @ CHR '':'' # CHR '' '' # w @ rest) = Some (None, CHR '':'' # CHR '' '' # w @ rest)"
    by (rule readsD[OF reads_quoted len(1)]) (use assms in \<open>simp_all add: stops_def\<close>)
  show "read_value n (depth + 1) (CHR '' '' # w @ rest) = Some (None, rest)"
    unfolding read_value_blank by (rule readsD[OF assms(1) len(2) assms(4)])
qed

lemma quoted_first: "quoted_setting k = CHR 0x22 # escape_setting_string k @ [CHR 0x22]"
  by (simp add: quoted_setting_def)

lemma read_dictionary_joined:
  assumes "list_all (\<lambda>kw. reads (depth + 1) (snd kw)) kws" "depth < 32" "2 * length (comma_joined (map member_text kws)) + 3 \<le> n"
  shows "read_dictionary n depth (comma_joined (map member_text kws) @ CHR ''}'' # rest) = Some (None, rest) \<and>
    read_dictionary n depth (CHR '' '' # comma_joined (map member_text kws) @ CHR ''}'' # rest) = Some (None, rest)"
  using assms
proof (induction kws arbitrary: n)
  case Nil
  then obtain m where "n = Suc m" by (cases n) auto
  then show ?case by (simp add: skip_space_def separators_no_space)
next
  case (Cons kw kws)
  obtain k w where kw: "kw = (k, w)" by fastforce
  show ?case
  proof (cases kws)
    case Nil
    obtain m where m: "n = Suc m" "2 * length (member_text (k, w)) + 2 \<le> m" using Cons.prems Nil kw by (cases n) auto
    have w: "reads (depth + 1) w" using Cons.prems kw by simp
    have stop: "stops (CHR ''}'' # rest)" by (simp add: stops_def)
    from read_member[OF w Cons.prems(2) m(2) stop] show ?thesis
      using m(1) by (simp add: Nil kw member_text_def quoted_first skip_space_def separators_no_space)
  next
    case more: (Cons x xs)
    define tail where "tail = comma_joined (map member_text kws) @ CHR ''}'' # rest"
    have joined: "comma_joined (map member_text (kw # kws)) = member_text (k, w) @ '', '' @ comma_joined (map member_text kws)"
      by (simp add: more kw)
    obtain m where m: "n = Suc m" "2 * length (member_text (k, w)) + 2 \<le> m"
      "2 * length (comma_joined (map member_text kws)) + 3 \<le> m"
      using Cons.prems(3) unfolding joined by (cases n) auto
    have w: "reads (depth + 1) w" using Cons.prems kw by simp
    have stop: "stops (CHR '','' # CHR '' '' # tail)" by (simp add: stops_def)
    have two: "read_dictionary m depth (CHR '' '' # tail) = Some (None, rest)"
      using Cons.IH[OF _ Cons.prems(2) m(3)] Cons.prems(1) by (simp add: tail_def)
    have whole: "comma_joined (map member_text (kw # kws)) @ CHR ''}'' # rest =
        quoted_setting k @ CHR '':'' # CHR '' '' # w @ CHR '','' # CHR '' '' # tail"
      unfolding joined by (simp add: member_text_def tail_def)
    from read_member[OF w Cons.prems(2) m(2) stop] two show ?thesis
      unfolding whole using m(1) by (simp add: quoted_first skip_space_def separators_no_space)
  qed
qed

section \<open>Every literal is a value\<close>

definition literal_ok :: "nat \<Rightarrow> string \<Rightarrow> bool" where
  "literal_ok depth t = (walked t \<and> reads depth t \<and> begins t \<and> \<not> is_space (last t) \<and> CHR 0x0A \<notin> set t)"

lemma escape_no_break: "CHR 0x0A \<notin> set (escape_setting_string s)"
proof (induction s)
  case (Cons c s)
  then show ?case by (cases c rule: escape_char_cases) (auto simp: escape_Cons)
qed (simp add: escape_Nil)

lemma literal_ok_quoted: "depth \<le> 32 \<Longrightarrow> literal_ok depth (quoted_setting s)"
  using escape_no_break[of s] walked_quoted[of s] reads_quoted[of depth s]
  unfolding literal_ok_def by (simp add: begins_def quoted_first separators_no_space)

lemma literal_ok_number:
  assumes "number_text t" "depth \<le> 32"
  shows "literal_ok depth t"
proof -
  have "list_all number_char t" using assms(1) by (simp add: number_text_def)
  then have "list_all passing t" "CHR 0x0A \<notin> set t" "\<not> is_space (last t)"
    using number_char_no_end assms(1) by (auto simp: list_all_iff number_text_def)
  moreover have "begins t" using assms(1) by (cases t) (auto simp: begins_def number_text_def is_digit_def is_space_def)
  ultimately show ?thesis using reads_number[OF assms] walked_chars by (simp add: literal_ok_def)
qed

lemma literal_ok_word:
  assumes "word_value t" "depth \<le> 32"
  shows "literal_ok depth t"
proof -
  have "list_all is_name_char t" using assms(1) by (simp add: word_value_def)
  moreover have "passing c \<and> c \<noteq> CHR 0x0A \<and> \<not> is_space c" if "is_name_char c" for c
    using that by (auto simp: passing_def is_name_char_def is_alnum_def is_alpha_def is_digit_def is_space_def)
  ultimately have "list_all passing t" "CHR 0x0A \<notin> set t" "\<not> is_space (last t)"
    using assms(1) by (auto simp: list_all_iff word_value_def)
  moreover have "begins t"
    using assms(1) by (cases t) (auto simp: begins_def word_value_def is_name_start_def is_alpha_def is_space_def)
  ultimately show ?thesis using reads_word[OF assms] walked_chars by (simp add: literal_ok_def)
qed

lemma joined_no_break: "list_all (\<lambda>w. CHR 0x0A \<notin> set w) ws \<Longrightarrow> CHR 0x0A \<notin> set (comma_joined ws)"
  by (induction ws rule: comma_joined.induct) auto

lemma literal_ok_array:
  assumes "list_all (literal_ok (depth + 1)) ws" "depth \<le> 32"
  shows "literal_ok depth (''['' @ comma_joined ws @ '']'')"
proof -
  have "list_all walked ws" "list_all (\<lambda>w. CHR 0x0A \<notin> set w) ws" "list_all (\<lambda>w. reads (depth + 1) w \<and> begins w) ws"
    using assms(1) by (auto simp: literal_ok_def list_all_iff)
  then have w: "walked (CHR ''['' # comma_joined ws @ [CHR '']''])" "CHR 0x0A \<notin> set (comma_joined ws)"
    by (auto intro!: walked_brackets walked_joined simp: joined_no_break)
  have "reads depth (''['' @ comma_joined ws @ '']'')"
    unfolding reads_def
  proof (intro allI impI)
    fix n rest
    assume "2 * length (''['' @ comma_joined ws @ '']'') + 2 \<le> n \<and> stops rest"
    then obtain m where m: "n = Suc m" "2 * length (comma_joined ws) + 3 \<le> m" by (cases n) auto
    show "read_value n depth ((''['' @ comma_joined ws @ '']'') @ rest) = Some (None, rest)"
      using read_array_joined[OF \<open>list_all (\<lambda>w. reads (depth + 1) w \<and> begins w) ws\<close> m(2), of rest] m(1) assms(2)
      by (simp add: skip_space_def separators_no_space is_name_start_def is_alpha_def)
  qed
  then show ?thesis using w by (simp add: literal_ok_def begins_def separators_no_space)
qed

lemma walked_member: "walked w \<Longrightarrow> walked (member_text (k, w))"
proof -
  assume "walked w"
  moreover have "walked '': ''" by (rule walked_chars) (simp add: passing_def)
  ultimately show ?thesis unfolding member_text_def by (auto intro!: walked_append[OF walked_quoted] walked_append[of "'': ''", simplified])
qed

lemma literal_ok_dictionary:
  assumes "list_all (\<lambda>kw. literal_ok (depth + 1) (snd kw)) kws" "depth < 32"
  shows "literal_ok depth (''{'' @ comma_joined (map member_text kws) @ ''}'')"
proof -
  have members: "list_all walked (map member_text kws)" "list_all (\<lambda>w. CHR 0x0A \<notin> set w) (map member_text kws)"
    "list_all (\<lambda>kw. reads (depth + 1) (snd kw)) kws"
    using assms(1) walked_member escape_no_break by (auto simp: literal_ok_def list_all_iff member_text_def quoted_first)
  then have w: "walked (CHR ''{'' # comma_joined (map member_text kws) @ [CHR ''}''])"
    "CHR 0x0A \<notin> set (comma_joined (map member_text kws))"
    by (auto intro!: walked_brackets walked_joined joined_no_break)
  have "reads depth (''{'' @ comma_joined (map member_text kws) @ ''}'')"
    unfolding reads_def
  proof (intro allI impI)
    fix n rest
    assume "2 * length (''{'' @ comma_joined (map member_text kws) @ ''}'') + 2 \<le> n \<and> stops rest"
    then obtain m where m: "n = Suc m" "2 * length (comma_joined (map member_text kws)) + 3 \<le> m" by (cases n) auto
    show "read_value n depth ((''{'' @ comma_joined (map member_text kws) @ ''}'') @ rest) = Some (None, rest)"
      using read_dictionary_joined[OF members(3) assms(2) m(2), of rest] m(1) assms(2)
      by (simp add: skip_space_def separators_no_space is_name_start_def is_alpha_def)
  qed
  then show ?thesis using w by (simp add: literal_ok_def begins_def separators_no_space)
qed


lemma dec_number: "number_text (dec n)"
proof -
  have "dec n \<noteq> []" by (subst dec.simps) simp
  moreover have "is_digit (hd (dec n))" by (rule dec_digits[of _ n], rule hd_in_set, rule calculation)
  ultimately show ?thesis using dec_digits by (auto simp: number_text_def number_char_def list_all_iff)
qed

lemma dec_int_number: "number_text (dec_int i)"
  using dec_number[of "nat i"] dec_number[of "nat (- i)"] by (simp add: dec_int_def number_text_def number_char_def)

lemma real_number: "number_text (dump d) \<Longrightarrow> number_text (real_text dump d)"
  by (simp add: real_text_def number_text_def number_char_def is_digit_def)

definition dumps_numbers :: "(dbl \<Rightarrow> string) \<Rightarrow> bool" where
  "dumps_numbers dump = (\<forall>d. is_finite d \<longrightarrow> number_text (dump d))"

lemma literals_ok:
  "setting_literal dump depth v = Inr t \<Longrightarrow> dumps_numbers dump \<Longrightarrow> literal_ok depth t"
  "element_literals dump depth xs = Inr ws \<Longrightarrow> dumps_numbers dump \<Longrightarrow> list_all (literal_ok depth) ws"
  "member_literals dump depth m = Inr ws \<Longrightarrow> dumps_numbers dump \<Longrightarrow>
     \<exists>kws. ws = map member_text kws \<and> list_all (\<lambda>kw. literal_ok depth (snd kw)) kws"
proof (induction dump depth v and dump depth xs and dump depth m arbitrary: t and ws and ws
    rule: setting_literal_element_literals_member_literals.induct)
  case (1 dump depth v)
  have depth: "depth \<le> 16" using "1.prems"(1) by (subst (asm) setting_literal.simps) (simp split: if_splits)
  then have depth32: "depth \<le> 32" "\<not> 16 < depth" by simp_all
  show ?case
  proof (cases v)
    case JNull
    then show ?thesis using "1.prems" depth32
      by (subst (asm) setting_literal.simps) (auto intro!: literal_ok_word simp: word_value_def is_value_keyword_def
        is_name_start_def is_name_char_def is_alnum_def is_alpha_def)
  next
    case (JBool b)
    then show ?thesis using "1.prems" depth32
      by (subst (asm) setting_literal.simps) (auto intro!: literal_ok_word simp: word_value_def is_value_keyword_def
        is_name_start_def is_name_char_def is_alnum_def is_alpha_def split: if_splits)
  next
    case (JInt i)
    then show ?thesis using "1.prems" depth32
      by (subst (asm) setting_literal.simps) (auto intro!: literal_ok_number dec_int_number)
  next
    case (JUInt n)
    then show ?thesis using "1.prems" depth32
      by (subst (asm) setting_literal.simps) (auto intro!: literal_ok_number dec_number split: if_splits)
  next
    case (JFloat d)
    then show ?thesis using "1.prems" depth32
      by (subst (asm) setting_literal.simps)
        (auto intro!: literal_ok_number real_number simp: dumps_numbers_def split: if_splits)
  next
    case (JStr x)
    then show ?thesis using "1.prems" depth32
      by (subst (asm) setting_literal.simps) (auto intro!: literal_ok_quoted)
  next
    case (JArr xs)
    obtain ws where ws: "element_literals dump (depth + 1) xs = Inr ws" "t = ''['' @ comma_joined ws @ '']''"
      using "1.prems"(1) JArr depth32 by (subst (asm) setting_literal.simps) (auto split: sum.splits)
    have "list_all (literal_ok (depth + 1)) ws" using "1.IH"(1)[OF depth32(2) JArr ws(1) "1.prems"(2)] .
    from literal_ok_array[OF this depth32(1)] show ?thesis using ws(2) by simp
  next
    case (JObj m)
    obtain ws where ws: "member_literals dump (depth + 1) m = Inr ws" "t = ''{'' @ comma_joined ws @ ''}''"
      using "1.prems"(1) JObj depth32 by (subst (asm) setting_literal.simps) (auto split: sum.splits)
    obtain kws where "ws = map member_text kws" "list_all (\<lambda>kw. literal_ok (depth + 1) (snd kw)) kws"
      using "1.IH"(2)[OF depth32(2) JObj ws(1) "1.prems"(2)] by blast
    then show ?thesis using literal_ok_dictionary[of depth kws] ws(2) depth by simp
  qed
next
  case (3 dump depth x xs)
  obtain w ws' where "setting_literal dump depth x = Inr w" "element_literals dump depth xs = Inr ws'" "ws = w # ws'"
    using "3.prems"(1) by (auto split: sum.splits)
  then show ?case using "3.IH" "3.prems"(2) by auto
next
  case (5 dump depth k x m)
  obtain w ws' where parts: "setting_literal dump depth x = Inr w" "member_literals dump depth m = Inr ws'"
    "ws = (quoted_setting k @ '': '' @ w) # ws'"
    using "5.prems"(1) by (auto split: sum.splits)
  obtain kws where "ws' = map member_text kws" "list_all (\<lambda>kw. literal_ok depth (snd kw)) kws"
    using "5.IH"(2)[OF parts(1,2) "5.prems"(2)] by blast
  moreover have "literal_ok depth w" using "5.IH"(1)[OF parts(1) "5.prems"(2)] .
  ultimately show ?case using parts(3) by (intro exI[of _ "(k, w) # kws"]) (simp add: member_text_def)
qed auto

section \<open>The end of a value\<close>

lemma closes_quoted: "value_closes (quoted_setting s)"
proof -
  define st where "st = fresh_value\<lparr>vs_in_string := True, vs_seen := True, vs_identifier := False\<rparr>"
  have "value_loop None fresh_value 0 (quoted_setting s) = value_loop None st 1 (escape_setting_string s @ [CHR 0x22])"
    by (simp add: quoted_first value_char_def fresh_value_def st_def)
  also have "\<dots> = value_loop None st (1 + length (escape_setting_string s)) [CHR 0x22]"
    by (rule loop_escaped) (simp add: st_def)
  also have "\<dots> = Inr (None, st\<lparr>vs_in_string := False\<rparr>, length (quoted_setting s))"
    by (simp add: value_char_def string_char_def st_def fresh_value_def quoted_first)
  finally show ?thesis
    by (simp add: value_closes_def advance_value_def walk_line_def after_loop_def st_def fresh_value_def)
qed

lemma closes_brackets:
  assumes "walked t" "c \<in> set ''[{(''" "d \<in> set '']})''"
  shows "value_closes (c # t @ [d])"
proof -
  have first: "value_char None fresh_value c (t @ [d]) = Go None (opens c fresh_value) 0"
    using assms(2) by (auto simp: value_char_def fresh_value_def)
  obtain st where st: "value_loop None (opens c fresh_value) 1 (t @ [d]) = value_loop None st (1 + length t) [d]"
    "inside (opens c fresh_value) st"
    by (rule walkedE[OF assms(1), of "opens c fresh_value" None 1 "[d]"]) (simp_all add: opens_def fresh_value_def)
  have inner: "vs_depth st = 1" "\<not> vs_in_string st" "\<not> vs_annotation st" "\<not> vs_awaiting_call st"
    using st(2) by (simp_all add: inside_def opens_def fresh_value_def)
  then have "value_char None st d [] = Stop None (closes st) 1"
    using assms(3) by (auto simp: value_char_def closes_def)
  then have "value_loop None fresh_value 0 (c # t @ [d]) = Inr (None, closes st, length (c # t @ [d]))"
    using first st(1) by simp
  then show ?thesis using inner
    by (simp add: value_closes_def advance_value_def walk_line_def after_loop_def closes_def fresh_value_def)
qed

lemma loop_number:
  "list_all number_char t \<Longrightarrow> vs_depth st = 0 \<Longrightarrow> \<not> vs_in_string st \<Longrightarrow> vs_seen st \<Longrightarrow> \<not> vs_identifier st \<Longrightarrow>
   value_loop None st i t = Inr (None, st, i + length t)"
proof (induction t arbitrary: i)
  case (Cons c t)
  have c: "passing c" "\<not> is_space c" using Cons.prems(1) number_char_no_end[of c] by simp_all
  have same: "st\<lparr>vs_identifier := False, vs_seen := True\<rparr> = st" using Cons.prems(4,5) by (cases st) simp
  have "plain_char c None st = (None, st\<lparr>vs_identifier := False, vs_seen := True\<rparr>)"
    using Cons.prems(2-5) by (simp add: plain_char_def)
  then have "plain_char c None st = (None, st)" unfolding same .
  then have "value_char None st c t = Go None st 0"
    using c Cons.prems(3) by (simp add: value_char_def passing_def)
  then show ?case using Cons by simp
qed simp

lemma closes_number:
  assumes "number_text t"
  shows "value_closes t"
proof -
  obtain c cs where t: "t = c # cs" using assms by (cases t) (auto simp: number_text_def)
  have "number_char c" and first: "is_digit c \<or> c = CHR ''-''" using assms t by (simp_all add: number_text_def)
  then have c: "passing c" "\<not> is_space c" using number_char_no_end by blast+
  have "\<not> is_name_start c" using first by (auto simp: is_name_start_def is_digit_def is_alpha_def)
  then have "value_char None fresh_value c cs = Go None (fresh_value\<lparr>vs_seen := True\<rparr>) 0"
    using c by (simp add: value_char_def passing_def plain_char_def fresh_value_def)
  moreover have "value_loop None (fresh_value\<lparr>vs_seen := True\<rparr>) 1 cs = Inr (None, fresh_value\<lparr>vs_seen := True\<rparr>, 1 + length cs)"
    using assms t by (intro loop_number) (simp_all add: number_text_def fresh_value_def)
  ultimately have "value_loop None fresh_value 0 t = Inr (None, fresh_value\<lparr>vs_seen := True\<rparr>, length t)" using t by simp
  then show ?thesis
    by (simp add: value_closes_def advance_value_def walk_line_def after_loop_def fresh_value_def)
qed

lemma closes_words: "value_closes ''null''" "value_closes ''true''" "value_closes ''false''"
  by code_simp+

lemma literal_closes:
  assumes "setting_literal dump depth v = Inr t" "dumps_numbers dump"
  shows "value_closes t"
proof -
  have depth: "\<not> 16 < depth" using assms(1) by (subst (asm) setting_literal.simps) (simp split: if_splits)
  show ?thesis
  proof (cases v)
    case (JArr xs)
    then obtain ws where ws: "element_literals dump (depth + 1) xs = Inr ws" "t = CHR ''['' # comma_joined ws @ [CHR '']'']"
      using assms(1) depth by (subst (asm) setting_literal.simps) (auto split: sum.splits)
    have "list_all walked ws" using literals_ok(2)[OF ws(1) assms(2)] by (auto simp: literal_ok_def list_all_iff)
    from closes_brackets[OF walked_joined[OF this]] show ?thesis using ws(2) by simp
  next
    case (JObj m)
    then obtain ws where ws: "member_literals dump (depth + 1) m = Inr ws" "t = CHR ''{'' # comma_joined ws @ [CHR ''}'']"
      using assms(1) depth by (subst (asm) setting_literal.simps) (auto split: sum.splits)
    have "list_all walked ws"
      using literals_ok(3)[OF ws(1) assms(2)] walked_member by (fastforce simp: literal_ok_def list_all_iff)
    from closes_brackets[OF walked_joined[OF this]] show ?thesis using ws(2) by simp
  next
    case JNull
    then show ?thesis using assms(1) depth closes_words by (subst (asm) setting_literal.simps) simp
  next
    case (JBool b)
    then show ?thesis using assms(1) depth closes_words by (subst (asm) setting_literal.simps) (cases b; simp)
  next
    case (JInt i)
    then show ?thesis using assms(1) depth closes_number[OF dec_int_number]
      by (subst (asm) setting_literal.simps) (simp, metis)
  next
    case (JUInt n)
    then show ?thesis using assms(1) depth closes_number[OF dec_number]
      by (subst (asm) setting_literal.simps) (simp split: if_splits, metis)
  next
    case (JFloat d)
    then have "is_finite d" "t = real_text dump d"
      using assms(1) depth by (subst (asm) setting_literal.simps; simp split: if_splits)+
    then show ?thesis using assms(2) by (auto intro: closes_number real_number simp: dumps_numbers_def)
  next
    case (JStr x)
    then show ?thesis using assms(1) depth closes_quoted
      by (subst (asm) setting_literal.simps) (simp, metis)
  qed
qed


section \<open>A written value\<close>

lemma literal_plain:
  assumes "setting_literal dump 0 v = Inr t" "dumps_numbers dump"
  shows "plain_value t \<and> value_problem t = Some None"
proof -
  have ok: "literal_ok 0 t" by (rule literals_ok(1)[OF assms])
  have "read_value (2 * length t + 2) 0 (t @ []) = Some (None, [])"
    using ok by (intro readsD) (simp_all add: literal_ok_def stops_def)
  then show ?thesis using ok literal_closes[OF assms] by (simp add: value_problem_def plain_value_def literal_ok_def begins_def)
qed

text \<open>
  (C32) Whatever JSON value is rendered as a setting, its literal fits on a line, ends where the line
  ends and is accepted by the walk that judges values, so it never makes the file unloadable.
\<close>

theorem rendered_literals_load:
  assumes "setting_literal dump 0 v = Inr t" "\<forall>d. is_finite d \<longrightarrow> number_text (dump d)"
  shows "plain_value t \<and> value_problem t = Some None"
  using literal_plain assms by (simp add: dumps_numbers_def)

definition half_dump :: "dbl \<Rightarrow> string" where
  "half_dump d = (if d = Fin (1 / 2) then ''0.5'' else ''1e+22'')"

lemma half_dump_number: "number_text (half_dump d)"
  by (simp add: half_dump_def number_text_def number_char_def is_digit_def)

lemma rendered_literals_load_witness:
  "let t = ''{'' @ [CHR 0x22] @ ''a'' @ [CHR 0x22] @ '': [0.5, -3, null]}''
   in plain_value t \<and> value_problem t = Some None"
  unfolding Let_def
proof (rule rendered_literals_load)
  show "\<forall>d. is_finite d \<longrightarrow> number_text (half_dump d)" by (simp add: half_dump_number)
  show "setting_literal half_dump 0 (JObj [(''a'', JArr [JFloat (Fin (1 / 2)), JInt (- 3), JNull])]) =
      Inr (''{'' @ [CHR 0x22] @ ''a'' @ [CHR 0x22] @ '': [0.5, -3, null]}'')"
    by code_simp
qed



end
