(* ===== verification/Input_Actions.thy ===== *)
theory Input_Actions
  imports Setting_Literals
begin

text \<open>
  Input actions, \<open>src/offline/input_actions.cpp\<close>: the name of an action, the descriptor of an
  event and its checked form, and the one-line literal an action is written with.
\<close>

section \<open>Names\<close>

definition is_control :: "char \<Rightarrow> bool" where
  "is_control c = (byte c < 32 \<or> byte c = 127)"

definition validate_input_action_name :: "string \<Rightarrow> refusal option" where
  "validate_input_action_name action =
     (if action = [] \<or> length action > 128 then Some (invalid_argument ''action must be a non-empty name'')
      else if list_ex (\<lambda>c. is_control c \<or> is_space c) action then
        Some (invalid_argument ''action may not contain whitespace or control characters'')
      else None)"

section \<open>Descriptors\<close>

record input_event =
  ev_type :: string
  ev_class :: string
  ev_device :: int
  ev_keycode :: "int option"
  ev_physical_keycode :: "int option"
  ev_unicode :: "int option"
  ev_shift :: "bool option"
  ev_alt :: "bool option"
  ev_ctrl :: "bool option"
  ev_meta :: "bool option"
  ev_button_index :: "int option"
  ev_axis :: "int option"
  ev_axis_value :: "dbl option"

definition new_event :: "string \<Rightarrow> string \<Rightarrow> input_event" where
  "new_event type cls =
     \<lparr>ev_type = type, ev_class = cls, ev_device = - 1, ev_keycode = None, ev_physical_keycode = None, ev_unicode = None,
      ev_shift = None, ev_alt = None, ev_ctrl = None, ev_meta = None, ev_button_index = None, ev_axis = None,
      ev_axis_value = None\<rparr>"

definition key_properties :: "string list" where
  "key_properties =
     [''type'', ''keycode'', ''physical_keycode'', ''unicode'', ''shift_pressed'', ''alt_pressed'', ''ctrl_pressed'',
      ''meta_pressed'', ''shift'', ''alt'', ''ctrl'', ''meta'', ''device'']"

definition button_properties :: "string list" where
  "button_properties = [''type'', ''button_index'', ''device'']"

definition motion_properties :: "string list" where
  "motion_properties = [''type'', ''axis'', ''axis_value'', ''device'']"

definition has_only_keys :: "json \<Rightarrow> string list \<Rightarrow> bool" where
  "has_only_keys v allowed = list_all (\<lambda>e. fst e \<in> set allowed) (members v)"

definition unknown_property_detail :: "json \<Rightarrow> string list \<Rightarrow> string" where
  "unknown_property_detail v allowed =
     (let offender = (case filter (\<lambda>e. fst e \<notin> set allowed) (members v) of [] \<Rightarrow> [] | e # es \<Rightarrow> fst e)
      in ''Unknown property '' @ [CHR 0x27] @ offender @ [CHR 0x27] @ ''. This event type accepts: '' @
         comma_joined allowed @ ''.'')"

text \<open>The class, the properties and the words of a refusal, for each of the four types.\<close>

definition event_kind :: "string \<Rightarrow> (string \<times> string list \<times> string) option" where
  "event_kind type =
     (if type = ''key'' then Some (''InputEventKey'', key_properties, ''Key event: '')
      else if type = ''mouse_button'' then Some (''InputEventMouseButton'', button_properties, ''Mouse-button event: '')
      else if type = ''joypad_button'' then Some (''InputEventJoypadButton'', button_properties, ''Joypad-button event: '')
      else if type = ''joypad_motion'' then Some (''InputEventJoypadMotion'', motion_properties, ''Joypad-motion event: '')
      else None)"

definition read_device :: "json \<Rightarrow> input_event \<Rightarrow> (refusal, input_event) result" where
  "read_device d ev =
     (case jget d ''device'' of
        None \<Rightarrow> Inr ev
      | Some x \<Rightarrow>
          if \<not> is_number_integer x \<or> int64_of x < - 1 then Inl (invalid_argument ''Input event device must be an integer >= -1'')
          else Inr (ev\<lparr>ev_device := int64_of x\<rparr>))"

definition key_code :: "json \<Rightarrow> string \<Rightarrow> (refusal, int option) result" where
  "key_code d name =
     (case jget d name of
        None \<Rightarrow> Inr None
      | Some x \<Rightarrow>
          if \<not> is_number_integer x \<or> int64_of x \<le> 0 then Inl (invalid_argument (name @ '' must be a positive integer''))
          else Inr (Some (int64_of x)))"

definition modifier_flag :: "json \<Rightarrow> string \<Rightarrow> (refusal, bool option) result" where
  "modifier_flag d name =
     (let engine = name @ ''_pressed''
      in case (jget d engine, jget d name) of
           (None, None) \<Rightarrow> Inr None
         | (Some a, Some b) \<Rightarrow>
             if \<not> json_eq a b then
               Inl (invalid_argument (''Input event sets '' @ [CHR 0x27] @ engine @ [CHR 0x27] @ '' and '' @ [CHR 0x27] @ name @
                 [CHR 0x27] @ '' to different values, and they are the same modifier. Send one, preferably '' @ [CHR 0x27] @
                 engine @ [CHR 0x27] @ '', which is Godot'' @ [CHR 0x27] @ ''s own name for it.''))
             else (case a of JBool v \<Rightarrow> Inr (Some v) | _ \<Rightarrow> Inl (invalid_argument (engine @ '' must be boolean'')))
         | (Some a, None) \<Rightarrow> (case a of JBool v \<Rightarrow> Inr (Some v) | _ \<Rightarrow> Inl (invalid_argument (engine @ '' must be boolean'')))
         | (None, Some b) \<Rightarrow> (case b of JBool v \<Rightarrow> Inr (Some v) | _ \<Rightarrow> Inl (invalid_argument (name @ '' must be boolean''))))"

definition read_key :: "json \<Rightarrow> input_event \<Rightarrow> (refusal, input_event) result" where
  "read_key d ev =
     rbind (key_code d ''keycode'') (\<lambda>k.
     rbind (key_code d ''physical_keycode'') (\<lambda>p.
     rbind (key_code d ''unicode'') (\<lambda>u.
     if k = None \<and> p = None \<and> u = None then Inl (invalid_argument ''Key event requires keycode, physical_keycode, or unicode'')
     else
       rbind (modifier_flag d ''shift'') (\<lambda>shift.
       rbind (modifier_flag d ''alt'') (\<lambda>alt.
       rbind (modifier_flag d ''ctrl'') (\<lambda>ctrl.
       rbind (modifier_flag d ''meta'') (\<lambda>meta.
       Inr (ev\<lparr>ev_keycode := k, ev_physical_keycode := p, ev_unicode := u, ev_shift := shift, ev_alt := alt,
                ev_ctrl := ctrl, ev_meta := meta\<rparr>))))))))"

definition read_button :: "json \<Rightarrow> input_event \<Rightarrow> (refusal, input_event) result" where
  "read_button d ev =
     (case jget d ''button_index'' of
        None \<Rightarrow> Inl (invalid_argument ''button_index is required and must be an integer'')
      | Some x \<Rightarrow>
          if \<not> is_number_integer x then Inl (invalid_argument ''button_index is required and must be an integer'')
          else
            let button = int64_of x; maximum = (if ev_type ev = ''mouse_button'' then 9 else 127)
            in if button < (if ev_type ev = ''mouse_button'' then 1 else 0) \<or> button > maximum then
                 Inl (invalid_argument ''button_index is outside the supported range'')
               else Inr (ev\<lparr>ev_button_index := Some button\<rparr>))"

fun dbl_within :: "rat \<Rightarrow> rat \<Rightarrow> dbl \<Rightarrow> bool" where
  "dbl_within low high (Fin r) = (low \<le> r \<and> r \<le> high)"
| "dbl_within low high d = False"

definition read_motion :: "json \<Rightarrow> input_event \<Rightarrow> (refusal, input_event) result" where
  "read_motion d ev =
     (case (jget d ''axis'', jget d ''axis_value'') of
        (Some a, v) \<Rightarrow>
          if \<not> is_number_integer a \<or> int64_of a < 0 \<or> int64_of a > 9 then
            Inl (invalid_argument ''axis is required and must be in 0..9'')
          else (case v of
             Some x \<Rightarrow>
               if \<not> is_number x \<or> \<not> dbl_within (- 1) 1 (get_double x) then
                 Inl (invalid_argument ''axis_value is required and must be finite within -1.0..1.0'')
               else Inr (ev\<lparr>ev_axis := Some (int64_of a), ev_axis_value := Some (get_double x)\<rparr>)
           | None \<Rightarrow> Inl (invalid_argument ''axis_value is required and must be finite within -1.0..1.0''))
      | (None, v) \<Rightarrow> Inl (invalid_argument ''axis is required and must be in 0..9''))"

definition read_fields :: "string \<Rightarrow> json \<Rightarrow> input_event \<Rightarrow> (refusal, input_event) result" where
  "read_fields type d ev =
     (if type = ''key'' then read_key d ev
      else if type = ''mouse_button'' \<or> type = ''joypad_button'' then read_button d ev
      else read_motion d ev)"

definition parse_input_event :: "json \<Rightarrow> (refusal, input_event) result" where
  "parse_input_event d =
     (case (if is_object d then jget d ''type'' else None) of
        Some (JStr type) \<Rightarrow>
          (case event_kind type of
             None \<Rightarrow> Inl (invalid_argument (''Unsupported input event type: '' @ type @
                 ''. This tool accepts: key, mouse_button, joypad_button, joypad_motion.''))
           | Some (cls, allowed, words) \<Rightarrow>
               if \<not> has_only_keys d allowed then Inl (invalid_argument (words @ unknown_property_detail d allowed))
               else
                 rbind (read_device d (new_event type cls)) (read_fields type d))
      | _ \<Rightarrow> Inl (invalid_argument ''Each input event must be an object with a string type''))"

section \<open>The literal of an action\<close>

text \<open>\<open>numberLiteral\<close>: a real that is not finite is shown by \<open>std::to_string\<close>, the argument \<open>open_text\<close>.\<close>

definition number_literal :: "(dbl \<Rightarrow> string) \<Rightarrow> (dbl \<Rightarrow> string) \<Rightarrow> dbl \<Rightarrow> string" where
  "number_literal dump open_text d =
     (case setting_literal dump 0 (JFloat d) of Inr t \<Rightarrow> t | Inl e \<Rightarrow> open_text d)"

definition event_property :: "string \<Rightarrow> string \<Rightarrow> string" where
  "event_property name shown = '','' @ [CHR 0x22] @ name @ [CHR 0x22] @ '':'' @ shown"

definition flag_property :: "string \<Rightarrow> bool option \<Rightarrow> string" where
  "flag_property name v = (case v of None \<Rightarrow> [] | Some b \<Rightarrow> event_property name (if b then ''true'' else ''false''))"

definition integer_property :: "string \<Rightarrow> int option \<Rightarrow> string" where
  "integer_property name v = (case v of None \<Rightarrow> [] | Some i \<Rightarrow> event_property name (dec_int i))"

definition event_literal :: "(dbl \<Rightarrow> string) \<Rightarrow> (dbl \<Rightarrow> string) \<Rightarrow> input_event \<Rightarrow> string" where
  "event_literal dump open_text ev =
     ''Object('' @ ev_class ev @ event_property ''device'' (dec_int (ev_device ev)) @
     flag_property ''alt_pressed'' (ev_alt ev) @ flag_property ''shift_pressed'' (ev_shift ev) @
     flag_property ''ctrl_pressed'' (ev_ctrl ev) @ flag_property ''meta_pressed'' (ev_meta ev) @
     integer_property ''keycode'' (ev_keycode ev) @ integer_property ''physical_keycode'' (ev_physical_keycode ev) @
     integer_property ''unicode'' (ev_unicode ev) @ integer_property ''button_index'' (ev_button_index ev) @
     integer_property ''axis'' (ev_axis ev) @
     (case ev_axis_value ev of None \<Rightarrow> [] | Some d \<Rightarrow> event_property ''axis_value'' (number_literal dump open_text d)) @ '')''"

definition input_action_literal :: "(dbl \<Rightarrow> string) \<Rightarrow> (dbl \<Rightarrow> string) \<Rightarrow> dbl \<Rightarrow> input_event list \<Rightarrow> string" where
  "input_action_literal dump open_text deadzone events =
     ''{'' @ [CHR 0x22] @ ''deadzone'' @ [CHR 0x22] @ '': '' @ number_literal dump open_text deadzone @ '', '' @
     [CHR 0x22] @ ''events'' @ [CHR 0x22] @ '': ['' @ comma_joined (map (event_literal dump open_text) events) @ '']}''"

section \<open>A checked event\<close>

text \<open>What the type of an event says of its fields.\<close>

definition key_event_ok :: "input_event \<Rightarrow> bool" where
  "key_event_ok ev =
     (ev_class ev = ''InputEventKey'' \<and>
      (ev_keycode ev \<noteq> None \<or> ev_physical_keycode ev \<noteq> None \<or> ev_unicode ev \<noteq> None) \<and>
      list_all (\<lambda>v. case v of None \<Rightarrow> True | Some i \<Rightarrow> 0 < i) [ev_keycode ev, ev_physical_keycode ev, ev_unicode ev] \<and>
      ev_button_index ev = None \<and> ev_axis ev = None \<and> ev_axis_value ev = None)"

definition no_key_fields :: "input_event \<Rightarrow> bool" where
  "no_key_fields ev =
     (ev_keycode ev = None \<and> ev_physical_keycode ev = None \<and> ev_unicode ev = None \<and>
      ev_shift ev = None \<and> ev_alt ev = None \<and> ev_ctrl ev = None \<and> ev_meta ev = None)"

definition button_event_ok :: "string \<Rightarrow> int \<Rightarrow> int \<Rightarrow> input_event \<Rightarrow> bool" where
  "button_event_ok cls low high ev =
     (ev_class ev = cls \<and> no_key_fields ev \<and> ev_axis ev = None \<and> ev_axis_value ev = None \<and>
      (case ev_button_index ev of None \<Rightarrow> False | Some i \<Rightarrow> low \<le> i \<and> i \<le> high))"

definition motion_event_ok :: "input_event \<Rightarrow> bool" where
  "motion_event_ok ev =
     (ev_class ev = ''InputEventJoypadMotion'' \<and> no_key_fields ev \<and> ev_button_index ev = None \<and>
      (case ev_axis ev of None \<Rightarrow> False | Some i \<Rightarrow> 0 \<le> i \<and> i \<le> 9) \<and>
      (case ev_axis_value ev of None \<Rightarrow> False | Some d \<Rightarrow> dbl_within (- 1) 1 d))"

definition event_ok :: "input_event \<Rightarrow> bool" where
  "event_ok ev =
     (- 1 \<le> ev_device ev \<and>
      (if ev_type ev = ''key'' then key_event_ok ev
       else if ev_type ev = ''mouse_button'' then button_event_ok ''InputEventMouseButton'' 1 9 ev
       else if ev_type ev = ''joypad_button'' then button_event_ok ''InputEventJoypadButton'' 0 127 ev
       else ev_type ev = ''joypad_motion'' \<and> motion_event_ok ev))"

lemma key_code_positive: "key_code d name = Inr v \<Longrightarrow> (case v of None \<Rightarrow> True | Some i \<Rightarrow> 0 < i)"
  by (auto simp: key_code_def split: option.splits if_splits)

lemma read_device_ok:
  assumes "read_device d (new_event type cls) = Inr ev"
  shows "ev = (new_event type cls)\<lparr>ev_device := ev_device ev\<rparr> \<and> - 1 \<le> ev_device ev"
  using assms by (auto simp: read_device_def new_event_def split: option.splits if_splits)

lemma read_key_ok: "read_key d ev = Inr ev' \<Longrightarrow> ev = (new_event t ''InputEventKey'')\<lparr>ev_device := i\<rparr> \<Longrightarrow> key_event_ok ev' \<and> ev_type ev' = t \<and> ev_device ev' = i"
  by (auto simp: read_key_def result_simps key_event_ok_def new_event_def split: if_splits dest!: key_code_positive)

lemma read_button_ok:
  "read_button d ev = Inr ev' \<Longrightarrow> ev = (new_event t cls)\<lparr>ev_device := i\<rparr> \<Longrightarrow>
   button_event_ok cls (if t = ''mouse_button'' then 1 else 0) (if t = ''mouse_button'' then 9 else 127) ev' \<and>
   ev_type ev' = t \<and> ev_device ev' = i"
  by (auto simp: read_button_def Let_def button_event_ok_def no_key_fields_def new_event_def split: option.splits if_splits)

lemma read_motion_ok:
  "read_motion d ev = Inr ev' \<Longrightarrow> ev = (new_event t ''InputEventJoypadMotion'')\<lparr>ev_device := i\<rparr> \<Longrightarrow>
   motion_event_ok ev' \<and> ev_type ev' = t \<and> ev_device ev' = i"
  by (auto simp: read_motion_def motion_event_ok_def no_key_fields_def new_event_def split: option.splits if_splits)

text \<open>The steps of an accepted descriptor.\<close>

lemma parse_input_event_steps:
  assumes "parse_input_event d = Inr ev"
  obtains type cls allowed words ev' where "jget d ''type'' = Some (JStr type)" "event_kind type = Some (cls, allowed, words)"
    "has_only_keys d allowed" "read_device d (new_event type cls) = Inr ev'"
    "read_fields type d ev' = Inr ev"
  using assms by (auto simp: parse_input_event_def result_simps split: if_splits option.splits json.splits prod.splits)

text \<open>
  (C33) A descriptor that is accepted has only the properties of its type, and the event built from
  it is well typed: the class of the type, the fields of the type and no others, each in its range.
\<close>

theorem parsed_events_are_well_typed:
  assumes "parse_input_event d = Inr ev"
  shows "event_ok ev \<and> jget d ''type'' = Some (JStr (ev_type ev)) \<and>
    (case event_kind (ev_type ev) of None \<Rightarrow> False | Some (cls, allowed, words) \<Rightarrow> ev_class ev = cls \<and> has_only_keys d allowed)"
proof -
  obtain type cls allowed words ev' where d: "jget d ''type'' = Some (JStr type)"
    "event_kind type = Some (cls, allowed, words)" "has_only_keys d allowed"
    and dev: "read_device d (new_event type cls) = Inr ev'"
    and fields: "read_fields type d ev' = Inr ev"
    by (rule parse_input_event_steps[OF assms])
  obtain i where ev': "ev' = (new_event type cls)\<lparr>ev_device := i\<rparr>" "- 1 \<le> i" using read_device_ok[OF dev] by blast
  consider "type = ''key''" "cls = ''InputEventKey''" | "type = ''mouse_button''" "cls = ''InputEventMouseButton''"
    | "type = ''joypad_button''" "cls = ''InputEventJoypadButton''" | "type = ''joypad_motion''" "cls = ''InputEventJoypadMotion''"
    using d(2) by (auto simp: event_kind_def split: if_splits)
  then have "event_ok ev \<and> ev_type ev = type \<and> ev_class ev = cls"
  proof cases
    case 1
    then show ?thesis using read_key_ok[of d ev' ev i type] fields ev' by (simp add: read_fields_def event_ok_def key_event_ok_def)
  next
    case 2
    then show ?thesis using read_button_ok[of d ev' ev i type cls] fields ev' by (simp add: read_fields_def event_ok_def button_event_ok_def)
  next
    case 3
    then show ?thesis using read_button_ok[of d ev' ev i type cls] fields ev' by (simp add: read_fields_def event_ok_def button_event_ok_def)
  next
    case 4
    then show ?thesis using read_motion_ok[of d ev' ev i type] fields ev' by (simp add: read_fields_def event_ok_def motion_event_ok_def)
  qed
  then show ?thesis using d by simp
qed

lemma parsed_events_are_well_typed_witness:
  "let d = jobj [(''type'', JStr ''mouse_button''), (''button_index'', JUInt 2)]; ev = (new_event ''mouse_button'' ''InputEventMouseButton'')\<lparr>ev_button_index := Some 2\<rparr>
   in parse_input_event d = Inr ev \<and> event_ok ev \<and> jget d ''type'' = Some (JStr (ev_type ev)) \<and>
    (case event_kind (ev_type ev) of None \<Rightarrow> False | Some (cls, allowed, words) \<Rightarrow> ev_class ev = cls \<and> has_only_keys d allowed)"
proof -
  have parse: "parse_input_event (jobj [(''type'', JStr ''mouse_button''), (''button_index'', JUInt 2)]) =
      Inr ((new_event ''mouse_button'' ''InputEventMouseButton'')\<lparr>ev_button_index := Some 2\<rparr>)"
    by (simp add: parse_input_event_def jobj_def jget_def kv_get_def event_kind_def has_only_keys_def button_properties_def
        read_device_def read_fields_def read_button_def new_event_def to_int64_def)
  show ?thesis unfolding Let_def by (rule conjI[OF parse parsed_events_are_well_typed[OF parse]])
qed


section \<open>The literal is a value\<close>

text \<open>Text that a balanced skip passes over.\<close>

definition skipped :: "string \<Rightarrow> bool" where
  "skipped t = (\<forall>depth rest. 0 < depth \<longrightarrow> skip_balanced depth None (t @ rest) = skip_balanced depth None rest)"

lemma skipped_append: "skipped a \<Longrightarrow> skipped b \<Longrightarrow> skipped (a @ b)"
  by (simp add: skipped_def)

lemma skipped_chars: "list_all passing t \<Longrightarrow> skipped t"
proof (induction t)
  case (Cons c t)
  have "skip_balanced depth None (c # t @ rest) = skip_balanced depth None (t @ rest)" for depth rest
    using Cons.prems by (simp add: passing_def)
  then show ?case using Cons by (simp add: skipped_def)
qed (simp add: skipped_def)

lemma skipped_quoted: "skipped (quoted_setting s)"
  by (simp add: skipped_def quoted_first skip_string_def decode_quoted)

text \<open>Text that may stand between the brackets of a call: on one line, passed by both walks.\<close>

definition argument_text :: "string \<Rightarrow> bool" where
  "argument_text t = (walked t \<and> skipped t \<and> CHR 0x0A \<notin> set t \<and> CHR 0x0D \<notin> set t)"

lemma argument_append: "argument_text a \<Longrightarrow> argument_text b \<Longrightarrow> argument_text (a @ b)"
  by (simp add: argument_text_def walked_append skipped_append)

lemma argument_chars: "list_all (\<lambda>c. passing c \<and> c \<noteq> CHR 0x0A \<and> c \<noteq> CHR 0x0D) t \<Longrightarrow> argument_text t"
proof -
  assume t: "list_all (\<lambda>c. passing c \<and> c \<noteq> CHR 0x0A \<and> c \<noteq> CHR 0x0D) t"
  then have "list_all passing t" unfolding list_all_iff by blast
  moreover have "CHR 0x0A \<notin> set t" "CHR 0x0D \<notin> set t" using t unfolding list_all_iff by blast+
  ultimately show ?thesis by (simp add: argument_text_def walked_chars skipped_chars)
qed

lemma argument_Nil: "argument_text []"
  by (rule argument_chars) simp

lemma escape_no_return: "CHR 0x0D \<notin> set (escape_setting_string s)"
  by (auto simp: escape_setting_string_def)

lemma argument_quoted: "argument_text (quoted_setting s)"
  using walked_quoted skipped_quoted escape_no_break[of s] escape_no_return[of s]
  by (simp add: argument_text_def quoted_first)

lemma breaks_are_spaces: "is_space CHR 0x0A" "is_space CHR 0x0D"
  by (simp_all add: is_space_def)

lemma number_char_argument: "number_char c \<Longrightarrow> passing c \<and> c \<noteq> CHR 0x0A \<and> c \<noteq> CHR 0x0D"
  using number_char_no_end breaks_are_spaces by metis

lemma name_char_argument: "is_name_char c \<Longrightarrow> passing c \<and> c \<noteq> CHR 0x0A \<and> c \<noteq> CHR 0x0D"
  by (auto simp: passing_def is_name_char_def is_alnum_def is_alpha_def is_digit_def)

lemma argument_number: "number_text t \<Longrightarrow> argument_text t"
  by (rule argument_chars) (use number_char_argument in \<open>simp add: number_text_def list_all_iff\<close>)

definition plain_name :: "string \<Rightarrow> bool" where
  "plain_name t = list_all is_name_char t"

lemma name_char_escape: "is_name_char c \<Longrightarrow> escape_setting_char c = [c]"
proof -
  assume c: "is_name_char c"
  have "\<not> is_name_char CHR 0x5C" "\<not> is_name_char CHR 0x22" "\<not> is_name_char CHR 0x0A" "\<not> is_name_char CHR 0x0D"
    "\<not> is_name_char CHR 0x09"
    by (simp_all add: is_name_char_def is_alnum_def is_alpha_def is_digit_def)
  then have "c \<noteq> CHR 0x5C" "c \<noteq> CHR 0x22" "c \<noteq> CHR 0x0A" "c \<noteq> CHR 0x0D" "c \<noteq> CHR 0x09" using c by blast+
  then show ?thesis by simp
qed

lemma plain_name_escape: "plain_name t \<Longrightarrow> escape_setting_string t = t"
proof (induction t)
  case (Cons c t)
  then show ?case using name_char_escape[of c] by (simp add: plain_name_def escape_Cons del: escape_setting_char.simps)
qed (simp add: escape_Nil)

lemma argument_name: "plain_name t \<Longrightarrow> argument_text t"
  by (rule argument_chars) (use name_char_argument in \<open>simp add: plain_name_def list_all_iff\<close>)

lemma argument_property: "plain_name name \<Longrightarrow> argument_text shown \<Longrightarrow> argument_text (event_property name shown)"
proof -
  assume "plain_name name" "argument_text shown"
  moreover have "event_property name shown = '','' @ quoted_setting name @ '':'' @ shown"
    using \<open>plain_name name\<close> by (simp add: event_property_def quoted_first plain_name_escape)
  moreover have "argument_text '',''" "argument_text '':''" by (rule argument_chars, simp add: passing_def)+
  ultimately show ?thesis by (simp only:) (intro argument_append argument_quoted)
qed

lemma argument_flag: "plain_name name \<Longrightarrow> argument_text (flag_property name v)"
proof -
  assume "plain_name name"
  moreover have "argument_text ''true''" "argument_text ''false''" by (rule argument_chars, simp add: passing_def)+
  ultimately show ?thesis by (auto simp: flag_property_def intro: argument_property argument_Nil split: option.split)
qed

lemma argument_integer: "plain_name name \<Longrightarrow> argument_text (integer_property name v)"
  by (auto simp: integer_property_def intro: argument_property argument_Nil argument_number dec_int_number split: option.split)

text \<open>A call of a constructor.\<close>

lemma call_ok:
  assumes "argument_text inner" "depth \<le> 32"
  shows "literal_ok depth (''Object('' @ inner @ '')'')"
proof -
  have "walked ''Object''" by (rule walked_chars) (simp add: passing_def)
  moreover have "walked (CHR ''('' # inner @ [CHR '')''])"
    using assms(1) by (intro walked_brackets) (simp_all add: argument_text_def)
  ultimately have "walked (''Object'' @ (CHR ''('' # inner @ [CHR '')'']))" by (rule walked_append)
  then have walked: "walked (''Object('' @ inner @ '')'')" by simp
  have "read_value n depth ((''Object('' @ inner @ '')'') @ rest) = Some (None, rest)"
    if fuel: "2 * length (''Object('' @ inner @ '')'') + 2 \<le> n \<and> stops rest" for n rest
  proof -
    obtain m where m: "n = Suc m" using fuel by (cases n) auto
    have "skip_balanced 0 None (CHR ''('' # inner @ CHR '')'' # rest) = (None, rest)"
      using assms(1) by (simp add: argument_text_def skipped_def)
    then have "read_word (''Object('' @ inner @ '')'' @ rest) = (None, rest)"
      by (simp add: read_word_def Let_def is_name_char_def is_alnum_def is_alpha_def is_digit_def skip_space_def is_space_def
          starts_char_def)
    then show ?thesis using m assms(2)
      by (simp add: skip_space_def is_space_def is_name_start_def is_alpha_def)
  qed
  then have "reads depth (''Object('' @ inner @ '')'')" by (simp add: reads_def)
  then show ?thesis using walked assms(1)
    by (simp add: literal_ok_def begins_def argument_text_def is_space_def)
qed

definition event_arguments :: "(dbl \<Rightarrow> string) \<Rightarrow> (dbl \<Rightarrow> string) \<Rightarrow> input_event \<Rightarrow> string" where
  "event_arguments dump open_text ev =
     ev_class ev @ event_property ''device'' (dec_int (ev_device ev)) @
     flag_property ''alt_pressed'' (ev_alt ev) @ flag_property ''shift_pressed'' (ev_shift ev) @
     flag_property ''ctrl_pressed'' (ev_ctrl ev) @ flag_property ''meta_pressed'' (ev_meta ev) @
     integer_property ''keycode'' (ev_keycode ev) @ integer_property ''physical_keycode'' (ev_physical_keycode ev) @
     integer_property ''unicode'' (ev_unicode ev) @ integer_property ''button_index'' (ev_button_index ev) @
     integer_property ''axis'' (ev_axis ev) @
     (case ev_axis_value ev of None \<Rightarrow> [] | Some d \<Rightarrow> event_property ''axis_value'' (number_literal dump open_text d))"

lemma event_literal_call: "event_literal dump open_text ev = ''Object('' @ event_arguments dump open_text ev @ '')''"
  by (simp add: event_literal_def event_arguments_def)

lemma number_literal_text: "is_finite d \<Longrightarrow> dumps_numbers dump \<Longrightarrow> number_text (number_literal dump open_text d)"
  by (simp add: number_literal_def setting_literal.simps dumps_numbers_def real_number)

lemma event_ok_class: "event_ok ev \<Longrightarrow> plain_name (ev_class ev)"
  by (auto simp: event_ok_def key_event_ok_def button_event_ok_def motion_event_ok_def plain_name_def is_name_char_def
      is_alnum_def is_alpha_def split: if_splits)

lemma event_ok_axis: "event_ok ev \<Longrightarrow> ev_axis_value ev = Some d \<Longrightarrow> is_finite d"
  by (cases d) (auto simp: event_ok_def key_event_ok_def button_event_ok_def motion_event_ok_def split: if_splits)

lemma property_names:
  "plain_name ''device''" "plain_name ''alt_pressed''" "plain_name ''shift_pressed''" "plain_name ''ctrl_pressed''"
  "plain_name ''meta_pressed''" "plain_name ''keycode''" "plain_name ''physical_keycode''" "plain_name ''unicode''"
  "plain_name ''button_index''" "plain_name ''axis''" "plain_name ''axis_value''" "plain_name ''deadzone''" "plain_name ''events''"
  by (simp_all add: plain_name_def is_name_char_def is_alnum_def is_alpha_def)

lemma event_arguments_ok:
  assumes "event_ok ev" "dumps_numbers dump"
  shows "argument_text (event_arguments dump open_text ev)"
proof -
  have "argument_text (case ev_axis_value ev of None \<Rightarrow> [] | Some d \<Rightarrow> event_property ''axis_value'' (number_literal dump open_text d))"
    using event_ok_axis[OF assms(1)] assms(2)
    by (auto intro: argument_Nil argument_property argument_number number_literal_text property_names split: option.split)
  then show ?thesis unfolding event_arguments_def
    by (intro argument_append;
        simp add: argument_flag argument_integer argument_property argument_number argument_name dec_int_number
          property_names event_ok_class[OF assms(1)])
qed

lemma joined_no_return: "list_all (\<lambda>w. CHR 0x0D \<notin> set w) ws \<Longrightarrow> CHR 0x0D \<notin> set (comma_joined ws)"
  by (induction ws rule: comma_joined.induct) auto

lemma action_literal_members:
  "input_action_literal dump open_text deadzone events =
   ''{'' @ comma_joined (map member_text [(''deadzone'', number_literal dump open_text deadzone),
     (''events'', ''['' @ comma_joined (map (event_literal dump open_text) events) @ '']'')]) @ ''}''"
  by (simp add: input_action_literal_def member_text_def quoted_first plain_name_escape property_names)

lemma action_literal_ok:
  assumes "list_all event_ok events" "is_finite deadzone" "dumps_numbers dump"
  shows "plain_value (input_action_literal dump open_text deadzone events) \<and>
    value_problem (input_action_literal dump open_text deadzone events) = Some None \<and>
    CHR 0x0D \<notin> set (input_action_literal dump open_text deadzone events)"
proof -
  define t where "t = input_action_literal dump open_text deadzone events"
  define kws where "kws = [(''deadzone'', number_literal dump open_text deadzone),
     (''events'', ''['' @ comma_joined (map (event_literal dump open_text) events) @ '']'')]"
  have t: "t = ''{'' @ comma_joined (map member_text kws) @ ''}''" unfolding t_def kws_def by (rule action_literal_members)
  have arguments: "list_all (\<lambda>ev. argument_text (event_arguments dump open_text ev)) events"
    using assms(1,3) event_arguments_ok by (auto simp: list_all_iff)
  have "literal_ok 2 (event_literal dump open_text ev)" if "ev \<in> set events" for ev
    unfolding event_literal_call by (rule call_ok) (use arguments that in \<open>simp_all add: list_all_iff\<close>)
  then have events: "list_all (literal_ok 2) (map (event_literal dump open_text) events)" by (auto simp: list_all_iff)
  have number: "number_text (number_literal dump open_text deadzone)" by (rule number_literal_text[OF assms(2,3)])
  have "list_all (\<lambda>kw. literal_ok (0 + 1) (snd kw)) kws"
    using literal_ok_number[OF number, of 1] literal_ok_array[of 1 "map (event_literal dump open_text) events"] events
    by (simp add: kws_def numeral_2_eq_2)
  then have ok: "literal_ok 0 t" unfolding t by (rule literal_ok_dictionary) simp
  have "list_all walked (map member_text kws)"
    using \<open>list_all (\<lambda>kw. literal_ok (0 + 1) (snd kw)) kws\<close> walked_member by (auto simp: list_all_iff literal_ok_def)
  from closes_brackets[OF walked_joined[OF this], of "CHR ''{''" "CHR ''}''"] have closes: "value_closes t" by (simp add: t)
  have "read_value (2 * length t + 2) 0 (t @ []) = Some (None, [])"
    using ok by (intro readsD) (simp_all add: literal_ok_def stops_def)
  moreover have "CHR 0x0D \<notin> set (comma_joined (map (event_literal dump open_text) events))"
    by (rule joined_no_return) (use arguments in \<open>auto simp: list_all_iff event_literal_call argument_text_def\<close>)
  then have "CHR 0x0D \<notin> set t"
    using argument_number[OF number] by (simp add: t kws_def member_text_def quoted_first escape_no_return argument_text_def)
  ultimately show ?thesis using ok closes unfolding t_def[symmetric]
    by (simp add: value_problem_def plain_value_def literal_ok_def begins_def)
qed


section \<open>Writing an action\<close>

lemma trim_id:
  assumes "s \<noteq> []" "\<not> is_space (hd s)" "\<not> is_space (last s)"
  shows "trim s = s"
proof -
  have trim: "is_space c" if "is_trim_byte c" for c using that by (auto simp: is_trim_byte_def is_space_def)
  have "dropWhile is_trim_byte u = u" if "u \<noteq> []" "\<not> is_space (hd u)" for u
    using that trim by (cases u) auto
  then show ?thesis using assms by (simp add: trim_def hd_rev)
qed

text \<open>A plain value of one line passes the check of the literal writers.\<close>

lemma plain_value_checked:
  assumes "plain_value t" "value_problem t = Some None" "CHR 0x0D \<notin> set t"
  shows "check_single_line_literal t = None"
proof -
  define doc where "doc = [Header ''probe'', Setting ''key'' t]"
  have key: "plain_key ''key''" by (simp add: plain_key_def is_space_def)
  have name: "trimmed ''probe'' = ''probe''" by (rule trimmed_id) (simp_all add: is_space_def)
  have doc: "list_all plain_line doc" using assms(1) key name by (simp add: doc_def)
  have whole: "''[probe]'' @ [CHR 0x0A] @ ''key='' @ t @ [CHR 0x0A] = config_text False doc"
    by (simp add: config_text_def doc_def line_end_def)
  have "load_failure_of (scan_config (config_text False doc)) = None"
    using plain_loads[OF doc] assms(2) by (simp add: doc_def)
  moreover have "trim t = t" using assms(1) by (intro trim_id) (simp_all add: plain_value_def)
  moreover have "t \<noteq> []" "CHR 0x0A \<notin> set t" using assms(1) by (simp_all add: plain_value_def)
  ultimately show ?thesis
    unfolding check_single_line_literal_def whole using assms(3) scan_config_text[OF doc, of False]
    by (simp add: Let_def doc_def setting_entry_def)
qed

text \<open>
  (C7) An input action written with no editor is registered. On a file of plain lines that loads,
  and for an action whose name is accepted and plain (no blank, equals sign or quote, not starting like a comment
  or a header), the literal of any events the parser accepted and any finite dead zone passes the
  writer's check, the write is accepted, and the file it leaves loads and registers the action, every
  other setting as before. The code accepts other names as well; those need not be registered.
\<close>

theorem input_action_is_registered:
  assumes "list_all plain_line doc" "load_failure_of (scan_config (config_text crlf doc)) = None"
    and "setting_name_ok (''input'' @ ''/'' @ action)" "plain_key action"
    and "list_all event_ok events" "is_finite deadzone" "\<forall>d. is_finite d \<longrightarrow> number_text (dump d)"
  shows "\<exists>w text. write_input_action_literal (config_text crlf doc) action (input_action_literal dump open_text deadzone events) =
      Inr (w, text) \<and>
    load_failure_of (scan_config text) = None \<and>
    registered (scan_config text) = (registered (scan_config (config_text crlf doc)))
      ((''input'', action) \<mapsto> input_action_literal dump open_text deadzone events)"
proof -
  define t where "t = input_action_literal dump open_text deadzone events"
  have t: "plain_value t" "value_problem t = Some None" "CHR 0x0D \<notin> set t"
    using action_literal_ok[OF assms(5,6)] assms(7) by (simp_all add: t_def dumps_numbers_def)
  have name: "\<not> typed_namespace_setting (''input'' @ ''/'' @ action) True" "CHR ''/'' \<notin> set ''input''"
    by (simp_all add: typed_namespace_setting_def starts_with_def)
  have "trimmed ''input'' = ''input''" by (rule trimmed_id) (simp_all add: is_space_def)
  then have lines: "plain_line (Header ''input'')" "plain_line (Setting action t)" using assms(4) t(1) by simp_all
  have "write_input_action_literal (config_text crlf doc) action t =
      write_setting_line (config_text crlf doc) (''input'' @ ''/'' @ action) (Some t) True"
    using plain_value_checked[OF t] by (simp add: write_input_action_literal_def)
  then show ?thesis
    using write_plain_registers[OF assms(1,2,3) name lines t(2)] unfolding t_def[symmetric] by auto
qed

lemma input_action_is_registered_witness:
  "let doc = [Header ''input'', Setting ''jump'' ''{}''];
       t = input_action_literal half_dump half_dump (Fin (1 / 2)) [(new_event ''key'' ''InputEventKey'')\<lparr>ev_keycode := Some 32\<rparr>]
   in \<exists>w text. write_input_action_literal (config_text False doc) ''jump'' t = Inr (w, text) \<and>
    load_failure_of (scan_config text) = None \<and>
    registered (scan_config text) = (registered (scan_config (config_text False doc)))((''input'', ''jump'') \<mapsto> t)"
  unfolding Let_def
proof (rule input_action_is_registered)
  show "\<forall>d. is_finite d \<longrightarrow> number_text (half_dump d)" by (simp add: half_dump_number)
  show "list_all event_ok [(new_event ''key'' ''InputEventKey'')\<lparr>ev_keycode := Some 32\<rparr>]"
    by (simp add: event_ok_def key_event_ok_def new_event_def)
qed code_simp+

end
