(* ===== verification/Change_Journal.thy ===== *)
theory Change_Journal
  imports Utf8 Error_Data
begin

text \<open>
  The change journal, \<open>src/mcp/change_journal.cpp\<close>: what is redacted and bounded before an entry
  reaches the file, the entry a call becomes, and the bounded document the entries are kept in. The
  library's text of a value is the argument \<open>dump\<close> and the time an entry carries the argument
  \<open>moment\<close>. A member read as the wrong type throws, which is the left result.
\<close>

section \<open>Tables\<close>

definition k_format :: int where "k_format = 1"

definition k_max_entries :: nat where "k_max_entries = 200"

definition k_max_value_bytes :: nat where "k_max_value_bytes = 512"

definition k_max_entry_bytes :: nat where "k_max_entry_bytes = 4096"

definition envelope_keys :: "string list" where
  "envelope_keys =
     [''execution_mode'', ''is_live_engine'', ''session'', ''follow_up'', ''transport'', ''offline_reason'', ''status'',
      ''_meta'', ''limitation'', ''warnings'', ''confirmation'', ''recovery'']"

definition steering_arguments :: "string list" where
  "steering_arguments = [''confirmation_token'', ''dry_run'', ''_meta'', ''request_id'', ''fields'']"

definition target_keys :: "string list" where
  "target_keys =
     [''target_node'', ''node_path'', ''parent_path'', ''scene_path'', ''script_path'', ''path'', ''file_path'',
      ''save_path'', ''resource_path'', ''asset_path'', ''setting'', ''name'', ''action'', ''bus_name'', ''bus'',
      ''preset'', ''library_name'', ''group'', ''signal'', ''method_name'', ''property_name'', ''journal_entry'']"

definition written_file_keys :: "string list" where
  "written_file_keys =
     [''resource_file'', ''layout_path'', ''project_layout_path'', ''library_path'', ''written_to'', ''save_path'',
      ''output_path'', ''asset_path'', ''script_path'', ''file_path'']"

definition governed_value_keys :: "string list" where
  "governed_value_keys =
     [''value'', ''old_value'', ''previous'', ''previous_value'', ''before'', ''after'', ''new'', ''old'',
      ''requested_value'', ''current'', ''default'']"

definition name_keys :: "string list" where
  "name_keys = [''setting'', ''name'', ''property'', ''property_name'', ''key'']"

definition secret_words :: "string list" where
  "secret_words =
     [''password'', ''passwd'', ''passphrase'', ''secret'', ''token'', ''apikey'', ''api_key'', ''api-key'', ''privatekey'',
      ''private_key'', ''private-key'', ''credential'', ''authorization'', ''access_key'']"

section \<open>Redaction\<close>

definition lowered :: "string \<Rightarrow> string" where
  "lowered s = map tolower s"

definition is_secret_name :: "string \<Rightarrow> bool" where
  "is_secret_name key = list_ex (\<lambda>word. has_infix word (lowered key)) secret_words"

text \<open>Whether a name in the object names a secret, so that the values beside it are secrets.\<close>

definition governed_secret :: "(string \<times> json) list \<Rightarrow> bool" where
  "governed_secret m =
     list_ex (\<lambda>k. case kv_get m k of Some (JStr s) \<Rightarrow> is_secret_name s | _ \<Rightarrow> False) name_keys"

definition redacted :: json where
  "redacted = JStr ''[redacted]''"

fun redact_secrets :: "json \<Rightarrow> json"
  and redact_members :: "bool \<Rightarrow> (string \<times> json) list \<Rightarrow> (string \<times> json) list" where
  "redact_secrets (JArr xs) = JArr (map redact_secrets xs)"
| "redact_secrets (JObj m) = JObj (redact_members (governed_secret m) m)"
| "redact_secrets v = v"
| "redact_members governed [] = []"
| "redact_members governed ((k, v) # m) =
     (k, if is_secret_name k \<or> (governed \<and> k \<in> set governed_value_keys) then redacted else redact_secrets v)
     # redact_members governed m"

section \<open>Bounds\<close>

text \<open>\<open>utf8Prefix\<close>: back from the limit to a byte that begins a character.\<close>

fun prefix_end :: "string \<Rightarrow> nat \<Rightarrow> nat" where
  "prefix_end s 0 = 0"
| "prefix_end s (Suc n) = (if byte (s ! Suc n) AND 0xC0 = 0x80 then prefix_end s n else Suc n)"

definition utf8_prefix :: "string \<Rightarrow> nat \<Rightarrow> string" where
  "utf8_prefix s maximum = (if length s \<le> maximum then s else take (prefix_end s maximum) s)"

definition bounded_value :: "(json \<Rightarrow> string) \<Rightarrow> json \<Rightarrow> nat \<Rightarrow> json" where
  "bounded_value dump v maximum =
     (if length (dump v) \<le> maximum then v
      else jobj [(''truncated'', JBool True), (''bytes'', JUInt (length (dump v))), (''preview'', JStr (utf8_prefix (dump v) maximum))])"

definition without_keys :: "json \<Rightarrow> string list \<Rightarrow> json" where
  "without_keys v ks = (case v of JObj m \<Rightarrow> JObj (filter (\<lambda>e. fst e \<notin> set ks) m) | _ \<Rightarrow> v)"

definition bounded_members :: "(json \<Rightarrow> string) \<Rightarrow> json \<Rightarrow> nat \<Rightarrow> json" where
  "bounded_members dump v maximum =
     (case v of JObj m \<Rightarrow> JObj (map (\<lambda>(k, x). (k, bounded_value dump x maximum)) m) | _ \<Rightarrow> bounded_value dump v maximum)"

section \<open>The entry of a call\<close>

definition first_found :: "json \<Rightarrow> string list \<Rightarrow> json option" where
  "first_found v ks = (case filter (contains v) ks of [] \<Rightarrow> None | k # rest \<Rightarrow> jget v k)"

definition copied_members :: "json \<Rightarrow> string list \<Rightarrow> (string \<times> json) list" where
  "copied_members v ks = concat (map (\<lambda>k. case jget v k of None \<Rightarrow> [] | Some x \<Rightarrow> [(k, x)]) ks)"

definition write_before :: "json \<Rightarrow> json list" where
  "write_before w =
     (case (if is_object w then jget w ''old_value'' else None) of
        None \<Rightarrow> []
      | Some x \<Rightarrow> [jobj ((''old_value'', x) # copied_members w [''target_node'', ''property''])])"

definition before_of :: "json \<Rightarrow> json" where
  "before_of answer =
     (if \<not> is_object answer then JNull
      else
        let before = (case jget answer ''writes'' of Some (JArr ws) \<Rightarrow> concat (map write_before ws) | _ \<Rightarrow> [])
        in if before \<noteq> [] then JArr before
           else case first_found answer [''old_value'', ''before'', ''previous_value'', ''previous'', ''old''] of
                  None \<Rightarrow> JNull | Some x \<Rightarrow> x)"

definition scene_written :: "json \<Rightarrow> (json_exn, bool) result" where
  "scene_written answer =
     rbind (value_bool answer ''scene_saved'' False) (\<lambda>a.
       if a then Inr True
       else if contains answer ''file_bytes'' then Inr True
       else rbind (value_bool answer ''saved'' False) (\<lambda>b.
         if b then Inr True else value_bool answer ''created'' False))"

definition add_file :: "json list \<Rightarrow> json option \<Rightarrow> json list" where
  "add_file files v =
     (case v of
        Some (JStr s) \<Rightarrow> if s = [] \<or> JStr s \<in> set files then files else files @ [JStr s]
      | _ \<Rightarrow> files)"

definition listed_files :: "json \<Rightarrow> string \<Rightarrow> json list \<Rightarrow> json list" where
  "listed_files answer key files =
     (case jget answer key of
        Some (JArr xs) \<Rightarrow> foldl (\<lambda>fs x. add_file fs (if is_object x then jget x ''path'' else Some x)) files xs
      | _ \<Rightarrow> files)"

definition files_of :: "json \<Rightarrow> (json_exn, json) result" where
  "files_of answer =
     (if \<not> is_object answer then Inr (JArr [])
      else
        let named = foldl (\<lambda>fs k. add_file fs (jget answer k)) [] written_file_keys
        in rbind (scene_written answer) (\<lambda>written.
             let files = (if written then add_file named (jget answer ''scene_path'') else named)
             in Inr (JArr (listed_files answer ''written'' (listed_files answer ''updated_files'' files)))))"

record journal_call =
  jc_tool :: string
  jc_arguments :: json
  jc_answer :: json
  jc_succeeded :: bool
  jc_undo_steps :: json
  jc_execution_mode :: string
  jc_session_id :: string

text \<open>The first three target arguments that are single values, and the number of writes of a batch.\<close>

definition target_of :: "(json \<Rightarrow> string) \<Rightarrow> json \<Rightarrow> json" where
  "target_of dump arguments =
     (if \<not> is_object arguments then jobj []
      else
        let single = filter (\<lambda>e. \<not> is_object (snd e) \<and> \<not> is_array (snd e)) (copied_members arguments target_keys);
            chosen = map (\<lambda>(k, v). (k, bounded_value dump v 200)) (take 3 single)
        in jobj (chosen @ (case jget arguments ''writes'' of
                             Some (JArr ws) \<Rightarrow> [(''writes'', JUInt (length ws))] | _ \<Rightarrow> [])))"

definition call_failure :: "(json \<Rightarrow> string) \<Rightarrow> json \<Rightarrow> json" where
  "call_failure dump answer =
     (let error = (if is_object answer then answer else jobj []);
          failure = jobj [(''code'', member_or_null error ''code''),
                          (''message'', bounded_value dump (member_or_null error ''message'') 300)]
      in case jget error ''data'' of
           Some (JObj d) \<Rightarrow> (case jget (JObj d) ''code'' of None \<Rightarrow> failure | Some c \<Rightarrow> jput ''reason'' c failure)
         | _ \<Rightarrow> failure)"

definition outcome_members :: "(json \<Rightarrow> string) \<Rightarrow> journal_call \<Rightarrow> json \<Rightarrow> (json_exn, (string \<times> json) list) result" where
  "outcome_members dump call answer =
     (if jc_succeeded call then
        rbind (files_of answer) (\<lambda>files.
          Inr ((if before_of answer = JNull then [] else [(''before'', bounded_value dump (before_of answer) k_max_value_bytes)]) @
               [(''after'', bounded_members dump (without_keys answer envelope_keys) k_max_value_bytes), (''files'', files)]))
      else Inr [(''error'', call_failure dump answer), (''files'', JArr [])])"

definition scene_string :: "json \<Rightarrow> json option" where
  "scene_string v = (case (if is_object v then jget v ''scene_path'' else None) of Some (JStr s) \<Rightarrow> Some (JStr s) | _ \<Rightarrow> None)"

definition first_scene :: "json list \<Rightarrow> (string \<times> json) list" where
  "first_scene steps =
     (case filter (\<lambda>s. scene_string s \<noteq> None) steps of
        [] \<Rightarrow> [] | s # rest \<Rightarrow> [(''scene'', member_or_null s ''scene_path'')])"

definition undo_note :: "journal_call \<Rightarrow> string" where
  "undo_note call =
     (if jc_tool call = ''editor_undo'' \<or> jc_tool call = ''editor_redo''
      then ''An undo or redo moves the editor'' @ [CHR 0x27] @ ''s history; the other one reverses it.''
      else if jc_execution_mode call = ''live''
      then ''The call registered no step in the editor'' @ [CHR 0x27] @ ''s undo history.''
      else ''Written without an editor, so no undo history holds it.'')"

definition undo_members :: "journal_call \<Rightarrow> (string \<times> json) list" where
  "undo_members call =
     (if elements (jc_undo_steps call) \<noteq> [] then (''undo'', jc_undo_steps call) # first_scene (elements (jc_undo_steps call))
      else [(''undo'', JNull), (''undo_note'', JStr (undo_note call))])"

definition scene_members :: "journal_call \<Rightarrow> json \<Rightarrow> bool \<Rightarrow> (json_exn, (string \<times> json) list) result" where
  "scene_members call answer present =
     (if present \<or> \<not> is_object answer then Inr []
      else rbind (scene_written answer) (\<lambda>written.
        if written \<and> jc_tool call \<noteq> ''editor_save_scene'' then Inr []
        else Inr (case scene_string answer of None \<Rightarrow> [] | Some s \<Rightarrow> [(''scene'', s)])))"

definition undoes_members :: "journal_call \<Rightarrow> (string \<times> json) list" where
  "undoes_members call =
     (if jc_succeeded call \<and> jc_tool call = ''editor_undo'' \<and> is_object (jc_arguments call) then
        (case jget (jc_arguments call) ''journal_entry'' of
           Some x \<Rightarrow> if is_number_integer x then [(''undoes'', x)] else []
         | None \<Rightarrow> [])
      else [])"

text \<open>The last bound: values cut harder, one after the other, while the entry is too large.\<close>

fun cut_entry :: "(json \<Rightarrow> string) \<Rightarrow> string list \<Rightarrow> json \<Rightarrow> json" where
  "cut_entry dump [] entry = entry"
| "cut_entry dump (k # ks) entry =
     (let cut = (case jget entry k of None \<Rightarrow> entry | Some v \<Rightarrow> jput k (bounded_value dump v 600) entry)
      in if length (dump cut) \<le> k_max_entry_bytes then cut else cut_entry dump ks cut)"

definition bound_entry :: "(json \<Rightarrow> string) \<Rightarrow> json \<Rightarrow> json" where
  "bound_entry dump entry =
     (if length (dump entry) > k_max_entry_bytes then cut_entry dump [''after'', ''arguments'', ''before''] entry else entry)"

definition entry_for :: "(json \<Rightarrow> string) \<Rightarrow> journal_call \<Rightarrow> (json_exn, json) result" where
  "entry_for dump call =
     (let arguments = redact_secrets (without_keys (jc_arguments call) steering_arguments);
          answer = redact_secrets (jc_answer call);
          head = [(''tool'', JStr (jc_tool call)), (''outcome'', JStr (if jc_succeeded call then ''applied'' else ''failed''))] @
                 (if jc_execution_mode call = [] then [] else [(''execution_mode'', JStr (jc_execution_mode call))]) @
                 (if jc_session_id call = [] then [] else [(''session'', JStr (jc_session_id call))]) @
                 [(''target'', target_of dump arguments), (''arguments'', bounded_members dump arguments k_max_value_bytes)];
          undo = undo_members call
      in rbind (outcome_members dump call answer) (\<lambda>outcome.
         rbind (scene_members call answer (list_ex (\<lambda>e. fst e = ''scene'') undo)) (\<lambda>scene.
           Inr (bound_entry dump (jobj (head @ outcome @ undo @ scene @ undoes_members call))))))"

section \<open>The document\<close>

definition empty_document :: json where
  "empty_document = jobj [(''format'', JInt k_format), (''next_id'', JInt 1), (''dropped'', JInt 0), (''entries'', JArr [])]"

definition unreadable :: "string \<Rightarrow> refusal" where
  "unreadable msg = \<lparr>err_code = 500, err_message = msg, err_data = jobj [(''code'', JStr ''journal_unreadable'')]\<rparr>"

definition newer_format :: "int \<Rightarrow> refusal" where
  "newer_format f =
     \<lparr>err_code = 409,
      err_message = ''The journal is in format '' @ dec_int f @ '', newer than the format '' @ dec_int k_format @
        '' this server writes. It was left as it is.'',
      err_data = jobj [(''code'', JStr ''journal_format_newer'')]\<rparr>"

text \<open>\<open>None\<close> is a text the library's parser discards.\<close>

definition parse_document :: "json option \<Rightarrow> (refusal, json) result" where
  "parse_document parsed =
     (case parsed of
        Some (JObj m) \<Rightarrow>
          let doc = JObj m; format = member_or_null doc ''format''
          in if \<not> is_number_integer format then Inl (unreadable ''The journal names no format.'')
             else if int64_of format > k_format then Inl (newer_format (int64_of format))
             else if \<not> is_array (member_or_null doc ''entries'') \<or> \<not> is_number_integer (member_or_null doc ''next_id'')
             then Inl (unreadable ''The journal has no entries list or next id.'')
             else if \<not> is_number_integer (member_or_null doc ''dropped'') then Inr (jput ''dropped'' (JInt 0) doc)
             else Inr doc
      | _ \<Rightarrow> Inl (unreadable ''The journal is not a JSON object.''))"

text \<open>\<open>value(key, int64_t)\<close>: a double loses its fraction.\<close>

fun int_of_number :: "json \<Rightarrow> int" where
  "int_of_number (JFloat (Fin r)) = rat_trunc r"
| "int_of_number v = int64_of v"

definition value_int :: "json \<Rightarrow> string \<Rightarrow> int \<Rightarrow> (json_exn, int) result" where
  "value_int v k d =
     (if \<not> is_object v then Inl Type_Error
      else case jget v k of
             None \<Rightarrow> Inr d
           | Some x \<Rightarrow> if is_number x then Inr (int_of_number x) else Inl Type_Error)"

fun mark_undone :: "int \<Rightarrow> int \<Rightarrow> json list \<Rightarrow> (json_exn, json list) result" where
  "mark_undone undone ident [] = Inr []"
| "mark_undone undone ident (e # es) =
     rbind (value_int e ''id'' 0) (\<lambda>i.
     rbind (mark_undone undone ident es) (\<lambda>rest.
       Inr ((if i = undone then jput ''undone_by'' (JInt ident) e else e) # rest)))"

definition marked_entries :: "json \<Rightarrow> int \<Rightarrow> json list \<Rightarrow> (json_exn, json list) result" where
  "marked_entries entry ident es =
     (case jget entry ''undoes'' of
        Some u \<Rightarrow> if is_number_integer u then mark_undone (int64_of u) ident es else Inr es
      | None \<Rightarrow> Inr es)"

text \<open>The document with one more entry, and the entry as it is stored.\<close>

definition append_document :: "json \<Rightarrow> string \<Rightarrow> json \<Rightarrow> (json_exn, json \<times> json) result" where
  "append_document doc moment entry =
     rbind (value_int doc ''next_id'' 1) (\<lambda>next.
       let ident = max next 1; stored = jput ''at'' (JStr moment) (jput ''id'' (JInt ident) entry)
       in rbind (marked_entries stored ident (elements (member_or_null doc ''entries''))) (\<lambda>es.
            let extended = es @ [stored]; excess = length extended - k_max_entries
            in rbind (if excess = 0 then Inr doc
                      else rbind (value_int doc ''dropped'' 0) (\<lambda>n. Inr (jput ''dropped'' (JInt (n + int excess)) doc)))
                 (\<lambda>counted.
                    Inr (jput ''next_id'' (JInt (ident + 1)) (jput ''entries'' (JArr (drop excess extended)) counted), stored))))"

datatype journal_file = No_Journal | Journal_Text "json option"

text \<open>
  \<open>append\<close> under the lock: the document to write and whether the file was moved aside for it, or
  the refusal. \<open>stamp\<close> names the file a damaged journal is kept in.
\<close>

definition recovered :: "string \<Rightarrow> string \<Rightarrow> refusal \<Rightarrow> json" where
  "recovered stamp moment e =
     jput ''recovered'' (jobj [(''moved_to'', JStr (''journal.unreadable-'' @ stamp @ ''.json'')), (''reason'', JStr (err_message e)),
       (''at'', JStr moment)]) empty_document"

definition document_to_extend :: "journal_file \<Rightarrow> string \<Rightarrow> string \<Rightarrow> (refusal, json \<times> bool) result" where
  "document_to_extend file stamp moment =
     (case file of
        No_Journal \<Rightarrow> Inr (empty_document, False)
      | Journal_Text parsed \<Rightarrow>
          (case parse_document parsed of
             Inr doc \<Rightarrow> Inr (doc, False)
           | Inl e \<Rightarrow> if err_code e = 409 then Inl e else Inr (recovered stamp moment e, True)))"

text \<open>The document an append leaves in the file, and the entry it answers with.\<close>

definition append_journal :: "journal_file \<Rightarrow> string \<Rightarrow> string \<Rightarrow> json \<Rightarrow> (json_exn, (refusal, json \<times> json) result) result" where
  "append_journal file stamp moment entry =
     (case document_to_extend file stamp moment of
        Inl e \<Rightarrow> Inr (Inl e)
      | Inr (doc, moved) \<Rightarrow> rbind (append_document doc moment entry) (\<lambda>written. Inr (Inr written)))"

definition load_document :: "journal_file \<Rightarrow> (refusal, json) result" where
  "load_document file = (case file of No_Journal \<Rightarrow> Inr empty_document | Journal_Text parsed \<Rightarrow> parse_document parsed)"

fun entry_with_id :: "int \<Rightarrow> json list \<Rightarrow> (json_exn, json option) result" where
  "entry_with_id ident [] = Inr None"
| "entry_with_id ident (e # es) =
     rbind (value_int e ''id'' 0) (\<lambda>i. if i = ident then Inr (Some e) else entry_with_id ident es)"

definition entry_dropped :: "int \<Rightarrow> int \<Rightarrow> refusal" where
  "entry_dropped ident oldest =
     \<lparr>err_code = 404,
      err_message = ''Journal entry '' @ dec_int ident @ '' was dropped: the journal keeps the last '' @ dec k_max_entries @
        '' entries, and the oldest now is '' @ dec_int oldest @ ''.'',
      err_data = jobj [(''code'', JStr ''journal_entry_not_found''), (''oldest_entry'', JInt oldest)]\<rparr>"

definition entry_unknown :: "int \<Rightarrow> int \<Rightarrow> refusal" where
  "entry_unknown ident next =
     \<lparr>err_code = 404, err_message = ''No journal entry '' @ dec_int ident @ '' exists in this project.'',
      err_data = jobj [(''code'', JStr ''journal_entry_not_found''), (''next_entry'', JInt next)]\<rparr>"

definition find_entry :: "json \<Rightarrow> int \<Rightarrow> (json_exn, (refusal, json) result) result" where
  "find_entry doc ident =
     (let es = elements (member_or_null doc ''entries'')
      in rbind (entry_with_id ident es) (\<lambda>found.
           case found of
             Some e \<Rightarrow> Inr (Inr e)
           | None \<Rightarrow>
               rbind (value_int doc ''next_id'' 1) (\<lambda>next.
               rbind (if es = [] then Inr next else value_int (hd es) ''id'' next) (\<lambda>oldest.
                 Inr (Inl (if 1 \<le> ident \<and> ident < oldest then entry_dropped ident oldest else entry_unknown ident next))))))"


section \<open>The view\<close>

text \<open>
  \<open>value(key, int)\<close>, which reads a number as 32 bits, and \<open>view\<close>. \<open>session_kind\<close> is the kind the
  attached session's descriptor states, if there is one, and \<open>send\<close> is the editor's answer to the
  one request that judges every reference.
\<close>

definition value_int32 :: "json \<Rightarrow> string \<Rightarrow> int \<Rightarrow> (json_exn, int) result" where
  "value_int32 v k d =
     (if \<not> is_object v then Inl Type_Error else case jget v k of None \<Rightarrow> Inr d | Some x \<Rightarrow> get_int x)"

definition member_of :: "json \<Rightarrow> string \<Rightarrow> (json_exn, json) result" where
  "member_of v k = (if is_object v then Inr (member_or_null v k) else Inl Type_Error)"

fun references :: "json list \<Rightarrow> (json_exn, json list) result" where
  "references [] = Inr []"
| "references (e # es) =
     rbind (member_of e ''undo'') (\<lambda>undo. rbind (references es) (\<lambda>rest. Inr (elements undo @ rest)))"

definition not_judged :: "string \<Rightarrow> json" where
  "not_judged why = jobj [(''judged'', JBool False), (''reason'', JStr why)]"

text \<open>The states of the references, if the editor judged them, and what the view says of it.\<close>

definition judge ::
  "string option \<Rightarrow> (json list \<Rightarrow> (refusal, json) result) \<Rightarrow> json list \<Rightarrow> (json_exn, json list option \<times> json) result" where
  "judge session_kind send refs =
     (if refs = [] then Inr (None, not_judged ''No listed entry has an undo reference.'')
      else case session_kind of
        None \<Rightarrow> Inr (None, not_judged ''No editor is attached to judge the entries against.'')
      | Some kind \<Rightarrow>
          if kind \<noteq> ''editor'' then Inr (None, not_judged ''The attached session is a game, which has no editor history.'')
          else case send refs of
            Inl e \<Rightarrow> Inr (None, not_judged (''The editor did not judge them: '' @ err_message e))
          | Inr answer \<Rightarrow>
              rbind (member_of answer ''states'') (\<lambda>states.
                if is_array states \<and> length (elements states) = length refs
                then Inr (Some (elements states), jobj [(''judged'', JBool True), (''run'', member_or_null answer ''run'')])
                else Inr (None, not_judged (''The editor'' @ [CHR 0x27] @ ''s answer did not judge every reference.''))))"

text \<open>\<open>state["steps"] = steps\<close>: null becomes an object, any other value that is not one throws.\<close>

definition with_steps :: "json list \<Rightarrow> json \<Rightarrow> (json_exn, json) result" where
  "with_steps steps state =
     (case state of
        JObj m \<Rightarrow> Inr (jput ''steps'' (JArr steps) state)
      | JNull \<Rightarrow> Inr (jobj [(''steps'', JArr steps)])
      | _ \<Rightarrow> Inl Type_Error)"

definition entry_undo_state :: "json \<Rightarrow> json list option \<Rightarrow> nat \<Rightarrow> json \<Rightarrow> (json_exn, json) result" where
  "entry_undo_state judged states first_ref entry =
     (let undo = elements (member_or_null entry ''undo'')
      in if undo = [] then
           rbind (value_string entry ''undo_note'' []) (\<lambda>note. Inr (jobj [(''state'', JStr ''none''), (''reason'', JStr note)]))
         else case states of
           Some all_states \<Rightarrow>
             (let steps = take (length undo) (drop first_ref all_states)
              in if length undo > 1 then with_steps steps (last steps) else Inr (last steps))
         | None \<Rightarrow>
             rbind (value_string judged ''reason'' []) (\<lambda>why. Inr (jobj [(''state'', JStr ''unknown''), (''reason'', JStr why)])))"

definition compact_row :: "json \<Rightarrow> json \<Rightarrow> (json_exn, json) result" where
  "compact_row entry state =
     rbind (value_string state ''state'' ''none'') (\<lambda>undo.
       Inr (jobj (copied_members entry [''id'', ''at'', ''tool'', ''outcome'', ''target'', ''scene'', ''undone_by''] @
                  [(''undo'', JStr undo)])))"

definition viewed_entry :: "bool \<Rightarrow> json \<Rightarrow> json \<Rightarrow> (json_exn, json) result" where
  "viewed_entry brief entry state = (if brief then compact_row entry state else Inr (jput ''undo_state'' state entry))"

fun viewed_entries :: "json \<Rightarrow> json list option \<Rightarrow> bool \<Rightarrow> nat \<Rightarrow> json list \<Rightarrow> (json_exn, json list) result" where
  "viewed_entries judged states brief first_ref [] = Inr []"
| "viewed_entries judged states brief first_ref (e # es) =
     rbind (member_of e ''undo'') (\<lambda>undo.
     rbind (entry_undo_state judged states first_ref e) (\<lambda>state.
     rbind (viewed_entry brief e state) (\<lambda>row.
     rbind (viewed_entries judged states brief (first_ref + length (elements undo)) es) (\<lambda>rows. Inr (row # rows)))))"

definition unreadable_view :: "refusal \<Rightarrow> json" where
  "unreadable_view e =
     jobj [(''entries'', JArr []), (''total'', JInt 0), (''truncated'', JBool False), (''status'', JStr ''unreadable''),
       (''error'', jobj [(''code'', JInt (err_code e)), (''message'', JStr (err_message e)),
         (''reason'', if is_object (err_data e) then member_or_null (err_data e) ''code'' else JNull)])]"

definition journal_view ::
  "journal_file \<Rightarrow> string option \<Rightarrow> (json list \<Rightarrow> (refusal, json) result) \<Rightarrow> nat \<Rightarrow> bool \<Rightarrow> (json_exn, json) result" where
  "journal_view file session_kind send bound brief =
     (case load_document file of
        Inl e \<Rightarrow> Inr (unreadable_view e)
      | Inr doc \<Rightarrow>
          (let es = elements (member_or_null doc ''entries''); newest = take bound (rev es)
           in rbind (value_int32 doc ''dropped'' 0) (\<lambda>dropped.
              rbind (value_int32 doc ''next_id'' 1) (\<lambda>next.
              rbind (references newest) (\<lambda>refs.
              rbind (judge session_kind send refs) (\<lambda>(states, judged).
              rbind (viewed_entries judged states brief 0 newest) (\<lambda>rows.
                Inr (jobj ([(''total'', JUInt (length es)), (''dropped'', JInt dropped), (''next_id'', JInt next)] @
                           copied_members doc [''recovered''] @
                           [(''truncated'', JBool (length es > length newest)), (''editor'', judged),
                            (''entries'', JArr rows)]))))))))) "

lemma kv_ok_members_jput [simp]: "kv_ok (members v) \<Longrightarrow> kv_ok (members (jput k x v))"
  by (cases v) auto

text \<open>The last bound cuts three members; every other one stays whole, whatever its size.\<close>

lemma last_bound_keeps_members:
  assumes "is_object e" "kv_ok (members e)" "k \<notin> {''after'', ''arguments'', ''before''}"
  shows "jget (bound_entry dump e) k = jget e k"
proof -
  have "k \<notin> set ks \<Longrightarrow> is_object v \<Longrightarrow> kv_ok (members v) \<Longrightarrow> jget (cut_entry dump ks v) k = jget v k" for ks v
  proof (induction ks arbitrary: v)
    case (Cons j ks)
    define w where "w = (case jget v j of None \<Rightarrow> v | Some x \<Rightarrow> jput j (bounded_value dump x 600) v)"
    have "is_object w" "kv_ok (members w)" "jget w k = jget v k"
      using Cons.prems by (auto simp: w_def jget_jput split: option.splits)
    then show ?case
      using Cons by (simp add: w_def [symmetric] Let_def)
  qed simp
  then show ?thesis
    using assms by (simp add: bound_entry_def del: cut_entry.simps)
qed

section \<open>Redaction hides the secrets and nothing else\<close>

text \<open>
  Two values that differ at most in their secrets: in the value of a member whose key names one, and
  in a value beside a name that names one.
\<close>

fun alike :: "json \<Rightarrow> json \<Rightarrow> bool"
  and all_alike :: "json list \<Rightarrow> json list \<Rightarrow> bool"
  and members_alike :: "bool \<Rightarrow> (string \<times> json) list \<Rightarrow> (string \<times> json) list \<Rightarrow> bool" where
  "alike (JArr xs) b = (case b of JArr ys \<Rightarrow> all_alike xs ys | _ \<Rightarrow> False)"
| "alike (JObj m) b = (case b of JObj n \<Rightarrow> members_alike (governed_secret m) m n | _ \<Rightarrow> False)"
| "alike a b = (a = b)"
| "all_alike [] ys = (ys = [])"
| "all_alike (x # xs) ys = (case ys of [] \<Rightarrow> False | y # ys' \<Rightarrow> alike x y \<and> all_alike xs ys')"
| "members_alike governed [] n = (n = [])"
| "members_alike governed ((k, x) # m) n =
     (case n of [] \<Rightarrow> False
      | (j, y) # n' \<Rightarrow> k = j \<and> (is_secret_name k \<or> (governed \<and> k \<in> set governed_value_keys) \<or> alike x y) \<and>
                    members_alike governed m n')"

lemma redact_members_keys [simp]: "keys (redact_members governed m) = keys m"
  by (induction m) auto

lemma name_keys_open_all: "list_all (\<lambda>k. \<not> is_secret_name k \<and> k \<notin> set governed_value_keys) name_keys"
  by code_simp

lemma name_keys_are_open: "k \<in> set name_keys \<Longrightarrow> \<not> is_secret_name k \<and> k \<notin> set governed_value_keys"
  using name_keys_open_all by (simp add: list_all_iff)

lemma redact_members_get:
  "kv_get (redact_members governed m) k =
     (case kv_get m k of None \<Rightarrow> None
      | Some v \<Rightarrow> Some (if is_secret_name k \<or> (governed \<and> k \<in> set governed_value_keys) then redacted else redact_secrets v))"
  by (induction m) (auto split: option.splits if_splits)

lemma redact_is_leaf [simp]:
  "JNull = redact_secrets v \<longleftrightarrow> v = JNull" "JBool b = redact_secrets v \<longleftrightarrow> v = JBool b"
  "JInt i = redact_secrets v \<longleftrightarrow> v = JInt i" "JUInt u = redact_secrets v \<longleftrightarrow> v = JUInt u"
  "JFloat d = redact_secrets v \<longleftrightarrow> v = JFloat d" "JStr s = redact_secrets v \<longleftrightarrow> v = JStr s"
  by (cases v; auto)+

lemma redact_members_empty [simp]: "[] = redact_members governed m \<longleftrightarrow> m = []"
  using redact_members_keys [of governed m] by (cases m) auto

lemma governed_secret_redact [simp]: "governed_secret (redact_members governed m) = governed_secret m"
proof -
  have "(case kv_get (redact_members governed m) k of Some (JStr s) \<Rightarrow> is_secret_name s | _ \<Rightarrow> False) =
        (case kv_get m k of Some (JStr s) \<Rightarrow> is_secret_name s | _ \<Rightarrow> False)" if k: "k \<in> set name_keys" for k
    using name_keys_are_open [OF k]
    by (cases "kv_get m k"; cases "the (kv_get m k)") (auto simp: redact_members_get)
  then show ?thesis
    unfolding governed_secret_def list_ex_iff by auto
qed

lemma redact_idem:
  "redact_secrets (redact_secrets v) = redact_secrets v"
  "redact_members governed (redact_members governed m) = redact_members governed m"
  by (induction v and governed m rule: redact_secrets_redact_members.induct)
     (auto simp: redacted_def)

text \<open>Alike values are those the redaction makes equal.\<close>

lemma alike_get:
  "members_alike governed m n \<Longrightarrow> k \<in> set name_keys \<Longrightarrow>
     (case kv_get m k of Some (JStr s) \<Rightarrow> is_secret_name s | _ \<Rightarrow> False) =
     (case kv_get n k of Some (JStr s) \<Rightarrow> is_secret_name s | _ \<Rightarrow> False)"
proof (induction m arbitrary: n)
  case (Cons e m)
  obtain j x where e: "e = (j, x)" by (cases e)
  then obtain y n' where n: "n = (j, y) # n'"
    using Cons.prems by (cases n) auto
  show ?case
  proof (cases "j = k")
    case True
    then have "alike x y"
      using Cons.prems name_keys_are_open [OF Cons.prems(2)] by (auto simp: e n)
    then show ?thesis
      using True by (cases x; cases y) (auto simp: e n)
  next
    case False
    then show ?thesis
      using Cons by (auto simp: e n)
  qed
qed simp

lemma governed_alike: "members_alike governed m n \<Longrightarrow> governed_secret m = governed_secret n"
  unfolding governed_secret_def list_ex_iff using alike_get by blast

lemma redact_alike:
  "alike a b \<Longrightarrow> redact_secrets a = redact_secrets b"
  "all_alike xs ys \<Longrightarrow> map redact_secrets xs = map redact_secrets ys"
  "members_alike governed m n \<Longrightarrow> redact_members governed m = redact_members governed n"
proof (induction a b and xs ys and governed m n rule: alike_all_alike_members_alike.induct)
  case (2 m b)
  then show ?case
    by (cases b) (auto dest: governed_alike)
qed (auto split: json.splits list.splits)

lemma alike_redact:
  "redact_secrets a = redact_secrets b \<Longrightarrow> alike a b"
  "map redact_secrets xs = map redact_secrets ys \<Longrightarrow> all_alike xs ys"
  "redact_members governed m = redact_members governed n \<Longrightarrow> members_alike governed m n"
proof (induction a b and xs ys and governed m n rule: alike_all_alike_members_alike.induct)
  case (2 m b)
  show ?case
  proof (cases b)
    case (JObj n)
    then have "redact_members (governed_secret m) m = redact_members (governed_secret n) n"
      using 2 by simp
    moreover from this have "governed_secret m = governed_secret n"
      using governed_secret_redact by metis
    ultimately show ?thesis
      using 2 JObj by simp
  qed (use 2 in simp_all)
next
  case (7 governed k x m n)
  show ?case
  proof (cases n)
    case (Cons e n')
    obtain j y where e: "e = (j, y)" by (cases e)
    have same: "redact_secrets x = redact_secrets y \<Longrightarrow> alike x y"
      "redact_members governed m = redact_members governed n' \<Longrightarrow> members_alike governed m n'"
      using 7(1,2) [OF Cons e [symmetric]] by blast+
    show ?thesis
      using 7(3) same by (auto simp: Cons e split: if_splits)
  qed (use 7 in simp)
qed (auto split: json.splits list.splits)

lemma members_alike_filter:
  "members_alike governed m n \<Longrightarrow> members_alike governed (filter (\<lambda>e. P (fst e)) m) (filter (\<lambda>e. P (fst e)) n)"
proof (induction m arbitrary: n)
  case (Cons e m)
  then show ?case
    by (cases e; cases n) auto
qed simp

lemma governed_filter:
  "list_all P name_keys \<Longrightarrow> governed_secret (filter (\<lambda>e. P (fst e)) m) = governed_secret m"
proof -
  assume P: "list_all P name_keys"
  have "kv_get (filter (\<lambda>e. P (fst e)) m) k = kv_get m k" if "P k" for k
    using that by (induction m) auto
  then show ?thesis
    using P unfolding governed_secret_def list_ex_iff list_all_iff by simp
qed

lemma alike_without_steering:
  assumes "alike a b"
  shows "redact_secrets (without_keys a steering_arguments) = redact_secrets (without_keys b steering_arguments)"
proof (cases a)
  case (JObj m)
  then obtain n where b: "b = JObj n" and m: "members_alike (governed_secret m) m n"
    using assms by (cases b) auto
  have names: "list_all (\<lambda>k. k \<notin> set steering_arguments) name_keys"
    by code_simp
  show ?thesis
    using members_alike_filter [OF m, of "\<lambda>k. k \<notin> set steering_arguments"] governed_alike [OF m]
    by (simp add: without_keys_def JObj b governed_filter [OF names] redact_alike(3))
next
  case (JArr xs)
  then show ?thesis
    using assms by (cases b) (auto simp: without_keys_def redact_alike(2))
qed (use assms in \<open>simp_all add: without_keys_def\<close>)

lemma alike_member:
  "members_alike governed m n \<Longrightarrow> \<not> is_secret_name k \<Longrightarrow> k \<notin> set governed_value_keys \<Longrightarrow>
     rel_option alike (kv_get m k) (kv_get n k)"
proof (induction m arbitrary: n)
  case (Cons e m)
  then show ?case
    by (cases e; cases n) auto
qed simp

lemma journal_entry_open: "\<not> is_secret_name ''journal_entry'' \<and> ''journal_entry'' \<notin> set governed_value_keys"
  by code_simp

lemma alike_integer: "alike x y \<Longrightarrow> is_number_integer x \<or> is_number_integer y \<Longrightarrow> x = y"
  by (cases x; cases y) auto

lemma alike_undoes:
  assumes "alike a b" "jc_succeeded c = jc_succeeded d" "jc_tool c = jc_tool d" "jc_arguments c = a" "jc_arguments d = b"
  shows "undoes_members c = undoes_members d"
proof (cases "\<exists>m. a = JObj m")
  case True
  then obtain m n where ab: "a = JObj m" "b = JObj n" "members_alike (governed_secret m) m n"
    using assms(1) by (cases b) auto
  show ?thesis
    using alike_member [OF ab(3), of "''journal_entry''"] journal_entry_open assms(2-5) ab
    by (auto simp: undoes_members_def jget_def elim!: option.rel_cases split: option.splits dest: alike_integer)
next
  case False
  then show ?thesis
    using assms by (cases a; cases b) (auto simp: undoes_members_def)
qed

lemma entry_for_alike:
  assumes "alike (jc_arguments c) (jc_arguments d)" "alike (jc_answer c) (jc_answer d)"
    and "d = c\<lparr>jc_arguments := jc_arguments d, jc_answer := jc_answer d\<rparr>"
  shows "entry_for dump c = entry_for dump d"
proof -
  have d: "jc_tool d = jc_tool c" "jc_succeeded d = jc_succeeded c" "jc_undo_steps d = jc_undo_steps c"
    "jc_execution_mode d = jc_execution_mode c" "jc_session_id d = jc_session_id c"
    by (subst assms(3), simp)+
  have undo: "undo_members d = undo_members c"
    by (simp add: undo_members_def undo_note_def d)
  have undoes: "undoes_members c = undoes_members d"
    by (rule alike_undoes [OF assms(1)]) (simp_all add: d)
  have redacted_same: "redact_secrets (jc_answer c) = redact_secrets (jc_answer d)"
    "redact_secrets (without_keys (jc_arguments c) steering_arguments) =
     redact_secrets (without_keys (jc_arguments d) steering_arguments)"
    using assms(1,2) by (auto intro: redact_alike(1) alike_without_steering)
  show ?thesis
    unfolding entry_for_def Let_def outcome_members_def scene_members_def d undo undoes redacted_same ..
qed

section \<open>The document is kept\<close>

definition number_at :: "json \<Rightarrow> string \<Rightarrow> int" where
  "number_at v k = int64_of (member_or_null v k)"

definition entries_of :: "json \<Rightarrow> json list" where
  "entries_of doc = elements (member_or_null doc ''entries'')"

definition journal_entry_ok :: "json \<Rightarrow> bool" where
  "journal_entry_ok e = (is_object e \<and> kv_ok (members e) \<and> is_number_integer (member_or_null e ''id''))"

text \<open>
  What every append finds and leaves: at most 200 entries whose ids run without a hole up to the
  next id, and the ones before them counted as dropped.
\<close>

definition journal_ok :: "json \<Rightarrow> bool" where
  "journal_ok doc =
     (is_object doc \<and> kv_ok (members doc) \<and>
      is_number_integer (member_or_null doc ''format'') \<and> number_at doc ''format'' \<le> k_format \<and>
      is_number_integer (member_or_null doc ''next_id'') \<and> is_number_integer (member_or_null doc ''dropped'') \<and>
      is_array (member_or_null doc ''entries'') \<and> list_all journal_entry_ok (entries_of doc) \<and>
      length (entries_of doc) \<le> k_max_entries \<and> 0 \<le> number_at doc ''dropped'' \<and>
      number_at doc ''next_id'' = number_at doc ''dropped'' + int (length (entries_of doc)) + 1 \<and>
      map (\<lambda>e. number_at e ''id'') (entries_of doc) = [number_at doc ''dropped'' + 1 .. number_at doc ''next_id'' - 1])"

lemma member_or_null_jput:
  "is_object v \<Longrightarrow> kv_ok (members v) \<Longrightarrow> member_or_null (jput k x v) j = (if j = k then x else member_or_null v j)"
  by (simp add: member_or_null_def jget_jput)

lemma number_at_jput:
  "is_object v \<Longrightarrow> kv_ok (members v) \<Longrightarrow> number_at (jput k x v) j = (if j = k then int64_of x else number_at v j)"
  by (simp add: number_at_def member_or_null_jput)

lemma value_int_number:
  "is_object v \<Longrightarrow> is_number_integer (member_or_null v k) \<Longrightarrow> value_int v k d = Inr (number_at v k)"
  by (auto simp: value_int_def number_at_def member_or_null_def elim: is_number_integer.elims split: option.splits)

definition mark :: "int \<Rightarrow> int \<Rightarrow> json \<Rightarrow> json" where
  "mark undone ident e = (if number_at e ''id'' = undone then jput ''undone_by'' (JInt ident) e else e)"

lemma mark_undone_map:
  "list_all journal_entry_ok es \<Longrightarrow> mark_undone undone ident es = Inr (map (mark undone ident) es)"
  by (induction es) (auto simp: journal_entry_ok_def value_int_number mark_def)

lemma mark_keeps: "journal_entry_ok e \<Longrightarrow> journal_entry_ok (mark undone ident e) \<and> number_at (mark undone ident e) ''id'' = number_at e ''id''"
  by (auto simp: mark_def journal_entry_ok_def number_at_jput member_or_null_jput)

text \<open>The entries an append leaves before the bound, the new one last.\<close>

definition marks :: "json \<Rightarrow> int \<Rightarrow> json \<Rightarrow> json" where
  "marks entry ident =
     (if is_number_integer (member_or_null entry ''undoes'') then mark (number_at entry ''undoes'') ident else (\<lambda>e. e))"

lemma marked_entries_map:
  "list_all journal_entry_ok es \<Longrightarrow> marked_entries entry ident es = Inr (map (marks entry ident) es)"
  by (auto simp: marked_entries_def marks_def mark_undone_map member_or_null_def number_at_def split: option.splits)

lemma marks_keeps:
  "journal_entry_ok e \<Longrightarrow> journal_entry_ok (marks entry ident e) \<and> number_at (marks entry ident e) ''id'' = number_at e ''id''"
  by (simp add: marks_def mark_keeps)

definition stored_entry :: "json \<Rightarrow> string \<Rightarrow> json \<Rightarrow> json" where
  "stored_entry doc moment entry = jput ''at'' (JStr moment) (jput ''id'' (JInt (number_at doc ''next_id'')) entry)"

definition extended_entries :: "json \<Rightarrow> string \<Rightarrow> json \<Rightarrow> json list" where
  "extended_entries doc moment entry =
     map (marks (stored_entry doc moment entry) (number_at doc ''next_id'')) (entries_of doc) @ [stored_entry doc moment entry]"

lemma stored_entry_ok:
  assumes "is_object entry" "kv_ok (members entry)"
  shows "journal_entry_ok (stored_entry doc moment entry)"
    and "number_at (stored_entry doc moment entry) ''id'' = number_at doc ''next_id''"
  using assms by (simp_all add: stored_entry_def journal_entry_ok_def number_at_jput member_or_null_jput)

lemma upto_drop: "drop n [i .. j] = [i + int n .. j]"
proof (induction n arbitrary: i)
  case (Suc n)
  then show ?case
    by (cases "i \<le> j") (simp_all add: upto.simps [of i j] algebra_simps)
qed simp

lemma extended_ids:
  assumes "journal_ok doc" "is_object entry" "kv_ok (members entry)"
  shows "list_all journal_entry_ok (extended_entries doc moment entry)"
    and "map (\<lambda>e. number_at e ''id'') (extended_entries doc moment entry) =
         [number_at doc ''dropped'' + 1 .. number_at doc ''next_id'']"
    and "length (extended_entries doc moment entry) = Suc (length (entries_of doc))"
proof -
  let ?n = "number_at doc ''next_id''" and ?d = "number_at doc ''dropped''"
  have doc: "list_all journal_entry_ok (entries_of doc)" "map (\<lambda>e. number_at e ''id'') (entries_of doc) = [?d + 1 .. ?n - 1]"
    "?d + 1 \<le> ?n"
    using assms(1) by (auto simp: journal_ok_def)
  then have "map (\<lambda>e. number_at (marks x i e) ''id'') (entries_of doc) = [?d + 1 .. ?n - 1]" for x i
    by (metis (no_types, lifting) list.map_cong0 list_all_iff marks_keeps)
  then show "map (\<lambda>e. number_at e ''id'') (extended_entries doc moment entry) = [?d + 1 .. ?n]"
    using doc stored_entry_ok [OF assms(2,3)] by (simp add: extended_entries_def comp_def upto_rec2)
  show "list_all journal_entry_ok (extended_entries doc moment entry)"
    using doc stored_entry_ok [OF assms(2,3)] by (auto simp: extended_entries_def list_all_iff marks_keeps)
qed (simp add: extended_entries_def)

definition kept_entries :: "json \<Rightarrow> string \<Rightarrow> json \<Rightarrow> json list" where
  "kept_entries doc moment entry =
     drop (length (extended_entries doc moment entry) - k_max_entries) (extended_entries doc moment entry)"

lemma parse_document_ok: "journal_ok doc \<Longrightarrow> parse_document (Some doc) = Inr doc"
  by (cases doc) (auto simp: journal_ok_def parse_document_def number_at_def)

lemma number_at_members:
  "is_object v \<Longrightarrow> kv_ok (members v) \<Longrightarrow> entries_of (jput k x v) = (if k = ''entries'' then elements x else entries_of v)"
  by (simp add: entries_of_def member_or_null_jput)

lemma append_document_ok:
  assumes doc: "journal_ok doc" and entry: "is_object entry" "kv_ok (members entry)"
  obtains doc' where "append_document doc moment entry = Inr (doc', stored_entry doc moment entry)" "journal_ok doc'"
    "entries_of doc' = kept_entries doc moment entry" "number_at doc' ''next_id'' = number_at doc ''next_id'' + 1"
    "number_at doc' ''dropped'' =
       number_at doc ''dropped'' + int (length (extended_entries doc moment entry) - k_max_entries)"
proof -
  let ?n = "number_at doc ''next_id''" and ?d = "number_at doc ''dropped''" and ?e = "extended_entries doc moment entry"
  let ?excess = "length ?e - k_max_entries"
  define counted where "counted = (if ?excess = 0 then doc else jput ''dropped'' (JInt (?d + int ?excess)) doc)"
  define doc' where "doc' = jput ''next_id'' (JInt (?n + 1)) (jput ''entries'' (JArr (drop ?excess ?e)) counted)"
  have base: "is_object doc" "kv_ok (members doc)" "is_number_integer (member_or_null doc ''next_id'')"
    "is_number_integer (member_or_null doc ''dropped'')" "1 \<le> ?n" "list_all journal_entry_ok (entries_of doc)"
    "0 \<le> ?d" "?n = ?d + int (length (entries_of doc)) + 1" "length (entries_of doc) \<le> k_max_entries"
    using doc by (auto simp: journal_ok_def)
  note ext = extended_ids [OF doc entry, of moment]
  have counted: "is_object counted" "kv_ok (members counted)" "number_at counted ''dropped'' = ?d + int ?excess"
    "is_number_integer (member_or_null counted ''dropped'')"
    "member_or_null counted ''format'' = member_or_null doc ''format''"
    using base by (auto simp: counted_def number_at_jput member_or_null_jput)
  have parts: "is_object doc'" "kv_ok (members doc')" "entries_of doc' = drop ?excess ?e"
    "number_at doc' ''next_id'' = ?n + 1" "number_at doc' ''dropped'' = ?d + int ?excess"
    "is_number_integer (member_or_null doc' ''next_id'')" "is_number_integer (member_or_null doc' ''dropped'')"
    "is_array (member_or_null doc' ''entries'')" "member_or_null doc' ''format'' = member_or_null doc ''format''"
    using counted by (simp_all add: doc'_def number_at_jput number_at_members member_or_null_jput)
  have ids: "map (\<lambda>e. number_at e ''id'') (drop ?excess ?e) =
      [number_at doc' ''dropped'' + 1 .. number_at doc' ''next_id'' - 1]"
    using ext(2) parts(4,5) by (simp add: drop_map [symmetric] upto_drop add.commute add.left_commute)
  have "list_all journal_entry_ok (drop ?excess ?e)"
    using ext(1) by (auto simp: list_all_iff dest: in_set_dropD)
  moreover have "length (drop ?excess ?e) \<le> k_max_entries" "?n + 1 = ?d + int ?excess + int (length (drop ?excess ?e)) + 1"
    using ext(3) base(8,9) by auto
  ultimately have "journal_ok doc'"
    unfolding journal_ok_def using doc parts ids base(7) by (simp add: journal_ok_def number_at_def [of _ "''format''"])
  moreover have "append_document doc moment entry = Inr (doc', stored_entry doc moment entry)"
    using base(1-4) marked_entries_map [OF base(6), of "stored_entry doc moment entry" ?n]
    by (simp add: append_document_def value_int_number Let_def max_absorb1 [OF base(5)] stored_entry_def [symmetric]
        entries_of_def [symmetric] extended_entries_def [symmetric] counted_def doc'_def
        del: drop_append length_append)
  ultimately show ?thesis
    using parts by (intro that) (simp_all add: kept_entries_def)
qed

section \<open>Entries are found by their ids\<close>

lemma entry_with_id_upto:
  "list_all journal_entry_ok es \<Longrightarrow> map (\<lambda>e. number_at e ''id'') es = [lo .. hi] \<Longrightarrow>
     entry_with_id i es = Inr (if lo \<le> i \<and> i \<le> hi then Some (es ! nat (i - lo)) else None)"
proof (induction es arbitrary: lo)
  case (Cons e es)
  have lo: "lo \<le> hi"
    using Cons.prems(2) by (cases "lo \<le> hi") auto
  then have parts: "number_at e ''id'' = lo" "map (\<lambda>e. number_at e ''id'') es = [lo + 1 .. hi]"
    using Cons.prems(2) by (simp_all add: upto_rec1)
  have "nat (i - lo) = Suc (nat (i - (lo + 1)))" if "lo + 1 \<le> i"
    using that by simp
  then show ?case
    using Cons parts lo by (auto simp: journal_entry_ok_def value_int_number)
next
  case Nil
  then have "hi < lo" by (metis list.map_disc_iff upto_Nil2)
  then show ?case by simp
qed

definition oldest_id :: "json \<Rightarrow> int" where
  "oldest_id doc = number_at doc ''dropped'' + 1"

lemma find_entry_ok:
  assumes "journal_ok doc"
  shows "find_entry doc i =
           Inr (if oldest_id doc \<le> i \<and> i < number_at doc ''next_id'' then Inr (entries_of doc ! nat (i - oldest_id doc))
                else Inl (if 1 \<le> i \<and> i < oldest_id doc then entry_dropped i (oldest_id doc)
                          else entry_unknown i (number_at doc ''next_id'')))"
proof -
  have doc: "is_object doc" "is_number_integer (member_or_null doc ''next_id'')" "list_all journal_entry_ok (entries_of doc)"
    "map (\<lambda>e. number_at e ''id'') (entries_of doc) = [oldest_id doc .. number_at doc ''next_id'' - 1]"
    "number_at doc ''next_id'' = oldest_id doc + int (length (entries_of doc))"
    using assms by (auto simp: journal_ok_def oldest_id_def)
  have head: "value_int (hd (entries_of doc)) ''id'' d = Inr (oldest_id doc)" if some: "entries_of doc \<noteq> []" for d
  proof -
    obtain e es where es: "entries_of doc = e # es" using some by (cases "entries_of doc") auto
    then show ?thesis
      using doc by (simp add: journal_entry_ok_def value_int_number upto_rec1)
  qed
  show ?thesis
    using entry_with_id_upto [OF doc(3,4), of i] doc head
    by (auto simp: find_entry_def entries_of_def [symmetric] value_int_number Let_def)
qed

lemma entry_for_is_entry:
  assumes "entry_for dump call = Inr e"
  shows "is_object e \<and> kv_ok (members e)"
proof -
  have cut: "is_object v \<Longrightarrow> kv_ok (members v) \<Longrightarrow> is_object (cut_entry dump ks v) \<and> kv_ok (members (cut_entry dump ks v))" for ks v
    by (induction ks arbitrary: v) (auto simp: Let_def split: option.splits)
  obtain es where e: "e = bound_entry dump (jobj es)"
    using assms unfolding entry_for_def Let_def rbind_Inr_iff by blast
  show ?thesis
    using cut [of "jobj es"] by (simp add: e bound_entry_def del: cut_entry.simps)
qed

lemma empty_journal_ok: "journal_ok empty_document"
  by code_simp

lemma kept_nth:
  assumes "journal_ok doc" "is_object entry" "kv_ok (members entry)"
    and e: "e = extended_entries doc moment entry" and n: "n = number_at doc ''next_id''"
    and i: "oldest_id doc + int (length e - k_max_entries) \<le> i" "i \<le> n"
  shows "kept_entries doc moment entry ! nat (i - (oldest_id doc + int (length e - k_max_entries))) = e ! nat (i - oldest_id doc)"
    and "e ! nat (i - oldest_id doc) =
           (if i = n then stored_entry doc moment entry
            else marks (stored_entry doc moment entry) n (entries_of doc ! nat (i - oldest_id doc)))"
proof -
  have len: "length e = Suc (length (entries_of doc))" "n = oldest_id doc + int (length (entries_of doc))"
    using extended_ids(3) [OF assms(1-3)] assms(1) by (auto simp: e n journal_ok_def oldest_id_def)
  define x where "x = length e - k_max_entries"
  have "x + nat (i - (oldest_id doc + int x)) = nat (i - oldest_id doc)" "nat (i - oldest_id doc) < length e"
    using i [folded x_def] len by (auto simp: nat_less_iff)
  then show "kept_entries doc moment entry ! nat (i - (oldest_id doc + int (length e - k_max_entries))) = e ! nat (i - oldest_id doc)"
    by (simp add: kept_entries_def e [symmetric] x_def [symmetric])
  show "e ! nat (i - oldest_id doc) =
          (if i = n then stored_entry doc moment entry
           else marks (stored_entry doc moment entry) n (entries_of doc ! nat (i - oldest_id doc)))"
    using i len by (auto simp: e extended_entries_def n [symmetric] nth_append)
qed

lemma append_then_find:
  assumes "journal_ok doc" "is_object entry" "kv_ok (members entry)"
    and "n = number_at doc ''next_id''" "oldest = max (oldest_id doc) (n + 1 - int k_max_entries)"
    and "stored = stored_entry doc moment entry"
  obtains doc' where "append_document doc moment entry = Inr (doc', stored)" "journal_ok doc'"
    "find_entry doc' n = Inr (Inr stored)"
    "\<And>i x. oldest \<le> i \<Longrightarrow> find_entry doc i = Inr (Inr x) \<Longrightarrow> find_entry doc' i = Inr (Inr (marks stored n x))"
    "\<And>i. 1 \<le> i \<Longrightarrow> i < oldest \<Longrightarrow> find_entry doc' i = Inr (Inl (entry_dropped i oldest))"
    "\<And>i. i < 1 \<or> n < i \<Longrightarrow> find_entry doc' i = Inr (Inl (entry_unknown i (n + 1)))"
proof -
  obtain doc' where doc': "append_document doc moment entry = Inr (doc', stored)" "journal_ok doc'"
    "entries_of doc' = kept_entries doc moment entry" "number_at doc' ''next_id'' = n + 1"
    "number_at doc' ''dropped'' = number_at doc ''dropped'' + int (length (extended_entries doc moment entry) - k_max_entries)"
    using append_document_ok [OF assms(1-3)] assms(4,6) by metis
  have len: "length (extended_entries doc moment entry) = Suc (length (entries_of doc))"
    "n = oldest_id doc + int (length (entries_of doc))" "1 \<le> oldest_id doc" "length (entries_of doc) \<le> k_max_entries"
    using extended_ids(3) [OF assms(1-3)] assms(1) by (auto simp: assms(4) journal_ok_def oldest_id_def)
  have oldest: "oldest_id doc' = oldest" "oldest = oldest_id doc + int (length (extended_entries doc moment entry) - k_max_entries)"
    "oldest \<le> n" "1 \<le> oldest"
    using len by (auto simp: oldest_id_def doc'(5) assms(5) k_max_entries_def)
  note nth = kept_nth [OF assms(1-3) refl assms(4)]
  note find' = find_entry_ok [OF doc'(2), unfolded oldest(1) doc'(3,4)]
  show ?thesis
  proof (rule that [OF doc'(1,2)])
    show "find_entry doc' n = Inr (Inr stored)"
      using nth [of moment n] oldest by (simp add: find' assms(6))
    show "find_entry doc' i = Inr (Inr (marks stored n x))" if "oldest \<le> i" "find_entry doc i = Inr (Inr x)" for i x
      using that nth [of moment i] oldest(2,3)
      by (simp add: find' find_entry_ok [OF assms(1)] assms(4) [symmetric] assms(6) split: if_splits)
    show "find_entry doc' i = Inr (Inl (entry_dropped i oldest))" if "1 \<le> i" "i < oldest" for i
      using that by (simp add: find')
    show "find_entry doc' i = Inr (Inl (entry_unknown i (n + 1)))" if "i < 1 \<or> n < i" for i
      using that oldest(3,4) by (auto simp: find')
  qed
qed

section \<open>Properties of the journal\<close>

text \<open>
  The redaction makes two values equal exactly when they differ at most in their secrets: it
  hides the value of every member whose key names a secret, and the values beside a name that
  names one, at every depth, and it hides nothing else.
\<close>

theorem redaction_hides_only_secrets: "redact_secrets a = redact_secrets b \<longleftrightarrow> alike a b"
  using redact_alike(1) alike_redact(1) by blast

text \<open>
  (C29) A secret in the arguments or the answer of a call does not influence what is recorded: two
  calls that are the same but for their secrets give the same entry, whatever text the library
  writes for a value, previews and sizes included.
\<close>

theorem secrets_stay_out:
  assumes "alike (jc_arguments c) (jc_arguments d)" "alike (jc_answer c) (jc_answer d)"
    and "d = c\<lparr>jc_arguments := jc_arguments d, jc_answer := jc_answer d\<rparr>"
  shows "entry_for dump c = entry_for dump d"
  using assms by (rule entry_for_alike)

definition setting_call :: "string \<Rightarrow> journal_call" where
  "setting_call s =
     \<lparr>jc_tool = ''project_set_setting'',
      jc_arguments = jobj [(''setting'', JStr ''services/api_token''), (''value'', JStr s), (''dry_run'', JBool False)],
      jc_answer = jobj [(''setting'', JStr ''services/api_token''), (''old_value'', JStr s), (''nested'', jobj [(''Password'', JStr s)])],
      jc_succeeded = True, jc_undo_steps = JArr [], jc_execution_mode = ''live'', jc_session_id = ''s1''\<rparr>"

theorem secrets_stay_out_witness: "\<forall>dump. entry_for dump (setting_call ''abc'') = entry_for dump (setting_call ''defgh'')"
proof -
  have "alike (jc_arguments (setting_call ''abc'')) (jc_arguments (setting_call ''defgh''))"
    "alike (jc_answer (setting_call ''abc'')) (jc_answer (setting_call ''defgh''))"
    by code_simp+
  then show ?thesis
    by (intro allI secrets_stay_out) (simp_all add: setting_call_def)
qed

text \<open>
  (C30) Appending an entry to a journal whose ids run without a hole succeeds and leaves such a
  journal, which loads again. The new entry is found by its id, which is the next id. An entry that
  stays is found as before, but for the mark an entry that undoes it leaves. An id that has been
  pushed out is answered as dropped, with the id of the oldest entry kept, and every other id as
  one that was never given.
\<close>

theorem appended_entries_are_found:
  assumes "journal_ok doc" "is_object entry" "kv_ok (members entry)"
    and "n = number_at doc ''next_id''" "oldest = max (oldest_id doc) (n + 1 - int k_max_entries)"
    and "stored = stored_entry doc moment entry"
  shows "\<exists>doc'. append_document doc moment entry = Inr (doc', stored) \<and> journal_ok doc' \<and>
           load_document (Journal_Text (Some doc')) = Inr doc' \<and> find_entry doc' n = Inr (Inr stored) \<and>
           (\<forall>i x. oldest \<le> i \<longrightarrow> find_entry doc i = Inr (Inr x) \<longrightarrow> find_entry doc' i = Inr (Inr (marks stored n x))) \<and>
           (\<forall>i. 1 \<le> i \<and> i < oldest \<longrightarrow> find_entry doc' i = Inr (Inl (entry_dropped i oldest))) \<and>
           (\<forall>i. i < 1 \<or> n < i \<longrightarrow> find_entry doc' i = Inr (Inl (entry_unknown i (n + 1))))"
proof (rule append_then_find [OF assms], goal_cases)
  case (1 doc')
  then show ?case
    using parse_document_ok [OF 1(2)] by (intro exI [of _ doc']) (simp add: load_document_def)
qed

definition first_entry :: json where
  "first_entry = jobj [(''tool'', JStr ''scene_add_node''), (''outcome'', JStr ''applied'')]"

theorem appended_entries_are_found_witness:
  "\<exists>doc'. append_document empty_document ''now'' first_entry = Inr (doc', stored_entry empty_document ''now'' first_entry) \<and>
     find_entry doc' 1 = Inr (Inr (stored_entry empty_document ''now'' first_entry)) \<and>
     find_entry doc' 2 = Inr (Inl (entry_unknown 2 2))"
proof -
  have "1 = number_at empty_document ''next_id''" "1 = max (oldest_id empty_document) (1 + 1 - int k_max_entries)"
    by (simp_all add: number_at_def oldest_id_def empty_document_def member_or_null_def jget_jobj k_max_entries_def)
  note found = appended_entries_are_found [OF empty_journal_ok _ _ this refl, of first_entry "''now''"]
  have "is_object first_entry" "kv_ok (members first_entry)"
    by (simp_all add: first_entry_def)
  from found [OF this] obtain doc' where
    "append_document empty_document ''now'' first_entry = Inr (doc', stored_entry empty_document ''now'' first_entry)"
    "find_entry doc' 1 = Inr (Inr (stored_entry empty_document ''now'' first_entry))"
    "\<forall>i. i < 1 \<or> 1 < i \<longrightarrow> find_entry doc' i = Inr (Inl (entry_unknown i (1 + 1)))"
    by blast
  then show ?thesis
    by (intro exI [of _ doc']) simp
qed

text \<open>A preview is a prefix within the limit, cut where a character begins or at the start.\<close>

lemma prefix_end_le: "prefix_end s n \<le> n"
  by (induction n) auto

lemma prefix_end_begins: "prefix_end s n \<noteq> 0 \<Longrightarrow> byte (s ! prefix_end s n) AND 0xC0 \<noteq> 0x80"
  by (induction n) (auto split: if_splits)

lemma utf8_prefix_bounded: "length (utf8_prefix s n) \<le> n \<and> (\<exists>rest. s = utf8_prefix s n @ rest)"
proof (cases "length s \<le> n")
  case False
  then show ?thesis
    using prefix_end_le [of s n]
    by (auto simp: utf8_prefix_def intro!: exI [of _ "drop (prefix_end s n) s"])
qed (simp add: utf8_prefix_def)

section \<open>Every entry is judged by its own references\<close>

definition entry_references :: "json \<Rightarrow> json list" where
  "entry_references e = elements (member_or_null e ''undo'')"

text \<open>An entry of the view: an object that explains itself where it has no reference.\<close>

definition viewable :: "json \<Rightarrow> bool" where
  "viewable e =
     (is_object e \<and> kv_ok (members e) \<and> (case jget e ''undo_note'' of None \<Rightarrow> True | Some x \<Rightarrow> is_string x))"

definition note_of :: "json \<Rightarrow> string" where
  "note_of e = (case jget e ''undo_note'' of Some (JStr s) \<Rightarrow> s | _ \<Rightarrow> [])"

text \<open>The state an entry should carry, given the editor's verdict on each single reference.\<close>

definition own_state :: "(json \<Rightarrow> json) \<Rightarrow> json \<Rightarrow> json" where
  "own_state verdict e =
     (let steps = map verdict (entry_references e)
      in if steps = [] then jobj [(''state'', JStr ''none''), (''reason'', JStr (note_of e))]
         else if length steps > 1 then jput ''steps'' (JArr steps) (last steps)
         else last steps)"

lemma references_concat:
  "list_all viewable es \<Longrightarrow> references es = Inr (concat (map entry_references es))"
  by (induction es) (auto simp: viewable_def member_of_def entry_references_def)

lemma undo_note_string: "viewable e \<Longrightarrow> value_string e ''undo_note'' [] = Inr (note_of e)"
  by (auto simp: viewable_def value_string_def note_of_def split: option.splits json.splits)

lemma undo_state_own:
  assumes "viewable e" "\<And>r. is_object (verdict r)"
  shows "entry_undo_state judged (Some (before @ map verdict (entry_references e) @ after)) (length before) e = Inr (own_state verdict e)"
proof (cases "entry_references e = []")
  case True
  then show ?thesis
    using undo_note_string [OF assms(1)] by (simp add: entry_undo_state_def own_state_def entry_references_def)
next
  case False
  then have "last (map verdict (entry_references e)) = verdict (last (entry_references e))"
    by (rule last_map)
  moreover obtain m where "verdict (last (entry_references e)) = JObj m"
    using assms(2) is_object.elims(2) by blast
  ultimately show ?thesis
    using False by (simp add: entry_undo_state_def own_state_def entry_references_def [symmetric] with_steps_def Let_def)
qed

lemma viewed_entries_own:
  assumes "\<And>r. is_object (verdict r)"
  shows "list_all viewable es \<Longrightarrow>
     viewed_entries judged (Some (before @ map verdict (concat (map entry_references es)))) False (length before) es =
       Inr (map (\<lambda>e. jput ''undo_state'' (own_state verdict e) e) es)"
proof (induction es arbitrary: before)
  case (Cons e es)
  let ?own = "map verdict (entry_references e)"
  have e: "viewable e" "list_all viewable es"
    using Cons.prems by simp_all
  then have object: "is_object e"
    by (simp add: viewable_def)
  show ?case
    using Cons.IH [OF e(2), of "before @ ?own"] undo_state_own [where before = before and verdict = verdict, OF e(1) assms] object
    by (simp add: member_of_def viewed_entry_def entry_references_def [symmetric])
qed simp

lemma value_int32_number:
  "is_object v \<Longrightarrow> is_number_integer (member_or_null v k) \<Longrightarrow> \<exists>i. value_int32 v k d = Inr i"
  by (auto simp: value_int32_def member_or_null_def elim: is_number_integer.elims split: option.splits)

lemma view_judges_own:
  assumes "journal_ok doc" "newest = take bound (rev (entries_of doc))" "list_all viewable newest"
    and "refs = concat (map entry_references newest)" "refs \<noteq> []"
    and "\<And>r. is_object (verdict r)" "send refs = Inr (jobj [(''states'', JArr (map verdict refs))])"
  shows "\<exists>v. journal_view (Journal_Text (Some doc)) (Some ''editor'') send bound False = Inr v \<and>
             entries_of v = map (\<lambda>e. jput ''undo_state'' (own_state verdict e) e) newest"
proof -
  have "judge (Some ''editor'') send refs =
      Inr (Some (map verdict refs), jobj [(''judged'', JBool True), (''run'', JNull)])"
    using assms(5,7) by (simp add: judge_def member_of_def member_or_null_def jget_jobj)
  moreover have "viewed_entries j (Some (map verdict refs)) False 0 newest =
      Inr (map (\<lambda>e. jput ''undo_state'' (own_state verdict e) e) newest)" for j
    using viewed_entries_own [OF assms(6) assms(3), of j "[]"] assms(4) by simp
  moreover have "entries_of (jobj (a # b # c # es @ [x, y, (''entries'', JArr xs)])) = xs" for a b c es x y xs
    by (simp add: entries_of_def member_or_null_def jget_jobj)
  moreover obtain d n where "value_int32 doc ''dropped'' 0 = Inr d" "value_int32 doc ''next_id'' 1 = Inr n"
    using assms(1) value_int32_number by (metis journal_ok_def)
  ultimately show ?thesis
    using references_concat [OF assms(3)] parse_document_ok [OF assms(1)]
    by (simp add: journal_view_def load_document_def entries_of_def [symmetric] assms(2,4) [symmetric] Let_def)
qed

text \<open>
  The one answer of the editor is handed out to the right entries: when it gives a verdict for
  every reference it was sent, each listed entry carries the verdict on its own newest reference,
  with the verdicts on all of its own references where it has several, and an entry that has no
  reference carries its own note. The newest entries are listed, no more than asked for.
\<close>

theorem entries_carry_their_own_verdicts:
  assumes "journal_ok doc" "newest = take bound (rev (entries_of doc))" "list_all viewable newest"
    and "refs = concat (map entry_references newest)" "refs \<noteq> []"
    and "\<And>r. is_object (verdict r)" "send refs = Inr (jobj [(''states'', JArr (map verdict refs))])"
  shows "\<exists>v. journal_view (Journal_Text (Some doc)) (Some ''editor'') send bound False = Inr v \<and>
             entries_of v = map (\<lambda>e. jput ''undo_state'' (own_state verdict e) e) newest"
  using assms by (rule view_judges_own)

definition two_entries :: json where
  "two_entries =
     jput ''entries''
       (JArr [jobj [(''id'', JInt 1), (''undo'', JArr [JStr ''a'', JStr ''b''])], jobj [(''id'', JInt 2), (''undo'', JArr [JStr ''c''])]])
       (jput ''next_id'' (JInt 3) empty_document)"

definition echo :: "json \<Rightarrow> json" where
  "echo r = jobj [(''of'', r)]"

theorem entries_carry_their_own_verdicts_witness:
  "\<exists>v. journal_view (Journal_Text (Some two_entries)) (Some ''editor'')
         (\<lambda>refs. Inr (jobj [(''states'', JArr (map echo refs))])) 50 False = Inr v \<and>
       entries_of v =
         [jput ''undo_state'' (echo (JStr ''c'')) (jobj [(''id'', JInt 2), (''undo'', JArr [JStr ''c''])]),
          jput ''undo_state'' (jput ''steps'' (JArr [echo (JStr ''a''), echo (JStr ''b'')]) (echo (JStr ''b'')))
            (jobj [(''id'', JInt 1), (''undo'', JArr [JStr ''a'', JStr ''b''])])]"
proof -
  let ?newest = "take 50 (rev (entries_of two_entries))" and ?refs = "[JStr ''c'', JStr ''a'', JStr ''b'']"
  have "journal_ok two_entries" "list_all viewable ?newest" "concat (map entry_references ?newest) = ?refs"
    by code_simp+
  moreover have "map (\<lambda>e. jput ''undo_state'' (own_state echo e) e) ?newest =
       [jput ''undo_state'' (echo (JStr ''c'')) (jobj [(''id'', JInt 2), (''undo'', JArr [JStr ''c''])]),
        jput ''undo_state'' (jput ''steps'' (JArr [echo (JStr ''a''), echo (JStr ''b'')]) (echo (JStr ''b'')))
          (jobj [(''id'', JInt 1), (''undo'', JArr [JStr ''a'', JStr ''b''])])]"
    by code_simp
  ultimately show ?thesis
    using entries_carry_their_own_verdicts [of two_entries ?newest 50 ?refs echo "\<lambda>refs. Inr (jobj [(''states'', JArr (map echo refs))])"]
    by (simp add: echo_def)
qed

end
