(* ===== verification/Schema_Validation.thy ===== *)
theory Schema_Validation
  imports Utf8 Didi_Json
begin

text \<open>
  The check of a call's arguments against the schema a tool publishes,
  \<open>src/mcp/schema_validation.cpp\<close>, with the bounds the registry stamps into a schema.

  The library's text of a value is the argument \<open>dump\<close>, and its search for a pattern the argument
  \<open>search\<close>: \<open>None\<close> is a pattern it does not compile. The code counts the depth up to
  \<open>kMaxDepth\<close>; here a check carries the check one level deeper as an argument, \<open>None\<close> where the depth
  is used up, and \<open>check_value\<close> closes that knot. A problem is the sentence the caller is answered.
\<close>

section \<open>Words\<close>

definition k_max_depth :: nat where "k_max_depth = 8"

fun type_phrase :: "json \<Rightarrow> string" where
  "type_phrase JNull = ''null''"
| "type_phrase (JBool b) = ''a boolean''"
| "type_phrase (JInt i) = ''an integer''"
| "type_phrase (JUInt n) = ''an integer''"
| "type_phrase (JFloat d) = ''a number''"
| "type_phrase (JStr s) = ''a string''"
| "type_phrase (JArr xs) = ''an array''"
| "type_phrase (JObj m) = ''an object''"

definition articled :: "string \<Rightarrow> string" where
  "articled type =
     (if type = ''integer'' \<or> type = ''array'' \<or> type = ''object'' then ''an '' @ type
      else if type = ''null'' then ''null''
      else ''a '' @ type)"

definition matches_type :: "string \<Rightarrow> json \<Rightarrow> bool" where
  "matches_type type v =
     (if type = ''string'' then is_string v
      else if type = ''integer'' then is_number_integer v
      else if type = ''number'' then is_number v
      else if type = ''boolean'' then is_boolean v
      else if type = ''array'' then is_array v
      else if type = ''object'' then is_object v
      else if type = ''null'' then is_null v
      else True)"

fun joined_by :: "string \<Rightarrow> string list \<Rightarrow> string" where
  "joined_by sep [] = []"
| "joined_by sep [w] = w"
| "joined_by sep (w # v # ws) = w @ sep @ joined_by sep (v # ws)"

definition join_names :: "string list \<Rightarrow> string" where
  "join_names names = joined_by '', '' names"

definition quoted_name :: "string \<Rightarrow> string" where
  "quoted_name name = [CHR 0x27] @ name @ [CHR 0x27]"

text \<open>The first problem of several checks, which the code returns as soon as it has one.\<close>

fun first_problem :: "'a option list \<Rightarrow> 'a option" where
  "first_problem [] = None"
| "first_problem (None # ps) = first_problem ps"
| "first_problem (Some p # ps) = Some p"

lemma no_first_problem [simp]: "first_problem ps = None \<longleftrightarrow> (\<forall>p \<in> set ps. p = None)"
  by (induction ps rule: first_problem.induct) auto

section \<open>References\<close>

definition defs_prefix :: string where
  "defs_prefix = ''#/$defs/''"

definition resolve_local_ref :: "json \<Rightarrow> json \<Rightarrow> json option" where
  "resolve_local_ref schema doc =
     (case jget schema ''$ref'' of
        Some (JStr pointer) \<Rightarrow>
          (if \<not> starts_with pointer defs_prefix then None
           else
             let name = drop (length defs_prefix) pointer
             in if name = [] \<or> CHR ''/'' \<in> set name then None
                else case jget doc ''$defs'' of
                       Some (JObj defs) \<Rightarrow> (case kv_get defs name of Some (JObj s) \<Rightarrow> Some (JObj s) | _ \<Rightarrow> None)
                     | _ \<Rightarrow> None)
      | _ \<Rightarrow> None)"

text \<open>The schema behind a reference, where the branch does not state \<open>key\<close> itself.\<close>

definition stated_by :: "string \<Rightarrow> json \<Rightarrow> json \<Rightarrow> json" where
  "stated_by key branch doc =
     (if contains branch key then branch
      else case resolve_local_ref branch doc of None \<Rightarrow> branch | Some s \<Rightarrow> s)"

section \<open>Types and bounds\<close>

fun string_of :: "json \<Rightarrow> string option" where
  "string_of (JStr s) = Some s"
| "string_of v = None"

definition strings_in :: "json list \<Rightarrow> string list" where
  "strings_in xs = List.map_filter string_of xs"

definition check_type :: "json \<Rightarrow> json \<Rightarrow> string \<Rightarrow> string option" where
  "check_type schema v place =
     (case jget schema ''type'' of
        Some (JStr wanted) \<Rightarrow>
          if matches_type wanted v then None
          else Some (place @ '' must be '' @ articled wanted @ '', not '' @ type_phrase v @ ''.'')
      | Some (JArr types) \<Rightarrow>
          let wanted = strings_in types
          in if list_ex (\<lambda>t. matches_type t v) wanted \<or> wanted = [] then None
             else Some (place @ '' must be one of these types: '' @ join_names wanted @ ''. It is '' @ type_phrase v @ ''.'')
      | _ \<Rightarrow> None)"

text \<open>\<open>get<size_t>\<close> of an integer.\<close>

fun size_of_number :: "json \<Rightarrow> nat" where
  "size_of_number (JInt i) = nat (i mod 2 ^ 64)"
| "size_of_number (JUInt n) = n"
| "size_of_number v = 0"

text \<open>\<open>operator!=\<close>: a NaN is not unequal to a number.\<close>

definition unordered :: "json \<Rightarrow> json \<Rightarrow> bool" where
  "unordered a b = ((a = JFloat NaN \<and> is_number b) \<or> (b = JFloat NaN \<and> is_number a))"

definition differs :: "json \<Rightarrow> json \<Rightarrow> bool" where
  "differs a b = (\<not> unordered a b \<and> \<not> json_eq a b)"

definition integer_at :: "json \<Rightarrow> string \<Rightarrow> json option" where
  "integer_at schema key = (case jget schema key of Some x \<Rightarrow> if is_number_integer x then Some x else None | None \<Rightarrow> None)"

definition number_at_key :: "json \<Rightarrow> string \<Rightarrow> json option" where
  "number_at_key schema key = (case jget schema key of Some x \<Rightarrow> if is_number x then Some x else None | None \<Rightarrow> None)"

definition counted :: "(json \<Rightarrow> string) \<Rightarrow> json \<Rightarrow> string \<Rightarrow> string \<Rightarrow> string" where
  "counted dump bound singular plural = dump bound @ '' '' @ (if json_eq bound (JInt 1) then singular else plural)"

definition check_text :: "(json \<Rightarrow> string) \<Rightarrow> (string \<Rightarrow> string \<Rightarrow> bool option) \<Rightarrow> json \<Rightarrow> string \<Rightarrow> string \<Rightarrow> string option" where
  "check_text dump search schema s place =
     first_problem
       [case integer_at schema ''minLength'' of
          Some n \<Rightarrow>
            if code_point_count s < size_of_number n then
              Some (if json_eq n (JInt 1) then place @ '' must not be empty.''
                    else place @ '' must be at least '' @ counted dump n ''character'' ''characters'' @ '' long.'')
            else None
        | None \<Rightarrow> None,
        case integer_at schema ''maxLength'' of
          Some n \<Rightarrow>
            if code_point_count s > size_of_number n
            then Some (place @ '' must be at most '' @ counted dump n ''character'' ''characters'' @ '' long.'') else None
        | None \<Rightarrow> None,
        case jget schema ''pattern'' of
          Some (JStr pattern) \<Rightarrow>
            if search pattern s = Some False then Some (place @ '' must match the pattern '' @ pattern @ ''.'') else None
        | _ \<Rightarrow> None]"

definition check_number :: "(json \<Rightarrow> string) \<Rightarrow> json \<Rightarrow> json \<Rightarrow> string \<Rightarrow> string option" where
  "check_number dump schema v place =
     first_problem
       [case number_at_key schema ''minimum'' of
          Some n \<Rightarrow> if dbl_less (double_of v) (double_of n) then Some (place @ '' must be at least '' @ dump n @ ''.'') else None
        | None \<Rightarrow> None,
        case number_at_key schema ''maximum'' of
          Some n \<Rightarrow> if dbl_less (double_of n) (double_of v) then Some (place @ '' must be at most '' @ dump n @ ''.'') else None
        | None \<Rightarrow> None]"

text \<open>The first entry, by its place, that an earlier one repeats.\<close>

fun repeated :: "json list \<Rightarrow> json list \<Rightarrow> json option" where
  "repeated seen [] = None"
| "repeated seen (x # xs) = (if list_ex (\<lambda>y. \<not> differs x y) seen then Some x else repeated (seen @ [x]) xs)"

definition check_entries :: "(json \<Rightarrow> string) \<Rightarrow> json \<Rightarrow> json list \<Rightarrow> string \<Rightarrow> string option" where
  "check_entries dump schema xs place =
     first_problem
       [case integer_at schema ''minItems'' of
          Some n \<Rightarrow>
            if length xs < size_of_number n
            then Some (place @ '' must have at least '' @ counted dump n ''entry'' ''entries'' @ ''.'') else None
        | None \<Rightarrow> None,
        case integer_at schema ''maxItems'' of
          Some n \<Rightarrow>
            if length xs > size_of_number n
            then Some (place @ '' must have at most '' @ counted dump n ''entry'' ''entries'' @ ''.'') else None
        | None \<Rightarrow> None,
        if jget schema ''uniqueItems'' = Some (JBool True) then
          (case repeated [] xs of
             Some x \<Rightarrow> Some (place @ '' must not repeat an entry, and '' @ dump x @ '' appears more than once.'')
           | None \<Rightarrow> None)
        else None]"

definition check_bounds ::
  "(json \<Rightarrow> string) \<Rightarrow> (string \<Rightarrow> string \<Rightarrow> bool option) \<Rightarrow> json \<Rightarrow> json \<Rightarrow> string \<Rightarrow> string option" where
  "check_bounds dump search schema v place =
     (case v of
        JStr s \<Rightarrow> check_text dump search schema s place
      | JArr xs \<Rightarrow> check_entries dump schema xs place
      | _ \<Rightarrow> if is_number v then check_number dump schema v place else None)"

section \<open>Accepted shapes\<close>

type_synonym deeper = "(json \<Rightarrow> json \<Rightarrow> string \<Rightarrow> string option) option"

text \<open>The branches of a \<open>oneOf\<close>, and the property each of them pins to a text.\<close>

definition one_of_branches :: "json \<Rightarrow> json list" where
  "one_of_branches schema = (case jget schema ''oneOf'' of Some (JArr bs) \<Rightarrow> bs | _ \<Rightarrow> [])"

fun pinned_property :: "(string \<times> json) list \<Rightarrow> (string \<times> string) option" where
  "pinned_property [] = None"
| "pinned_property ((k, p) # ps) =
     (case jget p ''const'' of Some (JStr s) \<Rightarrow> Some (k, s) | _ \<Rightarrow> pinned_property ps)"

definition branch_tag :: "json \<Rightarrow> (string \<times> string) option" where
  "branch_tag branch = (case jget branch ''properties'' of Some (JObj ps) \<Rightarrow> pinned_property ps | _ \<Rightarrow> None)"

fun union_tag :: "string \<Rightarrow> json list \<Rightarrow> (string \<times> string list) option" where
  "union_tag tag [] = Some (tag, [])"
| "union_tag tag (b # bs) =
     (case branch_tag b of
        Some (t, s) \<Rightarrow>
          if t = [] \<or> (tag \<noteq> [] \<and> t \<noteq> tag) then None
          else map_option (\<lambda>(u, vs). (u, s # vs)) (union_tag t bs)
      | None \<Rightarrow> None)"

text \<open>What the value declares itself to be, where every branch pins one property.\<close>

definition declared_tag :: "json list \<Rightarrow> json \<Rightarrow> (string \<times> string list \<times> string) option" where
  "declared_tag branches v =
     (if \<not> is_object v then None
      else case union_tag [] branches of
             Some (tag, tags) \<Rightarrow>
               (if tag = [] then None
                else case jget v tag of Some (JStr wanted) \<Rightarrow> Some (tag, tags, wanted) | _ \<Rightarrow> None)
           | None \<Rightarrow> None)"

fun branch_tagged :: "string \<Rightarrow> string list \<Rightarrow> json list \<Rightarrow> json option" where
  "branch_tagged wanted (t # ts) (b # bs) = (if t = wanted then Some b else branch_tagged wanted ts bs)"
| "branch_tagged wanted ts bs = None"

definition branch_type_accepts :: "json \<Rightarrow> json \<Rightarrow> json \<Rightarrow> bool" where
  "branch_type_accepts branch v doc =
     (case jget (stated_by ''type'' branch doc) ''type'' of
        Some (JStr t) \<Rightarrow> matches_type t v
      | Some (JArr types) \<Rightarrow> list_ex (\<lambda>t. matches_type t v) (strings_in types)
      | _ \<Rightarrow> True)"

definition required_names :: "json \<Rightarrow> string list" where
  "required_names schema = (case jget schema ''required'' of Some (JArr xs) \<Rightarrow> strings_in xs | _ \<Rightarrow> [])"

definition is_candidate :: "json \<Rightarrow> json \<Rightarrow> json \<Rightarrow> bool" where
  "is_candidate doc v branch =
     (list_all (\<lambda>k. is_object v \<and> contains v k) (required_names (stated_by ''required'' branch doc)) \<and>
      branch_type_accepts branch v doc)"

definition demand_of :: "json \<Rightarrow> json \<Rightarrow> string" where
  "demand_of doc branch =
     (let demanded = stated_by ''required'' branch doc; names = required_names demanded
      in if names \<noteq> [] then join_names names
         else case integer_at demanded ''minItems'' of
                Some n \<Rightarrow>
                  if jget demanded ''type'' = Some (JStr ''array'') then ''an array of '' @ dec_int (int64_of n) @ '' entries''
                  else ''no required properties''
              | None \<Rightarrow> ''no required properties'')"

definition check_shapes :: "(json \<Rightarrow> json \<Rightarrow> string \<Rightarrow> string option) \<Rightarrow> json \<Rightarrow> json list \<Rightarrow> json \<Rightarrow> string \<Rightarrow> string option" where
  "check_shapes check doc branches v place =
     (let shapes = filter is_object branches
      in if list_ex (\<lambda>b. check b v place = None) shapes then None
         else case filter (is_candidate doc v) shapes of
                [b] \<Rightarrow> check b v place
              | _ \<Rightarrow> Some (place @ '' does not match any accepted shape. One of these is needed: '' @
                            joined_by ''; or '' (map (demand_of doc) shapes) @ ''.''))"

definition check_one_of :: "deeper \<Rightarrow> json \<Rightarrow> json \<Rightarrow> json \<Rightarrow> string \<Rightarrow> string option" where
  "check_one_of deeper doc schema v place =
     (let branches = one_of_branches schema
      in if branches = [] then None
         else case deeper of
           None \<Rightarrow> None
         | Some check \<Rightarrow>
             (case declared_tag branches v of
                Some (tag, tags, wanted) \<Rightarrow>
                  (case branch_tagged wanted tags branches of
                     Some b \<Rightarrow> check b v place
                   | None \<Rightarrow>
                       Some (place @ '' has '' @ tag @ '' '' @ [CHR 0x22] @ wanted @ [CHR 0x22] @ '', which is not one of: '' @
                             join_names tags @ ''.''))
              | None \<Rightarrow> check_shapes check doc branches v place))"

definition is_named_object_shape :: "json \<Rightarrow> json \<Rightarrow> bool" where
  "is_named_object_shape doc branch =
     (is_object branch \<and>
      (let shape = stated_by ''type'' branch doc
       in (case jget shape ''type'' of Some t \<Rightarrow> \<not> differs t (JStr ''object'') | None \<Rightarrow> False) \<and>
          (case jget shape ''required'' of Some (JArr xs) \<Rightarrow> xs \<noteq> [] | _ \<Rightarrow> False)))"

definition one_of_names_object_shapes :: "json \<Rightarrow> json \<Rightarrow> bool" where
  "one_of_names_object_shapes schema doc =
     (one_of_branches schema \<noteq> [] \<and> list_all (is_named_object_shape doc) (one_of_branches schema))"

section \<open>The check of a value\<close>

definition top_level_arguments_are_closed :: "json \<Rightarrow> bool" where
  "top_level_arguments_are_closed schema =
     (is_object schema \<and>
      (case jget schema ''additionalProperties'' of None \<Rightarrow> True | Some (JBool b) \<Rightarrow> \<not> b | _ \<Rightarrow> False))"

definition declared_properties :: "json \<Rightarrow> (string \<times> json) list option" where
  "declared_properties schema = (case jget schema ''properties'' of Some (JObj ps) \<Rightarrow> Some ps | _ \<Rightarrow> None)"

definition missing_names :: "json \<Rightarrow> json \<Rightarrow> string list" where
  "missing_names schema v = filter (\<lambda>k. \<not> contains v k) (required_names schema)"

definition is_closed :: "json \<Rightarrow> bool \<Rightarrow> bool" where
  "is_closed schema named =
     (jget schema ''additionalProperties'' = Some (JBool False) \<or> (\<not> named \<and> top_level_arguments_are_closed schema))"

definition unknown_names :: "json \<Rightarrow> json \<Rightarrow> bool \<Rightarrow> string list" where
  "unknown_names schema v named =
     (if is_closed schema named then
        filter (\<lambda>k. case declared_properties schema of Some ps \<Rightarrow> kv_get ps k = None | None \<Rightarrow> True) (keys (members v))
      else [])"

definition accepted_list :: "json \<Rightarrow> string" where
  "accepted_list schema =
     (let accepted = (case declared_properties schema of Some ps \<Rightarrow> sort (keys ps) | None \<Rightarrow> [])
      in if accepted = [] then ''It takes no arguments.'' else ''This tool accepts: '' @ join_names accepted @ ''.'')"

definition names_sentence :: "string \<Rightarrow> string list \<Rightarrow> string" where
  "names_sentence what names =
     (case names of
        [] \<Rightarrow> [] | [k] \<Rightarrow> what @ '' '' @ k @ ''.'' | _ \<Rightarrow> what @ ''s '' @ join_names names @ ''.'')"

definition names_problem :: "json \<Rightarrow> string list \<Rightarrow> string list \<Rightarrow> string \<Rightarrow> string" where
  "names_problem schema missing unknown place =
     (if place \<noteq> [] then
        (case missing of
           k # ks \<Rightarrow> place @ '' is missing required property '' @ k @ ''.''
         | [] \<Rightarrow> place @ '' has an unknown property '' @ hd unknown @ ''.'')
      else
        let refused = names_sentence ''Missing required argument'' missing;
            extra = names_sentence ''Unknown argument'' unknown
        in refused @ (if refused \<noteq> [] \<and> extra \<noteq> [] then '' '' else []) @ extra @ '' '' @ accepted_list schema)"

definition child_place :: "string \<Rightarrow> string \<Rightarrow> string" where
  "child_place place key = (if place \<noteq> [] then place @ ''.'' @ key else ''Argument '' @ quoted_name key)"

definition check_members :: "(json \<Rightarrow> json \<Rightarrow> string \<Rightarrow> string option) \<Rightarrow> (string \<times> json) list \<Rightarrow> json \<Rightarrow> string \<Rightarrow> string option" where
  "check_members check ps v place =
     first_problem (map (\<lambda>(k, x). case kv_get ps k of
                            Some declared \<Rightarrow> if is_object declared then check declared x (child_place place k) else None
                          | None \<Rightarrow> None) (members v))"

definition check_object :: "deeper \<Rightarrow> json \<Rightarrow> json \<Rightarrow> string \<Rightarrow> string option" where
  "check_object deeper schema v place =
     (let missing = map quoted_name (missing_names schema v);
          unknown = map quoted_name (unknown_names schema v (place \<noteq> []))
      in if missing \<noteq> [] \<or> unknown \<noteq> [] then Some (names_problem schema missing unknown place)
         else case (declared_properties schema, deeper) of
                (Some ps, Some check) \<Rightarrow> check_members check ps v place
              | _ \<Rightarrow> None)"

definition pin_reason :: "json \<Rightarrow> string" where
  "pin_reason schema = (case jget schema ''description'' of Some (JStr d) \<Rightarrow> '' '' @ d | _ \<Rightarrow> [])"

definition pinned_problem :: "(json \<Rightarrow> string) \<Rightarrow> json \<Rightarrow> json \<Rightarrow> string \<Rightarrow> string" where
  "pinned_problem dump schema fixed place = place @ '' must be '' @ dump fixed @ ''.'' @ pin_reason schema"

definition refused_type :: "(json \<Rightarrow> string) \<Rightarrow> deeper \<Rightarrow> json \<Rightarrow> json \<Rightarrow> json \<Rightarrow> string \<Rightarrow> string \<Rightarrow> string" where
  "refused_type dump deeper doc schema v place problem =
     (case jget schema ''const'' of
        Some fixed \<Rightarrow> pinned_problem dump schema fixed place
      | None \<Rightarrow>
          (case (if one_of_names_object_shapes schema doc then check_one_of deeper doc schema v place else None) of
             Some shaped \<Rightarrow> shaped | None \<Rightarrow> problem))"

definition check_const :: "(json \<Rightarrow> string) \<Rightarrow> json \<Rightarrow> json \<Rightarrow> string \<Rightarrow> string option" where
  "check_const dump schema v place =
     (case jget schema ''const'' of
        Some fixed \<Rightarrow> if differs fixed v then Some (pinned_problem dump schema fixed place) else None
      | None \<Rightarrow> None)"

definition check_enum :: "(json \<Rightarrow> string) \<Rightarrow> json \<Rightarrow> json \<Rightarrow> string \<Rightarrow> string option" where
  "check_enum dump schema v place =
     (case jget schema ''enum'' of
        Some (JArr (x # xs)) \<Rightarrow>
          if list_ex (\<lambda>allowed. json_eq allowed v) (x # xs) then None
          else Some (place @ '' must be one of: '' @ dump (JArr (x # xs)) @ ''.'' @ (if xs = [] then pin_reason schema else []))
      | _ \<Rightarrow> None)"

definition entry_place :: "string \<Rightarrow> nat \<Rightarrow> string" where
  "entry_place place i = place @ '' entry '' @ dec i"

definition check_prefix :: "(json \<Rightarrow> json \<Rightarrow> string \<Rightarrow> string option) \<Rightarrow> json \<Rightarrow> json list \<Rightarrow> string \<Rightarrow> string option" where
  "check_prefix check schema xs place =
     (case jget schema ''prefixItems'' of
        Some (JArr ps) \<Rightarrow>
          first_problem (map (\<lambda>(i, p, x). if is_object p then check p x (entry_place place i) else None) (enumerate 0 (zip ps xs)))
      | _ \<Rightarrow> None)"

definition check_items :: "(json \<Rightarrow> json \<Rightarrow> string \<Rightarrow> string option) \<Rightarrow> json \<Rightarrow> json list \<Rightarrow> string \<Rightarrow> string option" where
  "check_items check schema xs place =
     (case jget schema ''items'' of
        Some (JObj m) \<Rightarrow> first_problem (map (\<lambda>(i, x). check (JObj m) x (entry_place place i)) (enumerate 0 xs))
      | _ \<Rightarrow> None)"

text \<open>One step: everything of \<open>checkValue\<close> but the checks one level deeper.\<close>

definition check_step ::
  "(json \<Rightarrow> string) \<Rightarrow> (string \<Rightarrow> string \<Rightarrow> bool option) \<Rightarrow> json \<Rightarrow> deeper \<Rightarrow> json \<Rightarrow> json \<Rightarrow> string \<Rightarrow> string option" where
  "check_step dump search doc deeper schema v place =
     (if \<not> is_object schema then None
      else first_problem
        [case (deeper, resolve_local_ref schema doc) of (Some check, Some s) \<Rightarrow> check s v place | _ \<Rightarrow> None,
         case check_type schema v place of
           Some problem \<Rightarrow> Some (refused_type dump deeper doc schema v place problem)
         | None \<Rightarrow>
             first_problem
               [check_const dump schema v place,
                check_enum dump schema v place,
                check_bounds dump search schema v place,
                check_one_of deeper doc schema v place,
                case (v, deeper) of (JArr xs, Some check) \<Rightarrow> check_prefix check schema xs place | _ \<Rightarrow> None,
                case (v, deeper) of (JArr xs, Some check) \<Rightarrow> check_items check schema xs place | _ \<Rightarrow> None,
                if is_object v then check_object deeper schema v place else None]])"

text \<open>The levels are those left below the value: \<open>kMaxDepth - depth\<close>.\<close>

fun check_value ::
  "(json \<Rightarrow> string) \<Rightarrow> (string \<Rightarrow> string \<Rightarrow> bool option) \<Rightarrow> json \<Rightarrow> nat \<Rightarrow> json \<Rightarrow> json \<Rightarrow> string \<Rightarrow> string option" where
  "check_value dump search doc 0 = check_step dump search doc None"
| "check_value dump search doc (Suc n) = check_step dump search doc (Some (check_value dump search doc n))"

declare check_value.simps [simp del]

definition describes_an_object :: "json \<Rightarrow> bool" where
  "describes_an_object schema =
     (jget schema ''type'' = Some (JStr ''object'') \<or> contains schema ''properties'' \<or> contains schema ''required'')"

definition validate_against_schema ::
  "(json \<Rightarrow> string) \<Rightarrow> (string \<Rightarrow> string \<Rightarrow> bool option) \<Rightarrow> json \<Rightarrow> json \<Rightarrow> string option" where
  "validate_against_schema dump search schema arguments =
     (if \<not> is_object schema then None
      else if \<not> is_object arguments then
        (if describes_an_object schema then Some (''Arguments must be an object, not '' @ type_phrase arguments @ ''.'') else None)
      else check_object (Some (check_value dump search schema (k_max_depth - 1))) schema arguments [])"

section \<open>Bounds stamped into a schema\<close>

definition k_identifier :: int where "k_identifier = 256"

definition k_path :: int where "k_path = 1024"

definition k_body :: int where "k_body = 1048576"

definition bound_for_parameter :: "string \<Rightarrow> int" where
  "bound_for_parameter name =
     (if name = ''source_text'' \<or> name = ''new_definition'' then k_body
      else if name = ''path'' \<or> name = ''target_node'' \<or> name = ''source_scene'' then k_path
      else if length name > 5 \<and> ends_with name ''_path'' then k_path
      else k_identifier)"

text \<open>
  Both stamps walk the required names and put a bound into the properties that are strings and
  state none. \<open>stamp_required\<close> is that walk.
\<close>

definition stamp_property :: "string \<Rightarrow> (string \<Rightarrow> json option) \<Rightarrow> string \<Rightarrow> (string \<times> json) list \<Rightarrow> (string \<times> json) list" where
  "stamp_property bound chosen key ps =
     (case (chosen key, kv_get ps key) of
        (Some n, Some (JObj p)) \<Rightarrow>
          if kv_get p ''type'' = Some (JStr ''string'') \<and> kv_get p bound = None
          then kv_put key (JObj (kv_put bound n p)) ps else ps
      | _ \<Rightarrow> ps)"

definition stamp_required :: "string \<Rightarrow> (string \<Rightarrow> json option) \<Rightarrow> json \<Rightarrow> json" where
  "stamp_required bound chosen schema =
     (case (jget schema ''properties'', jget schema ''required'') of
        (Some (JObj ps), Some (JArr names)) \<Rightarrow>
          jput ''properties'' (JObj (fold (stamp_property bound chosen) (strings_in names) ps)) schema
      | _ \<Rightarrow> schema)"

definition require_non_empty_required_strings :: "string \<Rightarrow> json \<Rightarrow> json" where
  "require_non_empty_required_strings source schema =
     stamp_required ''minLength''
       (\<lambda>key. if source = ''script_create'' \<and> key = ''source_text'' then None else Some (JInt 1)) schema"

definition bound_required_strings :: "json \<Rightarrow> json" where
  "bound_required_strings schema = stamp_required ''maxLength'' (\<lambda>key. Some (JInt (bound_for_parameter key))) schema"

section \<open>What a schema asks for\<close>

text \<open>
  The keywords as conditions on the value, without the sentences and without a bound on the depth.
  A schema asks something of the value itself (\<open>local_ok\<close>), and that parts of it conform to other
  schemas (\<open>demands_of\<close>), and that it conforms to one of several branches (\<open>choices_of\<close>).
\<close>

definition type_ok :: "json \<Rightarrow> json \<Rightarrow> bool" where
  "type_ok schema v =
     (case jget schema ''type'' of
        Some (JStr t) \<Rightarrow> matches_type t v
      | Some (JArr ts) \<Rightarrow> strings_in ts = [] \<or> (\<exists>t \<in> set (strings_in ts). matches_type t v)
      | _ \<Rightarrow> True)"

definition const_ok :: "json \<Rightarrow> json \<Rightarrow> bool" where
  "const_ok schema v = (\<forall>c. jget schema ''const'' = Some c \<longrightarrow> \<not> differs c v)"

definition enum_ok :: "json \<Rightarrow> json \<Rightarrow> bool" where
  "enum_ok schema v = (\<forall>xs. jget schema ''enum'' = Some (JArr xs) \<longrightarrow> xs = [] \<or> (\<exists>x \<in> set xs. json_eq x v))"

definition text_ok :: "(string \<Rightarrow> string \<Rightarrow> bool option) \<Rightarrow> json \<Rightarrow> string \<Rightarrow> bool" where
  "text_ok search schema s =
     ((\<forall>n. integer_at schema ''minLength'' = Some n \<longrightarrow> size_of_number n \<le> code_point_count s) \<and>
      (\<forall>n. integer_at schema ''maxLength'' = Some n \<longrightarrow> code_point_count s \<le> size_of_number n) \<and>
      (\<forall>p. jget schema ''pattern'' = Some (JStr p) \<longrightarrow> search p s \<noteq> Some False))"

definition number_ok :: "json \<Rightarrow> json \<Rightarrow> bool" where
  "number_ok schema v =
     ((\<forall>n. number_at_key schema ''minimum'' = Some n \<longrightarrow> \<not> dbl_less (double_of v) (double_of n)) \<and>
      (\<forall>n. number_at_key schema ''maximum'' = Some n \<longrightarrow> \<not> dbl_less (double_of n) (double_of v)))"

definition entries_ok :: "json \<Rightarrow> json list \<Rightarrow> bool" where
  "entries_ok schema xs =
     ((\<forall>n. integer_at schema ''minItems'' = Some n \<longrightarrow> size_of_number n \<le> length xs) \<and>
      (\<forall>n. integer_at schema ''maxItems'' = Some n \<longrightarrow> length xs \<le> size_of_number n) \<and>
      (jget schema ''uniqueItems'' = Some (JBool True) \<longrightarrow> sorted_wrt (\<lambda>y x. differs x y) xs))"

definition bounds_ok :: "(string \<Rightarrow> string \<Rightarrow> bool option) \<Rightarrow> json \<Rightarrow> json \<Rightarrow> bool" where
  "bounds_ok search schema v =
     (case v of JStr s \<Rightarrow> text_ok search schema s | JArr xs \<Rightarrow> entries_ok schema xs
      | _ \<Rightarrow> \<not> is_number v \<or> number_ok schema v)"

definition names_ok :: "json \<Rightarrow> json \<Rightarrow> bool \<Rightarrow> bool" where
  "names_ok schema v named =
     ((\<forall>k \<in> set (required_names schema). contains v k) \<and>
      (is_closed schema named \<longrightarrow>
        (\<forall>k \<in> set (keys (members v)). \<exists>ps. declared_properties schema = Some ps \<and> kv_get ps k \<noteq> None)))"

definition local_ok :: "(string \<Rightarrow> string \<Rightarrow> bool option) \<Rightarrow> json \<Rightarrow> json \<Rightarrow> bool" where
  "local_ok search schema v =
     (type_ok schema v \<and> const_ok schema v \<and> enum_ok schema v \<and> bounds_ok search schema v \<and>
      (is_object v \<longrightarrow> names_ok schema v True))"

definition member_demands :: "json \<Rightarrow> json \<Rightarrow> (json \<times> json) list" where
  "member_demands schema v =
     (case declared_properties schema of
        None \<Rightarrow> []
      | Some ps \<Rightarrow> List.map_filter (\<lambda>(k, x). case kv_get ps k of
                      Some (JObj p) \<Rightarrow> Some (JObj p, x) | _ \<Rightarrow> None) (members v))"

definition entry_demands :: "json \<Rightarrow> json list \<Rightarrow> (json \<times> json) list" where
  "entry_demands schema xs =
     (case jget schema ''prefixItems'' of Some (JArr ps) \<Rightarrow> filter (\<lambda>(p, x). is_object p) (zip ps xs) | _ \<Rightarrow> []) @
     (case jget schema ''items'' of Some (JObj m) \<Rightarrow> map (\<lambda>x. (JObj m, x)) xs | _ \<Rightarrow> [])"

definition demands_of :: "json \<Rightarrow> json \<Rightarrow> json \<Rightarrow> (json \<times> json) list" where
  "demands_of doc schema v =
     (case resolve_local_ref schema doc of Some s \<Rightarrow> [(s, v)] | None \<Rightarrow> []) @
     (case v of JArr xs \<Rightarrow> entry_demands schema xs | JObj m \<Rightarrow> member_demands schema v | _ \<Rightarrow> [])"

definition choices_of :: "json \<Rightarrow> json \<Rightarrow> json list option" where
  "choices_of schema v =
     (let branches = one_of_branches schema
      in if branches = [] then None
         else case declared_tag branches v of
                Some (tag, tags, wanted) \<Rightarrow> Some (case branch_tagged wanted tags branches of Some b \<Rightarrow> [b] | None \<Rightarrow> [])
              | None \<Rightarrow> Some (filter is_object branches))"

coinductive conforms :: "(string \<Rightarrow> string \<Rightarrow> bool option) \<Rightarrow> json \<Rightarrow> json \<Rightarrow> json \<Rightarrow> bool" for search doc where
  conforms_if:
    "(is_object schema \<Longrightarrow> local_ok search schema v) \<Longrightarrow>
     (\<And>s x. is_object schema \<Longrightarrow> (s, x) \<in> set (demands_of doc schema v) \<Longrightarrow> conforms search doc s x) \<Longrightarrow>
     (\<And>bs. is_object schema \<Longrightarrow> choices_of schema v = Some bs \<Longrightarrow> \<exists>b \<in> set bs. conforms search doc b v) \<Longrightarrow>
     conforms search doc schema v"

text \<open>The same to a bounded depth.\<close>

fun conforms_within :: "(string \<Rightarrow> string \<Rightarrow> bool option) \<Rightarrow> json \<Rightarrow> nat \<Rightarrow> json \<Rightarrow> json \<Rightarrow> bool" where
  "conforms_within search doc 0 schema v = (is_object schema \<longrightarrow> local_ok search schema v)"
| "conforms_within search doc (Suc n) schema v =
     (is_object schema \<longrightarrow>
        local_ok search schema v \<and>
        (\<forall>d \<in> set (demands_of doc schema v). conforms_within search doc n (fst d) (snd d)) \<and>
        (case choices_of schema v of None \<Rightarrow> True | Some bs \<Rightarrow> \<exists>b \<in> set bs. conforms_within search doc n b v))"

section \<open>The sentences agree with the conditions\<close>

lemma check_type_None: "check_type schema v place = None \<longleftrightarrow> type_ok schema v"
  by (auto simp: check_type_def type_ok_def list_ex_iff Let_def split: option.splits json.splits)

lemma check_const_None: "check_const dump schema v place = None \<longleftrightarrow> const_ok schema v"
  by (auto simp: check_const_def const_ok_def split: option.splits)

lemma check_enum_None: "check_enum dump schema v place = None \<longleftrightarrow> enum_ok schema v"
  unfolding check_enum_def enum_ok_def
  by (cases "jget schema ''enum''"; cases "the (jget schema ''enum'')")
     (auto simp: list_ex_iff split: list.splits)

lemma repeated_None: "repeated seen xs = None \<longleftrightarrow> (\<forall>x \<in> set xs. \<forall>y \<in> set seen. differs x y) \<and> sorted_wrt (\<lambda>y x. differs x y) xs"
  by (induction seen xs rule: repeated.induct) (auto simp: list_ex_iff)

lemma repeated_Some: "repeated [] xs = Some x \<Longrightarrow> \<not> sorted_wrt (\<lambda>y x. differs x y) xs"
  using repeated_None [of "[]" xs] by auto

lemma check_bounds_None: "check_bounds dump search schema v place = None \<longleftrightarrow> bounds_ok search schema v"
  by (cases v) (auto simp: check_bounds_def bounds_ok_def check_text_def text_ok_def check_number_def number_ok_def
      check_entries_def entries_ok_def repeated_None not_less dest: repeated_Some split: option.splits json.splits bool.splits)

text \<open>With a check one level deeper that refuses exactly what is not \<open>ok\<close>, wherever it is named.\<close>

definition decides :: "(json \<Rightarrow> json \<Rightarrow> string \<Rightarrow> string option) \<Rightarrow> (json \<Rightarrow> json \<Rightarrow> bool) \<Rightarrow> bool" where
  "decides check ok = (\<forall>schema v place. place \<noteq> [] \<longrightarrow> (check schema v place = None \<longleftrightarrow> ok schema v))"

lemma decidesD: "decides check ok \<Longrightarrow> place \<noteq> [] \<Longrightarrow> check schema v place = None \<longleftrightarrow> ok schema v"
  by (simp add: decides_def)

lemma check_shapes_None:
  "check_shapes check doc branches v place = None \<longleftrightarrow> (\<exists>b \<in> set (filter is_object branches). check b v place = None)"
proof (cases "\<exists>b \<in> set (filter is_object branches). check b v place = None")
  case False
  have "check b v place \<noteq> None" if one: "filter (is_candidate doc v) (filter is_object branches) = [b]" for b
  proof -
    have "b \<in> set (filter (is_candidate doc v) (filter is_object branches))"
      unfolding one by simp
    then show ?thesis using False by auto
  qed
  with False show ?thesis
    by (auto simp: check_shapes_def Let_def list_ex_iff split: list.splits)
qed (auto simp: check_shapes_def Let_def list_ex_iff)

lemma check_one_of_None:
  assumes "decides check ok" "place \<noteq> []"
  shows "check_one_of (Some check) doc schema v place = None \<longleftrightarrow>
           (case choices_of schema v of None \<Rightarrow> True | Some bs \<Rightarrow> \<exists>b \<in> set bs. ok b v)"
  using decidesD [OF assms]
  by (auto simp: check_one_of_def choices_of_def check_shapes_None Let_def split: option.splits)

lemma quoted_name_not_Nil [simp]: "quoted_name k \<noteq> []"
  by (simp add: quoted_name_def)

lemma child_place_not_Nil [simp]: "child_place place key \<noteq> []"
  by (simp add: child_place_def)

lemma entry_place_not_Nil [simp]: "entry_place place i \<noteq> []"
  by (simp add: entry_place_def)

lemma member_checks_None:
  assumes "decides check ok"
  shows "(\<forall>p \<in> set (map (\<lambda>(k, x). case kv_get ps k of
                            Some declared \<Rightarrow> if is_object declared then check declared x (child_place place k) else None
                          | None \<Rightarrow> None) m). p = None) \<longleftrightarrow>
     (\<forall>d \<in> set (List.map_filter (\<lambda>(k, x). case kv_get ps k of Some (JObj p) \<Rightarrow> Some (JObj p, x) | _ \<Rightarrow> None) m). ok (fst d) (snd d))"
proof (induction m)
  case (Cons e m)
  then show ?case
    using decidesD [OF assms child_place_not_Nil]
    by (cases e) (auto simp: map_filter_simps split: option.splits json.splits)
qed (simp add: map_filter_simps)

lemma check_members_None:
  assumes "decides check ok" "declared_properties schema = Some ps"
  shows "check_members check ps v place = None \<longleftrightarrow> (\<forall>d \<in> set (member_demands schema v). ok (fst d) (snd d))"
  unfolding check_members_def member_demands_def assms(2) no_first_problem option.case
  by (rule member_checks_None [OF assms(1)])

lemma all_enumerate: "(\<forall>e \<in> set (enumerate n xs). P (snd e)) \<longleftrightarrow> (\<forall>x \<in> set xs. P x)"
  by (induction xs arbitrary: n) auto

lemma check_prefix_None:
  assumes "decides check ok"
  shows "check_prefix check schema xs place = None \<longleftrightarrow>
     (\<forall>ps. jget schema ''prefixItems'' = Some (JArr ps) \<longrightarrow> (\<forall>(p, x) \<in> set (zip ps xs). is_object p \<longrightarrow> ok p x))"
proof -
  have "(\<forall>(i, p, x) \<in> set (enumerate 0 (zip ps xs)). is_object p \<longrightarrow> check p x (entry_place place i) = None) \<longleftrightarrow>
        (\<forall>(p, x) \<in> set (zip ps xs). is_object p \<longrightarrow> ok p x)" for ps
    using all_enumerate [of 0 "zip ps xs" "\<lambda>(p, x). is_object p \<longrightarrow> ok p x"] decidesD [OF assms entry_place_not_Nil]
    by (simp add: case_prod_beta)
  then show ?thesis
    by (auto simp: check_prefix_def case_prod_beta split: option.splits json.splits)
qed

lemma check_items_None:
  assumes "decides check ok"
  shows "check_items check schema xs place = None \<longleftrightarrow>
     (\<forall>m. jget schema ''items'' = Some (JObj m) \<longrightarrow> (\<forall>x \<in> set xs. ok (JObj m) x))"
proof -
  have "(\<forall>(i, x) \<in> set (enumerate 0 xs). check s x (entry_place place i) = None) \<longleftrightarrow> (\<forall>x \<in> set xs. ok s x)" for s
    using all_enumerate [of 0 xs "ok s"] decidesD [OF assms entry_place_not_Nil] by (simp add: case_prod_beta)
  then show ?thesis
    by (auto simp: check_items_def case_prod_beta split: option.splits json.splits)
qed

lemma entry_demands_ok:
  assumes "decides check ok"
  shows "(\<forall>d \<in> set (entry_demands schema xs). ok (fst d) (snd d)) \<longleftrightarrow>
     check_prefix check schema xs place = None \<and> check_items check schema xs place = None"
proof -
  have "(\<forall>d \<in> set (case jget schema ''prefixItems'' of
            Some (JArr ps) \<Rightarrow> filter (\<lambda>(p, x). is_object p) (zip ps xs) | _ \<Rightarrow> []). ok (fst d) (snd d)) \<longleftrightarrow>
        (\<forall>ps. jget schema ''prefixItems'' = Some (JArr ps) \<longrightarrow> (\<forall>(p, x) \<in> set (zip ps xs). is_object p \<longrightarrow> ok p x))"
    by (cases "jget schema ''prefixItems''"; cases "the (jget schema ''prefixItems'')") auto
  moreover have "(\<forall>d \<in> set (case jget schema ''items'' of Some (JObj m) \<Rightarrow> map (\<lambda>x. (JObj m, x)) xs | _ \<Rightarrow> []). ok (fst d) (snd d)) \<longleftrightarrow>
        (\<forall>m. jget schema ''items'' = Some (JObj m) \<longrightarrow> (\<forall>x \<in> set xs. ok (JObj m) x))"
    by (cases "jget schema ''items''"; cases "the (jget schema ''items'')") auto
  ultimately show ?thesis
    unfolding check_prefix_None [OF assms] check_items_None [OF assms] entry_demands_def set_append ball_Un
    by (rule arg_cong2)
qed

lemma check_object_None:
  "check_object deeper schema v place = None \<longleftrightarrow>
     names_ok schema v (place \<noteq> []) \<and>
     (case (declared_properties schema, deeper) of (Some ps, Some check) \<Rightarrow> check_members check ps v place = None | _ \<Rightarrow> True)"
  by (auto simp: check_object_def names_ok_def missing_names_def unknown_names_def Let_def filter_empty_conv
      split: option.splits)

lemma check_step_shallow:
  assumes "place \<noteq> []"
  shows "check_step dump search doc None schema v place = None \<longleftrightarrow> (is_object schema \<longrightarrow> local_ok search schema v)"
proof -
  have "check_one_of None doc schema v place = None"
    by (simp add: check_one_of_def Let_def)
  moreover have "check_object None schema v place = None \<longleftrightarrow> names_ok schema v True"
    using assms by (simp add: check_object_None split: option.splits)
  ultimately show ?thesis
    using check_type_None [of schema v place]
    by (cases "check_type schema v place"; cases "is_object schema"; cases v)
       (simp_all add: check_step_def local_ok_def check_const_None check_enum_None check_bounds_None)
qed

lemma entry_and_member_demands:
  assumes "decides check ok" "place \<noteq> []"
  shows "(\<forall>d \<in> set (case v of JArr xs \<Rightarrow> entry_demands schema xs | JObj m \<Rightarrow> member_demands schema v | _ \<Rightarrow> []). ok (fst d) (snd d)) \<and>
         (is_object v \<longrightarrow> names_ok schema v True) \<longleftrightarrow>
         (case v of JArr xs \<Rightarrow> check_prefix check schema xs place = None | _ \<Rightarrow> True) \<and>
         (case v of JArr xs \<Rightarrow> check_items check schema xs place = None | _ \<Rightarrow> True) \<and>
         (is_object v \<longrightarrow> check_object (Some check) schema v place = None)"
proof (cases v)
  case (JObj m)
  have "(case declared_properties schema of Some ps \<Rightarrow> check_members check ps v place = None | None \<Rightarrow> True) \<longleftrightarrow>
      (\<forall>d \<in> set (member_demands schema v). ok (fst d) (snd d))"
    using check_members_None [OF assms(1)] by (auto simp: member_demands_def split: option.splits)
  then show ?thesis
    using assms(2) JObj by (auto simp: check_object_None split: option.splits)
next
  case (JArr xs)
  then show ?thesis
    using entry_demands_ok [OF assms(1)] by simp
qed simp_all

lemma check_step_deeper:
  assumes "decides check ok" "place \<noteq> []"
  shows "check_step dump search doc (Some check) schema v place = None \<longleftrightarrow>
     (is_object schema \<longrightarrow>
        local_ok search schema v \<and> (\<forall>d \<in> set (demands_of doc schema v). ok (fst d) (snd d)) \<and>
        (case choices_of schema v of None \<Rightarrow> True | Some bs \<Rightarrow> \<exists>b \<in> set bs. ok b v))"
proof (cases "is_object schema")
  case True
  let ?refs = "case resolve_local_ref schema doc of Some s \<Rightarrow> [(s, v)] | None \<Rightarrow> []"
  have refs: "(case resolve_local_ref schema doc of Some s \<Rightarrow> check s v place | None \<Rightarrow> None) = None \<longleftrightarrow>
      (\<forall>d \<in> set ?refs. ok (fst d) (snd d))"
    using decidesD [OF assms] by (auto split: option.splits)
  have parts: "(case (v, Some check) of (JArr xs, Some check) \<Rightarrow> check_prefix check schema xs place | _ \<Rightarrow> None) = None \<longleftrightarrow>
      (case v of JArr xs \<Rightarrow> check_prefix check schema xs place = None | _ \<Rightarrow> True)"
    "(case (v, Some check) of (JArr xs, Some check) \<Rightarrow> check_items check schema xs place | _ \<Rightarrow> None) = None \<longleftrightarrow>
      (case v of JArr xs \<Rightarrow> check_items check schema xs place = None | _ \<Rightarrow> True)"
    "(if is_object v then check_object (Some check) schema v place else None) = None \<longleftrightarrow>
      (is_object v \<longrightarrow> check_object (Some check) schema v place = None)"
    by (auto split: json.splits)
  have "check_step dump search doc (Some check) schema v place = None \<longleftrightarrow>
      (\<forall>d \<in> set ?refs. ok (fst d) (snd d)) \<and> type_ok schema v \<and> const_ok schema v \<and> enum_ok schema v \<and>
      bounds_ok search schema v \<and> (case choices_of schema v of None \<Rightarrow> True | Some bs \<Rightarrow> \<exists>b \<in> set bs. ok b v) \<and>
      (case v of JArr xs \<Rightarrow> check_prefix check schema xs place = None | _ \<Rightarrow> True) \<and>
      (case v of JArr xs \<Rightarrow> check_items check schema xs place = None | _ \<Rightarrow> True) \<and>
      (is_object v \<longrightarrow> check_object (Some check) schema v place = None)"
    using True refs parts check_type_None [of schema v place]
    by (cases "check_type schema v place")
       (auto simp: check_step_def check_const_None check_enum_None check_bounds_None check_one_of_None [OF assms])
  then show ?thesis
    using entry_and_member_demands [OF assms, where v = v and schema = schema] True
    unfolding local_ok_def demands_of_def set_append ball_Un by blast
qed (simp add: check_step_def)

lemma check_value_within: "decides (check_value dump search doc n) (conforms_within search doc n)"
proof (induction n)
  case 0
  then show ?case
    by (simp add: decides_def check_value.simps check_step_shallow)
next
  case (Suc n)
  then show ?case
    unfolding decides_def check_value.simps using check_step_deeper [OF Suc] by simp
qed

section \<open>The bound on the depth\<close>

lemma conforms_to_any_depth: "conforms search doc schema v \<Longrightarrow> conforms_within search doc n schema v"
proof (induction n arbitrary: schema v)
  case 0
  then show ?case by (auto elim: conforms.cases)
next
  case (Suc n)
  from Suc.prems show ?case
    by (cases rule: conforms.cases) (auto split: option.splits intro: Suc.IH, blast intro: Suc.IH)
qed

text \<open>The schemas a schema hands parts of the value to, and how far they go down.\<close>

definition subschemas :: "json \<Rightarrow> json \<Rightarrow> json list" where
  "subschemas doc schema =
     (case resolve_local_ref schema doc of Some s \<Rightarrow> [s] | None \<Rightarrow> []) @ one_of_branches schema @
     (case jget schema ''prefixItems'' of Some (JArr ps) \<Rightarrow> filter is_object ps | _ \<Rightarrow> []) @
     (case jget schema ''items'' of Some (JObj m) \<Rightarrow> [JObj m] | _ \<Rightarrow> []) @
     (case declared_properties schema of Some ps \<Rightarrow> filter is_object (map snd ps) | None \<Rightarrow> [])"

fun fits_within :: "json \<Rightarrow> nat \<Rightarrow> json \<Rightarrow> bool" where
  "fits_within doc 0 schema = (is_object schema \<longrightarrow> subschemas doc schema = [])"
| "fits_within doc (Suc n) schema = (is_object schema \<longrightarrow> list_all (fits_within doc n) (subschemas doc schema))"

lemma member_demands_in: "d \<in> set (member_demands schema v) \<Longrightarrow> fst d \<in> set (subschemas doc schema)"
proof -
  assume d: "d \<in> set (member_demands schema v)"
  then obtain ps where ps: "declared_properties schema = Some ps"
    by (cases "declared_properties schema") (auto simp: member_demands_def)
  obtain k m where "kv_get ps k = Some (JObj m)" "fst d = JObj m"
    using d by (auto simp: member_demands_def ps map_filter_def split: option.splits json.splits)
  then have "JObj m \<in> set (filter is_object (map snd ps))"
    using kv_get_in [of ps k "JObj m"] by force
  with \<open>fst d = JObj m\<close> show ?thesis
    by (simp add: subschemas_def ps)
qed

lemma entry_demands_in: "d \<in> set (entry_demands schema xs) \<Longrightarrow> fst d \<in> set (subschemas doc schema)"
  by (auto simp: entry_demands_def subschemas_def dest: set_zip_leftD split: option.splits json.splits)

lemma demands_in: "d \<in> set (demands_of doc schema v) \<Longrightarrow> fst d \<in> set (subschemas doc schema)"
  unfolding demands_of_def set_append
  by (auto dest: entry_demands_in member_demands_in split: json.splits)
     (auto simp: subschemas_def split: option.splits)

lemma branch_tagged_in: "branch_tagged wanted tags bs = Some b \<Longrightarrow> b \<in> set bs"
  by (induction wanted tags bs rule: branch_tagged.induct) (auto split: if_splits)

lemma choices_in: "choices_of schema v = Some bs \<Longrightarrow> b \<in> set bs \<Longrightarrow> b \<in> set (subschemas doc schema)"
  by (auto simp: choices_of_def subschemas_def Let_def dest: branch_tagged_in split: if_splits option.splits)

lemma choices_none: "subschemas doc schema = [] \<Longrightarrow> choices_of schema v = None"
  by (auto simp: choices_of_def subschemas_def)

lemma fitting_conforms:
  "fits_within doc n schema \<Longrightarrow> conforms_within search doc n schema v \<Longrightarrow> conforms search doc schema v"
proof (coinduction arbitrary: n schema v)
  case conforms
  show ?case
  proof (cases n)
    case 0
    then show ?thesis
      using conforms choices_none [of doc schema v] demands_in [of _ doc schema v] by fastforce
  next
    case (Suc m)
    have down: "fits_within doc m s" if "is_object schema" "s \<in> set (subschemas doc schema)" for s
      using conforms(1) that by (simp add: Suc list_all_iff)
    have below: "conforms_within search doc m s x" if "is_object schema" "(s, x) \<in> set (demands_of doc schema v)" for s x
      using conforms(2) that by (auto simp: Suc)
    have chosen: "\<exists>b \<in> set bs. conforms_within search doc m b v" if "is_object schema" "choices_of schema v = Some bs" for bs
      using conforms(2) that by (auto simp: Suc)
    show ?thesis
      using conforms(2) down below chosen demands_in [of _ doc schema v] choices_in [of schema v _ _ doc]
      by (simp add: Suc) (metis fst_conv)
  qed
qed

text \<open>What the arguments of a call are held to.\<close>

definition arguments_conform :: "(string \<Rightarrow> string \<Rightarrow> bool option) \<Rightarrow> json \<Rightarrow> json \<Rightarrow> bool" where
  "arguments_conform search schema arguments =
     (names_ok schema arguments False \<and>
      (\<forall>d \<in> set (member_demands schema arguments). conforms search schema (fst d) (snd d)))"

lemma validate_None:
  assumes "is_object schema" "is_object arguments"
  shows "validate_against_schema dump search schema arguments = None \<longleftrightarrow>
     names_ok schema arguments False \<and>
     (\<forall>d \<in> set (member_demands schema arguments). conforms_within search schema (k_max_depth - 1) (fst d) (snd d))"
proof -
  have "(case declared_properties schema of
           Some ps \<Rightarrow> check_members (check_value dump search schema (k_max_depth - 1)) ps arguments [] = None | None \<Rightarrow> True) \<longleftrightarrow>
        (\<forall>d \<in> set (member_demands schema arguments). conforms_within search schema (k_max_depth - 1) (fst d) (snd d))"
    using check_members_None [OF check_value_within] by (auto simp: member_demands_def split: option.splits)
  then show ?thesis
    using assms by (simp add: validate_against_schema_def check_object_None split: option.splits)
qed

definition fits_depth :: "json \<Rightarrow> bool" where
  "fits_depth schema =
     (case declared_properties schema of
        Some ps \<Rightarrow> list_all (\<lambda>p. fits_within schema (k_max_depth - 1) (snd p)) ps | None \<Rightarrow> True)"

lemma validate_conforms:
  assumes "is_object schema" "is_object arguments" "fits_depth schema"
  shows "validate_against_schema dump search schema arguments = None \<longleftrightarrow> arguments_conform search schema arguments"
proof -
  have "conforms search schema (fst d) (snd d) \<longleftrightarrow> conforms_within search schema (k_max_depth - 1) (fst d) (snd d)"
    if d: "d \<in> set (member_demands schema arguments)" for d
  proof -
    obtain ps where ps: "declared_properties schema = Some ps"
      using d by (cases "declared_properties schema") (auto simp: member_demands_def)
    obtain k m where "kv_get ps k = Some (JObj m)" "fst d = JObj m"
      using d by (auto simp: member_demands_def ps map_filter_def split: option.splits json.splits)
    then have "fits_within schema (k_max_depth - 1) (fst d)"
      using assms(3) kv_get_in [of ps k "JObj m"] by (auto simp: fits_depth_def ps list_all_iff)
    then show ?thesis
      using fitting_conforms conforms_to_any_depth by blast
  qed
  then show ?thesis
    using validate_None [OF assms(1,2)] by (auto simp: arguments_conform_def)
qed

lemma conforming_accepted:
  assumes "is_object arguments" "arguments_conform search schema arguments"
  shows "validate_against_schema dump search schema arguments = None"
proof (cases "is_object schema")
  case True
  then show ?thesis
    using validate_None [OF True assms(1)] assms(2) conforms_to_any_depth by (auto simp: arguments_conform_def)
qed (simp add: validate_against_schema_def)

section \<open>The refusal of wrong names\<close>

lemma infix_append: "has_infix w a \<or> has_infix w b \<Longrightarrow> has_infix w (a @ b)"
  unfolding has_infix_iff by (metis append.assoc)

lemma infix_joined: "w \<in> set ws \<Longrightarrow> has_infix w (joined_by sep ws)"
proof (induction sep ws rule: joined_by.induct)
  case (2 sep w)
  then show ?case by (auto simp: has_infix_iff intro: exI [of _ "[]"])
next
  case (3 sep u v ws)
  show ?case
  proof (cases "w = u")
    case True
    then show ?thesis
      unfolding has_infix_iff joined_by.simps by (metis append_Nil)
  next
    case False
    then show ?thesis
      using 3 by (simp add: infix_append)
  qed
qed simp

lemma infix_names_sentence:
  assumes "w \<in> set ws"
  shows "has_infix w (names_sentence what ws)"
proof -
  have "names_sentence what ws = what @ (if tl ws = [] then '' '' else ''s '') @ join_names ws @ ''.''"
    using assms by (auto simp: names_sentence_def join_names_def split: list.splits)
  then show ?thesis
    using infix_joined [OF assms] by (simp add: infix_append join_names_def del: append.simps)
qed

definition property_of :: "json \<Rightarrow> string \<Rightarrow> json option" where
  "property_of schema k = (case declared_properties schema of Some ps \<Rightarrow> kv_get ps k | None \<Rightarrow> None)"

text \<open>
  The refusal of a call's names, stated over the schema and the call: one sentence for the required
  names the call does not have, one for the names a closed schema does not declare, and what the
  tool accepts.
\<close>

definition sentence_of :: "string \<Rightarrow> string list \<Rightarrow> string" where
  "sentence_of what names =
     (if names = [] then []
      else what @ (if length names = 1 then '' '' else ''s '') @ joined_by '', '' names @ ''.'')"

definition lacking :: "json \<Rightarrow> json \<Rightarrow> string list" where
  "lacking schema arguments = map quoted_name (filter (\<lambda>k. jget arguments k = None) (required_names schema))"

definition undeclared :: "json \<Rightarrow> json \<Rightarrow> string list" where
  "undeclared schema arguments =
     (if jget schema ''additionalProperties'' \<in> {None, Some (JBool False)} then
        map quoted_name (filter (\<lambda>k. property_of schema k = None) (keys (members arguments)))
      else [])"

lemma names_sentence_is: "names_sentence what names = sentence_of what names"
  by (auto simp: names_sentence_def sentence_of_def join_names_def split: list.splits)

lemma missing_is_lacking: "map quoted_name (missing_names schema arguments) = lacking schema arguments"
  by (simp add: missing_names_def lacking_def contains_def)

lemma unknown_is_undeclared:
  "is_object schema \<Longrightarrow> map quoted_name (unknown_names schema arguments False) = undeclared schema arguments"
  by (auto simp: unknown_names_def undeclared_def is_closed_def top_level_arguments_are_closed_def
      property_of_def declared_properties_def split: option.splits json.splits)

lemma wrong_names_reported:
  assumes "is_object schema" "is_object arguments" "lacking schema arguments \<noteq> [] \<or> undeclared schema arguments \<noteq> []"
  shows "validate_against_schema dump search schema arguments =
    Some (sentence_of ''Missing required argument'' (lacking schema arguments) @
      (if lacking schema arguments \<noteq> [] \<and> undeclared schema arguments \<noteq> [] then '' '' else []) @
      sentence_of ''Unknown argument'' (undeclared schema arguments) @ '' '' @ accepted_list schema)"
proof -
  have "sentence_of what names = [] \<longleftrightarrow> names = []" if "what \<noteq> []" for what names
    using that by (simp add: sentence_of_def)
  then show ?thesis
    using assms by (simp add: validate_against_schema_def check_object_def names_problem_def Let_def
        missing_is_lacking unknown_is_undeclared names_sentence_is)
qed

lemma wrong_names_quoted:
  assumes "k \<in> set names"
  shows "has_infix k (sentence_of what names)"
  using infix_names_sentence [OF assms] by (simp add: names_sentence_is)

section \<open>The stamps add their bound and nothing else\<close>

definition stamped :: "string \<Rightarrow> json option \<Rightarrow> json \<Rightarrow> json" where
  "stamped bound n p =
     (case (n, p) of
        (Some x, JObj m) \<Rightarrow>
          if kv_get m ''type'' = Some (JStr ''string'') \<and> kv_get m bound = None then JObj (kv_put bound x m) else p
      | _ \<Rightarrow> p)"

lemma stamped_twice: "bound \<noteq> ''type'' \<Longrightarrow> stamped bound n (stamped bound n p) = stamped bound n p"
  by (auto simp: stamped_def kv_get_put_any split: option.splits json.splits)

lemma kv_get_stamp_property:
  "kv_get (stamp_property bound chosen key ps) j =
     (if j = key then map_option (stamped bound (chosen key)) (kv_get ps key) else kv_get ps j)"
  by (cases "chosen key"; cases "kv_get ps key"; cases "the (kv_get ps key)")
     (auto simp: stamp_property_def stamped_def kv_get_put_any)

lemma kv_get_stamps:
  "bound \<noteq> ''type'' \<Longrightarrow> kv_get (fold (stamp_property bound chosen) names ps) j =
     (if j \<in> set names then map_option (stamped bound (chosen j)) (kv_get ps j) else kv_get ps j)"
proof (induction names arbitrary: ps)
  case (Cons k names)
  then show ?case
    by (cases "kv_get ps j") (auto simp: kv_get_stamp_property stamped_twice)
qed simp

definition takes_stamp :: "string \<Rightarrow> json \<Rightarrow> bool" where
  "takes_stamp bound p = (is_object p \<and> jget p ''type'' = Some (JStr ''string'') \<and> jget p bound = None)"

definition text_bound_ok :: "string \<Rightarrow> json \<Rightarrow> string \<Rightarrow> bool" where
  "text_bound_ok bound x s =
     (if bound = ''minLength'' then size_of_number x \<le> code_point_count s else code_point_count s \<le> size_of_number x)"

definition text_bounds :: "string set" where
  "text_bounds = {''minLength'', ''maxLength''}"

lemma jget_stamped:
  "jget (stamped bound n p) j = (if j = bound \<and> n \<noteq> None \<and> takes_stamp bound p then n else jget p j)"
  by (auto simp: stamped_def takes_stamp_def jget_def kv_get_put_any split: option.splits json.splits)

lemma is_object_stamped [simp]: "is_object (stamped bound n p) = is_object p"
  by (auto simp: stamped_def split: option.splits json.splits)

text \<open>A stamp is seen by the keyword it stands under and by no other.\<close>

lemma jget_stamped_elsewhere: "bound \<in> text_bounds \<Longrightarrow> j \<notin> text_bounds \<Longrightarrow> jget (stamped bound n p) j = jget p j"
  by (auto simp: jget_stamped)

lemma stamped_parts:
  assumes "bound \<in> text_bounds"
  shows "declared_properties (stamped bound n p) = declared_properties p" "required_names (stamped bound n p) = required_names p"
    "one_of_branches (stamped bound n p) = one_of_branches p" "resolve_local_ref (stamped bound n p) doc = resolve_local_ref p doc"
    "entry_demands (stamped bound n p) xs = entry_demands p xs" "is_closed (stamped bound n p) named = is_closed p named"
  unfolding declared_properties_def required_names_def one_of_branches_def resolve_local_ref_def entry_demands_def is_closed_def
    top_level_arguments_are_closed_def is_object_stamped
  by (simp_all add: jget_stamped_elsewhere [OF assms] text_bounds_def)

lemma stamped_elsewhere:
  assumes "bound \<in> text_bounds"
  shows "type_ok (stamped bound n p) v = type_ok p v" "const_ok (stamped bound n p) v = const_ok p v"
    "enum_ok (stamped bound n p) v = enum_ok p v" "names_ok (stamped bound n p) v named = names_ok p v named"
    "demands_of doc (stamped bound n p) v = demands_of doc p v" "choices_of (stamped bound n p) v = choices_of p v"
    "number_ok (stamped bound n p) v = number_ok p v" "entries_ok (stamped bound n p) xs = entries_ok p xs"
  unfolding type_ok_def const_ok_def enum_ok_def names_ok_def demands_of_def choices_of_def number_ok_def entries_ok_def
    number_at_key_def integer_at_def member_demands_def stamped_parts [OF assms]
  by (simp_all add: jget_stamped_elsewhere [OF assms] text_bounds_def)

lemma integer_at_stamped:
  assumes "n \<noteq> None \<Longrightarrow> is_number_integer (the n)"
  shows "integer_at (stamped bound n p) j = (if j = bound \<and> n \<noteq> None \<and> takes_stamp bound p then n else integer_at p j)"
  using assms by (auto simp: integer_at_def jget_stamped)

lemma takes_stamp_integer: "takes_stamp bound p \<Longrightarrow> integer_at p bound = None"
  by (simp add: takes_stamp_def integer_at_def)

lemma text_ok_stamped:
  assumes "bound \<in> text_bounds" "n \<noteq> None \<Longrightarrow> is_number_integer (the n)"
  shows "text_ok search (stamped bound n p) s \<longleftrightarrow>
     text_ok search p s \<and> (\<forall>x. n = Some x \<longrightarrow> takes_stamp bound p \<longrightarrow> text_bound_ok bound x s)"
proof (cases "n \<noteq> None \<and> takes_stamp bound p")
  case True
  have pattern: "jget (stamped bound n p) ''pattern'' = jget p ''pattern''"
    by (rule jget_stamped_elsewhere [OF assms(1)]) (simp add: text_bounds_def)
  have ints: "integer_at (stamped bound n p) j = (if j = bound then n else integer_at p j)" for j
    using integer_at_stamped [of n bound p j] assms(2) True by auto
  from assms(1) consider "bound = ''minLength''" | "bound = ''maxLength''"
    by (auto simp: text_bounds_def)
  then show ?thesis
    unfolding text_ok_def pattern ints
    using True takes_stamp_integer [of bound p] by cases (auto simp: text_bound_ok_def)
next
  case False
  then have "stamped bound n p = p"
    by (auto simp: stamped_def takes_stamp_def jget_def split: option.splits json.splits)
  with False show ?thesis by auto
qed

lemma local_ok_stamped:
  assumes "bound \<in> text_bounds" "n \<noteq> None \<Longrightarrow> is_number_integer (the n)"
  shows "local_ok search (stamped bound n p) v \<longleftrightarrow>
     local_ok search p v \<and> (\<forall>x s. n = Some x \<longrightarrow> takes_stamp bound p \<longrightarrow> v = JStr s \<longrightarrow> text_bound_ok bound x s)"
  using text_ok_stamped [OF assms]
  by (cases v) (auto simp: local_ok_def bounds_ok_def stamped_elsewhere [OF assms(1)])

lemma conforms_within_stamped:
  assumes "bound \<in> text_bounds" "n \<noteq> None \<Longrightarrow> is_number_integer (the n)"
  shows "conforms_within search doc k (stamped bound n p) v \<longleftrightarrow>
     conforms_within search doc k p v \<and> (\<forall>x s. n = Some x \<longrightarrow> takes_stamp bound p \<longrightarrow> v = JStr s \<longrightarrow> text_bound_ok bound x s)"
  using local_ok_stamped [OF assms]
  by (cases k) (auto simp: stamped_elsewhere [OF assms(1)] takes_stamp_def)

lemma conforms_within_doc:
  "jget doc ''$defs'' = jget doc' ''$defs'' \<Longrightarrow> conforms_within search doc n = conforms_within search doc' n"
proof (induction n)
  case (Suc n)
  have "demands_of doc = demands_of doc'"
    unfolding demands_of_def resolve_local_ref_def Suc.prems ..
  then show ?case
    by (intro ext) (simp only: conforms_within.simps Suc.IH [OF Suc.prems])
qed (intro ext, simp)

lemma stamp_required_elsewhere: "j \<noteq> ''properties'' \<Longrightarrow> jget (stamp_required bound chosen schema) j = jget schema j"
proof (cases "is_object schema")
  case True
  then show "j \<noteq> ''properties'' \<Longrightarrow> jget (stamp_required bound chosen schema) j = jget schema j"
    by (auto simp: stamp_required_def jget_jput_any split: option.splits json.splits)
next
  case False
  then show "jget (stamp_required bound chosen schema) j = jget schema j"
    by (cases schema) (auto simp: stamp_required_def jget_def)
qed

lemma is_object_stamp_required [simp]: "is_object (stamp_required bound chosen schema) = is_object schema"
  by (auto simp: stamp_required_def split: option.splits json.splits)

lemma property_of_stamp_required:
  assumes "is_object schema" "bound \<noteq> ''type''"
  shows "property_of (stamp_required bound chosen schema) k =
     (if k \<in> set (required_names schema) then map_option (stamped bound (chosen k)) (property_of schema k)
      else property_of schema k)"
proof (cases "jget schema ''properties''")
  case None
  then have "stamp_required bound chosen schema = schema"
    by (simp add: stamp_required_def)
  then show ?thesis using None by (simp add: property_of_def declared_properties_def)
next
  case (Some x)
  note props = this
  show ?thesis
  proof (cases x)
    case (JObj ps)
    show ?thesis
    proof (cases "jget schema ''required''")
      case None
      then have "stamp_required bound chosen schema = schema"
        by (simp add: stamp_required_def props JObj)
      then show ?thesis using None by (simp add: required_names_def)
    next
      case (Some y)
      show ?thesis
      proof (cases y)
        case (JArr names)
        then have "declared_properties (stamp_required bound chosen schema) =
            Some (fold (stamp_property bound chosen) (strings_in names) ps)"
          using assms(1) by (simp add: stamp_required_def declared_properties_def props JObj Some jget_jput_any)
        then show ?thesis
          using kv_get_stamps [OF assms(2)] by (simp add: property_of_def required_names_def declared_properties_def props JObj Some JArr)
      qed (simp_all add: stamp_required_def props JObj Some required_names_def)
    qed
  qed (simp_all add: stamp_required_def props property_of_def declared_properties_def)
qed

lemma member_demands_all:
  "(\<forall>d \<in> set (member_demands schema v). P (fst d) (snd d)) \<longleftrightarrow>
     (\<forall>(k, x) \<in> set (members v). \<forall>p. property_of schema k = Some p \<longrightarrow> is_object p \<longrightarrow> P p x)"
proof (cases "declared_properties schema")
  case (Some ps)
  have "(\<forall>d \<in> set (List.map_filter (\<lambda>(k, x). case kv_get ps k of Some (JObj p) \<Rightarrow> Some (JObj p, x) | _ \<Rightarrow> None) m). P (fst d) (snd d)) \<longleftrightarrow>
      (\<forall>(k, x) \<in> set m. \<forall>p. kv_get ps k = Some p \<longrightarrow> is_object p \<longrightarrow> P p x)" for m
  proof (induction m)
    case (Cons e m)
    obtain k x where e: "e = (k, x)" by (cases e)
    show ?case
      using Cons by (cases "kv_get ps k"; cases "the (kv_get ps k)") (auto simp: e map_filter_simps)
  qed (simp add: map_filter_simps)
  then show ?thesis
    by (simp add: member_demands_def property_of_def Some)
qed (simp add: member_demands_def property_of_def)

lemma names_ok_property_of:
  "names_ok schema v named \<longleftrightarrow>
     (\<forall>k \<in> set (required_names schema). contains v k) \<and>
     (is_closed schema named \<longrightarrow> (\<forall>k \<in> set (keys (members v)). property_of schema k \<noteq> None))"
  by (auto simp: names_ok_def property_of_def split: option.splits)

definition stamps_hold :: "string \<Rightarrow> (string \<Rightarrow> json option) \<Rightarrow> json \<Rightarrow> json \<Rightarrow> bool" where
  "stamps_hold bound chosen schema arguments =
     (\<forall>k \<in> set (required_names schema). \<forall>x p s.
        chosen k = Some x \<longrightarrow> property_of schema k = Some p \<longrightarrow> takes_stamp bound p \<longrightarrow>
        (k, JStr s) \<in> set (members arguments) \<longrightarrow> text_bound_ok bound x s)"

lemma validate_stamped:
  assumes "is_object schema" "is_object arguments" "bound \<in> text_bounds"
    and "\<And>k x. chosen k = Some x \<Longrightarrow> is_number_integer x"
  shows "validate_against_schema dump search (stamp_required bound chosen schema) arguments = None \<longleftrightarrow>
     validate_against_schema dump search schema arguments = None \<and> stamps_hold bound chosen schema arguments"
proof -
  let ?schema = "stamp_required bound chosen schema"
  let ?names = "set (required_names schema)"
  have type: "bound \<noteq> ''type''"
    using assms(3) by (auto simp: text_bounds_def)
  note property = property_of_stamp_required [OF assms(1) type, of chosen]
  have same: "required_names ?schema = required_names schema" "is_closed ?schema named = is_closed schema named" for named
    by (simp_all add: required_names_def is_closed_def top_level_arguments_are_closed_def stamp_required_elsewhere)
  have names: "names_ok ?schema arguments False = names_ok schema arguments False"
    by (simp add: names_ok_property_of same property)
  have doc: "conforms_within search ?schema n = conforms_within search schema n" for n
    by (rule conforms_within_doc) (simp add: stamp_required_elsewhere)
  have stamp: "conforms_within search schema n (stamped bound (chosen k) p) v \<longleftrightarrow>
      conforms_within search schema n p v \<and>
      (\<forall>x s. chosen k = Some x \<longrightarrow> takes_stamp bound p \<longrightarrow> v = JStr s \<longrightarrow> text_bound_ok bound x s)" for n k p v
    using assms(4) by (intro conforms_within_stamped [OF assms(3)]) auto
  have "(\<forall>(k, x) \<in> set (members arguments). \<forall>p. property_of ?schema k = Some p \<longrightarrow> is_object p \<longrightarrow>
          conforms_within search schema n p x) \<longleftrightarrow>
        (\<forall>(k, x) \<in> set (members arguments). \<forall>p. property_of schema k = Some p \<longrightarrow> is_object p \<longrightarrow>
          conforms_within search schema n p x) \<and> stamps_hold bound chosen schema arguments" for n
    unfolding property stamps_hold_def using stamp
    by (auto split: if_splits) (fastforce simp: takes_stamp_def)+
  then show ?thesis
    using assms(1,2) by (simp add: validate_None member_demands_all doc names)
qed

section \<open>Properties of the check\<close>

definition coordinate_schema :: json where
  "coordinate_schema =
     jobj [(''type'', JStr ''object''),
       (''$defs'', jobj [(''vector2i'', jobj [(''type'', JStr ''array''), (''minItems'', JUInt 2), (''maxItems'', JUInt 2),
          (''prefixItems'', JArr [jobj [(''type'', JStr ''integer'')], jobj [(''type'', JStr ''integer'')]])])]),
       (''properties'', jobj [(''layer'', jobj [(''type'', JStr ''string'')]),
          (''cell'', jobj [(''oneOf'', JArr [jobj [(''$ref'', JStr ''#/$defs/vector2i'')],
             jobj [(''type'', JStr ''object''), (''required'', JArr [JStr ''x'', JStr ''y''])]])])]),
       (''required'', JArr [JStr ''cell'', JStr ''layer''])]"

definition pair_arguments :: json where
  "pair_arguments = jobj [(''cell'', JArr [JUInt 3, JInt (- 4)]), (''layer'', JStr ''ground'')]"

definition no_dump :: "json \<Rightarrow> string" where
  "no_dump v = []"

definition no_search :: "string \<Rightarrow> string \<Rightarrow> bool option" where
  "no_search pattern s = None"

text \<open>
  (C17) For a schema whose shapes are at most eight deep, references followed, the check accepts
  exactly the arguments that conform: those that have every required name and no name a closed
  schema does not declare, and whose every member satisfies, to any depth, the type, the fixed
  value, the listed values, the bounds, one of the accepted shapes and the entry and member schemas
  it is declared with. The order of the checks and the sentences they form decide nothing.
\<close>

theorem accepted_arguments_conform:
  assumes "is_object schema" "is_object arguments" "fits_depth schema"
  shows "validate_against_schema dump search schema arguments = None \<longleftrightarrow> arguments_conform search schema arguments"
  using assms by (rule validate_conforms)

theorem accepted_arguments_conform_witness:
  "validate_against_schema no_dump no_search coordinate_schema pair_arguments = None \<and>
   arguments_conform no_search coordinate_schema pair_arguments \<and>
   \<not> arguments_conform no_search coordinate_schema (jput ''layer'' JNull pair_arguments)"
proof -
  have "is_object coordinate_schema" "is_object pair_arguments" "fits_depth coordinate_schema"
    "is_object (jput ''layer'' JNull pair_arguments)"
    by code_simp+
  moreover have "validate_against_schema no_dump no_search coordinate_schema pair_arguments = None"
    "validate_against_schema no_dump no_search coordinate_schema (jput ''layer'' JNull pair_arguments) \<noteq> None"
    by code_simp+
  ultimately show ?thesis
    using accepted_arguments_conform by metis
qed

text \<open>
  However deep a schema is, and even where its references run in a circle, arguments that
  conform to it are never refused: what the check leaves out past its depth only makes it accept more.
\<close>

theorem conforming_arguments_are_accepted:
  assumes "is_object arguments" "arguments_conform search schema arguments"
  shows "validate_against_schema dump search schema arguments = None"
  using assms by (rule conforming_accepted)

text \<open>
  (C36) A refusal of names reports every one of them, at the call's top level: each required name
  the call does not have stands in the sentence of the missing arguments, each name of the call a
  closed schema does not declare in the sentence of the unknown ones, in that order and with
  nothing else in them, and what the tool accepts follows. (A nested object reports its first
  wrong name only.)
\<close>

theorem every_wrong_name_is_reported:
  assumes "is_object schema" "is_object arguments" "lacking schema arguments \<noteq> [] \<or> undeclared schema arguments \<noteq> []"
  shows "\<exists>missing unknown. validate_against_schema dump search schema arguments =
      Some (missing @ (if missing \<noteq> [] \<and> unknown \<noteq> [] then '' '' else []) @ unknown @ '' '' @ accepted_list schema) \<and>
    missing = sentence_of ''Missing required argument'' (lacking schema arguments) \<and>
    unknown = sentence_of ''Unknown argument'' (undeclared schema arguments) \<and>
    (\<forall>k \<in> set (required_names schema). jget arguments k = None \<longrightarrow> has_infix (quoted_name k) missing) \<and>
    (\<forall>k \<in> set (keys (members arguments)). jget schema ''additionalProperties'' \<in> {None, Some (JBool False)} \<longrightarrow>
       property_of schema k = None \<longrightarrow> has_infix (quoted_name k) unknown)"
proof -
  have "has_infix (quoted_name k) (sentence_of ''Missing required argument'' (lacking schema arguments))"
    if "k \<in> set (required_names schema)" "jget arguments k = None" for k
    using that by (intro wrong_names_quoted) (simp add: lacking_def)
  moreover have "has_infix (quoted_name k) (sentence_of ''Unknown argument'' (undeclared schema arguments))"
    if "k \<in> set (keys (members arguments))" "jget schema ''additionalProperties'' \<in> {None, Some (JBool False)}"
      "property_of schema k = None" for k
    using that by (intro wrong_names_quoted) (simp add: undeclared_def)
  moreover have "sentence_of what names = [] \<longleftrightarrow> names = []" if "what \<noteq> []" for what names
    using that by (simp add: sentence_of_def)
  ultimately show ?thesis
    using wrong_names_reported [OF assms, of dump search] by simp
qed

theorem every_wrong_name_is_reported_witness:
  "\<exists>missing unknown. validate_against_schema no_dump no_search coordinate_schema (jobj [(''cel'', JNull), (''layer'', JStr ''g'')]) =
       Some (missing @ '' '' @ unknown @ '' '' @ accepted_list coordinate_schema) \<and>
     missing = ''Missing required argument '' @ quoted_name ''cell'' @ ''.'' \<and>
     unknown = ''Unknown argument '' @ quoted_name ''cel'' @ ''.''"
proof -
  let ?call = "jobj [(''cel'', JNull), (''layer'', JStr ''g'')]"
  have "is_object coordinate_schema" "is_object ?call"
    "lacking coordinate_schema ?call = [quoted_name ''cell'']" "undeclared coordinate_schema ?call = [quoted_name ''cel'']"
    by code_simp+
  then show ?thesis
    using every_wrong_name_is_reported [of coordinate_schema ?call no_dump no_search]
    by (simp add: sentence_of_def quoted_name_def)
qed

text \<open>
  Stamping the shortest length changes what is accepted by exactly that length: the stamped
  schema accepts the arguments the schema accepts in which every required string that states no
  shortest length of its own has a character, the text of a new script excepted.
\<close>

theorem stamped_schema_refuses_empty_strings:
  assumes "is_object schema" "is_object arguments"
  shows "validate_against_schema dump search (require_non_empty_required_strings source schema) arguments = None \<longleftrightarrow>
     validate_against_schema dump search schema arguments = None \<and>
     (\<forall>k \<in> set (required_names schema). \<forall>p s.
        \<not> (source = ''script_create'' \<and> k = ''source_text'') \<longrightarrow> property_of schema k = Some p \<longrightarrow>
        takes_stamp ''minLength'' p \<longrightarrow> (k, JStr s) \<in> set (members arguments) \<longrightarrow> 1 \<le> code_point_count s)"
proof -
  let ?chosen = "\<lambda>key. if source = ''script_create'' \<and> key = ''source_text'' then None else Some (JInt 1)"
  have "stamps_hold ''minLength'' ?chosen schema arguments \<longleftrightarrow>
     (\<forall>k \<in> set (required_names schema). \<forall>p s.
        \<not> (source = ''script_create'' \<and> k = ''source_text'') \<longrightarrow> property_of schema k = Some p \<longrightarrow>
        takes_stamp ''minLength'' p \<longrightarrow> (k, JStr s) \<in> set (members arguments) \<longrightarrow> 1 \<le> code_point_count s)"
    by (auto simp: stamps_hold_def text_bound_ok_def)
  moreover have "is_number_integer x" if "?chosen k = Some x" for k x
    using that by (auto split: if_splits)
  ultimately show ?thesis
    using validate_stamped [OF assms, of "''minLength''" ?chosen dump search]
    unfolding require_non_empty_required_strings_def text_bounds_def by blast
qed

theorem stamped_schema_refuses_empty_strings_witness:
  "validate_against_schema no_dump no_search (require_non_empty_required_strings ''tilemap'' coordinate_schema)
     (jput ''layer'' (JStr []) pair_arguments) \<noteq> None"
proof -
  have "is_object coordinate_schema" "is_object (jput ''layer'' (JStr []) pair_arguments)"
    "''layer'' \<in> set (required_names coordinate_schema)" "(''layer'', JStr []) \<in> set (members (jput ''layer'' (JStr []) pair_arguments))"
    "property_of coordinate_schema ''layer'' = Some (jobj [(''type'', JStr ''string'')])"
    "takes_stamp ''minLength'' (jobj [(''type'', JStr ''string'')])" "code_point_count [] = 0"
    by code_simp+
  then show ?thesis
    using stamped_schema_refuses_empty_strings [of coordinate_schema "jput ''layer'' (JStr []) pair_arguments" no_dump no_search "''tilemap''"]
    by fastforce
qed

text \<open>A local reference is followed, and a number is compared as a double.\<close>

lemma local_references_are_followed:
  "check_value no_dump no_search coordinate_schema 3 (jobj [(''$ref'', JStr ''#/$defs/vector2i'')]) (JArr [JStr ''3'', JUInt 4]) ''a'' \<noteq> None"
  by code_simp

lemma maximum_is_compared_as_a_double:
  "check_number dump (jobj [(''maximum'', JUInt (2 ^ 53))]) (JUInt (2 ^ 53 + 1)) place = None"
proof -
  have "bit_width (2 ^ 53) = Suc 53" "bit_width (2 ^ 53 + 1) = Suc 53"
    by (rule bit_width_power; simp)+
  then have "double_of (JUInt (2 ^ 53 + 1)) = double_of (JUInt (2 ^ 53))"
    by (simp add: int_to_dbl_def round53_def Let_def)
  then show ?thesis
    by (simp add: check_number_def number_at_key_def jget_jobj int_to_dbl_def)
qed

end
