(* ===== verification/Tool_Results.thy ===== *)
theory Tool_Results
  imports Error_Data
begin

text \<open>
  What a tool answers and how it goes onto the wire: \<open>ContentItem\<close> and \<open>CallToolResult\<close> of
  \<open>include/didi/mcp/mcp_protocol.hpp\<close>, the requests and responses of \<open>src/mcp/jsonrpc.cpp\<close> and the work a
  successful mutation left undone, \<open>src/mcp/follow_ups.cpp\<close>. The library's text of a value is the
  argument \<open>dump\<close>, its parser the argument \<open>parse\<close> (\<open>None\<close> when it throws).
\<close>

section \<open>Items and results\<close>

record content_item =
  ci_type :: string
  ci_text :: string
  ci_data :: string
  ci_mime_type :: string

definition make_text :: "string \<Rightarrow> content_item" where
  "make_text t = \<lparr>ci_type = ''text'', ci_text = t, ci_data = [], ci_mime_type = []\<rparr>"

definition make_image_png :: "string \<Rightarrow> content_item" where
  "make_image_png base64 = \<lparr>ci_type = ''image'', ci_text = [], ci_data = base64, ci_mime_type = ''image/png''\<rparr>"

definition item_json :: "content_item \<Rightarrow> json" where
  "item_json item =
     (if ci_type item = ''image'' then
        jobj [(''type'', JStr ''image''), (''data'', JStr (ci_data item)),
          (''mimeType'', JStr (if ci_mime_type item = [] then ''image/png'' else ci_mime_type item))]
      else if ci_type item = ''resource'' then
        jobj [(''type'', JStr ''resource''),
          (''resource'', jobj [(''uri'', JStr (ci_text item)), (''mimeType'', JStr (ci_mime_type item))])]
      else jobj [(''type'', JStr ''text''), (''text'', JStr (ci_text item))])"

record call_tool_result =
  cr_content :: "content_item list"
  cr_is_error :: bool
  cr_structured :: "json option"
  cr_answers_its_own_failure :: bool

definition new_result :: call_tool_result where
  "new_result = \<lparr>cr_content = [], cr_is_error = False, cr_structured = None, cr_answers_its_own_failure = False\<rparr>"

definition result_json :: "call_tool_result \<Rightarrow> json" where
  "result_json result =
     (let j = jobj [(''content'', JArr (map item_json (cr_content result))), (''isError'', JBool (cr_is_error result))]
      in case cr_structured result of
           Some s \<Rightarrow> if \<not> cr_is_error result then jput ''structuredContent'' s j else j
         | None \<Rightarrow> j)"

definition success_text :: "string \<Rightarrow> call_tool_result" where
  "success_text t = new_result\<lparr>cr_content := [make_text t]\<rparr>"

definition success_json :: "(json \<Rightarrow> string) \<Rightarrow> json \<Rightarrow> call_tool_result" where
  "success_json dump data = (success_text (dump data))\<lparr>cr_structured := Some data\<rparr>"

definition success_image :: "string \<Rightarrow> string \<Rightarrow> call_tool_result" where
  "success_image base64 description =
     new_result\<lparr>cr_content := (if description = [] then [] else [make_text description]) @ [make_image_png base64]\<rparr>"

definition object_or_empty :: "json \<Rightarrow> json" where
  "object_or_empty data = (if is_object data then data else jobj [])"

definition error_json :: "(json \<Rightarrow> string) \<Rightarrow> int \<Rightarrow> string \<Rightarrow> json \<Rightarrow> call_tool_result" where
  "error_json dump code message data =
     (let data = put_missing ''retryable'' (JBool False) (object_or_empty data)
      in new_result\<lparr>cr_is_error := True,
           cr_content := [make_text (dump (jobj [(''error'', jobj [(''code'', JInt code), (''message'', JStr message), (''data'', data)])]))]\<rparr>)"

definition from_error :: "(json \<Rightarrow> string) \<Rightarrow> refusal \<Rightarrow> string \<Rightarrow> call_tool_result" where
  "from_error dump e pre = error_json dump (err_code e) (pre @ err_message e) (object_or_empty (err_data e))"

definition not_connected :: "(json \<Rightarrow> string) \<Rightarrow> string \<Rightarrow> json \<Rightarrow> call_tool_result" where
  "not_connected dump message data =
     error_json dump 503 message
       (put_missing ''needs_live_engine'' (JBool True)
         (put_missing ''blocked_on'' (JStr ''no_live_session'')
           (put_missing ''retryable'' (JBool True) (object_or_empty data))))"

section \<open>Requests and responses\<close>

record rpc_request =
  rq_id :: json
  rq_method :: string
  rq_params :: json
  rq_is_notification :: bool

fun is_id :: "json \<Rightarrow> bool" where
  "is_id (JStr s) = True"
| "is_id v = is_number v"

definition request_of :: "json \<Rightarrow> rpc_request option" where
  "request_of j =
     (if \<not> is_object j \<or> jget j ''jsonrpc'' \<noteq> Some (JStr ''2.0'') then None
      else case jget j ''method'' of
             Some (JStr rpc_method) \<Rightarrow>
               Option.bind
                 (case jget j ''id'' of
                    Some i \<Rightarrow> if is_id i then Some (i, False) else None
                  | None \<Rightarrow> Some (JNull, True))
               (\<lambda>(i, notification).
                  case jget j ''params'' of
                    Some p \<Rightarrow>
                      if is_object p \<or> is_array p
                      then Some \<lparr>rq_id = i, rq_method = rpc_method, rq_params = p, rq_is_notification = notification\<rparr> else None
                  | None \<Rightarrow> Some \<lparr>rq_id = i, rq_method = rpc_method, rq_params = jobj [], rq_is_notification = notification\<rparr>)
           | _ \<Rightarrow> None)"

definition parse_request :: "(string \<Rightarrow> json option) \<Rightarrow> string \<Rightarrow> rpc_request option" where
  "parse_request parse raw = (case parse raw of None \<Rightarrow> None | Some j \<Rightarrow> request_of j)"

record rpc_response =
  rs_id :: json
  rs_result :: json
  rs_error :: "refusal option"

definition make_success :: "json \<Rightarrow> json \<Rightarrow> rpc_response" where
  "make_success i result = \<lparr>rs_id = i, rs_result = result, rs_error = None\<rparr>"

definition make_error :: "json \<Rightarrow> int \<Rightarrow> string \<Rightarrow> json \<Rightarrow> rpc_response" where
  "make_error i code message data =
     \<lparr>rs_id = i, rs_result = JNull, rs_error = Some \<lparr>err_code = code, err_message = message, err_data = data\<rparr>\<rparr>"

definition rpc_error_json :: "refusal \<Rightarrow> json" where
  "rpc_error_json e =
     jobj ([(''code'', JInt (err_code e)), (''message'', JStr (err_message e))] @
       (if err_data e = JNull then [] else [(''data'', err_data e)]))"

definition response_json :: "rpc_response \<Rightarrow> json" where
  "response_json r =
     jobj [(''jsonrpc'', JStr ''2.0''), (''id'', rs_id r),
       (case rs_error r of Some e \<Rightarrow> (''error'', rpc_error_json e) | None \<Rightarrow> (''result'', rs_result r))]"

section \<open>Work left undone\<close>

definition is_boolean_member :: "json \<Rightarrow> string \<Rightarrow> bool \<Rightarrow> bool" where
  "is_boolean_member payload key expected = (jget payload key = Some (JBool expected))"

definition saved_by_recovery :: "json \<Rightarrow> (json_exn, bool) result" where
  "saved_by_recovery payload =
     (case jget payload ''recovery'' of
        Some (JObj r) \<Rightarrow>
          (case jget (JObj r) ''operation'' of
             Some (JObj op) \<Rightarrow>
               rbind (value_string (JObj op) ''outcome'' []) (\<lambda>outcome. Inr (outcome = ''completed_saved_files_checkpointed''))
           | _ \<Rightarrow> Inr False)
      | _ \<Rightarrow> Inr False)"

definition follow_step :: "string \<Rightarrow> string option \<Rightarrow> string \<Rightarrow> json" where
  "follow_step work tool reason =
     jobj ([(''work'', JStr work), (''reason'', JStr reason)] @ (case tool of Some t \<Rightarrow> [(''tool'', JStr t)] | None \<Rightarrow> []))"

definition save_step :: json where
  "save_step = follow_step ''save'' (Some ''editor_save_scene'')
     (''The change is in the editor'' @ [CHR 0x27] @ ''s open scene and its undo history, not '' @
      ''on disk, and closing the editor without saving discards it.'')"

definition restart_step :: json where
  "restart_step = follow_step ''restart'' None
     (''The attached editor keeps the state it started with until it '' @
      ''restarts, and editor_reload_project does not change that. Nothing '' @ ''Didi sends restarts an editor.'')"

definition project_step :: json where
  "project_step = follow_step ''restart'' None
     (''project.godot was written directly. A Godot already running on this '' @
      ''project reads it only when it starts, and an editor open on it '' @
      ''without the Didi addon writes its own settings over the file when '' @ ''it next saves them.'')"

definition presets_step :: json where
  "presets_step = follow_step ''restart'' None
     (''No attached editor read export_presets.cfg again. An editor open on '' @
      ''this project reads it only when it starts, and writes its own list '' @
      ''over the file when any preset changes in its Export dialog, so '' @ ''restart it before using that dialog.'')"

definition follow_ups_for :: "json \<Rightarrow> (json_exn, json list) result" where
  "follow_ups_for payload =
     (if \<not> is_object payload then Inr []
      else
        rbind (if is_boolean_member payload ''scene_saved'' False then saved_by_recovery payload else Inr True) (\<lambda>saved.
        let written_to = string_or_empty (jget payload ''written_to'');
            live = (string_or_empty (jget payload ''execution_mode'') = ''live'')
        in Inr ((if saved then [] else [save_step]) @
             (if is_boolean_member payload ''requires_editor_restart'' True then [restart_step] else []) @
             (if \<not> live \<and> written_to = ''res://project.godot'' then [project_step] else []) @
             (if written_to = ''res://export_presets.cfg'' \<and> is_boolean_member payload ''editor_reloaded'' False
              then [presets_step] else []))))"

definition apply_follow_ups :: "json \<Rightarrow> (json_exn, bool \<times> json) result" where
  "apply_follow_ups payload =
     (if \<not> is_object payload \<or> contains payload ''follow_up'' then Inr (False, payload)
      else
        rbind (follow_ups_for payload) (\<lambda>steps.
          if steps = [] then Inr (False, payload) else Inr (True, jput ''follow_up'' (JArr steps) payload)))"

section \<open>What goes onto the wire\<close>

lemma result_json_members:
  "is_object (result_json r)" "jget (result_json r) ''content'' = Some (JArr (map item_json (cr_content r)))"
  "jget (result_json r) ''isError'' = Some (JBool (cr_is_error r))"
  "jget (result_json r) ''structuredContent'' = (if cr_is_error r then None else cr_structured r)"
  by (auto simp: result_json_def Let_def jget_jput jget_jobj split: option.splits)

lemma one_outcome: "contains (response_json r) ''result'' \<longleftrightarrow> \<not> contains (response_json r) ''error''"
  by (auto simp: response_json_def contains_def jget_jobj split: option.splits)

text \<open>
  A response answers the request it belongs to: it carries the identifier that was sent, a string or a
  number and never null, and exactly one of a result and an error.
\<close>

theorem responses_answer_their_request:
  assumes "request_of j = Some q" "\<not> rq_is_notification q"
  shows "jget j ''id'' = Some (rq_id q) \<and> rq_id q \<noteq> JNull \<and>
     jget (response_json (make_success (rq_id q) result)) ''id'' = Some (rq_id q) \<and>
     jget (response_json (make_error (rq_id q) code message data)) ''id'' = Some (rq_id q) \<and>
     contains (response_json (make_success (rq_id q) result)) ''result'' \<and>
     \<not> contains (response_json (make_success (rq_id q) result)) ''error'' \<and>
     contains (response_json (make_error (rq_id q) code message data)) ''error'' \<and>
     \<not> contains (response_json (make_error (rq_id q) code message data)) ''result''"
proof -
  have "jget j ''id'' = Some (rq_id q) \<and> is_id (rq_id q)"
    using assms by (auto simp: request_of_def split: if_splits option.splits json.splits)
  then show ?thesis
    by (auto simp: make_success_def make_error_def response_json_def jget_jobj contains_def)
qed

theorem responses_answer_their_request_witness:
  "jget (response_json (make_success (JUInt 7) JNull)) ''id'' = Some (JUInt 7)"
proof -
  let ?j = "jobj [(''jsonrpc'', JStr ''2.0''), (''method'', JStr ''ping''), (''id'', JUInt 7)]"
  have "request_of ?j = Some \<lparr>rq_id = JUInt 7, rq_method = ''ping'', rq_params = jobj [], rq_is_notification = False\<rparr>"
    by code_simp
  from responses_answer_their_request [OF this] show ?thesis
    by simp
qed

text \<open>
  Naming the work left undone changes nothing else: the answer keeps every member it had, a step list the
  handler already gave is kept, and a list is only added when there is a step in it.
\<close>

theorem follow_ups_only_add:
  assumes "apply_follow_ups payload = Inr (changed, after)"
  shows "(\<forall>k. k \<noteq> ''follow_up'' \<longrightarrow> jget after k = jget payload k) \<and>
     (changed \<longleftrightarrow> after \<noteq> payload) \<and>
     (changed \<longrightarrow> \<not> contains payload ''follow_up'' \<and>
       (\<exists>steps. follow_ups_for payload = Inr steps \<and> steps \<noteq> [] \<and> jget after ''follow_up'' = Some (JArr steps)))"
proof (cases "\<not> is_object payload \<or> contains payload ''follow_up''")
  case True
  then show ?thesis
    using assms by (auto simp: apply_follow_ups_def)
next
  case False
  then obtain steps where steps: "follow_ups_for payload = Inr steps"
    using assms by (auto simp: apply_follow_ups_def result_simps)
  have put: "jget (jput ''follow_up'' x payload) k = (if k = ''follow_up'' then Some x else jget payload k)" for x k
    using False by (cases payload) (auto simp: jget_def kv_get_put_any)
  show ?thesis
  proof (cases "steps = []")
    case True
    then show ?thesis
      using assms False steps by (auto simp: apply_follow_ups_def)
  next
    case some: False
    then have after: "changed" "after = jput ''follow_up'' (JArr steps) payload"
      using assms False steps by (auto simp: apply_follow_ups_def)
    have "jget payload ''follow_up'' = None"
      using False by (simp add: contains_def)
    then have "after \<noteq> payload"
      using put [of "JArr steps" "''follow_up''"] unfolding after(2) by (metis option.distinct(1))
    then show ?thesis
      using after some steps False put by (auto simp: contains_def)
  qed
qed

theorem follow_ups_only_add_witness:
  "\<exists>after. apply_follow_ups (jobj [(''scene_saved'', JBool False)]) = Inr (True, after) \<and>
     jget after ''scene_saved'' = Some (JBool False) \<and> contains after ''follow_up''"
proof -
  let ?p = "jobj [(''scene_saved'', JBool False)]"
  have "apply_follow_ups ?p = Inr (True, jput ''follow_up'' (JArr [save_step]) ?p)"
    by (simp add: apply_follow_ups_def follow_ups_for_def is_boolean_member_def jget_jobj saved_by_recovery_def contains_def
        string_or_empty_def Let_def)
  from follow_ups_only_add [OF this] this show ?thesis
    by (auto simp: contains_def jget_jobj)
qed

end
