(* ===== verification/Repeated_Failures.thy ===== *)
theory Repeated_Failures
  imports Tool_Results
begin

text \<open>
  The same call failing the same way again, \<open>src/mcp/repeated_failures.cpp\<close>: what is remembered
  of the failures of a conversation, and the mark a repeated refusal carries. The library's parser and
  its text of a value are the arguments \<open>parse\<close> (\<open>None\<close> is a text it discards) and \<open>dump\<close>, the standard
  library's hash of a text is \<open>hash\<close>. The map is unordered in the code, which only looks keys up.
\<close>

section \<open>The refusal in an answer\<close>

definition remedy_fields :: "string list" where
  "remedy_fields =
     [''next_call'', ''retry_with'', ''field'', ''argument'', ''parameter'', ''missing'', ''did_you_mean'', ''restart_with'',
      ''retry_after_ms'', ''no_remedy'']"

definition call_key :: "(json \<Rightarrow> string) \<Rightarrow> (string \<Rightarrow> nat) \<Rightarrow> string \<Rightarrow> string \<Rightarrow> json \<Rightarrow> string" where
  "call_key dump hash conversation tool arguments =
     (let sent = (if is_object arguments then arguments else jobj [])
      in conversation @ [CHR 0x0A] @ tool @ [CHR 0x0A] @ dec (hash (dump (jdel ''confirmation_token'' sent))))"

text \<open>The error object of a text item, and the payload it stands in.\<close>

definition envelope_in :: "(string \<Rightarrow> json option) \<Rightarrow> content_item \<Rightarrow> (json \<times> json) option" where
  "envelope_in parse item =
     (if ci_type item \<noteq> ''text'' then None
      else case parse (ci_text item) of
             Some (JObj m) \<Rightarrow>
               (case jget (JObj m) ''error'' of
                  Some (JObj e) \<Rightarrow>
                    if is_number_integer (member_or_null (JObj e) ''code'') then Some (JObj m, JObj e) else None
                | _ \<Rightarrow> None)
           | _ \<Rightarrow> None)"

fun error_envelope_of :: "(string \<Rightarrow> json option) \<Rightarrow> content_item list \<Rightarrow> json option" where
  "error_envelope_of parse [] = None"
| "error_envelope_of parse (item # items) =
     (case envelope_in parse item of Some (payload, e) \<Rightarrow> Some e | None \<Rightarrow> error_envelope_of parse items)"

definition data_of :: "json \<Rightarrow> json" where
  "data_of envelope = (case jget envelope ''data'' of Some d \<Rightarrow> d | None \<Rightarrow> jobj [])"

definition failure_code :: "json \<Rightarrow> string" where
  "failure_code envelope =
     (case (if is_object (data_of envelope) then jget (data_of envelope) ''code'' else None) of
        Some (JStr code) \<Rightarrow> code
      | _ \<Rightarrow> (case get_int (member_or_null envelope ''code'') of Inr i \<Rightarrow> dec_int i | Inl e \<Rightarrow> []))"

section \<open>What is remembered\<close>

record failure =
  fl_code :: string
  fl_count :: nat

record remembered =
  rm_failures :: "(string \<times> failure) list"
  rm_order :: "string list"

definition k_max_remembered :: nat where "k_max_remembered = 256"

definition nothing_remembered :: remembered where
  "nothing_remembered = \<lparr>rm_failures = [], rm_order = []\<rparr>"

definition forget :: "string \<Rightarrow> remembered \<Rightarrow> remembered" where
  "forget key r = r\<lparr>rm_failures := kv_del key (rm_failures r)\<rparr>"

definition evict_oldest :: "remembered \<Rightarrow> remembered" where
  "evict_oldest r =
     (if length (rm_failures r) \<ge> k_max_remembered \<and> rm_order r \<noteq> []
      then \<lparr>rm_failures = kv_del (hd (rm_order r)) (rm_failures r), rm_order = tl (rm_order r)\<rparr> else r)"

definition compact_order :: "remembered \<Rightarrow> remembered" where
  "compact_order r =
     (if length (rm_order r) \<ge> 4 * k_max_remembered
      then r\<lparr>rm_order := filter (kv_has (rm_failures r)) (rm_order r)\<rparr> else r)"

definition insert_key :: "string \<Rightarrow> remembered \<Rightarrow> remembered" where
  "insert_key key r =
     (if kv_has (rm_failures r) key then r
      else
        let s = compact_order (evict_oldest r)
        in \<lparr>rm_failures = kv_put key \<lparr>fl_code = [], fl_count = 0\<rparr> (rm_failures s), rm_order = rm_order s @ [key]\<rparr>)"

definition count_failure :: "string \<Rightarrow> failure \<Rightarrow> failure" where
  "count_failure code f = \<lparr>fl_code = code, fl_count = (if fl_code f = code then fl_count f + 1 else 1)\<rparr>"

definition remember :: "string \<Rightarrow> string \<Rightarrow> remembered \<Rightarrow> remembered" where
  "remember key code r =
     (let s = insert_key key r
      in case kv_get (rm_failures s) key of
           Some f \<Rightarrow> s\<lparr>rm_failures := kv_put key (count_failure code f) (rm_failures s)\<rparr>
         | None \<Rightarrow> s)"

section \<open>The mark\<close>

definition followed_field :: "json \<Rightarrow> string" where
  "followed_field data = (case filter (contains data) remedy_fields of [] \<Rightarrow> [] | f # fs \<Rightarrow> f)"

definition repeated_mark :: "nat \<Rightarrow> string \<Rightarrow> json" where
  "repeated_mark count follow =
     jobj ([(''count'', JInt (int count)),
            (''note'', JStr (''This call has failed the same way '' @ dec count @ '' times in a row. Sent unchanged it will fail again'' @
               (if follow = [] then ''.'' else ''; do what '' @ follow @ '' says first.'')))] @
           (if follow = [] then [] else [(''follow'', JStr follow)]))"

definition marked_payload :: "json \<Rightarrow> json \<Rightarrow> json \<Rightarrow> json" where
  "marked_payload mark payload e =
     (let data = (case jget e ''data'' of Some (JObj d) \<Rightarrow> JObj d | _ \<Rightarrow> jobj [])
      in jput ''error'' (jput ''data'' (jput ''repeated'' mark data) e) payload)"

fun mark_content :: "(string \<Rightarrow> json option) \<Rightarrow> (json \<Rightarrow> string) \<Rightarrow> json \<Rightarrow> content_item list \<Rightarrow> content_item list" where
  "mark_content parse dump mark [] = []"
| "mark_content parse dump mark (item # items) =
     (case envelope_in parse item of
        Some (payload, e) \<Rightarrow> item\<lparr>ci_text := dump (marked_payload mark payload e)\<rparr> # items
      | None \<Rightarrow> item # mark_content parse dump mark items)"

text \<open>\<open>observe\<close>, on the key of the call.\<close>

definition observe_answer ::
  "(string \<Rightarrow> json option) \<Rightarrow> (json \<Rightarrow> string) \<Rightarrow> string \<Rightarrow> content_item list \<Rightarrow> remembered \<Rightarrow> content_item list \<times> remembered" where
  "observe_answer parse dump key content r =
     (case error_envelope_of parse content of
        None \<Rightarrow> (content, forget key r)
      | Some envelope \<Rightarrow>
          (let s = remember key (failure_code envelope) r;
               count = (case kv_get (rm_failures s) key of Some f \<Rightarrow> fl_count f | None \<Rightarrow> 0)
           in (if count < 2 then content
               else mark_content parse dump (repeated_mark count (followed_field (data_of envelope))) content, s)))"

definition observe_failure ::
  "(string \<Rightarrow> json option) \<Rightarrow> (json \<Rightarrow> string) \<Rightarrow> (string \<Rightarrow> nat) \<Rightarrow> string \<Rightarrow> string \<Rightarrow> json \<Rightarrow> content_item list \<Rightarrow> remembered
     \<Rightarrow> content_item list \<times> remembered" where
  "observe_failure parse dump hash conversation tool arguments content r =
     observe_answer parse dump (call_key dump hash conversation tool arguments) content r"

section \<open>What a history deserves\<close>

text \<open>
  The outcome of an answer is the code of its refusal, or none. A history has the newest call first.
  The streak of a call is how often it failed the same way, last and in a row.
\<close>

type_synonym outcomes = "(string \<times> string option) list"

definition outcome_of :: "(string \<Rightarrow> json option) \<Rightarrow> content_item list \<Rightarrow> string option" where
  "outcome_of parse content = map_option failure_code (error_envelope_of parse content)"

fun streak :: "string \<Rightarrow> outcomes \<Rightarrow> (string \<times> nat) option" where
  "streak key [] = None"
| "streak key ((k, outcome) # h) =
     (if k \<noteq> key then streak key h
      else case outcome of
             None \<Rightarrow> None
           | Some code \<Rightarrow>
               Some (code, case streak key h of Some (c, n) \<Rightarrow> if c = code then n + 1 else 1 | None \<Rightarrow> 1))"

fun remember_outcome :: "string \<times> string option \<Rightarrow> remembered \<Rightarrow> remembered" where
  "remember_outcome (key, None) r = forget key r"
| "remember_outcome (key, Some code) r = remember key code r"

fun remembered_after :: "outcomes \<Rightarrow> remembered" where
  "remembered_after [] = nothing_remembered"
| "remembered_after (e # h) = remember_outcome e (remembered_after h)"

lemma observe_remembers: "snd (observe_answer parse dump key content r) = remember_outcome (key, outcome_of parse content) r"
  by (auto simp: observe_answer_def outcome_of_def Let_def split: option.splits)

section \<open>The memory is bounded\<close>

abbreviation live :: "remembered \<Rightarrow> string list" where
  "live r \<equiv> filter (kv_has (rm_failures r)) (rm_order r)"

definition remembered_ok :: "remembered \<Rightarrow> bool" where
  "remembered_ok r =
     (kv_ok (rm_failures r) \<and> set (keys (rm_failures r)) \<subseteq> set (rm_order r) \<and>
      length (live r) \<le> 4 * k_max_remembered + length (rm_failures r) \<and>
      length (rm_order r) \<le> 5 * k_max_remembered)"

lemma kv_has_kv_del [simp]: "kv_has (kv_del k m) j \<longleftrightarrow> j \<noteq> k \<and> kv_has m j"
  by (auto simp: kv_has_def)

lemma kv_has_keys: "kv_has m k \<longleftrightarrow> k \<in> set (keys m)"
  by (simp add: kv_has_def kv_get_keys)

lemma length_filter_del:
  assumes "kv_has m k" "k \<in> set ks"
  shows "length (filter (kv_has (kv_del k m)) ks) < length (filter (kv_has m) ks)"
proof -
  have "filter (kv_has (kv_del k m)) ks = filter (\<lambda>j. j \<noteq> k) (filter (kv_has m) ks)"
    unfolding filter_filter by (rule filter_cong) auto
  then show ?thesis
    using assms by (simp del: filter_filter kv_has_kv_del add: length_filter_less [of k])
qed

lemma filter_del_absent: "\<not> kv_has m k \<Longrightarrow> kv_del k m = m"
  by (auto simp: kv_del_def kv_has_keys filter_id_conv)

lemma length_del_has: "kv_ok m \<Longrightarrow> kv_has m k \<Longrightarrow> Suc (length (kv_del k m)) = length m"
  by (cases m) (auto simp: length_kv_del kv_has_def)

lemma remembered_ok_forget: "remembered_ok r \<Longrightarrow> remembered_ok (forget key r)"
proof (cases "kv_has (rm_failures r) key")
  case True
  assume ok: "remembered_ok r"
  then have "key \<in> set (rm_order r)"
    using True by (auto simp: remembered_ok_def kv_has_keys)
  then show ?thesis
    using ok length_filter_del [OF True, of "rm_order r"] length_del_has [OF _ True]
    by (auto simp: remembered_ok_def forget_def kv_del_def)
qed (simp add: forget_def filter_del_absent)

lemma remembered_ok_evict:
  assumes "remembered_ok r"
  shows "kv_ok (rm_failures (evict_oldest r))" "set (keys (rm_failures (evict_oldest r))) \<subseteq> set (rm_order (evict_oldest r))"
    "length (live (evict_oldest r)) \<le> 4 * k_max_remembered + length (rm_failures (evict_oldest r))"
    "length (rm_failures (evict_oldest r)) < k_max_remembered \<or> length (rm_order (evict_oldest r)) < 5 * k_max_remembered"
    "length (rm_order (evict_oldest r)) \<le> 5 * k_max_remembered"
proof -
  have ok: "kv_ok (rm_failures r)" "set (keys (rm_failures r)) \<subseteq> set (rm_order r)"
    "length (live r) \<le> 4 * k_max_remembered + length (rm_failures r)" "length (rm_order r) \<le> 5 * k_max_remembered"
    using assms by (auto simp: remembered_ok_def)
  let ?goal = "\<lambda>r. kv_ok (rm_failures r) \<and> set (keys (rm_failures r)) \<subseteq> set (rm_order r) \<and>
     length (live r) \<le> 4 * k_max_remembered + length (rm_failures r) \<and>
     (length (rm_failures r) < k_max_remembered \<or> length (rm_order r) < 5 * k_max_remembered) \<and>
     length (rm_order r) \<le> 5 * k_max_remembered"
  have "?goal (evict_oldest r)"
  proof (cases "length (rm_failures r) \<ge> k_max_remembered")
    case True
    have "rm_failures r \<noteq> []"
      using True by (auto simp: k_max_remembered_def)
    then obtain k ks where order: "rm_order r = k # ks"
      using ok(2) by (cases "rm_order r") auto
    have e: "evict_oldest r = \<lparr>rm_failures = kv_del k (rm_failures r), rm_order = ks\<rparr>"
      using True by (simp add: evict_oldest_def order)
    have "length (live (evict_oldest r)) \<le> 4 * k_max_remembered + length (kv_del k (rm_failures r))"
    proof (cases "kv_has (rm_failures r) k")
      case True
      then show ?thesis
        using ok(3) length_filter_del [OF True, of "k # ks"] length_del_has [OF ok(1) True] by (auto simp: e order)
    next
      case False
      then show ?thesis
        using ok(3) by (simp add: e order filter_del_absent)
    qed
    then show ?thesis
      using ok by (auto simp: e order kv_del_def)
  qed (use ok in \<open>auto simp: evict_oldest_def\<close>)
  then show "kv_ok (rm_failures (evict_oldest r))" "set (keys (rm_failures (evict_oldest r))) \<subseteq> set (rm_order (evict_oldest r))"
    "length (live (evict_oldest r)) \<le> 4 * k_max_remembered + length (rm_failures (evict_oldest r))"
    "length (rm_failures (evict_oldest r)) < k_max_remembered \<or> length (rm_order (evict_oldest r)) < 5 * k_max_remembered"
    "length (rm_order (evict_oldest r)) \<le> 5 * k_max_remembered"
    by auto
qed

lemma evicted_subset: "kv_has (rm_failures (evict_oldest r)) k \<Longrightarrow> kv_has (rm_failures r) k"
  by (auto simp: evict_oldest_def split: if_splits)

lemma live_put:
  assumes "kv_ok m" "\<not> kv_has m key"
  shows "length (filter (kv_has (kv_put key f m)) (ks @ [key])) =
     length (filter (kv_has m) ks) + length (filter (\<lambda>k. k = key) ks) + 1"
  using assms by (induction ks) (auto simp: kv_has_def kv_get_put)

lemma remembered_ok_insert:
  assumes "remembered_ok r"
  shows "remembered_ok (insert_key key r)"
proof (cases "kv_has (rm_failures r) key")
  case False
  define s where "s = evict_oldest r"
  note evicted = remembered_ok_evict [OF assms, folded s_def]
  have fresh: "\<not> kv_has (rm_failures s) key" "kv_get (rm_failures s) key = None"
    using False evicted_subset [of r key] unfolding s_def kv_has_def by blast+
  let ?m = "rm_failures s" and ?f = "\<lparr>fl_code = [], fl_count = 0\<rparr>"
  have inserted: "insert_key key r = \<lparr>rm_failures = kv_put key ?f ?m, rm_order = rm_order (compact_order s) @ [key]\<rparr>"
    using False by (simp add: insert_key_def s_def [symmetric] Let_def compact_order_def)
  have len: "length (kv_put key ?f ?m) = Suc (length ?m)"
    using evicted(1) fresh by (simp add: length_kv_put)
  show ?thesis
  proof (cases "length (rm_order s) \<ge> 4 * k_max_remembered")
    case True
    have none: "filter (\<lambda>k. k = key) (live s) = []"
      using fresh by (auto simp: filter_empty_conv)
    have "length (live s) \<le> length (rm_order s)"
      by simp
    then have "length (live s) + 1 \<le> 5 * k_max_remembered"
      using evicted(3,4,5) unfolding k_max_remembered_def by linarith
    moreover have "set (keys (kv_put key ?f ?m)) \<subseteq> set (live s @ [key])"
      using evicted(2) unfolding keys_kv_put by (auto simp: kv_has_keys)
    moreover have "length (filter (kv_has (kv_put key ?f ?m)) (live s @ [key])) = length (live s) + 1"
      using live_put [OF evicted(1) fresh(1), of ?f "live s"] none by simp
    moreover have "insert_key key r = \<lparr>rm_failures = kv_put key ?f ?m, rm_order = live s @ [key]\<rparr>"
      using True by (simp add: inserted compact_order_def)
    ultimately show ?thesis
      using evicted(1,3) len unfolding remembered_ok_def by simp
  next
    case False
    have "length (filter (kv_has (kv_put key ?f ?m)) (rm_order s @ [key])) \<le> length (rm_order s @ [key])"
      by (rule length_filter_le)
    moreover have "set (keys (kv_put key ?f ?m)) \<subseteq> set (rm_order s @ [key])"
      using evicted(2) unfolding keys_kv_put by auto
    moreover have "insert_key key r = \<lparr>rm_failures = kv_put key ?f ?m, rm_order = rm_order s @ [key]\<rparr>"
      using False by (simp add: inserted compact_order_def)
    ultimately show ?thesis
      using False evicted(1) len unfolding remembered_ok_def by (simp add: k_max_remembered_def)
  qed
qed (use assms in \<open>simp add: insert_key_def\<close>)

lemma insert_key_has: "remembered_ok r \<Longrightarrow> kv_ok (rm_failures (insert_key key r)) \<and> kv_has (rm_failures (insert_key key r)) key"
  using remembered_ok_evict(1) [of r]
  by (auto simp: insert_key_def Let_def kv_has_def kv_get_put remembered_ok_def compact_order_def)

lemma remembered_ok_remember: "remembered_ok r \<Longrightarrow> remembered_ok (remember key code r)"
proof -
  assume r: "remembered_ok r"
  define s where "s = insert_key key r"
  have s: "remembered_ok s" "kv_ok (rm_failures s)" "kv_has (rm_failures s) key"
    using r insert_key_has [OF r] remembered_ok_insert [OF r] by (auto simp: s_def)
  then obtain f where f: "kv_get (rm_failures s) key = Some f"
    by (auto simp: kv_has_def)
  have "kv_has (kv_put key g (rm_failures s)) = kv_has (rm_failures s)" for g
    using s f by (intro ext) (auto simp: kv_has_def kv_get_put)
  moreover have "set (keys (kv_put key g (rm_failures s))) \<subseteq> set (rm_order s)" for g
    using s(1,3) unfolding keys_kv_put by (auto simp: remembered_ok_def kv_has_keys)
  ultimately show ?thesis
    using s f by (auto simp: remember_def s_def [symmetric] Let_def remembered_ok_def length_kv_put)
qed

lemma remembered_ok_after: "remembered_ok (remembered_after h)"
proof (induction h)
  case (Cons e h)
  then show ?case
    by (cases e; cases "snd e") (auto simp: remembered_ok_forget remembered_ok_remember)
qed (simp add: remembered_ok_def nothing_remembered_def)

lemma remembered_bounded: "length (rm_failures (remembered_after h)) \<le> 5 * k_max_remembered"
proof -
  have ok: "remembered_ok (remembered_after h)"
    by (rule remembered_ok_after)
  then have "length (keys (rm_failures (remembered_after h))) = card (set (keys (rm_failures (remembered_after h))))"
    using kv_ok_distinct distinct_card by (metis remembered_ok_def)
  also have "\<dots> \<le> card (set (rm_order (remembered_after h)))"
    using ok by (intro card_mono) (auto simp: remembered_ok_def)
  also have "\<dots> \<le> length (rm_order (remembered_after h))"
    by (rule card_length)
  finally show ?thesis
    using ok by (simp add: remembered_ok_def)
qed

section \<open>The counts are true\<close>

lemma remember_get:
  assumes "remembered_ok r"
  shows "kv_get (rm_failures (remember key code r)) key =
           Some \<lparr>fl_code = code,
             fl_count = (case kv_get (rm_failures r) key of Some f \<Rightarrow> if fl_code f = code then fl_count f + 1 else 1 | None \<Rightarrow> 1)\<rparr>"
    and "j \<noteq> key \<Longrightarrow> kv_get (rm_failures (remember key code r)) j = kv_get (rm_failures (insert_key key r)) j"
proof -
  obtain f where f: "kv_get (rm_failures (insert_key key r)) key = Some f"
    using insert_key_has [OF assms, of key] by (auto simp: kv_has_def)
  have "f = (case kv_get (rm_failures r) key of Some g \<Rightarrow> g | None \<Rightarrow> \<lparr>fl_code = [], fl_count = 0\<rparr>)"
    using f remembered_ok_evict(1) [OF assms]
    by (auto simp: insert_key_def Let_def kv_has_def kv_get_put compact_order_def split: if_splits)
  then show "kv_get (rm_failures (remember key code r)) key =
      Some \<lparr>fl_code = code,
        fl_count = (case kv_get (rm_failures r) key of Some f \<Rightarrow> if fl_code f = code then fl_count f + 1 else 1 | None \<Rightarrow> 1)\<rparr>"
    using f insert_key_has [OF assms, of key]
    by (auto simp: remember_def Let_def kv_get_put count_failure_def split: option.splits)
  show "j \<noteq> key \<Longrightarrow> kv_get (rm_failures (remember key code r)) j = kv_get (rm_failures (insert_key key r)) j"
    using f insert_key_has [OF assms, of key] by (simp add: remember_def Let_def kv_get_put)
qed

lemma insert_key_get:
  assumes "remembered_ok r" "j \<noteq> key" "kv_get (rm_failures (insert_key key r)) j = Some f"
  shows "kv_get (rm_failures r) j = Some f"
  using assms remembered_ok_evict(1) [OF assms(1)]
  by (auto simp: insert_key_def Let_def kv_get_put compact_order_def evict_oldest_def split: if_splits)

lemma counts_within_streak:
  "kv_get (rm_failures (remembered_after h)) key = Some f \<Longrightarrow>
     \<exists>n. streak key h = Some (fl_code f, n) \<and> 1 \<le> fl_count f \<and> fl_count f \<le> n"
proof (induction h arbitrary: f)
  case Nil
  then show ?case by (simp add: nothing_remembered_def)
next
  case (Cons e h)
  obtain k outcome where e: "e = (k, outcome)" by (cases e)
  let ?r = "remembered_after h"
  note ok = remembered_ok_after [of h]
  show ?case
  proof (cases outcome)
    case None
    then show ?thesis
      using Cons by (auto simp: e forget_def split: if_splits)
  next
    case (Some code)
    show ?thesis
    proof (cases "k = key")
      case True
      have f: "f = \<lparr>fl_code = code, fl_count = (case kv_get (rm_failures ?r) key of
          Some g \<Rightarrow> if fl_code g = code then fl_count g + 1 else 1 | None \<Rightarrow> 1)\<rparr>"
        using Cons.prems remember_get(1) [OF ok, of key code] by (simp add: e Some True)
      show ?thesis
      proof (cases "kv_get (rm_failures ?r) key")
        case None
        then show ?thesis by (auto simp: f e Some True split: option.splits)
      next
        case got: (Some g)
        then show ?thesis
          using Cons.IH [OF got] by (auto simp: f e Some True)
      qed
    next
      case False
      then show ?thesis
        using Cons remember_get(2) [OF ok, of key k code] insert_key_get [OF ok, of key k f]
        by (simp add: e Some)
    qed
  qed
qed

lemma streak_in: "streak k h = Some x \<Longrightarrow> k \<in> set (map fst h)"
  by (induction h) (auto split: if_splits)

lemma remembered_in: "kv_has (rm_failures (remembered_after h)) k \<Longrightarrow> k \<in> set (map fst h)"
  unfolding kv_has_def using counts_within_streak streak_in by blast

lemma insert_key_get_exact:
  assumes "remembered_ok r" "length (rm_failures r) < k_max_remembered \<or> kv_has (rm_failures r) key" "j \<noteq> key"
  shows "kv_get (rm_failures (insert_key key r)) j = kv_get (rm_failures r) j"
  using assms by (auto simp: insert_key_def Let_def evict_oldest_def compact_order_def kv_get_put remembered_ok_def)

text \<open>With no more than 256 different calls nothing is ever evicted and the counts are the streaks.\<close>

lemma counts_are_streaks:
  assumes "card (set (map fst h)) \<le> k_max_remembered"
  shows "kv_get (rm_failures (remembered_after h)) key =
     map_option (\<lambda>(code, n). \<lparr>fl_code = code, fl_count = n\<rparr>) (streak key h)"
  using assms
proof (induction h arbitrary: key)
  case Nil
  then show ?case by (simp add: nothing_remembered_def)
next
  case (Cons e h)
  obtain k outcome where e: "e = (k, outcome)" by (cases e)
  let ?r = "remembered_after h"
  note ok = remembered_ok_after [of h]
  have "card (set (map fst h)) \<le> card (set (map fst (e # h)))"
    by (rule card_mono) auto
  then have IH: "kv_get (rm_failures ?r) j = map_option (\<lambda>(code, n). \<lparr>fl_code = code, fl_count = n\<rparr>) (streak j h)" for j
    using Cons by simp
  have room: "length (rm_failures ?r) < k_max_remembered" if new: "\<not> kv_has (rm_failures ?r) k"
  proof -
    have "set (keys (rm_failures ?r)) \<subset> set (map fst (e # h))"
      using remembered_in [of h] new by (auto simp: e kv_has_keys)
    then have "card (set (keys (rm_failures ?r))) < card (set (map fst (e # h)))"
      by (intro psubset_card_mono) auto
    moreover have "card (set (keys (rm_failures ?r))) = length (keys (rm_failures ?r))"
      using ok by (intro distinct_card kv_ok_distinct) (simp add: remembered_ok_def)
    ultimately show ?thesis
      using Cons.prems by simp
  qed
  show ?case
  proof (cases outcome)
    case None
    then show ?thesis by (simp add: e forget_def IH)
  next
    case (Some code)
    show ?thesis
    proof (cases "k = key")
      case True
      then show ?thesis
        using remember_get(1) [OF ok, of key code] IH [of key] by (auto simp: e Some split: option.splits prod.splits)
    next
      case False
      then have "kv_get (rm_failures (insert_key k ?r)) key = kv_get (rm_failures ?r) key"
        using insert_key_get_exact [OF ok] room by metis
      then show ?thesis
        using False remember_get(2) [OF ok, of key k code] IH by (simp add: e Some)
    qed
  qed
qed

section \<open>The memory passes its bound\<close>

lemma fresh_failures:
  assumes "distinct (stale # ks)" "length ks \<le> k_max_remembered"
  shows "\<exists>m. remembered_after (map (\<lambda>k. (k, Some code)) ks @ [(stale, None), (stale, Some code)]) =
               \<lparr>rm_failures = m, rm_order = stale # rev ks\<rparr> \<and> kv_ok m \<and> length m = length ks \<and> set (keys m) = set ks"
  using assms
proof (induction ks)
  case Nil
  show ?case
    by (simp add: remember_def insert_key_def nothing_remembered_def evict_oldest_def compact_order_def forget_def
        kv_del_def kv_has_def k_max_remembered_def)
next
  case (Cons k ks)
  then obtain m where m: "remembered_after (map (\<lambda>k. (k, Some code)) ks @ [(stale, None), (stale, Some code)]) =
      \<lparr>rm_failures = m, rm_order = stale # rev ks\<rparr>" "kv_ok m" "length m = length ks" "set (keys m) = set ks"
    by auto
  let ?f = "\<lparr>fl_code = [], fl_count = 0\<rparr>"
  have new: "\<not> kv_has m k" "kv_get m k = None"
    using m(4) Cons.prems(1) by (auto simp: kv_has_keys kv_get_keys)
  have inserted: "insert_key k \<lparr>rm_failures = m, rm_order = stale # rev ks\<rparr> = \<lparr>rm_failures = kv_put k ?f m, rm_order = stale # rev (k # ks)\<rparr>"
    using new m(3) Cons.prems(2)
    by (simp add: insert_key_def evict_oldest_def compact_order_def k_max_remembered_def)
  define m' where "m' = kv_put k (count_failure code ?f) (kv_put k ?f m)"
  have "kv_ok m'" "length m' = Suc (length m)"
    using m(2) new by (simp_all add: m'_def length_kv_put kv_get_put)
  moreover have "set (keys m') = insert k (set (keys m))"
    unfolding m'_def keys_kv_put by simp
  moreover have "remember k code \<lparr>rm_failures = m, rm_order = stale # rev ks\<rparr> = \<lparr>rm_failures = m', rm_order = stale # rev (k # ks)\<rparr>"
    using m(2) by (simp add: remember_def inserted kv_get_put m'_def)
  ultimately show ?case
    using m by simp
qed

lemma one_more_failure:
  assumes "distinct (last_key # stale # ks)" "length ks = k_max_remembered"
  shows "length (rm_failures (remembered_after
     ((last_key, Some code) # map (\<lambda>k. (k, Some code)) ks @ [(stale, None), (stale, Some code)]))) = k_max_remembered + 1"
proof -
  obtain m where m: "remembered_after (map (\<lambda>k. (k, Some code)) ks @ [(stale, None), (stale, Some code)]) =
      \<lparr>rm_failures = m, rm_order = stale # rev ks\<rparr>" "kv_ok m" "length m = length ks" "set (keys m) = set ks"
    using fresh_failures [of stale ks code] assms by auto
  let ?f = "\<lparr>fl_code = [], fl_count = 0\<rparr>"
  have new: "\<not> kv_has m last_key" "kv_get m last_key = None" "\<not> kv_has m stale"
    using m(4) assms(1) by (auto simp: kv_has_keys kv_get_keys)
  have "insert_key last_key \<lparr>rm_failures = m, rm_order = stale # rev ks\<rparr> =
      \<lparr>rm_failures = kv_put last_key ?f m, rm_order = rev ks @ [last_key]\<rparr>"
    using new m(3) assms(2)
    by (simp add: insert_key_def evict_oldest_def compact_order_def filter_del_absent k_max_remembered_def)
  then show ?thesis
    using m new assms(2) by (simp add: remember_def Let_def kv_get_put length_kv_put)
qed

section \<open>Properties of the marks\<close>

type_synonym answers = "(string \<times> content_item list) list"

definition outcomes_of :: "(string \<Rightarrow> json option) \<Rightarrow> answers \<Rightarrow> outcomes" where
  "outcomes_of parse answers = map (\<lambda>(key, content). (key, outcome_of parse content)) answers"

fun replay :: "(string \<Rightarrow> json option) \<Rightarrow> (json \<Rightarrow> string) \<Rightarrow> answers \<Rightarrow> remembered" where
  "replay parse dump [] = nothing_remembered"
| "replay parse dump ((key, content) # answers) = snd (observe_answer parse dump key content (replay parse dump answers))"

lemma replay_remembers: "replay parse dump answers = remembered_after (outcomes_of parse answers)"
  by (induction answers) (auto simp: outcomes_of_def observe_remembers)

text \<open>The mark a count deserves.\<close>

definition marked_answer :: "(string \<Rightarrow> json option) \<Rightarrow> (json \<Rightarrow> string) \<Rightarrow> nat \<Rightarrow> content_item list \<Rightarrow> content_item list" where
  "marked_answer parse dump count content =
     (case error_envelope_of parse content of
        None \<Rightarrow> content
      | Some envelope \<Rightarrow>
          if count < 2 then content
          else mark_content parse dump (repeated_mark count (followed_field (data_of envelope))) content)"

lemma observe_marks:
  "fst (observe_answer parse dump key content r) =
     marked_answer parse dump (case kv_get (rm_failures (remember_outcome (key, outcome_of parse content) r)) key of
       Some f \<Rightarrow> fl_count f | None \<Rightarrow> 0) content"
  by (auto simp: observe_answer_def marked_answer_def outcome_of_def Let_def split: option.splits)

text \<open>
  Whatever calls came before, a refusal that is marked as repeated tells no more than the truth:
  the call has failed in this way, with nothing else of it between, at least as often as the mark
  says, and at least twice.
\<close>

theorem marks_are_true:
  assumes "fst (observe_answer parse dump key content (replay parse dump answers)) \<noteq> content"
  shows "\<exists>code m n. streak key (outcomes_of parse ((key, content) # answers)) = Some (code, n) \<and> 2 \<le> m \<and> m \<le> n \<and>
     fst (observe_answer parse dump key content (replay parse dump answers)) = marked_answer parse dump m content"
proof -
  let ?h = "outcomes_of parse ((key, content) # answers)"
  have h: "remembered_after ?h = remember_outcome (key, outcome_of parse content) (remembered_after (outcomes_of parse answers))"
    by (simp add: outcomes_of_def)
  obtain f where f: "kv_get (rm_failures (remembered_after ?h)) key = Some f" "2 \<le> fl_count f"
    "fst (observe_answer parse dump key content (replay parse dump answers)) = marked_answer parse dump (fl_count f) content"
    using assms by (auto simp: observe_marks replay_remembers h marked_answer_def split: option.splits if_splits)
  then show ?thesis
    using counts_within_streak [OF f(1)] by blast
qed

text \<open>
  (C35) As long as no more than 256 different calls are made, every answer carries exactly the mark its
  history deserves: the number of times in a row, this one included, that the call has failed in this
  way, from the second time on, and no mark at all on a success or a first failure.
\<close>

theorem marks_are_exact:
  assumes "card (set (map fst ((key, content) # answers))) \<le> k_max_remembered"
  shows "fst (observe_answer parse dump key content (replay parse dump answers)) =
     marked_answer parse dump
       (case streak key (outcomes_of parse ((key, content) # answers)) of Some (code, n) \<Rightarrow> n | None \<Rightarrow> 0) content"
proof -
  let ?h = "outcomes_of parse ((key, content) # answers)"
  have "map fst ?h = map fst ((key, content) # answers)"
    by (auto simp: outcomes_of_def)
  then have "card (set (map fst ?h)) \<le> k_max_remembered"
    using assms by simp
  from counts_are_streaks [OF this, of key] show ?thesis
    by (auto simp: observe_marks replay_remembers outcomes_of_def split: option.splits)
qed

text \<open>A refusal to test with: the item of an answer, and a parser that knows its text.\<close>

definition busy_refusal :: json where
  "busy_refusal = jobj [(''error'', jobj [(''code'', JUInt 409), (''data'', jobj [(''code'', JStr ''busy''), (''next_call'', JStr ''wait'')])])]"

definition busy_answer :: "content_item list" where
  "busy_answer = [make_text ''busy'']"

definition busy_parser :: "string \<Rightarrow> json option" where
  "busy_parser s = (if s = ''busy'' then Some busy_refusal else None)"

definition busy_dump :: "json \<Rightarrow> string" where
  "busy_dump v =
     (case jget (case jget (case jget v ''error'' of Some e \<Rightarrow> e | None \<Rightarrow> JNull) ''data'' of Some d \<Rightarrow> d | None \<Rightarrow> JNull) ''repeated'' of
        Some r \<Rightarrow> (case jget r ''note'' of Some (JStr s) \<Rightarrow> s | _ \<Rightarrow> []) | None \<Rightarrow> [])"

theorem marks_are_exact_witness:
  "map ci_text (fst (observe_answer busy_parser busy_dump ''k'' busy_answer
     (replay busy_parser busy_dump [(''k'', busy_answer), (''j'', []), (''k'', busy_answer)]))) =
   [''This call has failed the same way 3 times in a row. Sent unchanged it will fail again; do what next_call says first.'']"
proof -
  have "card (set (map fst [(''k'', busy_answer), (''k'', busy_answer), (''j'', []), (''k'', busy_answer)])) \<le> k_max_remembered"
    by (rule order_trans [OF card_length]) (simp add: k_max_remembered_def)
  note exact = marks_are_exact [OF this, of busy_parser busy_dump]
  have "streak ''k'' (outcomes_of busy_parser [(''k'', busy_answer), (''k'', busy_answer), (''j'', []), (''k'', busy_answer)]) =
      Some (''busy'', 3)"
    by code_simp
  moreover have "map ci_text (marked_answer busy_parser busy_dump 3 busy_answer) =
      [''This call has failed the same way 3 times in a row. Sent unchanged it will fail again; do what next_call says first.'']"
    by code_simp
  ultimately show ?thesis
    unfolding exact by simp
qed

text \<open>
  (C37) What is remembered stays bounded whatever calls are made: after any history both the failures
  and the order they are dropped in have at most five times 256 entries. The bound the header names
  is 256, and it is passed: after a call that fails and then succeeds, 257 other calls that fail are
  all remembered, since the first one's place in the order is given up instead of the oldest failure.
\<close>

theorem memory_is_bounded:
  "length (rm_failures (replay parse dump answers)) \<le> 5 * k_max_remembered \<and>
   length (rm_order (replay parse dump answers)) \<le> 5 * k_max_remembered \<and>
   (\<exists>h. length (rm_failures (remembered_after h)) = k_max_remembered + 1)"
proof -
  let ?ks = "map dec [2..<258]"
  have "distinct (dec 0 # dec 1 # ?ks)" "length ?ks = k_max_remembered"
    by (auto simp: distinct_map inj_on_def k_max_remembered_def)
  from one_more_failure [OF this] have "\<exists>h. length (rm_failures (remembered_after h)) = k_max_remembered + 1"
    by blast
  then show ?thesis
    using remembered_bounded remembered_ok_after [of "outcomes_of parse answers"]
    by (simp add: replay_remembers remembered_ok_def)
qed

end
