(* ===== verification/Frame_Monitor.thy ===== *)
theory Frame_Monitor
  imports Main
begin

text \<open>
  What the watches that run inside a game have in common: the engine hands them one frame after the
  other until they say they are finished. A watch may stop on its own account, after which it looks
  at nothing more. The invariant watch and the scene exploration interpret the contract.
\<close>

locale frame_monitor =
  fixes observe :: "'f \<Rightarrow> 's \<Rightarrow> bool \<times> 's"
    and stopped :: "'s \<Rightarrow> bool"
    and frames :: "'s \<Rightarrow> nat"
  assumes stopped_stays: "stopped s \<Longrightarrow> observe f s = (True, s)"
    and frame_counted: "\<not> stopped s \<Longrightarrow> frames (snd (observe f s)) = frames s + 1"
    and stop_finishes: "stopped (snd (observe f s)) \<Longrightarrow> fst (observe f s)"
begin

fun run :: "'f list \<Rightarrow> 's \<Rightarrow> 's" where
  "run [] s = s"
| "run (f # fs) s = run fs (snd (observe f s))"

lemma run_append: "run (fs @ gs) s = run gs (run fs s)"
  by (induction fs arbitrary: s) auto

lemma run_stopped: "stopped s \<Longrightarrow> run fs s = s"
  by (induction fs) (auto simp: stopped_stays)

lemma run_snoc: "run (fs @ [f]) s = snd (observe f (run fs s))"
  by (simp add: run_append)

text \<open>A watch that has not stopped has seen every frame.\<close>

lemma frames_running: "\<not> stopped (run fs s) \<Longrightarrow> frames (run fs s) = frames s + length fs"
proof (induction fs arbitrary: s)
  case (Cons f fs)
  then have "\<not> stopped s"
    using run_stopped stopped_stays by (cases "stopped s") auto
  then show ?case
    using Cons frame_counted by simp
qed simp

text \<open>
  A watch that has stopped did so on one frame: the frames before it did not stop it, and it holds
  what that frame left.
\<close>

lemma stopped_on_a_frame:
  assumes "\<not> stopped s" "stopped (run fs s)"
  shows "\<exists>pre f rest. fs = pre @ f # rest \<and> \<not> stopped (run pre s) \<and> stopped (run (pre @ [f]) s) \<and>
           run fs s = run (pre @ [f]) s \<and> frames (run fs s) = frames s + length pre + 1"
  using assms
proof (induction fs rule: rev_induct)
  case (snoc f fs)
  show ?case
  proof (cases "stopped (run fs s)")
    case True
    then obtain pre g rest where pre: "fs = pre @ g # rest" "\<not> stopped (run pre s)" "stopped (run (pre @ [g]) s)"
      "run fs s = run (pre @ [g]) s" "frames (run fs s) = frames s + length pre + 1"
      using snoc by blast
    have "run (fs @ [f]) s = run fs s"
      using True by (simp add: run_append stopped_stays)
    then show ?thesis
      using pre by (intro exI [of _ pre] exI [of _ g] exI [of _ "rest @ [f]"]) simp
  next
    case False
    then show ?thesis
      using snoc.prems frames_running [OF False] frame_counted [OF False]
      by (intro exI [of _ fs] exI [of _ f] exI [of _ "[]"]) (simp add: run_snoc)
  qed
qed simp

lemma frames_bounded: "frames (run fs s) \<le> frames s + length fs"
proof (induction fs arbitrary: s)
  case (Cons f fs)
  show ?case
  proof (cases "stopped s")
    case False
    then show ?thesis
      using Cons [of "snd (observe f s)"] frame_counted [of s f] by simp
  qed (simp add: run_stopped stopped_stays)
qed simp

end

end
