(* ===== verification/Invariant_Watch.thy ===== *)
theory Invariant_Watch
  imports Error_Data Frame_Monitor
begin

text \<open>
  Watching a running game for conditions that must stay true:
  \<open>src/runtime/invariant_watch.cpp\<close>, \<open>include/didi/runtime/invariant_watch.hpp\<close>, the table of
  monitors of \<open>profiler_collector.hpp\<close>, and how \<open>editor_hook.cpp\<close> takes one frame's readings from
  the engine. The engine's monitors, its expressions and its count of errors are arguments. Readings
  are doubles, infinities and NaN included; the counters of frames are natural numbers.
\<close>

section \<open>The request\<close>

datatype invariant_kind = Performance_Between | Expression_Between | No_Engine_Errors

fun kind_name :: "invariant_kind \<Rightarrow> string" where
  "kind_name Performance_Between = ''performance_between''"
| "kind_name Expression_Between = ''expression_between''"
| "kind_name No_Engine_Errors = ''no_engine_errors''"

record profiler_metric =
  pm_name :: string
  pm_unit :: string
  pm_monitor :: int
  pm_category :: string

definition profiler_metrics :: "profiler_metric list" where
  "profiler_metrics =
     [\<lparr>pm_name = ''TIME_FPS'', pm_unit = ''fps'', pm_monitor = 0, pm_category = ''frame''\<rparr>,
      \<lparr>pm_name = ''TIME_PROCESS'', pm_unit = ''seconds'', pm_monitor = 1, pm_category = ''process''\<rparr>,
      \<lparr>pm_name = ''TIME_PHYSICS_PROCESS'', pm_unit = ''seconds'', pm_monitor = 2, pm_category = ''process''\<rparr>,
      \<lparr>pm_name = ''PHYSICS_2D_ACTIVE_OBJECTS'', pm_unit = ''count'', pm_monitor = 17, pm_category = ''physics''\<rparr>,
      \<lparr>pm_name = ''PHYSICS_2D_COLLISION_PAIRS'', pm_unit = ''count'', pm_monitor = 18, pm_category = ''physics''\<rparr>,
      \<lparr>pm_name = ''PHYSICS_3D_ACTIVE_OBJECTS'', pm_unit = ''count'', pm_monitor = 20, pm_category = ''physics''\<rparr>,
      \<lparr>pm_name = ''PHYSICS_3D_COLLISION_PAIRS'', pm_unit = ''count'', pm_monitor = 21, pm_category = ''physics''\<rparr>,
      \<lparr>pm_name = ''RENDER_TOTAL_OBJECTS_IN_FRAME'', pm_unit = ''count'', pm_monitor = 11, pm_category = ''render''\<rparr>,
      \<lparr>pm_name = ''RENDER_TOTAL_PRIMITIVES_IN_FRAME'', pm_unit = ''count'', pm_monitor = 12, pm_category = ''render''\<rparr>,
      \<lparr>pm_name = ''RENDER_TOTAL_DRAW_CALLS_IN_FRAME'', pm_unit = ''count'', pm_monitor = 13, pm_category = ''render''\<rparr>]"

record invariant_spec =
  iv_name :: string
  iv_kind :: invariant_kind
  iv_metric_index :: nat
  iv_context_node :: string
  iv_expression :: string
  iv_minimum :: "dbl option"
  iv_maximum :: "dbl option"

record watch_request =
  wr_duration_ms :: int
  wr_pause_on_violation :: bool
  wr_invariants :: "invariant_spec list"

definition bound_value :: "json \<Rightarrow> string \<Rightarrow> (refusal, dbl) result" where
  "bound_value v field =
     (if \<not> is_number v then Inl (invalid_argument (field @ '' must be a number''))
      else if \<not> is_finite (double_of v) then Inl (invalid_argument (field @ '' must be finite''))
      else Inr (double_of v))"

fun bounded_string :: "json \<Rightarrow> string \<Rightarrow> nat \<Rightarrow> (refusal, string) result" where
  "bounded_string (JStr text) field maximum =
     (if text = [] \<or> length text > maximum
      then Inl (invalid_argument (field @ '' must be 1 to '' @ dec maximum @ '' bytes'')) else Inr text)"
| "bounded_string v field maximum = Inl (invalid_argument (field @ '' must be a string''))"

definition optional_bound :: "json \<Rightarrow> string \<Rightarrow> (refusal, dbl option) result" where
  "optional_bound v field =
     (case jget v field of None \<Rightarrow> Inr None | Some x \<Rightarrow> rbind (bound_value x field) (\<lambda>d. Inr (Some d)))"

definition optional_string :: "json \<Rightarrow> string \<Rightarrow> nat \<Rightarrow> string \<Rightarrow> (refusal, string) result" where
  "optional_string v field maximum missing =
     (case jget v field of None \<Rightarrow> Inr missing | Some x \<Rightarrow> bounded_string x field maximum)"

definition parse_kind :: "string \<Rightarrow> (refusal, invariant_kind) result" where
  "parse_kind kind =
     (if kind = ''performance_between'' then Inr Performance_Between
      else if kind = ''expression_between'' then Inr Expression_Between
      else if kind = ''no_engine_errors'' then Inr No_Engine_Errors
      else Inl (invalid_argument ''kind must be performance_between, expression_between, or no_engine_errors''))"

fun metric_position :: "string \<Rightarrow> profiler_metric list \<Rightarrow> nat option" where
  "metric_position name [] = None"
| "metric_position name (m # ms) = (if pm_name m = name then Some 0 else map_option Suc (metric_position name ms))"

definition parse_metric :: "json \<Rightarrow> (refusal, nat) result" where
  "parse_metric v =
     rbind (bounded_string (member_or_null v ''metric'') ''metric'' 64)
       (\<lambda>metric. case metric_position metric profiler_metrics of
          None \<Rightarrow> Inl (invalid_argument (''metric is not one of the readable Performance monitors: '' @ metric))
        | Some i \<Rightarrow> Inr i)"

definition parse_bounds :: "json \<Rightarrow> invariant_spec \<Rightarrow> (refusal, invariant_spec) result" where
  "parse_bounds v spec =
     rbind (optional_bound v ''minimum'') (\<lambda>minimum.
     rbind (optional_bound v ''maximum'') (\<lambda>maximum.
       if minimum = None \<and> maximum = None then
         Inl (invalid_argument (''an invariant of kind '' @ kind_name (iv_kind spec) @
           '' needs a minimum, a maximum, or both; without one it cannot be violated''))
       else case (minimum, maximum) of
              (Some lo, Some hi) \<Rightarrow>
                if dbl_less hi lo then Inl (invalid_argument ''minimum must not be greater than maximum'')
                else Inr (spec\<lparr>iv_minimum := minimum, iv_maximum := maximum\<rparr>)
            | _ \<Rightarrow> Inr (spec\<lparr>iv_minimum := minimum, iv_maximum := maximum\<rparr>)))"

definition new_spec :: "string \<Rightarrow> invariant_kind \<Rightarrow> invariant_spec" where
  "new_spec name kind =
     \<lparr>iv_name = name, iv_kind = kind, iv_metric_index = 0, iv_context_node = [], iv_expression = [], iv_minimum = None,
      iv_maximum = None\<rparr>"

fun parse_subject :: "json \<Rightarrow> invariant_spec \<Rightarrow> (refusal, invariant_spec) result" where
  "parse_subject v spec =
     (case iv_kind spec of
        Performance_Between \<Rightarrow> rbind (parse_metric v) (\<lambda>i. Inr (spec\<lparr>iv_metric_index := i\<rparr>))
      | Expression_Between \<Rightarrow>
          rbind (bounded_string (member_or_null v ''expression'') ''expression'' 512) (\<lambda>expression.
          rbind (optional_string v ''context_node'' 256 []) (\<lambda>context.
            Inr (spec\<lparr>iv_expression := expression, iv_context_node := context\<rparr>)))
      | No_Engine_Errors \<Rightarrow> Inr spec)"

definition parse_invariant :: "json \<Rightarrow> nat \<Rightarrow> (refusal, invariant_spec) result" where
  "parse_invariant v position =
     (if \<not> is_object v then Inl (invalid_argument ''Each invariant must be an object'')
      else
        rbind (optional_string v ''name'' 64 (''invariant_'' @ dec position)) (\<lambda>name.
        rbind (bounded_string (member_or_null v ''kind'') ''kind'' 64) (\<lambda>kind_text.
        rbind (parse_kind kind_text) (\<lambda>kind.
        rbind (parse_subject v (new_spec name kind)) (\<lambda>spec.
          if kind = No_Engine_Errors then Inr spec else parse_bounds v spec)))))"

fun parse_invariants :: "json list \<Rightarrow> nat \<Rightarrow> (refusal, invariant_spec list) result" where
  "parse_invariants [] position = Inr []"
| "parse_invariants (v # vs) position =
     rbind (parse_invariant v position) (\<lambda>spec.
     rbind (parse_invariants vs (position + 1)) (\<lambda>specs. Inr (spec # specs)))"

definition parse_duration :: "json \<Rightarrow> (refusal, int) result" where
  "parse_duration params =
     (case jget params ''duration_ms'' of
        None \<Rightarrow> Inr 2000
      | Some v \<Rightarrow>
          if \<not> is_number_integer v \<or> int64_of v < 1 \<or> int64_of v > 30000
          then Inl (invalid_argument ''duration_ms must be an integer from 1 to 30000'') else Inr (int64_of v))"

definition parse_pause :: "json \<Rightarrow> (refusal, bool) result" where
  "parse_pause params =
     (case jget params ''pause_on_violation'' of
        None \<Rightarrow> Inr True
      | Some (JBool b) \<Rightarrow> Inr b
      | Some v \<Rightarrow> Inl (invalid_argument ''pause_on_violation must be a boolean''))"

definition parse_invariant_watch_request :: "json \<Rightarrow> (refusal, watch_request) result" where
  "parse_invariant_watch_request params =
     (if \<not> is_object params then Inl (invalid_argument ''Invariant watch params must be an object'')
      else
        rbind (parse_duration params) (\<lambda>duration.
        rbind (parse_pause params) (\<lambda>pause.
          case jget params ''invariants'' of
            Some (JArr invariants) \<Rightarrow>
              if invariants = [] \<or> length invariants > 8 then Inl (invalid_argument ''invariants must contain 1 to 8 entries'')
              else rbind (parse_invariants invariants 0) (\<lambda>specs.
                Inr \<lparr>wr_duration_ms = duration, wr_pause_on_violation = pause, wr_invariants = specs\<rparr>)
          | _ \<Rightarrow> Inl (invalid_argument ''invariants must be an array''))))"

section \<open>One frame\<close>

record invariant_reading =
  ir_value :: "dbl option"
  ir_read_error :: string

definition no_reading :: invariant_reading where
  "no_reading = \<lparr>ir_value = None, ir_read_error = []\<rparr>"

record invariant_sample =
  sm_readings :: "invariant_reading list"
  sm_engine_errors :: int

record observed =
  ob_readings :: nat
  ob_minimum :: dbl
  ob_maximum :: dbl
  ob_last :: dbl
  ob_last_read_error :: string

record violation =
  vi_index :: nat
  vi_value :: dbl
  vi_bound :: string
  vi_limit :: dbl
  vi_elapsed_ms :: int
  vi_sample :: nat
  vi_engine_errors :: int

record invariant_watch =
  wt_request :: watch_request
  wt_observed :: "observed list"
  wt_violation :: "violation option"
  wt_samples :: nat
  wt_last_elapsed_ms :: int

definition nothing_observed :: observed where
  "nothing_observed =
     \<lparr>ob_readings = 0, ob_minimum = Fin 0, ob_maximum = Fin 0, ob_last = Fin 0, ob_last_read_error = []\<rparr>"

definition new_watch :: "watch_request \<Rightarrow> invariant_watch" where
  "new_watch request =
     \<lparr>wt_request = request, wt_observed = replicate (length (wr_invariants request)) nothing_observed, wt_violation = None,
      wt_samples = 0, wt_last_elapsed_ms = 0\<rparr>"

definition note_value :: "dbl \<Rightarrow> observed \<Rightarrow> observed" where
  "note_value v seen =
     seen\<lparr>ob_readings := ob_readings seen + 1,
       ob_minimum := (if ob_readings seen = 0 then v else dbl_min (ob_minimum seen) v),
       ob_maximum := (if ob_readings seen = 0 then v else dbl_max (ob_maximum seen) v),
       ob_last := v\<rparr>"

definition reading_at :: "invariant_sample \<Rightarrow> nat \<Rightarrow> invariant_reading" where
  "reading_at sample i = (if i < length (sm_readings sample) then sm_readings sample ! i else no_reading)"

text \<open>The bound a value breaks, with its limit.\<close>

definition bound_broken :: "invariant_spec \<Rightarrow> dbl \<Rightarrow> (string \<times> dbl) option" where
  "bound_broken spec v =
     (case iv_minimum spec of
        Some lo \<Rightarrow> if dbl_less v lo then Some (''minimum'', lo)
          else (case iv_maximum spec of Some hi \<Rightarrow> if dbl_less hi v then Some (''maximum'', hi) else None | None \<Rightarrow> None)
      | None \<Rightarrow> (case iv_maximum spec of Some hi \<Rightarrow> if dbl_less hi v then Some (''maximum'', hi) else None | None \<Rightarrow> None))"

definition look_at ::
  "invariant_spec \<Rightarrow> invariant_sample \<Rightarrow> nat \<Rightarrow> observed \<Rightarrow> observed \<times> (dbl \<times> string \<times> dbl) option" where
  "look_at spec sample i seen =
     (if iv_kind spec = No_Engine_Errors then
        let v = int_to_dbl (sm_engine_errors sample)
        in (note_value v seen, if sm_engine_errors sample > 0 then Some (v, ''maximum'', Fin 0) else None)
      else
        case ir_value (reading_at sample i) of
          None \<Rightarrow>
            (if ir_read_error (reading_at sample i) \<noteq> []
             then seen\<lparr>ob_last_read_error := ir_read_error (reading_at sample i)\<rparr> else seen, None)
        | Some v \<Rightarrow> (note_value v seen, map_option (\<lambda>(bound, limit). (v, bound, limit)) (bound_broken spec v)))"

fun look_through ::
  "invariant_sample \<Rightarrow> nat \<Rightarrow> invariant_spec list \<Rightarrow> observed list \<Rightarrow> observed list \<times> (nat \<times> dbl \<times> string \<times> dbl) option" where
  "look_through sample i [] observed = (observed, None)"
| "look_through sample i (spec # specs) observed =
     (let (seen, hit) = look_at spec sample i (observed ! i); observed' = observed[i := seen]
      in case hit of Some h \<Rightarrow> (observed', Some (i, h)) | None \<Rightarrow> look_through sample (i + 1) specs observed')"

fun watch_observe :: "int \<times> invariant_sample \<Rightarrow> invariant_watch \<Rightarrow> bool \<times> invariant_watch" where
  "watch_observe (elapsed_ms, sample) w =
     (if wt_violation w \<noteq> None then (True, w)
      else
        let (observed, hit) = look_through sample 0 (wr_invariants (wt_request w)) (wt_observed w);
            w' = w\<lparr>wt_last_elapsed_ms := elapsed_ms, wt_samples := wt_samples w + 1, wt_observed := observed\<rparr>
        in case hit of
             Some (i, v, bound, limit) \<Rightarrow>
               (True, w'\<lparr>wt_violation := Some \<lparr>vi_index = i, vi_value = v, vi_bound = bound, vi_limit = limit,
                  vi_elapsed_ms = elapsed_ms, vi_sample = wt_samples w + 1, vi_engine_errors = sm_engine_errors sample\<rparr>\<rparr>)
           | None \<Rightarrow> (elapsed_ms \<ge> wr_duration_ms (wt_request w), w'))"

section \<open>The report\<close>

definition watch_outcome :: "invariant_watch \<Rightarrow> string" where
  "watch_outcome w =
     (if wt_violation w \<noteq> None then ''violated''
      else if list_all (\<lambda>seen. ob_readings seen \<noteq> 0) (wt_observed w) then ''held'' else ''inconclusive'')"

definition observed_entry :: "invariant_spec \<Rightarrow> observed \<Rightarrow> json" where
  "observed_entry spec seen =
     jobj ([(''name'', JStr (iv_name spec)), (''kind'', JStr (kind_name (iv_kind spec))), (''readings'', JInt (int (ob_readings seen)))] @
       (if ob_readings seen > 0
        then [(''minimum_observed'', JFloat (ob_minimum seen)), (''maximum_observed'', JFloat (ob_maximum seen)),
              (''last_observed'', JFloat (ob_last seen))] else []) @
       (if ob_last_read_error seen \<noteq> [] then [(''read_error'', JStr (ob_last_read_error seen))] else []))"

definition violation_report :: "invariant_spec \<Rightarrow> violation \<Rightarrow> json" where
  "violation_report spec v =
     jobj ([(''name'', JStr (iv_name spec)), (''kind'', JStr (kind_name (iv_kind spec))), (''observed'', JFloat (vi_value v)),
            (''elapsed_ms'', JInt (vi_elapsed_ms v)), (''sample'', JInt (int (vi_sample v)))] @
       (if iv_kind spec = No_Engine_Errors then [(''engine_errors'', JInt (vi_engine_errors v))]
        else [(''bound'', JStr (vi_bound v)), (''limit'', JFloat (vi_limit v))]) @
       (if iv_kind spec = Performance_Between then [(''metric'', JStr (pm_name (profiler_metrics ! iv_metric_index spec)))] else []) @
       (if iv_kind spec = Expression_Between
        then (''expression'', JStr (iv_expression spec)) #
             (if iv_context_node spec \<noteq> [] then [(''context_node'', JStr (iv_context_node spec))] else [])
        else []))"

definition watch_limitations :: json where
  "watch_limitations =
     JArr [JStr (''Sampling is once per engine frame for the requested window. A '' @
                 ''condition that is false between two frames is not observed.''),
           JStr (''An invariant whose value could never be read is reported with zero '' @
                 ''readings and makes the outcome inconclusive, never held.''),
           JStr (''no_engine_errors sees error-level engine output, which is what an '' @
                 ''unhandled script error looks like from outside the script. It is '' @ ''not a debugger and has no call stack.'')]"

definition watch_response :: "bool \<Rightarrow> invariant_watch \<Rightarrow> json" where
  "watch_response paused w =
     (let specs = wr_invariants (wt_request w);
          result = jobj [(''outcome'', JStr (watch_outcome w)), (''duration_ms'', JInt (wr_duration_ms (wt_request w))),
            (''elapsed_ms'', JInt (wt_last_elapsed_ms w)), (''samples'', JInt (int (wt_samples w))),
            (''invariants'', JArr (map2 observed_entry specs (wt_observed w))), (''paused'', JBool paused),
            (''limitations'', watch_limitations)]
      in case wt_violation w of
           None \<Rightarrow> result
         | Some v \<Rightarrow> jput ''violation'' (violation_report (specs ! vi_index v) v) result)"

section \<open>A frame of the engine\<close>

text \<open>
  How the extension reads one frame: the monitors of the performance invariants are sampled in one call,
  whose values come in the order asked, and each expression is evaluated on its own. A value that is
  neither a number nor a boolean is a reading that failed.
\<close>

definition monitors_asked :: "invariant_spec list \<Rightarrow> int list" where
  "monitors_asked specs =
     map (\<lambda>spec. pm_monitor (profiler_metrics ! iv_metric_index spec)) (filter (\<lambda>spec. iv_kind spec = Performance_Between) specs)"

definition expression_params :: "invariant_spec \<Rightarrow> json" where
  "expression_params spec =
     jobj ([(''expression'', JStr (iv_expression spec)), (''timeout_ms'', JInt 50)] @
       (if iv_context_node spec \<noteq> [] then [(''context_node'', JStr (iv_context_node spec))] else []))"

definition expression_reading :: "json \<Rightarrow> (json_exn, invariant_reading) result" where
  "expression_reading evaluated =
     (case jget evaluated ''error'' of
        Some e \<Rightarrow> rbind (value_string e ''message'' ''expression failed'') (\<lambda>msg. Inr (no_reading\<lparr>ir_read_error := msg\<rparr>))
      | None \<Rightarrow>
          if \<not> is_object evaluated then Inl Type_Error
          else
            Inr (case member_or_null evaluated ''value'' of
                   JBool b \<Rightarrow> no_reading\<lparr>ir_value := Some (Fin (if b then 1 else 0))\<rparr>
                 | v \<Rightarrow>
                     if is_number v then no_reading\<lparr>ir_value := Some (double_of v)\<rparr>
                     else no_reading\<lparr>ir_read_error := ''expression did not evaluate to a number or a boolean''\<rparr>))"

fun engine_readings ::
  "(json \<Rightarrow> json) \<Rightarrow> (string, dbl list) result \<Rightarrow> invariant_spec list \<Rightarrow> (json_exn, invariant_reading list) result" where
  "engine_readings evaluate monitors [] = Inr []"
| "engine_readings evaluate monitors (spec # specs) =
     (case iv_kind spec of
        Performance_Between \<Rightarrow>
          (case monitors of
             Inl e \<Rightarrow> rbind (engine_readings evaluate monitors specs) (\<lambda>rs. Inr (no_reading\<lparr>ir_read_error := e\<rparr> # rs))
           | Inr vs \<Rightarrow>
               rbind (engine_readings evaluate (Inr (tl vs)) specs) (\<lambda>rs. Inr (no_reading\<lparr>ir_value := Some (hd vs)\<rparr> # rs)))
      | Expression_Between \<Rightarrow>
          rbind (expression_reading (evaluate (expression_params spec))) (\<lambda>r.
          rbind (engine_readings evaluate monitors specs) (\<lambda>rs. Inr (r # rs)))
      | No_Engine_Errors \<Rightarrow> rbind (engine_readings evaluate monitors specs) (\<lambda>rs. Inr (no_reading # rs)))"

definition engine_sample ::
  "(int list \<Rightarrow> (string, dbl list) result) \<Rightarrow> (json \<Rightarrow> json) \<Rightarrow> int \<Rightarrow> invariant_spec list \<Rightarrow> (json_exn, invariant_sample) result" where
  "engine_sample sample_monitors evaluate errors specs =
     rbind (engine_readings evaluate (if monitors_asked specs = [] then Inr [] else sample_monitors (monitors_asked specs)) specs)
       (\<lambda>readings. Inr \<lparr>sm_readings = readings, sm_engine_errors = errors\<rparr>)"

lemma length_engine_readings: "engine_readings evaluate monitors specs = Inr rs \<Longrightarrow> length rs = length specs"
  by (induction specs arbitrary: monitors rs)
     (auto simp: result_simps split: invariant_kind.splits sum.splits)

section \<open>What a frame says\<close>

text \<open>The value a frame has for an invariant, and whether it breaks it. The state of the watch plays no part.\<close>

definition value_read :: "invariant_spec \<Rightarrow> nat \<Rightarrow> invariant_sample \<Rightarrow> dbl option" where
  "value_read spec i sample =
     (if iv_kind spec = No_Engine_Errors then Some (int_to_dbl (sm_engine_errors sample)) else ir_value (reading_at sample i))"

definition within_bounds :: "invariant_spec \<Rightarrow> dbl \<Rightarrow> bool" where
  "within_bounds spec v =
     ((\<forall>lo. iv_minimum spec = Some lo \<longrightarrow> \<not> dbl_less v lo) \<and> (\<forall>hi. iv_maximum spec = Some hi \<longrightarrow> \<not> dbl_less hi v))"

definition breaks :: "invariant_spec \<Rightarrow> nat \<Rightarrow> invariant_sample \<Rightarrow> bool" where
  "breaks spec i sample =
     (if iv_kind spec = No_Engine_Errors then sm_engine_errors sample > 0
      else \<exists>v. ir_value (reading_at sample i) = Some v \<and> \<not> within_bounds spec v)"

definition frame_breaks :: "invariant_spec list \<Rightarrow> invariant_sample \<Rightarrow> bool" where
  "frame_breaks specs sample = (\<exists>i < length specs. breaks (specs ! i) i sample)"

lemma bound_broken_None: "bound_broken spec v = None \<longleftrightarrow> within_bounds spec v"
  by (auto simp: bound_broken_def within_bounds_def split: option.splits if_splits)

lemma look_at_hit: "snd (look_at spec sample i seen) = None \<longleftrightarrow> \<not> breaks spec i sample"
  by (auto simp: look_at_def breaks_def Let_def bound_broken_None split: option.splits)

text \<open>What is noted of one invariant over the frames it was looked at in.\<close>

definition note_frame :: "invariant_spec \<Rightarrow> nat \<Rightarrow> invariant_sample \<Rightarrow> observed \<Rightarrow> observed" where
  "note_frame spec i sample seen = fst (look_at spec sample i seen)"

lemma note_frame_readings:
  "ob_readings (note_frame spec i sample seen) = ob_readings seen + (if value_read spec i sample = None then 0 else 1)"
  by (auto simp: note_frame_def look_at_def note_value_def value_read_def Let_def split: option.splits)

text \<open>A frame is looked at up to the first invariant it breaks, that one included.\<close>

definition looked_at :: "invariant_spec list \<Rightarrow> invariant_sample \<Rightarrow> nat \<Rightarrow> bool" where
  "looked_at specs sample i = (\<forall>j < i. \<not> breaks (specs ! j) j sample)"

lemma look_through_from:
  assumes "look_through sample i (drop i specs) os = (os', hit)" "i \<le> length specs" "length os = length specs"
    and "looked_at specs sample i"
  shows "length os' = length specs"
    and "\<forall>j < length specs. os' ! j =
       (if i \<le> j \<and> looked_at specs sample j then note_frame (specs ! j) j sample (os ! j) else os ! j)"
    and "hit = None \<longleftrightarrow> \<not> frame_breaks specs sample"
    and "hit = Some (k, h) \<Longrightarrow>
       k < length specs \<and> breaks (specs ! k) k sample \<and> looked_at specs sample k \<and> snd (look_at (specs ! k) sample k (os ! k)) = Some h"
proof -
  let ?ok = "\<lambda>i os. length os' = length specs \<and>
     (\<forall>j < length specs. os' ! j = (if i \<le> j \<and> looked_at specs sample j then note_frame (specs ! j) j sample (os ! j) else os ! j)) \<and>
     (hit = None \<longleftrightarrow> \<not> frame_breaks specs sample) \<and>
     (\<forall>k h. hit = Some (k, h) \<longrightarrow>
       k < length specs \<and> breaks (specs ! k) k sample \<and> looked_at specs sample k \<and> snd (look_at (specs ! k) sample k (os ! k)) = Some h)"
  have "?ok i os"
    using assms
  proof (induction "length specs - i" arbitrary: i os)
    case 0
    then show ?case
      by (auto simp: frame_breaks_def looked_at_def)
  next
    case (Suc d)
    have i: "i < length specs"
      using Suc.hyps(2) by simp
    obtain seen found where look: "look_at (specs ! i) sample i (os ! i) = (seen, found)"
      by fastforce
    have seen: "seen = note_frame (specs ! i) i sample (os ! i)"
      by (simp add: note_frame_def look)
    have cases: "look_through sample i (drop i specs) os =
        (case found of Some h \<Rightarrow> (os[i := seen], Some (i, h)) | None \<Rightarrow> look_through sample (Suc i) (drop (Suc i) specs) (os[i := seen]))"
      by (simp add: Cons_nth_drop_Suc [OF i, symmetric] look Let_def)
    show ?case
    proof (cases found)
      case None
      then have looked: "looked_at specs sample (Suc i)"
        using look_at_hit [of "specs ! i" sample i "os ! i"] Suc.prems(4) by (auto simp: look looked_at_def less_Suc_eq)
      have "?ok (Suc i) (os[i := seen])"
        using Suc.hyps(1) [of "Suc i" "os[i := seen]"] Suc.hyps(2) Suc.prems cases None looked i by simp
      then show ?thesis
        using Suc.prems(3,4) i looked seen by (auto simp: nth_list_update looked_at_def split: if_splits)
    next
      case (Some h)
      then have broken: "breaks (specs ! i) i sample"
        using look_at_hit [of "specs ! i" sample i "os ! i"] by (simp add: look)
      then have "\<not> looked_at specs sample j" if "i < j" for j
        using that by (auto simp: looked_at_def)
      then show ?thesis
        using Suc.prems cases Some i broken look seen
        by (auto simp: nth_list_update frame_breaks_def dest: le_neq_implies_less)
    qed
  qed
  then show "length os' = length specs"
    "\<forall>j < length specs. os' ! j =
       (if i \<le> j \<and> looked_at specs sample j then note_frame (specs ! j) j sample (os ! j) else os ! j)"
    "hit = None \<longleftrightarrow> \<not> frame_breaks specs sample"
    "hit = Some (k, h) \<Longrightarrow>
       k < length specs \<and> breaks (specs ! k) k sample \<and> looked_at specs sample k \<and> snd (look_at (specs ! k) sample k (os ! k)) = Some h"
    by blast+
qed

section \<open>A watch over its frames\<close>

abbreviation specs_of :: "invariant_watch \<Rightarrow> invariant_spec list" where
  "specs_of w \<equiv> wr_invariants (wt_request w)"

definition watch_ok :: "invariant_watch \<Rightarrow> bool" where
  "watch_ok w = (length (wt_observed w) = length (specs_of w))"

lemma observe_frame:
  assumes "wt_violation w = None" "watch_ok w"
  shows "wt_request (snd (watch_observe (t, sample) w)) = wt_request w"
    and "watch_ok (snd (watch_observe (t, sample) w))"
    and "wt_last_elapsed_ms (snd (watch_observe (t, sample) w)) = t"
    and "wt_samples (snd (watch_observe (t, sample) w)) = wt_samples w + 1"
    and "i < length (specs_of w) \<Longrightarrow> wt_observed (snd (watch_observe (t, sample) w)) ! i =
       (if looked_at (specs_of w) sample i then note_frame (specs_of w ! i) i sample (wt_observed w ! i) else wt_observed w ! i)"
    and "wt_violation (snd (watch_observe (t, sample) w)) = None \<longleftrightarrow> \<not> frame_breaks (specs_of w) sample"
    and "wt_violation (snd (watch_observe (t, sample) w)) = Some v \<Longrightarrow>
       vi_index v < length (specs_of w) \<and> breaks (specs_of w ! vi_index v) (vi_index v) sample \<and>
       looked_at (specs_of w) sample (vi_index v) \<and> vi_elapsed_ms v = t \<and> vi_sample v = wt_samples w + 1 \<and>
       vi_engine_errors v = sm_engine_errors sample \<and>
       snd (look_at (specs_of w ! vi_index v) sample (vi_index v) (wt_observed w ! vi_index v)) = Some (vi_value v, vi_bound v, vi_limit v)"
proof -
  obtain os hit where look: "look_through sample 0 (specs_of w) (wt_observed w) = (os, hit)"
    by fastforce
  have "look_through sample 0 (drop 0 (specs_of w)) (wt_observed w) = (os, hit)" "looked_at (specs_of w) sample 0"
    using look by (simp_all add: looked_at_def)
  note through = look_through_from [OF this(1) _ _ this(2), simplified, OF assms(2) [unfolded watch_ok_def]]
  let ?w = "snd (watch_observe (t, sample) w)"
  have basic: "wt_request ?w = wt_request w" "wt_last_elapsed_ms ?w = t" "wt_samples ?w = wt_samples w + 1" "wt_observed ?w = os"
    "wt_violation ?w = (case hit of None \<Rightarrow> None | Some (i, v, bound, limit) \<Rightarrow>
       Some \<lparr>vi_index = i, vi_value = v, vi_bound = bound, vi_limit = limit, vi_elapsed_ms = t, vi_sample = wt_samples w + 1,
         vi_engine_errors = sm_engine_errors sample\<rparr>)"
    using assms(1) by (auto simp: look Let_def split: option.splits)
  show "wt_request ?w = wt_request w" "watch_ok ?w" "wt_last_elapsed_ms ?w = t" "wt_samples ?w = wt_samples w + 1"
    using through(1) by (simp_all add: basic watch_ok_def assms(2) [unfolded watch_ok_def] del: watch_observe.simps)
  show "wt_observed ?w ! i = (if looked_at (specs_of w) sample i then note_frame (specs_of w ! i) i sample (wt_observed w ! i)
      else wt_observed w ! i)" if "i < length (specs_of w)"
    using through(2) that by (simp add: basic del: watch_observe.simps)
  show "wt_violation ?w = None \<longleftrightarrow> \<not> frame_breaks (specs_of w) sample"
    unfolding basic through(3) [symmetric] by (auto split: option.splits)
  show "vi_index v < length (specs_of w) \<and> breaks (specs_of w ! vi_index v) (vi_index v) sample \<and>
       looked_at (specs_of w) sample (vi_index v) \<and> vi_elapsed_ms v = t \<and> vi_sample v = wt_samples w + 1 \<and>
       vi_engine_errors v = sm_engine_errors sample \<and>
       snd (look_at (specs_of w ! vi_index v) sample (vi_index v) (wt_observed w ! vi_index v)) = Some (vi_value v, vi_bound v, vi_limit v)"
    if "wt_violation ?w = Some v"
    using that through(4) unfolding basic by (auto split: option.splits)
qed

interpretation watch: frame_monitor watch_observe "\<lambda>w. wt_violation w \<noteq> None" wt_samples
  by unfold_locales (auto simp: Let_def split: prod.splits option.splits)

text \<open>The frames that count for an invariant: a frame that breaks an earlier one is not looked at, and it is the last.\<close>

fun frames_for :: "invariant_spec list \<Rightarrow> nat \<Rightarrow> (int \<times> invariant_sample) list \<Rightarrow> invariant_sample list" where
  "frames_for specs i [] = []"
| "frames_for specs i ((t, sample) # frames) =
     (if frame_breaks specs sample then if looked_at specs sample i then [sample] else []
      else sample # frames_for specs i frames)"

definition noted :: "invariant_spec \<Rightarrow> nat \<Rightarrow> invariant_sample list \<Rightarrow> observed \<Rightarrow> observed" where
  "noted spec i samples seen = fold (note_frame spec i) samples seen"

lemma not_broken_looked: "\<not> frame_breaks specs sample \<Longrightarrow> i < length specs \<Longrightarrow> looked_at specs sample i"
  by (auto simp: frame_breaks_def looked_at_def)

lemma run_observes:
  assumes "wt_violation w = None" "watch_ok w"
  shows "wt_request (watch.run frames w) = wt_request w"
    and "watch_ok (watch.run frames w)"
    and "i < length (specs_of w) \<Longrightarrow>
       wt_observed (watch.run frames w) ! i = noted (specs_of w ! i) i (frames_for (specs_of w) i frames) (wt_observed w ! i)"
    and "wt_violation (watch.run frames w) = None \<longleftrightarrow> (\<forall>f \<in> set frames. \<not> frame_breaks (specs_of w) (snd f))"
proof -
  have "wt_request (watch.run frames w) = wt_request w \<and> watch_ok (watch.run frames w) \<and>
      (i < length (specs_of w) \<longrightarrow>
       wt_observed (watch.run frames w) ! i = noted (specs_of w ! i) i (frames_for (specs_of w) i frames) (wt_observed w ! i)) \<and>
      (wt_violation (watch.run frames w) = None \<longleftrightarrow> (\<forall>f \<in> set frames. \<not> frame_breaks (specs_of w) (snd f)))"
    using assms
  proof (induction frames arbitrary: w)
    case (Cons f frames)
    obtain t sample where f: "f = (t, sample)" by (cases f)
    let ?w = "snd (watch_observe f w)"
    note step = observe_frame [OF Cons.prems, where t = t and sample = sample, folded f]
    show ?case
    proof (cases "frame_breaks (specs_of w) sample")
      case True
      then have "watch.run frames ?w = ?w"
        using step(6) by (intro watch.run_stopped) simp
      then show ?thesis
        using True step(1,2) step(5) [where i = i] step(6) by (auto simp: f noted_def simp del: watch_observe.simps)
    next
      case False
      then have "wt_violation ?w = None"
        using step(6) by simp
      from Cons.IH [OF this step(2)] show ?thesis
        using False step(1) step(5) [where i = i] not_broken_looked [OF False, of i] by (auto simp: f noted_def simp del: watch_observe.simps)
    qed
  qed (simp add: noted_def)
  then show "wt_request (watch.run frames w) = wt_request w" "watch_ok (watch.run frames w)"
    "i < length (specs_of w) \<Longrightarrow>
       wt_observed (watch.run frames w) ! i = noted (specs_of w ! i) i (frames_for (specs_of w) i frames) (wt_observed w ! i)"
    "wt_violation (watch.run frames w) = None \<longleftrightarrow> (\<forall>f \<in> set frames. \<not> frame_breaks (specs_of w) (snd f))"
    by blast+
qed

lemma new_watch_ok [simp]: "watch_ok (new_watch request)" "wt_violation (new_watch request) = None"
    "wt_request (new_watch request) = request"
  by (simp_all add: watch_ok_def new_watch_def)

lemma readings_noted:
  "ob_readings (noted spec i samples seen) = ob_readings seen + length (List.map_filter (value_read spec i) samples)"
  by (induction samples arbitrary: seen) (auto simp: noted_def note_frame_readings map_filter_simps)

lemma note_frame_value:
  "value_read spec i sample = Some v \<Longrightarrow> note_frame spec i sample seen = note_value v seen"
  "value_read spec i sample = None \<Longrightarrow>
     \<exists>e. note_frame spec i sample seen = seen\<lparr>ob_last_read_error := e\<rparr>"
  by (auto simp: note_frame_def look_at_def value_read_def Let_def split: option.splits if_splits
      intro: exI [of _ "ob_last_read_error seen"])

lemma noted_from:
  assumes "map Fin rs = List.map_filter (value_read spec i) samples" "ob_readings seen > 0"
    and "ob_minimum seen = Fin lo" "ob_maximum seen = Fin hi"
  shows "ob_minimum (noted spec i samples seen) = Fin (fold min rs lo) \<and>
     ob_maximum (noted spec i samples seen) = Fin (fold max rs hi) \<and>
     ob_last (noted spec i samples seen) = (if rs = [] then ob_last seen else Fin (last rs))"
  using assms
proof (induction samples arbitrary: rs seen lo hi)
  case (Cons sample samples)
  show ?case
  proof (cases "value_read spec i sample")
    case None
    then obtain e where "note_frame spec i sample seen = seen\<lparr>ob_last_read_error := e\<rparr>"
      using note_frame_value(2) by blast
    then show ?thesis
      using Cons.IH [of rs "seen\<lparr>ob_last_read_error := e\<rparr>" lo hi] Cons.prems None by (simp add: noted_def map_filter_simps)
  next
    case (Some v)
    then obtain r rs' where rs: "rs = r # rs'" "v = Fin r" "map Fin rs' = List.map_filter (value_read spec i) samples"
      using Cons.prems(1) by (auto simp: map_filter_simps)
    have "noted spec i (sample # samples) seen = noted spec i samples (note_value (Fin r) seen)"
      using Some rs by (simp add: noted_def note_frame_value(1))
    then show ?thesis
      using Cons.IH [of rs' "note_value (Fin r) seen" "min lo r" "max hi r"] Cons.prems rs
      by (simp add: note_value_def min.commute max.commute)
  qed
qed (simp add: noted_def map_filter_simps)

lemma noted_values:
  assumes "map Fin rs = List.map_filter (value_read spec i) samples" "rs \<noteq> []"
  shows "ob_minimum (noted spec i samples nothing_observed) = Fin (Min (set rs)) \<and>
     ob_maximum (noted spec i samples nothing_observed) = Fin (Max (set rs)) \<and>
     ob_last (noted spec i samples nothing_observed) = Fin (last rs)"
proof -
  have "ob_minimum (noted spec i samples seen) = Fin (Min (set rs)) \<and>
     ob_maximum (noted spec i samples seen) = Fin (Max (set rs)) \<and>
     ob_last (noted spec i samples seen) = Fin (last rs)" if "ob_readings seen = 0" for seen
    using assms that
  proof (induction samples arbitrary: seen)
    case (Cons sample samples)
    show ?case
    proof (cases "value_read spec i sample")
      case None
      then obtain e where "note_frame spec i sample seen = seen\<lparr>ob_last_read_error := e\<rparr>"
        using note_frame_value(2) by blast
      then show ?thesis
        using Cons.IH [of "seen\<lparr>ob_last_read_error := e\<rparr>"] Cons.prems None by (simp add: noted_def map_filter_simps)
    next
      case (Some v)
      then obtain r rs' where rs: "rs = r # rs'" "v = Fin r" "map Fin rs' = List.map_filter (value_read spec i) samples"
        using Cons.prems(1) by (auto simp: map_filter_simps)
      have "noted spec i (sample # samples) seen = noted spec i samples (note_value (Fin r) seen)"
        using Some rs by (simp add: noted_def note_frame_value(1))
      then show ?thesis
        using noted_from [OF rs(3), of "note_value (Fin r) seen" r r] Cons.prems(3) rs(1)
        by (simp add: note_value_def Min.set_eq_fold [symmetric] Max.set_eq_fold [symmetric])
    qed
  qed (simp add: map_filter_simps)
  then show ?thesis
    by (simp add: nothing_observed_def)
qed

lemma run_violation:
  assumes "wt_violation (watch.run frames (new_watch request)) = Some v"
  shows "\<exists>pre t sample rest. frames = pre @ (t, sample) # rest \<and>
     (\<forall>f \<in> set pre. \<not> frame_breaks (wr_invariants request) (snd f)) \<and>
     vi_index v < length (wr_invariants request) \<and> breaks (wr_invariants request ! vi_index v) (vi_index v) sample \<and>
     looked_at (wr_invariants request) sample (vi_index v) \<and>
     vi_elapsed_ms v = t \<and> vi_sample v = length pre + 1 \<and>
     (\<exists>seen. snd (look_at (wr_invariants request ! vi_index v) sample (vi_index v) seen) = Some (vi_value v, vi_bound v, vi_limit v))"
proof -
  let ?w = "new_watch request"
  obtain pre f rest where pre: "frames = pre @ f # rest" "wt_violation (watch.run pre ?w) = None"
    "wt_violation (watch.run (pre @ [f]) ?w) = Some v"
    using watch.stopped_on_a_frame [of ?w frames] assms by auto
  obtain t sample where f: "f = (t, sample)" by (cases f)
  note before = run_observes [where w = "new_watch request" and frames = pre, simplified]
  have samples: "wt_samples (watch.run pre ?w) = length pre"
    using watch.frames_running [of pre ?w] pre(2) by (simp add: new_watch_def)
  have "wt_violation (snd (watch_observe (t, sample) (watch.run pre ?w))) = Some v"
    using pre(3) by (simp add: watch.run_snoc f del: watch_observe.simps)
  from observe_frame(7) [OF pre(2) before(2) this] show ?thesis
    using pre before samples f by (intro exI [of _ pre] exI [of _ t] exI [of _ sample] exI [of _ rest]) auto
qed

section \<open>Properties of the watch\<close>

lemma response_outcome: "jget (watch_response paused w) ''outcome'' = Some (JStr (watch_outcome w))"
  by (cases "wt_violation w") (auto simp: watch_response_def Let_def jget_jput jget_jobj)

lemma observed_all:
  assumes "watch_ok w"
  shows "list_all (\<lambda>seen. ob_readings seen \<noteq> 0) (wt_observed w) \<longleftrightarrow> (\<forall>i < length (specs_of w). ob_readings (wt_observed w ! i) \<noteq> 0)"
  using assms by (simp add: watch_ok_def list_all_length)

lemma frames_for_unbroken:
  assumes "\<forall>f \<in> set frames. \<not> frame_breaks specs (snd f)"
  shows "frames_for specs i frames = map snd frames"
  using assms by (induction frames) auto

lemma map_filter_Nil: "List.map_filter f xs = [] \<longleftrightarrow> (\<forall>x \<in> set xs. f x = None)"
  by (induction xs) (auto simp: map_filter_simps split: option.splits)

lemma outcome_truth:
  "jget (watch_response paused (watch.run frames (new_watch request))) ''outcome'' = Some (JStr ''violated'') \<longleftrightarrow>
     (\<exists>f \<in> set frames. frame_breaks (wr_invariants request) (snd f))" (is ?violated)
  "jget (watch_response paused (watch.run frames (new_watch request))) ''outcome'' = Some (JStr ''held'') \<longleftrightarrow>
     (\<forall>f \<in> set frames. \<not> frame_breaks (wr_invariants request) (snd f)) \<and>
     (\<forall>i < length (wr_invariants request). \<exists>f \<in> set frames. value_read (wr_invariants request ! i) i (snd f) \<noteq> None)" (is ?held)
proof -
  let ?w = "watch.run frames (new_watch request)"
  note run = run_observes [where w = "new_watch request" and frames = frames, simplified]
  show ?violated
    using run(4) by (simp add: response_outcome watch_outcome_def)
  have "(\<forall>i < length (wr_invariants request). ob_readings (wt_observed ?w ! i) \<noteq> 0) \<longleftrightarrow>
     (\<forall>i < length (wr_invariants request). \<exists>f \<in> set frames. value_read (wr_invariants request ! i) i (snd f) \<noteq> None)"
    if "\<forall>f \<in> set frames. \<not> frame_breaks (wr_invariants request) (snd f)"
    using run(3) frames_for_unbroken [OF that]
    by (simp add: readings_noted map_filter_Nil new_watch_def nothing_observed_def)
  then show ?held
    using run(4) observed_all [OF run(2)] run(1) by (auto simp: response_outcome watch_outcome_def)
qed

text \<open>A watch of one expression, whose value must not fall below zero.\<close>

definition floor_request :: watch_request where
  "floor_request =
     \<lparr>wr_duration_ms = 100, wr_pause_on_violation = True,
      wr_invariants = [new_spec ''errors'' No_Engine_Errors,
        (new_spec ''floor'' Expression_Between)\<lparr>iv_expression := ''position.y'', iv_minimum := Some (Fin 0)\<rparr>]\<rparr>"

definition floor_frame :: "int \<Rightarrow> rat \<Rightarrow> int \<times> invariant_sample" where
  "floor_frame t y = (t, \<lparr>sm_readings = [no_reading, no_reading\<lparr>ir_value := Some (Fin y)\<rparr>], sm_engine_errors = 0\<rparr>)"

text \<open>
  (C14) The report of a watch is true of the frames it was given. It says violated exactly when some
  frame broke some invariant, and held exactly when none did and every invariant was read at least
  once: a condition that was never seen is never reported as one that held.
\<close>

theorem outcome_is_true:
  "(jget (watch_response paused (watch.run frames (new_watch request))) ''outcome'' = Some (JStr ''violated'') \<longleftrightarrow>
     (\<exists>f \<in> set frames. frame_breaks (wr_invariants request) (snd f))) \<and>
   (jget (watch_response paused (watch.run frames (new_watch request))) ''outcome'' = Some (JStr ''held'') \<longleftrightarrow>
     (\<forall>f \<in> set frames. \<not> frame_breaks (wr_invariants request) (snd f)) \<and>
     (\<forall>i < length (wr_invariants request). \<exists>f \<in> set frames. value_read (wr_invariants request ! i) i (snd f) \<noteq> None))"
  using outcome_truth by blast

theorem outcome_is_true_witness:
  "jget (watch_response False (watch.run [floor_frame 16 3, floor_frame 33 1] (new_watch floor_request))) ''outcome'' =
     Some (JStr ''held'') \<and>
   jget (watch_response False (watch.run [floor_frame 16 3, floor_frame 33 (- 1)] (new_watch floor_request))) ''outcome'' =
     Some (JStr ''violated'')"
proof -
  have "\<not> frame_breaks (wr_invariants floor_request) (snd (floor_frame 16 3))" "\<not> frame_breaks (wr_invariants floor_request) (snd (floor_frame 33 1))"
    "frame_breaks (wr_invariants floor_request) (snd (floor_frame 33 (- 1)))"
    "\<forall>i < length (wr_invariants floor_request). value_read (wr_invariants floor_request ! i) i (snd (floor_frame 16 3)) \<noteq> None"
    by (simp_all add: frame_breaks_def floor_request_def floor_frame_def breaks_def new_spec_def reading_at_def no_reading_def
        within_bounds_def value_read_def All_less_Suc Ex_less_Suc numeral_2_eq_2)
  then show ?thesis
    using outcome_is_true [of False "[floor_frame 16 3, floor_frame 33 1]" floor_request]
      outcome_is_true [of False "[floor_frame 16 3, floor_frame 33 (- 1)]" floor_request] by auto
qed

text \<open>
  (C15) The violation a watch reports is the first there was: every frame before it kept every invariant,
  the frame kept those listed before it, and the value, the bound, the time and the number of the
  sample are those of that frame. Nothing a later frame holds can change it.
\<close>

theorem reported_violation_is_the_first:
  assumes "wt_violation (watch.run frames (new_watch request)) = Some v"
  shows "\<exists>pre t sample rest. frames = pre @ (t, sample) # rest \<and>
     (\<forall>f \<in> set pre. \<not> frame_breaks (wr_invariants request) (snd f)) \<and>
     (\<forall>j < vi_index v. \<not> breaks (wr_invariants request ! j) j sample) \<and>
     vi_index v < length (wr_invariants request) \<and> vi_elapsed_ms v = t \<and> vi_sample v = length pre + 1 \<and>
     value_read (wr_invariants request ! vi_index v) (vi_index v) sample = Some (vi_value v) \<and>
     (let spec = wr_invariants request ! vi_index v
      in if iv_kind spec = No_Engine_Errors then sm_engine_errors sample > 0
         else iv_minimum spec = Some (vi_limit v) \<and> vi_bound v = ''minimum'' \<and> dbl_less (vi_value v) (vi_limit v) \<or>
              iv_maximum spec = Some (vi_limit v) \<and> vi_bound v = ''maximum'' \<and> dbl_less (vi_limit v) (vi_value v))"
proof -
  obtain pre t sample rest seen where v: "frames = pre @ (t, sample) # rest"
    "\<forall>f \<in> set pre. \<not> frame_breaks (wr_invariants request) (snd f)" "vi_index v < length (wr_invariants request)"
    "looked_at (wr_invariants request) sample (vi_index v)" "vi_elapsed_ms v = t" "vi_sample v = length pre + 1"
    "snd (look_at (wr_invariants request ! vi_index v) sample (vi_index v) seen) = Some (vi_value v, vi_bound v, vi_limit v)"
    using run_violation [OF assms] by blast
  have "value_read (wr_invariants request ! vi_index v) (vi_index v) sample = Some (vi_value v) \<and>
     (let spec = wr_invariants request ! vi_index v
      in if iv_kind spec = No_Engine_Errors then sm_engine_errors sample > 0
         else iv_minimum spec = Some (vi_limit v) \<and> vi_bound v = ''minimum'' \<and> dbl_less (vi_value v) (vi_limit v) \<or>
              iv_maximum spec = Some (vi_limit v) \<and> vi_bound v = ''maximum'' \<and> dbl_less (vi_limit v) (vi_value v))"
    using v(7) by (auto simp: look_at_def value_read_def Let_def bound_broken_def split: option.splits if_splits)
  then show ?thesis
    using v by (intro exI [of _ pre] exI [of _ t] exI [of _ sample] exI [of _ rest]) (auto simp: looked_at_def)
qed

theorem reported_violation_is_the_first_witness:
  "\<exists>v pre t sample rest.
     wt_violation (watch.run [floor_frame 16 3, floor_frame 33 (- 1), floor_frame 50 (- 2)] (new_watch floor_request)) = Some v \<and>
     [floor_frame 16 3, floor_frame 33 (- 1), floor_frame 50 (- 2)] = pre @ (t, sample) # rest \<and> vi_sample v = length pre + 1"
proof -
  have "frame_breaks (wr_invariants floor_request) (snd (floor_frame 33 (- 1)))"
    by (simp add: frame_breaks_def floor_request_def floor_frame_def breaks_def new_spec_def reading_at_def no_reading_def
        within_bounds_def Ex_less_Suc numeral_2_eq_2)
  then have "wt_violation (watch.run [floor_frame 16 3, floor_frame 33 (- 1), floor_frame 50 (- 2)] (new_watch floor_request)) \<noteq> None"
    using run_observes(4) [where w = "new_watch floor_request" and frames = "[floor_frame 16 3, floor_frame 33 (- 1), floor_frame 50 (- 2)]"]
    by auto
  then obtain v where v: "wt_violation (watch.run [floor_frame 16 3, floor_frame 33 (- 1), floor_frame 50 (- 2)] (new_watch floor_request)) = Some v"
    by blast
  from reported_violation_is_the_first [OF this] v show ?thesis
    by blast
qed

text \<open>
  What is reported of an invariant's values is exact: as many readings as the frames it was looked at
  in had values, the least and the greatest of them and the last.
\<close>

theorem observed_values_are_exact:
  assumes "i < length (wr_invariants request)"
    and "map Fin rs = List.map_filter (value_read (wr_invariants request ! i) i) (frames_for (wr_invariants request) i frames)"
  shows "ob_readings (wt_observed (watch.run frames (new_watch request)) ! i) = length rs \<and>
     (rs = [] \<or>
       ob_minimum (wt_observed (watch.run frames (new_watch request)) ! i) = Fin (Min (set rs)) \<and>
       ob_maximum (wt_observed (watch.run frames (new_watch request)) ! i) = Fin (Max (set rs)) \<and>
       ob_last (wt_observed (watch.run frames (new_watch request)) ! i) = Fin (last rs))"
proof -
  have "wt_observed (watch.run frames (new_watch request)) ! i =
      noted (wr_invariants request ! i) i (frames_for (wr_invariants request) i frames) nothing_observed"
    using run_observes(3) [where w = "new_watch request" and frames = frames and i = i] assms(1)
    by simp (simp add: new_watch_def)
  then show ?thesis
    using noted_values [OF assms(2)] arg_cong [OF assms(2), of length] by (auto simp: readings_noted nothing_observed_def)
qed

theorem observed_values_are_exact_witness:
  "ob_minimum (wt_observed (watch.run [floor_frame 16 3, floor_frame 33 1, floor_frame 50 2] (new_watch floor_request)) ! 1) = Fin 1 \<and>
   ob_maximum (wt_observed (watch.run [floor_frame 16 3, floor_frame 33 1, floor_frame 50 2] (new_watch floor_request)) ! 1) = Fin 3"
proof -
  have "map Fin [3, 1, 2] = List.map_filter (value_read (wr_invariants floor_request ! 1) 1)
      (frames_for (wr_invariants floor_request) 1 [floor_frame 16 3, floor_frame 33 1, floor_frame 50 2])"
    by (simp add: frame_breaks_def floor_request_def floor_frame_def breaks_def new_spec_def reading_at_def no_reading_def
        within_bounds_def value_read_def Ex_less_Suc numeral_2_eq_2 map_filter_simps)
  moreover have "1 < length (wr_invariants floor_request)"
    by (simp add: floor_request_def)
  ultimately show ?thesis
    using observed_values_are_exact [of 1 floor_request "[3, 1, 2]" "[floor_frame 16 3, floor_frame 33 1, floor_frame 50 2]"]
    by (simp del: watch.run.simps)
qed

section \<open>Accepted requests\<close>

definition spec_ok :: "invariant_spec \<Rightarrow> bool" where
  "spec_ok spec =
     (iv_metric_index spec < length profiler_metrics \<and> iv_name spec \<noteq> [] \<and>
      (iv_kind spec = Expression_Between \<longrightarrow> iv_expression spec \<noteq> [] \<and> length (iv_expression spec) \<le> 512) \<and>
      (iv_kind spec \<noteq> No_Engine_Errors \<longrightarrow>
        (\<exists>v. \<not> within_bounds spec v) \<and> (\<exists>r. within_bounds spec (Fin r))))"

lemma metric_position_less: "metric_position name ms = Some i \<Longrightarrow> i < length ms"
  by (induction ms arbitrary: i) (auto split: if_splits)

lemma bounded_string_Inr:
  "bounded_string v field maximum = Inr text \<longleftrightarrow> v = JStr text \<and> text \<noteq> [] \<and> length text \<le> maximum"
  by (cases v) auto

lemma optional_bound_finite: "optional_bound v field = Inr (Some d) \<Longrightarrow> \<exists>r. d = Fin r"
  by (auto simp: optional_bound_def bound_value_def result_simps split: option.splits if_splits)
     (metis is_finite.elims(2))

lemma parse_bounds_ok:
  assumes "parse_bounds v spec = Inr spec'"
  shows "\<exists>lo hi. spec' = spec\<lparr>iv_minimum := lo, iv_maximum := hi\<rparr> \<and> (\<exists>v. \<not> within_bounds spec' v) \<and> (\<exists>r. within_bounds spec' (Fin r))"
proof -
  obtain lo hi where bounds: "optional_bound v ''minimum'' = Inr lo" "optional_bound v ''maximum'' = Inr hi"
    "\<not> (lo = None \<and> hi = None)" "spec' = spec\<lparr>iv_minimum := lo, iv_maximum := hi\<rparr>"
    "\<forall>a b. lo = Some a \<longrightarrow> hi = Some b \<longrightarrow> \<not> dbl_less b a"
    using assms by (auto simp: parse_bounds_def result_simps split: option.splits if_splits)
  have finite: "\<exists>r. a = Fin r" if "lo = Some a \<or> hi = Some a" for a
    using that bounds(1,2) optional_bound_finite by blast
  show ?thesis
  proof (cases lo)
    case None
    then obtain r where "hi = Some (Fin r)"
      using bounds(3) finite by (cases hi) auto
    then have "\<not> within_bounds spec' PosInf" "within_bounds spec' (Fin r)"
      using None bounds(4) by (simp_all add: within_bounds_def)
    then show ?thesis
      using bounds(4) by blast
  next
    case (Some a)
    then obtain r where r: "lo = Some (Fin r)"
      using finite by blast
    have "\<not> dbl_less b (Fin r)" if "hi = Some b" for b
      using bounds(5) r that by blast
    then have "\<not> within_bounds spec' NegInf" "within_bounds spec' (Fin r)"
      using r bounds(4) by (auto simp: within_bounds_def)
    then show ?thesis
      using bounds(4) by blast
  qed
qed

lemma parse_subject_ok:
  assumes "parse_subject v (new_spec name kind) = Inr spec"
  shows "iv_kind spec = kind \<and> iv_name spec = name \<and> iv_metric_index spec < length profiler_metrics \<and>
     (kind = Expression_Between \<longrightarrow> iv_expression spec \<noteq> [] \<and> length (iv_expression spec) \<le> 512)"
proof -
  have "0 < length profiler_metrics"
    by (simp add: profiler_metrics_def)
  then show ?thesis
    using assms
    by (cases kind) (auto simp: new_spec_def result_simps parse_metric_def bounded_string_Inr metric_position_less split: option.splits)
qed

lemma parse_invariant_ok:
  assumes "parse_invariant v position = Inr spec"
  shows "spec_ok spec"
proof -
  obtain name kind spec' where p: "optional_string v ''name'' 64 (''invariant_'' @ dec position) = Inr name"
    "parse_subject v (new_spec name kind) = Inr spec'"
    "(if kind = No_Engine_Errors then Inr spec' else parse_bounds v spec') = Inr spec"
    using assms by (auto simp: parse_invariant_def result_simps split: if_splits)
  have name: "name \<noteq> []"
    using p(1) by (auto simp: optional_string_def bounded_string_Inr split: option.splits)
  show ?thesis
  proof (cases "kind = No_Engine_Errors")
    case True
    then show ?thesis
      using p parse_subject_ok [OF p(2)] name by (auto simp: spec_ok_def)
  next
    case False
    then have "parse_bounds v spec' = Inr spec"
      using p(3) by simp
    from parse_bounds_ok [OF this] show ?thesis
      using parse_subject_ok [OF p(2)] name False by (auto simp: spec_ok_def)
  qed
qed

lemma parse_invariants_ok:
  "parse_invariants vs position = Inr specs \<Longrightarrow> length specs = length vs \<and> (\<forall>spec \<in> set specs. spec_ok spec)"
  by (induction vs arbitrary: position specs) (auto simp: result_simps parse_invariant_ok)

text \<open>
  An accepted request watches one to eight conditions for one to thirty thousand milliseconds, and every
  condition on a range can be broken and can hold: there is a value outside its range and a finite one
  inside it, so neither a report of held nor one of violated is decided before the first frame.
\<close>

theorem accepted_watches_can_fail_and_hold:
  assumes "parse_invariant_watch_request params = Inr request"
  shows "1 \<le> wr_duration_ms request \<and> wr_duration_ms request \<le> 30000 \<and>
     1 \<le> length (wr_invariants request) \<and> length (wr_invariants request) \<le> 8 \<and>
     (\<forall>spec \<in> set (wr_invariants request). spec_ok spec)"
proof -
  obtain duration pause invariants specs where p: "parse_duration params = Inr duration" "invariants \<noteq> []" "length invariants \<le> 8"
    "parse_invariants invariants 0 = Inr specs"
    "request = \<lparr>wr_duration_ms = duration, wr_pause_on_violation = pause, wr_invariants = specs\<rparr>"
  proof -
    obtain duration pause where d: "parse_duration params = Inr duration"
      "(case jget params ''invariants'' of
          Some (JArr invariants) \<Rightarrow>
            if invariants = [] \<or> length invariants > 8 then Inl (invalid_argument ''invariants must contain 1 to 8 entries'')
            else rbind (parse_invariants invariants 0) (\<lambda>specs.
              Inr \<lparr>wr_duration_ms = duration, wr_pause_on_violation = pause, wr_invariants = specs\<rparr>)
        | _ \<Rightarrow> Inl (invalid_argument ''invariants must be an array'')) = Inr request"
      using assms unfolding parse_invariant_watch_request_def result_simps by (cases "is_object params") (auto simp: result_simps)
    show thesis
      using d that by (cases "jget params ''invariants''"; cases "the (jget params ''invariants'')") (auto simp: result_simps split: if_splits)
  qed
  have "1 \<le> duration \<and> duration \<le> 30000"
    using p(1) by (auto simp: parse_duration_def split: option.splits if_splits)
  then show ?thesis
    using p parse_invariants_ok [OF p(4)] by (auto simp: Suc_le_eq)
qed

definition floor_params :: json where
  "floor_params =
     jobj [(''pause_on_violation'', JBool False),
       (''invariants'', JArr [jobj [(''kind'', JStr ''expression_between''), (''expression'', JStr ''position.y''), (''minimum'', JFloat (Fin 0))]])]"

theorem accepted_watches_can_fail_and_hold_witness:
  "\<exists>request. parse_invariant_watch_request floor_params = Inr request \<and> length (wr_invariants request) = 1 \<and>
     list_all spec_ok (wr_invariants request)"
proof -
  have "is_ok (parse_invariant_watch_request floor_params)"
    by code_simp
  then obtain request where request: "parse_invariant_watch_request floor_params = Inr request"
    by (auto simp: result_simps)
  moreover have "length (wr_invariants request) = 1"
    using request by (auto simp: floor_params_def parse_invariant_watch_request_def jget_jobj result_simps dest: parse_invariants_ok)
  ultimately show ?thesis
    using accepted_watches_can_fail_and_hold [OF request] by (auto simp: list_all_iff)
qed

end
