(* ===== verification/Scene_Exploration.thy ===== *)
theory Scene_Exploration
  imports Invariant_Watch
begin

text \<open>
  Driving a running game for a while and reporting where it stopped responding:
  \<open>src/runtime/scene_exploration.cpp\<close>, \<open>include/didi/runtime/scene_exploration.hpp\<close>. The schedule of
  actions is arithmetic on 64-bit words. Two readings are compared by a subtraction of doubles, which
  rounds; \<open>dbl_sub\<close> writes the rounding out. The frames a run is given are those the extension
  builds in \<open>src/gdextension/editor_hook.cpp\<close>, one reading for every probe.
\<close>

unbundle bit_operations_syntax

section \<open>Doubles\<close>

text \<open>
  Every finite double is a multiple of \<open>2 ^ - 1074\<close>, so a difference of two is one of those multiples,
  rounded to 53 bits and infinite from \<open>2 ^ 1024\<close> on.
\<close>

fun dbl_sub :: "dbl \<Rightarrow> dbl \<Rightarrow> dbl" where
  "dbl_sub (Fin a) (Fin b) =
     (let n = \<lfloor>(a - b) * 2 ^ 1074\<rfloor>; m = round53 (nat \<bar>n\<bar>)
      in if m \<ge> 2 ^ 2098 then (if n < 0 then NegInf else PosInf) else Fin (of_int (sgn n * int m) / 2 ^ 1074))"
| "dbl_sub NaN b = NaN"
| "dbl_sub a NaN = NaN"
| "dbl_sub PosInf b = (if b = PosInf then NaN else PosInf)"
| "dbl_sub NegInf b = (if b = NegInf then NaN else NegInf)"
| "dbl_sub (Fin a) PosInf = NegInf"
| "dbl_sub (Fin a) NegInf = PosInf"

fun dbl_abs :: "dbl \<Rightarrow> dbl" where
  "dbl_abs (Fin a) = Fin \<bar>a\<bar>"
| "dbl_abs NegInf = PosInf"
| "dbl_abs d = d"

definition moved_far :: "dbl \<Rightarrow> dbl \<Rightarrow> dbl \<Rightarrow> bool" where
  "moved_far epsilon v previous = dbl_less epsilon (dbl_abs (dbl_sub v previous))"

section \<open>The request\<close>

record exploration_probe =
  xb_name :: string
  xb_context_node :: string
  xb_expression :: string

record exploration_request =
  xr_duration_ms :: int
  xr_action_hold_ms :: int
  xr_stuck_ms :: int
  xr_movement_epsilon :: dbl
  xr_pause_on_stuck :: bool
  xr_stop_on_engine_error :: bool
  xr_seed :: "64 word"
  xr_actions :: "string list"
  xr_probes :: "exploration_probe list"

definition bounded_int :: "json \<Rightarrow> string \<Rightarrow> int \<Rightarrow> int \<Rightarrow> int \<Rightarrow> (refusal, int) result" where
  "bounded_int params field minimum maximum fallback =
     (case jget params field of
        None \<Rightarrow> Inr fallback
      | Some v \<Rightarrow>
          if \<not> is_number_integer v \<or> int64_of v < minimum \<or> int64_of v > maximum
          then Inl (invalid_argument (field @ '' must be an integer from '' @ dec_int minimum @ '' to '' @ dec_int maximum))
          else Inr (int64_of v))"

definition bounded_bool :: "json \<Rightarrow> string \<Rightarrow> bool \<Rightarrow> (refusal, bool) result" where
  "bounded_bool params field fallback =
     (case jget params field of
        None \<Rightarrow> Inr fallback
      | Some (JBool b) \<Rightarrow> Inr b
      | Some v \<Rightarrow> Inl (invalid_argument (field @ '' must be a boolean'')))"

definition parse_probe :: "json \<Rightarrow> nat \<Rightarrow> (refusal, exploration_probe) result" where
  "parse_probe v position =
     (if \<not> is_object v then Inl (invalid_argument ''Each probe must be an object'')
      else
        rbind (optional_string v ''name'' 64 (''probe_'' @ dec position)) (\<lambda>name.
        rbind (bounded_string (member_or_null v ''expression'') ''expression'' 512) (\<lambda>expression.
        rbind (optional_string v ''context_node'' 256 []) (\<lambda>context.
          Inr \<lparr>xb_name = name, xb_context_node = context, xb_expression = expression\<rparr>))))"

fun parse_probes :: "json list \<Rightarrow> nat \<Rightarrow> (refusal, exploration_probe list) result" where
  "parse_probes [] position = Inr []"
| "parse_probes (v # vs) position =
     rbind (parse_probe v position) (\<lambda>probe.
     rbind (parse_probes vs (position + 1)) (\<lambda>probes. Inr (probe # probes)))"

fun parse_actions :: "json list \<Rightarrow> string list \<Rightarrow> (refusal, string list) result" where
  "parse_actions [] actions = Inr actions"
| "parse_actions (v # vs) actions =
     rbind (bounded_string v ''action'' 128) (\<lambda>name.
       if name \<in> set actions then Inl (invalid_argument (''actions must not repeat: '' @ name))
       else parse_actions vs (actions @ [name]))"

definition parse_epsilon :: "json \<Rightarrow> (refusal, dbl) result" where
  "parse_epsilon params =
     (case jget params ''movement_epsilon'' of
        None \<Rightarrow> Inr (Fin (1152921504606847 / 1152921504606846976))
      | Some v \<Rightarrow>
          if \<not> is_number v then Inl (invalid_argument ''movement_epsilon must be a number'')
          else if \<not> is_finite (double_of v) \<or> dbl_less (double_of v) (Fin 0)
          then Inl (invalid_argument ''movement_epsilon must be finite and not negative'')
          else Inr (double_of v))"

definition parse_seed :: "json \<Rightarrow> (refusal, 64 word) result" where
  "parse_seed params =
     (case jget params ''seed'' of
        None \<Rightarrow> Inr 1
      | Some v \<Rightarrow>
          if \<not> is_number_integer v \<or> int64_of v < 0 then Inl (invalid_argument ''seed must be a non-negative integer'')
          else Inr (word_of_int (int64_of v)))"

text \<open>An array of one entry up to a greatest number of them.\<close>

definition bounded_array :: "json \<Rightarrow> string \<Rightarrow> nat \<Rightarrow> (refusal, json list) result" where
  "bounded_array params field maximum =
     (case jget params field of
        Some (JArr xs) \<Rightarrow>
          if xs = [] \<or> length xs > maximum
          then Inl (invalid_argument (field @ '' must contain 1 to '' @ dec maximum @ '' entries'')) else Inr xs
      | _ \<Rightarrow> Inl (invalid_argument (field @ '' must be an array'')))"

definition default_stuck :: "json \<Rightarrow> int \<Rightarrow> int \<Rightarrow> int" where
  "default_stuck params stuck duration = (if contains params ''stuck_ms'' then stuck else min stuck duration)"

definition parse_scene_exploration_request :: "json \<Rightarrow> (refusal, exploration_request) result" where
  "parse_scene_exploration_request params =
     (if \<not> is_object params then Inl (invalid_argument ''Scene exploration params must be an object'')
      else
        rbind (bounded_int params ''duration_ms'' 250 60000 5000) (\<lambda>duration.
        rbind (bounded_int params ''action_hold_ms'' 16 10000 250) (\<lambda>hold.
        rbind (bounded_int params ''stuck_ms'' 100 60000 3000) (\<lambda>stuck.
        rbind (bounded_bool params ''pause_on_stuck'' True) (\<lambda>pause.
        rbind (bounded_bool params ''stop_on_engine_error'' True) (\<lambda>stop.
        rbind (parse_epsilon params) (\<lambda>epsilon.
        rbind (parse_seed params) (\<lambda>seed.
        rbind (bounded_array params ''actions'' 8) (\<lambda>actions_given.
        rbind (parse_actions actions_given []) (\<lambda>actions.
        rbind (bounded_array params ''probes'' 4) (\<lambda>probes_given.
        rbind (parse_probes probes_given 0) (\<lambda>probes.
          if default_stuck params stuck duration > duration then
            Inl (invalid_argument (''stuck_ms must not exceed duration_ms; a stuck interval that cannot close '' @
              ''inside the window is one this run could never report''))
          else
            Inr \<lparr>xr_duration_ms = duration, xr_action_hold_ms = hold, xr_stuck_ms = default_stuck params stuck duration,
              xr_movement_epsilon = epsilon, xr_pause_on_stuck = pause, xr_stop_on_engine_error = stop, xr_seed = seed,
              xr_actions = actions, xr_probes = probes\<rparr>))))))))))))"

section \<open>Refusals\<close>

definition paused_exploration_refusal :: "bool \<Rightarrow> json" where
  "paused_exploration_refusal input_queued =
     jobj [(''error'', jobj [(''code'', JInt 409),
       (''message'', JStr (''Exploration requires a running game session. The game is paused, so the actions this run '' @
          ''holds are queued rather than delivered, and every frame of the window would be still '' @
          ''because nothing was pressed rather than because the game stopped responding. Resume it '' @
          ''with runtime_set_paused and explore again.'' @
          (if input_queued then '' The game was paused after the window opened, so the first action was queued; its '' @
             ''release is queued behind it and both land in the frame the tree resumes.'' else []))),
       (''data'', jobj [(''code'', JStr ''paused_game_session''), (''paused'', JBool True), (''input_queued'', JBool input_queued),
          (''retryable'', JBool False)])])]"

definition published_error :: "json \<Rightarrow> json option" where
  "published_error bridge_error =
     (case jget bridge_error ''error'' of Some (JObj m) \<Rightarrow> Some (JObj m) | _ \<Rightarrow> None)"

definition relayed_data :: "json option \<Rightarrow> string \<Rightarrow> json \<Rightarrow> json" where
  "relayed_data published fallback_code extra =
     (let data = (case published of
                    Some p \<Rightarrow> (case jget p ''data'' of Some (JObj d) \<Rightarrow> JObj d | _ \<Rightarrow> jobj [])
                  | None \<Rightarrow> jobj [])
      in fold (\<lambda>(k, x). jput k x) (members extra)
           (put_missing ''retryable'' (JBool False) (put_missing ''code'' (JStr fallback_code) data)))"

definition relayed_exploration_refusal :: "string \<Rightarrow> json \<Rightarrow> string \<Rightarrow> json \<Rightarrow> (json_exn, json) result" where
  "relayed_exploration_refusal sentence bridge_error fallback_code extra =
     (let published = published_error bridge_error
      in rbind (case published of None \<Rightarrow> Inr 500 | Some p \<Rightarrow> status_of p) (\<lambda>status.
         rbind (case published of None \<Rightarrow> Inr ''unknown'' | Some p \<Rightarrow> value_string p ''message'' ''unknown'') (\<lambda>detail.
           Inr (jobj [(''error'', jobj [(''code'', JInt status), (''message'', JStr (sentence @ '': '' @ detail)),
             (''data'', relayed_data published fallback_code extra)])]))))"

section \<open>The schedule\<close>

definition mixed :: "64 word \<Rightarrow> 64 word \<Rightarrow> 64 word" where
  "mixed seed slot =
     (let v0 = seed XOR (slot + 0x9e3779b97f4a7c15 + push_bit 6 seed + drop_bit 2 seed);
          v1 = (v0 XOR drop_bit 30 v0) * 0xbf58476d1ce4e5b9;
          v2 = (v1 XOR drop_bit 27 v1) * 0x94d049bb133111eb
      in v2 XOR drop_bit 31 v2)"

definition slot_at :: "exploration_request \<Rightarrow> int \<Rightarrow> int" where
  "slot_at request elapsed_ms = (if elapsed_ms < 0 then 0 else elapsed_ms div xr_action_hold_ms request)"

definition action_for_slot :: "exploration_request \<Rightarrow> int \<Rightarrow> nat" where
  "action_for_slot request slot =
     (if length (xr_actions request) = 1 then 0
      else unat (mixed (xr_seed request) (word_of_int slot)) mod length (xr_actions request))"

section \<open>The run\<close>

record exploration_reading =
  er_value :: "dbl option"
  er_read_error :: string

record exploration_sample =
  es_readings :: "exploration_reading list"
  es_engine_errors :: int

record tracked =
  tr_readings :: nat
  tr_minimum :: dbl
  tr_maximum :: dbl
  tr_last :: dbl
  tr_seen :: bool
  tr_moved :: bool
  tr_last_read_error :: string

record stuck_interval =
  si_started_ms :: int
  si_ended_ms :: int
  si_slot :: int

record exploration =
  xp_request :: exploration_request
  xp_tracked :: "tracked list"
  xp_slots_held :: "nat list"
  xp_intervals :: "stuck_interval list"
  xp_truncated :: bool
  xp_last_movement_ms :: int
  xp_still_since :: bool
  xp_elapsed_ms :: int
  xp_engine_errors :: int
  xp_frames :: nat
  xp_stopped_on_stuck :: bool
  xp_stopped_on_engine_error :: bool

definition untracked :: tracked where
  "untracked =
     \<lparr>tr_readings = 0, tr_minimum = Fin 0, tr_maximum = Fin 0, tr_last = Fin 0, tr_seen = False, tr_moved = False,
      tr_last_read_error = []\<rparr>"

definition new_exploration :: "exploration_request \<Rightarrow> exploration" where
  "new_exploration request =
     \<lparr>xp_request = request, xp_tracked = replicate (length (xr_probes request)) untracked,
      xp_slots_held = replicate (length (xr_actions request)) 0, xp_intervals = [], xp_truncated = False,
      xp_last_movement_ms = 0, xp_still_since = False, xp_elapsed_ms = 0, xp_engine_errors = 0, xp_frames = 0,
      xp_stopped_on_stuck = False, xp_stopped_on_engine_error = False\<rparr>"

text \<open>One probe in one frame: whether the frame counts as movement, and what is kept of the reading.\<close>

definition track :: "dbl \<Rightarrow> exploration_reading \<Rightarrow> tracked \<Rightarrow> bool \<times> tracked" where
  "track epsilon reading t =
     (case er_value reading of
        None \<Rightarrow> (True, if er_read_error reading \<noteq> [] then t\<lparr>tr_last_read_error := er_read_error reading\<rparr> else t)
      | Some v \<Rightarrow>
          let (moved, t') =
            (if \<not> tr_seen t then (False, t\<lparr>tr_seen := True, tr_minimum := v, tr_maximum := v\<rparr>)
             else if moved_far epsilon v (tr_last t)
             then (True, t\<lparr>tr_moved := True, tr_minimum := dbl_min (tr_minimum t) v, tr_maximum := dbl_max (tr_maximum t) v\<rparr>)
             else (False, t\<lparr>tr_minimum := dbl_min (tr_minimum t) v, tr_maximum := dbl_max (tr_maximum t) v\<rparr>))
          in (moved, t'\<lparr>tr_last := v, tr_readings := tr_readings t' + 1\<rparr>))"

fun track_all :: "dbl \<Rightarrow> exploration_reading list \<Rightarrow> tracked list \<Rightarrow> bool \<times> tracked list" where
  "track_all epsilon (r # rs) (t # ts) =
     (let (moved, t') = track epsilon r t; (rest_moved, ts') = track_all epsilon rs ts in (moved \<or> rest_moved, t' # ts'))"
| "track_all epsilon rs ts = (False, ts)"

definition hold_action :: "nat \<Rightarrow> nat list \<Rightarrow> nat list" where
  "hold_action action held = (if action < length held then held[action := held ! action + 1] else held)"

definition note_movement :: "int \<Rightarrow> bool \<Rightarrow> exploration \<Rightarrow> exploration" where
  "note_movement elapsed_ms moved x =
     (if moved then x\<lparr>xp_last_movement_ms := elapsed_ms, xp_still_since := False\<rparr> else x\<lparr>xp_still_since := True\<rparr>)"

definition is_stuck :: "int \<Rightarrow> exploration \<Rightarrow> bool" where
  "is_stuck elapsed_ms x =
     (xp_still_since x \<and> elapsed_ms - xp_last_movement_ms x \<ge> xr_stuck_ms (xp_request x))"

definition close_interval :: "int \<Rightarrow> int \<Rightarrow> exploration \<Rightarrow> exploration" where
  "close_interval elapsed_ms slot x =
     (let y = (if length (xp_intervals x) < 16
               then x\<lparr>xp_intervals := xp_intervals x @
                 [\<lparr>si_started_ms = xp_last_movement_ms x, si_ended_ms = elapsed_ms, si_slot = slot\<rparr>]\<rparr>
               else x\<lparr>xp_truncated := True\<rparr>)
      in y\<lparr>xp_last_movement_ms := elapsed_ms, xp_still_since := False,
           xp_stopped_on_stuck := xr_pause_on_stuck (xp_request x)\<rparr>)"

definition see_frame :: "int \<Rightarrow> exploration_sample \<Rightarrow> exploration \<Rightarrow> bool \<times> exploration" where
  "see_frame elapsed_ms sample x =
     (let action = action_for_slot (xp_request x) (slot_at (xp_request x) elapsed_ms);
          (moved, tracked) = track_all (xr_movement_epsilon (xp_request x)) (es_readings sample) (xp_tracked x)
      in (moved, x\<lparr>xp_elapsed_ms := elapsed_ms, xp_frames := xp_frames x + 1, xp_engine_errors := es_engine_errors sample,
           xp_slots_held := hold_action action (xp_slots_held x), xp_tracked := tracked\<rparr>))"

definition settle :: "int \<Rightarrow> exploration_sample \<Rightarrow> exploration \<Rightarrow> bool \<times> exploration" where
  "settle elapsed_ms sample x =
     (if xp_stopped_on_stuck x then (True, x)
      else if xr_stop_on_engine_error (xp_request x) \<and> es_engine_errors sample > 0
      then (True, x\<lparr>xp_stopped_on_engine_error := True\<rparr>)
      else (elapsed_ms \<ge> xr_duration_ms (xp_request x), x))"

fun explore_frame :: "int \<times> exploration_sample \<Rightarrow> exploration \<Rightarrow> bool \<times> exploration" where
  "explore_frame (elapsed_ms, sample) x =
     (if xp_stopped_on_stuck x \<or> xp_stopped_on_engine_error x then (True, x)
      else
        let (moved, seen) = see_frame elapsed_ms sample x;
            y = note_movement elapsed_ms moved seen
        in settle elapsed_ms sample
             (if is_stuck elapsed_ms y then close_interval elapsed_ms (slot_at (xp_request x) elapsed_ms) y else y))"

section \<open>The report\<close>

definition stopped_reason :: "exploration \<Rightarrow> string" where
  "stopped_reason x =
     (if xp_stopped_on_stuck x then ''stuck'' else if xp_stopped_on_engine_error x then ''engine_error'' else ''duration_elapsed'')"

definition probe_entry :: "exploration_probe \<Rightarrow> tracked \<Rightarrow> json" where
  "probe_entry probe t =
     jobj ([(''name'', JStr (xb_name probe)), (''expression'', JStr (xb_expression probe)), (''readings'', JInt (int (tr_readings t))),
            (''moved'', JBool (tr_moved t))] @
       (if xb_context_node probe \<noteq> [] then [(''context_node'', JStr (xb_context_node probe))] else []) @
       (if tr_seen t then [(''minimum'', JFloat (tr_minimum t)), (''maximum'', JFloat (tr_maximum t)), (''last'', JFloat (tr_last t))] else []) @
       (if tr_last_read_error t \<noteq> [] then [(''last_read_error'', JStr (tr_last_read_error t))] else []))"

definition interval_entry :: "exploration_request \<Rightarrow> stuck_interval \<Rightarrow> json" where
  "interval_entry request interval =
     jobj [(''started_ms'', JInt (si_started_ms interval)), (''ended_ms'', JInt (si_ended_ms interval)),
       (''duration_ms'', JInt (si_ended_ms interval - si_started_ms interval)),
       (''action_held'', JStr (xr_actions request ! action_for_slot request (si_slot interval)))]"

definition unread_probes :: "exploration \<Rightarrow> string list" where
  "unread_probes x = map (xb_name \<circ> fst) (filter (\<lambda>(probe, t). tr_readings t = 0) (zip (xr_probes (xp_request x)) (xp_tracked x)))"

definition exploration_response :: "bool \<Rightarrow> exploration \<Rightarrow> json" where
  "exploration_response paused x =
     (let request = xp_request x; unread = unread_probes x
      in jobj ([(''explored_ms'', JInt (xp_elapsed_ms x)), (''frames'', JInt (int (xp_frames x))),
           (''stopped_reason'', JStr (stopped_reason x)), (''paused'', JBool paused), (''engine_errors'', JInt (xp_engine_errors x)),
           (''seed'', JUInt (unat (xr_seed request))),
           (''actions'', JArr (map2 (\<lambda>action held. jobj [(''action'', JStr action), (''frames_held'', JInt (int held))])
             (xr_actions request) (xp_slots_held x))),
           (''probes'', JArr (map2 probe_entry (xr_probes request) (xp_tracked x))),
           (''stuck_intervals'', JArr (map (interval_entry request) (xp_intervals x))),
           (''stuck_intervals_truncated'', JBool (xp_truncated x)),
           (''measured'', JBool (length unread < length (xr_probes request))), (''verdict'', JStr ''none'')] @
           (if unread \<noteq> [] then [(''unread_probes'', JArr (map JStr unread))] else [])))"

section \<open>What a run keeps\<close>

lemma length_track_all [simp]: "length (snd (track_all epsilon rs ts)) = length ts"
  by (induction epsilon rs ts rule: track_all.induct) (auto split: prod.splits)

lemma see_frame_fields [simp]:
  "xp_request (snd (see_frame t sample x)) = xp_request x"
  "xp_intervals (snd (see_frame t sample x)) = xp_intervals x"
  "xp_truncated (snd (see_frame t sample x)) = xp_truncated x"
  "xp_last_movement_ms (snd (see_frame t sample x)) = xp_last_movement_ms x"
  "xp_still_since (snd (see_frame t sample x)) = xp_still_since x"
  "xp_frames (snd (see_frame t sample x)) = xp_frames x + 1"
  "xp_stopped_on_stuck (snd (see_frame t sample x)) = xp_stopped_on_stuck x"
  "xp_stopped_on_engine_error (snd (see_frame t sample x)) = xp_stopped_on_engine_error x"
  "xp_elapsed_ms (snd (see_frame t sample x)) = t"
  "xp_tracked (snd (see_frame t sample x)) = snd (track_all (xr_movement_epsilon (xp_request x)) (es_readings sample) (xp_tracked x))"
  "xp_slots_held (snd (see_frame t sample x)) = hold_action (action_for_slot (xp_request x) (slot_at (xp_request x) t)) (xp_slots_held x)"
  "fst (see_frame t sample x) = fst (track_all (xr_movement_epsilon (xp_request x)) (es_readings sample) (xp_tracked x))"
  by (simp_all add: see_frame_def Let_def split: prod.splits)

lemma note_movement_fields [simp]:
  "xp_request (note_movement t moved x) = xp_request x" "xp_intervals (note_movement t moved x) = xp_intervals x"
  "xp_truncated (note_movement t moved x) = xp_truncated x" "xp_frames (note_movement t moved x) = xp_frames x"
  "xp_tracked (note_movement t moved x) = xp_tracked x" "xp_slots_held (note_movement t moved x) = xp_slots_held x"
  "xp_stopped_on_stuck (note_movement t moved x) = xp_stopped_on_stuck x"
  "xp_stopped_on_engine_error (note_movement t moved x) = xp_stopped_on_engine_error x"
  "xp_last_movement_ms (note_movement t moved x) = (if moved then t else xp_last_movement_ms x)"
  "xp_still_since (note_movement t moved x) = (\<not> moved)"
  by (auto simp: note_movement_def)

lemma close_interval_fields [simp]:
  "xp_request (close_interval t slot x) = xp_request x" "xp_frames (close_interval t slot x) = xp_frames x"
  "xp_tracked (close_interval t slot x) = xp_tracked x" "xp_slots_held (close_interval t slot x) = xp_slots_held x"
  "xp_stopped_on_engine_error (close_interval t slot x) = xp_stopped_on_engine_error x"
  "xp_last_movement_ms (close_interval t slot x) = t" "\<not> xp_still_since (close_interval t slot x)"
  by (auto simp: close_interval_def Let_def)

lemma settle_fields [simp]:
  "xp_request (snd (settle t sample x)) = xp_request x" "xp_frames (snd (settle t sample x)) = xp_frames x"
  "xp_tracked (snd (settle t sample x)) = xp_tracked x" "xp_slots_held (snd (settle t sample x)) = xp_slots_held x"
  "xp_intervals (snd (settle t sample x)) = xp_intervals x" "xp_truncated (snd (settle t sample x)) = xp_truncated x"
  "xp_last_movement_ms (snd (settle t sample x)) = xp_last_movement_ms x" "xp_still_since (snd (settle t sample x)) = xp_still_since x"
  "xp_stopped_on_stuck (snd (settle t sample x)) = xp_stopped_on_stuck x"
  by (simp_all add: settle_def)

abbreviation stopped :: "exploration \<Rightarrow> bool" where
  "stopped x \<equiv> xp_stopped_on_stuck x \<or> xp_stopped_on_engine_error x"

text \<open>The state a frame leaves before the run decides whether to go on.\<close>

definition stepped :: "int \<Rightarrow> exploration_sample \<Rightarrow> exploration \<Rightarrow> exploration" where
  "stepped t sample x =
     (let y = note_movement t (fst (see_frame t sample x)) (snd (see_frame t sample x))
      in if is_stuck t y then close_interval t (slot_at (xp_request x) t) y else y)"

lemma explore_running: "\<not> stopped x \<Longrightarrow> explore_frame (t, sample) x = settle t sample (stepped t sample x)"
  by (cases "see_frame t sample x") (simp add: stepped_def Let_def del: see_frame_fields)

declare explore_frame.simps [simp del]

lemma stepped_fields [simp]:
  "xp_request (stepped t sample x) = xp_request x" "xp_frames (stepped t sample x) = xp_frames x + 1"
  "xp_tracked (stepped t sample x) = snd (track_all (xr_movement_epsilon (xp_request x)) (es_readings sample) (xp_tracked x))"
  "xp_slots_held (stepped t sample x) = hold_action (action_for_slot (xp_request x) (slot_at (xp_request x) t)) (xp_slots_held x)"
  "xp_stopped_on_engine_error (stepped t sample x) = xp_stopped_on_engine_error x"
  by (simp_all add: stepped_def Let_def)

interpretation exploring: frame_monitor explore_frame stopped xp_frames
proof
  show "stopped s \<Longrightarrow> explore_frame f s = (True, s)" for s f
    by (cases f) (simp add: explore_frame.simps)
  show "\<not> stopped s \<Longrightarrow> xp_frames (snd (explore_frame f s)) = xp_frames s + 1" for s f
    by (cases f) (simp add: explore_running)
  show "stopped (snd (explore_frame f s)) \<Longrightarrow> fst (explore_frame f s)" for s f
  proof (cases "stopped s")
    case False
    then show "stopped (snd (explore_frame f s)) \<Longrightarrow> fst (explore_frame f s)"
      by (cases f) (simp add: explore_running settle_def split: if_splits)
  qed (cases f, simp add: explore_frame.simps)
qed

definition exploration_ok :: "exploration \<Rightarrow> bool" where
  "exploration_ok x =
     (length (xp_tracked x) = length (xr_probes (xp_request x)) \<and> length (xp_slots_held x) = length (xr_actions (xp_request x)) \<and>
      sum_list (xp_slots_held x) = xp_frames x \<and> length (xp_intervals x) \<le> 16)"

lemma sum_list_hold: "action < length held \<Longrightarrow> sum_list (hold_action action held) = sum_list held + 1"
  by (simp add: hold_action_def sum_list_update)

lemma length_hold_action [simp]: "length (hold_action action held) = length held"
  by (simp add: hold_action_def)

lemma action_for_slot_less: "xr_actions request \<noteq> [] \<Longrightarrow> action_for_slot request slot < length (xr_actions request)"
  by (simp add: action_for_slot_def)

lemma stepped_intervals:
  "length (xp_intervals x) \<le> 16 \<Longrightarrow> length (xp_intervals (stepped t sample x)) \<le> 16"
  by (auto simp: stepped_def Let_def close_interval_def)

lemma exploration_ok_frame:
  assumes "exploration_ok x" "xr_actions (xp_request x) \<noteq> []"
  shows "exploration_ok (snd (explore_frame f x)) \<and> xp_request (snd (explore_frame f x)) = xp_request x"
proof (cases "stopped x")
  case True
  then show ?thesis
    using assms by (simp add: exploring.stopped_stays)
next
  case False
  then show ?thesis
    using assms action_for_slot_less [OF assms(2)] stepped_intervals
    by (cases f) (simp add: explore_running exploration_ok_def sum_list_hold)
qed

lemma exploration_ok_run:
  assumes "exploration_ok x" "xr_actions (xp_request x) \<noteq> []"
  shows "exploration_ok (exploring.run fs x) \<and> xp_request (exploring.run fs x) = xp_request x"
  using assms exploration_ok_frame by (induction fs arbitrary: x) auto

lemma exploration_ok_new [simp]: "exploration_ok (new_exploration request)"
  by (simp add: exploration_ok_def new_exploration_def sum_list_replicate)

lemma new_exploration_request [simp]: "xp_request (new_exploration request) = request" "\<not> stopped (new_exploration request)"
  by (simp_all add: new_exploration_def)

section \<open>A frame of the engine\<close>

text \<open>
  How the extension reads one frame: as many readings as there are probes, each from its own
  evaluation. A value that is neither a number nor a boolean is a reading that failed.
\<close>

definition unread :: exploration_reading where
  "unread = \<lparr>er_value = None, er_read_error = []\<rparr>"

definition probe_params :: "exploration_probe \<Rightarrow> json" where
  "probe_params probe =
     jobj ([(''expression'', JStr (xb_expression probe)), (''timeout_ms'', JInt 50)] @
       (if xb_context_node probe \<noteq> [] then [(''context_node'', JStr (xb_context_node probe))] else []))"

definition probe_reading :: "json \<Rightarrow> (json_exn, exploration_reading) result" where
  "probe_reading evaluated =
     (case jget evaluated ''error'' of
        Some e \<Rightarrow> rbind (value_string e ''message'' ''expression failed'') (\<lambda>msg. Inr (unread\<lparr>er_read_error := msg\<rparr>))
      | None \<Rightarrow>
          if \<not> is_object evaluated then Inl Type_Error
          else
            Inr (case member_or_null evaluated ''value'' of
                   JBool b \<Rightarrow> unread\<lparr>er_value := Some (Fin (if b then 1 else 0))\<rparr>
                 | v \<Rightarrow>
                     if is_number v then unread\<lparr>er_value := Some (double_of v)\<rparr>
                     else unread\<lparr>er_read_error := ''expression did not evaluate to a number or a boolean''\<rparr>))"

fun probe_readings :: "(json \<Rightarrow> json) \<Rightarrow> exploration_probe list \<Rightarrow> (json_exn, exploration_reading list) result" where
  "probe_readings evaluate [] = Inr []"
| "probe_readings evaluate (probe # probes) =
     rbind (probe_reading (evaluate (probe_params probe))) (\<lambda>r.
     rbind (probe_readings evaluate probes) (\<lambda>rs. Inr (r # rs)))"

definition extension_sample ::
  "(json \<Rightarrow> json) \<Rightarrow> int \<Rightarrow> exploration_request \<Rightarrow> (json_exn, exploration_sample) result" where
  "extension_sample evaluate errors request =
     rbind (probe_readings evaluate (xr_probes request))
       (\<lambda>readings. Inr \<lparr>es_readings = readings, es_engine_errors = errors\<rparr>)"

text \<open>A frame is full when it has a reading for every probe, which is what the header asks of it.\<close>

definition full_sample :: "exploration_request \<Rightarrow> exploration_sample \<Rightarrow> bool" where
  "full_sample request sample = (length (es_readings sample) = length (xr_probes request))"

lemma length_probe_readings: "probe_readings evaluate probes = Inr rs \<Longrightarrow> length rs = length probes"
  by (induction probes arbitrary: rs) (auto simp: result_simps)

lemma extension_sample_full: "extension_sample evaluate errors request = Inr sample \<Longrightarrow> full_sample request sample"
  by (auto simp: extension_sample_def full_sample_def result_simps dest: length_probe_readings)

section \<open>What a frame tells of movement\<close>

text \<open>
  The frames seen so far decide whether a frame is unmoved, as the loop over the readings that are
  there sees it: each of those has a value, and none is further from its last value than the epsilon.
\<close>

definition probe_read :: "nat \<Rightarrow> exploration_sample \<Rightarrow> dbl option" where
  "probe_read i sample = (if i < length (es_readings sample) then er_value (es_readings sample ! i) else None)"

fun last_read :: "nat \<Rightarrow> exploration_sample list \<Rightarrow> dbl option \<Rightarrow> dbl option" where
  "last_read i [] v = v"
| "last_read i (sample # samples) v = last_read i samples (case probe_read i sample of None \<Rightarrow> v | Some u \<Rightarrow> Some u)"

definition unmoved_frame :: "exploration_request \<Rightarrow> exploration_sample list \<Rightarrow> exploration_sample \<Rightarrow> bool" where
  "unmoved_frame request before sample =
     (\<forall>i < min (length (xr_probes request)) (length (es_readings sample)).
        \<exists>v. er_value (es_readings sample ! i) = Some v \<and>
            (\<forall>u. last_read i before None = Some u \<longrightarrow> \<not> moved_far (xr_movement_epsilon request) v u))"

lemma last_read_append: "last_read i (xs @ ys) v = last_read i ys (last_read i xs v)"
  by (induction xs arbitrary: v) auto

lemma track_all_moved:
  "fst (track_all epsilon rs ts) \<longleftrightarrow> (\<exists>i < min (length ts) (length rs). fst (track epsilon (rs ! i) (ts ! i)))"
proof (induction epsilon rs ts rule: track_all.induct)
  case (1 epsilon r rs t ts)
  have "(\<exists>i < min (length (t # ts)) (length (r # rs)). fst (track epsilon ((r # rs) ! i) ((t # ts) ! i))) \<longleftrightarrow>
      fst (track epsilon r t) \<or> (\<exists>i < min (length ts) (length rs). fst (track epsilon (rs ! i) (ts ! i)))"
    by (simp add: Ex_less_Suc2)
  moreover have "fst (track_all epsilon (r # rs) (t # ts)) \<longleftrightarrow> fst (track epsilon r t) \<or> fst (track_all epsilon rs ts)"
    by (simp split: prod.splits)
  moreover have "fst (track_all epsilon rs ts) \<longleftrightarrow> (\<exists>i < min (length ts) (length rs). fst (track epsilon (rs ! i) (ts ! i)))"
    by (rule 1 [OF refl prod.collapse])
  ultimately show ?case
    by blast
qed simp_all

lemma track_all_nth:
  "i < length ts \<Longrightarrow> snd (track_all epsilon rs ts) ! i = (if i < length rs then snd (track epsilon (rs ! i) (ts ! i)) else ts ! i)"
  by (induction epsilon rs ts arbitrary: i rule: track_all.induct) (auto simp: nth_Cons split: prod.splits nat.splits)

text \<open>What a run knows of its probes.\<close>

definition knows :: "exploration_sample list \<Rightarrow> exploration \<Rightarrow> bool" where
  "knows before x =
     (length (xp_tracked x) = length (xr_probes (xp_request x)) \<and>
      (\<forall>i < length (xr_probes (xp_request x)).
        tr_seen (xp_tracked x ! i) = (last_read i before None \<noteq> None) \<and>
        (\<forall>u. last_read i before None = Some u \<longrightarrow> tr_last (xp_tracked x ! i) = u) \<and>
        tr_readings (xp_tracked x ! i) = length (List.map_filter (probe_read i) before)))"

lemma track_fields:
  "tr_seen (snd (track epsilon r t)) = (er_value r \<noteq> None \<or> tr_seen t)"
  "tr_last (snd (track epsilon r t)) = (case er_value r of None \<Rightarrow> tr_last t | Some v \<Rightarrow> v)"
  "tr_readings (snd (track epsilon r t)) = tr_readings t + (if er_value r = None then 0 else 1)"
  "fst (track epsilon r t) = (case er_value r of None \<Rightarrow> True | Some v \<Rightarrow> tr_seen t \<and> moved_far epsilon v (tr_last t))"
  by (auto simp: track_def Let_def split: option.splits)

lemma map_filter_snoc: "List.map_filter f (xs @ [x]) = List.map_filter f xs @ (case f x of None \<Rightarrow> [] | Some y \<Rightarrow> [y])"
  by (induction xs) (auto simp: map_filter_simps split: option.splits)

lemma knows_frame:
  assumes "knows before x"
  shows "knows (before @ [sample]) (stepped t sample x)"
  using assms
  by (auto simp: knows_def track_all_nth track_fields last_read_append probe_read_def map_filter_snoc split: option.splits if_splits)

lemma moved_iff:
  assumes "knows before x"
  shows "fst (see_frame t sample x) \<longleftrightarrow> \<not> unmoved_frame (xp_request x) before sample"
proof -
  have len: "length (xp_tracked x) = length (xr_probes (xp_request x))"
    using assms by (simp add: knows_def)
  have "fst (track epsilon r (xp_tracked x ! i)) \<longleftrightarrow>
      \<not> (\<exists>v. er_value r = Some v \<and> (\<forall>u. last_read i before None = Some u \<longrightarrow> \<not> moved_far epsilon v u))"
    if "i < length (xr_probes (xp_request x))" for i r epsilon
    using assms that by (cases "er_value r"; cases "last_read i before None") (auto simp: knows_def track_fields)
  then show ?thesis
    unfolding see_frame_fields unmoved_frame_def track_all_moved len by auto
qed

text \<open>
  A stretch of frames is unmoved when each of them is, given all that came before it. An interval is
  explained by an unmoved stretch it covers: from the frame before the stretch to its last one.
\<close>

type_synonym exploration_frame = "int \<times> exploration_sample"

fun unmoved_stretch :: "exploration_request \<Rightarrow> exploration_frame list \<Rightarrow> exploration_frame list \<Rightarrow> bool" where
  "unmoved_stretch request pre [] = True"
| "unmoved_stretch request pre (f # mid) =
     (unmoved_frame request (map snd pre) (snd f) \<and> unmoved_stretch request (pre @ [f]) mid)"

definition time_of :: "exploration_frame list \<Rightarrow> int" where
  "time_of frames = (if frames = [] then 0 else fst (last frames))"

definition explained :: "exploration_request \<Rightarrow> exploration_frame list \<Rightarrow> stuck_interval \<Rightarrow> bool" where
  "explained request frames interval =
     (\<exists>pre mid post. frames = pre @ mid @ post \<and> mid \<noteq> [] \<and> unmoved_stretch request pre mid \<and>
        si_started_ms interval = time_of pre \<and> si_ended_ms interval = time_of mid \<and>
        si_ended_ms interval - si_started_ms interval \<ge> xr_stuck_ms request)"

lemma unmoved_stretch_snoc:
  "unmoved_stretch request pre (mid @ [f]) \<longleftrightarrow> unmoved_stretch request pre mid \<and> unmoved_frame request (map snd (pre @ mid)) (snd f)"
  by (induction mid arbitrary: pre) auto

lemma time_of_snoc [simp]: "time_of (xs @ [f]) = fst f"
  by (simp add: time_of_def)

lemma explained_snoc: "explained request frames interval \<Longrightarrow> explained request (frames @ [f]) interval"
  unfolding explained_def by (metis append_assoc)

definition clock_at :: "exploration_frame list \<Rightarrow> exploration \<Rightarrow> bool" where
  "clock_at frames x =
     (\<exists>pre mid. frames = pre @ mid \<and> unmoved_stretch (xp_request x) pre mid \<and> xp_last_movement_ms x = time_of pre \<and>
        xp_still_since x = (mid \<noteq> []))"

lemma clock_at_moved: "xp_last_movement_ms x = time_of frames \<Longrightarrow> \<not> xp_still_since x \<Longrightarrow> clock_at frames x"
  unfolding clock_at_def by (intro exI [of _ frames] exI [of _ "[]"]) simp

lemma clock_frame:
  assumes "knows (map snd frames) x" "clock_at frames x"
  shows "clock_at (frames @ [(t, sample)]) (stepped t sample x)"
    and "xp_intervals (stepped t sample x) \<noteq> xp_intervals x \<Longrightarrow>
       \<exists>interval. xp_intervals (stepped t sample x) = xp_intervals x @ [interval] \<and>
         explained (xp_request x) (frames @ [(t, sample)]) interval \<and> si_ended_ms interval = t \<and>
         si_started_ms interval = xp_last_movement_ms x"
proof -
  obtain pre mid where clock: "frames = pre @ mid" "unmoved_stretch (xp_request x) pre mid" "xp_last_movement_ms x = time_of pre"
    "xp_still_since x = (mid \<noteq> [])"
    using assms(2) by (auto simp: clock_at_def)
  have goal: "clock_at (frames @ [(t, sample)]) (stepped t sample x) \<and>
     (xp_intervals (stepped t sample x) \<noteq> xp_intervals x \<longrightarrow>
       (\<exists>interval. xp_intervals (stepped t sample x) = xp_intervals x @ [interval] \<and>
         explained (xp_request x) (frames @ [(t, sample)]) interval \<and> si_ended_ms interval = t \<and>
         si_started_ms interval = xp_last_movement_ms x))"
  proof (cases "unmoved_frame (xp_request x) (map snd frames) sample")
    case False
    then have "fst (see_frame t sample x)"
      using moved_iff [OF assms(1)] by blast
    then have "xp_intervals (stepped t sample x) = xp_intervals x" "xp_last_movement_ms (stepped t sample x) = t"
      "\<not> xp_still_since (stepped t sample x)"
      by (simp_all add: stepped_def Let_def is_stuck_def del: see_frame_fields(12))
    then show ?thesis
      by (simp add: clock_at_moved)
  next
    case True
    then have still: "\<not> fst (see_frame t sample x)"
      using moved_iff [OF assms(1)] by blast
    have stretch: "unmoved_stretch (xp_request x) pre (mid @ [(t, sample)])"
      using True clock(1,2) by (simp add: unmoved_stretch_snoc)
    let ?y = "note_movement t False (snd (see_frame t sample x))"
    have step: "stepped t sample x = (if is_stuck t ?y then close_interval t (slot_at (xp_request x) t) ?y else ?y)"
      using still by (simp add: stepped_def Let_def del: see_frame_fields(12))
    show ?thesis
    proof (cases "is_stuck t ?y")
      case True
      then have "t - time_of pre \<ge> xr_stuck_ms (xp_request x)"
        by (simp add: is_stuck_def clock(3))
      then have "explained (xp_request x) (frames @ [(t, sample)]) \<lparr>si_started_ms = time_of pre, si_ended_ms = t, si_slot = slot\<rparr>" for slot
        using stretch clock(1) unfolding explained_def
        by (intro exI [of _ pre] exI [of _ "mid @ [(t, sample)]"] exI [of _ "[]"]) simp
      then show ?thesis
        using True clock(3) by (auto simp: step close_interval_def Let_def intro!: clock_at_moved)
    next
      case False
      then show ?thesis
        using stretch clock unfolding step clock_at_def
        by simp (intro exI [of _ pre] exI [of _ "mid @ [(t, sample)]"], simp)
    qed
  qed
  then show "clock_at (frames @ [(t, sample)]) (stepped t sample x)"
    "xp_intervals (stepped t sample x) \<noteq> xp_intervals x \<Longrightarrow>
       \<exists>interval. xp_intervals (stepped t sample x) = xp_intervals x @ [interval] \<and>
         explained (xp_request x) (frames @ [(t, sample)]) interval \<and> si_ended_ms interval = t \<and>
         si_started_ms interval = xp_last_movement_ms x"
    by blast+
qed

section \<open>A run over its frames\<close>

lemma step_of_run:
  "\<not> stopped (exploring.run fs x) \<Longrightarrow>
     exploring.run (fs @ [(t, sample)]) x = snd (settle t sample (stepped t sample (exploring.run fs x)))"
  by (simp add: exploring.run_snoc explore_running)

lemma stop_of_run: "stopped (exploring.run fs x) \<Longrightarrow> exploring.run (fs @ [f]) x = exploring.run fs x"
  by (simp add: exploring.run_snoc exploring.stopped_stays)

lemma knows_settle [simp]: "knows before (snd (settle t sample x)) = knows before x"
  by (simp add: knows_def)

lemma clock_settle [simp]: "clock_at frames (snd (settle t sample x)) = clock_at frames x"
  by (simp add: clock_at_def)

lemma request_of_run [simp]: "xp_request (exploring.run fs x) = xp_request x"
proof (induction fs rule: rev_induct)
  case (snoc f fs)
  then show ?case
    by (cases f; cases "stopped (exploring.run fs x)") (simp_all add: stop_of_run step_of_run)
qed simp

text \<open>The frames a run looked at are the first of those it was given.\<close>

definition looked_frames :: "exploration \<Rightarrow> exploration_frame list \<Rightarrow> exploration_frame list" where
  "looked_frames x frames = take (xp_frames x) frames"

lemma looked_frames_snoc:
  "looked_frames (exploring.run (fs @ [f]) (new_exploration request)) (fs @ [f]) =
     (if stopped (exploring.run fs (new_exploration request)) then looked_frames (exploring.run fs (new_exploration request)) fs else fs @ [f])"
proof (cases "stopped (exploring.run fs (new_exploration request))")
  case True
  have "xp_frames (exploring.run fs (new_exploration request)) \<le> length fs"
    using exploring.frames_bounded [of fs "new_exploration request"] by (simp add: new_exploration_def)
  then show ?thesis
    using True by (simp add: looked_frames_def stop_of_run)
next
  case False
  then have "xp_frames (exploring.run fs (new_exploration request)) = length fs"
    using exploring.frames_running [of fs "new_exploration request"] by (simp add: new_exploration_def)
  then show ?thesis
    using False by (cases f) (simp add: looked_frames_def step_of_run)
qed

lemma knows_new: "knows [] (new_exploration request)"
  by (simp add: knows_def new_exploration_def untracked_def map_filter_simps)

lemma knows_run:
  "knows (map snd (looked_frames (exploring.run fs (new_exploration request)) fs)) (exploring.run fs (new_exploration request))"
proof (induction fs rule: rev_induct)
  case (snoc f fs)
  show ?case
  proof (cases "stopped (exploring.run fs (new_exploration request))")
    case True
    then show ?thesis
      using snoc unfolding looked_frames_snoc by (simp add: stop_of_run)
  next
    case False
    have "looked_frames (exploring.run fs (new_exploration request)) fs = fs"
      using exploring.frames_running [OF False] by (simp add: looked_frames_def new_exploration_def)
    then show ?thesis
      using snoc False unfolding looked_frames_snoc by (cases f) (simp add: step_of_run knows_frame del: stepped_fields)
  qed
qed (simp add: looked_frames_def knows_new)

lemma knows_running:
  "\<not> stopped (exploring.run fs (new_exploration request)) \<Longrightarrow> knows (map snd fs) (exploring.run fs (new_exploration request))"
  using knows_run [of fs request] exploring.frames_running [of fs "new_exploration request"]
  by (simp add: looked_frames_def new_exploration_def)

lemma clock_running:
  "\<not> stopped (exploring.run fs (new_exploration request)) \<Longrightarrow> clock_at fs (exploring.run fs (new_exploration request))"
proof (induction fs rule: rev_induct)
  case Nil
  then show ?case
    by (simp add: clock_at_def new_exploration_def time_of_def)
next
  case (snoc f fs)
  then have "\<not> stopped (exploring.run fs (new_exploration request))"
    by (auto simp: stop_of_run)
  then show ?case
    using snoc.IH knows_running clock_frame(1) by (cases f) (simp add: step_of_run del: stepped_fields)
qed

lemma intervals_explained:
  "interval \<in> set (xp_intervals (exploring.run fs (new_exploration request))) \<Longrightarrow> explained request fs interval"
proof (induction fs rule: rev_induct)
  case Nil
  then show ?case by (simp add: new_exploration_def)
next
  case (snoc f fs)
  obtain t sample where f: "f = (t, sample)" by (cases f)
  let ?x = "exploring.run fs (new_exploration request)"
  show ?case
  proof (cases "stopped ?x \<or> xp_intervals (stepped t sample ?x) = xp_intervals ?x")
    case True
    then have "interval \<in> set (xp_intervals ?x)"
      using snoc.prems f by (cases "stopped ?x") (auto simp: stop_of_run step_of_run)
    then show ?thesis
      using snoc.IH explained_snoc by blast
  next
    case False
    then obtain new where "xp_intervals (stepped t sample ?x) = xp_intervals ?x @ [new]" "explained request (fs @ [(t, sample)]) new"
      using clock_frame(2) [OF knows_running clock_running, of fs request t sample] by auto
    then show ?thesis
      using False snoc f explained_snoc by (auto simp: step_of_run)
  qed
qed

text \<open>The clock of a run whose frames come in order.\<close>

lemma stepped_clock:
  "xp_last_movement_ms (stepped t sample x) = xp_last_movement_ms x \<and> xp_intervals (stepped t sample x) = xp_intervals x \<and>
     (xp_still_since (stepped t sample x) \<and> t - xp_last_movement_ms x < xr_stuck_ms (xp_request x)) \<or>
   xp_last_movement_ms (stepped t sample x) = t"
  by (auto simp: stepped_def Let_def is_stuck_def)

lemma intervals_grow: "\<exists>new. xp_intervals (stepped t sample x) = xp_intervals x @ new"
  by (auto simp: stepped_def Let_def close_interval_def)

definition intervals_in_order :: "stuck_interval list \<Rightarrow> bool" where
  "intervals_in_order intervals = sorted_wrt (\<lambda>a b. si_ended_ms a \<le> si_started_ms b) intervals"

lemma run_in_order:
  assumes "sorted (0 # map fst fs)"
  shows "intervals_in_order (xp_intervals (exploring.run fs (new_exploration request))) \<and>
     (\<forall>interval \<in> set (xp_intervals (exploring.run fs (new_exploration request))).
        si_ended_ms interval \<le> xp_last_movement_ms (exploring.run fs (new_exploration request))) \<and>
     xp_last_movement_ms (exploring.run fs (new_exploration request)) \<le> time_of fs"
  using assms
proof (induction fs rule: rev_induct)
  case Nil
  then show ?case by (simp add: new_exploration_def intervals_in_order_def time_of_def)
next
  case (snoc f fs)
  obtain t sample where f: "f = (t, sample)" by (cases f)
  let ?x = "exploring.run fs (new_exploration request)"
  have later: "time_of fs \<le> t"
    using snoc.prems f by (auto simp: time_of_def sorted_append)
  have before: "intervals_in_order (xp_intervals ?x)" "\<forall>interval \<in> set (xp_intervals ?x). si_ended_ms interval \<le> xp_last_movement_ms ?x"
    "xp_last_movement_ms ?x \<le> time_of fs"
    using snoc by (auto simp: sorted_append)
  show ?case
  proof (cases "stopped ?x")
    case True
    then show ?thesis
      using before later f by (simp add: stop_of_run)
  next
    case False
    have clock: "xp_last_movement_ms ?x \<le> xp_last_movement_ms (stepped t sample ?x)" "xp_last_movement_ms (stepped t sample ?x) \<le> t"
      using stepped_clock [of t sample ?x] before(3) later by auto
    show ?thesis
    proof (cases "xp_intervals (stepped t sample ?x) = xp_intervals ?x")
      case True
      then show ?thesis
        using False before clock f by (auto simp: step_of_run)
    next
      case changed: False
      then obtain new where new: "xp_intervals (stepped t sample ?x) = xp_intervals ?x @ [new]"
        "si_started_ms new = xp_last_movement_ms ?x" "si_ended_ms new = t"
        using clock_frame(2) [OF knows_running [OF False] clock_running [OF False], of t sample] by auto
      have "xp_last_movement_ms (stepped t sample ?x) = t"
        using stepped_clock [of t sample ?x] changed by auto
      then show ?thesis
        using False before clock new f later by (fastforce simp: step_of_run intervals_in_order_def sorted_wrt_append)
    qed
  qed
qed

text \<open>A long still stretch is noticed while it lasts.\<close>

definition closed_within :: "exploration_frame list \<Rightarrow> exploration \<Rightarrow> bool" where
  "closed_within mid x = (\<exists>interval \<in> set (xp_intervals x). si_ended_ms interval \<in> fst ` set mid)"

lemma stepped_still:
  assumes "\<not> fst (see_frame t sample x)"
  shows "xp_truncated (stepped t sample x) \<or>
     (\<exists>interval \<in> set (xp_intervals (stepped t sample x)). si_ended_ms interval = t) \<or>
     xp_stopped_on_stuck (stepped t sample x) = xp_stopped_on_stuck x \<and>
     xp_last_movement_ms (stepped t sample x) = xp_last_movement_ms x \<and> t - xp_last_movement_ms x < xr_stuck_ms (xp_request x)"
  using assms by (auto simp: stepped_def Let_def is_stuck_def close_interval_def simp del: see_frame_fields(12))

lemma truncated_stays: "xp_truncated x \<Longrightarrow> xp_truncated (stepped t sample x)"
  by (auto simp: stepped_def Let_def close_interval_def)

lemma kept_by_run:
  "(xp_truncated x \<longrightarrow> xp_truncated (exploring.run fs x)) \<and> set (xp_intervals x) \<subseteq> set (xp_intervals (exploring.run fs x))"
proof (induction fs rule: rev_induct)
  case (snoc f fs)
  obtain t sample where f: "f = (t, sample)" by (cases f)
  show ?case
    using snoc truncated_stays [of "exploring.run fs x" t sample] intervals_grow [of t sample "exploring.run fs x"]
    by (cases "stopped (exploring.run fs x)") (auto simp: f stop_of_run step_of_run)
qed simp

text \<open>The list of intervals is cut short only at sixteen of them, in a run that goes on after each.\<close>

definition bounded_report :: "exploration \<Rightarrow> bool" where
  "bounded_report x =
     (length (xp_intervals x) \<le> 16 \<and> (xp_truncated x \<longrightarrow> length (xp_intervals x) = 16 \<and> \<not> xr_pause_on_stuck (xp_request x)) \<and>
      (xr_pause_on_stuck (xp_request x) \<longrightarrow> xp_intervals x = [] \<or> xp_stopped_on_stuck x))"

lemma bounded_report_step:
  assumes "bounded_report x" "\<not> stopped x"
  shows "bounded_report (snd (settle t sample (stepped t sample x)))"
  using assms by (auto simp: bounded_report_def stepped_def Let_def close_interval_def)

lemma bounded_report_run: "bounded_report (exploring.run fs (new_exploration request))"
proof (induction fs rule: rev_induct)
  case Nil
  then show ?case by (simp add: bounded_report_def new_exploration_def)
next
  case (snoc f fs)
  then show ?case
    using bounded_report_step
    by (cases f; cases "stopped (exploring.run fs (new_exploration request))") (simp_all add: stop_of_run step_of_run)
qed

text \<open>What becomes of an unmoved stretch: it is closed, or the run stops in it at an engine error, or it is too short yet.\<close>

definition error_within :: "exploration_request \<Rightarrow> exploration_frame list \<Rightarrow> bool" where
  "error_within request mid = (xr_stop_on_engine_error request \<and> (\<exists>f \<in> set mid. es_engine_errors (snd f) > 0))"

lemma settle_stops:
  "xp_stopped_on_engine_error (snd (settle t sample x)) \<longleftrightarrow>
     xp_stopped_on_engine_error x \<or>
     (\<not> xp_stopped_on_stuck x \<and> xr_stop_on_engine_error (xp_request x) \<and> es_engine_errors sample > 0)"
  by (auto simp: settle_def)

lemma still_clock:
  assumes "\<not> stopped (exploring.run pre (new_exploration request))" "sorted (0 # map fst (pre @ mid))"
    and "unmoved_stretch request pre mid"
  shows "xp_truncated (exploring.run (pre @ mid) (new_exploration request)) \<or>
     closed_within mid (exploring.run (pre @ mid) (new_exploration request)) \<or> error_within request mid \<or>
     \<not> stopped (exploring.run (pre @ mid) (new_exploration request)) \<and>
     xp_last_movement_ms (exploring.run (pre @ mid) (new_exploration request)) \<le> time_of pre \<and>
     (mid \<noteq> [] \<longrightarrow>
       time_of mid - xp_last_movement_ms (exploring.run (pre @ mid) (new_exploration request)) < xr_stuck_ms request)"
  using assms
proof (induction mid rule: rev_induct)
  case Nil
  then show ?case
    using run_in_order by simp
next
  case (snoc f mid)
  obtain t sample where f: "f = (t, sample)" by (cases f)
  let ?x = "exploring.run (pre @ mid) (new_exploration request)"
  let ?y = "exploring.run (pre @ mid @ [f]) (new_exploration request)"
  have sorted: "sorted (0 # map fst (pre @ mid))" and stretch: "unmoved_stretch request pre mid"
    and frame: "unmoved_frame request (map snd (pre @ mid)) sample"
    using snoc.prems(2,3) f by (auto simp: unmoved_stretch_snoc sorted_append)
  have "xp_truncated ?x \<longrightarrow> xp_truncated ?y" "set (xp_intervals ?x) \<subseteq> set (xp_intervals ?y)"
    using kept_by_run [of ?x "[f]"] by (simp_all flip: exploring.run_append)
  then have kept: "xp_truncated ?x \<Longrightarrow> xp_truncated ?y" "closed_within mid ?x \<Longrightarrow> closed_within (mid @ [f]) ?y"
    by (auto simp: closed_within_def)
  from snoc.IH [OF snoc.prems(1) sorted stretch] show ?case
  proof (elim disjE conjE)
    assume going: "\<not> stopped ?x" and last: "xp_last_movement_ms ?x \<le> time_of pre"
    have run: "?y = snd (settle t sample (stepped t sample ?x))"
      using step_of_run [OF going, of t sample] by (simp add: f)
    have still: "\<not> fst (see_frame t sample ?x)"
      using moved_iff [OF knows_running [OF going], of t sample] frame by (simp del: see_frame_fields(12))
    from stepped_still [OF still] show ?thesis
    proof (elim disjE conjE)
      assume same: "xp_stopped_on_stuck (stepped t sample ?x) = xp_stopped_on_stuck ?x"
        "xp_last_movement_ms (stepped t sample ?x) = xp_last_movement_ms ?x"
        "t - xp_last_movement_ms ?x < xr_stuck_ms (xp_request ?x)"
      show ?thesis
      proof (cases "stopped ?y")
        case True
        then have "xr_stop_on_engine_error request \<and> es_engine_errors sample > 0"
          using same(1) going unfolding run by (auto simp: settle_stops)
        then show ?thesis by (auto simp: error_within_def f)
      next
        case False
        have "xp_last_movement_ms ?y = xp_last_movement_ms ?x"
          using same(2) unfolding run by simp
        moreover have "time_of (mid @ [f]) = t"
          by (simp add: f)
        ultimately have "xp_last_movement_ms ?y \<le> time_of pre \<and>
            (mid @ [f] \<noteq> [] \<longrightarrow> time_of (mid @ [f]) - xp_last_movement_ms ?y < xr_stuck_ms request)"
          using same(3) last by simp
        then show ?thesis using False by blast
      qed
    next
      assume "xp_truncated (stepped t sample ?x)"
      then show ?thesis unfolding run by simp
    next
      assume "\<exists>interval \<in> set (xp_intervals (stepped t sample ?x)). si_ended_ms interval = t"
      then show ?thesis unfolding run unfolding f by (auto simp: closed_within_def)
    qed
  next
    assume "error_within request mid"
    then show ?thesis by (auto simp: error_within_def)
  qed (use kept in blast)+
qed

section \<open>Properties of the exploration\<close>

definition walk_request :: exploration_request where
  "walk_request =
     \<lparr>xr_duration_ms = 1000, xr_action_hold_ms = 250, xr_stuck_ms = 100, xr_movement_epsilon = Fin 0, xr_pause_on_stuck = False,
      xr_stop_on_engine_error = True, xr_seed = 1, xr_actions = [''ui_right''],
      xr_probes = [\<lparr>xb_name = ''x'', xb_context_node = [], xb_expression = ''position.x''\<rparr>]\<rparr>"

definition walk_frame :: "int \<Rightarrow> rat \<Rightarrow> exploration_frame" where
  "walk_frame t v = (t, \<lparr>es_readings = [\<lparr>er_value = Some (Fin v), er_read_error = []\<rparr>], es_engine_errors = 0\<rparr>)"

lemma dbl_sub_self [simp]: "dbl_sub (Fin a) (Fin a) = Fin 0"
  by (simp add: Let_def)

lemma walk_not_moved [simp]: "\<not> moved_far (Fin 0) (Fin a) (Fin a)"
  by (simp add: moved_far_def del: dbl_sub.simps)

lemma walk_run:
  "xp_intervals (exploring.run [walk_frame 16 0, walk_frame 66 0, walk_frame 133 0] (new_exploration walk_request)) =
     [\<lparr>si_started_ms = 0, si_ended_ms = 133, si_slot = 0\<rparr>]"
  "\<not> stopped (exploring.run [walk_frame 16 0, walk_frame 66 0, walk_frame 133 0] (new_exploration walk_request))"
  "\<not> xp_truncated (exploring.run [walk_frame 16 0, walk_frame 66 0, walk_frame 133 0] (new_exploration walk_request))"
  by (simp_all add: walk_frame_def walk_request_def new_exploration_def explore_running stepped_def see_frame_def Let_def track_def
      untracked_def note_movement_def is_stuck_def close_interval_def settle_def slot_at_def del: see_frame_fields note_movement_fields
      settle_fields close_interval_fields stepped_fields dbl_sub.simps)

text \<open>
  Whatever frames a run is given, the frames its actions were held sum to the frames it looked at, there
  are at most sixteen intervals, and what is kept of the probes and the actions is parallel to the request.
\<close>

theorem held_frames_sum:
  assumes "xr_actions request \<noteq> []"
  shows "sum_list (xp_slots_held (exploring.run frames (new_exploration request))) =
       xp_frames (exploring.run frames (new_exploration request)) \<and>
     length (xp_slots_held (exploring.run frames (new_exploration request))) = length (xr_actions request) \<and>
     length (xp_tracked (exploring.run frames (new_exploration request))) = length (xr_probes request) \<and>
     length (xp_intervals (exploring.run frames (new_exploration request))) \<le> 16"
proof -
  have "exploration_ok (exploring.run frames (new_exploration request))"
    using exploration_ok_run [of "new_exploration request" frames] assms by simp
  then show ?thesis
    by (simp add: exploration_ok_def)
qed

theorem held_frames_sum_witness:
  "sum_list (xp_slots_held (exploring.run [walk_frame 16 0, walk_frame 33 0] (new_exploration walk_request))) =
     xp_frames (exploring.run [walk_frame 16 0, walk_frame 33 0] (new_exploration walk_request))"
proof -
  have "xr_actions walk_request \<noteq> []"
    by (simp add: walk_request_def)
  then show ?thesis
    using held_frames_sum by blast
qed

text \<open>
  A frame is still when every probe of the request was read in it and none is further from its last
  value than the epsilon; a stretch is still when each of its frames is. For a full frame this is
  what the loop sees. For a frame that lacks a reading it is not: the loop passes over a probe that
  has no reading at all, and counts the frame as one in which it did not move.
\<close>

definition still_frame :: "exploration_request \<Rightarrow> exploration_sample list \<Rightarrow> exploration_sample \<Rightarrow> bool" where
  "still_frame request before sample =
     (\<forall>i < length (xr_probes request). \<exists>v. probe_read i sample = Some v \<and>
        (\<forall>u. last_read i before None = Some u \<longrightarrow> \<not> moved_far (xr_movement_epsilon request) v u))"

fun still_stretch :: "exploration_request \<Rightarrow> exploration_frame list \<Rightarrow> exploration_frame list \<Rightarrow> bool" where
  "still_stretch request pre [] = True"
| "still_stretch request pre (f # mid) =
     (still_frame request (map snd pre) (snd f) \<and> still_stretch request (pre @ [f]) mid)"

lemma still_frame_full: "full_sample request sample \<Longrightarrow> still_frame request before sample = unmoved_frame request before sample"
  by (auto simp: still_frame_def unmoved_frame_def full_sample_def probe_read_def)

lemma still_stretch_full:
  "\<forall>f \<in> set mid. full_sample request (snd f) \<Longrightarrow> still_stretch request pre mid = unmoved_stretch request pre mid"
  by (induction mid arbitrary: pre) (simp_all add: still_frame_full)

lemma missing_readings_are_unmoved:
  assumes "xr_probes request \<noteq> []"
  shows "unmoved_frame request before \<lparr>es_readings = [], es_engine_errors = 0\<rparr> \<and>
    \<not> still_frame request before \<lparr>es_readings = [], es_engine_errors = 0\<rparr>"
  using assms by (auto simp: unmoved_frame_def still_frame_def probe_read_def)

text \<open>
  Movement is measured from one frame to the next: a probe that creeps by no more than the epsilon each
  frame counts as standing still however far it gets.
\<close>

lemma dbl_sub_step: "dbl_sub (Fin (a + 1)) (Fin a) = Fin 1"
proof -
  have "round53 (nat \<bar>\<lfloor>(a + 1 - a) * 2 ^ 1074\<rfloor>\<bar>) = 2 ^ 1074"
  proof -
    have "(a + 1 - a) * 2 ^ 1074 = of_int (2 ^ 1074)"
      by simp
    then have "\<lfloor>(a + 1 - a) * 2 ^ 1074\<rfloor> = 2 ^ 1074"
      by (simp only: floor_of_int)
    then have "nat \<bar>\<lfloor>(a + 1 - a) * 2 ^ 1074\<rfloor>\<bar> = 2 ^ 1074"
      by (simp only: abs_of_nonneg [OF zero_le_power [OF zero_le_numeral]] nat_power_eq [OF zero_le_numeral] nat_numeral)
    then show ?thesis
      by (simp only: round53_power)
  qed
  moreover have "sgn \<lfloor>(a + 1 - a) * 2 ^ 1074\<rfloor> = 1"
    by simp
  ultimately show ?thesis
    unfolding dbl_sub.simps Let_def by (simp del: of_int_power)
qed

lemma creeping_is_still:
  "still_frame (walk_request\<lparr>xr_movement_epsilon := Fin 1\<rparr>) (map (\<lambda>k. snd (walk_frame 0 (of_nat k))) [0..<n]) (snd (walk_frame t (of_nat n)))"
proof (cases n)
  case 0
  then show ?thesis
    by (simp add: still_frame_def walk_request_def probe_read_def walk_frame_def)
next
  case (Suc m)
  have "last_read 0 (map (\<lambda>k. snd (walk_frame 0 (of_nat k))) [0..<Suc m]) None = Some (Fin (of_nat m))"
    by (simp add: last_read_append probe_read_def walk_frame_def)
  moreover have "\<not> moved_far (Fin 1) (Fin (of_nat m + 1)) (Fin (of_nat m))"
    unfolding moved_far_def dbl_sub_step by simp
  ultimately show ?thesis
    by (simp add: Suc still_frame_def probe_read_def walk_request_def walk_frame_def add.commute)
qed

text \<open>
  (C18) A reported stuck interval is the truth. In a run over full frames, which are the frames the
  extension builds (\<open>extension_sample_full\<close>), it spans consecutive frames, from the frame before them
  to the last of them, at least as long as the caller asked, and in every one of them each probe of the
  request was read and none was further from its last value than the epsilon. A probe that could not
  be read never makes a game look stuck.
\<close>

theorem stuck_intervals_are_true:
  assumes "interval \<in> set (xp_intervals (exploring.run frames (new_exploration request)))"
    and "\<forall>f \<in> set frames. full_sample request (snd f)"
  shows "\<exists>pre mid post. frames = pre @ mid @ post \<and> mid \<noteq> [] \<and> still_stretch request pre mid \<and>
     si_started_ms interval = time_of pre \<and> si_ended_ms interval = time_of mid \<and>
     si_ended_ms interval - si_started_ms interval \<ge> xr_stuck_ms request"
proof -
  obtain pre mid post where "frames = pre @ mid @ post" "mid \<noteq> []" "unmoved_stretch request pre mid"
    "si_started_ms interval = time_of pre" "si_ended_ms interval = time_of mid"
    "si_ended_ms interval - si_started_ms interval \<ge> xr_stuck_ms request"
    using intervals_explained [OF assms(1)] by (auto simp: explained_def)
  moreover from this have "still_stretch request pre mid"
    using assms(2) by (simp add: still_stretch_full)
  ultimately show ?thesis by blast
qed

lemma walk_full: "full_sample walk_request (snd (walk_frame t v))" "full_sample (walk_request\<lparr>xr_pause_on_stuck := pause\<rparr>) (snd (walk_frame t v))"
  by (simp_all add: full_sample_def walk_request_def walk_frame_def)

theorem stuck_intervals_are_true_witness:
  "\<exists>pre mid post. [walk_frame 16 0, walk_frame 66 0, walk_frame 133 0] = pre @ mid @ post \<and> mid \<noteq> [] \<and>
     still_stretch walk_request pre mid \<and> time_of mid = 133"
proof -
  have "\<lparr>si_started_ms = 0, si_ended_ms = 133, si_slot = 0\<rparr> \<in>
      set (xp_intervals (exploring.run [walk_frame 16 0, walk_frame 66 0, walk_frame 133 0] (new_exploration walk_request)))"
    unfolding walk_run by simp
  from stuck_intervals_are_true [OF this] show ?thesis
    using walk_full(1) by auto
qed

text \<open>
  (C20) No stretch is missed, whether the run goes on or stops at the first. Over full frames that come
  in order, let a run that has not stopped be given a still stretch as long as the caller asked. Then an
  interval closes within the stretch, unless an engine error in it ended the run where that was asked
  for, or the report already holds the sixteen intervals it keeps, which takes a run that does not
  pause on the first. The intervals follow one another without overlapping.
\<close>

theorem still_stretches_are_reported:
  assumes "\<not> stopped (exploring.run pre (new_exploration request))"
    and "\<forall>f \<in> set (pre @ mid @ post). full_sample request (snd f)"
    and "sorted (0 # map fst (pre @ mid @ post))" "mid \<noteq> []" "still_stretch request pre mid"
    and "time_of mid - time_of pre \<ge> xr_stuck_ms request"
  shows "let intervals = xp_intervals (exploring.run (pre @ mid @ post) (new_exploration request))
     in intervals_in_order intervals \<and>
        ((\<exists>interval \<in> set intervals. si_ended_ms interval \<in> fst ` set mid) \<or>
         (xr_stop_on_engine_error request \<and> (\<exists>f \<in> set mid. es_engine_errors (snd f) > 0)) \<or>
         (length intervals = 16 \<and> \<not> xr_pause_on_stuck request))"
proof -
  let ?x = "exploring.run (pre @ mid) (new_exploration request)"
  let ?y = "exploring.run (pre @ mid @ post) (new_exploration request)"
  have split: "?y = exploring.run post ?x"
    using exploring.run_append [of "pre @ mid" post] by simp
  have "sorted (0 # map fst (pre @ mid))" "unmoved_stretch request pre mid"
    using assms(2,3,5) still_stretch_full [of mid request pre] by (auto simp: sorted_append)
  from still_clock [OF assms(1) this] have "xp_truncated ?x \<or> closed_within mid ?x \<or> error_within request mid"
    using assms(4,6) by auto
  then have "xp_truncated ?y \<or> closed_within mid ?y \<or> error_within request mid"
    using kept_by_run [of ?x post] unfolding split by (auto simp: closed_within_def)
  then show ?thesis
    using run_in_order [OF assms(3), of request] bounded_report_run [of "pre @ mid @ post" request]
    by (auto simp: Let_def closed_within_def error_within_def bounded_report_def)
qed

text \<open>A run that pauses when stuck: it stops in the stretch, and the stretch is reported.\<close>

theorem still_stretches_are_reported_witness:
  "\<exists>interval \<in> set (xp_intervals (exploring.run ([] @ [walk_frame 16 0, walk_frame 66 0, walk_frame 133 0, walk_frame 150 0] @ [])
       (new_exploration (walk_request\<lparr>xr_pause_on_stuck := True\<rparr>)))). si_ended_ms interval \<in> {16, 66, 133, 150}"
proof -
  let ?r = "walk_request\<lparr>xr_pause_on_stuck := True\<rparr>"
  let ?mid = "[walk_frame 16 0, walk_frame 66 0, walk_frame 133 0, walk_frame 150 0]"
  have "sorted (0 # map fst ([] @ ?mid @ []))" "still_stretch ?r [] ?mid" "time_of ?mid - time_of [] \<ge> xr_stuck_ms ?r"
    by (simp_all add: walk_frame_def walk_request_def still_frame_def probe_read_def time_of_def)
  moreover have "\<forall>f \<in> set ([] @ ?mid @ []). full_sample ?r (snd f)"
    using walk_full(2) by simp
  moreover have "\<not> stopped (exploring.run [] (new_exploration ?r))"
    by (simp add: new_exploration_def)
  moreover have "fst ` set ?mid = {16, 66, 133, 150}" "\<not> (\<exists>f \<in> set ?mid. es_engine_errors (snd f) > 0)" "xr_pause_on_stuck ?r"
    by (simp_all add: walk_frame_def)
  ultimately show ?thesis
    using still_stretches_are_reported [of "[]" ?r ?mid "[]"] unfolding Let_def by (metis list.distinct(1))
qed

section \<open>Measured and unread\<close>

lemma response_measured:
  "jget (exploration_response paused x) ''measured'' = Some (JBool (length (unread_probes x) < length (xr_probes (xp_request x))))"
  by (simp add: exploration_response_def Let_def jget_jobj)

lemma measured_iff:
  assumes "length (xp_tracked x) = length (xr_probes (xp_request x))"
  shows "length (unread_probes x) < length (xr_probes (xp_request x)) \<longleftrightarrow>
     (\<exists>i < length (xr_probes (xp_request x)). tr_readings (xp_tracked x ! i) \<noteq> 0)"
proof -
  have "length (filter P (zip ps ts)) < length ps \<longleftrightarrow> (\<exists>i < length ps. \<not> P (ps ! i, ts ! i))" if "length ts = length ps"
    for P :: "exploration_probe \<times> tracked \<Rightarrow> bool" and ps ts
  proof -
    have "length (filter P (zip ps ts)) = length ps \<longleftrightarrow> (\<forall>z \<in> set (zip ps ts). P z)"
      using that filter_id_conv [of P "zip ps ts"] length_filter_conv_card
      by (metis (no_types, lifting) filter_True length_filter_less length_zip min.idem nless_le)
    moreover have "length (filter P (zip ps ts)) \<le> length ps"
      using length_filter_le [of P "zip ps ts"] that by simp
    ultimately show ?thesis
      using that by (auto simp: set_zip)
  qed
  from this [OF assms, of "\<lambda>(probe, t). tr_readings t = 0"] show ?thesis
    by (simp add: unread_probes_def)
qed

text \<open>
  A run says it measured something exactly when some probe was read in some frame it looked at: a
  window in which nothing could be read is never reported as one in which nothing moved.
\<close>

theorem measured_is_true:
  "jget (exploration_response paused (exploring.run frames (new_exploration request))) ''measured'' =
     Some (JBool (\<exists>i < length (xr_probes request).
       \<exists>f \<in> set (looked_frames (exploring.run frames (new_exploration request)) frames). probe_read i (snd f) \<noteq> None))"
proof -
  let ?x = "exploring.run frames (new_exploration request)"
  have knows: "length (xp_tracked ?x) = length (xr_probes request)"
    "\<forall>i < length (xr_probes request). tr_readings (xp_tracked ?x ! i) = length (List.map_filter (probe_read i) (map snd (looked_frames ?x frames)))"
    using knows_run [of frames request] by (simp_all add: knows_def)
  have "(\<exists>i < length (xr_probes request). tr_readings (xp_tracked ?x ! i) \<noteq> 0) \<longleftrightarrow>
     (\<exists>i < length (xr_probes request). \<exists>f \<in> set (looked_frames ?x frames). probe_read i (snd f) \<noteq> None)"
    using knows(2) by (simp add: map_filter_Nil cong: conj_cong)
  then show ?thesis
    using measured_iff [of ?x] knows(1) by (simp add: response_measured)
qed

theorem measured_is_true_witness:
  "jget (exploration_response False (exploring.run [] (new_exploration walk_request))) ''measured'' = Some (JBool False)"
  using measured_is_true [of False "[]" walk_request] by (simp add: looked_frames_def)

section \<open>Accepted runs and relayed refusals\<close>

lemma bounded_int_range:
  "bounded_int params field lo hi fallback = Inr i \<Longrightarrow> lo \<le> fallback \<Longrightarrow> fallback \<le> hi \<Longrightarrow> lo \<le> i \<and> i \<le> hi"
  by (auto simp: bounded_int_def split: option.splits if_splits)

lemma bounded_int_absent: "bounded_int params field lo hi fallback = Inr i \<Longrightarrow> \<not> contains params field \<Longrightarrow> i = fallback"
  by (auto simp: bounded_int_def contains_def)

lemma bounded_array_length: "bounded_array params field maximum = Inr xs \<Longrightarrow> xs \<noteq> [] \<and> length xs \<le> maximum"
  by (cases "jget params field"; cases "the (jget params field)") (auto simp: bounded_array_def split: if_splits)

lemma parse_actions_distinct:
  "parse_actions vs actions = Inr result \<Longrightarrow> distinct actions \<Longrightarrow> distinct result \<and> length result = length actions + length vs"
  by (induction vs arbitrary: actions) (fastforce simp: result_simps split: if_splits)+

lemma parse_probes_length: "parse_probes vs position = Inr probes \<Longrightarrow> length probes = length vs"
  by (induction vs arbitrary: position probes) (auto simp: result_simps)

lemma parse_epsilon_ok: "parse_epsilon params = Inr e \<Longrightarrow> is_finite e \<and> \<not> dbl_less e (Fin 0)"
  by (auto simp: parse_epsilon_def split: option.splits if_splits)

definition run_ok :: "exploration_request \<Rightarrow> bool" where
  "run_ok request =
     (250 \<le> xr_duration_ms request \<and> xr_duration_ms request \<le> 60000 \<and> 16 \<le> xr_action_hold_ms request \<and>
      100 \<le> xr_stuck_ms request \<and> xr_stuck_ms request \<le> xr_duration_ms request \<and>
      is_finite (xr_movement_epsilon request) \<and> \<not> dbl_less (xr_movement_epsilon request) (Fin 0) \<and>
      distinct (xr_actions request) \<and> 1 \<le> length (xr_actions request) \<and> length (xr_actions request) \<le> 8 \<and>
      1 \<le> length (xr_probes request) \<and> length (xr_probes request) \<le> 4)"

lemma parsed_run_ok:
  assumes "parse_scene_exploration_request params = Inr request"
  shows "run_ok request"
proof -
  obtain duration hold stuck pause stop epsilon seed actions_given actions probes_given probes where p:
    "bounded_int params ''duration_ms'' 250 60000 5000 = Inr duration" "bounded_int params ''action_hold_ms'' 16 10000 250 = Inr hold"
    "bounded_int params ''stuck_ms'' 100 60000 3000 = Inr stuck" "parse_epsilon params = Inr epsilon"
    "bounded_array params ''actions'' 8 = Inr actions_given" "parse_actions actions_given [] = Inr actions"
    "bounded_array params ''probes'' 4 = Inr probes_given" "parse_probes probes_given 0 = Inr probes"
    "\<not> default_stuck params stuck duration > duration"
    "request = \<lparr>xr_duration_ms = duration, xr_action_hold_ms = hold, xr_stuck_ms = default_stuck params stuck duration,
       xr_movement_epsilon = epsilon, xr_pause_on_stuck = pause, xr_stop_on_engine_error = stop, xr_seed = seed,
       xr_actions = actions, xr_probes = probes\<rparr>"
    using assms by (auto simp: parse_scene_exploration_request_def result_simps split: if_splits)
  have "250 \<le> duration \<and> duration \<le> 60000" "16 \<le> hold" "100 \<le> stuck"
    using bounded_int_range [OF p(1)] bounded_int_range [OF p(2)] bounded_int_range [OF p(3)] by auto
  then have numbers: "250 \<le> duration \<and> duration \<le> 60000" "16 \<le> hold" "100 \<le> default_stuck params stuck duration"
    by (auto simp: default_stuck_def)
  show ?thesis
    using numbers p(9) parse_epsilon_ok [OF p(4)] parse_actions_distinct [OF p(6)] bounded_array_length [OF p(5)]
      bounded_array_length [OF p(7)] parse_probes_length [OF p(8)]
    unfolding p(10) run_ok_def by (auto simp: Suc_le_eq)
qed

text \<open>
  An accepted run can be carried out: it has an action to press and a probe to look at, no
  action twice, and a stuck interval can close inside its window, also where the caller left the
  interval to its default.
\<close>

theorem accepted_runs_can_report:
  assumes "parse_scene_exploration_request params = Inr request"
  shows "run_ok request"
  using assms by (rule parsed_run_ok)

definition walk_params :: json where
  "walk_params =
     jobj [(''actions'', JArr [JStr ''ui_right'', JStr ''jump'']), (''probes'', JArr [jobj [(''expression'', JStr ''position.x'')]])]"

theorem accepted_runs_can_report_witness:
  "\<exists>request. parse_scene_exploration_request walk_params = Inr request \<and> run_ok request"
proof -
  have "is_ok (parse_scene_exploration_request walk_params)"
    by code_simp
  then obtain request where "parse_scene_exploration_request walk_params = Inr request"
    by (auto simp: result_simps)
  with accepted_runs_can_report [OF this] show ?thesis
    by blast
qed

lemma kv_get_rev: "kv_ok m \<Longrightarrow> kv_get (rev m) k = kv_get m k"
proof -
  assume "kv_ok m"
  then have d: "distinct (map fst m)" "distinct (map fst (rev m))"
    using kv_ok_distinct distinct_rev rev_map by metis+
  have "kv_get (rev m) k = Some v \<longleftrightarrow> kv_get m k = Some v" for v
    unfolding kv_get_def map_of_eq_Some_iff [OF d(1)] map_of_eq_Some_iff [OF d(2)] set_rev by (rule refl)
  then show "kv_get (rev m) k = kv_get m k"
    by (metis option.exhaust)
qed

lemma jget_relayed_data:
  assumes "published = Some p" "jget p ''data'' = Some (JObj d)" "kv_ok d" "kv_ok (members extra)"
  shows "jget (relayed_data published fallback extra) k =
     (case jget extra k of
        Some x \<Rightarrow> Some x
      | None \<Rightarrow>
          (case kv_get d k of
             Some x \<Rightarrow> Some x
           | None \<Rightarrow> if k = ''code'' then Some (JStr fallback) else if k = ''retryable'' then Some (JBool False) else None))"
proof -
  let ?base = "put_missing ''retryable'' (JBool False) (put_missing ''code'' (JStr fallback) (JObj d))"
  have "is_object ?base" "kv_ok (members ?base)"
    using assms(3) by simp_all
  then obtain b where b: "?base = JObj b" "kv_ok b"
    by (cases ?base) auto
  have folded: "fold (\<lambda>(k, x). jput k x) es (JObj b) = JObj (fold (\<lambda>(k, v). kv_put k v) es b)" for es b
    by (induction es arbitrary: b) auto
  have "jget (relayed_data published fallback extra) k = (case jget extra k of Some x \<Rightarrow> Some x | None \<Rightarrow> jget ?base k)"
    using assms b by (simp add: relayed_data_def Let_def folded jget_def kv_get_fold_put kv_get_rev split: option.splits)
  moreover have "jget (JObj d) j = kv_get d j" for j
    by (simp add: jget_def)
  ultimately show ?thesis
    using assms(3) by (cases "jget extra k"; cases "kv_get d k") (simp_all add: jget_put_missing)
qed

text \<open>
  A run that reports a call of the bridge reports what the bridge published: its status, its sentence
  after the run's own, and every member of its data, to which the run only adds what it knows itself and,
  where the bridge named none, the code it was given and that the call is not retryable.
\<close>

theorem relayed_refusal_keeps_what_was_published:
  assumes "jget bridge_error ''error'' = Some (JObj m)" "status_of (JObj m) = Inr status"
    and "jget (JObj m) ''message'' = Some (JStr detail)" "jget (JObj m) ''data'' = Some (JObj d)" "kv_ok d" "kv_ok (members extra)"
  shows "\<exists>e data. relayed_exploration_refusal sentence bridge_error fallback extra = Inr (jobj [(''error'', e)]) \<and>
     jget e ''code'' = Some (JInt status) \<and> jget e ''message'' = Some (JStr (sentence @ '': '' @ detail)) \<and> jget e ''data'' = Some data \<and>
     (\<forall>k. jget data k =
       (case jget extra k of
          Some x \<Rightarrow> Some x
        | None \<Rightarrow>
            (case kv_get d k of
               Some x \<Rightarrow> Some x
             | None \<Rightarrow> if k = ''code'' then Some (JStr fallback) else if k = ''retryable'' then Some (JBool False) else None)))"
proof -
  have "published_error bridge_error = Some (JObj m)"
    using assms(1) by (simp add: published_error_def)
  then have "relayed_exploration_refusal sentence bridge_error fallback extra =
      Inr (jobj [(''error'', jobj [(''code'', JInt status), (''message'', JStr (sentence @ '': '' @ detail)),
        (''data'', relayed_data (Some (JObj m)) fallback extra)])])"
    using assms(2,3) by (simp add: relayed_exploration_refusal_def value_string_def Let_def)
  then show ?thesis
    using jget_relayed_data [OF refl assms(4-6), of fallback]
    by (intro exI [of _ "jobj [(''code'', JInt status), (''message'', JStr (sentence @ '': '' @ detail)),
        (''data'', relayed_data (Some (JObj m)) fallback extra)]"] exI [of _ "relayed_data (Some (JObj m)) fallback extra"])
      (simp add: jget_jobj del: split_paired_All)
qed

theorem relayed_refusal_keeps_what_was_published_witness:
  "\<exists>e data. relayed_exploration_refusal ''press'' (jobj [(''error'', jobj [(''code'', JInt 409), (''message'', JStr ''no''),
       (''data'', jobj [(''code'', JStr ''paused'')])])]) ''press_failed'' JNull = Inr (jobj [(''error'', e)]) \<and>
     jget e ''data'' = Some data \<and> jget data ''code'' = Some (JStr ''paused'')"
proof -
  let ?bridge = "jobj [(''error'', jobj [(''code'', JInt 409), (''message'', JStr ''no''), (''data'', jobj [(''code'', JStr ''paused'')])])]"
  have "jget ?bridge ''error'' = Some (JObj [(''code'', JInt 409), (''data'', JObj [(''code'', JStr ''paused'')]), (''message'', JStr ''no'')])"
    "jget (JObj [(''code'', JInt 409), (''data'', JObj [(''code'', JStr ''paused'')]), (''message'', JStr ''no'')]) ''message'' = Some (JStr ''no'')"
    "jget (JObj [(''code'', JInt 409), (''data'', JObj [(''code'', JStr ''paused'')]), (''message'', JStr ''no'')]) ''data'' =
       Some (JObj [(''code'', JStr ''paused'')])"
    "status_of (JObj [(''code'', JInt 409), (''data'', JObj [(''code'', JStr ''paused'')]), (''message'', JStr ''no'')]) = Inr 409"
    by code_simp+
  from relayed_refusal_keeps_what_was_published [OF this(1,4,2,3), of JNull "''press''" "''press_failed''"] show ?thesis
    by (fastforce simp: jget_def)
qed

end
