(* ===== verification/Segmentation.thy ===== *)
theory Segmentation
  imports Keyed_Store
begin

text \<open>
  Which node a pixel belongs to: \<open>src/runtime/segmentation.cpp\<close>, \<open>include/didi/runtime/segmentation.hpp\<close>.
  The nodes of a scene are drawn each in a colour of a fixed palette, and the picture is read back into one
  region per colour. A channel is a natural number below 256, the picture is the list of its bytes;
  counts of pixels are natural numbers.
\<close>

section \<open>The palette\<close>

record color =
  co_r :: nat
  co_g :: nat
  co_b :: nat

definition k_levels :: nat where "k_levels = 3"

definition k_match_radius :: int where "k_match_radius = 48"

definition level_value :: "nat \<Rightarrow> nat" where
  "level_value level = [0, 128, 255] ! level"

definition is_neutral :: "color \<Rightarrow> bool" where
  "is_neutral c = (co_r c = co_g c \<and> co_g c = co_b c)"

definition spread :: "color \<Rightarrow> nat" where
  "spread c = max (co_r c) (max (co_g c) (co_b c)) - min (co_r c) (min (co_g c) (co_b c))"

definition palette_before :: "color \<Rightarrow> color \<Rightarrow> bool" where
  "palette_before a b =
     (if spread a \<noteq> spread b then spread a > spread b
      else if co_r a \<noteq> co_r b then co_r a > co_r b
      else if co_g a \<noteq> co_g b then co_g a > co_g b
      else co_b a > co_b b)"

text \<open>\<open>std::sort\<close>; the order is total on colours, so every sorting gives this list.\<close>

fun insert_color :: "color \<Rightarrow> color list \<Rightarrow> color list" where
  "insert_color c [] = [c]"
| "insert_color c (d # ds) = (if palette_before c d then c # d # ds else d # insert_color c ds)"

definition all_colors :: "color list" where
  "all_colors =
     concat (map (\<lambda>r. concat (map (\<lambda>g. map (\<lambda>b.
       \<lparr>co_r = level_value r, co_g = level_value g, co_b = level_value b\<rparr>) [0..<k_levels]) [0..<k_levels])) [0..<k_levels])"

definition palette :: "color list" where
  "palette = foldr insert_color (filter (\<lambda>c. \<not> is_neutral c) all_colors) []"

definition squared_distance :: "color \<Rightarrow> color \<Rightarrow> int" where
  "squared_distance a b =
     (int (co_r a) - int (co_r b)) ^ 2 + (int (co_g a) - int (co_g b)) ^ 2 + (int (co_b a) - int (co_b b)) ^ 2"

section \<open>Reading a picture\<close>

record region =
  re_pixels :: nat
  re_min_x :: int
  re_min_y :: int
  re_max_x :: int
  re_max_y :: int
  re_observed :: color

record scan =
  sc_regions :: "region list"
  sc_unclaimed :: nat

text \<open>The scan while it is read, with the counts of the shades of every region.\<close>

record reading =
  rd_regions :: "region list"
  rd_shades :: "(nat \<times> nat) list list"
  rd_unclaimed :: nat

definition black :: color where
  "black = \<lparr>co_r = 0, co_g = 0, co_b = 0\<rparr>"

definition empty_region :: region where
  "empty_region = \<lparr>re_pixels = 0, re_min_x = 0, re_min_y = 0, re_max_x = 0, re_max_y = 0, re_observed = black\<rparr>"

definition k_max_shades :: nat where "k_max_shades = 256"

fun nearest_from :: "color \<Rightarrow> nat \<Rightarrow> color list \<Rightarrow> nat \<times> int \<Rightarrow> nat \<times> int" where
  "nearest_from pixel entry [] best = best"
| "nearest_from pixel entry (c # cs) (nearest, distance) =
     (if squared_distance pixel c < distance then nearest_from pixel (entry + 1) cs (entry, squared_distance pixel c)
      else nearest_from pixel (entry + 1) cs (nearest, distance))"

definition nearest_entry :: "nat \<Rightarrow> color \<Rightarrow> nat \<times> int" where
  "nearest_entry entries pixel = nearest_from pixel 0 (take entries palette) (0, 2 ^ 31 - 1)"

definition shade_key :: "color \<Rightarrow> nat" where
  "shade_key c = co_r c * 2 ^ 16 + co_g c * 2 ^ 8 + co_b c"

definition count_shade :: "nat \<Rightarrow> (nat \<times> nat) list \<Rightarrow> (nat \<times> nat) list" where
  "count_shade key counts =
     (case kv_get counts key of
        Some n \<Rightarrow> kv_put key (n + 1) counts
      | None \<Rightarrow> if length counts < k_max_shades then kv_put key 1 counts else counts)"

definition claim_pixel :: "int \<Rightarrow> int \<Rightarrow> region \<Rightarrow> region" where
  "claim_pixel x y region =
     region\<lparr>re_pixels := re_pixels region + 1, re_min_x := min (re_min_x region) x, re_min_y := min (re_min_y region) y,
       re_max_x := max (re_max_x region) x, re_max_y := max (re_max_y region) y\<rparr>"

fun read_pixel :: "nat \<Rightarrow> int \<times> int \<times> color \<Rightarrow> reading \<Rightarrow> reading" where
  "read_pixel entries (x, y, pixel) s =
     (let (nearest, distance) = nearest_entry entries pixel
      in if distance > k_match_radius * k_match_radius then s\<lparr>rd_unclaimed := rd_unclaimed s + 1\<rparr>
         else s\<lparr>rd_regions := (rd_regions s)[nearest := claim_pixel x y (rd_regions s ! nearest)],
                rd_shades := (rd_shades s)[nearest := count_shade (shade_key pixel) (rd_shades s ! nearest)]\<rparr>)"

definition pixel_at :: "nat list \<Rightarrow> nat \<Rightarrow> nat \<Rightarrow> nat \<Rightarrow> color" where
  "pixel_at rgba width x y =
     (let offset = (y * width + x) * 4 in \<lparr>co_r = rgba ! offset, co_g = rgba ! (offset + 1), co_b = rgba ! (offset + 2)\<rparr>)"

definition pixels_of :: "nat list \<Rightarrow> nat \<Rightarrow> nat \<Rightarrow> (int \<times> int \<times> color) list" where
  "pixels_of rgba width height =
     concat (map (\<lambda>y. map (\<lambda>x. (int x, int y, pixel_at rgba width x y)) [0..<width]) [0..<height])"

fun best_shade :: "(nat \<times> nat) list \<Rightarrow> nat \<times> nat \<Rightarrow> nat \<times> nat" where
  "best_shade [] best = best"
| "best_shade ((key, n) # counts) (best_key, best_count) =
     (if n > best_count then best_shade counts (key, n) else best_shade counts (best_key, best_count))"

definition shade_color :: "nat \<Rightarrow> color" where
  "shade_color key = \<lparr>co_r = key div 2 ^ 16 mod 2 ^ 8, co_g = key div 2 ^ 8 mod 2 ^ 8, co_b = key mod 2 ^ 8\<rparr>"

definition finish_region :: "region \<Rightarrow> (nat \<times> nat) list \<Rightarrow> region" where
  "finish_region region counts =
     (if re_pixels region = 0 then region\<lparr>re_min_x := 0, re_min_y := 0, re_max_x := 0, re_max_y := 0\<rparr>
      else region\<lparr>re_observed := shade_color (fst (best_shade counts (0, 0)))\<rparr>)"

definition start_region :: "int \<Rightarrow> int \<Rightarrow> region" where
  "start_region width height = empty_region\<lparr>re_min_x := width, re_min_y := height, re_max_x := - 1, re_max_y := - 1\<rparr>"

definition read_segmentation :: "nat list option \<Rightarrow> int \<Rightarrow> int \<Rightarrow> nat \<Rightarrow> scan" where
  "read_segmentation picture width height wanted =
     (let entries = min wanted (length palette)
      in case picture of
           None \<Rightarrow> \<lparr>sc_regions = replicate entries empty_region, sc_unclaimed = 0\<rparr>
         | Some rgba \<Rightarrow>
             if width \<le> 0 \<or> height \<le> 0 \<or> entries = 0 then \<lparr>sc_regions = replicate entries empty_region, sc_unclaimed = 0\<rparr>
             else
               let s = fold (read_pixel entries) (pixels_of rgba (nat width) (nat height))
                     \<lparr>rd_regions = replicate entries (start_region width height), rd_shades = replicate entries [], rd_unclaimed = 0\<rparr>
               in \<lparr>sc_regions = map2 finish_region (rd_regions s) (rd_shades s), sc_unclaimed = rd_unclaimed s\<rparr>)"

section \<open>The palette keeps its colours apart\<close>

definition far_apart :: "color list \<Rightarrow> bool" where
  "far_apart cs = list_all (\<lambda>i. list_all (\<lambda>j. i = j \<or> squared_distance (cs ! i) (cs ! j) \<ge> 127 ^ 2) [0..<length cs]) [0..<length cs]"

lemma palette_facts: "length palette = 24" "far_apart palette"
  by code_simp+

lemma far_apart_nth:
  assumes "i < length palette" "j < length palette" "i \<noteq> j"
  shows "squared_distance (palette ! i) (palette ! j) \<ge> 127 ^ 2"
  using palette_facts(2) assms unfolding far_apart_def list_all_iff by (metis atLeastLessThan_iff le0 set_upt)

text \<open>A pixel is close to an entry when it is within the radius of it; it is close to at most one.\<close>

definition close_to :: "color \<Rightarrow> nat \<Rightarrow> bool" where
  "close_to pixel e = (squared_distance pixel (palette ! e) \<le> k_match_radius * k_match_radius)"

lemma square_triangle: "(a - c :: int) ^ 2 \<le> 2 * (b - a) ^ 2 + 2 * (b - c) ^ 2"
proof -
  have "0 \<le> ((b - a) + (b - c)) ^ 2"
    by simp
  then show ?thesis
    by (simp add: power2_eq_square algebra_simps)
qed

lemma three_sums:
  "a \<le> 2 * x + 2 * u \<Longrightarrow> b \<le> 2 * y + 2 * v \<Longrightarrow> c \<le> 2 * z + 2 * w \<Longrightarrow>
     a + b + c \<le> 2 * (x + y + z) + 2 * (u + v + w)" for a :: int
  by (simp add: algebra_simps)

lemma distance_triangle: "squared_distance a c \<le> 2 * squared_distance b a + 2 * squared_distance b c"
  unfolding squared_distance_def by (rule three_sums) (rule square_triangle)+

lemma close_to_one:
  assumes "i < length palette" "j < length palette" "close_to pixel i" "close_to pixel j"
  shows "i = j"
proof (rule ccontr)
  assume "i \<noteq> j"
  then have "127 ^ 2 \<le> squared_distance (palette ! i) (palette ! j)"
    using far_apart_nth assms(1,2) by blast
  also have "\<dots> \<le> 2 * squared_distance pixel (palette ! i) + 2 * squared_distance pixel (palette ! j)"
    by (rule distance_triangle)
  finally show False
    using assms(3,4) by (simp add: close_to_def k_match_radius_def)
qed

lemma squared_distance_nonneg [simp]: "0 \<le> squared_distance a b"
  by (simp add: squared_distance_def)

lemma nearest_from_least:
  assumes "nearest_from pixel i cs (n, d) = (n', d')"
  shows "d' \<le> d \<and> (\<forall>j < length cs. d' \<le> squared_distance pixel (cs ! j)) \<and>
     ((n', d') = (n, d) \<or> (\<exists>j < length cs. n' = i + j \<and> d' = squared_distance pixel (cs ! j)))"
  using assms
proof (induction pixel i cs "(n, d)" arbitrary: n d rule: nearest_from.induct)
  case (2 pixel i c cs n d)
  let ?b = "if squared_distance pixel c < d then (i, squared_distance pixel c) else (n, d)"
  have step: "nearest_from pixel (i + 1) cs ?b = (n', d')"
    using 2(3) by (auto split: if_splits)
  have "d' \<le> snd ?b \<and> (\<forall>j < length cs. d' \<le> squared_distance pixel (cs ! j)) \<and>
     ((n', d') = ?b \<or> (\<exists>j < length cs. n' = i + 1 + j \<and> d' = squared_distance pixel (cs ! j)))"
    using 2(1,2) step by (cases "squared_distance pixel c < d") auto
  then show ?case
    by (auto simp: nth_Cons less_Suc_eq_0_disj split: if_splits nat.splits)
qed simp

lemma nearest_close:
  assumes "nearest_entry entries pixel = (n, d)" "entries \<le> length palette"
    and "squared_distance pixel (palette ! 0) < 2 ^ 31 - 1" "0 < entries"
  shows "d \<le> k_match_radius * k_match_radius \<longleftrightarrow> (\<exists>e < entries. close_to pixel e)"
    and "d \<le> k_match_radius * k_match_radius \<Longrightarrow> n < entries \<and> close_to pixel n"
proof -
  have near: "\<forall>j < entries. d \<le> squared_distance pixel (palette ! j)"
    "(n, d) = (0, 2 ^ 31 - 1) \<or> (\<exists>j < entries. n = j \<and> d = squared_distance pixel (palette ! j))"
    using nearest_from_least [of pixel 0 "take entries palette" 0 "2 ^ 31 - 1" n d] assms(1,2) by (auto simp: nearest_entry_def)
  have "d < 2 ^ 31 - 1"
    using near(1) assms(3,4) by force
  then have exact: "n < entries" "d = squared_distance pixel (palette ! n)"
    using near(2) by auto
  then show "d \<le> k_match_radius * k_match_radius \<longleftrightarrow> (\<exists>e < entries. close_to pixel e)"
    "d \<le> k_match_radius * k_match_radius \<Longrightarrow> n < entries \<and> close_to pixel n"
    using near(1) by (auto simp: close_to_def intro: order_trans)
qed

section \<open>The regions of a picture\<close>

definition is_color :: "color \<Rightarrow> bool" where
  "is_color c = (co_r c < 256 \<and> co_g c < 256 \<and> co_b c < 256)"

lemma palette_0: "palette ! 0 = \<lparr>co_r = 255, co_g = 255, co_b = 0\<rparr>"
  by code_simp

lemma square_below: "0 \<le> a \<Longrightarrow> a \<le> 255 \<Longrightarrow> (int n < 256 \<Longrightarrow> (int n - a) ^ 2 \<le> 255 ^ 2)"
proof -
  assume "0 \<le> a" "a \<le> 255" "int n < 256"
  then have "\<bar>int n - a\<bar> \<le> 255"
    by simp
  then show "(int n - a) ^ 2 \<le> 255 ^ 2"
    by (metis abs_ge_zero power2_abs power_mono)
qed

lemma near_enough: "is_color c \<Longrightarrow> squared_distance c (palette ! 0) < 2 ^ 31 - 1"
  using square_below [of 255 "co_r c"] square_below [of 255 "co_g c"] square_below [of 0 "co_b c"]
  by (simp add: is_color_def palette_0 squared_distance_def)

text \<open>The pixels of a picture that an entry claims.\<close>

type_synonym pixel = "int \<times> int \<times> color"

definition claimed_by :: "nat \<Rightarrow> pixel list \<Rightarrow> pixel list" where
  "claimed_by e ps = filter (\<lambda>p. close_to (snd (snd p)) e) ps"

definition unclaimed_by :: "nat \<Rightarrow> pixel list \<Rightarrow> pixel list" where
  "unclaimed_by entries ps = filter (\<lambda>p. \<forall>e < entries. \<not> close_to (snd (snd p)) e) ps"

definition claim_all :: "pixel list \<Rightarrow> region \<Rightarrow> region" where
  "claim_all ps region = fold (\<lambda>(x, y, c). claim_pixel x y) ps region"

definition shades_of :: "pixel list \<Rightarrow> (nat \<times> nat) list \<Rightarrow> (nat \<times> nat) list" where
  "shades_of ps counts = fold (\<lambda>(x, y, c). count_shade (shade_key c)) ps counts"

lemma read_pixel_step:
  assumes "is_color c" "0 < entries" "entries \<le> length palette" "length (rd_regions s) = entries" "length (rd_shades s) = entries"
  shows "length (rd_regions (read_pixel entries (x, y, c) s)) = entries"
    and "length (rd_shades (read_pixel entries (x, y, c) s)) = entries"
    and "e < entries \<Longrightarrow> rd_regions (read_pixel entries (x, y, c) s) ! e =
       (if close_to c e then claim_pixel x y (rd_regions s ! e) else rd_regions s ! e)"
    and "e < entries \<Longrightarrow> rd_shades (read_pixel entries (x, y, c) s) ! e =
       (if close_to c e then count_shade (shade_key c) (rd_shades s ! e) else rd_shades s ! e)"
    and "rd_unclaimed (read_pixel entries (x, y, c) s) =
       rd_unclaimed s + (if \<forall>e < entries. \<not> close_to c e then 1 else 0)"
proof -
  obtain n d where near: "nearest_entry entries c = (n, d)"
    by fastforce
  note close = nearest_close [OF near assms(3) near_enough [OF assms(1)] assms(2)]
  show "length (rd_regions (read_pixel entries (x, y, c) s)) = entries" "length (rd_shades (read_pixel entries (x, y, c) s)) = entries"
    using assms(4,5) by (simp_all add: near)
  show "rd_unclaimed (read_pixel entries (x, y, c) s) = rd_unclaimed s + (if \<forall>e < entries. \<not> close_to c e then 1 else 0)"
    using close(1) by (auto simp: near)
  have one: "close_to c e \<longleftrightarrow> d \<le> k_match_radius * k_match_radius \<and> e = n" if "e < entries" for e
  proof
    assume e: "close_to c e"
    then have d: "d \<le> k_match_radius * k_match_radius"
      using close(1) that by blast
    from close(2) [OF d] show "d \<le> k_match_radius * k_match_radius \<and> e = n"
      using d e that assms(3) close_to_one [of e n c] by auto
  qed (use close(2) in auto)
  show "rd_regions (read_pixel entries (x, y, c) s) ! e = (if close_to c e then claim_pixel x y (rd_regions s ! e) else rd_regions s ! e)"
    "rd_shades (read_pixel entries (x, y, c) s) ! e = (if close_to c e then count_shade (shade_key c) (rd_shades s ! e) else rd_shades s ! e)"
    if "e < entries"
    using one [OF that] close(2) assms(4,5) that by (auto simp: near)
qed

lemma read_pixels:
  assumes "\<forall>p \<in> set ps. is_color (snd (snd p))" "0 < entries" "entries \<le> length palette"
    and "length (rd_regions s) = entries" "length (rd_shades s) = entries"
  shows "length (rd_regions (fold (read_pixel entries) ps s)) = entries"
    and "length (rd_shades (fold (read_pixel entries) ps s)) = entries"
    and "e < entries \<Longrightarrow> rd_regions (fold (read_pixel entries) ps s) ! e = claim_all (claimed_by e ps) (rd_regions s ! e)"
    and "e < entries \<Longrightarrow> rd_shades (fold (read_pixel entries) ps s) ! e = shades_of (claimed_by e ps) (rd_shades s ! e)"
    and "rd_unclaimed (fold (read_pixel entries) ps s) = rd_unclaimed s + length (unclaimed_by entries ps)"
proof -
  have "length (rd_regions (fold (read_pixel entries) ps s)) = entries \<and> length (rd_shades (fold (read_pixel entries) ps s)) = entries \<and>
     (e < entries \<longrightarrow> rd_regions (fold (read_pixel entries) ps s) ! e = claim_all (claimed_by e ps) (rd_regions s ! e) \<and>
       rd_shades (fold (read_pixel entries) ps s) ! e = shades_of (claimed_by e ps) (rd_shades s ! e)) \<and>
     rd_unclaimed (fold (read_pixel entries) ps s) = rd_unclaimed s + length (unclaimed_by entries ps)" for e
    using assms
  proof (induction ps arbitrary: s)
    case (Cons p ps)
    obtain x y c where p: "p = (x, y, c)" by (cases p)
    have "is_color c"
      using Cons.prems(1) by (simp add: p)
    note step = read_pixel_step [OF this Cons.prems(2-5), where x = x and y = y]
    have "\<forall>p \<in> set ps. is_color (snd (snd p))"
      using Cons.prems(1) by simp
    from Cons.IH [OF this Cons.prems(2,3) step(1,2)] show ?case
      using step(3,4) [where e = e] step(5) by (auto simp: p claimed_by_def unclaimed_by_def claim_all_def shades_of_def simp del: read_pixel.simps)
  qed (simp add: claimed_by_def unclaimed_by_def claim_all_def shades_of_def)
  then show "length (rd_regions (fold (read_pixel entries) ps s)) = entries" "length (rd_shades (fold (read_pixel entries) ps s)) = entries"
    "e < entries \<Longrightarrow> rd_regions (fold (read_pixel entries) ps s) ! e = claim_all (claimed_by e ps) (rd_regions s ! e)"
    "e < entries \<Longrightarrow> rd_shades (fold (read_pixel entries) ps s) ! e = shades_of (claimed_by e ps) (rd_shades s ! e)"
    "rd_unclaimed (fold (read_pixel entries) ps s) = rd_unclaimed s + length (unclaimed_by entries ps)"
    by blast+
qed

lemma claim_all_fields:
  "re_pixels (claim_all ps r) = re_pixels r + length ps"
  "re_min_x (claim_all ps r) = fold min (map fst ps) (re_min_x r)"
  "re_max_x (claim_all ps r) = fold max (map fst ps) (re_max_x r)"
  "re_min_y (claim_all ps r) = fold min (map (fst \<circ> snd) ps) (re_min_y r)"
  "re_max_y (claim_all ps r) = fold max (map (fst \<circ> snd) ps) (re_max_y r)"
  by (induction ps arbitrary: r)
     (auto simp: claim_all_def claim_pixel_def min.commute max.commute)

lemma fold_min_start:
  assumes "xs \<noteq> []" "\<forall>x \<in> set xs. x < (a :: int)"
  shows "fold min xs a = Min (set xs)"
proof -
  have "fold min xs a = Min (insert a (set xs))"
    by (simp add: Min.set_eq_fold [symmetric])
  also have "\<dots> = min a (Min (set xs))"
    using assms(1) by simp
  also have "\<dots> = Min (set xs)"
    using assms by (metis Min_in List.finite_set min.absorb2 order_less_imp_le set_empty)
  finally show ?thesis .
qed

lemma fold_max_start:
  assumes "xs \<noteq> []" "\<forall>x \<in> set xs. (a :: int) < x"
  shows "fold max xs a = Max (set xs)"
proof -
  have "fold max xs a = Max (insert a (set xs))"
    by (simp add: Max.set_eq_fold [symmetric])
  also have "\<dots> = max a (Max (set xs))"
    using assms(1) by simp
  also have "\<dots> = Max (set xs)"
    using assms by (metis Max_in List.finite_set max.absorb2 order_less_imp_le set_empty)
  finally show ?thesis .
qed

section \<open>The shade of a region\<close>

lemma three_bytes_key:
  assumes "g < 256" "b < 256"
  shows "(r * 65536 + g * 256 + b) div 65536 = (r :: nat)" "(r * 65536 + g * 256 + b) div 256 mod 256 = g"
    "(r * 65536 + g * 256 + b) mod 256 = b"
proof -
  have e: "r * 65536 + g * 256 + b = 256 * (256 * r + g) + b"
    by simp
  have d: "(r * 65536 + g * 256 + b) div 256 = 256 * r + g"
    unfolding e using assms by simp
  have "(r * 65536 + g * 256 + b) div 65536 = (r * 65536 + g * 256 + b) div 256 div 256"
    by (simp add: div_mult2_eq [symmetric])
  then show "(r * 65536 + g * 256 + b) div 65536 = r"
    unfolding d using assms by simp
  show "(r * 65536 + g * 256 + b) div 256 mod 256 = g"
    unfolding d using assms by simp
  show "(r * 65536 + g * 256 + b) mod 256 = b"
    unfolding e using assms by (simp only: mod_mult_self4 mod_less)
qed

lemma shade_color_key: "is_color c \<Longrightarrow> shade_color (shade_key c) = c"
  using three_bytes_key [of "co_g c" "co_b c" "co_r c"] by (simp add: is_color_def shade_color_def shade_key_def)

lemma shade_key_inject: "is_color c \<Longrightarrow> is_color d \<Longrightarrow> shade_key c = shade_key d \<longleftrightarrow> c = d"
  by (metis shade_color_key)

lemma shades_of_keys: "shades_of ps counts = fold count_shade (map (\<lambda>p. shade_key (snd (snd p))) ps) counts"
  by (induction ps arbitrary: counts) (auto simp: shades_of_def)

lemma count_shade_ok:
  assumes "kv_ok counts"
  shows "kv_ok (count_shade k counts)"
    and "set (keys (count_shade k counts)) \<subseteq> insert k (set (keys counts))"
    and "set (keys counts) \<subseteq> set (keys (count_shade k counts))"
    and "\<forall>e \<in> set counts. 0 < snd e \<Longrightarrow> \<forall>e \<in> set (count_shade k counts). 0 < snd e"
    and "counts \<noteq> [] \<or> k \<in> set (keys (count_shade k counts))"
proof -
  show "kv_ok (count_shade k counts)"
    using assms by (auto simp: count_shade_def split: option.splits)
  show "set (keys (count_shade k counts)) \<subseteq> insert k (set (keys counts))" "set (keys counts) \<subseteq> set (keys (count_shade k counts))"
    unfolding count_shade_def by (auto split: option.splits simp: keys_kv_put simp del: set_map image_set)
  show "\<forall>e \<in> set (count_shade k counts). 0 < snd e" if "\<forall>e \<in> set counts. 0 < snd e"
    using that set_kv_put [of k _ counts] by (fastforce simp: count_shade_def split: option.splits if_splits)
  show "counts \<noteq> [] \<or> k \<in> set (keys (count_shade k counts))"
    by (auto simp: count_shade_def k_max_shades_def)
qed

lemma count_shades:
  assumes "card (set ks) \<le> k_max_shades"
  shows "kv_ok (fold count_shade ks []) \<and>
     (\<forall>k. kv_get (fold count_shade ks []) k = (if k \<in> set ks then Some (count_list ks k) else None))"
  using assms
proof (induction ks rule: rev_induct)
  case (snoc k ks)
  let ?m = "fold count_shade ks []"
  have "card (set ks) \<le> k_max_shades"
    using snoc.prems by (metis card_mono dual_order.trans finite_set set_append sup_ge1)
  then have m: "kv_ok ?m" "\<And>k. kv_get ?m k = (if k \<in> set ks then Some (count_list ks k) else None)"
    using snoc.IH by blast+
  have "set (keys ?m) = set ks"
    using m(2) kv_get_keys [of ?m] by (metis option.distinct(1) subsetI subset_antisym)
  then have size: "length ?m = card (set ks)"
    using kv_ok_distinct [OF m(1)] by (metis distinct_card length_map)
  have "count_shade k ?m = kv_put k (count_list ks k + 1) ?m"
  proof (cases "k \<in> set ks")
    case True
    then show ?thesis
      using m(2) [of k] by (simp add: count_shade_def [of k ?m])
  next
    case False
    then have "length ?m < k_max_shades"
      using snoc.prems size by simp
    then show ?thesis
      using m(2) [of k] False by (simp add: count_shade_def [of k ?m] count_notin)
  qed
  then have step: "fold count_shade (ks @ [k]) [] = kv_put k (count_list ks k + 1) ?m"
    by simp
  show ?case
    unfolding step using m by (auto simp: kv_get_put)
qed simp

lemma best_shade_greatest:
  assumes "best_shade counts (k, n) = (k', n')"
  shows "n \<le> n' \<and> (\<forall>e \<in> set counts. snd e \<le> n') \<and> ((k', n') = (k, n) \<or> (k', n') \<in> set counts)"
  using assms by (induction counts "(k, n)" arbitrary: k n rule: best_shade.induct) (force split: if_splits)+

lemma shades_run:
  "kv_ok (fold count_shade ks []) \<and> set (keys (fold count_shade ks [])) \<subseteq> set ks \<and>
   (\<forall>e \<in> set (fold count_shade ks []). 0 < snd e) \<and> (ks \<noteq> [] \<longrightarrow> fold count_shade ks [] \<noteq> [])"
proof (induction ks rule: rev_induct)
  case (snoc k ks)
  let ?m = "fold count_shade ks []"
  have ok: "kv_ok ?m" "set (keys ?m) \<subseteq> set ks" "\<forall>e \<in> set ?m. 0 < snd e"
    using snoc by blast+
  note step = count_shade_ok [OF ok(1), of k]
  have "count_shade k ?m \<noteq> []"
    using step(3,5) by (cases "?m = []") auto
  then show ?case
    using step(1,2) step(4) [OF ok(3)] ok(2) by (simp del: set_map image_set) blast
qed simp

lemma count_list_keys:
  "\<forall>d \<in> set cs. is_color d \<Longrightarrow> is_color c \<Longrightarrow> count_list (map shade_key cs) (shade_key c) = count_list cs c"
  by (induction cs) (auto simp: shade_key_inject)

definition observed_shade :: "pixel list \<Rightarrow> color" where
  "observed_shade ps = shade_color (fst (best_shade (shades_of ps []) (0, 0)))"

lemma observed_shade_claimed:
  assumes "ps \<noteq> []" "\<forall>p \<in> set ps. is_color (snd (snd p))"
  shows "observed_shade ps \<in> set (map (snd \<circ> snd) ps)"
    and "card (set (map (snd \<circ> snd) ps)) \<le> k_max_shades \<Longrightarrow>
       count_list (map (snd \<circ> snd) ps) c \<le> count_list (map (snd \<circ> snd) ps) (observed_shade ps)"
proof -
  let ?cs = "map (snd \<circ> snd) ps" and ?m = "shades_of ps []"
  have keys: "?m = fold count_shade (map shade_key ?cs) []"
    by (simp add: shades_of_keys comp_def)
  note run = shades_run [of "map shade_key ?cs", folded keys]
  obtain k n where best: "best_shade ?m (0, 0) = (k, n)"
    by fastforce
  note greatest = best_shade_greatest [OF best]
  obtain e where "e \<in> set ?m"
    using run assms(1) by (cases ?m) auto
  then have "0 < n"
    using greatest run by force
  then have kn: "(k, n) \<in> set ?m"
    using greatest by auto
  then have k: "k \<in> set (map shade_key ?cs)"
    using run by force
  obtain d where d: "d \<in> set ?cs" "k = shade_key d"
    using k by auto
  have colors: "\<forall>c \<in> set ?cs. is_color c"
    using assms(2) by auto
  then have "shade_color (shade_key d) = d"
    using d(1) shade_color_key by blast
  then have observed: "observed_shade ps = d"
    using d(2) by (simp add: observed_shade_def best)
  then show "observed_shade ps \<in> set ?cs"
    using d(1) by simp
  show "count_list ?cs c \<le> count_list ?cs (observed_shade ps)" if few: "card (set ?cs) \<le> k_max_shades"
  proof (cases "c \<in> set ?cs")
    case True
    have "card (set (map shade_key ?cs)) \<le> k_max_shades"
      using few card_image_le [of "set ?cs" shade_key] by (simp add: image_comp comp_def)
    from count_shades [OF this, folded keys]
    have counts: "kv_ok ?m" "\<And>k. kv_get ?m k = (if k \<in> set (map shade_key ?cs) then Some (count_list (map shade_key ?cs) k) else None)"
      by blast+
    have "(shade_key c, count_list ?cs c) \<in> set ?m"
      using counts(2) [of "shade_key c"] True colors count_list_keys [of ?cs c] by (intro kv_get_in) auto
    then have "count_list ?cs c \<le> n"
      using greatest by force
    moreover have "n = count_list ?cs d"
    proof -
      have "kv_get ?m k = Some n"
        using kv_get_iff [OF counts(1)] kn by blast
      then have "n = count_list (map shade_key ?cs) (shade_key d)"
        using counts(2) [of k] k d(2) by (simp only: if_True option.inject)
      also have "\<dots> = count_list ?cs d"
        using d(1) colors count_list_keys [OF colors] by blast
      finally show ?thesis .
    qed
    ultimately show ?thesis
      using observed by simp
  qed (simp add: count_notin)
qed

section \<open>Properties of the legend\<close>

text \<open>A picture is what the engine hands over: four bytes for every pixel.\<close>

definition picture_ok :: "nat list \<Rightarrow> nat \<Rightarrow> nat \<Rightarrow> bool" where
  "picture_ok rgba width height = (length rgba = width * height * 4 \<and> (\<forall>b \<in> set rgba. b < 256))"

lemma pixels_are_colors:
  assumes "picture_ok rgba width height" "p \<in> set (pixels_of rgba width height)"
  shows "is_color (snd (snd p)) \<and> 0 \<le> fst p \<and> fst p < int width \<and> 0 \<le> fst (snd p) \<and> fst (snd p) < int height"
proof -
  obtain x y where p: "p = (int x, int y, pixel_at rgba width x y)" "x < width" "y < height"
    using assms(2) by (auto simp: pixels_of_def)
  have "(y * width + x) * 4 + 3 < length rgba"
  proof -
    have "y * width + x < (y + 1) * width"
      using p(2) by simp
    also have "\<dots> \<le> height * width"
      using p(3) by (intro mult_le_mono1) simp
    finally show ?thesis
      using assms(1) by (simp add: picture_ok_def mult.commute)
  qed
  then show ?thesis
    using assms(1) p by (simp add: picture_ok_def is_color_def pixel_at_def Let_def)
qed

lemma length_pixels: "length (pixels_of rgba width height) = width * height"
  by (simp add: pixels_of_def length_concat comp_def sum_list_triv mult.commute)

lemma scan_regions:
  assumes "picture_ok rgba width height" "0 < width" "0 < height" "0 < wanted"
  shows "length (sc_regions (read_segmentation (Some rgba) (int width) (int height) wanted)) = min wanted (length palette)"
    and "e < min wanted (length palette) \<Longrightarrow>
       sc_regions (read_segmentation (Some rgba) (int width) (int height) wanted) ! e =
         finish_region (claim_all (claimed_by e (pixels_of rgba width height)) (start_region (int width) (int height)))
           (shades_of (claimed_by e (pixels_of rgba width height)) [])"
    and "sc_unclaimed (read_segmentation (Some rgba) (int width) (int height) wanted) =
       length (unclaimed_by (min wanted (length palette)) (pixels_of rgba width height))"
proof -
  let ?entries = "min wanted (length palette)"
  let ?s = "\<lparr>rd_regions = replicate ?entries (start_region (int width) (int height)), rd_shades = replicate ?entries [], rd_unclaimed = 0\<rparr>"
  have colors: "\<forall>p \<in> set (pixels_of rgba width height). is_color (snd (snd p))"
    using pixels_are_colors [OF assms(1)] by blast
  have some: "0 < ?entries"
    using assms(4) palette_facts(1) by simp
  have lens: "length (rd_regions ?s) = ?entries" "length (rd_shades ?s) = ?entries"
    by simp_all
  note read = read_pixels [OF colors some min.cobounded2 lens]
  have scan: "read_segmentation (Some rgba) (int width) (int height) wanted =
     (let s = fold (read_pixel ?entries) (pixels_of rgba width height) ?s
      in \<lparr>sc_regions = map2 finish_region (rd_regions s) (rd_shades s), sc_unclaimed = rd_unclaimed s\<rparr>)"
  proof -
    have "\<not> (int width \<le> 0 \<or> int height \<le> 0 \<or> ?entries = 0)"
      using assms(2,3) some by linarith
    then show ?thesis
      unfolding read_segmentation_def Let_def option.case nat_int by (simp only: if_False)
  qed
  show "length (sc_regions (read_segmentation (Some rgba) (int width) (int height) wanted)) = ?entries"
    "sc_unclaimed (read_segmentation (Some rgba) (int width) (int height) wanted) = length (unclaimed_by ?entries (pixels_of rgba width height))"
    unfolding scan Let_def scan.simps length_map length_zip read(1,2,5) reading.simps by simp_all
  show "sc_regions (read_segmentation (Some rgba) (int width) (int height) wanted) ! e =
      finish_region (claim_all (claimed_by e (pixels_of rgba width height)) (start_region (int width) (int height)))
        (shades_of (claimed_by e (pixels_of rgba width height)) [])" if "e < ?entries"
    using read(1-4) that unfolding scan Let_def scan.simps by (simp del: min_less_iff_conj read_pixel.simps)
qed

lemma claimed_subset: "p \<in> set (claimed_by e ps) \<Longrightarrow> p \<in> set ps"
  by (simp add: claimed_by_def)

text \<open>
  (C22) The legend is true of the picture. A region counts exactly the pixels within the radius of its colour, its
  box is the smallest that holds them, and the colour it names is the colour of one of them, the
  commonest one as long as they have at most 256 shades.
\<close>

theorem legend_is_true:
  assumes "picture_ok rgba width height" "0 < width" "0 < height" "e < min wanted (length palette)"
  shows "let region = sc_regions (read_segmentation (Some rgba) (int width) (int height) wanted) ! e;
             claimed = claimed_by e (pixels_of rgba width height)
     in re_pixels region = length claimed \<and>
        (claimed = [] \<or>
          re_min_x region = Min (fst ` set claimed) \<and> re_max_x region = Max (fst ` set claimed) \<and>
          re_min_y region = Min ((fst \<circ> snd) ` set claimed) \<and> re_max_y region = Max ((fst \<circ> snd) ` set claimed) \<and>
          re_observed region \<in> (snd \<circ> snd) ` set claimed \<and>
          (k_max_shades < card ((snd \<circ> snd) ` set claimed) \<or>
            (\<forall>c. count_list (map (snd \<circ> snd) claimed) c \<le> count_list (map (snd \<circ> snd) claimed) (re_observed region))))"
proof -
  let ?claimed = "claimed_by e (pixels_of rgba width height)"
  let ?claim = "claim_all ?claimed (start_region (int width) (int height))"
  have wanted: "0 < wanted"
    using assms(4) by simp
  note region = scan_regions(2) [OF assms(1-3) wanted assms(4)]
  have inside: "\<forall>p \<in> set ?claimed. is_color (snd (snd p)) \<and> 0 \<le> fst p \<and> fst p < int width \<and> 0 \<le> fst (snd p) \<and> fst (snd p) < int height"
    using claimed_subset pixels_are_colors [OF assms(1)] by blast
  have start: "re_pixels (start_region (int width) (int height)) = 0" "re_min_x (start_region (int width) (int height)) = int width"
    "re_min_y (start_region (int width) (int height)) = int height" "re_max_x (start_region (int width) (int height)) = - 1"
    "re_max_y (start_region (int width) (int height)) = - 1"
    by (simp_all add: start_region_def empty_region_def)
  show ?thesis
  proof (cases "?claimed = []")
    case True
    then show ?thesis
      unfolding region Let_def by (simp add: finish_region_def claim_all_fields start)
  next
    case False
    have "re_min_x ?claim = Min (set (map fst ?claimed))" "re_max_x ?claim = Max (set (map fst ?claimed))"
      "re_min_y ?claim = Min (set (map (fst \<circ> snd) ?claimed))" "re_max_y ?claim = Max (set (map (fst \<circ> snd) ?claimed))"
      unfolding claim_all_fields start by (rule fold_min_start fold_max_start; use False inside in force)+
    moreover have "\<forall>p \<in> set ?claimed. is_color (snd (snd p))"
      using inside by blast
    note observed_shade_claimed [OF False this]
    moreover have "re_pixels ?claim \<noteq> 0"
      using False by (simp add: claim_all_fields)
    ultimately show ?thesis
      unfolding region Let_def finish_region_def observed_shade_def [symmetric]
      by (auto simp: claim_all_fields start not_less)
  qed
qed

definition two_pixels :: "nat list" where
  "two_pixels = [255, 254, 1, 255, 10, 10, 10, 255]"

theorem legend_is_true_witness:
  "re_pixels (sc_regions (read_segmentation (Some two_pixels) 2 1 3) ! 0) = 1 \<and>
   re_observed (sc_regions (read_segmentation (Some two_pixels) 2 1 3) ! 0) = \<lparr>co_r = 255, co_g = 254, co_b = 1\<rparr>"
proof -
  have "picture_ok two_pixels 2 1" "0 < min 3 (length palette)"
    "claimed_by 0 (pixels_of two_pixels 2 1) = [(0, 0, \<lparr>co_r = 255, co_g = 254, co_b = 1\<rparr>)]"
    by code_simp+
  then show ?thesis
    using legend_is_true [of two_pixels 2 1 0 3] by (simp add: Let_def)
qed

lemma claims_add_up:
  assumes "entries \<le> length palette"
  shows "(\<Sum>e < entries. length (claimed_by e ps)) + length (unclaimed_by entries ps) = length ps"
proof (induction ps)
  case (Cons p ps)
  let ?close = "\<lambda>e. close_to (snd (snd p)) e"
  have "(\<Sum>e < entries. if ?close e then 1 else 0) + (if \<forall>e < entries. \<not> ?close e then 1 else 0) = (1 :: nat)"
  proof (cases "\<exists>e < entries. ?close e")
    case True
    then obtain e where e: "e < entries" "?close e"
      by blast
    have "?close i \<longleftrightarrow> i = e" if "i < entries" for i
      using close_to_one [of i e "snd (snd p)"] e that assms by auto
    then have "(\<Sum>i < entries. if ?close i then 1 else 0) = (\<Sum>i < entries. if i = e then 1 else (0 :: nat))"
      by (intro sum.cong) auto
    then show ?thesis
      using e by auto
  qed (auto intro: sum.neutral)
  moreover have "length (claimed_by e (p # ps)) = (if ?close e then 1 else 0) + length (claimed_by e ps)" for e
    by (simp add: claimed_by_def)
  moreover have "length (unclaimed_by entries (p # ps)) = (if \<forall>e < entries. \<not> ?close e then 1 else 0) + length (unclaimed_by entries ps)"
    by (simp add: unclaimed_by_def)
  ultimately show ?case
    using Cons by (simp add: sum.distrib)
qed (simp add: claimed_by_def unclaimed_by_def)

lemma finish_region_pixels: "re_pixels (finish_region region counts) = re_pixels region"
  by (simp add: finish_region_def)

text \<open>
  Every pixel is accounted for once: the pixels of the regions and the ones nobody claims add up to the
  picture, since no two colours of the palette are close enough to claim one pixel.
\<close>

theorem pixels_are_partitioned:
  assumes "picture_ok rgba width height" "0 < width" "0 < height" "0 < wanted"
  shows "sum_list (map re_pixels (sc_regions (read_segmentation (Some rgba) (int width) (int height) wanted))) +
     sc_unclaimed (read_segmentation (Some rgba) (int width) (int height) wanted) = width * height"
proof -
  let ?entries = "min wanted (length palette)" and ?scan = "read_segmentation (Some rgba) (int width) (int height) wanted"
  note regions = scan_regions [OF assms]
  have "sum_list (map re_pixels (sc_regions ?scan)) = (\<Sum>e < ?entries. re_pixels (sc_regions ?scan ! e))"
    unfolding sum_list_sum_nth length_map regions(1) by (auto simp: regions(1) lessThan_atLeast0 intro!: sum.cong)
  also have "\<dots> = (\<Sum>e < ?entries. length (claimed_by e (pixels_of rgba width height)))"
    by (intro sum.cong) (simp_all add: regions(2) finish_region_pixels claim_all_fields start_region_def empty_region_def del: min_less_iff_conj)
  finally show ?thesis
    using claims_add_up [of ?entries "pixels_of rgba width height"] regions(3) by (simp add: length_pixels)
qed

theorem pixels_are_partitioned_witness:
  "sum_list (map re_pixels (sc_regions (read_segmentation (Some two_pixels) 2 1 3))) +
     sc_unclaimed (read_segmentation (Some two_pixels) 2 1 3) = 2"
proof -
  have "picture_ok two_pixels 2 1"
    by code_simp
  then show ?thesis
    using pixels_are_partitioned [of two_pixels 2 1 3] by simp
qed

end
