(* ===== verification/Argument_Normalization.thy ===== *)
theory Argument_Normalization
  imports Schema_Validation
begin

text \<open>
  The arguments of three read-only tools, put right before they are checked:
  \<open>src/mcp/argument_normalization.cpp\<close>. The library's reading of a whole text as a double is
  the argument \<open>double_text\<close> (\<open>None\<close> when the text is not one or is out of range); the check
  that follows is that of \<open>Schema_Validation\<close>.
\<close>

section \<open>The budget\<close>

definition k_max_nodes :: nat where "k_max_nodes = 4096"
definition k_max_bytes :: nat where "k_max_bytes = 65536"
definition k_max_visit_depth :: nat where "k_max_visit_depth = 8"
definition k_exact_double_integer :: nat where "k_exact_double_integer = 2 ^ 53"

record budget =
  bg_nodes :: nat
  bg_bytes :: nat

definition whole_budget :: budget where
  "whole_budget = \<lparr>bg_nodes = k_max_nodes, bg_bytes = k_max_bytes\<rparr>"

definition charge :: "nat \<Rightarrow> budget \<Rightarrow> budget option" where
  "charge count b = (if count > bg_bytes b then None else Some (b\<lparr>bg_bytes := bg_bytes b - count\<rparr>))"

definition charge_text :: "nat \<Rightarrow> budget \<Rightarrow> budget option" where
  "charge_text count b =
     (case charge 2 b of
        None \<Rightarrow> None
      | Some b' \<Rightarrow> if count > bg_bytes b' div 6 then None else charge (count * 6) b')"

definition spend_node :: "nat \<Rightarrow> budget \<Rightarrow> budget option" where
  "spend_node depth b =
     (if depth > k_max_visit_depth \<or> bg_nodes b = 0 then None else charge 2 (b\<lparr>bg_nodes := bg_nodes b - 1\<rparr>))"

fun visit :: "json \<Rightarrow> nat \<Rightarrow> budget \<Rightarrow> budget option"
  and visit_all :: "json list \<Rightarrow> nat \<Rightarrow> budget \<Rightarrow> budget option"
  and visit_members :: "(string \<times> json) list \<Rightarrow> nat \<Rightarrow> budget \<Rightarrow> budget option" where
  "visit (JStr s) depth b = (case spend_node depth b of None \<Rightarrow> None | Some b' \<Rightarrow> charge_text (length s) b')"
| "visit (JFloat d) depth b =
     (case spend_node depth b of None \<Rightarrow> None | Some b' \<Rightarrow> if \<not> is_finite d then None else charge 32 b')"
| "visit (JArr xs) depth b = (case spend_node depth b of None \<Rightarrow> None | Some b' \<Rightarrow> visit_all xs depth b')"
| "visit (JObj m) depth b = (case spend_node depth b of None \<Rightarrow> None | Some b' \<Rightarrow> visit_members m depth b')"
| "visit v depth b = (case spend_node depth b of None \<Rightarrow> None | Some b' \<Rightarrow> charge 32 b')"
| "visit_all [] depth b = Some b"
| "visit_all (x # xs) depth b = (case visit x (depth + 1) b of None \<Rightarrow> None | Some b' \<Rightarrow> visit_all xs depth b')"
| "visit_members [] depth b = Some b"
| "visit_members ((k, x) # m) depth b =
     (case charge_text (length k) b of
        None \<Rightarrow> None
      | Some b' \<Rightarrow> (case visit x (depth + 1) b' of None \<Rightarrow> None | Some b'' \<Rightarrow> visit_members m depth b''))"

section \<open>Refusals\<close>

definition normalization_refusal :: "string \<Rightarrow> string \<Rightarrow> string \<Rightarrow> refusal" where
  "normalization_refusal field reason expected =
     \<lparr>err_code = 400, err_message = ''Arguments could not be normalized using safe-v1.'',
      err_data = jobj [(''code'', JStr ''invalid_arguments''), (''retryable'', JBool False), (''field'', JStr field),
        (''reason'', JStr reason), (''expected'', JStr expected)]\<rparr>"

definition published_schema :: string where
  "published_schema = ''the tool'' @ [CHR 0x27] @ ''s published inputSchema''"

section \<open>One value\<close>

text \<open>\<open>std::from_chars\<close> of the whole text as a signed 64-bit integer.\<close>

definition digits_int :: "string \<Rightarrow> int option" where
  "digits_int s = (if s = [] \<or> \<not> list_all is_digit s then None else Some (int (digits_value s)))"

definition integer_text :: "string \<Rightarrow> int option" where
  "integer_text s =
     (case (if s \<noteq> [] \<and> hd s = CHR ''-'' then map_option uminus (digits_int (tl s)) else digits_int s) of
        None \<Rightarrow> None
      | Some i \<Rightarrow> if - (2 ^ 63) \<le> i \<and> i < 2 ^ 63 then Some i else None)"

definition normal_integer :: "json \<Rightarrow> string \<Rightarrow> (refusal, json) result" where
  "normal_integer v path =
     rbind (case v of
              JStr s \<Rightarrow>
                (case integer_text s of
                   None \<Rightarrow> Inl (normalization_refusal path ''expected_integer'' ''complete signed 64-bit decimal integer'')
                 | Some i \<Rightarrow> Inr (JInt i))
            | _ \<Rightarrow> Inr v)
       (\<lambda>x. case x of
              JInt i \<Rightarrow> Inr x
            | JUInt n \<Rightarrow>
                if n > 2 ^ 63 - 1 then Inl (normalization_refusal path ''expected_integer'' ''signed 64-bit integer'') else Inr x
            | _ \<Rightarrow> Inl (normalization_refusal path ''expected_integer'' ''signed 64-bit integer''))"

fun dbl_magnitude_below :: "dbl \<Rightarrow> nat \<Rightarrow> bool" where
  "dbl_magnitude_below (Fin r) n = (\<bar>r\<bar> < of_nat n)"
| "dbl_magnitude_below d n = False"

definition normal_component :: "(string \<Rightarrow> dbl option) \<Rightarrow> json \<Rightarrow> string \<Rightarrow> (refusal, json) result" where
  "normal_component double_text v path =
     rbind (case v of
              JStr s \<Rightarrow>
                (case (if s = [] then None else double_text s) of
                   None \<Rightarrow> Inl (normalization_refusal path ''expected_finite_number'' ''complete finite decimal number'')
                 | Some d \<Rightarrow>
                     if is_finite d \<and> \<not> dbl_magnitude_below d k_exact_double_integer
                     then Inl (normalization_refusal path ''inexact_integer'' ''numeric string with magnitude below 2^53'')
                     else Inr d)
            | JUInt n \<Rightarrow>
                if n > k_exact_double_integer then Inl (normalization_refusal path ''inexact_integer'' ''integer within [-2^53, 2^53]'')
                else Inr (double_of v)
            | JInt i \<Rightarrow>
                if i < - int k_exact_double_integer \<or> i > int k_exact_double_integer
                then Inl (normalization_refusal path ''inexact_integer'' ''integer within [-2^53, 2^53]'')
                else Inr (double_of v)
            | JFloat d \<Rightarrow> Inr d
            | _ \<Rightarrow> Inl (normalization_refusal path ''expected_finite_number'' ''finite number''))
       (\<lambda>d. if \<not> is_finite d then Inl (normalization_refusal path ''expected_finite_number'' ''finite number'')
             else Inr (JFloat d))"

section \<open>A call\<close>

definition supports_argument_normalization :: "string \<Rightarrow> bool" where
  "supports_argument_normalization tool = (tool \<in> {''scene_get_hierarchy'', ''ui_list_controls'', ''ui_hit_test''})"

definition normalize_member :: "string \<Rightarrow> json \<Rightarrow> (refusal, json) result" where
  "normalize_member name arguments =
     (case jget arguments name of
        None \<Rightarrow> Inr arguments
      | Some v \<Rightarrow> rbind (normal_integer v (''/arguments/'' @ name)) (\<lambda>x. Inr (jput name x arguments)))"

definition normalize_point :: "(string \<Rightarrow> dbl option) \<Rightarrow> json \<Rightarrow> (refusal, json) result" where
  "normalize_point double_text point =
     (case point of
        JArr xs \<Rightarrow>
          if length xs \<noteq> 2 then Inl (normalization_refusal ''/arguments/point'' ''invalid_vector_shape'' ''exactly two components'')
          else
            rbind (normal_component double_text (xs ! 0) ''/arguments/point/0'') (\<lambda>x.
            rbind (normal_component double_text (xs ! 1) ''/arguments/point/1'') (\<lambda>y.
              Inr (jobj [(''x'', x), (''y'', y)])))
      | JObj m \<Rightarrow>
          (case (if length m = 2 then kv_get m ''x'' else None, kv_get m ''y'') of
             (Some px, Some py) \<Rightarrow>
               rbind (normal_component double_text px ''/arguments/point/x'') (\<lambda>x.
               rbind (normal_component double_text py ''/arguments/point/y'') (\<lambda>y.
                 Inr (jput ''y'' y (jput ''x'' x (JObj m)))))
           | _ \<Rightarrow> Inl (normalization_refusal ''/arguments/point'' ''invalid_vector_shape''
               ''[x,y] or an object containing only x and y''))
      | _ \<Rightarrow> Inl (normalization_refusal ''/arguments/point'' ''invalid_vector_shape'' ''[x,y] or an object containing only x and y''))"

definition normalize_integers :: "string \<Rightarrow> json \<Rightarrow> (refusal, json) result" where
  "normalize_integers tool arguments =
     (if tool = ''scene_get_hierarchy''
      then rbind (normalize_member ''max_depth'' arguments) (normalize_member ''max_nodes'')
      else normalize_member ''max_results'' arguments)"

definition normalize_hit_point :: "(string \<Rightarrow> dbl option) \<Rightarrow> string \<Rightarrow> json \<Rightarrow> (refusal, json) result" where
  "normalize_hit_point double_text tool arguments =
     (case jget arguments ''point'' of
        Some point \<Rightarrow>
          if tool = ''ui_hit_test'' then rbind (normalize_point double_text point) (\<lambda>p. Inr (jput ''point'' p arguments))
          else Inr arguments
      | None \<Rightarrow> Inr arguments)"

definition normalize_tool_arguments ::
  "(json \<Rightarrow> string) \<Rightarrow> (string \<Rightarrow> string \<Rightarrow> bool option) \<Rightarrow> (string \<Rightarrow> dbl option) \<Rightarrow> string \<Rightarrow> json \<Rightarrow> json
     \<Rightarrow> (refusal, json) result" where
  "normalize_tool_arguments dump search double_text tool schema arguments =
     (if \<not> supports_argument_normalization tool
      then Inl (normalization_refusal ''/name'' ''unsupported_tool'' ''an advertised read-only normalization tool'')
      else if visit arguments 0 whole_budget = None
      then Inl (normalization_refusal ''/arguments'' ''input_budget_exceeded''
        ''depth <= 8, nodes <= 4096, conservative JSON bytes <= 65536'')
      else if \<not> is_object arguments then Inl (normalization_refusal ''/arguments'' ''expected_object'' ''object'')
      else
        rbind (normalize_integers tool arguments) (\<lambda>counted.
        rbind (normalize_hit_point double_text tool counted) (\<lambda>normalized.
          if validate_against_schema dump search schema normalized \<noteq> None
          then Inl (normalization_refusal ''/arguments'' ''schema_validation_failed'' published_schema)
          else Inr normalized)))"

section \<open>What normalizing leaves alone\<close>

definition touched_names :: "string set" where
  "touched_names = {''max_depth'', ''max_nodes'', ''max_results'', ''point''}"

definition keeps_the_rest :: "json \<Rightarrow> json \<Rightarrow> bool" where
  "keeps_the_rest before after =
     (is_object after = is_object before \<and> (\<forall>k. k \<notin> touched_names \<longrightarrow> jget after k = jget before k) \<and>
      (\<forall>k. contains after k = contains before k))"

lemma keeps_trans: "keeps_the_rest a b \<Longrightarrow> keeps_the_rest b c \<Longrightarrow> keeps_the_rest a c"
  by (simp add: keeps_the_rest_def)

lemma keeps_put:
  "is_object v \<Longrightarrow> k \<in> touched_names \<Longrightarrow> jget v k = Some y \<Longrightarrow> keeps_the_rest v (jput k x v)"
  by (auto simp: keeps_the_rest_def jget_jput_any contains_def)

lemma normalize_member_keeps:
  assumes "normalize_member name v = Inr w" "is_object v" "name \<in> touched_names"
  shows "keeps_the_rest v w"
  using assms keeps_put by (auto simp: normalize_member_def result_simps keeps_the_rest_def split: option.splits)

lemma normalize_integers_keeps:
  assumes "normalize_integers tool v = Inr w" "is_object v"
  shows "keeps_the_rest v w"
proof (cases "tool = ''scene_get_hierarchy''")
  case True
  then obtain u where u: "normalize_member ''max_depth'' v = Inr u" "normalize_member ''max_nodes'' u = Inr w"
    using assms(1) by (auto simp: normalize_integers_def result_simps)
  have "keeps_the_rest v u"
    by (rule normalize_member_keeps [OF u(1) assms(2)]) (simp add: touched_names_def)
  moreover from this have "is_object u"
    using assms(2) by (simp add: keeps_the_rest_def)
  then have "keeps_the_rest u w"
    by (rule normalize_member_keeps [OF u(2)]) (simp add: touched_names_def)
  ultimately show ?thesis
    by (rule keeps_trans)
next
  case False
  then show ?thesis
    using assms normalize_member_keeps [of "''max_results''" v w] by (simp add: normalize_integers_def touched_names_def)
qed

lemma normalize_hit_point_keeps:
  assumes "normalize_hit_point double_text tool v = Inr w" "is_object v"
  shows "keeps_the_rest v w"
proof (cases "jget v ''point''")
  case (Some point)
  show ?thesis
  proof (cases "tool = ''ui_hit_test''")
    case True
    then obtain p where "w = jput ''point'' p v"
      using assms(1) Some by (auto simp: normalize_hit_point_def result_simps)
    then show ?thesis
      using keeps_put [OF assms(2) _ Some] by (simp add: touched_names_def)
  qed (use assms Some in \<open>simp add: normalize_hit_point_def keeps_the_rest_def\<close>)
qed (use assms in \<open>auto simp: normalize_hit_point_def keeps_the_rest_def\<close>)

section \<open>Refusals say nothing of the caller\<close>

definition policy_fields :: "string list" where
  "policy_fields =
     [''/name'', ''/arguments'', ''/arguments/max_depth'', ''/arguments/max_nodes'', ''/arguments/max_results'', ''/arguments/point'',
      ''/arguments/point/0'', ''/arguments/point/1'', ''/arguments/point/x'', ''/arguments/point/y'']"

definition policy_reasons :: "string list" where
  "policy_reasons =
     [''unsupported_tool'', ''input_budget_exceeded'', ''expected_object'', ''expected_integer'', ''expected_finite_number'',
      ''inexact_integer'', ''invalid_vector_shape'', ''schema_validation_failed'']"

definition policy_expectations :: "string list" where
  "policy_expectations =
     [''an advertised read-only normalization tool'', ''depth <= 8, nodes <= 4096, conservative JSON bytes <= 65536'', ''object'',
      ''complete signed 64-bit decimal integer'', ''signed 64-bit integer'', ''complete finite decimal number'',
      ''numeric string with magnitude below 2^53'', ''integer within [-2^53, 2^53]'', ''finite number'', ''exactly two components'',
      ''[x,y] or an object containing only x and y'', published_schema]"

definition policy_refusal :: "refusal \<Rightarrow> bool" where
  "policy_refusal r =
     (\<exists>field \<in> set policy_fields. \<exists>reason \<in> set policy_reasons. \<exists>expected \<in> set policy_expectations.
        r = normalization_refusal field reason expected)"

lemma policy_refusalI:
  "field \<in> set policy_fields \<Longrightarrow> reason \<in> set policy_reasons \<Longrightarrow> expected \<in> set policy_expectations \<Longrightarrow>
     policy_refusal (normalization_refusal field reason expected)"
  by (auto simp: policy_refusal_def)

lemma in_policy [simp]:
  "''/name'' \<in> set policy_fields" "''/arguments'' \<in> set policy_fields" "''/arguments/max_depth'' \<in> set policy_fields"
  "''/arguments/max_nodes'' \<in> set policy_fields" "''/arguments/max_results'' \<in> set policy_fields"
  "''/arguments/point'' \<in> set policy_fields" "''/arguments/point/0'' \<in> set policy_fields" "''/arguments/point/1'' \<in> set policy_fields"
  "''/arguments/point/x'' \<in> set policy_fields" "''/arguments/point/y'' \<in> set policy_fields"
  "''unsupported_tool'' \<in> set policy_reasons" "''input_budget_exceeded'' \<in> set policy_reasons" "''expected_object'' \<in> set policy_reasons"
  "''expected_integer'' \<in> set policy_reasons" "''expected_finite_number'' \<in> set policy_reasons" "''inexact_integer'' \<in> set policy_reasons"
  "''invalid_vector_shape'' \<in> set policy_reasons" "''schema_validation_failed'' \<in> set policy_reasons"
  "''an advertised read-only normalization tool'' \<in> set policy_expectations"
  "''depth <= 8, nodes <= 4096, conservative JSON bytes <= 65536'' \<in> set policy_expectations" "''object'' \<in> set policy_expectations"
  "''complete signed 64-bit decimal integer'' \<in> set policy_expectations" "''signed 64-bit integer'' \<in> set policy_expectations"
  "''complete finite decimal number'' \<in> set policy_expectations" "''numeric string with magnitude below 2^53'' \<in> set policy_expectations"
  "''integer within [-2^53, 2^53]'' \<in> set policy_expectations" "''finite number'' \<in> set policy_expectations"
  "''exactly two components'' \<in> set policy_expectations" "''[x,y] or an object containing only x and y'' \<in> set policy_expectations"
  "published_schema \<in> set policy_expectations"
  by (simp_all add: policy_fields_def policy_reasons_def policy_expectations_def)

lemma normal_integer_refusal:
  assumes "normal_integer v path = Inl r" "path \<in> set policy_fields"
  shows "policy_refusal r"
  using assms by (cases v) (auto simp: normal_integer_def result_simps split: option.splits json.splits if_splits intro!: policy_refusalI)

lemma normal_component_refusal:
  assumes "normal_component double_text v path = Inl r" "path \<in> set policy_fields"
  shows "policy_refusal r"
  using assms by (cases v) (auto simp: normal_component_def result_simps split: option.splits if_splits intro!: policy_refusalI)

lemma normalize_member_refusal:
  assumes "normalize_member name v = Inl r" "''/arguments/'' @ name \<in> set policy_fields"
  shows "policy_refusal r"
  using assms normal_integer_refusal by (auto simp: normalize_member_def result_simps split: option.splits)

lemma normalize_integers_refusal:
  assumes "normalize_integers tool v = Inl r"
  shows "policy_refusal r"
  using assms normalize_member_refusal [of "''max_depth''"] normalize_member_refusal [of "''max_nodes''"]
    normalize_member_refusal [of "''max_results''"]
  by (auto simp: normalize_integers_def result_simps split: if_splits)

lemma normalize_point_refusal:
  assumes "normalize_point double_text point = Inl r"
  shows "policy_refusal r"
  using assms normal_component_refusal
  by (cases point) (auto simp: normalize_point_def result_simps split: option.splits if_splits intro!: policy_refusalI)

lemma normalize_hit_point_refusal:
  assumes "normalize_hit_point double_text tool v = Inl r"
  shows "policy_refusal r"
  using assms normalize_point_refusal by (auto simp: normalize_hit_point_def result_simps split: option.splits if_splits)

section \<open>Properties of normalizing\<close>

lemma dec_not_Nil: "dec n \<noteq> []"
  by (subst dec.simps) simp

lemma digits_int_dec: "digits_int (dec n) = Some (int n)"
  using dec_digits by (auto simp: digits_int_def dec_not_Nil list_all_iff)

lemma integer_text_dec:
  assumes "- (2 ^ 63) \<le> i" "i < 2 ^ 63"
  shows "integer_text (dec_int i) = Some i"
proof (cases "i < 0")
  case True
  then show ?thesis
    using assms by (simp add: integer_text_def dec_int_def digits_int_dec)
next
  case False
  obtain c cs where dec: "dec (nat i) = c # cs"
    using dec_not_Nil by (cases "dec (nat i)") auto
  have "is_digit c"
    using dec_digits [of c "nat i"] by (simp add: dec)
  then have "c \<noteq> CHR ''-''"
    by (auto simp: is_digit_def)
  then have "(if dec (nat i) \<noteq> [] \<and> hd (dec (nat i)) = CHR ''-'' then map_option uminus (digits_int (tl (dec (nat i))))
      else digits_int (dec (nat i))) = Some i"
    using digits_int_dec [of "nat i"] False by (simp add: dec)
  then show ?thesis
    using assms False by (simp add: integer_text_def dec_int_def)
qed

lemma normal_component_finite: "normal_component double_text v path = Inr x \<Longrightarrow> \<exists>r. x = JFloat (Fin r)"
  by (auto simp: normal_component_def result_simps split: if_splits) (metis is_finite.elims(2))

lemma normalize_point_vector:
  assumes "normalize_point double_text point = Inr p"
  shows "\<exists>x y. jget p ''x'' = Some (JFloat (Fin x)) \<and> jget p ''y'' = Some (JFloat (Fin y))"
proof (cases point)
  case (JArr xs)
  then show ?thesis
    using assms normal_component_finite by (fastforce simp: normalize_point_def result_simps jget_jobj split: if_splits)
next
  case (JObj m)
  then obtain px py x y where "normal_component double_text px ''/arguments/point/x'' = Inr x"
    "normal_component double_text py ''/arguments/point/y'' = Inr y" "p = jput ''y'' y (jput ''x'' x (JObj m))"
    using assms by (auto simp: normalize_point_def result_simps split: option.splits if_splits)
  then show ?thesis
    using normal_component_finite by (fastforce simp: jget_jput_any simp del: jput.simps)
qed (use assms in \<open>simp_all add: normalize_point_def\<close>)

text \<open>
  (C28) What is handed to the tool is what was checked. For an object schema at most eight shapes
  deep (\<open>fits_depth\<close>; the validator looks no deeper), normalized arguments satisfy the schema the
  tool publishes and differ from the ones that were sent in the named numbers and the point only, of
  which none is added or dropped; the point of a hit test has two finite components.
\<close>

theorem normalized_arguments_conform:
  assumes "normalize_tool_arguments dump search double_text tool schema arguments = Inr v" "is_object schema" "fits_depth schema"
  shows "arguments_conform search schema v \<and> keeps_the_rest arguments v \<and>
     (tool = ''ui_hit_test'' \<longrightarrow> contains arguments ''point'' \<longrightarrow>
       (\<exists>p x y. jget v ''point'' = Some p \<and> jget p ''x'' = Some (JFloat (Fin x)) \<and> jget p ''y'' = Some (JFloat (Fin y))))"
proof -
  obtain counted where v: "is_object arguments" "normalize_integers tool arguments = Inr counted"
    "normalize_hit_point double_text tool counted = Inr v" "validate_against_schema dump search schema v = None"
    using assms(1) by (auto simp: normalize_tool_arguments_def result_simps split: if_splits)
  have first: "keeps_the_rest arguments counted"
    using normalize_integers_keeps [OF v(2,1)] .
  then have counted: "is_object counted" "contains counted ''point'' = contains arguments ''point''"
    using v(1) by (auto simp: keeps_the_rest_def)
  have keeps: "keeps_the_rest arguments v"
    using keeps_trans [OF first normalize_hit_point_keeps [OF v(3) counted(1)]] .
  then have "is_object v"
    using v(1) by (simp add: keeps_the_rest_def)
  then have "arguments_conform search schema v"
    using validate_conforms [OF assms(2) _ assms(3)] v(4) by blast
  moreover have "\<exists>p x y. jget v ''point'' = Some p \<and> jget p ''x'' = Some (JFloat (Fin x)) \<and> jget p ''y'' = Some (JFloat (Fin y))"
    if tool: "tool = ''ui_hit_test''" "contains arguments ''point''"
  proof -
    obtain point where "jget counted ''point'' = Some point"
      using counted(2) tool(2) by (auto simp: contains_def)
    then obtain p where "normalize_point double_text point = Inr p" "v = jput ''point'' p counted"
      using v(3) tool(1) by (auto simp: normalize_hit_point_def result_simps)
    then show ?thesis
      using normalize_point_vector counted(1) by (fastforce simp: jget_jput_any)
  qed
  ultimately show ?thesis
    using keeps by blast
qed

definition hit_schema :: json where
  "hit_schema =
     jobj [(''type'', JStr ''object''),
       (''properties'', jobj [(''max_results'', jobj [(''type'', JStr ''integer'')]), (''point'', jobj [(''type'', JStr ''object'')])]),
       (''required'', JArr [JStr ''point''])]"

definition hit_arguments :: json where
  "hit_arguments = jobj [(''max_results'', JStr ''12''), (''point'', JArr [JFloat (Fin 3), JFloat (Fin (1 / 2))])]"

theorem normalized_arguments_conform_witness:
  "\<exists>v. normalize_tool_arguments no_dump no_search (\<lambda>s. None) ''ui_hit_test'' hit_schema hit_arguments = Inr v \<and>
     arguments_conform no_search hit_schema v"
proof -
  have schema: "is_object hit_schema" "fits_depth hit_schema"
    by code_simp+
  have visited: "visit hit_arguments 0 whole_budget \<noteq> None"
    by (simp add: hit_arguments_def jobj_def whole_budget_def k_max_nodes_def k_max_bytes_def spend_node_def charge_def charge_text_def
        k_max_visit_depth_def)
  have ok: "is_object hit_arguments" "supports_argument_normalization ''ui_hit_test''"
    "normalize_integers ''ui_hit_test'' hit_arguments = Inr (jput ''max_results'' (JInt 12) hit_arguments)"
    "normalize_hit_point (\<lambda>s. None) ''ui_hit_test'' (jput ''max_results'' (JInt 12) hit_arguments) =
       Inr (jobj [(''max_results'', JInt 12), (''point'', jobj [(''x'', JFloat (Fin 3)), (''y'', JFloat (Fin (1 / 2)))])])"
    "validate_against_schema no_dump no_search hit_schema
       (jobj [(''max_results'', JInt 12), (''point'', jobj [(''x'', JFloat (Fin 3)), (''y'', JFloat (Fin (1 / 2)))])]) = None"
    by code_simp+
  have "is_ok (normalize_tool_arguments no_dump no_search (\<lambda>s. None) ''ui_hit_test'' hit_schema hit_arguments)"
    unfolding normalize_tool_arguments_def using visited ok by simp
  then obtain v where "normalize_tool_arguments no_dump no_search (\<lambda>s. None) ''ui_hit_test'' hit_schema hit_arguments = Inr v"
    by (auto simp: result_simps)
  with normalized_arguments_conform [OF this schema] show ?thesis
    by blast
qed

text \<open>
  A refusal never repeats the caller: whatever was sent, its field, its reason and what it expects are
  words of the policy.
\<close>

theorem refusals_are_fixed:
  assumes "normalize_tool_arguments dump search double_text tool schema arguments = Inl r"
  shows "policy_refusal r"
  using assms normalize_integers_refusal normalize_hit_point_refusal
  by (auto simp: normalize_tool_arguments_def result_simps split: if_splits intro!: policy_refusalI)

theorem refusals_are_fixed_witness:
  "\<exists>r. normalize_tool_arguments no_dump no_search (\<lambda>s. None) ''scene_delete'' hit_schema hit_arguments = Inl r \<and> policy_refusal r"
proof -
  have "\<not> is_ok (normalize_tool_arguments no_dump no_search (\<lambda>s. None) ''scene_delete'' hit_schema hit_arguments)"
    by code_simp
  then obtain r where r: "normalize_tool_arguments no_dump no_search (\<lambda>s. None) ''scene_delete'' hit_schema hit_arguments = Inl r"
    by (cases "normalize_tool_arguments no_dump no_search (\<lambda>s. None) ''scene_delete'' hit_schema hit_arguments") auto
  with refusals_are_fixed [OF r] show ?thesis
    by blast
qed

text \<open>Any signed 64-bit integer written in decimal is read back.\<close>

theorem integers_survive_as_text:
  assumes "- (2 ^ 63) \<le> i" "i < 2 ^ 63"
  shows "normal_integer (JStr (dec_int i)) path = Inr (JInt i)"
  using integer_text_dec [OF assms] by (simp add: normal_integer_def)

theorem integers_survive_as_text_witness: "normal_integer (JStr (dec_int (- 7))) ''/arguments/max_nodes'' = Inr (JInt (- 7))"
  using integers_survive_as_text [of "- 7"] by simp

end
