(* ===== verification/Response_Economy.thy ===== *)
theory Response_Economy
  imports Tool_Results
begin

text \<open>
  Answers without what the client already has: \<open>src/mcp/response_economy.cpp\<close> and its header. Whether the
  client holds a descriptor is asked of a callback that may record it as sent, so the functions that ask
  thread its state. Reading a member as the wrong type throws in the code and is a left result here.
\<close>

section \<open>What a client declares\<close>

definition k_response_economy_extension :: string where "k_response_economy_extension = ''didi/responseEconomy''"
definition k_omit_text_copy :: string where "k_omit_text_copy = ''textCopy''"
definition k_omit_session_descriptor :: string where "k_omit_session_descriptor = ''sessionDescriptor''"

record response_economy =
  eco_omit_text_copy :: bool
  eco_reference_session :: bool

definition no_economy :: response_economy where
  "no_economy = \<lparr>eco_omit_text_copy = False, eco_reference_session = False\<rparr>"

definition eco_any :: "response_economy \<Rightarrow> bool" where
  "eco_any e = (eco_omit_text_copy e \<or> eco_reference_session e)"

definition eco_or :: "response_economy \<Rightarrow> response_economy \<Rightarrow> response_economy" where
  "eco_or a b =
     \<lparr>eco_omit_text_copy = eco_omit_text_copy a \<or> eco_omit_text_copy b,
      eco_reference_session = eco_reference_session a \<or> eco_reference_session b\<rparr>"

definition declare_item :: "json \<Rightarrow> response_economy \<Rightarrow> response_economy" where
  "declare_item item e =
     (case item of
        JStr name \<Rightarrow>
          if name = k_omit_text_copy then e\<lparr>eco_omit_text_copy := True\<rparr>
          else if name = k_omit_session_descriptor then e\<lparr>eco_reference_session := True\<rparr> else e
      | _ \<Rightarrow> e)"

definition declared_response_economy :: "json \<Rightarrow> response_economy" where
  "declared_response_economy capabilities =
     (case jget capabilities ''extensions'' of
        Some extensions \<Rightarrow>
          (case jget extensions k_response_economy_extension of
             Some declared \<Rightarrow>
               (case jget declared ''omit'' of Some (JArr items) \<Rightarrow> fold declare_item items no_economy | _ \<Rightarrow> no_economy)
           | None \<Rightarrow> no_economy)
      | None \<Rightarrow> no_economy)"

datatype session_descriptor_mode = Every | Once
datatype text_copy_mode = Always_Copy | Copy_Once

definition parse_session_descriptor_mode :: "string \<Rightarrow> session_descriptor_mode option" where
  "parse_session_descriptor_mode s = (if s = ''every'' then Some Every else if s = ''once'' then Some Once else None)"

definition session_descriptor_mode_name :: "session_descriptor_mode \<Rightarrow> string" where
  "session_descriptor_mode_name mode = (if mode = Once then ''once'' else ''every'')"

definition parse_text_copy_mode :: "string \<Rightarrow> text_copy_mode option" where
  "parse_text_copy_mode s = (if s = ''always'' then Some Always_Copy else if s = ''once'' then Some Copy_Once else None)"

definition text_copy_mode_name :: "text_copy_mode \<Rightarrow> string" where
  "text_copy_mode_name mode = (if mode = Copy_Once then ''once'' else ''always'')"

definition response_economy_declaration :: json where
  "response_economy_declaration =
     jobj [(k_response_economy_extension, jobj [(''omit'', JArr [JStr k_omit_text_copy, JStr k_omit_session_descriptor])])]"

section \<open>The session descriptor\<close>

type_synonym ledger = "json option"

definition already_sent :: "json \<Rightarrow> ledger \<Rightarrow> bool \<times> ledger" where
  "already_sent descriptor last_sent =
     (case last_sent of
        Some d \<Rightarrow> if json_eq d descriptor then (True, last_sent) else (False, Some descriptor)
      | None \<Rightarrow> (False, Some descriptor))"

type_synonym 's holder = "json \<Rightarrow> 's \<Rightarrow> bool \<times> 's"

definition is_descriptor :: "json \<Rightarrow> bool" where
  "is_descriptor session = (case jget session ''session_id'' of Some (JStr s) \<Rightarrow> True | _ \<Rightarrow> False)"

definition session_reference :: "json \<Rightarrow> json" where
  "session_reference descriptor =
     (let reference = jobj [(''session_id'', member_or_null descriptor ''session_id'')]
      in case jget descriptor ''kind'' of Some k \<Rightarrow> jput ''kind'' k reference | None \<Rightarrow> reference)"

definition reference_held_session :: "json \<Rightarrow> 's holder option \<Rightarrow> 's \<Rightarrow> (json_exn, bool \<times> json) result \<times> 's" where
  "reference_held_session payload client_holds s =
     (case (client_holds, jget payload ''session'') of
        (Some holds, Some session) \<Rightarrow>
          if \<not> is_descriptor session then (Inr (False, payload), s)
          else
            let (held, s') = holds session s
            in if \<not> held then (Inr (False, payload), s')
               else
                 (rbind (value_string payload ''execution_mode'' []) (\<lambda>mode.
                    if mode \<noteq> ''live'' then Inr (False, payload)
                    else Inr (True, jput ''session'' (session_reference session) payload)), s')
      | _ \<Rightarrow> (Inr (False, payload), s))"

section \<open>Selected sections\<close>

text \<open>The sections that are taken out, in the order they are declared; a section taken out is not there again.\<close>

fun omit_sections :: "json list \<Rightarrow> string list \<Rightarrow> json \<Rightarrow> json \<times> string list" where
  "omit_sections selected [] payload = (payload, [])"
| "omit_sections selected (section # sections) payload =
     (if \<not> contains payload section \<or> list_ex (\<lambda>v. json_eq v (JStr section)) selected
      then omit_sections selected sections payload
      else
        let (after, omitted) = omit_sections selected sections (jdel section payload)
        in (after, section # omitted))"

definition rewrite_text :: "string \<Rightarrow> string \<Rightarrow> content_item \<Rightarrow> content_item" where
  "rewrite_text original rewritten item =
     (if ci_type item = ''text'' \<and> ci_text item = original then item\<lparr>ci_text := rewritten\<rparr> else item)"

definition select_sections :: "(json \<Rightarrow> string) \<Rightarrow> call_tool_result \<Rightarrow> string list \<Rightarrow> json \<Rightarrow> call_tool_result" where
  "select_sections dump result sections selected =
     (case (cr_structured result, selected) of
        (Some (JObj m), JArr chosen) \<Rightarrow>
          if cr_is_error result then result
          else
            let (payload, omitted) = omit_sections chosen sections (JObj m)
            in if omitted = [] then result
               else
                 let marked = jput ''omitted_fields'' (JArr (map JStr omitted)) payload
                 in result\<lparr>cr_structured := Some marked,
                      cr_content := map (rewrite_text (dump (JObj m)) (dump marked)) (cr_content result)\<rparr>
      | _ \<Rightarrow> result)"

section \<open>One encoded answer\<close>

definition is_copy :: "string \<Rightarrow> json \<Rightarrow> (json_exn, bool) result" where
  "is_copy original item =
     (if \<not> is_object item then Inr False
      else rbind (value_string item ''type'' []) (\<lambda>t. Inr (t = ''text'' \<and> jget item ''text'' = Some (JStr original))))"

fun copies_in :: "string \<Rightarrow> json list \<Rightarrow> (json_exn, bool list) result" where
  "copies_in original [] = Inr []"
| "copies_in original (item # items) =
     rbind (is_copy original item) (\<lambda>c. rbind (copies_in original items) (\<lambda>cs. Inr (c # cs)))"

definition without_copies :: "bool list \<Rightarrow> json list \<Rightarrow> json list" where
  "without_copies copies content = map snd (filter (\<lambda>(copy, item). \<not> copy) (zip copies content))"

definition rewritten_copies :: "string \<Rightarrow> bool list \<Rightarrow> json list \<Rightarrow> json list" where
  "rewritten_copies rewritten copies content =
     map2 (\<lambda>copy item. if copy then jput ''text'' (JStr rewritten) item else item) copies content"

definition economized_content :: "(json \<Rightarrow> string) \<Rightarrow> response_economy \<Rightarrow> bool \<Rightarrow> json \<Rightarrow> bool list \<Rightarrow> json list \<Rightarrow> json list" where
  "economized_content dump economy restructured structured copies content =
     (if eco_omit_text_copy economy then without_copies copies content
      else if restructured then rewritten_copies (dump structured) copies content else content)"

definition economize_tool_result ::
  "(json \<Rightarrow> string) \<Rightarrow> json \<Rightarrow> response_economy \<Rightarrow> 's holder option \<Rightarrow> 's \<Rightarrow> (json_exn, json) result \<times> 's" where
  "economize_tool_result dump encoded economy client_holds s =
     (if \<not> eco_any economy \<or> \<not> is_object encoded then (Inr encoded, s)
      else
        case value_bool encoded ''isError'' False of
          Inl e \<Rightarrow> (Inl e, s)
        | Inr failed \<Rightarrow>
            if failed then (Inr encoded, s)
            else
              case (jget encoded ''structuredContent'', jget encoded ''content'') of
                (Some structured, Some (JArr content)) \<Rightarrow>
                  (case copies_in (dump structured) content of
                     Inl e \<Rightarrow> (Inl e, s)
                   | Inr copies \<Rightarrow>
                       let (referenced, s') =
                         (if eco_reference_session economy then reference_held_session structured client_holds s
                          else (Inr (False, structured), s))
                       in (rbind referenced (\<lambda>(restructured, structured').
                             Inr (jput ''content'' (JArr (economized_content dump economy restructured structured' copies content))
                               (jput ''structuredContent'' structured' encoded))), s'))
              | _ \<Rightarrow> (Inr encoded, s))"

section \<open>The same on a result\<close>

text \<open>What economizing means before a result is encoded: a copy is a text item that is the payload.\<close>

definition item_is_copy :: "(json \<Rightarrow> string) \<Rightarrow> json \<Rightarrow> content_item \<Rightarrow> bool" where
  "item_is_copy dump structured item = (ci_type item \<notin> {''image'', ''resource''} \<and> ci_text item = dump structured)"

definition economized_items :: "(json \<Rightarrow> string) \<Rightarrow> response_economy \<Rightarrow> bool \<Rightarrow> json \<Rightarrow> json \<Rightarrow> content_item list \<Rightarrow> content_item list" where
  "economized_items dump economy restructured before after items =
     (if eco_omit_text_copy economy then filter (\<lambda>item. \<not> item_is_copy dump before item) items
      else if restructured
      then map (\<lambda>item. if item_is_copy dump before item then item\<lparr>ci_text := dump after\<rparr> else item) items
      else items)"

definition economized ::
  "(json \<Rightarrow> string) \<Rightarrow> call_tool_result \<Rightarrow> response_economy \<Rightarrow> 's holder option \<Rightarrow> 's \<Rightarrow> (json_exn, call_tool_result) result \<times> 's" where
  "economized dump r economy client_holds s =
     (case (if \<not> eco_any economy \<or> cr_is_error r then None else cr_structured r) of
        None \<Rightarrow> (Inr r, s)
      | Some structured \<Rightarrow>
          let (referenced, s') =
            (if eco_reference_session economy then reference_held_session structured client_holds s else (Inr (False, structured), s))
          in (rbind referenced (\<lambda>(restructured, structured').
                Inr (r\<lparr>cr_structured := Some structured',
                        cr_content := economized_items dump economy restructured structured structured' (cr_content r)\<rparr>)), s'))"

lemma jget_item:
  "is_object (item_json item)"
  "jget (item_json item) ''type'' = Some (JStr (if ci_type item \<in> {''image'', ''resource''} then ci_type item else ''text''))"
  "ci_type item \<notin> {''image'', ''resource''} \<Longrightarrow> jget (item_json item) ''text'' = Some (JStr (ci_text item))"
  by (auto simp: item_json_def jget_jobj)

lemma is_copy_item: "is_copy (dump structured) (item_json item) = Inr (item_is_copy dump structured item)"
  using jget_item [of item] by (auto simp: is_copy_def value_string_def item_is_copy_def)

lemma copies_in_items: "copies_in (dump structured) (map item_json items) = Inr (map (item_is_copy dump structured) items)"
  by (induction items) (simp_all add: is_copy_item)

lemma without_copies_items:
  "without_copies (map (item_is_copy dump structured) items) (map item_json items) =
     map item_json (filter (\<lambda>item. \<not> item_is_copy dump structured item) items)"
  by (induction items) (auto simp: without_copies_def)

lemma jput_text_item:
  "ci_type item \<notin> {''image'', ''resource''} \<Longrightarrow> jput ''text'' (JStr t) (item_json item) = item_json (item\<lparr>ci_text := t\<rparr>)"
  by (simp add: item_json_def jobj_def)

lemma rewritten_copies_items:
  "rewritten_copies t (map (item_is_copy dump structured) items) (map item_json items) =
     map item_json (map (\<lambda>item. if item_is_copy dump structured item then item\<lparr>ci_text := t\<rparr> else item) items)"
  by (induction items) (auto simp: rewritten_copies_def item_is_copy_def jput_text_item)

lemma economized_content_items:
  "economized_content dump economy restructured after (map (item_is_copy dump before) items) (map item_json items) =
     map item_json (economized_items dump economy restructured before after items)"
  by (simp add: economized_content_def economized_items_def without_copies_items rewritten_copies_items)

lemma result_json_put:
  assumes "\<not> cr_is_error r" "cr_structured r = Some structured"
  shows "jput ''content'' (JArr (map item_json items)) (jput ''structuredContent'' after (result_json r)) =
     result_json (r\<lparr>cr_structured := Some after, cr_content := items\<rparr>)"
  using assms by (simp add: result_json_def jobj_def)

fun encoded_result :: "(json_exn, call_tool_result) result \<Rightarrow> (json_exn, json) result" where
  "encoded_result (Inl e) = Inl e"
| "encoded_result (Inr r) = Inr (result_json r)"

lemma economize_refines:
  "economize_tool_result dump (result_json r) economy client_holds s =
     (encoded_result (fst (economized dump r economy client_holds s)), snd (economized dump r economy client_holds s))"
proof (cases "\<not> eco_any economy \<or> cr_is_error r \<or> cr_structured r = None")
  case True
  then show ?thesis
    using result_json_members [of r] by (auto simp: economize_tool_result_def economized_def value_bool_def split: option.splits)
next
  case False
  then obtain structured where some: "eco_any economy" "\<not> cr_is_error r" "cr_structured r = Some structured"
    by auto
  let ?referenced = "if eco_reference_session economy then reference_held_session structured client_holds s
    else (Inr (False, structured), s)"
  obtain referenced s' where ref: "?referenced = (referenced, s')"
    by fastforce
  have "economize_tool_result dump (result_json r) economy client_holds s =
      (rbind referenced (\<lambda>(restructured, structured').
         Inr (jput ''content'' (JArr (economized_content dump economy restructured structured'
             (map (item_is_copy dump structured) (cr_content r)) (map item_json (cr_content r))))
           (jput ''structuredContent'' structured' (result_json r)))), s')"
    using some ref result_json_members [of r]
    by (simp add: economize_tool_result_def value_bool_def copies_in_items)
  also have "\<dots> = (encoded_result (fst (economized dump r economy client_holds s)), snd (economized dump r economy client_holds s))"
    using some ref by (cases referenced) (auto simp: economized_def economized_content_items result_json_put)
  finally show ?thesis .
qed

section \<open>A conversation\<close>

text \<open>The ledger of a conversation, its newest answer first. A conversation keeps only descriptors sent whole.\<close>

definition session_of :: "json \<Rightarrow> json option" where
  "session_of payload = (case jget payload ''session'' of Some d \<Rightarrow> if is_descriptor d then Some d else None | None \<Rightarrow> None)"

fun ledger_after :: "json list \<Rightarrow> ledger" where
  "ledger_after [] = None"
| "ledger_after (payload # h) = snd (reference_held_session payload (Some already_sent) (ledger_after h))"

lemma reference_cases:
  "reference_held_session payload (Some already_sent) l =
     (case session_of payload of
        None \<Rightarrow> (Inr (False, payload), l)
      | Some d \<Rightarrow>
          if \<exists>sent. l = Some sent \<and> json_eq sent d then
            (rbind (value_string payload ''execution_mode'' []) (\<lambda>mode.
               if mode \<noteq> ''live'' then Inr (False, payload)
               else Inr (True, jput ''session'' (session_reference d) payload)), l)
          else (Inr (False, payload), Some d))"
  by (auto simp: reference_held_session_def session_of_def already_sent_def split: option.splits)

definition sent_whole :: "json list \<Rightarrow> json \<Rightarrow> bool" where
  "sent_whole h payload = (fst (reference_held_session payload (Some already_sent) (ledger_after h)) = Inr (False, payload))"

lemma ledger_origin:
  assumes "ledger_after h = Some d"
  shows "\<exists>newer q older. h = newer @ q # older \<and> session_of q = Some d \<and> sent_whole older q \<and>
     (\<forall>p \<in> set newer. \<forall>d'. session_of p = Some d' \<longrightarrow> json_eq d d')"
  using assms
proof (induction h)
  case (Cons p h)
  show ?case
  proof (cases "session_of p")
    case None
    then have "ledger_after h = Some d"
      using Cons.prems by (simp add: reference_cases)
    from Cons.IH [OF this] obtain newer q older where o: "h = newer @ q # older" "session_of q = Some d" "sent_whole older q"
      "\<forall>p \<in> set newer. \<forall>d'. session_of p = Some d' \<longrightarrow> json_eq d d'"
      by blast
    then show ?thesis
      using None by (intro exI [of _ "p # newer"] exI [of _ q] exI [of _ older]) auto
  next
    case (Some d')
    show ?thesis
    proof (cases "\<exists>sent. ledger_after h = Some sent \<and> json_eq sent d'")
      case True
      then have held: "ledger_after h = Some d" "json_eq d d'"
        using Cons.prems Some by (auto simp: reference_cases)
      from Cons.IH [OF held(1)] obtain newer q older where o: "h = newer @ q # older" "session_of q = Some d" "sent_whole older q"
        "\<forall>p \<in> set newer. \<forall>d'. session_of p = Some d' \<longrightarrow> json_eq d d'"
        by blast
      then show ?thesis
        using Some held by (intro exI [of _ "p # newer"] exI [of _ q] exI [of _ older]) auto
    next
      case False
      have "reference_held_session p (Some already_sent) (ledger_after h) = (Inr (False, p), Some d')"
        unfolding reference_cases Some option.case if_not_P [OF False] by (rule refl)
      then have "d' = d" "sent_whole h p"
        using Cons.prems by (simp_all add: sent_whole_def)
      then show ?thesis
        using Some by (intro exI [of _ "[]"] exI [of _ p] exI [of _ h]) auto
    qed
  qed
qed simp

section \<open>Properties of the economy\<close>

text \<open>
  (C25) Economizing an encoded answer is economizing the answer: a failure and an answer nobody asked to change
  go out as they were, the payload is the whole one or the one with the reference, and of the content
  only the items that repeat the payload are left out or, when they stay, say what it now says.
\<close>

theorem economizing_is_on_the_result:
  "economize_tool_result dump (result_json r) economy client_holds s =
     (encoded_result (fst (economized dump r economy client_holds s)), snd (economized dump r economy client_holds s))"
  by (rule economize_refines)

text \<open>
  (C24) A reference is only sent for what the client has: the descriptor equals one that an earlier answer of
  the conversation carried whole, every descriptor that came between equals it too, the answer is a
  live one, and nothing but its session is different.
\<close>

theorem referenced_sessions_were_sent:
  assumes "fst (reference_held_session payload (Some already_sent) (ledger_after h)) = Inr (True, after)"
  shows "\<exists>d sent newer q older. session_of payload = Some d \<and> h = newer @ q # older \<and> session_of q = Some sent \<and>
     sent_whole older q \<and> json_eq sent d \<and> (\<forall>p \<in> set newer. \<forall>d'. session_of p = Some d' \<longrightarrow> json_eq sent d') \<and>
     jget payload ''execution_mode'' = Some (JStr ''live'') \<and>
     (\<forall>k. jget after k = (if k = ''session'' then Some (session_reference d) else jget payload k))"
proof -
  obtain d where d: "session_of payload = Some d"
    using assms by (cases "session_of payload") (auto simp: reference_cases)
  obtain sent where sent: "ledger_after h = Some sent" "json_eq sent d"
    using assms d by (cases "\<exists>sent. ledger_after h = Some sent \<and> json_eq sent d") (auto simp: reference_cases)
  have mode: "value_string payload ''execution_mode'' [] = Inr ''live''" "after = jput ''session'' (session_reference d) payload"
    using assms d sent by (auto simp: reference_cases result_simps split: if_splits)
  have object: "is_object payload"
    using mode(1) by (cases payload) (auto simp: value_string_def)
  have "jget payload ''execution_mode'' = Some (JStr ''live'')"
    using mode(1) object by (cases "jget payload ''execution_mode''"; cases "the (jget payload ''execution_mode'')")
      (auto simp: value_string_def)
  moreover obtain newer q older where "h = newer @ q # older" "session_of q = Some sent" "sent_whole older q"
    "\<forall>p \<in> set newer. \<forall>d'. session_of p = Some d' \<longrightarrow> json_eq sent d'"
    using ledger_origin [OF sent(1)] by blast
  ultimately show ?thesis
    using d sent(2) mode(2) object by (intro exI [of _ d] exI [of _ sent] exI [of _ newer] exI [of _ q] exI [of _ older])
      (simp add: jget_jput_any)
qed

definition live_answer :: json where
  "live_answer =
     jobj [(''execution_mode'', JStr ''live''), (''session'', jobj [(''session_id'', JStr ''s1''), (''kind'', JStr ''game''), (''port'', JUInt 9)])]"

theorem referenced_sessions_were_sent_witness:
  "\<exists>after. fst (reference_held_session live_answer (Some already_sent) (ledger_after [live_answer])) = Inr (True, after) \<and>
     jget after ''session'' = Some (session_reference (jobj [(''session_id'', JStr ''s1''), (''kind'', JStr ''game''), (''port'', JUInt 9)]))"
proof -
  let ?after = "jput ''session'' (session_reference (jobj [(''session_id'', JStr ''s1''), (''kind'', JStr ''game''), (''port'', JUInt 9)])) live_answer"
  have sent: "fst (reference_held_session live_answer (Some already_sent) (ledger_after [live_answer])) = Inr (True, ?after)"
    by code_simp
  from referenced_sessions_were_sent [OF this] obtain d where
    "session_of live_answer = Some d" "\<forall>k. jget ?after k = (if k = ''session'' then Some (session_reference d) else jget live_answer k)"
    by blast
  moreover have "session_of live_answer = Some (jobj [(''session_id'', JStr ''s1''), (''kind'', JStr ''game''), (''port'', JUInt 9)])"
    by code_simp
  ultimately show ?thesis
    using sent by auto
qed

lemma chosen_names: "list_ex (\<lambda>v. json_eq v (JStr name)) chosen \<longleftrightarrow> JStr name \<in> set chosen"
proof -
  have "json_eq v (JStr name) \<longleftrightarrow> v = JStr name" for v
    by (cases v) auto
  then show ?thesis
    by (auto simp: list_ex_iff)
qed

lemma omit_sections_spec:
  assumes "omit_sections chosen sections payload = (after, omitted)" "is_object payload" "distinct sections"
  shows "is_object after \<and> omitted = filter (\<lambda>name. contains payload name \<and> JStr name \<notin> set chosen) sections \<and>
     (\<forall>k. jget after k = (if k \<in> set omitted then None else jget payload k))"
  using assms
proof (induction chosen sections payload arbitrary: after omitted rule: omit_sections.induct)
  case (2 chosen name names payload)
  show ?case
  proof (cases "\<not> contains payload name \<or> JStr name \<in> set chosen")
    case True
    then show ?thesis
      using 2 by (simp add: chosen_names)
  next
    case False
    obtain after' omitted' where rest: "omit_sections chosen names (jdel name payload) = (after', omitted')"
      by fastforce
    have "is_object after' \<and> omitted' = filter (\<lambda>n. contains (jdel name payload) n \<and> JStr n \<notin> set chosen) names \<and>
        (\<forall>k. jget after' k = (if k \<in> set omitted' then None else jget (jdel name payload) k))"
      using 2(2) [OF _ rest] 2(4,5) False by (simp add: chosen_names)
    moreover have "filter (\<lambda>n. contains (jdel name payload) n \<and> JStr n \<notin> set chosen) names =
        filter (\<lambda>n. contains payload n \<and> JStr n \<notin> set chosen) names"
      using 2(5) by (intro filter_cong) (auto simp: contains_def jget_jdel)
    ultimately show ?thesis
      using 2(3) rest False by (auto simp: chosen_names jget_jdel)
  qed
qed simp

text \<open>
  Selecting sections takes out exactly the declared sections that were not selected, names them in the order
  they are declared, and keeps every other member of the payload.
\<close>

theorem selected_sections_are_kept:
  assumes "cr_structured r = Some (JObj m)" "\<not> cr_is_error r" "distinct sections" "''omitted_fields'' \<notin> set sections"
  shows "let omitted = filter (\<lambda>name. contains (JObj m) name \<and> JStr name \<notin> set chosen) sections
     in \<exists>p. cr_structured (select_sections dump r sections (JArr chosen)) = Some p \<and>
     (\<forall>k. jget p k =
       (if k \<in> set omitted then None
        else if k = ''omitted_fields'' \<and> omitted \<noteq> [] then Some (JArr (map JStr omitted))
        else kv_get m k))"
proof -
  let ?omitted = "filter (\<lambda>name. contains (JObj m) name \<and> JStr name \<notin> set chosen) sections"
  obtain after names where cut: "omit_sections chosen sections (JObj m) = (after, names)"
    by fastforce
  from omit_sections_spec [OF this _ assms(3)] have spec: "is_object after" "names = ?omitted"
    "\<forall>k. jget after k = (if k \<in> set ?omitted then None else jget (JObj m) k)"
    by simp_all
  have "jget (JObj m) k = kv_get m k" for k
    by (simp add: jget_def)
  moreover have "''omitted_fields'' \<notin> set ?omitted"
    using assms(4) by simp
  ultimately show ?thesis
    using assms(1,2) cut spec by (cases "?omitted = []") (auto simp: select_sections_def jget_jput_any Let_def)
qed

theorem selected_sections_are_kept_witness:
  "\<exists>p. cr_structured (select_sections (\<lambda>v. []) (new_result\<lparr>cr_structured := Some (JObj [(''a'', JNull), (''b'', JNull)])\<rparr>)
       [''a'', ''b''] (JArr [JStr ''b''])) = Some p \<and> jget p ''a'' = None \<and> jget p ''b'' = Some JNull"
proof -
  let ?r = "new_result\<lparr>cr_structured := Some (JObj [(''a'', JNull), (''b'', JNull)])\<rparr>"
  have "cr_structured ?r = Some (JObj [(''a'', JNull), (''b'', JNull)])" "\<not> cr_is_error ?r" "distinct [''a'', ''b'']"
    "''omitted_fields'' \<notin> set [''a'', ''b'']"
    by (simp_all add: new_result_def)
  from selected_sections_are_kept [OF this, where dump = "\<lambda>v. []" and chosen = "[JStr ''b'']"] show ?thesis
    by (auto simp: contains_def jget_def Let_def split: if_splits)
qed

end
