(* ===== verification/Sha256.thy ===== *)
theory Sha256
  imports Didi_Prelude
begin

unbundle bit_operations_syntax

text \<open>
  The digest of a file or of a scenario's proof record: \<open>src/common/sha256.cpp\<close>. The first half is the code as it
  is written, over 32-bit words that wrap and an array of 64 words that is filled in place; the second
  half is the secure hash standard (FIPS 180-4), over a padded message and a recursive schedule,
  and the two are equal.
\<close>

section \<open>The code\<close>

text \<open>The table of the rounds, line by line as the source lays it out.\<close>

definition round_constants :: "32 word list" where
  "round_constants = concat
    [[0x428a2f98, 0x71374491, 0xb5c0fbcf, 0xe9b5dba5, 0x3956c25b, 0x59f111f1, 0x923f82a4],
     [0xab1c5ed5, 0xd807aa98, 0x12835b01, 0x243185be, 0x550c7dc3, 0x72be5d74, 0x80deb1fe],
     [0x9bdc06a7, 0xc19bf174, 0xe49b69c1, 0xefbe4786, 0x0fc19dc6, 0x240ca1cc, 0x2de92c6f],
     [0x4a7484aa, 0x5cb0a9dc, 0x76f988da, 0x983e5152, 0xa831c66d, 0xb00327c8, 0xbf597fc7],
     [0xc6e00bf3, 0xd5a79147, 0x06ca6351, 0x14292967, 0x27b70a85, 0x2e1b2138, 0x4d2c6dfc],
     [0x53380d13, 0x650a7354, 0x766a0abb, 0x81c2c92e, 0x92722c85, 0xa2bfe8a1, 0xa81a664b],
     [0xc24b8b70, 0xc76c51a3, 0xd192e819, 0xd6990624, 0xf40e3585, 0x106aa070, 0x19a4c116],
     [0x1e376c08, 0x2748774c, 0x34b0bcb5, 0x391c0cb3, 0x4ed8aa4a, 0x5b9cca4f, 0x682e6ff3],
     [0x748f82ee, 0x78a5636f, 0x84c87814, 0x8cc70208, 0x90befffa, 0xa4506ceb, 0xbef9a3f7],
     [0xc67178f2]]"

definition initial_hash :: "32 word list" where
  "initial_hash = [0x6a09e667, 0xbb67ae85, 0x3c6ef372, 0xa54ff53a, 0x510e527f, 0x9b05688c, 0x1f83d9ab, 0x5be0cd19]"

definition rotr :: "32 word \<Rightarrow> nat \<Rightarrow> 32 word" where
  "rotr x n = drop_bit n x OR push_bit (32 - n) x"

definition block_count :: "string \<Rightarrow> nat" where
  "block_count input = (length input + 9 + 63) div 64"

definition message_bits :: "string \<Rightarrow> 64 word" where
  "message_bits input = word_of_nat (length input) * 8"

definition message_byte :: "string \<Rightarrow> nat \<Rightarrow> 8 word" where
  "message_byte input pos =
     (if pos < length input then word_of_nat (byte (input ! pos))
      else if pos = length input then 0x80
      else if pos \<ge> block_count input * 64 - 8
      then ucast (drop_bit ((block_count input * 64 - 1 - pos) * 8) (message_bits input))
      else 0)"

definition load_byte :: "string \<Rightarrow> nat \<Rightarrow> nat \<Rightarrow> 32 word list \<Rightarrow> 32 word list" where
  "load_byte input block i w =
     w[i div 4 := w ! (i div 4) OR push_bit (24 - (i mod 4) * 8) (ucast (message_byte input (block * 64 + i)))]"

definition load_block :: "string \<Rightarrow> nat \<Rightarrow> 32 word list" where
  "load_block input block = fold (load_byte input block) [0..<64] (replicate 64 0)"

definition extend_word :: "nat \<Rightarrow> 32 word list \<Rightarrow> 32 word list" where
  "extend_word i w =
     w[i := w ! (i - 16) + (rotr (w ! (i - 15)) 7 XOR rotr (w ! (i - 15)) 18 XOR drop_bit 3 (w ! (i - 15))) +
       w ! (i - 7) + (rotr (w ! (i - 2)) 17 XOR rotr (w ! (i - 2)) 19 XOR drop_bit 10 (w ! (i - 2)))]"

definition block_words :: "string \<Rightarrow> nat \<Rightarrow> 32 word list" where
  "block_words input block = fold extend_word [16..<64] (load_block input block)"

record sha_vars =
  wa :: "32 word"
  wb :: "32 word"
  wc :: "32 word"
  wd :: "32 word"
  we :: "32 word"
  wf :: "32 word"
  wg :: "32 word"
  wv :: "32 word"

definition start_vars :: "32 word list \<Rightarrow> sha_vars" where
  "start_vars h =
     \<lparr>wa = h ! 0, wb = h ! 1, wc = h ! 2, wd = h ! 3, we = h ! 4, wf = h ! 5, wg = h ! 6, wv = h ! 7\<rparr>"

definition one_round :: "32 word list \<Rightarrow> nat \<Rightarrow> sha_vars \<Rightarrow> sha_vars" where
  "one_round w i s =
     (let t1 = wv s + (rotr (we s) 6 XOR rotr (we s) 11 XOR rotr (we s) 25) +
            ((we s AND wf s) XOR (NOT (we s) AND wg s)) + round_constants ! i + w ! i;
          t2 = (rotr (wa s) 2 XOR rotr (wa s) 13 XOR rotr (wa s) 22) +
            ((wa s AND wb s) XOR (wa s AND wc s) XOR (wb s AND wc s))
      in \<lparr>wa = t1 + t2, wb = wa s, wc = wb s, wd = wc s, we = wd s + t1, wf = we s, wg = wf s, wv = wg s\<rparr>)"

definition add_vars :: "32 word list \<Rightarrow> sha_vars \<Rightarrow> 32 word list" where
  "add_vars h s =
     [h ! 0 + wa s, h ! 1 + wb s, h ! 2 + wc s, h ! 3 + wd s, h ! 4 + we s, h ! 5 + wf s, h ! 6 + wg s, h ! 7 + wv s]"

definition hash_block :: "string \<Rightarrow> nat \<Rightarrow> 32 word list \<Rightarrow> 32 word list" where
  "hash_block input block h = add_vars h (fold (one_round (block_words input block)) [0..<64] (start_vars h))"

definition sha256 :: "string \<Rightarrow> 32 word list" where
  "sha256 input = fold (hash_block input) [0..<block_count input] initial_hash"

definition sha256_hex :: "string \<Rightarrow> string" where
  "sha256_hex input = concat (map (\<lambda>v. hex_fixed 8 (unat v)) (sha256 input))"

section \<open>The standard\<close>

text \<open>Padding (5.1.1): a set bit, the fewest zeros that leave room for the length, and the length in bits.\<close>

definition zero_bytes :: "nat \<Rightarrow> nat" where
  "zero_bytes l = (119 - l mod 64) mod 64"

definition length_bytes :: "nat \<Rightarrow> 8 word list" where
  "length_bytes l = map (\<lambda>j. word_of_nat (8 * l div 256 ^ (7 - j))) [0..<8]"

definition padded :: "8 word list \<Rightarrow> 8 word list" where
  "padded message = message @ [0x80] @ replicate (zero_bytes (length message)) 0 @ length_bytes (length message)"

text \<open>Parsing (5.2.1): sixteen big-endian words to a block.\<close>

definition block_word :: "8 word list \<Rightarrow> nat \<Rightarrow> nat \<Rightarrow> 32 word" where
  "block_word bytes i t = word_rcat (take 4 (drop (64 * i + 4 * t) bytes))"

text \<open>The functions (4.1.2), the schedule and the rounds (6.2.2).\<close>

definition ch :: "32 word \<Rightarrow> 32 word \<Rightarrow> 32 word \<Rightarrow> 32 word" where
  "ch x y z = (x AND y) XOR (NOT x AND z)"

definition maj :: "32 word \<Rightarrow> 32 word \<Rightarrow> 32 word \<Rightarrow> 32 word" where
  "maj x y z = (x AND y) XOR (x AND z) XOR (y AND z)"

definition big_sigma0 :: "32 word \<Rightarrow> 32 word" where
  "big_sigma0 x = word_rotr 2 x XOR word_rotr 13 x XOR word_rotr 22 x"

definition big_sigma1 :: "32 word \<Rightarrow> 32 word" where
  "big_sigma1 x = word_rotr 6 x XOR word_rotr 11 x XOR word_rotr 25 x"

definition small_sigma0 :: "32 word \<Rightarrow> 32 word" where
  "small_sigma0 x = word_rotr 7 x XOR word_rotr 18 x XOR drop_bit 3 x"

definition small_sigma1 :: "32 word \<Rightarrow> 32 word" where
  "small_sigma1 x = word_rotr 17 x XOR word_rotr 19 x XOR drop_bit 10 x"

function schedule :: "(nat \<Rightarrow> 32 word) \<Rightarrow> nat \<Rightarrow> 32 word" where
  "schedule m t =
     (if t < 16 then m t
      else small_sigma1 (schedule m (t - 2)) + schedule m (t - 7) + small_sigma0 (schedule m (t - 15)) + schedule m (t - 16))"
  by pat_completeness auto
termination
  by (relation "measure snd") auto

declare schedule.simps [simp del]

definition standard_round :: "(nat \<Rightarrow> 32 word) \<Rightarrow> nat \<Rightarrow> sha_vars \<Rightarrow> sha_vars" where
  "standard_round w t s =
     (let t1 = wv s + big_sigma1 (we s) + ch (we s) (wf s) (wg s) + round_constants ! t + w t;
          t2 = big_sigma0 (wa s) + maj (wa s) (wb s) (wc s)
      in \<lparr>wa = t1 + t2, wb = wa s, wc = wb s, wd = wc s, we = wd s + t1, wf = we s, wg = wf s, wv = wg s\<rparr>)"

definition standard_block :: "8 word list \<Rightarrow> nat \<Rightarrow> 32 word list \<Rightarrow> 32 word list" where
  "standard_block bytes i h =
     add_vars h (fold (standard_round (schedule (block_word bytes i))) [0..<64] (start_vars h))"

definition standard_sha256 :: "8 word list \<Rightarrow> 32 word list" where
  "standard_sha256 message =
     (let bytes = padded message in fold (standard_block bytes) [0..<length bytes div 64] initial_hash)"

section \<open>Rotation and padding\<close>

lemma rotr_is_rotation:
  assumes "0 < n" "n < 32"
  shows "rotr x n = word_rotr n x"
proof (rule bit_word_eqI)
  fix k assume "k < LENGTH(32)"
  then have k: "k < 32"
    by simp
  show "bit (rotr x n) k \<longleftrightarrow> bit (word_rotr n x) k"
  proof (cases "k + n < 32")
    case True
    then have "\<not> 32 - n \<le> k"
      by linarith
    then show ?thesis
      using k assms True by (simp only: rotr_def bit_simps) (simp add: bit_simps add.commute)
  next
    case False
    then have "(k + n) mod 32 = k + n - 32"
      using k assms by (simp add: mod_if)
    moreover have "\<not> bit x (k + n)"
      using False bit_imp_le_length [of x "k + n"] by fastforce
    moreover have "k - (32 - n) = k + n - 32" "32 - n \<le> k"
      using False assms by linarith+
    ultimately show ?thesis
      using k assms False by (simp only: rotr_def bit_simps) (simp add: bit_simps add.commute)
  qed
qed

lemma zero_bytes_cases: "zero_bytes l = (if l mod 64 \<le> 55 then 55 - l mod 64 else 119 - l mod 64)"
proof (cases "l mod 64 \<le> 55")
  case True
  then have "119 - l mod 64 = (55 - l mod 64) + 64"
    by linarith
  then have "zero_bytes l = (55 - l mod 64) mod 64"
    by (simp only: zero_bytes_def mod_add_self2)
  then show ?thesis
    using True by simp
next
  case False
  then show ?thesis by (simp add: zero_bytes_def)
qed

lemma padded_blocks: "l + 9 + zero_bytes l = 64 * ((l + 9 + 63) div 64)"
proof -
  obtain q r where l: "l = 64 * q + r" "r < 64" "l mod 64 = r"
    using div_mult_mod_eq [of l 64] mod_less_divisor [of 64 l] by (metis mult.commute zero_less_numeral)
  have "l + 9 + 63 = (r + 72) + q * 64"
    using l(1) by simp
  then have "(l + 9 + 63) div 64 = q + (r + 72) div 64"
    by (simp only: div_mult_self1)
  moreover have "(r + 72) div 64 = (if r \<le> 55 then 1 else 2)"
  proof (cases "r \<le> 55")
    case True
    then show ?thesis by (simp add: div_nat_eqI)
  next
    case False
    then show ?thesis using l(2) by (simp add: div_nat_eqI)
  qed
  ultimately show ?thesis
    using l by (simp add: zero_bytes_cases)
qed

text \<open>The padding is the shortest that leaves the message eight bytes short of a whole number of blocks.\<close>

lemma zero_bytes_room: "(l + 1 + zero_bytes l) mod 64 = 56"
proof -
  have "(l + 1 + zero_bytes l) + 8 = 64 * ((l + 9 + 63) div 64)"
    using padded_blocks [of l] by linarith
  then obtain q where q: "(l + 1 + zero_bytes l) + 8 = 64 * q"
    by blast
  then have "l + 1 + zero_bytes l = 64 * (q - 1) + 56"
    by (cases q) auto
  then show ?thesis
    by simp
qed

lemma zero_bytes_fewest:
  assumes "(l + 1 + k) mod 64 = 56"
  shows "zero_bytes l \<le> k"
proof (rule ccontr)
  assume less: "\<not> zero_bytes l \<le> k"
  have "(l + 1 + zero_bytes l) mod 64 = (l + 1 + k) mod 64"
    using assms zero_bytes_room by simp
  then have "64 dvd (l + 1 + zero_bytes l) - (l + 1 + k)"
    by (rule mod_eq_dvd_iff_nat [THEN iffD1, rotated]) (use less in simp)
  then have "64 dvd zero_bytes l - k"
    by simp
  moreover have "zero_bytes l < 64"
    by (simp add: zero_bytes_def)
  ultimately show False
    using less by (auto dest!: dvd_imp_le)
qed

lemma length_padded: "length (padded message) = 64 * ((length message + 9 + 63) div 64)"
  using padded_blocks [of "length message"] by (simp add: padded_def length_bytes_def)

lemma length_byte:
  assumes "k < 8"
  shows "(ucast (drop_bit (k * 8) (word_of_nat l * 8 :: 64 word)) :: 8 word) = word_of_nat (8 * l div 256 ^ k)"
proof (rule bit_word_eqI)
  fix n assume n: "n < LENGTH(8)"
  have "(256 :: nat) ^ k = 2 ^ (k * 8)"
    using power_mult [of "2 :: nat" 8 k] by (simp add: mult.commute)
  then have "8 * l div 256 ^ k = drop_bit (k * 8) (8 * l)"
    by (simp add: drop_bit_eq_div)
  moreover have "(word_of_nat l * 8 :: 64 word) = word_of_nat (8 * l)"
    by simp
  ultimately show "bit (ucast (drop_bit (k * 8) (word_of_nat l * 8 :: 64 word)) :: 8 word) n \<longleftrightarrow>
      bit (word_of_nat (8 * l div 256 ^ k) :: 8 word) n"
    using n assms by (simp add: bit_simps del: of_nat_mult)
qed

definition message_of :: "string \<Rightarrow> 8 word list" where
  "message_of input = map (\<lambda>c. word_of_nat (byte c)) input"

lemma padded_nth:
  assumes "pos < 64 * block_count input"
  shows "padded (message_of input) ! pos = message_byte input pos"
proof -
  let ?l = "length input"
  have blocks: "block_count input * 64 = ?l + 9 + zero_bytes ?l"
    using padded_blocks [of ?l] by (simp add: block_count_def)
  consider "pos < ?l" | "pos = ?l" | "?l < pos" "pos < ?l + 1 + zero_bytes ?l" | "?l + 1 + zero_bytes ?l \<le> pos"
    by linarith
  then show ?thesis
  proof cases
    case 4
    define j where "j = pos - (?l + 1 + zero_bytes ?l)"
    have j: "pos = ?l + 1 + zero_bytes ?l + j" "j < 8" "block_count input * 64 - 1 - pos = 7 - j"
      using 4 assms blocks by (auto simp: j_def)
    then have "message_byte input pos = word_of_nat (8 * ?l div 256 ^ (7 - j))"
      using blocks length_byte [of "7 - j" ?l] by (simp add: message_byte_def message_bits_def)
    then show ?thesis
      using j by (simp add: padded_def message_of_def nth_append length_bytes_def)
  qed (use blocks in \<open>auto simp: padded_def message_of_def nth_append message_byte_def nth_Cons'\<close>)
qed

section \<open>Loading a block\<close>

text \<open>The first \<open>k\<close> bytes of a big-endian word.\<close>

definition word_part :: "(nat \<Rightarrow> 8 word) \<Rightarrow> nat \<Rightarrow> 32 word" where
  "word_part b k = fold (\<lambda>j x. x OR push_bit (24 - j * 8) (ucast (b j))) [0..<k] 0"

lemma word_part_0: "word_part b 0 = 0"
  and word_part_Suc: "word_part b (Suc k) = word_part b k OR push_bit (24 - k * 8) (ucast (b k))"
  by (simp_all add: word_part_def)

lemma bit_word_rcat: "bit (word_rcat ws :: 32 word) n \<longleftrightarrow>
     n < 32 \<and> n div 8 < length ws \<and> bit (rev ws ! (n div 8)) (n mod 8)" for ws :: "8 word list"
  using bit_horner_sum_uint_exp_iff [of "rev ws" n] by (simp add: word_rcat_def bit_simps)

lemma word_part_whole: "word_part b 4 = word_rcat [b 0, b 1, b 2, b 3]"
proof (rule bit_word_eqI)
  fix n assume "n < LENGTH(32)"
  then consider "n < 8" | "8 \<le> n" "n < 16" | "16 \<le> n" "n < 24" | "24 \<le> n" "n < 32"
    by fastforce
  moreover have "word_part b 4 = ((push_bit 24 (ucast (b 0)) OR push_bit 16 (ucast (b 1))) OR push_bit 8 (ucast (b 2))) OR ucast (b 3)"
  proof -
    have "[0..<4] = [0, 1, 2, 3 :: nat]"
      by (simp add: upt_rec)
    then show ?thesis
      by (simp add: word_part_def)
  qed
  ultimately show "bit (word_part b 4) n \<longleftrightarrow> bit (word_rcat [b 0, b 1, b 2, b 3] :: 32 word) n"
    by cases (auto simp: bit_simps bit_word_rcat nth_Cons' div_nat_eqI mod_if
        dest: bit_imp_le_length)
qed

lemma load_prefix:
  assumes "n \<le> 64"
  shows "length (fold (load_byte input block) [0..<n] (replicate 64 0)) = 64 \<and>
     (\<forall>t < 64. fold (load_byte input block) [0..<n] (replicate 64 0) ! t = word_part (\<lambda>j. message_byte input (block * 64 + (4 * t + j))) (min 4 (n - 4 * t)))"
  using assms
proof (induction n)
  case 0
  then show ?case by (simp add: word_part_0)
next
  case (Suc n)
  define w' where "w' = fold (load_byte input block) [0..<n] (replicate 64 0)"
  have prev: "length w' = 64"
    "\<And>t. t < 64 \<Longrightarrow> w' ! t = word_part (\<lambda>j. message_byte input (block * 64 + (4 * t + j))) (min 4 (n - 4 * t))"
    using Suc by (simp_all add: w'_def)
  have n: "n = 4 * (n div 4) + n mod 4" "n mod 4 < 4" "n div 4 < 64"
    using Suc.prems by auto
  have "(load_byte input block n w') ! t = word_part (\<lambda>j. message_byte input (block * 64 + (4 * t + j))) (min 4 (Suc n - 4 * t))"
    if "t < 64" for t
  proof (cases "t = n div 4")
    case True
    then have "min 4 (n - 4 * t) = n mod 4" "min 4 (Suc n - 4 * t) = Suc (n mod 4)" "4 * t + n mod 4 = n"
      using n by linarith+
    then show ?thesis
      using prev(1) prev(2) [of t] that True n(3) by (simp add: load_byte_def word_part_Suc)
  next
    case False
    then have "min 4 (Suc n - 4 * t) = min 4 (n - 4 * t)"
      using n by linarith
    then show ?thesis
      using prev(1) prev(2) [of t] that False by (simp add: load_byte_def)
  qed
  moreover have "length (load_byte input block n w') = 64"
    using prev(1) by (simp add: load_byte_def)
  moreover have "fold (load_byte input block) [0..<Suc n] (replicate 64 0) = load_byte input block n w'"
    by (simp add: w'_def)
  ultimately show ?case
    by simp
qed

lemma take_four: "i + 4 \<le> length xs \<Longrightarrow> take 4 (drop i xs) = [xs ! i, xs ! (i + 1), xs ! (i + 2), xs ! (i + 3)]"
  by (simp add: Cons_nth_drop_Suc [symmetric] numeral_eq_Suc)

lemma load_block_words:
  assumes "t < 16" "block < block_count input"
  shows "load_block input block ! t = block_word (padded (message_of input)) block t"
proof -
  let ?b = "\<lambda>j. padded (message_of input) ! (64 * block + 4 * t + j)"
  have room: "64 * block + 4 * t + 4 \<le> 64 * block_count input"
  proof -
    have "64 * block + 64 \<le> 64 * block_count input"
      using assms(2) by simp
    then show ?thesis
      using assms(1) by linarith
  qed
  then have "?b j = message_byte input (block * 64 + (4 * t + j))" if "j < 4" for j
    using padded_nth [of "64 * block + 4 * t + j" input] that by (simp add: algebra_simps)
  then have bytes: "map ?b [0, 1, 2, 3] = map (\<lambda>j. message_byte input (block * 64 + (4 * t + j))) [0, 1, 2, 3]"
    by (simp only: list.map)
  have "load_block input block ! t = word_rcat (map (\<lambda>j. message_byte input (block * 64 + (4 * t + j))) [0, 1, 2, 3])"
    using load_prefix [of 64 input block] assms(1) by (simp add: load_block_def word_part_whole)
  then have "load_block input block ! t = word_rcat [?b 0, ?b 1, ?b 2, ?b 3]"
    unfolding bytes [symmetric] by simp
  moreover have "take 4 (drop (64 * block + 4 * t) (padded (message_of input))) = [?b 0, ?b 1, ?b 2, ?b 3]"
    using room by (subst take_four) (auto simp: length_padded block_count_def message_of_def)
  ultimately show ?thesis
    by (simp add: block_word_def)
qed

section \<open>The schedule and the rounds\<close>

lemma schedule_prefix:
  assumes "n \<le> 64" "16 \<le> n" "block < block_count input"
  shows "length (fold extend_word [16..<n] (load_block input block)) = 64 \<and>
     (\<forall>t < n. fold extend_word [16..<n] (load_block input block) ! t = schedule (block_word (padded (message_of input)) block) t)"
  using assms(2,1)
proof (induction n rule: dec_induct)
  case base
  have "length (load_block input block) = 64"
    using load_prefix [of 64 input block] by (simp add: load_block_def)
  then show ?case
    using load_block_words [OF _ assms(3)] by (simp add: schedule.simps)
next
  case (step n)
  define w' where "w' = fold extend_word [16..<n] (load_block input block)"
  have prev: "length w' = 64" "\<And>t. t < n \<Longrightarrow> w' ! t = schedule (block_word (padded (message_of input)) block) t"
    using step by (simp_all add: w'_def)
  have "extend_word n w' ! t = schedule (block_word (padded (message_of input)) block) t" if "t < Suc n" for t
  proof (cases "t = n")
    case True
    have "schedule (block_word (padded (message_of input)) block) n =
        small_sigma1 (w' ! (n - 2)) + w' ! (n - 7) + small_sigma0 (w' ! (n - 15)) + w' ! (n - 16)"
      using step(1) by (subst schedule.simps) (simp add: prev(2))
    then show ?thesis
      using True prev(1) step(3) step.prems
      by (simp add: extend_word_def rotr_is_rotation small_sigma0_def small_sigma1_def ac_simps)
  next
    case False
    then show ?thesis
      using prev that by (simp add: extend_word_def)
  qed
  moreover have "length (extend_word n w') = 64"
    using prev(1) by (simp add: extend_word_def)
  moreover have "fold extend_word [16..<Suc n] (load_block input block) = extend_word n w'"
    using step(1) by (simp add: w'_def)
  ultimately show ?case
    by simp
qed

lemma one_round_standard: "w ! i = m i \<Longrightarrow> one_round w i s = standard_round m i s"
  by (simp add: one_round_def standard_round_def rotr_is_rotation ch_def maj_def big_sigma0_def big_sigma1_def)

lemma hash_block_standard:
  assumes "block < block_count input"
  shows "hash_block input block h = standard_block (padded (message_of input)) block h"
proof -
  have "fold (one_round (block_words input block)) [0..<64] (start_vars h) =
      fold (standard_round (schedule (block_word (padded (message_of input)) block))) [0..<64] (start_vars h)"
    using schedule_prefix [of 64, OF _ _ assms] by (intro fold_cong) (auto simp: block_words_def intro!: one_round_standard)
  then show ?thesis
    by (simp add: hash_block_def standard_block_def)
qed

lemma sha256_standard: "sha256 input = standard_sha256 (message_of input)"
proof -
  have "length (padded (message_of input)) div 64 = block_count input"
    by (simp add: length_padded block_count_def message_of_def)
  then show ?thesis
    by (auto simp: sha256_def standard_sha256_def hash_block_standard intro!: fold_cong)
qed

lemma length_sha256: "length (sha256 input) = 8"
proof -
  have "length (fold (hash_block input) xs h) = 8" if "length h = 8" for xs h
    using that by (induction xs arbitrary: h) (simp_all add: hash_block_def add_vars_def)
  then show ?thesis
    by (simp add: sha256_def initial_hash_def)
qed

section \<open>The digest\<close>

lemma hex_digit_lower: "hex_digit (n mod 16) \<in> set ''0123456789abcdef''"
proof -
  have "n mod 16 \<in> set [0..<16]"
    by simp
  moreover have "list_all (\<lambda>d. hex_digit d \<in> set ''0123456789abcdef'') [0..<16]"
    by code_simp
  ultimately show ?thesis
    by (simp add: list_all_iff del: set_upt)
qed

lemma hex_fixed_lower: "c \<in> set (hex_fixed k n) \<Longrightarrow> c \<in> set ''0123456789abcdef''"
proof (induction k arbitrary: n)
  case (Suc k)
  have "c \<in> set (hex_fixed k (n div 16)) \<or> c = hex_digit (n mod 16)"
    using Suc.prems by auto
  then show ?case
    using Suc.IH hex_digit_lower by blast
qed simp

text \<open>
  (C21) The digest is the one of the standard, for every sequence of bytes: sixty-four lowercase hexadecimal
  digits, the eight words of the hash of the padded message. Padding, the order of the bytes, the
  schedule, the rounds and the wrap-around of every sum are those of FIPS 180-4.
\<close>

theorem digest_is_sha256:
  "sha256_hex input = concat (map (\<lambda>v. hex_fixed 8 (unat v)) (standard_sha256 (message_of input))) \<and>
     length (sha256_hex input) = 64 \<and> set (sha256_hex input) \<subseteq> set ''0123456789abcdef''"
proof -
  have "length (concat (map (\<lambda>v. hex_fixed 8 (unat v)) ws)) = 8 * length ws" for ws :: "32 word list"
    by (induction ws) simp_all
  then have "length (sha256_hex input) = 64"
    using length_sha256 [of input] by (simp add: sha256_hex_def)
  moreover have "set (sha256_hex input) \<subseteq> set ''0123456789abcdef''"
    using hex_fixed_lower unfolding sha256_hex_def set_concat set_map by blast
  ultimately show ?thesis
    by (simp add: sha256_hex_def sha256_standard)
qed

end
