(* ===== verification/Capture_Cache.thy ===== *)
theory Capture_Cache
  imports Didi_Json "HOL-Library.Multiset"
begin

text \<open>
  The frames a viewport capture leaves behind: \<open>src/common/capture_cache.cpp\<close>, its header and the size check
  of \<open>src/common/image_diff.cpp\<close>. Frames are kept by identifier within a budget of entries and
  bytes, and the least recently used goes first. The use clock and the byte counts are natural numbers;
  the table is an \<open>unordered_map\<close>, of which the smallest last use is asked, and no two are equal.
\<close>

section \<open>Images\<close>

definition k_max_capture_dimension :: int where "k_max_capture_dimension = 2048"

record image =
  im_width :: int
  im_height :: int
  im_rgba :: "nat list"

definition checked_rgba_size :: "int \<Rightarrow> int \<Rightarrow> (refusal, nat) result" where
  "checked_rgba_size width height =
     (if width < 1 \<or> height < 1 \<or> width > k_max_capture_dimension \<or> height > k_max_capture_dimension
      then Inl (invalid_argument ''Image dimensions must be from 1 to 2048 pixels'')
      else if nat width * nat height > (2 ^ 64 - 1) div 4
      then Inl (invalid_argument ''Image dimensions overflow RGBA storage'')
      else Inr (nat width * nat height * 4))"

section \<open>The cache\<close>

record cache_entry =
  ce_pixels :: image
  ce_last_used :: nat

record capture_cache =
  ch_max_entries :: nat
  ch_max_bytes :: nat
  ch_bytes :: nat
  ch_clock :: nat
  ch_entries :: "(string, cache_entry) store"

definition new_cache :: "nat \<Rightarrow> nat \<Rightarrow> capture_cache" where
  "new_cache entries bytes =
     \<lparr>ch_max_entries = entries, ch_max_bytes = bytes, ch_bytes = 0, ch_clock = 0, ch_entries = []\<rparr>"

definition valid_capture_id :: "string \<Rightarrow> bool" where
  "valid_capture_id s =
     (length s = 32 \<and> list_all (\<lambda>c. (48 \<le> byte c \<and> byte c \<le> 57) \<or> (97 \<le> byte c \<and> byte c \<le> 102)) s)"

abbreviation frame_bytes :: "cache_entry \<Rightarrow> nat" where
  "frame_bytes e \<equiv> length (im_rgba (ce_pixels e))"

definition drop_frame :: "string \<Rightarrow> cache_entry \<Rightarrow> capture_cache \<Rightarrow> capture_cache" where
  "drop_frame k e c = c\<lparr>ch_bytes := ch_bytes c - frame_bytes e, ch_entries := kv_del k (ch_entries c)\<rparr>"

fun oldest :: "(string \<times> cache_entry) list \<Rightarrow> (string \<times> cache_entry) option" where
  "oldest [] = None"
| "oldest (x # xs) =
     (case oldest xs of
        None \<Rightarrow> Some x
      | Some y \<Rightarrow> if ce_last_used (snd y) < ce_last_used (snd x) then Some y else Some x)"

lemma oldest_in: "oldest xs = Some x \<Longrightarrow> x \<in> set xs"
  by (induction xs arbitrary: x) (auto split: option.splits if_splits)

lemma oldest_Some: "xs \<noteq> [] \<Longrightarrow> \<exists>k e. oldest xs = Some (k, e)"
  by (cases xs) (auto split: option.splits)

lemma oldest_least: "oldest xs = Some x \<Longrightarrow> y \<in> set xs \<Longrightarrow> ce_last_used (snd x) \<le> ce_last_used (snd y)"
proof (induction xs arbitrary: x)
  case (Cons a xs)
  show ?case
  proof (cases "oldest xs")
    case None
    then have "xs = []"
      using oldest_Some by fastforce
    then show ?thesis using Cons.prems by simp
  next
    case (Some z)
    then show ?thesis
      using Cons.IH [OF Some] Cons.prems by (cases "y = a") (auto split: if_splits)
  qed
qed simp

function evict_to_fit :: "nat \<Rightarrow> capture_cache \<Rightarrow> capture_cache" where
  "evict_to_fit expected c =
     (case oldest (ch_entries c) of
        None \<Rightarrow> c
      | Some (k, e) \<Rightarrow>
          if length (ch_entries c) \<ge> ch_max_entries c \<or> ch_bytes c + expected > ch_max_bytes c
          then evict_to_fit expected (drop_frame k e c) else c)"
  by pat_completeness auto
termination
proof (relation "measure (\<lambda>(expected, c). length (ch_entries c))", goal_cases)
  case (2 expected c ke k e)
  then have "(k, e) \<in> set (ch_entries c)"
    by (simp add: oldest_in)
  then show ?case
    by (auto simp: drop_frame_def kv_del_def intro!: length_filter_less)
qed simp

declare evict_to_fit.simps [simp del]

definition store_frame :: "string \<Rightarrow> image \<Rightarrow> capture_cache \<Rightarrow> (refusal, unit) result \<times> capture_cache" where
  "store_frame capture_id pixels c =
     (if \<not> valid_capture_id capture_id
      then (Inl (invalid_argument ''capture_id must contain exactly 32 lowercase hexadecimal characters''), c)
      else
        case checked_rgba_size (im_width pixels) (im_height pixels) of
          Inl e \<Rightarrow> (Inl e, c)
        | Inr expected \<Rightarrow>
            if length (im_rgba pixels) \<noteq> expected
            then (Inl (invalid_argument ''Capture RGBA storage does not match its dimensions''), c)
            else if ch_max_entries c = 0 \<or> expected > ch_max_bytes c
            then (Inl (invalid_argument ''Capture exceeds the configured cache budget''), c)
            else
              let without = (case kv_get (ch_entries c) capture_id of Some e \<Rightarrow> drop_frame capture_id e c | None \<Rightarrow> c);
                  room = evict_to_fit expected without
              in (Inr (), room\<lparr>ch_clock := ch_clock room + 1,
                    ch_entries := kv_put capture_id \<lparr>ce_pixels = pixels, ce_last_used = ch_clock room + 1\<rparr> (ch_entries room),
                    ch_bytes := ch_bytes room + expected\<rparr>))"

definition find_frame :: "string \<Rightarrow> capture_cache \<Rightarrow> image option \<times> capture_cache" where
  "find_frame capture_id c =
     (if \<not> valid_capture_id capture_id then (None, c)
      else
        case kv_get (ch_entries c) capture_id of
          None \<Rightarrow> (None, c)
        | Some e \<Rightarrow>
            (Some (ce_pixels e),
             c\<lparr>ch_clock := ch_clock c + 1,
               ch_entries := kv_put capture_id (e\<lparr>ce_last_used := ch_clock c + 1\<rparr>) (ch_entries c)\<rparr>))"

definition contains_frame :: "string \<Rightarrow> capture_cache \<Rightarrow> bool" where
  "contains_frame capture_id c = (valid_capture_id capture_id \<and> kv_has (ch_entries c) capture_id)"

datatype cache_call = Store_Frame string image | Find_Frame string

fun cache_step :: "cache_call \<Rightarrow> capture_cache \<Rightarrow> capture_cache" where
  "cache_step (Store_Frame k p) c = snd (store_frame k p c)"
| "cache_step (Find_Frame k) c = snd (find_frame k c)"

section \<open>What a cache of recent frames is\<close>

text \<open>
  The specification: the frames from the most to the least recently used. What is stored goes to the front, and
  the others stay as long as they fit the budget.
\<close>

type_synonym recent = "(string \<times> image) list"

fun fit :: "nat \<Rightarrow> nat \<Rightarrow> recent \<Rightarrow> recent" where
  "fit n b [] = []"
| "fit n b ((k, p) # r) = (if n = 0 \<or> length (im_rgba p) > b then [] else (k, p) # fit (n - 1) (b - length (im_rgba p)) r)"

definition storable :: "nat \<Rightarrow> nat \<Rightarrow> string \<Rightarrow> image \<Rightarrow> bool" where
  "storable n b k p \<longleftrightarrow>
     valid_capture_id k \<and> 1 \<le> im_width p \<and> im_width p \<le> 2048 \<and> 1 \<le> im_height p \<and> im_height p \<le> 2048 \<and>
     length (im_rgba p) = 4 * (nat (im_width p) * nat (im_height p)) \<and> 0 < n \<and> length (im_rgba p) \<le> b"

fun recent_step :: "nat \<Rightarrow> nat \<Rightarrow> cache_call \<Rightarrow> recent \<Rightarrow> recent" where
  "recent_step n b (Store_Frame k p) r =
     (if storable n b k p then fit n b ((k, p) # filter (\<lambda>x. fst x \<noteq> k) r) else r)"
| "recent_step n b (Find_Frame k) r =
     (case map_of r k of Some p \<Rightarrow> (k, p) # filter (\<lambda>x. fst x \<noteq> k) r | None \<Rightarrow> r)"

definition recent_bytes :: "recent \<Rightarrow> nat" where
  "recent_bytes r = sum_list (map (\<lambda>x. length (im_rgba (snd x))) r)"

lemma recent_bytes_simps [simp]:
  "recent_bytes [] = 0" "recent_bytes (x # r) = length (im_rgba (snd x)) + recent_bytes r"
  "recent_bytes (r @ s) = recent_bytes r + recent_bytes s" "recent_bytes (rev r) = recent_bytes r"
  by (simp_all add: recent_bytes_def rev_map [symmetric])

lemma fit_all: "length r \<le> n \<Longrightarrow> recent_bytes r \<le> b \<Longrightarrow> fit n b r = r"
  by (induction n b r rule: fit.induct) auto

lemma fit_snoc: "length (r @ [x]) > n \<or> recent_bytes (r @ [x]) > b \<Longrightarrow> fit n b (r @ [x]) = fit n b r"
proof (induction n b r rule: fit.induct)
  case (1 n b)
  then show ?case by (cases x) auto
next
  case (2 n b k p r)
  show ?case
  proof (cases "n = 0 \<or> length (im_rgba p) > b")
    case False
    then have "n - 1 < length (r @ [x]) \<or> recent_bytes (r @ [x]) > b - length (im_rgba p)"
      using 2(2) by auto
    then show ?thesis using 2(1) [OF False] False by simp
  qed auto
qed

lemma fit_bounds: "length (fit n b r) \<le> n \<and> recent_bytes (fit n b r) \<le> b"
proof (induction n b r rule: fit.induct)
  case (2 n b k p r)
  then show ?case by (cases "n = 0 \<or> length (im_rgba p) > b") auto
qed simp

lemma fit_subset: "set (fit n b r) \<subseteq> set r"
  by (induction n b r rule: fit.induct) auto

section \<open>The cache refines it\<close>

abbreviation use :: "string \<times> cache_entry \<Rightarrow> nat" where
  "use x \<equiv> ce_last_used (snd x)"

definition frame_of :: "string \<times> cache_entry \<Rightarrow> string \<times> image" where
  "frame_of x = (fst x, ce_pixels (snd x))"

definition recency :: "capture_cache \<Rightarrow> recent" where
  "recency c = rev (map frame_of (sort_key use (ch_entries c)))"

definition uses_ok :: "capture_cache \<Rightarrow> bool" where
  "uses_ok c \<longleftrightarrow>
     kv_ok (ch_entries c) \<and> inj_on use (set (ch_entries c)) \<and> (\<forall>x \<in> set (ch_entries c). use x \<le> ch_clock c) \<and>
     (\<forall>x \<in> set (ch_entries c). valid_capture_id (fst x)) \<and> ch_bytes c = recent_bytes (recency c)"

lemma mset_kv_put: "kv_ok m \<Longrightarrow> mset (kv_put k v m) = add_mset (k, v) (mset (kv_del k m))"
proof (induction k v m rule: kv_put.induct)
  case (2 k v j w m)
  show ?case
  proof (cases "k = j")
    case True
    then have "kv_del k m = m"
      using 2(2) by (auto simp: kv_del_def filter_id_conv)
    then show ?thesis using True by (simp add: kv_del_def)
  next
    case False
    show ?thesis
    proof (cases "k < j")
      case True
      then have "kv_del k m = m"
        using 2(2) by (fastforce simp: kv_del_def filter_id_conv)
      then show ?thesis using True False by (simp add: kv_del_def)
    next
      case n: False
      then show ?thesis using 2 False by (simp add: kv_del_def)
    qed
  qed
qed (simp add: kv_del_def)

lemma filter_recency: "filter (\<lambda>x. fst x \<noteq> k) (recency c) = rev (map frame_of (sort_key use (kv_del k (ch_entries c))))"
proof -
  have "(\<lambda>x. fst x \<noteq> k) \<circ> frame_of = (\<lambda>x. fst x \<noteq> k)"
    by (auto simp: frame_of_def)
  then show ?thesis
    by (simp add: recency_def kv_del_def rev_filter [symmetric] filter_map filter_sort)
qed

lemma recency_length: "length (recency c) = length (ch_entries c)"
  by (simp add: recency_def)

lemma recency_keys: "fst ` set (recency c) = set (keys (ch_entries c))"
  by (force simp: recency_def frame_of_def)

lemma recency_distinct:
  assumes "kv_ok (ch_entries c)"
  shows "distinct (map fst (recency c))"
proof -
  have "map fst (recency c) = rev (map fst (sort_key use (ch_entries c)))"
    by (simp add: recency_def frame_of_def rev_map comp_def)
  moreover have "mset (map fst (sort_key use (ch_entries c))) = mset (keys (ch_entries c))"
    by simp
  ultimately show ?thesis
    using kv_ok_distinct [OF assms] by (metis distinct_rev mset_eq_imp_distinct_iff)
qed

lemma map_of_recency:
  assumes "kv_ok (ch_entries c)"
  shows "map_of (recency c) k = map_option ce_pixels (kv_get (ch_entries c) k)"
proof (cases "kv_get (ch_entries c) k")
  case None
  then have "k \<notin> fst ` set (recency c)"
    by (simp add: kv_get_keys recency_keys del: set_map)
  then show ?thesis
    using None by (simp add: map_of_eq_None_iff)
next
  case (Some e)
  have "(k, ce_pixels e) \<in> set (recency c)"
    using kv_get_in [OF Some] by (force simp: recency_def frame_of_def)
  then show ?thesis
    using Some recency_distinct [OF assms] by (simp add: map_of_is_SomeI)
qed

lemma recent_bytes_filter:
  "distinct (map fst r) \<Longrightarrow> map_of r k = Some p \<Longrightarrow>
     recent_bytes (filter (\<lambda>x. fst x \<noteq> k) r) + length (im_rgba p) = recent_bytes r"
proof (induction r)
  case (Cons x r)
  show ?case
  proof (cases "fst x = k")
    case True
    then have "filter (\<lambda>x. fst x \<noteq> k) r = r"
      using Cons.prems(1) by (intro filter_True) (auto simp: image_iff)
    then show ?thesis using True Cons.prems(2) by (cases x) simp
  next
    case False
    then show ?thesis using Cons by (cases x) auto
  qed
qed simp

lemma drop_frame_ok:
  assumes "uses_ok c" "kv_get (ch_entries c) k = Some e"
  shows "uses_ok (drop_frame k e c) \<and> recency (drop_frame k e c) = filter (\<lambda>x. fst x \<noteq> k) (recency c)"
proof -
  have ok: "kv_ok (ch_entries c)"
    using assms(1) by (simp add: uses_ok_def)
  have after: "recency (drop_frame k e c) = filter (\<lambda>x. fst x \<noteq> k) (recency c)"
    unfolding filter_recency by (simp add: recency_def drop_frame_def)
  have "recent_bytes (recency (drop_frame k e c)) + frame_bytes e = recent_bytes (recency c)"
    unfolding after using recent_bytes_filter [OF recency_distinct [OF ok]] map_of_recency [OF ok] assms(2) by simp
  then show ?thesis
    using after assms(1) by (auto simp: uses_ok_def drop_frame_def kv_del_def inj_on_def)
qed

text \<open>The entry that is dropped to make room is the last of the recent ones.\<close>

lemma oldest_is_last:
  assumes "uses_ok c" "oldest (ch_entries c) = Some (k, e)"
  shows "\<exists>r. recency c = r @ [(k, ce_pixels e)] \<and> recency (drop_frame k e c) = r"
proof -
  let ?m = "ch_entries c" and ?rest = "sort_key use (kv_del k (ch_entries c))"
  have ok: "kv_ok ?m" "inj_on use (set ?m)"
    using assms(1) by (simp_all add: uses_ok_def)
  have here: "(k, e) \<in> set ?m"
    using oldest_in [OF assms(2)] .
  then have "kv_put k e ?m = ?m"
    using ok(1) by (metis kv_get_iff kv_get_inject kv_get_put kv_ok_put)
  then have "mset ?m = add_mset (k, e) (mset (kv_del k ?m))"
    using mset_kv_put [OF ok(1), of k e] by simp
  then have "sort_key use ?m = (k, e) # ?rest"
    using ok(2) oldest_least [OF assms(2)]
    by (intro sort_key_inj_key_eq) (auto simp: kv_del_def)
  then show ?thesis
    by (simp add: recency_def drop_frame_def frame_of_def)
qed

lemma evict_to_fit_ok:
  assumes "uses_ok c" "0 < ch_max_entries c" "expected \<le> ch_max_bytes c"
  shows "uses_ok (evict_to_fit expected c) \<and>
     recency (evict_to_fit expected c) = fit (ch_max_entries c - 1) (ch_max_bytes c - expected) (recency c) \<and>
     ch_max_entries (evict_to_fit expected c) = ch_max_entries c \<and> ch_max_bytes (evict_to_fit expected c) = ch_max_bytes c \<and>
     ch_clock (evict_to_fit expected c) = ch_clock c"
  using assms
proof (induction expected c rule: evict_to_fit.induct)
  case (1 expected c)
  have bytes: "ch_bytes c = recent_bytes (recency c)" and ok: "kv_ok (ch_entries c)"
    using 1(2) by (simp_all add: uses_ok_def)
  show ?case
  proof (cases "ch_entries c = []")
    case True
    then show ?thesis
      using 1(2) by (subst (1 2 3 4 5) evict_to_fit.simps) (simp add: recency_def)
  next
    case False
    then obtain k e where old: "oldest (ch_entries c) = Some (k, e)"
      using oldest_Some by blast
    obtain r where r: "recency c = r @ [(k, ce_pixels e)]" "recency (drop_frame k e c) = r"
      using oldest_is_last [OF 1(2) old] by blast
    show ?thesis
    proof (cases "length (ch_entries c) \<ge> ch_max_entries c \<or> ch_bytes c + expected > ch_max_bytes c")
      case True
      have step: "evict_to_fit expected c = evict_to_fit expected (drop_frame k e c)"
        using old True by (subst evict_to_fit.simps) simp
      have "kv_get (ch_entries c) k = Some e"
        using oldest_in [OF old] ok by (simp add: kv_get_iff)
      then have "uses_ok (drop_frame k e c)"
        using drop_frame_ok [OF 1(2)] by blast
      moreover have "fit (ch_max_entries c - 1) (ch_max_bytes c - expected) (recency c) =
          fit (ch_max_entries c - 1) (ch_max_bytes c - expected) r"
        unfolding r(1) using True 1(3,4) bytes recency_length [of c] unfolding r(1) by (intro fit_snoc) auto
      ultimately show ?thesis
        using 1(1) [OF old refl True] 1(3,4) r(2) unfolding step by (simp add: drop_frame_def)
    next
      case fits: False
      then have "evict_to_fit expected c = c"
        using old by (subst evict_to_fit.simps) simp
      moreover have "fit (ch_max_entries c - 1) (ch_max_bytes c - expected) (recency c) = recency c"
        using fits bytes recency_length [of c] by (intro fit_all) auto
      ultimately show ?thesis
        using 1(2) by simp
    qed
  qed
qed

lemma inj_put:
  assumes "inj_on use (set m)" "\<forall>x \<in> set m. use x < ce_last_used e"
  shows "inj_on use (set (kv_put k e m))"
proof -
  have "inj_on use (insert (k, e) (set m))"
    using assms by (fastforce simp: inj_on_def)
  then show ?thesis
    using set_kv_put by (rule inj_on_subset)
qed

text \<open>A frame put with the newest use is the most recent one, and the others keep their order.\<close>

lemma recency_put:
  assumes "kv_ok m" "inj_on use (set m)" "\<forall>x \<in> set m. use x < ce_last_used e"
  shows "rev (map frame_of (sort_key use (kv_put k e m))) =
     (k, ce_pixels e) # rev (map frame_of (sort_key use (kv_del k m)))"
proof -
  have "sort_key use (kv_put k e m) = sort_key use (kv_del k m) @ [(k, e)]"
  proof (rule sort_key_inj_key_eq)
    show "mset (kv_put k e m) = mset (sort_key use (kv_del k m) @ [(k, e)])"
      using mset_kv_put [OF assms(1)] by simp
    show "inj_on use (set (kv_put k e m))"
      using assms(2,3) by (rule inj_put)
    show "sorted (map use (sort_key use (kv_del k m) @ [(k, e)]))"
      using assms(3) by (auto simp: sorted_append kv_del_def less_imp_le)
  qed
  then show ?thesis
    by (simp add: frame_of_def)
qed

lemma put_frame_ok:
  assumes "uses_ok c" "valid_capture_id k" "bytes = length (im_rgba p) + recent_bytes (filter (\<lambda>x. fst x \<noteq> k) (recency c))"
  defines "e \<equiv> \<lparr>ce_pixels = p, ce_last_used = ch_clock c + 1\<rparr>"
  shows "uses_ok (c\<lparr>ch_clock := ch_clock c + 1, ch_entries := kv_put k e (ch_entries c), ch_bytes := bytes\<rparr>) \<and>
     recency (c\<lparr>ch_clock := ch_clock c + 1, ch_entries := kv_put k e (ch_entries c), ch_bytes := bytes\<rparr>) =
       (k, p) # filter (\<lambda>x. fst x \<noteq> k) (recency c)"
proof -
  have ok: "kv_ok (ch_entries c)" "inj_on use (set (ch_entries c))" "\<forall>x \<in> set (ch_entries c). use x < ce_last_used e"
    using assms(1) by (auto simp: uses_ok_def e_def less_Suc_eq_le)
  have order: "recency (c\<lparr>ch_clock := ch_clock c + 1, ch_entries := kv_put k e (ch_entries c), ch_bytes := bytes\<rparr>) =
      (k, p) # filter (\<lambda>x. fst x \<noteq> k) (recency c)"
    using recency_put [OF ok, of k] unfolding filter_recency by (simp add: recency_def e_def)
  have within: "set (kv_put k e (ch_entries c)) \<subseteq> insert (k, e) (set (ch_entries c))"
    by (rule set_kv_put)
  have "inj_on use (set (kv_put k e (ch_entries c)))"
    using ok(2,3) by (rule inj_put)
  moreover have "\<forall>x \<in> set (kv_put k e (ch_entries c)). use x \<le> ch_clock c + 1 \<and> valid_capture_id (fst x)"
    using within assms(1,2) by (fastforce simp: uses_ok_def e_def)
  ultimately show ?thesis
    using ok(1) order assms(3) by (simp add: uses_ok_def)
qed

text \<open>An image of the size that is allowed never reaches the bound on its storage.\<close>

lemma checked_size:
  "checked_rgba_size w h =
     (if 1 \<le> w \<and> w \<le> 2048 \<and> 1 \<le> h \<and> h \<le> 2048 then Inr (nat w * nat h * 4)
      else Inl (invalid_argument ''Image dimensions must be from 1 to 2048 pixels''))"
proof -
  have "nat w * nat h \<le> 2048 * 2048" if "w \<le> 2048" "h \<le> 2048"
    using that by (intro mult_le_mono) auto
  then show ?thesis
    by (cases "w \<le> 2048"; cases "h \<le> 2048") (auto simp: checked_rgba_size_def k_max_capture_dimension_def)
qed

lemma storable_cases:
  "storable (ch_max_entries c) (ch_max_bytes c) k p \<longleftrightarrow> is_ok (fst (store_frame k p c))"
  by (auto simp: storable_def store_frame_def checked_size Let_def split: if_splits)

lemma store_frame_ok:
  assumes "uses_ok c" "storable (ch_max_entries c) (ch_max_bytes c) k p"
  shows "uses_ok (snd (store_frame k p c)) \<and>
     recency (snd (store_frame k p c)) = fit (ch_max_entries c) (ch_max_bytes c) ((k, p) # filter (\<lambda>x. fst x \<noteq> k) (recency c)) \<and>
     ch_max_entries (snd (store_frame k p c)) = ch_max_entries c \<and> ch_max_bytes (snd (store_frame k p c)) = ch_max_bytes c"
proof -
  let ?size = "length (im_rgba p)"
  define without where "without = (case kv_get (ch_entries c) k of Some e \<Rightarrow> drop_frame k e c | None \<Rightarrow> c)"
  define room where "room = evict_to_fit ?size without"
  have fits: "valid_capture_id k" "0 < ch_max_entries c" "?size \<le> ch_max_bytes c"
    using assms(2) by (simp_all add: storable_def)
  have without: "uses_ok without" "recency without = filter (\<lambda>x. fst x \<noteq> k) (recency c)"
    "ch_max_entries without = ch_max_entries c" "ch_max_bytes without = ch_max_bytes c"
  proof -
    have "filter (\<lambda>x. fst x \<noteq> k) (recency c) = recency c" if "kv_get (ch_entries c) k = None"
      using that recency_keys [of c] by (intro filter_True) (auto simp: kv_get_keys)
    then show "uses_ok without" "recency without = filter (\<lambda>x. fst x \<noteq> k) (recency c)"
      using drop_frame_ok [OF assms(1)] assms(1) by (auto simp: without_def split: option.splits)
  qed (auto simp: without_def drop_frame_def split: option.splits)
  have room: "uses_ok room" "recency room = fit (ch_max_entries c - 1) (ch_max_bytes c - ?size) (recency without)"
    "ch_max_entries room = ch_max_entries c" "ch_max_bytes room = ch_max_bytes c"
    using evict_to_fit_ok [OF without(1), of ?size] fits without(3,4) by (simp_all add: room_def)
  have "set (recency room) \<subseteq> set (recency without)"
    using fit_subset unfolding room(2) .
  then have gone: "filter (\<lambda>x. fst x \<noteq> k) (recency room) = recency room"
    unfolding without(2) by (intro filter_True) auto
  have "ch_bytes room + ?size = ?size + recent_bytes (filter (\<lambda>x. fst x \<noteq> k) (recency room))"
    using room(1) gone by (simp add: uses_ok_def)
  note put = put_frame_ok [OF room(1) fits(1) this]
  have "snd (store_frame k p c) = room\<lparr>ch_clock := ch_clock room + 1,
      ch_entries := kv_put k \<lparr>ce_pixels = p, ce_last_used = ch_clock room + 1\<rparr> (ch_entries room), ch_bytes := ch_bytes room + ?size\<rparr>"
    using assms(2) unfolding storable_cases room_def without_def
    by (auto simp: store_frame_def checked_size Let_def split: if_splits)
  then show ?thesis
    using put gone room without(2) fits by simp
qed

lemma find_frame_ok:
  assumes "uses_ok c"
  shows "uses_ok (snd (find_frame k c)) \<and>
     recency (snd (find_frame k c)) = recent_step n b (Find_Frame k) (recency c) \<and>
     fst (find_frame k c) = map_of (recency c) k \<and>
     ch_max_entries (snd (find_frame k c)) = ch_max_entries c \<and> ch_max_bytes (snd (find_frame k c)) = ch_max_bytes c"
proof (cases "kv_get (ch_entries c) k")
  case None
  then show ?thesis
    using assms map_of_recency [of c k] by (simp add: find_frame_def uses_ok_def)
next
  case (Some e)
  have ok: "kv_ok (ch_entries c)" and bytes: "ch_bytes c = recent_bytes (recency c)"
    using assms by (simp_all add: uses_ok_def)
  have valid: "valid_capture_id k"
    using kv_get_in [OF Some] assms by (fastforce simp: uses_ok_def)
  have held: "map_of (recency c) k = Some (ce_pixels e)"
    using map_of_recency [OF ok] Some by simp
  have "ch_bytes c = frame_bytes e + recent_bytes (filter (\<lambda>x. fst x \<noteq> k) (recency c))"
    using recent_bytes_filter [OF recency_distinct [OF ok] held] bytes by simp
  note put = put_frame_ok [OF assms valid this]
  have "find_frame k c = (Some (ce_pixels e), c\<lparr>ch_clock := ch_clock c + 1,
      ch_entries := kv_put k \<lparr>ce_pixels = ce_pixels e, ce_last_used = ch_clock c + 1\<rparr> (ch_entries c)\<rparr>)"
    using valid Some by (cases e) (simp add: find_frame_def)
  then show ?thesis
    using put held by simp
qed

lemma find_frame_sizes:
  assumes "uses_ok c"
  shows "ch_bytes (snd (find_frame k c)) = ch_bytes c \<and> length (ch_entries (snd (find_frame k c))) = length (ch_entries c)"
  using assms by (auto simp: find_frame_def uses_ok_def length_kv_put split: option.splits)

lemma store_refused: "\<not> is_ok (fst (store_frame k p c)) \<Longrightarrow> snd (store_frame k p c) = c"
  by (auto simp: store_frame_def Let_def split: sum.splits if_splits)

definition within_budget :: "nat \<Rightarrow> nat \<Rightarrow> capture_cache \<Rightarrow> bool" where
  "within_budget n b c \<longleftrightarrow>
     uses_ok c \<and> ch_max_entries c = n \<and> ch_max_bytes c = b \<and> length (ch_entries c) \<le> n \<and> ch_bytes c \<le> b"

lemma cache_step_refines:
  assumes "within_budget n b c"
  shows "within_budget n b (cache_step call c) \<and> recency (cache_step call c) = recent_step n b call (recency c)"
proof (cases call)
  case (Store_Frame k p)
  show ?thesis
  proof (cases "storable n b k p")
    case True
    then show ?thesis
      using store_frame_ok [of c k p] assms Store_Frame fit_bounds [of n b "(k, p) # filter (\<lambda>x. fst x \<noteq> k) (recency c)"]
        recency_length [of "snd (store_frame k p c)"]
      by (simp add: within_budget_def uses_ok_def del: fit.simps)
  next
    case False
    then show ?thesis
      using store_refused [of k p c] storable_cases [of c k p] assms Store_Frame by (simp add: within_budget_def)
  qed
next
  case (Find_Frame k)
  then show ?thesis
    using find_frame_ok [of c k n b] find_frame_sizes [of c k] assms by (simp add: within_budget_def del: recent_step.simps)
qed

lemma cache_refines:
  "within_budget n b c \<Longrightarrow>
     within_budget n b (fold cache_step calls c) \<and> recency (fold cache_step calls c) = fold (recent_step n b) calls (recency c)"
proof (induction calls arbitrary: c)
  case (Cons call calls)
  then show ?case
    using cache_step_refines [of n b c call] by simp
qed simp

text \<open>
  (C19) The cache is the list of recent frames: after any calls, in whatever order, it holds exactly the frames a
  list from the most to the least recently used would hold that keeps what fits the budget, gives
  back what that list has, counts its bytes, and stays within both budgets.
\<close>

theorem cache_keeps_recent_frames:
  "let c = fold cache_step calls (new_cache n b); r = fold (recent_step n b) calls []
   in recency c = r \<and> fst (find_frame k c) = map_of r k \<and> ch_bytes c = recent_bytes r \<and> recent_bytes r \<le> b \<and>
     length (ch_entries c) = length r \<and> length r \<le> n"
proof -
  define c where "c = fold cache_step calls (new_cache n b)"
  have "within_budget n b (new_cache n b)" and none: "recency (new_cache n b) = []"
    by (simp_all add: within_budget_def uses_ok_def new_cache_def recency_def)
  then have "within_budget n b c" "recency c = fold (recent_step n b) calls []"
    using cache_refines [of n b "new_cache n b" calls] by (simp_all add: c_def)
  moreover from this(1) have "fst (find_frame k c) = map_of (recency c) k" "ch_bytes c = recent_bytes (recency c)"
    using find_frame_ok [of c k n b] by (simp_all add: within_budget_def uses_ok_def)
  ultimately show ?thesis
    using recency_length [of c] unfolding c_def [symmetric] by (simp add: within_budget_def)
qed

end
