(* ===== verification/Image_Diff.thy ===== *)
theory Image_Diff
  imports Capture_Cache
begin

unbundle bit_operations_syntax

text \<open>
  What changed between two captures: the pixel measures of \<open>src/common/image_diff.cpp\<close> and the distance of two
  perceptual hashes. A channel is a natural number below 256; sums and counts, which stay far below 64
  bits for images of at most 2048 by 2048 pixels, are natural numbers. The measures on brightness, similarity and
  the hash itself, are arithmetic on doubles and not modelled.
\<close>

section \<open>Pixels\<close>

record diff_bounds =
  db_x :: int
  db_y :: int
  db_width :: int
  db_height :: int

record pixel_diff =
  pd_width :: int
  pd_height :: int
  pd_changed_pixels :: nat
  pd_total_pixels :: nat
  pd_sums :: "nat list"
  pd_max_channel_delta :: nat
  pd_threshold :: nat
  pd_bounds :: "diff_bounds option"
  pd_diff_rgba :: "nat list"

record pixel_scan =
  ps_changed :: nat
  ps_sums :: "nat list"
  ps_max_delta :: nat
  ps_min_x :: int
  ps_min_y :: int
  ps_max_x :: int
  ps_max_y :: int
  ps_diff :: "nat list"

definition start_scan :: "int \<Rightarrow> int \<Rightarrow> nat \<Rightarrow> pixel_scan" where
  "start_scan width height bytes =
     \<lparr>ps_changed = 0, ps_sums = [0, 0, 0, 0], ps_max_delta = 0, ps_min_x = width, ps_min_y = height,
      ps_max_x = - 1, ps_max_y = - 1, ps_diff = replicate bytes 0\<rparr>"

definition channel_delta :: "image \<Rightarrow> image \<Rightarrow> nat \<Rightarrow> nat \<Rightarrow> nat" where
  "channel_delta before after offset channel =
     (let left = im_rgba before ! (offset + channel); right = im_rgba after ! (offset + channel)
      in if left > right then left - right else right - left)"

definition pixel_deltas :: "image \<Rightarrow> image \<Rightarrow> nat \<Rightarrow> nat list" where
  "pixel_deltas before after offset = map (channel_delta before after offset) [0, 1, 2, 3]"

definition mark_changed :: "int \<Rightarrow> nat \<Rightarrow> nat list \<Rightarrow> pixel_scan \<Rightarrow> pixel_scan" where
  "mark_changed width pixel deltas s =
     (let x = int (pixel mod nat width); y = int (pixel div nat width); offset = pixel * 4
      in s\<lparr>ps_changed := ps_changed s + 1,
           ps_min_x := min (ps_min_x s) x, ps_min_y := min (ps_min_y s) y,
           ps_max_x := max (ps_max_x s) x, ps_max_y := max (ps_max_y s) y,
           ps_diff := (ps_diff s)[offset := deltas ! 0, offset + 1 := deltas ! 1, offset + 2 := deltas ! 2, offset + 3 := 255]\<rparr>)"

definition scan_pixel :: "image \<Rightarrow> image \<Rightarrow> nat \<Rightarrow> nat \<Rightarrow> pixel_scan \<Rightarrow> pixel_scan" where
  "scan_pixel before after threshold pixel s =
     (let deltas = pixel_deltas before after (pixel * 4);
          seen = s\<lparr>ps_sums := map2 (+) (ps_sums s) deltas, ps_max_delta := fold max deltas (ps_max_delta s)\<rparr>
      in if list_ex (\<lambda>d. d > threshold) deltas then mark_changed (im_width before) pixel deltas seen else seen)"

definition scan_bounds :: "pixel_scan \<Rightarrow> diff_bounds option" where
  "scan_bounds s =
     (if ps_changed s > 0
      then Some \<lparr>db_x = ps_min_x s, db_y = ps_min_y s, db_width = ps_max_x s - ps_min_x s + 1,
             db_height = ps_max_y s - ps_min_y s + 1\<rparr>
      else None)"

definition diff_pixels :: "image \<Rightarrow> image \<Rightarrow> nat \<Rightarrow> (refusal, pixel_diff) result" where
  "diff_pixels before after threshold =
     (if im_width before \<noteq> im_width after \<or> im_height before \<noteq> im_height after
      then Inl \<lparr>err_code = 409, err_message = ''Baseline and comparison capture dimensions must match exactly'', err_data = JNull\<rparr>
      else
        rbind (checked_rgba_size (im_width before) (im_height before)) (\<lambda>expected.
          if length (im_rgba before) \<noteq> expected \<or> length (im_rgba after) \<noteq> expected
          then Inl (invalid_argument ''RGBA storage length does not match image dimensions'')
          else
            let total = nat (im_width before) * nat (im_height before);
                s = fold (scan_pixel before after threshold) [0..<total]
                      (start_scan (im_width before) (im_height before) expected)
            in Inr \<lparr>pd_width = im_width before, pd_height = im_height before, pd_changed_pixels = ps_changed s,
                 pd_total_pixels = total, pd_sums = ps_sums s, pd_max_channel_delta = ps_max_delta s,
                 pd_threshold = threshold, pd_bounds = scan_bounds s, pd_diff_rgba = ps_diff s\<rparr>))"

section \<open>What the measures mean\<close>

definition pixel_changed :: "image \<Rightarrow> image \<Rightarrow> nat \<Rightarrow> nat \<Rightarrow> bool" where
  "pixel_changed before after threshold p \<longleftrightarrow> (\<exists>c < 4. channel_delta before after (p * 4) c > threshold)"

definition changed_below :: "image \<Rightarrow> image \<Rightarrow> nat \<Rightarrow> nat \<Rightarrow> nat set" where
  "changed_below before after threshold n = {p. p < n \<and> pixel_changed before after threshold p}"

definition column :: "image \<Rightarrow> nat \<Rightarrow> int" where
  "column i p = int (p mod nat (im_width i))"

definition row :: "image \<Rightarrow> nat \<Rightarrow> int" where
  "row i p = int (p div nat (im_width i))"

lemma below_4: "c < 4 \<longleftrightarrow> c = 0 \<or> c = 1 \<or> c = 2 \<or> c = (3 :: nat)"
  by auto

lemma channel_delta_distance:
  "int (channel_delta before after offset c) = \<bar>int (im_rgba before ! (offset + c)) - int (im_rgba after ! (offset + c))\<bar>"
  by (simp add: channel_delta_def Let_def)

lemma deltas_changed: "list_ex (\<lambda>d. d > t) (pixel_deltas before after (p * 4)) \<longleftrightarrow> pixel_changed before after t p"
  by (auto simp: pixel_deltas_def pixel_changed_def below_4)

lemma finite_changed [simp]: "finite (changed_below before after t n)"
  by (simp add: changed_below_def)

lemma changed_below_0 [simp]: "changed_below before after t 0 = {}"
  by (simp add: changed_below_def)

lemma changed_below_Suc:
  "changed_below before after t (Suc n) =
     (if pixel_changed before after t n then insert n (changed_below before after t n) else changed_below before after t n)"
  by (auto simp: changed_below_def less_Suc_eq)

lemma not_in_changed_below [simp]: "n \<notin> changed_below before after t n"
  by (simp add: changed_below_def)

definition least_or :: "int \<Rightarrow> int set \<Rightarrow> int" where
  "least_or d A = (if A = {} then d else Min A)"

definition greatest_or :: "int \<Rightarrow> int set \<Rightarrow> int" where
  "greatest_or d A = (if A = {} then d else Max A)"

lemma least_or_insert: "finite A \<Longrightarrow> x \<le> d \<Longrightarrow> least_or d (insert x A) = min (least_or d A) x"
  by (auto simp: least_or_def min.commute)

lemma greatest_or_insert: "finite A \<Longrightarrow> d \<le> x \<Longrightarrow> greatest_or d (insert x A) = max (greatest_or d A) x"
  by (auto simp: greatest_or_def max.commute)

definition scanned :: "image \<Rightarrow> image \<Rightarrow> nat \<Rightarrow> nat \<Rightarrow> pixel_scan \<Rightarrow> bool" where
  "scanned before after t n s \<longleftrightarrow>
     ps_changed s = card (changed_below before after t n) \<and>
     ps_sums s = map (\<lambda>c. \<Sum>p < n. channel_delta before after (p * 4) c) [0, 1, 2, 3] \<and>
     (\<forall>p < n. \<forall>c < 4. channel_delta before after (p * 4) c \<le> ps_max_delta s) \<and>
     (ps_max_delta s = 0 \<or> (\<exists>p < n. \<exists>c < 4. channel_delta before after (p * 4) c = ps_max_delta s)) \<and>
     ps_min_x s = least_or (im_width before) (column before ` changed_below before after t n) \<and>
     ps_min_y s = least_or (im_height before) (row before ` changed_below before after t n) \<and>
     ps_max_x s = greatest_or (- 1) (column before ` changed_below before after t n) \<and>
     ps_max_y s = greatest_or (- 1) (row before ` changed_below before after t n) \<and>
     length (ps_diff s) = length (im_rgba before) \<and>
     (\<forall>p. \<forall>c < 4. p * 4 + c < length (im_rgba before) \<longrightarrow>
       ps_diff s ! (p * 4 + c) =
         (if p < n \<and> pixel_changed before after t p then if c = 3 then 255 else channel_delta before after (p * 4) c else 0))"

lemma scanned_start:
  "scanned before after t 0 (start_scan (im_width before) (im_height before) (length (im_rgba before)))"
  by (simp add: scanned_def start_scan_def least_or_def greatest_or_def)

text \<open>One pixel: the sums and the largest difference take it in whether it counts as changed or not.\<close>

lemma largest_least: "m \<le> fold max ds (m :: nat)"
  by (induction ds arbitrary: m) (auto intro: order_trans [OF max.cobounded2])

lemma largest_upper: "d \<in> set ds \<Longrightarrow> d \<le> fold max ds (m :: nat)"
  by (induction ds arbitrary: m) (auto intro: order_trans [OF max.cobounded1 largest_least])

lemma largest_reached: "fold max ds (m :: nat) = m \<or> fold max ds m \<in> set ds"
proof (induction ds arbitrary: m)
  case (Cons d ds)
  show ?case
    using Cons.IH [of "max d m"] by (cases "d \<le> m") (auto simp: max_def)
qed simp

lemma set_pixel_deltas: "set (pixel_deltas before after offset) = {channel_delta before after offset c | c. c < 4}"
  by (auto simp: pixel_deltas_def below_4)

lemma scanned_pixel:
  assumes "scanned before after t n s" "im_width before \<ge> 1" "im_height before \<ge> 1"
    "length (im_rgba before) = nat (im_width before) * nat (im_height before) * 4"
    "n < nat (im_width before) * nat (im_height before)"
  shows "scanned before after t (Suc n) (scan_pixel before after t n s)"
proof -
  let ?ds = "pixel_deltas before after (n * 4)" and ?w = "nat (im_width before)" and ?h = "nat (im_height before)"
  let ?seen = "s\<lparr>ps_sums := map2 (+) (ps_sums s) ?ds, ps_max_delta := fold max ?ds (ps_max_delta s)\<rparr>"
  have col: "column before n \<le> im_width before" "- 1 \<le> column before n"
  proof -
    have "n mod ?w < ?w"
      using assms(2) by simp
    then show "column before n \<le> im_width before"
      unfolding column_def by linarith
  qed (simp add: column_def)
  have line: "row before n \<le> im_height before" "- 1 \<le> row before n"
  proof -
    have "n div ?w < ?h"
      using assms(5) by (simp add: less_mult_imp_div_less mult.commute)
    then show "row before n \<le> im_height before"
      unfolding row_def by linarith
  qed (simp add: row_def)
  have sums: "map2 (+) (ps_sums s) ?ds = map (\<lambda>c. \<Sum>p < Suc n. channel_delta before after (p * 4) c) [0, 1, 2, 3]"
    using assms(1) by (simp add: scanned_def pixel_deltas_def)
  have upper: "\<forall>p < Suc n. \<forall>c < 4. channel_delta before after (p * 4) c \<le> fold max ?ds (ps_max_delta s)"
  proof (intro allI impI)
    fix p c :: nat assume "p < Suc n" "c < 4"
    show "channel_delta before after (p * 4) c \<le> fold max ?ds (ps_max_delta s)"
    proof (cases "p = n")
      case True
      then have "channel_delta before after (p * 4) c \<in> set ?ds"
        using \<open>c < 4\<close> unfolding set_pixel_deltas by blast
      then show ?thesis
        by (rule largest_upper)
    next
      case False
      then have "channel_delta before after (p * 4) c \<le> ps_max_delta s"
        using assms(1) \<open>p < Suc n\<close> \<open>c < 4\<close> by (simp add: scanned_def)
      then show ?thesis
        using largest_least order_trans by blast
    qed
  qed
  have reached: "fold max ?ds (ps_max_delta s) = 0 \<or>
      (\<exists>p < Suc n. \<exists>c < 4. channel_delta before after (p * 4) c = fold max ?ds (ps_max_delta s))"
    using largest_reached [of ?ds "ps_max_delta s"]
  proof
    assume "fold max ?ds (ps_max_delta s) = ps_max_delta s"
    then show ?thesis
      using assms(1) by (auto simp: scanned_def less_Suc_eq)
  next
    assume "fold max ?ds (ps_max_delta s) \<in> set ?ds"
    then show ?thesis
      unfolding set_pixel_deltas by fastforce
  qed
  show ?thesis
  proof (cases "pixel_changed before after t n")
    case False
    then have "scan_pixel before after t n s = ?seen"
      using deltas_changed [of t before after n] by (simp add: scan_pixel_def Let_def)
    then show ?thesis
      using assms(1) False sums upper reached by (auto simp: scanned_def changed_below_Suc less_Suc_eq)
  next
    case True
    have step: "scan_pixel before after t n s = mark_changed (im_width before) n ?ds ?seen"
      using True deltas_changed [of t before after n] by (simp add: scan_pixel_def Let_def)
    have len: "length (ps_diff s) = length (im_rgba before)" "n * 4 + 3 < length (im_rgba before)"
      using assms by (simp_all add: scanned_def)
    have diff: "ps_diff (mark_changed (im_width before) n ?ds ?seen) ! (p * 4 + c) =
        (if p < Suc n \<and> pixel_changed before after t p then if c = 3 then 255 else channel_delta before after (p * 4) c else 0)"
      if "c < 4" "p * 4 + c < length (im_rgba before)" for p c
    proof (cases "p = n")
      case here: True
      then show ?thesis
        using that(1) True len by (auto simp: below_4 mark_changed_def Let_def pixel_deltas_def)
    next
      case False
      then have "p * 4 + c \<noteq> n * 4" "p * 4 + c \<noteq> n * 4 + 1" "p * 4 + c \<noteq> n * 4 + 2" "p * 4 + c \<noteq> n * 4 + 3"
        using that(1) by presburger+
      then show ?thesis
        using assms(1) that False by (simp add: scanned_def mark_changed_def Let_def less_Suc_eq)
    qed
    have "ps_changed (mark_changed (im_width before) n ?ds ?seen) = card (changed_below before after t (Suc n))"
      using assms(1) True by (simp add: scanned_def mark_changed_def Let_def changed_below_Suc)
    moreover have "ps_sums (mark_changed (im_width before) n ?ds ?seen) = map2 (+) (ps_sums s) ?ds"
      "ps_max_delta (mark_changed (im_width before) n ?ds ?seen) = fold max ?ds (ps_max_delta s)"
      "length (ps_diff (mark_changed (im_width before) n ?ds ?seen)) = length (im_rgba before)"
      using len by (simp_all add: mark_changed_def Let_def)
    moreover have "ps_min_x (mark_changed (im_width before) n ?ds ?seen) = min (ps_min_x s) (column before n)"
      "ps_min_y (mark_changed (im_width before) n ?ds ?seen) = min (ps_min_y s) (row before n)"
      "ps_max_x (mark_changed (im_width before) n ?ds ?seen) = max (ps_max_x s) (column before n)"
      "ps_max_y (mark_changed (im_width before) n ?ds ?seen) = max (ps_max_y s) (row before n)"
      by (simp_all add: mark_changed_def Let_def column_def row_def)
    moreover have "ps_min_x s = least_or (im_width before) (column before ` changed_below before after t n)"
      "ps_min_y s = least_or (im_height before) (row before ` changed_below before after t n)"
      "ps_max_x s = greatest_or (- 1) (column before ` changed_below before after t n)"
      "ps_max_y s = greatest_or (- 1) (row before ` changed_below before after t n)"
      using assms(1) by (simp_all add: scanned_def)
    ultimately show ?thesis
      unfolding step scanned_def using True sums upper reached diff col line
      by (simp add: changed_below_Suc least_or_insert greatest_or_insert)
  qed
qed

lemma scanned_largest:
  assumes "scanned before after t n s" "n > 0"
  shows "ps_max_delta s = Max ((\<lambda>(p, c). channel_delta before after (p * 4) c) ` ({..<n} \<times> {..<4}))"
proof (rule Max_eqI [symmetric])
  have upper: "\<forall>p < n. \<forall>c < 4. channel_delta before after (p * 4) c \<le> ps_max_delta s"
    and reached: "ps_max_delta s = 0 \<or> (\<exists>p < n. \<exists>c < 4. channel_delta before after (p * 4) c = ps_max_delta s)"
    using assms(1) by (simp_all add: scanned_def)
  show "d \<le> ps_max_delta s" if "d \<in> (\<lambda>(p, c). channel_delta before after (p * 4) c) ` ({..<n} \<times> {..<4})" for d
    using that upper by auto
  obtain p c where "p < n" "c < 4" "channel_delta before after (p * 4) c = ps_max_delta s"
  proof (cases "ps_max_delta s = 0")
    case True
    then have "channel_delta before after (0 * 4) 0 = ps_max_delta s"
      using upper assms(2) by (metis le_zero_eq zero_less_numeral)
    then show ?thesis using that [of 0 0] assms(2) by simp
  next
    case False
    then show ?thesis using reached that by fastforce
  qed
  then show "ps_max_delta s \<in> (\<lambda>(p, c). channel_delta before after (p * 4) c) ` ({..<n} \<times> {..<4})"
    by force
qed simp

lemma scan_is_scanned:
  assumes "im_width before \<ge> 1" "im_height before \<ge> 1"
    "length (im_rgba before) = nat (im_width before) * nat (im_height before) * 4"
    "n \<le> nat (im_width before) * nat (im_height before)"
  shows "scanned before after t n (fold (scan_pixel before after t) [0..<n]
     (start_scan (im_width before) (im_height before) (length (im_rgba before))))"
  using assms(4)
proof (induction n)
  case 0
  then show ?case using scanned_start by simp
next
  case (Suc n)
  then show ?case using scanned_pixel [OF _ assms(1-3)] by simp
qed

lemma no_delta_is_equal:
  assumes "length (im_rgba before) = n * 4" "length (im_rgba after) = n * 4"
    "\<forall>p < n. \<forall>c < 4. channel_delta before after (p * 4) c = 0"
  shows "im_rgba before = im_rgba after"
proof (rule nth_equalityI)
  fix i assume "i < length (im_rgba before)"
  then have i: "i div 4 < n" "i mod 4 < 4" "i div 4 * 4 + i mod 4 = i"
    using assms(1) by (auto simp: less_mult_imp_div_less)
  then have "channel_delta before after (i div 4 * 4) (i mod 4) = 0"
    using assms(3) by blast
  then show "im_rgba before ! i = im_rgba after ! i"
    using channel_delta_distance [of before after "i div 4 * 4" "i mod 4"] i(3) by simp
qed (use assms in simp)

section \<open>Hamming distance\<close>

function count_bits :: "64 word \<Rightarrow> nat" where
  "count_bits difference = (if difference = 0 then 0 else Suc (count_bits (difference AND (difference - 1))))"
  by pat_completeness auto
termination
proof (relation "measure unat", goal_cases)
  case (2 d)
  then have "d - 1 < d"
    by (simp add: measure_unat word_less_nat_alt)
  moreover have "d AND (d - 1) \<le> d - 1"
    by (simp add: word_and_le1)
  ultimately show ?case
    by (simp add: word_less_nat_alt word_le_nat_alt)
qed simp

declare count_bits.simps [simp del]

definition hamming_distance :: "64 word \<Rightarrow> 64 word \<Rightarrow> nat" where
  "hamming_distance left right = count_bits (left XOR right)"

text \<open>Taking a number and its predecessor together clears its lowest bit.\<close>

lemma finite_nat_bits: "finite {i. bit (n :: nat) i}"
proof (rule finite_subset)
  show "{i. bit n i} \<subseteq> {i. i < n}"
    by (auto simp: bit_iff_odd) (metis div_less dvd_0_right less_exp not_less order_less_le_trans)
qed simp

lemma card_bits_double: "card {i. bit (2 * n) i} = card {i. bit n i}" for n :: nat
proof -
  have "{i. bit (2 * n) i} = Suc ` {i. bit n i}"
    by (auto simp: bit_double_iff image_iff gr0_conv_Suc)
  then show ?thesis
    by (simp add: card_image)
qed

lemma card_bits_odd: "card {i. bit (2 * n + 1) i} = Suc (card {i. bit n i})" for n :: nat
proof -
  have "bit (2 * n + 1) i \<longleftrightarrow> i = 0 \<or> bit (2 * n) i" for i
    by (cases i) (simp_all add: bit_0 bit_Suc)
  then have "{i. bit (2 * n + 1) i} = insert 0 {i. bit (2 * n) i}"
    by blast
  moreover have "\<not> bit (2 * n) 0"
    by (simp add: bit_0)
  ultimately show ?thesis
    using card_bits_double [of n] finite_nat_bits [of "2 * n"] by simp
qed

lemma clear_lowest: "0 < n \<Longrightarrow> Suc (card {i. bit (n AND (n - 1)) i}) = card {i. bit n i}" for n :: nat
proof (induction n rule: less_induct)
  case (less n)
  show ?case
  proof (cases "even n")
    case True
    then obtain m where m: "n = 2 * m" "0 < m"
      using less.prems by auto
    then have "n - 1 = 2 * (m - 1) + 1"
      by simp
    then have "n AND (n - 1) = 2 * (m AND (m - 1))"
      unfolding m(1) by (simp add: and_rec [of "2 * m"])
    then show ?thesis
      using less.IH [of m] m by (simp only: card_bits_double)
  next
    case False
    then obtain m where m: "n = 2 * m + 1"
      by (elim oddE)
    then have "n AND (n - 1) = 2 * m"
      by (simp add: and_rec [of "Suc (2 * m)"])
    then show ?thesis
      using m by (simp only: card_bits_double card_bits_odd)
  qed
qed

lemma word_bits: "{i. bit (w :: 64 word) i} = {i. bit (unat w) i}"
  by (auto simp: bit_unsigned_iff bit_imp_le_length)

lemma count_bits_card: "count_bits w = card {i. bit w i}"
proof (induction w rule: count_bits.induct)
  case (1 w)
  show ?case
  proof (cases "w = 0")
    case True
    then show ?thesis by (simp add: count_bits.simps)
  next
    case False
    then have "unat (w - 1) = unat w - 1" "0 < unat w"
      by (simp_all add: unat_minus_one unat_gt_0)
    then have "Suc (card {i. bit (w AND (w - 1)) i}) = card {i. bit w i}"
      using clear_lowest [of "unat w"] by (simp add: word_bits unsigned_and_eq)
    then show ?thesis
      using 1 False by (subst count_bits.simps) simp
  qed
qed

section \<open>Properties\<close>

text \<open>
  (C23) The measures of a difference are exact. A pixel counts as changed when a channel differs by more than the
  threshold; the box is the smallest that holds the changed pixels. The sums and the largest difference
  are raw: they take in every channel of every pixel, changed or not, so a largest difference of zero
  says the images are equal. The picture of
  the difference shows the differences of the changed pixels, opaque, and nothing elsewhere.
\<close>

theorem diff_measures_are_exact:
  assumes "diff_pixels before after t = Inr d"
  shows "let n = nat (im_width before) * nat (im_height before); P = changed_below before after t n
     in pd_total_pixels d = n \<and> pd_changed_pixels d = card P \<and>
       pd_sums d = map (\<lambda>c. \<Sum>p < n. nat \<bar>int (im_rgba before ! (p * 4 + c)) - int (im_rgba after ! (p * 4 + c))\<bar>) [0, 1, 2, 3] \<and>
       pd_max_channel_delta d = Max ((\<lambda>(p, c). nat \<bar>int (im_rgba before ! (p * 4 + c)) - int (im_rgba after ! (p * 4 + c))\<bar>) `
         ({..<n} \<times> {..<4})) \<and>
       (pd_max_channel_delta d = 0 \<longleftrightarrow> im_rgba before = im_rgba after) \<and>
       (case pd_bounds d of
          None \<Rightarrow> P = {}
        | Some b \<Rightarrow> P \<noteq> {} \<and> db_x b = Min (column before ` P) \<and> db_y b = Min (row before ` P) \<and>
            db_x b + db_width b - 1 = Max (column before ` P) \<and> db_y b + db_height b - 1 = Max (row before ` P)) \<and>
       (\<forall>p. \<forall>c < 4. p < n \<longrightarrow> pd_diff_rgba d ! (p * 4 + c) =
          (if p \<in> P then if c = 3 then 255 else channel_delta before after (p * 4) c else 0))"
proof -
  define n where "n = nat (im_width before) * nat (im_height before)"
  define P where "P = changed_below before after t n"
  define s where "s = fold (scan_pixel before after t) [0..<n] (start_scan (im_width before) (im_height before) (length (im_rgba before)))"
  have size: "1 \<le> im_width before" "1 \<le> im_height before" "length (im_rgba before) = n * 4" "length (im_rgba after) = n * 4"
    and d: "d = \<lparr>pd_width = im_width before, pd_height = im_height before, pd_changed_pixels = ps_changed s,
      pd_total_pixels = n, pd_sums = ps_sums s, pd_max_channel_delta = ps_max_delta s, pd_threshold = t,
      pd_bounds = scan_bounds s, pd_diff_rgba = ps_diff s\<rparr>"
    using assms by (auto simp: diff_pixels_def checked_size n_def s_def Let_def split: if_splits)
  have scanned: "scanned before after t n s"
    using scan_is_scanned [OF size(1,2), of n after t] size(3) by (simp add: s_def n_def)
  have delta: "channel_delta before after (p * 4) c = nat \<bar>int (im_rgba before ! (p * 4 + c)) - int (im_rgba after ! (p * 4 + c))\<bar>" for p c
    using channel_delta_distance [of before after "p * 4" c] by (metis nat_int)
  have equal: "ps_max_delta s = 0 \<longleftrightarrow> im_rgba before = im_rgba after"
  proof
    assume "ps_max_delta s = 0"
    then have "\<forall>p < n. \<forall>c < 4. channel_delta before after (p * 4) c = 0"
      using scanned by (simp add: scanned_def)
    then show "im_rgba before = im_rgba after"
      by (rule no_delta_is_equal [OF size(3,4)])
  next
    assume "im_rgba before = im_rgba after"
    then have "channel_delta before after (p * 4) c = 0" for p c
      by (simp add: delta)
    then show "ps_max_delta s = 0"
      using scanned by (auto simp: scanned_def)
  qed
  have largest: "ps_max_delta s = Max ((\<lambda>(p, c). channel_delta before after (p * 4) c) ` ({..<n} \<times> {..<4}))"
    by (rule scanned_largest [OF scanned]) (use size(1,2) in \<open>simp add: n_def\<close>)
  have none: "ps_changed s = 0 \<longleftrightarrow> P = {}"
    using scanned by (simp add: scanned_def P_def)
  then have box: "case scan_bounds s of
      None \<Rightarrow> P = {}
    | Some b \<Rightarrow> P \<noteq> {} \<and> db_x b = Min (column before ` P) \<and> db_y b = Min (row before ` P) \<and>
        db_x b + db_width b - 1 = Max (column before ` P) \<and> db_y b + db_height b - 1 = Max (row before ` P)"
    using scanned by (auto simp: scan_bounds_def scanned_def P_def [symmetric] least_or_def greatest_or_def)
  have "ps_diff s ! (p * 4 + c) = (if p \<in> P then if c = 3 then 255 else channel_delta before after (p * 4) c else 0)"
    if "p < n" "c < 4" for p c
  proof -
    have "p * 4 + c < length (im_rgba before)"
      using that size(3) by linarith
    then show ?thesis
      using scanned that by (simp add: scanned_def P_def changed_below_def)
  qed
  moreover have "ps_changed s = card P"
    "ps_sums s = map (\<lambda>c. \<Sum>p < n. channel_delta before after (p * 4) c) [0, 1, 2, 3]"
    using scanned unfolding scanned_def P_def by blast+
  ultimately show ?thesis
    using equal box largest unfolding Let_def n_def [symmetric] P_def [symmetric] by (simp add: d delta)
qed

definition dark :: image where
  "dark = \<lparr>im_width = 2, im_height = 1, im_rgba = replicate 8 0\<rparr>"

definition lit :: image where
  "lit = \<lparr>im_width = 2, im_height = 1, im_rgba = [0, 0, 0, 0, 9, 0, 0, 0]\<rparr>"

theorem diff_measures_are_exact_witness:
  "\<exists>d. diff_pixels dark lit 3 = Inr d \<and> pd_total_pixels d = 2 \<and> pd_max_channel_delta d = 9"
proof -
  obtain d where d: "diff_pixels dark lit 3 = Inr d"
    by (simp add: diff_pixels_def checked_size dark_def lit_def Let_def)
  have "nat (im_width dark) * nat (im_height dark) = 2"
    by (simp add: dark_def eval_nat_numeral)
  moreover have "{..<2} \<times> {..<4} = set (List.product [0, 1 :: nat] [0, 1, 2, 3 :: nat])"
    by auto
  ultimately show ?thesis
    using d diff_measures_are_exact [OF d] by (simp add: Let_def dark_def lit_def eval_nat_numeral)
qed

text \<open>The loop that clears one bit after the other ends, and counts the bits in which two hashes differ.\<close>

theorem hamming_counts_differing_bits:
  "hamming_distance left right = card {i. i < 64 \<and> bit left i \<noteq> bit right i} \<and> hamming_distance left right \<le> 64"
proof -
  have bits: "{i. bit (left XOR right) i} = {i. i < 64 \<and> bit left i \<noteq> bit right i}"
    by (auto simp: bit_xor_iff dest: bit_imp_le_length)
  have "card {i. i < 64 \<and> bit left i \<noteq> bit right i} \<le> card {..< 64 :: nat}"
    by (rule card_mono) auto
  then show ?thesis
    by (simp add: hamming_distance_def count_bits_card bits)
qed

end
