(* ===== verification/Spec2Isabelle.thy ===== *)
theory Spec2Isabelle
  imports Mutation_Safety Job_Store Transport Utf8 Error_Data Request_Checks Runtime_Log Editor_History Expression_Policy Session_Descriptor Route_Failures Session_Kinds Command_Control Input_Actions Change_Journal Schema_Validation Repeated_Failures
  Scene_Exploration Segmentation Argument_Normalization Response_Economy Sha256 Image_Diff
begin

text \<open>
  Didi is a server that lets a client work on a Godot project: with no engine running it reads and
  writes the project's files, and with one it talks to an extension loaded into the editor or a
  running game. The development models the parts that carry its promises. Names in the theories are
  the names of the code in \<open>snake_case\<close>, and every theory opens with the files it covers.

  \<^bold>\<open>The parts and how they meet.\<close> A request reaches \<open>src/mcp\<close>. It is
  read by \<open>Tool_Results\<close>, its arguments are put into the form a tool expects (\<open>Argument_Normalization\<close>) and
  checked against the schema the tool publishes (\<open>Schema_Validation\<close>). A call that changes something
  passes the mutation gate (\<open>Mutation_Safety\<close>): a dry run hands out a token, the confirming call spends
  it, and the gate compares the arguments it was previewed with. Long work runs as jobs (\<open>Job_Store\<close>).
  Refusals get the data every error carries
  (\<open>Error_Data\<close>) and a mark when the same call fails the same way again (\<open>Repeated_Failures\<close>); an answer goes out
  without what the client already holds (\<open>Response_Economy\<close>). A live call travels as frames with a
  base64 payload (\<open>Transport\<close>) to a session found through its descriptor (\<open>Session_Descriptor\<close>);
  when the route fails, the error is annotated with what is known of the engine (\<open>Route_Failures\<close>).
  On the extension's side the router asks whether the kind of session may answer the method
  (\<open>Session_Kinds\<close>), posts the command to the main thread and waits for it (\<open>Command_Control\<close>);
  an expression is first vetted (\<open>Expression_Policy\<close>), an edit enters the undo ledger
  (\<open>Undo_Ledger\<close>, \<open>Editor_History\<close>) and output goes to the bounded log (\<open>Runtime_Log\<close>). Frame by
  frame a running game is watched for broken conditions (\<open>Invariant_Watch\<close>) and explored
  (\<open>Scene_Exploration\<close>), and a picture of it is read back into nodes (\<open>Segmentation\<close>); captures are
  kept for a while (\<open>Capture_Cache\<close>) and compared (\<open>Image_Diff\<close>).
  Whatever changed something is redacted, bounded and kept in the project's journal
  (\<open>Change_Journal\<close>). With no session, \<open>project.godot\<close> is read by the rules of the engine's ConfigFile (\<open>Config_File\<close>)
  and one setting or input action is rewritten in place (\<open>Project_Settings\<close>, \<open>Input_Actions\<close>).

  \<^bold>\<open>Shared theories.\<close> \<open>Didi_Prelude\<close> has bytes, the string helpers of \<open>types.hpp\<close>, decimal and
  hex texts and the bounded queue. \<open>Keyed_Store\<close> states what the components rely on of
  \<open>std::map\<close> as a locale and interprets it on the sorted association lists the model uses.
  \<open>Didi_Json\<close> has JSON values as \<open>nlohmann::json\<close> keeps them, numbers with their representation,
  and \<open>json_bounds.hpp\<close>. \<open>Sequenced_Ring\<close> is the contract of a ring whose records carry
  increasing sequence numbers; the runtime log and the undo ledger interpret it.
  \<open>Frame_Monitor\<close> is the contract of what looks at a game once per frame; the watch and the
  exploration interpret it.

  \<^bold>\<open>What the lemmas show.\<close>
  \<^item> \<open>Mutation_Safety\<close> (\<open>mcp/mutation_safety.cpp\<close>): a token is used once, a confirmed call executes the
    arguments that were previewed, a dry run executes nothing, the tables stay within their bounds, a
    preview can be confirmed, and a call run alone is a run of its thread's own steps, with the table,
    the tokens and the executed calls those steps give.
  \<^item> \<open>Job_Store\<close> (\<open>mcp/jobs.cpp\<close>): the store is bounded, running jobs are never dropped and views
    agree with the jobs.
  \<^item> \<open>Utf8\<close>: the five readers of UTF-8 in the code agree with the encoding of scalar values, by
    interpretations of one scanner; truncation stays in its budget.
  \<^item> \<open>Transport\<close>, \<open>Request_Checks\<close>: round trips of base64 and frames, memory committed for a frame
    before it is checked, text made inert for a terminal, paths, flags and engine versions.
  \<^item> \<open>Runtime_Log\<close>, \<open>Undo_Ledger\<close>, \<open>Editor_History\<close>: pages miss nothing without saying so, and the
    verdicts on undo and redo are true of the engine's history as the ledger observed it, as long as
    the commits fit the ledger; past its capacity a replaced commit can be called applied.
  \<^item> \<open>Expression_Policy\<close> (\<open>runtime/expression_policy.cpp\<close>): an accepted expression uses only the
    closed vocabulary, and validation never reads outside its tokens: every access of a token is
    checked in the model, and None stands for one outside.
  \<^item> \<open>Session_Descriptor\<close>, \<open>Route_Failures\<close>, \<open>Session_Kinds\<close>: a published descriptor is read back, an
    annotated failure states one outcome, a requested stop is not marked retryable while it is the
    remembered obstruction, and the two gates on session kinds agree.
  \<^item> \<open>Command_Control\<close>: the waiting thread, the main thread and the command are three parties of a step
    relation. In every interleaving a command answered as not started never starts, every wait is
    answered, and a response is published once.
  \<^item> \<open>Config_File\<close>, \<open>Config_Document\<close> (\<open>common/config_file_syntax.cpp\<close>): the scan and the walk over
    a value always end, entries are in order, and a file of plain lines is read back.
  \<^item> \<open>Project_Settings\<close>, \<open>Setting_Writes\<close>, \<open>Setting_Literals\<close>
    (\<open>offline/project_settings_file.cpp\<close>): a write refines the update of the map of settings on plain
    files and for plain names, every rendered JSON value is one the engine loads, and concrete files
    and names show where a write is not that update.
  \<^item> \<open>Schema_Validation\<close> (\<open>mcp/schema_validation.cpp\<close>): for a schema at most eight shapes deep the
    check accepts exactly what a coinductive reading of the keywords accepts, without a bound; a
    refusal of the call's own names lists every wrong one in its sentence; the stamps add their bound and nothing else.
  \<^item> \<open>Repeated_Failures\<close> (\<open>mcp/repeated_failures.cpp\<close>): a mark on a repeated refusal is true of the
    history, exact as long as nothing was evicted, and the memory is bounded, though not by the bound
    its header names.
  \<^item> \<open>Change_Journal\<close> (\<open>mcp/change_journal.cpp\<close>): a secret has no influence on what is recorded,
    redaction hides nothing else, an append keeps the ids without a hole and every id is found or
    refused truthfully, and each listed entry carries the verdicts on its own undo steps.
  \<^item> \<open>Invariant_Watch\<close>, \<open>Scene_Exploration\<close> (\<open>runtime/invariant_watch.cpp\<close>,
    \<open>runtime/scene_exploration.cpp\<close>): an outcome is true of the frames that were looked at, a reported
    violation is the first. Over frames with a reading for every probe, which the extension's are, a
    reported interval without movement had none, and a long one is reported, also by a run that stops
    there.
  \<^item> \<open>Segmentation\<close> (\<open>runtime/segmentation.cpp\<close>): a region's count, box and colour are those of
    the pixels close to it, its colour the commonest up to 256 shades.
  \<^item> \<open>Argument_Normalization\<close>, \<open>Tool_Results\<close>, \<open>Response_Economy\<close> (\<open>mcp\<close>): normalized arguments satisfy
    a schema at most eight shapes deep and are otherwise the ones that were sent, a response answers its request, and an
    economized answer leaves out only what was sent before or is there twice.
  \<^item> \<open>Sha256\<close> (\<open>common/sha256.cpp\<close>): the digest is the one of the standard.
  \<^item> \<open>Capture_Cache\<close>, \<open>Image_Diff\<close> (\<open>common/capture_cache.cpp\<close>, \<open>common/image_diff.cpp\<close>): the cache
    is the list of recent frames cut to its budget, the pixel measures of a difference are exact, and
    the distance of two hashes counts their differing bits.
  \<^item> \<open>Input_Actions\<close> (\<open>offline/input_actions.cpp\<close>): a parsed event is well typed and a written action of a
    plain name is registered.

  \<^bold>\<open>Bounds and fuel.\<close> Word arithmetic is used where the code relies on wrap-around (sequence numbers,
  request ids, digests); elsewhere integers are \<open>nat\<close> or \<open>int\<close> with the code's limits written out. Two
  recursions have fuel. The value walk of \<open>Config_File\<close> gets two calls for every byte and two more, and
  \<open>read_total\<close> proves that enough. The rest of a line is scanned with a bound that \<open>scan_rest_loop\<close> shows
  never decides anything. All other recursions have a proved measure.

  \<^bold>\<open>Parameters.\<close> What is not in the repository is an argument of the definitions that use it: the clock
  and random bytes, the text \<open>nlohmann::json\<close> shows a value with and the value of a text, conversions the language leaves open,
  the answers of the engine and of the operating system about a process, and the outcome of a command.
  A text file is its contents; the lock and the atomic replacement around it are not modelled.

  \<^bold>\<open>Not modelled.\<close> The engine bridge (\<open>gdextension/bridge_*.cpp\<close>, \<open>godot_bridge.cpp\<close>) and most tool
  handlers only pass values between a request and calls into the engine, whose behaviour is not in the
  repository. Threads, sockets, processes, signal handlers, file locks and rendering are operating system
  calls. The tables of tools, prompts and descriptions in \<open>mcp\<close> are data. \<open>json.hpp\<close>,
  \<open>stb_image_write.h\<close> and \<open>gdextension_interface.h\<close> are third-party code. Of
  \<open>config_file_syntax.cpp\<close> the two readings through \<open>strtod\<close> are left out, and of
  \<open>image_diff.cpp\<close> the measures on brightness, sums and cosines of doubles. The offline readers of scenes,
  scripts and imports, the checkpoint store and the scenario runner rest on the file system and on
  processes at every step; what they share, the rules of ConfigFile and the digest, is modelled.
\<close>

end
